(* ===== verification/Entangle_Prelude.thy ===== *)
theory Entangle_Prelude
  imports Main "HOL-Library.Word" "HOL-Library.Monad_Syntax"
begin

text \<open>
  Shared vocabulary of the development: the names of Rust's fixed-width integers, the
  \<open>Result\<close> type, the convention for panics, the collections of rewrite rules the component
  theories extend, and the facts on words and lists that several components use.

  \<^item> A Rust \<open>Result<T, E>\<close> is a value of \<open>('t, 'e) result\<close>.
  \<^item> A call that may panic (an \<open>assert!\<close>, a slice index out of range) has type \<open>'a option\<close>;
    \<open>None\<close> is the panic. Sequencing is the option monad, so a panic ends the caller as well.
  \<^item> The arithmetic is that of a release build: \<open>+\<close>, \<open>-\<close> and \<open>*\<close> wrap and \<open>debug_assert!\<close> is
    not evaluated. That the asserted conditions hold anyway is stated by lemmas.
  \<^item> \<open>usize\<close> has 64 bits (every supported target of the crates is a 64-bit Unix).
\<close>

unbundle bit_operations_syntax

type_synonym u8 = "8 word"
type_synonym u16 = "16 word"
type_synonym u32 = "32 word"
type_synonym u64 = "64 word"
type_synonym u128 = "128 word"
type_synonym usize = "64 word"
type_synonym isize = "64 word"

datatype ('a, 'e) result = Ok 'a | Err 'e

fun is_Ok :: "('a, 'e) result \<Rightarrow> bool" where
  "is_Ok (Ok _) = True"
| "is_Ok (Err _) = False"

definition unwrap :: "('a, 'e) result \<Rightarrow> 'a option" where
  "unwrap r = (case r of Ok a \<Rightarrow> Some a | Err _ \<Rightarrow> None)"

lemma unwrap_simps [simp]: "unwrap (Ok a) = Some a" "unwrap (Err e) = None"
  by (simp_all add: unwrap_def)

text \<open>\<open>assert!\<close> and \<open>assert_eq!\<close> panic when they fail.\<close>

definition assert_that :: "bool \<Rightarrow> unit option" where
  "assert_that b = (if b then Some () else None)"

lemma assert_that_simps [simp]: "assert_that True = Some ()" "assert_that False = None"
  by (simp_all add: assert_that_def)

fun map_err :: "('e \<Rightarrow> 'f) \<Rightarrow> ('a, 'e) result \<Rightarrow> ('a, 'f) result" where
  "map_err f (Ok a) = Ok a"
| "map_err f (Err e) = Err (f e)"

fun map_ok :: "('a \<Rightarrow> 'b) \<Rightarrow> ('a, 'e) result \<Rightarrow> ('b, 'e) result" where
  "map_ok f (Ok a) = Ok (f a)"
| "map_ok f (Err e) = Err e"

text \<open>\<open>slice[i]\<close> and \<open>slice[i] = v\<close>: an index out of range panics.\<close>

definition idx :: "'a list \<Rightarrow> nat \<Rightarrow> 'a option" where
  "idx xs i = (if i < length xs then Some (xs ! i) else None)"

definition upd :: "'a list \<Rightarrow> nat \<Rightarrow> 'a \<Rightarrow> 'a list option" where
  "upd xs i v = (if i < length xs then Some (xs[i := v]) else None)"

text \<open>Collections of rewrite rules: unfoldings of the operations of a component, and the facts
  a well-formedness invariant gives.\<close>

named_theorems op_defs "definitions of the operations of the modelled components"
named_theorems wf_simps "rewrite rules for well-formed states"

lemma idx_Some [simp]: "i < length xs \<Longrightarrow> idx xs i = Some (xs ! i)"
  by (simp add: idx_def)

lemma idx_None [simp]: "length xs \<le> i \<Longrightarrow> idx xs i = None"
  by (simp add: idx_def)

lemma upd_Some [simp]: "i < length xs \<Longrightarrow> upd xs i v = Some (xs[i := v])"
  by (simp add: upd_def)

lemma upd_None [simp]: "length xs \<le> i \<Longrightarrow> upd xs i v = None"
  by (simp add: upd_def)

lemma idx_eq_Some_iff: "idx xs i = Some x \<longleftrightarrow> i < length xs \<and> xs ! i = x"
  by (auto simp: idx_def)

lemma upd_eq_Some_iff: "upd xs i v = Some ys \<longleftrightarrow> i < length xs \<and> ys = xs[i := v]"
  by (auto simp: upd_def)

lemma map_err_Ok_iff [simp]: "map_err f r = Ok a \<longleftrightarrow> r = Ok a"
  by (cases r) auto

lemma is_Ok_map [simp]: "is_Ok (map_ok f r) = is_Ok r" "is_Ok (map_err g r) = is_Ok r"
  by (cases r; simp)+

lemma map_ok_Err_iff [simp]: "map_ok f r = Err e \<longleftrightarrow> r = Err e"
  by (cases r) auto

subsection \<open>Words\<close>

text \<open>Splitting a 64-bit word at a bit position, the layout of every packed word of the crates.\<close>

lemma drop_bit_pack [simp]:
  fixes a :: "'a::len word" and b :: "'b::len word"
  assumes "LENGTH('b) \<le> n" and "n + LENGTH('a) \<le> LENGTH('c::len)"
  shows "ucast (drop_bit n (push_bit n (ucast a) OR (ucast b :: 'c word))) = a"
  using assms by (intro bit_word_eqI) (auto simp: bit_simps dest: bit_imp_le_length)

lemma unat_of_nat_less: "n < 2 ^ LENGTH('a) \<Longrightarrow> unat (of_nat n :: 'a::len word) = n"
  by (simp add: unat_of_nat take_bit_nat_eq_self)

lemma unat_bound: "unat (w :: 'a::len word) < 2 ^ LENGTH('a)"
  by (rule unsigned_less)

lemma of_nat_inj_window:
  fixes a b :: nat
  assumes "(of_nat a :: 'a::len word) = of_nat b" and "a \<le> b" and "b - a < 2 ^ LENGTH('a)"
  shows "a = b"
proof -
  have "(of_nat (b - a) :: 'a word) = of_nat b - of_nat a"
    using assms(2) by (simp add: of_nat_diff)
  then have "unat (of_nat (b - a) :: 'a word) = 0"
    using assms(1) by simp
  then have "b - a = 0"
    using assms(3) by (simp add: unat_of_nat_less)
  then show ?thesis using assms(2) by simp
qed

lemma unat_of_nat_diff:
  fixes a b :: nat
  assumes "a \<le> b" and "b - a < 2 ^ LENGTH('a)"
  shows "unat (of_nat b - of_nat a :: 'a::len word) = b - a"
proof -
  have "(of_nat b - of_nat a :: 'a word) = of_nat (b - a)"
    using assms(1) by (simp add: of_nat_diff)
  then show ?thesis
    using assms(2) by (simp add: unat_of_nat_less)
qed

end
