(* ===== verification/Tagged_Free_List.thy ===== *)
theory Tagged_Free_List
  imports Entangle_Prelude
begin

text \<open>
  The intrusive free list under \<open>UniqueIndexSet\<close> and \<open>MpmcContainer\<close>: an array of successor
  indices and the index of the first free slot, \<open>u32::MAX\<close> for none. This theory is about the
  shape of that list only: a chain predicate, the executable walk that reads the list off the
  array, and what a push and a pop do to it. The two containers pack the first index with a
  32-bit tag into one 64-bit word and have operations of their own over it.
\<close>

definition SENTINEL :: u32 where
  "SENTINEL = 0xFFFFFFFF"

lemma unat_SENTINEL [simp]: "unat SENTINEL = 4294967295"
  by (simp add: SENTINEL_def)

lemma less_SENTINEL_neq [simp]: "i < SENTINEL \<Longrightarrow> i \<noteq> SENTINEL"
  by simp

text \<open>The next array of a fresh list: every slot points to its successor, the last to none.\<close>

definition fresh_next :: "u32 \<Rightarrow> u32 list" where
  "fresh_next capacity =
     map (\<lambda>i. if of_nat i + 1 < capacity then of_nat i + 1 else SENTINEL) [0..<unat capacity]"

fun fl_chain :: "u32 list \<Rightarrow> u32 \<Rightarrow> u32 list \<Rightarrow> bool" where
  "fl_chain nxt h [] \<longleftrightarrow> h = SENTINEL"
| "fl_chain nxt h (x # xs) \<longleftrightarrow>
     h = x \<and> x \<noteq> SENTINEL \<and> unat x < length nxt \<and> fl_chain nxt (nxt ! unat x) xs"

text \<open>Reading the list off the array, for at most \<open>fuel\<close> slots. A chain never repeats a slot, so
  \<open>length nxt\<close> steps are enough (\<open>fl_walk_chain\<close>).\<close>

fun fl_walk :: "nat \<Rightarrow> u32 list \<Rightarrow> u32 \<Rightarrow> u32 list" where
  "fl_walk 0 nxt h = []"
| "fl_walk (Suc fuel) nxt h =
     (if h = SENTINEL \<or> length nxt \<le> unat h then [] else h # fl_walk fuel nxt (nxt ! unat h))"

lemma fl_chain_SENTINEL [simp]: "fl_chain nxt SENTINEL xs \<longleftrightarrow> xs = []"
  by (cases xs) auto

lemma fl_chain_unique: "fl_chain nxt h xs \<Longrightarrow> fl_chain nxt h ys \<Longrightarrow> xs = ys"
proof (induction xs arbitrary: h ys)
  case Nil
  then show ?case by simp
next
  case (Cons x xs)
  then show ?case by (cases ys) auto
qed

lemma fl_chain_append:
  "fl_chain nxt h (xs @ y # ys) \<Longrightarrow> fl_chain nxt y (y # ys)"
  by (induction xs arbitrary: h) auto

lemma fl_chain_head_notin_tail: "fl_chain nxt h (x # xs) \<Longrightarrow> x \<notin> set xs"
proof
  assume chain: "fl_chain nxt h (x # xs)" and "x \<in> set xs"
  then obtain ys zs where "xs = ys @ x # zs"
    by (auto simp: in_set_conv_decomp)
  with chain have "fl_chain nxt x (x # zs)"
    using fl_chain_append [of nxt h "x # ys" x zs] by simp
  moreover from chain have "fl_chain nxt x (x # xs)" by simp
  ultimately have "x # zs = x # xs" by (rule fl_chain_unique)
  with \<open>xs = ys @ x # zs\<close> show False by simp
qed

lemma fl_chain_distinct: "fl_chain nxt h xs \<Longrightarrow> distinct xs"
proof (induction xs arbitrary: h)
  case (Cons x xs)
  then show ?case using fl_chain_head_notin_tail [of nxt h x xs] by auto
qed simp

lemma fl_chain_bound: "fl_chain nxt h xs \<Longrightarrow> x \<in> set xs \<Longrightarrow> unat x < length nxt \<and> x \<noteq> SENTINEL"
  by (induction xs arbitrary: h) auto

lemma fl_chain_head_bound: "fl_chain nxt h xs \<Longrightarrow> h = SENTINEL \<or> unat h < length nxt"
  by (cases xs) auto

lemma inj_on_word_unat: "inj_on (unat :: 'a::len word \<Rightarrow> nat) A"
  by (simp add: inj_on_def unsigned_word_eqI)

lemma card_below: "card {i :: u32. i < c} = unat c"
proof -
  have "{i :: u32. i < c} = of_nat ` {..<unat c}"
  proof (intro equalityI subsetI)
    fix i :: u32 assume "i \<in> {i. i < c}"
    then show "i \<in> of_nat ` {..<unat c}"
      by (intro image_eqI [of _ _ "unat i"]) (auto simp: word_less_nat_alt)
  next
    fix i :: u32 assume "i \<in> of_nat ` {..<unat c}"
    then obtain n where "i = of_nat n" "n < unat c" by auto
    moreover have "n < 2 ^ LENGTH(32)"
      using calculation(2) unat_bound [of c] by simp
    ultimately show "i \<in> {i. i < c}"
      by (simp add: word_less_nat_alt unat_of_nat_less)
  qed
  moreover have "inj_on (of_nat :: nat \<Rightarrow> u32) {..<unat c}"
    using unat_bound [of c] by (intro inj_on_inverseI [of _ unat]) (simp add: unat_of_nat_less)
  ultimately show ?thesis by (simp add: card_image)
qed

lemma fl_chain_length: "fl_chain nxt h xs \<Longrightarrow> length xs \<le> length nxt"
proof -
  assume chain: "fl_chain nxt h xs"
  have "unat ` set xs \<subseteq> {..<length nxt}"
    using fl_chain_bound [OF chain] by auto
  then have "card (unat ` set xs) \<le> length nxt"
    using card_mono [of "{..<length nxt}" "unat ` set xs"] by simp
  moreover have "card (unat ` set xs) = length xs"
    using fl_chain_distinct [OF chain]
    by (metis card_image distinct_card inj_on_word_unat)
  ultimately show ?thesis by simp
qed

lemma fl_walk_chain_aux: "fl_chain nxt h xs \<Longrightarrow> length xs \<le> n \<Longrightarrow> fl_walk n nxt h = xs"
proof (induction xs arbitrary: h n)
  case Nil
  then show ?case by (cases n) auto
next
  case (Cons x xs)
  then show ?case by (cases n) auto
qed

lemma fl_walk_chain: "fl_chain nxt h xs \<Longrightarrow> fl_walk (length nxt) nxt h = xs"
  using fl_walk_chain_aux fl_chain_length by blast

lemma fl_chain_update_outside [simp]:
  "i \<notin> set xs \<Longrightarrow> fl_chain (nxt[unat i := v]) h xs = fl_chain nxt h xs"
proof (induction xs arbitrary: h)
  case (Cons x xs)
  then have "unat i \<noteq> unat x" by (auto simp: unsigned_word_eqI)
  with Cons show ?case by simp
qed simp

lemma fl_chain_push:
  assumes "fl_chain nxt h xs" and "i \<notin> set xs" and "unat i < length nxt" and "i \<noteq> SENTINEL"
  shows "fl_chain (nxt[unat i := h]) i (i # xs)"
  using assms by simp

lemma length_fresh_next [simp]: "length (fresh_next c) = unat c"
  by (simp add: fresh_next_def)

lemma fresh_next_nth:
  assumes "i < unat c"
  shows "fresh_next c ! i = (if Suc i < unat c then of_nat (Suc i) else SENTINEL)"
proof -
  have "unat c < 2 ^ 32"
    using unat_bound [of c] by simp
  with assms have "Suc i < 2 ^ 32" by simp
  then have u: "unat (of_nat (Suc i) :: u32) = Suc i"
    by (intro unat_of_nat_less) simp
  have succ: "(of_nat i + 1 :: u32) = of_nat (Suc i)"
    by (simp only: of_nat_Suc add.commute)
  have less: "(of_nat (Suc i) < c) = (Suc i < unat c)"
    by (simp only: word_less_nat_alt u)
  have nth: "fresh_next c ! i = (if of_nat i + 1 < c then of_nat i + 1 else SENTINEL)"
    using assms by (simp add: fresh_next_def)
  show ?thesis unfolding nth less succ ..
qed

lemma fresh_next_chain_from:
  assumes "c \<le> SENTINEL" and "k \<le> unat c"
  shows "fl_chain (fresh_next c) (if k < unat c then of_nat k else SENTINEL)
           (map of_nat [k..<unat c])"
  using assms(2)
proof (induction "unat c - k" arbitrary: k)
  case 0
  then show ?case by simp
next
  case (Suc n)
  then have k: "k < unat c" by simp
  have c: "unat c \<le> 4294967295"
    using assms(1) by (simp add: word_le_nat_alt)
  with k have uk: "unat (of_nat k :: u32) = k"
    by (simp add: unat_of_nat_less)
  with k c have "(of_nat k :: u32) \<noteq> SENTINEL"
    by (metis linorder_not_less unat_SENTINEL)
  moreover have "[k..<unat c] = k # [Suc k..<unat c]"
    using k by (simp add: upt_rec)
  ultimately show ?case
    using Suc.hyps(1) [of "Suc k"] Suc.hyps(2) k uk by (simp add: fresh_next_nth)
qed

text \<open>A fresh array holds every index of \<open>[0..<capacity]\<close>, in ascending order.\<close>

lemma fresh_next_chain:
  "0 < c \<Longrightarrow> c \<le> SENTINEL \<Longrightarrow> fl_chain (fresh_next c) 0 (map of_nat [0..<unat c])"
  using fresh_next_chain_from [of c 0] by (simp add: word_less_nat_alt)

end
