(* ===== verification/Allocator_Specs.thy ===== *)
theory Allocator_Specs
  imports Entangle_Prelude
begin

text \<open>
  What a layer relies on when it asks the layer below for a slot. The contract is used twice: for
  the indices of \<open>UniqueIndexSet\<close>, the contract the transport layer relies on, and for the chunks of
  a pool or a data segment, the contract the ports rely on. The state of an allocator is opaque;
  the contract speaks of the set of free slots, of the set of all slots and of an invariant only. The client
  lemmas at the end (a run of acquisitions hands out distinct indices, an acquired index stays
  out of the free set until it is released) are proved from the contract alone and hold for
  every implementation that interprets it.
\<close>

locale slot_allocator =
  fixes invar :: "'s \<Rightarrow> bool"
    and free :: "'s \<Rightarrow> 'i set"
    and slots :: "'s \<Rightarrow> 'i set"
    and acquire :: "'s \<Rightarrow> (('i, 'e) result \<times> 's) option"
    and release :: "'i \<Rightarrow> 's \<Rightarrow> 's option"
  assumes finite_slots: "finite (slots s)"
    and free_slots: "invar s \<Longrightarrow> free s \<subseteq> slots s"
    and acquire_free: "invar s \<Longrightarrow> free s \<noteq> {} \<Longrightarrow>
      \<exists>i s'. acquire s = Some (Ok i, s') \<and> i \<in> free s \<and> free s' = free s - {i} \<and>
        invar s' \<and> slots s' = slots s"
    and acquire_full: "invar s \<Longrightarrow> free s = {} \<Longrightarrow> \<exists>e. acquire s = Some (Err e, s)"
    and release_held: "invar s \<Longrightarrow> i \<in> slots s \<Longrightarrow> i \<notin> free s \<Longrightarrow>
      \<exists>s'. release i s = Some s' \<and> free s' = insert i (free s) \<and> invar s' \<and> slots s' = slots s"
begin

lemma finite_free: "invar s \<Longrightarrow> finite (free s)"
  using finite_slots free_slots finite_subset by blast

lemma acquire_total: "invar s \<Longrightarrow> \<exists>r s'. acquire s = Some (r, s') \<and> invar s' \<and> slots s' = slots s"
  using acquire_free [of s] acquire_full [of s] by (cases "free s = {}") auto

lemma acquire_OkD:
  assumes "invar s" and "acquire s = Some (Ok i, s')"
  shows "i \<in> free s \<and> i \<in> slots s \<and> free s' = free s - {i} \<and> invar s' \<and> slots s' = slots s"
proof (cases "free s = {}")
  case True
  with assms acquire_full [of s] show ?thesis by auto
next
  case False
  with assms acquire_free [of s] free_slots [of s] show ?thesis by auto
qed

lemma acquire_ErrD:
  assumes "invar s" and "acquire s = Some (Err e, s')"
  shows "free s = {} \<and> s' = s"
proof (cases "free s = {}")
  case True
  with assms acquire_full [of s] show ?thesis by auto
next
  case False
  with assms acquire_free [of s] show ?thesis by auto
qed

text \<open>The indices \<open>n\<close> consecutive acquisitions hand out, and the state they leave.\<close>

fun acquire_n :: "nat \<Rightarrow> 's \<Rightarrow> ('i list \<times> 's) option" where
  "acquire_n 0 s = Some ([], s)"
| "acquire_n (Suc n) s =
     (case acquire s of
        None \<Rightarrow> None
      | Some (Err e, s') \<Rightarrow> Some ([], s')
      | Some (Ok i, s') \<Rightarrow> map_option (\<lambda>(is, s''). (i # is, s'')) (acquire_n n s'))"

lemma acquire_n_spec:
  "invar s \<Longrightarrow> \<exists>is s'. acquire_n n s = Some (is, s') \<and> distinct is \<and> set is \<subseteq> free s \<and>
     free s' = free s - set is \<and> length is = min n (card (free s)) \<and> invar s' \<and> slots s' = slots s"
proof (induction n arbitrary: s)
  case 0
  then show ?case by simp
next
  case (Suc n)
  show ?case
  proof (cases "free s = {}")
    case True
    with acquire_full [OF Suc.prems] obtain e where "acquire s = Some (Err e, s)" by blast
    with True Suc.prems show ?thesis by simp
  next
    case False
    with acquire_free [OF Suc.prems] obtain i s1
      where s1: "acquire s = Some (Ok i, s1)" "i \<in> free s" "free s1 = free s - {i}"
        "invar s1" "slots s1 = slots s"
      by blast
    from Suc.IH [OF s1(4)] obtain "is" s2
      where s2: "acquire_n n s1 = Some (is, s2)" "distinct is" "set is \<subseteq> free s1"
        "free s2 = free s1 - set is" "length is = min n (card (free s1))" "invar s2"
        "slots s2 = slots s1"
      by blast
    have "acquire_n (Suc n) s = Some (i # is, s2)"
      using s1 s2 by simp
    moreover have "length (i # is) = min (Suc n) (card (free s))"
      using s1 s2 card_Diff_singleton [OF s1(2)] card_gt_0_iff [of "free s"] False
        finite_free [OF Suc.prems] by auto
    moreover have "distinct (i # is)" using s1 s2 by auto
    moreover have "set (i # is) \<subseteq> free s" using s1 s2 by auto
    moreover have "free s2 = free s - set (i # is)" using s1 s2 by auto
    ultimately show ?thesis using s1 s2 by metis
  qed
qed

lemma release_acquire_inverse:
  assumes "invar s" and "acquire s = Some (Ok i, s')"
  shows "\<exists>s''. release i s' = Some s'' \<and> free s'' = free s \<and> invar s''"
proof -
  from acquire_OkD [OF assms] have *: "invar s'" "i \<in> slots s'" "i \<notin> free s'"
    "free s' = free s - {i}" "i \<in> free s"
    by auto
  from release_held [OF *(1-3)] obtain s'' where "release i s' = Some s''"
    "free s'' = insert i (free s')" "invar s''"
    by blast
  with * show ?thesis by auto
qed

end

end
