(* ===== verification/Index_Set.thy ===== *)
theory Index_Set
  imports Tagged_Free_List Allocator_Specs
begin

text \<open>
  \<open>UniqueIndexSet\<close> of \<open>crates/entangle-lockfree/src/index_set.rs\<close>: the pool of slot indices. The
  record has the struct's fields; \<open>uis_acquire\<close> and \<open>uis_release\<close> are the operations as one
  thread sees them when no other thread interferes. \<open>acq_step\<close> and \<open>rel_step\<close> are the same two
  methods one atomic access at a time, with the weak compare-exchange allowed to fail
  spuriously; a lone thread that runs them to the end computes \<open>uis_acquire\<close> and \<open>uis_release\<close>
  (\<open>acq_run_solo\<close>, \<open>rel_run_solo\<close>). Interleaved threads are the subject of \<open>Index_Set_Conc\<close>.
\<close>

subsection \<open>The struct and its packed head word\<close>

record unique_index_set =
  uis_head :: u64
  uis_next :: "u32 list"
  uis_capacity :: u32
  uis_borrowed :: u32

datatype acquire_error = AcquireError

definition HEAD_SHIFT :: nat where
  "HEAD_SHIFT = 32"

definition TAG_MASK :: u64 where
  "TAG_MASK = 0xFFFFFFFF"

definition uis_pack :: "u32 \<Rightarrow> u32 \<Rightarrow> u64" where
  "uis_pack head tag = push_bit HEAD_SHIFT (ucast head) OR (ucast tag AND TAG_MASK)"

definition uis_extract_head :: "u64 \<Rightarrow> u32" where
  "uis_extract_head val = ucast (drop_bit HEAD_SHIFT val)"

definition uis_extract_tag :: "u64 \<Rightarrow> u32" where
  "uis_extract_tag val = ucast (val AND TAG_MASK)"

subsection \<open>The methods\<close>

definition uis_new :: "u32 \<Rightarrow> unique_index_set option" where
  "uis_new capacity =
     (if capacity > 0 \<and> capacity < SENTINEL
      then Some \<lparr>uis_head = uis_pack 0 0, uis_next = fresh_next capacity,
                 uis_capacity = capacity, uis_borrowed = 0\<rparr>
      else None)"

definition uis_acquire ::
  "unique_index_set \<Rightarrow> ((u32, acquire_error) result \<times> unique_index_set) option" where
  "uis_acquire s =
     (let old = uis_head s; head_idx = uis_extract_head old
      in if head_idx = SENTINEL then Some (Err AcquireError, s)
         else do {
           next_idx \<leftarrow> idx (uis_next s) (unat head_idx);
           let tag = uis_extract_tag old;
           Some (Ok head_idx, s\<lparr>uis_head := uis_pack next_idx (tag + 1),
                                uis_borrowed := uis_borrowed s + 1\<rparr>)
         })"

definition uis_release :: "u32 \<Rightarrow> unique_index_set \<Rightarrow> unique_index_set option" where
  "uis_release index s =
     (let old = uis_head s; head_idx = uis_extract_head old
      in do {
           nxt \<leftarrow> upd (uis_next s) (unat index) head_idx;
           let tag = uis_extract_tag old;
           Some (s\<lparr>uis_next := nxt, uis_head := uis_pack index (tag + 1),
                   uis_borrowed := uis_borrowed s - 1\<rparr>)
         })"

definition uis_borrowed_count :: "unique_index_set \<Rightarrow> u32" where
  "uis_borrowed_count s = uis_borrowed s"

text \<open>\<open>saturating_sub\<close>\<close>

definition uis_available :: "unique_index_set \<Rightarrow> u32" where
  "uis_available s =
     (if uis_borrowed_count s \<le> uis_capacity s then uis_capacity s - uis_borrowed_count s else 0)"

subsection \<open>The methods, one atomic access at a time\<close>

text \<open>
  The program counter of a thread inside \<open>acquire\<close>: \<open>AcqLoop old\<close> at the top of the loop,
  \<open>AcqCas old h n\<close> after the load of \<open>next[h]\<close>, \<open>AcqCount h\<close> between the successful exchange
  and the increment of \<open>borrowed\<close>. The flag is the spurious failure of
  \<open>compare_exchange_weak\<close>.
\<close>

datatype acq_pc =
    AcqStart
  | AcqLoop u64
  | AcqCas u64 u32 u32
  | AcqCount u32
  | AcqRet "(u32, acquire_error) result"
  | AcqPanic

fun acq_step :: "bool \<Rightarrow> unique_index_set \<Rightarrow> acq_pc \<Rightarrow> unique_index_set \<times> acq_pc" where
  "acq_step spurious s AcqStart = (s, AcqLoop (uis_head s))"
| "acq_step spurious s (AcqLoop old) =
     (let head_idx = uis_extract_head old
      in if head_idx = SENTINEL then (s, AcqRet (Err AcquireError))
         else case idx (uis_next s) (unat head_idx) of
                None \<Rightarrow> (s, AcqPanic)
              | Some next_idx \<Rightarrow> (s, AcqCas old head_idx next_idx))"
| "acq_step spurious s (AcqCas old head_idx next_idx) =
     (if uis_head s = old \<and> \<not> spurious
      then (s\<lparr>uis_head := uis_pack next_idx (uis_extract_tag old + 1)\<rparr>, AcqCount head_idx)
      else (s, AcqLoop (uis_head s)))"
| "acq_step spurious s (AcqCount head_idx) =
     (s\<lparr>uis_borrowed := uis_borrowed s + 1\<rparr>, AcqRet (Ok head_idx))"
| "acq_step spurious s (AcqRet r) = (s, AcqRet r)"
| "acq_step spurious s AcqPanic = (s, AcqPanic)"

text \<open>Inside \<open>release(index)\<close>: \<open>RelCas\<close> is after the store to \<open>next[index]\<close>.\<close>

datatype rel_pc =
    RelStart u32
  | RelLoop u32 u64
  | RelCas u32 u64
  | RelCount
  | RelRet
  | RelPanic

fun rel_step :: "bool \<Rightarrow> unique_index_set \<Rightarrow> rel_pc \<Rightarrow> unique_index_set \<times> rel_pc" where
  "rel_step spurious s (RelStart index) = (s, RelLoop index (uis_head s))"
| "rel_step spurious s (RelLoop index old) =
     (case upd (uis_next s) (unat index) (uis_extract_head old) of
        None \<Rightarrow> (s, RelPanic)
      | Some nxt \<Rightarrow> (s\<lparr>uis_next := nxt\<rparr>, RelCas index old))"
| "rel_step spurious s (RelCas index old) =
     (if uis_head s = old \<and> \<not> spurious
      then (s\<lparr>uis_head := uis_pack index (uis_extract_tag old + 1)\<rparr>, RelCount)
      else (s, RelLoop index (uis_head s)))"
| "rel_step spurious s RelCount = (s\<lparr>uis_borrowed := uis_borrowed s - 1\<rparr>, RelRet)"
| "rel_step spurious s RelRet = (s, RelRet)"
| "rel_step spurious s RelPanic = (s, RelPanic)"

text \<open>Running one thread alone; the list says which of its exchanges fail spuriously.\<close>

fun acq_run :: "bool list \<Rightarrow> unique_index_set \<Rightarrow> acq_pc \<Rightarrow> unique_index_set \<times> acq_pc" where
  "acq_run [] s p = (s, p)"
| "acq_run (b # bs) s p = (case acq_step b s p of (s', p') \<Rightarrow> acq_run bs s' p')"

fun rel_run :: "bool list \<Rightarrow> unique_index_set \<Rightarrow> rel_pc \<Rightarrow> unique_index_set \<times> rel_pc" where
  "rel_run [] s p = (s, p)"
| "rel_run (b # bs) s p = (case rel_step b s p of (s', p') \<Rightarrow> rel_run bs s' p')"

subsection \<open>Packing\<close>

lemma extract_head_pack [simp]: "uis_extract_head (uis_pack h t) = h"
  by (intro bit_word_eqI)
    (auto simp: uis_extract_head_def uis_pack_def HEAD_SHIFT_def TAG_MASK_def bit_simps
      dest: bit_imp_le_length)

lemma mask32: "(0xFFFFFFFF :: u64) = mask 32"
  by (simp add: mask_eq_decr_exp)

lemma extract_tag_pack [simp]: "uis_extract_tag (uis_pack h t) = t"
  by (intro bit_word_eqI)
    (auto simp: uis_extract_tag_def uis_pack_def HEAD_SHIFT_def TAG_MASK_def mask32 bit_simps
      dest: bit_imp_le_length)

lemma pack_extract [simp]: "uis_pack (uis_extract_head w) (uis_extract_tag w) = w"
  by (intro bit_word_eqI)
    (auto simp: uis_extract_head_def uis_extract_tag_def uis_pack_def HEAD_SHIFT_def
      TAG_MASK_def mask32 bit_simps)

lemma pack_inject [simp]: "uis_pack h t = uis_pack h' t' \<longleftrightarrow> h = h' \<and> t = t'"
  by (metis extract_head_pack extract_tag_pack)

subsection \<open>The free stack and the invariant\<close>

definition uis_free :: "unique_index_set \<Rightarrow> u32 list" where
  "uis_free s = fl_walk (length (uis_next s)) (uis_next s) (uis_extract_head (uis_head s))"

definition uis_wf :: "unique_index_set \<Rightarrow> bool" where
  "uis_wf s \<longleftrightarrow>
     0 < uis_capacity s \<and> uis_capacity s < SENTINEL \<and>
     length (uis_next s) = unat (uis_capacity s) \<and>
     fl_chain (uis_next s) (uis_extract_head (uis_head s)) (uis_free s) \<and>
     uis_borrowed s = uis_capacity s - of_nat (length (uis_free s))"

lemma uis_free_eqI:
  "fl_chain (uis_next s) (uis_extract_head (uis_head s)) xs \<Longrightarrow> uis_free s = xs"
  by (simp add: uis_free_def fl_walk_chain)

lemma uis_wfI:
  assumes "fl_chain (uis_next s) (uis_extract_head (uis_head s)) xs"
    and "0 < uis_capacity s" and "uis_capacity s < SENTINEL"
    and "length (uis_next s) = unat (uis_capacity s)"
    and "uis_borrowed s = uis_capacity s - of_nat (length xs)"
  shows "uis_wf s \<and> uis_free s = xs"
  using assms uis_free_eqI [OF assms(1)] by (simp add: uis_wf_def)

lemma uis_wf_chain:
  "uis_wf s \<Longrightarrow> fl_chain (uis_next s) (uis_extract_head (uis_head s)) (uis_free s)"
  by (simp add: uis_wf_def)

lemma uis_free_distinct: "uis_wf s \<Longrightarrow> distinct (uis_free s)"
  using uis_wf_chain fl_chain_distinct by blast

lemma uis_free_bound: "uis_wf s \<Longrightarrow> i \<in> set (uis_free s) \<Longrightarrow> i < uis_capacity s"
  using fl_chain_bound [OF uis_wf_chain, of s i] by (simp add: uis_wf_def word_less_nat_alt)

lemma uis_free_length: "uis_wf s \<Longrightarrow> length (uis_free s) \<le> unat (uis_capacity s)"
  using fl_chain_length [OF uis_wf_chain, of s] by (simp add: uis_wf_def)

lemma uis_wf_borrowed:
  assumes "uis_wf s"
  shows "unat (uis_borrowed s) = unat (uis_capacity s) - length (uis_free s)"
proof -
  have "uis_borrowed s = of_nat (unat (uis_capacity s)) - of_nat (length (uis_free s))"
    using assms by (simp add: uis_wf_def)
  moreover have "unat (uis_capacity s) - length (uis_free s) < 2 ^ LENGTH(32)"
    using unat_bound [of "uis_capacity s"] by simp
  ultimately show ?thesis
    using unat_of_nat_diff [where ?'a = 32, OF uis_free_length [OF assms]] by simp
qed

subsection \<open>What the operations do\<close>

lemma uis_new_wf:
  assumes "uis_new c = Some s"
  shows "uis_wf s \<and> uis_free s = map of_nat [0..<unat c] \<and> uis_capacity s = c"
proof -
  from assms have c: "0 < c" "c < SENTINEL"
    and s: "s = \<lparr>uis_head = uis_pack 0 0, uis_next = fresh_next c, uis_capacity = c,
      uis_borrowed = 0\<rparr>"
    by (auto simp: uis_new_def split: if_splits)
  have "uis_wf s \<and> uis_free s = map of_nat [0..<unat c]"
    by (rule uis_wfI) (use c s in \<open>simp_all add: fresh_next_chain\<close>)
  with s show ?thesis by simp
qed

lemma uis_new_panics: "uis_new c = None \<longleftrightarrow> c = 0 \<or> c = SENTINEL"
proof -
  have "c \<le> SENTINEL"
    using unat_bound [of c] by (simp add: word_le_nat_alt)
  then show ?thesis by (auto simp: uis_new_def word_gt_0)
qed

lemma uis_acquire_empty:
  assumes "uis_wf s" and "uis_free s = []"
  shows "uis_acquire s = Some (Err AcquireError, s)"
  using uis_wf_chain [OF assms(1)] assms(2) by (simp add: uis_acquire_def Let_def)

lemma uis_acquire_Cons:
  assumes wf: "uis_wf s" and free: "uis_free s = x # xs"
  obtains s' where "uis_acquire s = Some (Ok x, s')" and "uis_wf s'" and "uis_free s' = xs"
    and "uis_capacity s' = uis_capacity s"
proof -
  let ?s' = "s\<lparr>uis_head := uis_pack (uis_next s ! unat x) (uis_extract_tag (uis_head s) + 1),
    uis_borrowed := uis_borrowed s + 1\<rparr>"
  have chain: "fl_chain (uis_next s) (uis_extract_head (uis_head s)) (x # xs)"
    using uis_wf_chain [OF wf] free by simp
  then have "uis_acquire s = Some (Ok x, ?s')"
    by (simp add: uis_acquire_def Let_def)
  moreover have "uis_wf ?s' \<and> uis_free ?s' = xs"
    using wf free chain by (intro uis_wfI) (simp_all add: uis_wf_def)
  ultimately show ?thesis using that by simp
qed

lemma uis_release_wf:
  assumes wf: "uis_wf s" and i: "i < uis_capacity s" "i \<notin> set (uis_free s)"
  obtains s' where "uis_release i s = Some s'" and "uis_wf s'" and "uis_free s' = i # uis_free s"
    and "uis_capacity s' = uis_capacity s"
proof -
  let ?s' = "s\<lparr>uis_next := (uis_next s)[unat i := uis_extract_head (uis_head s)],
    uis_head := uis_pack i (uis_extract_tag (uis_head s) + 1),
    uis_borrowed := uis_borrowed s - 1\<rparr>"
  have bound: "unat i < length (uis_next s)" "i < SENTINEL"
    using wf i(1) by (auto simp: uis_wf_def word_less_nat_alt)
  then have "uis_release i s = Some ?s'"
    by (simp add: uis_release_def Let_def)
  moreover have "uis_wf ?s' \<and> uis_free ?s' = i # uis_free s"
    using wf bound i fl_chain_push [OF uis_wf_chain [OF wf] i(2)]
    by (intro uis_wfI) (simp_all add: uis_wf_def)
  ultimately show ?thesis using that by simp
qed

lemma uis_release_panics:
  "uis_wf s \<Longrightarrow> uis_capacity s \<le> i \<Longrightarrow> uis_release i s = None"
  by (simp add: uis_release_def uis_wf_def word_le_nat_alt Let_def)

interpretation uis: slot_allocator uis_wf "\<lambda>s. set (uis_free s)" "\<lambda>s. {..<uis_capacity s}"
  uis_acquire uis_release
proof
  fix s :: unique_index_set and i :: u32
  show "finite {..<uis_capacity s}" by simp
  assume wf: "uis_wf s"
  show "set (uis_free s) \<subseteq> {..<uis_capacity s}"
    using uis_free_bound [OF wf] by auto
  show "\<exists>i s'. uis_acquire s = Some (Ok i, s') \<and> i \<in> set (uis_free s) \<and>
      set (uis_free s') = set (uis_free s) - {i} \<and> uis_wf s' \<and>
      {..<uis_capacity s'} = {..<uis_capacity s}"
    if "set (uis_free s) \<noteq> {}"
  proof -
    from that obtain x xs where free: "uis_free s = x # xs" by (cases "uis_free s") auto
    obtain s' where s': "uis_acquire s = Some (Ok x, s')" "uis_wf s'" "uis_free s' = xs"
      "uis_capacity s' = uis_capacity s"
      by (rule uis_acquire_Cons [OF wf free])
    moreover have "set xs = set (uis_free s) - {x}"
      using uis_free_distinct [OF wf] free by auto
    ultimately show ?thesis using free by auto
  qed
  show "\<exists>e. uis_acquire s = Some (Err e, s)" if "set (uis_free s) = {}"
    using uis_acquire_empty [OF wf] that by simp
  show "\<exists>s'. uis_release i s = Some s' \<and> set (uis_free s') = insert i (set (uis_free s)) \<and>
      uis_wf s' \<and> {..<uis_capacity s'} = {..<uis_capacity s}"
    if "i \<in> {..<uis_capacity s}" "i \<notin> set (uis_free s)"
    using uis_release_wf [OF wf, of i] that by (metis lessThan_iff list.simps(15))
qed

lemma uis_available_eq:
  assumes "uis_wf s"
  shows "unat (uis_available s) = length (uis_free s)"
proof -
  have "unat (uis_borrowed s) \<le> unat (uis_capacity s)"
    using uis_wf_borrowed [OF assms] by simp
  then show ?thesis
    using uis_wf_borrowed [OF assms] uis_free_length [OF assms]
    by (simp add: uis_available_def uis_borrowed_count_def word_le_nat_alt unat_sub)
qed

subsection \<open>A lone thread runs the loop to the end\<close>

lemma acq_run_append: "acq_run (xs @ ys) s p = (case acq_run xs s p of (s', p') \<Rightarrow> acq_run ys s' p')"
  by (induction xs arbitrary: s p) (auto split: prod.splits)

lemma rel_run_append: "rel_run (xs @ ys) s p = (case rel_run xs s p of (s', p') \<Rightarrow> rel_run ys s' p')"
  by (induction xs arbitrary: s p) (auto split: prod.splits)

text \<open>\<open>k\<close> spurious failures cost two steps each and change nothing.\<close>

lemma acq_run_spurious:
  assumes "uis_extract_head (uis_head s) \<noteq> SENTINEL"
    and "unat (uis_extract_head (uis_head s)) < length (uis_next s)"
  shows "acq_run (replicate (2 * k) True) s (AcqLoop (uis_head s)) = (s, AcqLoop (uis_head s))"
  using assms by (induction k) (simp_all add: Let_def)

lemma rel_run_spurious:
  assumes "unat i < length (uis_next s)"
    and "uis_next s ! unat i = uis_extract_head (uis_head s)"
  shows "rel_run (replicate (2 * k) True) s (RelLoop i (uis_head s)) = (s, RelLoop i (uis_head s))"
  using assms
proof (induction k)
  case (Suc k)
  then have "(uis_next s)[unat i := uis_extract_head (uis_head s)] = uis_next s"
    by (metis list_update_id)
  with Suc show ?case by simp
qed simp

lemma acq_run_ret [simp]: "acq_run bs s (AcqRet r) = (s, AcqRet r)"
  by (induction bs) auto

text \<open>Obstruction freedom of \<open>acquire\<close>. Run alone from a well-formed set, after any number
  \<open>k\<close> of spurious exchange failures, the loop of \<open>UniqueIndexSet::acquire\<close> ends, and it ends
  with the value and the state of the sequential \<open>uis_acquire\<close>.\<close>

theorem acq_run_solo:
  assumes wf: "uis_wf s" and acq: "uis_acquire s = Some (r, s')"
  shows "acq_run (a # replicate (2 * k) True @ [b, False, c]) s AcqStart = (s', AcqRet r)"
proof (cases "uis_free s")
  case Nil
  then have "uis_extract_head (uis_head s) = SENTINEL"
    using uis_wf_chain [OF wf] by simp
  with acq show ?thesis
    by (cases k) (simp_all add: uis_acquire_def)
next
  case (Cons x xs)
  then have head: "uis_extract_head (uis_head s) \<noteq> SENTINEL"
    "unat (uis_extract_head (uis_head s)) < length (uis_next s)"
    using uis_wf_chain [OF wf] by auto
  have "acq_run (replicate (2 * k) True @ [b, False, c]) s (AcqLoop (uis_head s)) =
      acq_run [b, False, c] s (AcqLoop (uis_head s))"
    by (simp add: acq_run_append acq_run_spurious [OF head])
  also have "\<dots> = (s', AcqRet r)"
    using acq head by (auto simp: uis_acquire_def Let_def)
  finally show ?thesis by simp
qed

definition uis_two :: unique_index_set where
  "uis_two = \<lparr>uis_head = uis_pack 0 0, uis_next = [1, SENTINEL], uis_capacity = 2,
     uis_borrowed = 0\<rparr>"

lemma uis_two_wf: "uis_wf uis_two \<and> uis_free uis_two = [0, 1]"
  by (rule uis_wfI) (simp_all add: uis_two_def SENTINEL_def)

theorem acq_run_solo_witness:
  "uis_wf uis_two \<and>
   acq_run [True, True, True, True, True, False, False, False] uis_two AcqStart =
     (uis_two\<lparr>uis_head := uis_pack 1 1, uis_borrowed := 1\<rparr>, AcqRet (Ok 0))"
proof -
  have acq: "uis_acquire uis_two =
      Some (Ok 0, uis_two\<lparr>uis_head := uis_pack 1 1, uis_borrowed := 1\<rparr>)"
    by (simp add: uis_acquire_def uis_two_def SENTINEL_def)
  show ?thesis
    using uis_two_wf acq_run_solo [OF _ acq, of True 2 False False] by (simp add: eval_nat_numeral)
qed

lemma rel_run_solo:
  assumes "uis_release i s = Some s'"
  shows "rel_run (a # replicate (2 * k) True @ [b, False, c]) s (RelStart i) = (s', RelRet)"
proof -
  let ?s1 = "s\<lparr>uis_next := (uis_next s)[unat i := uis_extract_head (uis_head s)]\<rparr>"
  have i: "unat i < length (uis_next s)"
    and s': "s' = ?s1\<lparr>uis_head := uis_pack i (uis_extract_tag (uis_head s) + 1),
      uis_borrowed := uis_borrowed s - 1\<rparr>"
    using assms by (auto simp: uis_release_def Let_def Option.bind_eq_Some_conv upd_eq_Some_iff)
  have finish: "rel_run [b, False, c] t (RelLoop i (uis_head t)) = (s', RelRet)"
    if "t = s \<or> t = ?s1" for t
    using that i s' by auto
  show ?thesis
  proof (cases k)
    case 0
    then show ?thesis using finish [of s] by simp
  next
    case (Suc m)
    have "rel_run (replicate (2 * k) True) s (RelLoop i (uis_head s)) =
        rel_run (replicate (2 * m) True) ?s1 (RelLoop i (uis_head ?s1))"
      using Suc i by simp
    also have "\<dots> = (?s1, RelLoop i (uis_head ?s1))"
      by (rule rel_run_spurious) (use i in simp_all)
    finally show ?thesis
      using finish [of ?s1] by (simp add: rel_run_append)
  qed
qed

subsection \<open>A double release\<close>

text \<open>An index released twice becomes its own successor: every later \<open>acquire\<close> returns it again.\<close>

lemma uis_double_release:
  assumes "uis_release i s = Some s1" and "i \<noteq> SENTINEL"
  shows "\<exists>s2. uis_release i s1 = Some s2 \<and> uis_capacity s2 = uis_capacity s \<and>
    uis_extract_head (uis_head s2) = i \<and> unat i < length (uis_next s2) \<and> uis_next s2 ! unat i = i"
  using assms
  by (auto simp: uis_release_def Let_def Option.bind_eq_Some_conv upd_eq_Some_iff)

lemma uis_self_loop_acquire:
  assumes "uis_extract_head (uis_head s) = i" and "unat i < length (uis_next s)"
    and "uis_next s ! unat i = i" and "i \<noteq> SENTINEL"
  shows "\<exists>s'. uis_acquire s = Some (Ok i, s') \<and> uis_extract_head (uis_head s') = i \<and>
    uis_next s' = uis_next s \<and> uis_capacity s' = uis_capacity s"
  using assms by (simp add: uis_acquire_def Let_def)

end
