(* ===== verification/Index_Set_Conc.thy ===== *)
theory Index_Set_Conc
  imports Index_Set
begin

text \<open>
  Threads that call \<open>acquire\<close> and \<open>release\<close> on one shared \<open>UniqueIndexSet\<close>, interleaved at the
  granularity of the atomic accesses (\<open>acq_step\<close>, \<open>rel_step\<close>), under sequential consistency.
  Any number of threads takes part; a thread may start an \<open>acquire\<close> at any time and may start
  a \<open>release\<close> of an index that some earlier \<open>acquire\<close> returned and nobody has released since,
  which is what the documentation of \<open>release\<close> asks of its callers.

  Two components of the state are not in the program: \<open>ver\<close> counts the successful exchanges
  of the head word, and \<open>seen t\<close> is the count at the time thread \<open>t\<close> last loaded it. The
  program's 32-bit tag is \<open>ver\<close> modulo \<open>2 ^ 32\<close>, so the tag protects a thread against the ABA
  problem as long as fewer than \<open>2 ^ 32\<close> exchanges succeed between its load and its own
  exchange. \<open>tag_window\<close> is that condition on a schedule, and \<open>uis_reach\<close> are the states
  reachable through schedules that respect it.
\<close>

subsection \<open>The system\<close>

datatype uis_pc = Idle | InAcq acq_pc | InRel rel_pc

record uis_sys =
  shared :: unique_index_set
  thr :: "nat \<Rightarrow> uis_pc"
  held :: "u32 set"
  ver :: nat
  seen :: "nat \<Rightarrow> nat"

fun pc_old :: "uis_pc \<Rightarrow> u64 option" where
  "pc_old (InAcq (AcqLoop old)) = Some old"
| "pc_old (InAcq (AcqCas old h n)) = Some old"
| "pc_old (InRel (RelLoop i old)) = Some old"
| "pc_old (InRel (RelCas i old)) = Some old"
| "pc_old _ = None"

fun pc_loads :: "uis_pc \<Rightarrow> bool" where
  "pc_loads (InAcq (AcqLoop old)) = True"
| "pc_loads (InRel (RelLoop i old)) = True"
| "pc_loads _ = False"

text \<open>The thread's step together with the book-keeping of the two ghost components.\<close>

definition advance :: "uis_sys \<Rightarrow> nat \<Rightarrow> unique_index_set \<Rightarrow> uis_pc \<Rightarrow> uis_sys" where
  "advance s t u pc =
     s\<lparr>shared := u, thr := (thr s)(t := pc),
       ver := (if uis_head u = uis_head (shared s) then ver s else Suc (ver s)),
       seen := (if pc_loads pc then (seen s)(t := ver s) else seen s)\<rparr>"

inductive uis_step :: "uis_sys \<Rightarrow> uis_sys \<Rightarrow> bool" where
  call_acquire: "thr s t = Idle \<Longrightarrow> uis_step s (s\<lparr>thr := (thr s)(t := InAcq AcqStart)\<rparr>)"
| in_acquire: "thr s t = InAcq p \<Longrightarrow> acq_step b (shared s) p = (u, p') \<Longrightarrow>
    uis_step s (advance s t u (InAcq p'))"
| return_index: "thr s t = InAcq (AcqRet (Ok i)) \<Longrightarrow>
    uis_step s (s\<lparr>thr := (thr s)(t := Idle), held := insert i (held s)\<rparr>)"
| return_error: "thr s t = InAcq (AcqRet (Err e)) \<Longrightarrow> uis_step s (s\<lparr>thr := (thr s)(t := Idle)\<rparr>)"
| call_release: "thr s t = Idle \<Longrightarrow> i \<in> held s \<Longrightarrow>
    uis_step s (s\<lparr>thr := (thr s)(t := InRel (RelStart i)), held := held s - {i}\<rparr>)"
| in_release: "thr s t = InRel p \<Longrightarrow> rel_step b (shared s) p = (u, p') \<Longrightarrow>
    uis_step s (advance s t u (InRel p'))"
| return_release: "thr s t = InRel RelRet \<Longrightarrow> uis_step s (s\<lparr>thr := (thr s)(t := Idle)\<rparr>)"

definition tag_window :: "uis_sys \<Rightarrow> bool" where
  "tag_window s \<longleftrightarrow> (\<forall>t. pc_old (thr s t) \<noteq> None \<longrightarrow> ver s - seen s t < 2 ^ 32)"

definition uis_init :: "unique_index_set \<Rightarrow> uis_sys" where
  "uis_init u = \<lparr>shared = u, thr = (\<lambda>_. Idle), held = {}, ver = 0, seen = (\<lambda>_. 0)\<rparr>"

inductive uis_reach :: "u32 \<Rightarrow> uis_sys \<Rightarrow> bool" for c where
  init: "uis_new c = Some u \<Longrightarrow> uis_reach c (uis_init u)"
| step: "uis_reach c s \<Longrightarrow> tag_window s \<Longrightarrow> uis_step s s' \<Longrightarrow> uis_reach c s'"

subsection \<open>The invariant\<close>

text \<open>The index a thread has in its hands: popped and not yet returned, or passed to \<open>release\<close>
  and not yet pushed.\<close>

fun pc_owns :: "uis_pc \<Rightarrow> u32 option" where
  "pc_owns (InAcq (AcqCount i)) = Some i"
| "pc_owns (InAcq (AcqRet (Ok i))) = Some i"
| "pc_owns (InRel (RelStart i)) = Some i"
| "pc_owns (InRel (RelLoop i old)) = Some i"
| "pc_owns (InRel (RelCas i old)) = Some i"
| "pc_owns _ = None"

definition list_ok :: "uis_sys \<Rightarrow> u32 list \<Rightarrow> bool" where
  "list_ok s xs \<longleftrightarrow>
     0 < uis_capacity (shared s) \<and> uis_capacity (shared s) < SENTINEL \<and>
     length (uis_next (shared s)) = unat (uis_capacity (shared s)) \<and>
     fl_chain (uis_next (shared s)) (uis_extract_head (uis_head (shared s))) xs \<and>
     uis_extract_tag (uis_head (shared s)) = of_nat (ver s)"

text \<open>Where an index is: in the free list, with a caller, or in the hands of a thread. Every index
  below the capacity is in exactly one place, and no other value is anywhere.\<close>

datatype place = FreeList | Caller | Thread nat

fun at_place :: "uis_sys \<Rightarrow> u32 list \<Rightarrow> u32 \<Rightarrow> place \<Rightarrow> bool" where
  "at_place s xs i FreeList \<longleftrightarrow> i \<in> set xs"
| "at_place s xs i Caller \<longleftrightarrow> i \<in> held s"
| "at_place s xs i (Thread t) \<longleftrightarrow> pc_owns (thr s t) = Some i"

definition owners_ok :: "uis_sys \<Rightarrow> u32 list \<Rightarrow> bool" where
  "owners_ok s xs \<longleftrightarrow>
     (\<forall>i p q. at_place s xs i p \<longrightarrow> at_place s xs i q \<longrightarrow> p = q) \<and>
     (\<forall>i. i < uis_capacity (shared s) \<longleftrightarrow> (\<exists>p. at_place s xs i p))"

definition snap_ok :: "uis_sys \<Rightarrow> nat \<Rightarrow> bool" where
  "snap_ok s t \<longleftrightarrow> (\<forall>old. pc_old (thr s t) = Some old \<longrightarrow>
     seen s t \<le> ver s \<and> uis_extract_tag old = of_nat (seen s t) \<and>
     (uis_extract_head old = SENTINEL \<or> uis_extract_head old < uis_capacity (shared s)) \<and>
     (seen s t = ver s \<longrightarrow> old = uis_head (shared s)))"

definition cas_ok :: "uis_sys \<Rightarrow> nat \<Rightarrow> bool" where
  "cas_ok s t \<longleftrightarrow>
     (\<forall>old h n. thr s t = InAcq (AcqCas old h n) \<longrightarrow>
        h = uis_extract_head old \<and> h \<noteq> SENTINEL \<and>
        (seen s t = ver s \<longrightarrow> n = uis_next (shared s) ! unat h)) \<and>
     (\<forall>i old. thr s t = InRel (RelCas i old) \<longrightarrow>
        uis_next (shared s) ! unat i = uis_extract_head old) \<and>
     thr s t \<noteq> InAcq AcqPanic \<and> thr s t \<noteq> InRel RelPanic"

definition popping :: "uis_sys \<Rightarrow> nat set" where
  "popping s = {t. \<exists>i. thr s t = InAcq (AcqCount i)}"

definition pushing :: "uis_sys \<Rightarrow> nat set" where
  "pushing s = {t. thr s t = InRel RelCount}"

definition count_ok :: "uis_sys \<Rightarrow> u32 list \<Rightarrow> bool" where
  "count_ok s xs \<longleftrightarrow> finite {t. thr s t \<noteq> Idle} \<and>
     uis_borrowed (shared s) = uis_capacity (shared s) - of_nat (length xs)
       - of_nat (card (popping s)) + of_nat (card (pushing s))"

definition uis_inv :: "uis_sys \<Rightarrow> u32 list \<Rightarrow> bool" where
  "uis_inv s xs \<longleftrightarrow> list_ok s xs \<and> owners_ok s xs \<and> (\<forall>t. snap_ok s t \<and> cas_ok s t) \<and> count_ok s xs"

lemmas uis_inv_defs = uis_inv_def list_ok_def owners_ok_def snap_ok_def cas_ok_def

subsection \<open>One step keeps the invariant\<close>

text \<open>A move of thread \<open>t\<close> changes the two counting sets only at \<open>t\<close>.\<close>

lemma popping_upd:
  "popping (s\<lparr>thr := (thr s)(t := pc)\<rparr>) =
     (if \<exists>i. pc = InAcq (AcqCount i) then insert t (popping s) else popping s - {t})"
  by (auto simp: popping_def)

lemma pushing_upd:
  "pushing (s\<lparr>thr := (thr s)(t := pc)\<rparr>) =
     (if pc = InRel RelCount then insert t (pushing s) else pushing s - {t})"
  by (auto simp: pushing_def)

lemma counting_frame [simp]:
  "popping (s\<lparr>shared := u\<rparr>) = popping s" "pushing (s\<lparr>shared := u\<rparr>) = pushing s"
  "popping (s\<lparr>held := h\<rparr>) = popping s" "pushing (s\<lparr>held := h\<rparr>) = pushing s"
  "popping (s\<lparr>ver := v\<rparr>) = popping s" "pushing (s\<lparr>ver := v\<rparr>) = pushing s"
  "popping (s\<lparr>seen := f\<rparr>) = popping s" "pushing (s\<lparr>seen := f\<rparr>) = pushing s"
  by (simp_all add: popping_def pushing_def)

lemma counting_finite:
  assumes "finite {t. thr s t \<noteq> Idle}"
  shows "finite (popping s)" and "finite (pushing s)"
  using assms by (auto simp: popping_def pushing_def elim: rev_finite_subset)

lemma non_idle_upd_finite:
  "finite {t. f t \<noteq> Idle} \<Longrightarrow> finite {t'. (f(t := pc)) t' \<noteq> Idle}"
  by (rule finite_subset [of _ "insert t {t. f t \<noteq> Idle}"]) auto

text \<open>Moves that neither touch the set nor enter or leave the counting sets.\<close>

lemma count_ok_quiet:
  assumes "count_ok s xs"
    and "thr s' = (thr s)(t := pc)"
    and "uis_borrowed (shared s') = uis_borrowed (shared s)"
    and "uis_capacity (shared s') = uis_capacity (shared s)"
    and "t \<notin> popping s" and "t \<notin> pushing s"
    and "\<forall>i. pc \<noteq> InAcq (AcqCount i)" and "pc \<noteq> InRel RelCount"
  shows "count_ok s' xs"
proof -
  have "popping s' = popping s" "pushing s' = pushing s"
    using assms(2,5-8) by (auto simp: popping_def pushing_def)
  moreover have "finite {u. thr s' u \<noteq> Idle}"
    unfolding assms(2) using assms(1) by (intro non_idle_upd_finite) (simp add: count_ok_def)
  ultimately show ?thesis
    using assms by (simp add: count_ok_def)
qed

lemma owners_ok_quiet:
  assumes "owners_ok s xs" and "thr s' = (thr s)(t := pc)" and "pc_owns pc = pc_owns (thr s t)"
    and "held s' = held s" and "uis_capacity (shared s') = uis_capacity (shared s)"
  shows "owners_ok s' xs"
proof -
  have "at_place s' xs i p = at_place s xs i p" for i p
    using assms(2-4) by (cases p) auto
  with assms(1,5) show ?thesis by (simp add: owners_ok_def)
qed

text \<open>A move that carries index \<open>i\<close> from one place to another.\<close>

lemma owners_ok_move:
  assumes "owners_ok s xs" and "at_place s xs i p"
    and "\<And>j r. at_place s' xs' j r \<longleftrightarrow> (if j = i then r = q else at_place s xs j r)"
    and "uis_capacity (shared s') = uis_capacity (shared s)"
  shows "owners_ok s' xs'"
  using assms unfolding owners_ok_def by metis

lemma owners_okD:
  assumes "owners_ok s xs" and "at_place s xs i p"
  shows "i < uis_capacity (shared s)" and "at_place s xs i q \<longleftrightarrow> q = p"
  using assms unfolding owners_ok_def by metis+

lemma snap_ok_other:
  assumes "snap_ok s t" and "thr s' t = thr s t" and "seen s' t = seen s t"
    and "uis_capacity (shared s') = uis_capacity (shared s)"
    and "ver s' = ver s \<and> uis_head (shared s') = uis_head (shared s) \<or> ver s' = Suc (ver s)"
  shows "snap_ok s' t"
  using assms by (auto simp: snap_ok_def)

lemma cas_ok_other:
  assumes "cas_ok s t" and "snap_ok s t" and "thr s' t = thr s t" and "seen s' t = seen s t"
    and "uis_next (shared s') = uis_next (shared s)"
    and "ver s' = ver s \<or> ver s' = Suc (ver s)"
  shows "cas_ok s' t"
  using assms by (auto simp: cas_ok_def snap_ok_def)

text \<open>A move that leaves the shared set alone: a call, a load, a failed exchange, a return
  without an index.\<close>

lemma uis_inv_local:
  assumes inv: "uis_inv s xs"
    and thr: "thr s' = (thr s)(t := pc)" and shared: "shared s' = shared s"
    and ver: "ver s' = ver s" and held: "held s' = held s"
    and seen: "\<forall>u. u \<noteq> t \<longrightarrow> seen s' u = seen s u"
    and owns: "pc_owns pc = pc_owns (thr s t)"
    and counts: "t \<notin> popping s" "t \<notin> pushing s"
      "\<forall>i. pc \<noteq> InAcq (AcqCount i)" "pc \<noteq> InRel RelCount"
    and own: "snap_ok s' t" "cas_ok s' t"
  shows "uis_inv s' xs"
proof -
  have "list_ok s' xs"
    using inv by (simp add: uis_inv_def list_ok_def shared ver)
  moreover have "owners_ok s' xs"
    using inv by (intro owners_ok_quiet [OF _ thr owns held]) (auto simp: uis_inv_def shared)
  moreover have "count_ok s' xs"
    using inv by (intro count_ok_quiet [OF _ thr _ _ counts]) (auto simp: uis_inv_def shared)
  moreover have "snap_ok s' u \<and> cas_ok s' u" for u
  proof (cases "u = t")
    case True
    with own show ?thesis by simp
  next
    case False
    then have "snap_ok s' u" "cas_ok s' u"
      using inv seen by (auto simp: uis_inv_def shared ver thr intro: snap_ok_other cas_ok_other)
    then show ?thesis by simp
  qed
  ultimately show ?thesis by (simp add: uis_inv_def)
qed

text \<open>The two moves that hand an index between a thread and its caller.\<close>

lemma uis_inv_return_index:
  assumes inv: "uis_inv s xs" and pc: "thr s t = InAcq (AcqRet (Ok i))"
  shows "uis_inv (s\<lparr>thr := (thr s)(t := Idle), held := insert i (held s)\<rparr>) xs" (is "uis_inv ?s' xs")
proof -
  have owners: "owners_ok s xs" and at: "at_place s xs i (Thread t)"
    using inv pc by (auto simp: uis_inv_def)
  have "at_place ?s' xs j r \<longleftrightarrow> (if j = i then r = Caller else at_place s xs j r)" for j r
    using owners_okD(2) [OF owners at, of r] pc by (cases r) auto
  with owners at have "owners_ok ?s' xs"
    by (rule owners_ok_move) simp
  moreover have "list_ok ?s' xs" using inv by (simp add: uis_inv_def list_ok_def)
  moreover have "count_ok ?s' xs"
    using inv pc by (intro count_ok_quiet [of s xs ?s' t Idle])
      (auto simp: uis_inv_def popping_def pushing_def)
  moreover have "snap_ok ?s' u \<and> cas_ok ?s' u" for u
    using inv by (auto simp: uis_inv_def snap_ok_def cas_ok_def)
  ultimately show ?thesis by (simp add: uis_inv_def)
qed

lemma uis_inv_call_release:
  assumes inv: "uis_inv s xs" and pc: "thr s t = Idle" and i: "i \<in> held s"
  shows "uis_inv (s\<lparr>thr := (thr s)(t := InRel (RelStart i)), held := held s - {i}\<rparr>) xs"
    (is "uis_inv ?s' xs")
proof -
  have owners: "owners_ok s xs" and at: "at_place s xs i Caller"
    using inv i by (auto simp: uis_inv_def)
  have "at_place ?s' xs j r \<longleftrightarrow> (if j = i then r = Thread t else at_place s xs j r)" for j r
    using owners_okD(2) [OF owners at, of r] pc by (cases r) auto
  with owners at have "owners_ok ?s' xs"
    by (rule owners_ok_move) simp
  moreover have "list_ok ?s' xs" using inv by (simp add: uis_inv_def list_ok_def)
  moreover have "count_ok ?s' xs"
    using inv pc by (intro count_ok_quiet [of s xs ?s' t "InRel (RelStart i)"])
      (auto simp: uis_inv_def popping_def pushing_def)
  moreover have "snap_ok ?s' u \<and> cas_ok ?s' u" for u
    using inv by (auto simp: uis_inv_def snap_ok_def cas_ok_def)
  ultimately show ?thesis by (simp add: uis_inv_def)
qed

text \<open>An exchange that finds its expected word has not been overtaken: the tag and the window
  rule out that the word came back after other exchanges.\<close>

lemma cas_not_overtaken:
  assumes inv: "uis_inv s xs" and win: "tag_window s"
    and pc: "pc_old (thr s t) = Some (uis_head (shared s))"
  shows "seen s t = ver s"
proof -
  from inv pc have "seen s t \<le> ver s" "(of_nat (seen s t) :: u32) = of_nat (ver s)"
    by (auto simp: uis_inv_def list_ok_def snap_ok_def)
  moreover have "ver s - seen s t < 2 ^ LENGTH(32)"
    using win pc by (auto simp: tag_window_def)
  ultimately show ?thesis by (intro of_nat_inj_window)
qed

lemma pack_tag_changes [simp]: "uis_pack h (uis_extract_tag w + 1) \<noteq> w"
proof
  assume "uis_pack h (uis_extract_tag w + 1) = w"
  then have "uis_extract_tag w + 1 = uis_extract_tag w" by (metis extract_tag_pack)
  then show False by simp
qed

lemma uis_inv_pop:
  assumes inv: "uis_inv s xs" and win: "tag_window s"
    and pc: "thr s t = InAcq (AcqCas (uis_head (shared s)) h n)"
    and s': "s' = s\<lparr>shared := (shared s)\<lparr>uis_head := uis_pack n (uis_extract_tag (uis_head (shared s)) + 1)\<rparr>,
      thr := (thr s)(t := InAcq (AcqCount h)), ver := Suc (ver s)\<rparr>"
  shows "\<exists>ys. xs = h # ys \<and> uis_inv s' ys"
proof -
  have now: "seen s t = ver s"
    by (rule cas_not_overtaken [OF inv win]) (simp add: pc)
  have chain: "fl_chain (uis_next (shared s)) (uis_extract_head (uis_head (shared s))) xs"
    using inv by (simp add: uis_inv_def list_ok_def)
  have h: "h = uis_extract_head (uis_head (shared s))" "h \<noteq> SENTINEL"
      "n = uis_next (shared s) ! unat h"
    using inv pc now by (auto simp: uis_inv_def cas_ok_def)
  with chain obtain ys where xs: "xs = h # ys" by (cases xs) auto
  with chain h have ys: "fl_chain (uis_next (shared s)) n ys" "unat h < length (uis_next (shared s))"
    by auto
  have dist: "h \<notin> set ys" using fl_chain_head_notin_tail chain xs by blast
  have "list_ok s' ys"
    using inv ys by (simp add: uis_inv_def list_ok_def s')
  moreover have "owners_ok s' ys"
  proof -
    have owners: "owners_ok s xs" and at: "at_place s xs h FreeList"
      using inv xs by (auto simp: uis_inv_def)
    have "at_place s' ys j r \<longleftrightarrow> (if j = h then r = Thread t else at_place s xs j r)" for j r
      using owners_okD(2) [OF owners at, of r] pc xs dist by (cases r) (auto simp: s')
    with owners at show ?thesis by (rule owners_ok_move) (simp add: s')
  qed
  moreover have "count_ok s' ys"
  proof -
    have fin: "finite {u. thr s u \<noteq> Idle}" using inv by (simp add: uis_inv_def count_ok_def)
    have t: "t \<notin> popping s" "t \<notin> pushing s" using pc by (auto simp: popping_def pushing_def)
    have "popping s' = insert t (popping s)" "pushing s' = pushing s"
      using t by (auto simp: s' popping_def pushing_def)
    moreover have "finite {u. thr s' u \<noteq> Idle}"
      using non_idle_upd_finite [OF fin] by (simp add: s' del: fun_upd_apply)
    ultimately show ?thesis
      using inv xs t counting_finite [OF fin] by (simp add: uis_inv_def count_ok_def s')
  qed
  moreover have "snap_ok s' u \<and> cas_ok s' u" for u
  proof (cases "u = t")
    case True
    then show ?thesis by (simp add: snap_ok_def cas_ok_def s')
  next
    case False
    then show ?thesis
      using inv by (auto simp: uis_inv_def s' intro: snap_ok_other cas_ok_other)
  qed
  ultimately show ?thesis using xs by (simp add: uis_inv_def)
qed

lemma uis_inv_push:
  assumes inv: "uis_inv s xs" and win: "tag_window s"
    and pc: "thr s t = InRel (RelCas i (uis_head (shared s)))"
    and s': "s' = s\<lparr>shared := (shared s)\<lparr>uis_head := uis_pack i (uis_extract_tag (uis_head (shared s)) + 1)\<rparr>,
      thr := (thr s)(t := InRel RelCount), ver := Suc (ver s)\<rparr>"
  shows "uis_inv s' (i # xs)"
proof -
  have chain: "fl_chain (uis_next (shared s)) (uis_extract_head (uis_head (shared s))) xs"
    using inv by (simp add: uis_inv_def list_ok_def)
  have owners: "owners_ok s xs" and at: "at_place s xs i (Thread t)"
    using inv pc by (auto simp: uis_inv_def)
  have i: "uis_next (shared s) ! unat i = uis_extract_head (uis_head (shared s))"
      "i < uis_capacity (shared s)" "i \<notin> set xs"
    using inv pc owners_okD(1) [OF owners at] owners_okD(2) [OF owners at, of FreeList]
    by (auto simp: uis_inv_def cas_ok_def)
  have "unat i < length (uis_next (shared s))" "i \<noteq> SENTINEL"
    using i inv by (auto simp: uis_inv_def list_ok_def word_less_nat_alt)
  then have "list_ok s' (i # xs)"
    using inv i by (simp add: uis_inv_def list_ok_def s')
  moreover have "owners_ok s' (i # xs)"
  proof -
    have "at_place s' (i # xs) j r \<longleftrightarrow> (if j = i then r = FreeList else at_place s xs j r)" for j r
      using owners_okD(2) [OF owners at, of r] pc by (cases r) (auto simp: s')
    with owners at show ?thesis by (rule owners_ok_move) (simp add: s')
  qed
  moreover have "count_ok s' (i # xs)"
  proof -
    have fin: "finite {u. thr s u \<noteq> Idle}" using inv by (simp add: uis_inv_def count_ok_def)
    have t: "t \<notin> popping s" "t \<notin> pushing s" using pc by (auto simp: popping_def pushing_def)
    have "popping s' = popping s" "pushing s' = insert t (pushing s)"
      using t by (auto simp: s' popping_def pushing_def)
    moreover have "finite {u. thr s' u \<noteq> Idle}"
      using non_idle_upd_finite [OF fin] by (simp add: s' del: fun_upd_apply)
    ultimately show ?thesis
      using inv t counting_finite [OF fin] by (simp add: uis_inv_def count_ok_def s')
  qed
  moreover have "snap_ok s' u \<and> cas_ok s' u" for u
  proof (cases "u = t")
    case True
    then show ?thesis by (simp add: snap_ok_def cas_ok_def s')
  next
    case False
    then show ?thesis
      using inv by (auto simp: uis_inv_def s' intro: snap_ok_other cas_ok_other)
  qed
  ultimately show ?thesis by (simp add: uis_inv_def)
qed

text \<open>The store to \<open>next[i]\<close> in \<open>release\<close>: the slot is in the hands of the storing thread, so no
  pending exchange of another thread depends on it.\<close>

lemma uis_inv_store:
  assumes inv: "uis_inv s xs" and pc: "thr s t = InRel (RelLoop i old)"
    and s': "s' = s\<lparr>shared := (shared s)\<lparr>uis_next := (uis_next (shared s))[unat i := uis_extract_head old]\<rparr>,
      thr := (thr s)(t := InRel (RelCas i old))\<rparr>"
  shows "uis_inv s' xs"
proof -
  have owners: "owners_ok s xs" and at: "at_place s xs i (Thread t)"
    using inv pc by (auto simp: uis_inv_def)
  have i: "i < uis_capacity (shared s)" "i \<notin> set xs"
    using owners_okD(1) [OF owners at] owners_okD(2) [OF owners at, of FreeList] by auto
  have bound: "unat i < length (uis_next (shared s))"
    using inv i by (simp add: uis_inv_def list_ok_def word_less_nat_alt)
  have "list_ok s' xs"
    using inv i by (simp add: uis_inv_def list_ok_def s')
  moreover have "owners_ok s' xs"
    using owners by (rule owners_ok_quiet [where t = t and pc = "InRel (RelCas i old)"])
      (simp_all add: s' pc)
  moreover have "count_ok s' xs"
    using inv pc by (intro count_ok_quiet [of s xs s' t "InRel (RelCas i old)"])
      (auto simp: uis_inv_def popping_def pushing_def s')
  moreover have "snap_ok s' u" for u
  proof -
    have "snap_ok s u" using inv by (simp add: uis_inv_def)
    then show ?thesis using pc by (cases "u = t") (auto simp: s' snap_ok_def)
  qed
  moreover have "cas_ok s' u" for u
  proof (cases "u = t")
    case True
    then show ?thesis using bound by (simp add: cas_ok_def s')
  next
    case False
    have cas: "cas_ok s u" and snap: "snap_ok s u" using inv by (simp_all add: uis_inv_def)
    have "uis_next (shared s') ! unat h = uis_next (shared s) ! unat h"
      if "thr s u = InAcq (AcqCas old' h n)" "seen s u = ver s" for old' h n
    proof -
      have "h \<in> set xs"
        using inv cas snap that
        by (cases xs) (auto simp: uis_inv_def list_ok_def cas_ok_def snap_ok_def)
      with i have "h \<noteq> i" by auto
      then have "unat h \<noteq> unat i" by (simp add: word_unat_eq_iff)
      then show ?thesis by (simp add: s')
    qed
    moreover have "uis_next (shared s') ! unat j = uis_next (shared s) ! unat j"
      if "thr s u = InRel (RelCas j old')" for j old'
    proof -
      have "j \<noteq> i" using owners_okD(2) [OF owners at, of "Thread u"] False that by auto
      then have "unat j \<noteq> unat i" by (simp add: word_unat_eq_iff)
      then show ?thesis by (simp add: s')
    qed
    ultimately show ?thesis
      using cas False by (auto simp: cas_ok_def s')
  qed
  ultimately show ?thesis by (simp add: uis_inv_def)
qed

text \<open>The two updates of the \<open>borrowed\<close> counter.\<close>

lemma uis_inv_count:
  assumes inv: "uis_inv s xs"
    and move: "thr s t = InAcq (AcqCount i) \<and> pc = InAcq (AcqRet (Ok i)) \<and>
        n = uis_borrowed (shared s) + 1 \<or>
      thr s t = InRel RelCount \<and> pc = InRel RelRet \<and> n = uis_borrowed (shared s) - 1"
    and s': "s' = s\<lparr>shared := (shared s)\<lparr>uis_borrowed := n\<rparr>, thr := (thr s)(t := pc)\<rparr>"
  shows "uis_inv s' xs"
proof -
  have fin: "finite {u. thr s u \<noteq> Idle}" using inv by (simp add: uis_inv_def count_ok_def)
  have fin': "finite {u. thr s' u \<noteq> Idle}"
    using non_idle_upd_finite [OF fin] by (simp add: s' del: fun_upd_apply)
  have eq: "uis_borrowed (shared s) = uis_capacity (shared s) - of_nat (length xs)
      - of_nat (card (popping s)) + of_nat (card (pushing s))"
    using inv by (simp add: uis_inv_def count_ok_def)
  have fields: "uis_borrowed (shared s') = n" "uis_capacity (shared s') = uis_capacity (shared s)"
    by (simp_all add: s')
  have "count_ok s' xs"
    using move
  proof
    assume m: "thr s t = InAcq (AcqCount i) \<and> pc = InAcq (AcqRet (Ok i)) \<and>
        n = uis_borrowed (shared s) + 1"
    then have t: "t \<in> popping s" and sets: "popping s' = popping s - {t}" "pushing s' = pushing s"
      by (auto simp: popping_def pushing_def s')
    have "card (popping s) = Suc (card (popping s'))"
      unfolding sets using counting_finite [OF fin] t by (intro card.remove)
    with m eq fin' show ?thesis
      by (simp add: count_ok_def fields sets(2))
  next
    assume m: "thr s t = InRel RelCount \<and> pc = InRel RelRet \<and> n = uis_borrowed (shared s) - 1"
    then have t: "t \<in> pushing s" and sets: "popping s' = popping s" "pushing s' = pushing s - {t}"
      by (auto simp: popping_def pushing_def s')
    have "card (pushing s) = Suc (card (pushing s'))"
      unfolding sets using counting_finite [OF fin] t by (intro card.remove)
    with m eq fin' show ?thesis
      by (simp add: count_ok_def fields sets(1))
  qed
  moreover have "list_ok s' xs"
    using inv by (simp add: uis_inv_def list_ok_def s')
  moreover have "owners_ok s' xs"
    using inv move by (intro owners_ok_quiet [of s xs s' t pc]) (auto simp: uis_inv_def s')
  moreover have "snap_ok s' u \<and> cas_ok s' u" for u
    using inv move by (auto simp: uis_inv_def snap_ok_def cas_ok_def s')
  ultimately show ?thesis by (simp add: uis_inv_def)
qed

text \<open>The effect of a step on the free stack: nothing, one pop or one push.\<close>

definition stack_move :: "uis_sys \<Rightarrow> uis_sys \<Rightarrow> u32 list \<Rightarrow> u32 list \<Rightarrow> bool" where
  "stack_move s s' xs ys \<longleftrightarrow>
     ys = xs \<or>
     (\<exists>t old i n. xs = i # ys \<and> thr s t = InAcq (AcqCas old i n) \<and> thr s' t = InAcq (AcqCount i)) \<or>
     (\<exists>t old i. ys = i # xs \<and> thr s t = InRel (RelCas i old) \<and> thr s' t = InRel RelCount)"

lemma stack_stays: "uis_inv s' xs \<Longrightarrow> \<exists>ys. stack_move s s' xs ys \<and> uis_inv s' ys"
  by (auto simp: stack_move_def)

text \<open>A load of the head word, at the start of an operation or by a failed exchange.\<close>

lemma uis_inv_load:
  assumes inv: "uis_inv s xs"
    and pc: "pc = InAcq (AcqLoop (uis_head (shared s))) \<or> pc = InRel (RelLoop i (uis_head (shared s)))"
    and owns: "pc_owns pc = pc_owns (thr s t)" and counts: "t \<notin> popping s" "t \<notin> pushing s"
  shows "uis_inv (advance s t (shared s) pc) xs"
proof (rule uis_inv_local [OF inv, where t = t and pc = pc])
  have "uis_extract_head (uis_head (shared s)) = SENTINEL \<or>
      uis_extract_head (uis_head (shared s)) < uis_capacity (shared s)"
    using inv by (auto simp: uis_inv_def list_ok_def word_less_nat_alt dest: fl_chain_head_bound)
  then show "snap_ok (advance s t (shared s) pc) t"
    using inv pc by (auto simp: advance_def snap_ok_def uis_inv_def list_ok_def)
qed (use pc owns counts in \<open>auto simp: advance_def cas_ok_def\<close>)

lemma uis_inv_acquire_step:
  assumes inv: "uis_inv s xs" and win: "tag_window s"
    and pc: "thr s t = InAcq p" and step: "acq_step b (shared s) p = (u, p')"
  shows "\<exists>ys. stack_move s (advance s t u (InAcq p')) xs ys \<and> uis_inv (advance s t u (InAcq p')) ys"
proof (cases p)
  case AcqStart
  then have "uis_inv (advance s t (shared s) (InAcq p')) xs"
    using pc step by (intro uis_inv_load [OF inv]) (auto simp: popping_def pushing_def)
  with AcqStart step show ?thesis by (intro stack_stays) auto
next
  case (AcqLoop old)
  have snap: "snap_ok s t" using inv by (simp add: uis_inv_def)
  have len: "length (uis_next (shared s)) = unat (uis_capacity (shared s))"
    using inv by (simp add: uis_inv_def list_ok_def)
  have p': "u = shared s" "p' = AcqRet (Err AcquireError) \<or>
      p' = AcqCas old (uis_extract_head old) (uis_next (shared s) ! unat (uis_extract_head old)) \<and>
      uis_extract_head old \<noteq> SENTINEL"
    using step snap len pc
    by (auto simp: AcqLoop snap_ok_def Let_def word_less_nat_alt split: if_splits)
  have "uis_inv (advance s t u (InAcq p')) xs"
    using p' snap pc AcqLoop
    by (intro uis_inv_local [OF inv, where t = t and pc = "InAcq p'"])
      (auto simp: advance_def popping_def pushing_def snap_ok_def cas_ok_def)
  then show ?thesis by (rule stack_stays)
next
  case (AcqCas old h n)
  show ?thesis
  proof (cases "uis_head (shared s) = old \<and> \<not> b")
    case True
    with AcqCas pc have "thr s t = InAcq (AcqCas (uis_head (shared s)) h n)" by simp
    from uis_inv_pop [OF inv win this refl] True AcqCas step pc show ?thesis
      by (auto simp: advance_def stack_move_def)
  next
    case False
    then have "u = shared s" "p' = AcqLoop (uis_head (shared s))" using AcqCas step by auto
    moreover have "uis_inv (advance s t (shared s) (InAcq (AcqLoop (uis_head (shared s))))) xs"
      using pc AcqCas by (intro uis_inv_load [OF inv]) (auto simp: popping_def pushing_def)
    ultimately show ?thesis by (intro stack_stays) simp
  qed
next
  case (AcqCount i)
  then have "uis_inv (advance s t u (InAcq p')) xs"
    using pc step
    by (intro uis_inv_count [OF inv, of t i "InAcq p'" "uis_borrowed (shared s) + 1"])
      (auto simp: advance_def)
  then show ?thesis by (rule stack_stays)
next
  case (AcqRet r)
  then have "advance s t u (InAcq p') = s"
    using pc step by (auto simp: advance_def fun_upd_idem)
  then show ?thesis using stack_stays [OF inv] by simp
next
  case AcqPanic
  then show ?thesis using inv pc by (auto simp: uis_inv_def cas_ok_def)
qed

lemma uis_inv_release_step:
  assumes inv: "uis_inv s xs" and win: "tag_window s"
    and pc: "thr s t = InRel p" and step: "rel_step b (shared s) p = (u, p')"
  shows "\<exists>ys. stack_move s (advance s t u (InRel p')) xs ys \<and> uis_inv (advance s t u (InRel p')) ys"
proof (cases p)
  case (RelStart i)
  then have "uis_inv (advance s t (shared s) (InRel p')) xs"
    using pc step by (intro uis_inv_load [OF inv]) (auto simp: popping_def pushing_def)
  with RelStart step show ?thesis by (intro stack_stays) auto
next
  case (RelLoop i old)
  then have "i < uis_capacity (shared s)"
    using inv pc owners_okD(1) [of s xs i "Thread t"] by (simp add: uis_inv_def)
  then have "unat i < length (uis_next (shared s))"
    using inv by (simp add: uis_inv_def list_ok_def word_less_nat_alt)
  then have "uis_inv (advance s t u (InRel p')) xs"
    using RelLoop pc step by (intro uis_inv_store [OF inv, of t i old]) (auto simp: advance_def)
  then show ?thesis by (rule stack_stays)
next
  case (RelCas i old)
  show ?thesis
  proof (cases "uis_head (shared s) = old \<and> \<not> b")
    case True
    with RelCas pc have "thr s t = InRel (RelCas i (uis_head (shared s)))" by simp
    from uis_inv_push [OF inv win this refl] True RelCas step pc show ?thesis
      by (intro exI [of _ "i # xs"]) (auto simp: advance_def stack_move_def)
  next
    case False
    then have "u = shared s" "p' = RelLoop i (uis_head (shared s))" using RelCas step by auto
    moreover have "uis_inv (advance s t (shared s) (InRel (RelLoop i (uis_head (shared s))))) xs"
      using pc RelCas by (intro uis_inv_load [OF inv]) (auto simp: popping_def pushing_def)
    ultimately show ?thesis by (intro stack_stays) simp
  qed
next
  case RelCount
  then have "uis_inv (advance s t u (InRel p')) xs"
    using pc step
    by (intro uis_inv_count [OF inv, of t undefined "InRel p'" "uis_borrowed (shared s) - 1"])
      (auto simp: advance_def)
  then show ?thesis by (rule stack_stays)
next
  case RelRet
  then have "advance s t u (InRel p') = s"
    using pc step by (auto simp: advance_def fun_upd_idem)
  then show ?thesis using stack_stays [OF inv] by simp
next
  case RelPanic
  then show ?thesis using inv pc by (auto simp: uis_inv_def cas_ok_def)
qed

lemma uis_inv_step:
  assumes inv: "uis_inv s xs" and win: "tag_window s" and step: "uis_step s s'"
  shows "\<exists>ys. stack_move s s' xs ys \<and> uis_inv s' ys"
  using step
proof (cases rule: uis_step.cases)
  case (call_acquire t)
  then have "uis_inv s' xs"
    by (intro uis_inv_local [OF inv, where t = t and pc = "InAcq AcqStart"])
      (auto simp: popping_def pushing_def snap_ok_def cas_ok_def)
  then show ?thesis by (rule stack_stays)
next
  case (in_acquire t p b u p')
  then show ?thesis using uis_inv_acquire_step [OF inv win] by blast
next
  case (return_index t i)
  then show ?thesis using uis_inv_return_index [OF inv] stack_stays by blast
next
  case (return_error t e)
  then have "uis_inv s' xs"
    by (intro uis_inv_local [OF inv, where t = t and pc = Idle])
      (auto simp: popping_def pushing_def snap_ok_def cas_ok_def)
  then show ?thesis by (rule stack_stays)
next
  case (call_release t i)
  then show ?thesis using uis_inv_call_release [OF inv] stack_stays by blast
next
  case (in_release t p b u p')
  then show ?thesis using uis_inv_release_step [OF inv win] by blast
next
  case (return_release t)
  then have "uis_inv s' xs"
    by (intro uis_inv_local [OF inv, where t = t and pc = Idle])
      (auto simp: popping_def pushing_def snap_ok_def cas_ok_def)
  then show ?thesis by (rule stack_stays)
qed

subsection \<open>Reachable states\<close>

lemma uis_inv_init:
  assumes "uis_new c = Some u"
  shows "uis_inv (uis_init u) (uis_free u)"
proof -
  have wf: "uis_wf u" "uis_free u = map of_nat [0..<unat c]" "uis_capacity u = c"
    using uis_new_wf [OF assms] by auto
  have tag: "uis_extract_tag (uis_head u) = 0"
    using assms by (auto simp: uis_new_def split: if_splits)
  have "i \<in> set (uis_free u)" if "i < c" for i
  proof -
    have "unat i \<in> {0..<unat c}" using that by (simp add: word_less_nat_alt)
    then show ?thesis unfolding wf(2) by (force intro: image_eqI [of i of_nat "unat i"])
  qed
  then have "at_place (uis_init u) (uis_free u) i p \<longleftrightarrow> p = FreeList \<and> i < c" for i p
    using uis_free_bound [OF wf(1), of i] wf(3) by (cases p) (auto simp: uis_init_def)
  then have "owners_ok (uis_init u) (uis_free u)"
    using wf(3) by (auto simp: owners_ok_def uis_init_def)
  moreover have "list_ok (uis_init u) (uis_free u)"
    using wf tag by (auto simp: list_ok_def uis_wf_def uis_init_def)
  moreover have "count_ok (uis_init u) (uis_free u)"
    using wf by (simp add: count_ok_def uis_wf_def uis_init_def popping_def pushing_def)
  moreover have "snap_ok (uis_init u) t \<and> cas_ok (uis_init u) t" for t
    by (simp add: snap_ok_def cas_ok_def uis_init_def)
  ultimately show ?thesis by (simp add: uis_inv_def)
qed

lemma uis_reach_inv: "uis_reach c s \<Longrightarrow> \<exists>xs. uis_inv s xs"
proof (induction rule: uis_reach.induct)
  case (init u)
  then show ?case using uis_inv_init by blast
next
  case (step s s')
  then show ?case using uis_inv_step by blast
qed

lemma uis_reach_capacity: "uis_reach c s \<Longrightarrow> uis_capacity (shared s) = c"
proof (induction rule: uis_reach.induct)
  case (init u)
  then show ?case using uis_new_wf by (simp add: uis_init_def)
next
  case (step s s')
  have "uis_capacity (shared s') = uis_capacity (shared s)"
    using step.hyps(3)
  proof (cases rule: uis_step.cases)
    case (in_acquire t p b u p')
    then show ?thesis by (cases p) (auto simp: advance_def Let_def split: if_splits option.splits)
  next
    case (in_release t p b u p')
    then show ?thesis by (cases p) (auto simp: advance_def split: if_splits option.splits)
  qed auto
  with step.IH show ?case by simp
qed

lemma uis_inv_free: "uis_inv s xs \<Longrightarrow> uis_free (shared s) = xs"
  by (intro uis_free_eqI) (simp add: uis_inv_def list_ok_def)

text \<open>A thread that runs \<open>acquire\<close> while the others rest.\<close>

lemma uis_solo_acquire:
  assumes reach: "uis_reach c s" and rest: "\<forall>u. thr s u = Idle"
    and free: "uis_free (shared s) = i # xs"
  shows "\<exists>s'. uis_reach c s' \<and> (\<forall>u. thr s' u = Idle) \<and> held s' = insert i (held s) \<and>
    uis_free (shared s') = xs \<and> ver s' = Suc (ver s)"
proof -
  let ?u = "shared s" and ?old = "uis_head (shared s)"
  let ?n = "uis_next ?u ! unat i" and ?idle = "\<lambda>pc. (\<lambda>_. Idle)(0 := pc)"
  let ?v = "?u\<lparr>uis_head := uis_pack ?n (uis_extract_tag ?old + 1)\<rparr>"
  let ?w = "?v\<lparr>uis_borrowed := uis_borrowed ?u + 1\<rparr>"
  have thr: "thr s = (\<lambda>_. Idle)" using rest by auto
  obtain ys where inv: "uis_inv s ys" using uis_reach_inv [OF reach] by blast
  with free have ys: "ys = i # xs" using uis_inv_free by blast
  with inv have i: "uis_extract_head ?old = i" "i \<noteq> SENTINEL" "unat i < length (uis_next ?u)"
    and chain: "fl_chain (uis_next ?u) ?n xs"
    by (auto simp: uis_inv_def list_ok_def)
  let ?s1 = "s\<lparr>thr := ?idle (InAcq AcqStart)\<rparr>"
  let ?s2 = "advance ?s1 0 ?u (InAcq (AcqLoop ?old))"
  let ?s3 = "advance ?s2 0 ?u (InAcq (AcqCas ?old i ?n))"
  let ?s4 = "advance ?s3 0 ?v (InAcq (AcqCount i))"
  let ?s5 = "advance ?s4 0 ?w (InAcq (AcqRet (Ok i)))"
  let ?s6 = "?s5\<lparr>thr := (thr ?s5)(0 := Idle), held := insert i (held ?s5)\<rparr>"
  have r1: "uis_reach c ?s1"
    using thr uis_step.call_acquire [of s 0]
    by (intro uis_reach.step [OF reach]) (auto simp: tag_window_def)
  have r2: "uis_reach c ?s2"
    by (intro uis_reach.step [OF r1] uis_step.in_acquire) (auto simp: tag_window_def)
  have r3: "uis_reach c ?s3"
    by (intro uis_reach.step [OF r2] uis_step.in_acquire [where b = False])
      (use i in \<open>auto simp: tag_window_def advance_def Let_def\<close>)
  have r4: "uis_reach c ?s4"
    by (intro uis_reach.step [OF r3] uis_step.in_acquire [where b = False])
      (auto simp: tag_window_def advance_def)
  have r5: "uis_reach c ?s5"
    by (intro uis_reach.step [OF r4] uis_step.in_acquire [where b = False])
      (auto simp: tag_window_def advance_def)
  have r6: "uis_reach c ?s6"
    by (intro uis_reach.step [OF r5] uis_step.return_index)
      (auto simp: tag_window_def advance_def)
  have "uis_free ?w = xs"
    using chain by (intro uis_free_eqI) simp
  then show ?thesis
    by (intro exI [of _ ?s6] conjI r6) (auto simp: advance_def thr)
qed

text \<open>C8: exclusive ownership under interleaving. In every state that threads calling
  \<open>acquire\<close> and \<open>release\<close> can reach, one atomic access at a time, with spurious exchange
  failures, and with the tag window respected, every index below the capacity is in exactly one
  place: in the free list, with one caller, or in the hands of one thread that is inside an
  operation. No index is handed out twice, none is lost, none is out of range, and no thread
  has panicked on a slice access.\<close>

theorem uis_exclusive:
  assumes "uis_reach c s"
  shows "(\<forall>i < c. \<exists>!p. at_place s (uis_free (shared s)) i p) \<and>
     (\<forall>i p. at_place s (uis_free (shared s)) i p \<longrightarrow> i < c) \<and>
     distinct (uis_free (shared s)) \<and>
     (\<forall>t. thr s t \<noteq> InAcq AcqPanic \<and> thr s t \<noteq> InRel RelPanic)"
proof -
  obtain xs where inv: "uis_inv s xs" using uis_reach_inv [OF assms] by blast
  then have owners: "owners_ok s (uis_free (shared s))" and "distinct (uis_free (shared s))"
    using uis_inv_free [OF inv] by (auto simp: uis_inv_def list_ok_def intro: fl_chain_distinct)
  moreover have "\<forall>t. thr s t \<noteq> InAcq AcqPanic \<and> thr s t \<noteq> InRel RelPanic"
    using inv by (auto simp: uis_inv_def cas_ok_def)
  ultimately show ?thesis
    unfolding owners_ok_def uis_reach_capacity [OF assms] by blast
qed

lemma uis_reach_two: "uis_reach 2 (uis_init uis_two)"
proof (rule uis_reach.init)
  have "[0..<2::nat] = [0, 1]" by (simp add: upt_rec)
  then have "fresh_next 2 = [1, SENTINEL]" by (simp add: fresh_next_def)
  then show "uis_new 2 = Some uis_two"
    by (simp add: uis_new_def uis_two_def SENTINEL_def)
qed

theorem uis_exclusive_witness:
  "\<exists>s. uis_reach 2 s \<and> held s = {0, 1} \<and> (\<forall>i < 2. \<exists>!p. at_place s (uis_free (shared s)) i p)"
proof -
  have "uis_free (shared (uis_init uis_two)) = [0, 1]" "\<forall>u. thr (uis_init uis_two) u = Idle"
    using uis_two_wf by (simp_all add: uis_init_def)
  from uis_solo_acquire [OF uis_reach_two this(2,1)] obtain s1 where s1: "uis_reach 2 s1"
    "\<forall>u. thr s1 u = Idle" "held s1 = {0}" "uis_free (shared s1) = [1]"
    by (auto simp: uis_init_def)
  from uis_solo_acquire [OF s1(1,2,4)] obtain s2 where s2: "uis_reach 2 s2" "held s2 = {0, 1}"
    using s1(3) by auto
  from uis_exclusive [OF s2(1)] s2 show ?thesis by blast
qed

text \<open>C23: linearisation. Each atomic step of a reachable state either leaves the abstract free
  stack as it is, or is the successful exchange of one thread in \<open>acquire\<close> and pops exactly the
  index that thread will return, or is the successful exchange of one thread in \<open>release\<close> and
  pushes exactly the index it was given.\<close>

theorem uis_step_linearises:
  assumes "uis_reach c s" and "tag_window s" and "uis_step s s'"
  shows "stack_move s s' (uis_free (shared s)) (uis_free (shared s'))"
proof -
  obtain xs where inv: "uis_inv s xs" using uis_reach_inv [OF assms(1)] by blast
  then obtain ys where "stack_move s s' xs ys" "uis_inv s' ys"
    using uis_inv_step assms(2,3) by blast
  with inv show ?thesis using uis_inv_free by simp
qed

theorem uis_step_linearises_witness:
  "uis_reach 2 (uis_init uis_two) \<and>
   stack_move (uis_init uis_two) ((uis_init uis_two)\<lparr>thr := (\<lambda>_. Idle)(7 := InAcq AcqStart)\<rparr>)
     [0, 1] (uis_free uis_two)"
proof -
  have win: "tag_window (uis_init uis_two)" by (simp add: tag_window_def uis_init_def)
  have step: "uis_step (uis_init uis_two)
      ((uis_init uis_two)\<lparr>thr := (\<lambda>_. Idle)(7 := InAcq AcqStart)\<rparr>)"
    using uis_step.call_acquire [of "uis_init uis_two" 7] by (simp add: uis_init_def)
  show ?thesis
    using uis_step_linearises [OF uis_reach_two win step] uis_reach_two uis_two_wf
    by (simp add: uis_init_def)
qed

text \<open>At rest, the relaxed \<open>borrowed\<close> counter is exact. When no thread is inside an
  operation, \<open>borrowed_count()\<close> is the number of indices the callers hold and \<open>available()\<close> the
  length of the free list, however the operations before were interleaved.\<close>

theorem uis_count_at_rest:
  assumes reach: "uis_reach c s" and rest: "\<forall>t. thr s t = Idle"
  shows "unat (uis_borrowed_count (shared s)) = card (held s) \<and>
    unat (uis_available (shared s)) = length (uis_free (shared s)) \<and> uis_wf (shared s)"
proof -
  let ?xs = "uis_free (shared s)"
  obtain xs where "uis_inv s xs" using uis_reach_inv [OF reach] by blast
  then have inv: "uis_inv s ?xs" using uis_inv_free by blast
  have "popping s = {}" "pushing s = {}" using rest by (auto simp: popping_def pushing_def)
  then have wf: "uis_wf (shared s)"
    using inv by (simp add: uis_inv_def list_ok_def count_ok_def uis_wf_def)
  have owners: "owners_ok s ?xs" using inv by (simp add: uis_inv_def)
  have "(\<exists>p. at_place s ?xs i p) \<longleftrightarrow> i \<in> set ?xs \<or> i \<in> held s" for i
    using rest by (metis at_place.simps option.distinct(1) pc_owns.simps(6) place.exhaust)
  then have all: "{i. i < c} = set ?xs \<union> held s"
    using owners uis_reach_capacity [OF reach] unfolding owners_ok_def by auto
  have disj: "set ?xs \<inter> held s = {}"
    using owners by (force simp: owners_ok_def dest: spec [where x = FreeList])
  have "unat c = length ?xs + card (held s)"
    using card_below [of c] card_Un_disjoint [OF _ _ disj] uis_free_distinct [OF wf]
    by (simp add: all distinct_card)
  then show ?thesis
    using wf uis_wf_borrowed [OF wf] uis_available_eq [OF wf] uis_reach_capacity [OF reach]
    by (simp add: uis_borrowed_count_def)
qed

theorem uis_count_at_rest_witness:
  "\<exists>s. uis_reach 2 s \<and> card (held s) = 1 \<and> unat (uis_borrowed_count (shared s)) = 1 \<and>
     unat (uis_available (shared s)) = 1"
proof -
  have "uis_free (shared (uis_init uis_two)) = [0, 1]" "\<forall>u. thr (uis_init uis_two) u = Idle"
    using uis_two_wf by (simp_all add: uis_init_def)
  from uis_solo_acquire [OF uis_reach_two this(2,1)] obtain s1 where s1: "uis_reach 2 s1"
    "\<forall>u. thr s1 u = Idle" "held s1 = {0}" "uis_free (shared s1) = [1]"
    by (auto simp: uis_init_def)
  then show ?thesis using uis_count_at_rest [OF s1(1,2)] by auto
qed

end
