(* ===== verification/Queue_Specs.thy ===== *)
theory Queue_Specs
  imports Entangle_Prelude
begin

text \<open>
  What the channel layer relies on when it passes pointer offsets: a bounded first-in first-out
  queue of 64-bit words. The contract names the queue's contents and its bound; the client
  lemmas at the end are about whole batches and follow from the contract.
\<close>

text \<open>The specification as a program of its own: a run of operations on a plain list.\<close>

datatype queue_op = Push u64 | Pop

datatype queue_result = Pushed bool | Popped "u64 option"

fun fifo_run :: "nat \<Rightarrow> u64 list \<Rightarrow> queue_op list \<Rightarrow> queue_result list" where
  "fifo_run b xs [] = []"
| "fifo_run b xs (Push v # ops) =
     (if length xs < b then Pushed True # fifo_run b (xs @ [v]) ops
      else Pushed False # fifo_run b xs ops)"
| "fifo_run b [] (Pop # ops) = Popped None # fifo_run b [] ops"
| "fifo_run b (x # xs) (Pop # ops) = Popped (Some x) # fifo_run b xs ops"

locale bounded_fifo =
  fixes invar :: "'q \<Rightarrow> bool"
    and items :: "'q \<Rightarrow> u64 list"
    and bound :: "'q \<Rightarrow> nat"
    and push :: "'q \<Rightarrow> u64 \<Rightarrow> (bool \<times> 'q) option"
    and pop :: "'q \<Rightarrow> (u64 option \<times> 'q) option"
  assumes items_bound: "invar q \<Longrightarrow> length (items q) \<le> bound q"
    and push_room: "invar q \<Longrightarrow> length (items q) < bound q \<Longrightarrow>
      \<exists>q'. push q v = Some (True, q') \<and> items q' = items q @ [v] \<and> invar q' \<and> bound q' = bound q"
    and push_full: "invar q \<Longrightarrow> length (items q) = bound q \<Longrightarrow> push q v = Some (False, q)"
    and pop_empty: "invar q \<Longrightarrow> items q = [] \<Longrightarrow> pop q = Some (None, q)"
    and pop_Cons: "invar q \<Longrightarrow> items q = v # vs \<Longrightarrow>
      \<exists>q'. pop q = Some (Some v, q') \<and> items q' = vs \<and> invar q' \<and> bound q' = bound q"
begin

lemma push_total:
  assumes "invar q"
  shows "\<exists>b q'. push q v = Some (b, q') \<and> invar q' \<and> bound q' = bound q \<and>
    (b \<longleftrightarrow> length (items q) < bound q) \<and> items q' = (if b then items q @ [v] else items q)"
  using push_room [OF assms, of v] push_full [OF assms, of v] items_bound [OF assms] assms
  by (cases "length (items q) < bound q") auto

lemma pop_total:
  assumes "invar q"
  shows "\<exists>r q'. pop q = Some (r, q') \<and> invar q' \<and> bound q' = bound q \<and>
    items q = (case r of None \<Rightarrow> [] | Some v \<Rightarrow> [v]) @ items q'"
proof (cases "items q")
  case Nil
  with pop_empty [OF assms] assms show ?thesis by auto
next
  case (Cons v vs)
  with pop_Cons [OF assms Cons] show ?thesis by auto
qed

fun push_all :: "'q \<Rightarrow> u64 list \<Rightarrow> 'q option" where
  "push_all q [] = Some q"
| "push_all q (v # vs) =
     (case push q v of Some (True, q') \<Rightarrow> push_all q' vs | _ \<Rightarrow> None)"

fun pop_n :: "nat \<Rightarrow> 'q \<Rightarrow> (u64 list \<times> 'q) option" where
  "pop_n 0 q = Some ([], q)"
| "pop_n (Suc n) q =
     (case pop q of Some (Some v, q') \<Rightarrow> map_option (\<lambda>(vs, q''). (v # vs, q'')) (pop_n n q')
      | _ \<Rightarrow> None)"

lemma push_all_fits:
  "invar q \<Longrightarrow> length (items q) + length vs \<le> bound q \<Longrightarrow>
     \<exists>q'. push_all q vs = Some q' \<and> items q' = items q @ vs \<and> invar q' \<and> bound q' = bound q"
proof (induction vs arbitrary: q)
  case (Cons v vs)
  then obtain q1 where "push q v = Some (True, q1)" "items q1 = items q @ [v]" "invar q1"
    "bound q1 = bound q"
    using push_room [of q v] by auto
  with Cons.IH [of q1] Cons.prems show ?case by auto
qed simp

lemma pop_n_drains:
  "invar q \<Longrightarrow> items q = vs @ ws \<Longrightarrow>
     \<exists>q'. pop_n (length vs) q = Some (vs, q') \<and> items q' = ws \<and> invar q' \<and> bound q' = bound q"
proof (induction vs arbitrary: q)
  case (Cons v vs)
  then obtain q1 where "pop q = Some (Some v, q1)" "items q1 = vs @ ws" "invar q1"
    "bound q1 = bound q"
    using pop_Cons [of q v "vs @ ws"] by auto
  with Cons.IH [of q1] show ?case by auto
qed simp

lemma fifo_roundtrip:
  assumes "invar q" and "items q = []" and "length vs \<le> bound q"
  shows "\<exists>q' q''. push_all q vs = Some q' \<and> pop_n (length vs) q' = Some (vs, q'') \<and> items q'' = []"
proof -
  from push_all_fits [of q vs] assms obtain q' where "push_all q vs = Some q'" "items q' = vs @ []"
    "invar q'"
    by auto
  with pop_n_drains [of q' vs "[]"] show ?thesis by auto
qed

text \<open>A run of operations on the implementation, and that it answers like the list.\<close>

fun run :: "'q \<Rightarrow> queue_op list \<Rightarrow> queue_result list option" where
  "run q [] = Some []"
| "run q (Push v # ops) =
     (case push q v of None \<Rightarrow> None | Some (b, q') \<Rightarrow> map_option ((#) (Pushed b)) (run q' ops))"
| "run q (Pop # ops) =
     (case pop q of None \<Rightarrow> None | Some (r, q') \<Rightarrow> map_option ((#) (Popped r)) (run q' ops))"

lemma run_fifo: "invar q \<Longrightarrow> run q ops = Some (fifo_run (bound q) (items q) ops)"
proof (induction ops arbitrary: q)
  case (Cons op ops)
  show ?case
  proof (cases op)
    case (Push v)
    with push_total [OF Cons.prems, of v] Cons.IH show ?thesis by auto
  next
    case Pop
    with Cons.IH pop_empty [OF Cons.prems] pop_Cons [OF Cons.prems] Cons.prems show ?thesis
      by (cases "items q") fastforce+
  qed
qed simp

end

end
