(* ===== verification/Spsc_Queue.thy ===== *)
theory Spsc_Queue
  imports Queue_Specs
begin

text \<open>
  \<open>SpscQueue\<close> of \<open>crates/entangle-lockfree/src/spsc_queue.rs\<close>: a ring buffer of 64-bit words with
  wrapping 64-bit positions. The methods here are the ones a single thread sees; the abstraction
  \<open>spsc_items\<close> reads the queue's contents off the ring, and \<open>spsc\<close> interprets the queue contract.
  The interleaving of the two ends is the subject of \<open>Spsc_Conc\<close>.
\<close>

record spsc_queue =
  write_pos :: u64
  read_pos :: u64
  spsc_capacity :: usize
  spsc_mask :: usize
  spsc_data :: "u64 list"

text \<open>\<open>usize::next_power_of_two\<close> of the standard library in a release build: the smallest power of
  two that is at least the argument, 0 when it does not fit.\<close>

definition next_power_of_two :: "usize \<Rightarrow> usize" where
  "next_power_of_two n =
     (case find (\<lambda>k. unat n \<le> 2 ^ k) [0..<64] of Some k \<Rightarrow> 2 ^ k | None \<Rightarrow> 0)"

definition spsc_new :: "usize \<Rightarrow> spsc_queue" where
  "spsc_new capacity0 =
     (let capacity = max (next_power_of_two capacity0) 2
      in \<lparr>write_pos = 0, read_pos = 0, spsc_capacity = capacity, spsc_mask = capacity - 1,
          spsc_data = replicate (unat capacity) 0\<rparr>)"

definition spsc_push :: "spsc_queue \<Rightarrow> u64 \<Rightarrow> (bool \<times> spsc_queue) option" where
  "spsc_push q value =
     (let write = write_pos q; read = read_pos q
      in if write - read \<ge> spsc_capacity q then Some (False, q)
         else do {
           data \<leftarrow> upd (spsc_data q) (unat (write AND spsc_mask q)) value;
           Some (True, q\<lparr>spsc_data := data, write_pos := write + 1\<rparr>)
         })"

definition spsc_pop :: "spsc_queue \<Rightarrow> (u64 option \<times> spsc_queue) option" where
  "spsc_pop q =
     (let read = read_pos q; write = write_pos q
      in if read = write then Some (None, q)
         else do {
           value \<leftarrow> idx (spsc_data q) (unat (read AND spsc_mask q));
           Some (Some value, q\<lparr>read_pos := read + 1\<rparr>)
         })"

definition spsc_is_empty :: "spsc_queue \<Rightarrow> bool" where
  "spsc_is_empty q \<longleftrightarrow> read_pos q = write_pos q"

definition spsc_is_full :: "spsc_queue \<Rightarrow> bool" where
  "spsc_is_full q \<longleftrightarrow> write_pos q - read_pos q \<ge> spsc_capacity q"

definition spsc_len :: "spsc_queue \<Rightarrow> usize" where
  "spsc_len q = write_pos q - read_pos q"

subsection \<open>The ring\<close>

text \<open>The shape that \<open>new\<close> establishes and no method changes: a capacity \<open>2 ^ k\<close> with its mask.\<close>

definition ring_ok :: "spsc_queue \<Rightarrow> bool" where
  "ring_ok q \<longleftrightarrow> (\<exists>k. 0 < k \<and> k < 64 \<and> spsc_capacity q = 2 ^ k) \<and>
     spsc_mask q = spsc_capacity q - 1 \<and> length (spsc_data q) = unat (spsc_capacity q)"

definition spsc_items :: "spsc_queue \<Rightarrow> u64 list" where
  "spsc_items q =
     map (\<lambda>i. spsc_data q ! unat ((read_pos q + of_nat i) AND spsc_mask q))
       [0..<unat (write_pos q - read_pos q)]"

definition spsc_wf :: "spsc_queue \<Rightarrow> bool" where
  "spsc_wf q \<longleftrightarrow> ring_ok q \<and> write_pos q - read_pos q \<le> spsc_capacity q"

lemma unat_pow2 [simp]:
  assumes "k < 64"
  shows "unat (2 ^ k :: u64) = 2 ^ k"
proof -
  have "(2 :: nat) ^ k < 2 ^ LENGTH(64)"
    by (rule power_strict_increasing) (use assms in simp_all)
  then have "unat (of_nat (2 ^ k) :: u64) = 2 ^ k" by (rule unat_of_nat_less)
  then show ?thesis by simp
qed

lemma mod_inj_window:
  fixes a b c :: nat
  assumes "a mod c = b mod c" and "a \<le> b" and "b - a < c"
  shows "a = b"
proof -
  have "c dvd b - a" using assms(1,2) by (metis mod_eq_dvd_iff_nat)
  with assms(3) have "b - a = 0" by (meson dvd_imp_le not_less zero_less_iff_neq_zero neq0_conv)
  with assms(2) show ?thesis by simp
qed

text \<open>The masked index of position \<open>n\<close>, counted without wrap-around, is \<open>n\<close> modulo the capacity.\<close>

lemma ring_slot:
  assumes "ring_ok q"
  shows "unat (of_nat n AND spsc_mask q) = n mod unat (spsc_capacity q)"
proof -
  obtain k where k: "k < 64" "spsc_capacity q = 2 ^ k" "spsc_mask q = mask k"
    using assms by (auto simp: ring_ok_def mask_eq_decr_exp)
  have "unat (of_nat n AND mask k :: u64) = take_bit k (unat (of_nat n :: u64))"
    by (simp add: unsigned_take_bit_eq flip: take_bit_eq_mask)
  also have "\<dots> = take_bit k (take_bit 64 n)"
    by (simp add: unat_of_nat take_bit_eq_mod)
  also have "\<dots> = n mod 2 ^ k"
    unfolding take_bit_take_bit using k(1) by (simp add: min_def take_bit_eq_mod)
  finally show ?thesis using k by simp
qed

lemma ring_slot_add:
  assumes "ring_ok q"
  shows "unat ((w + of_nat i) AND spsc_mask q) = (unat w + i) mod unat (spsc_capacity q)"
  using ring_slot [OF assms, of "unat w + i"] by simp

lemma ring_slot_bound:
  assumes "ring_ok q"
  shows "unat (w AND spsc_mask q) < length (spsc_data q)"
  using ring_slot [OF assms, of "unat w"] assms by (auto simp: ring_ok_def)


lemma spsc_items_nth:
  assumes "ring_ok q" and "i < unat (write_pos q - read_pos q)"
  shows "spsc_items q ! i = spsc_data q ! ((unat (read_pos q) + i) mod unat (spsc_capacity q))"
  using assms by (simp add: spsc_items_def ring_slot_add)

lemma length_spsc_items [simp]: "length (spsc_items q) = unat (write_pos q - read_pos q)"
  by (simp add: spsc_items_def)

text \<open>The two pointwise characterisations below are what the proofs of \<open>push\<close>, \<open>pop\<close> and of the
  interleaved queue use: contents by position.\<close>

lemma spsc_items_eqI:
  assumes "ring_ok q" and "unat (write_pos q - read_pos q) = length vs"
    and "\<And>i. i < length vs \<Longrightarrow>
      spsc_data q ! ((unat (read_pos q) + i) mod unat (spsc_capacity q)) = vs ! i"
  shows "spsc_items q = vs"
  using assms by (intro nth_equalityI) (simp_all add: spsc_items_nth)

lemma spsc_new_wf: "spsc_wf (spsc_new n) \<and> spsc_items (spsc_new n) = []"
proof -
  let ?c = "max (next_power_of_two n) 2"
  have "\<exists>k. 0 < k \<and> k < 64 \<and> ?c = 2 ^ k"
  proof (cases "find (\<lambda>k. unat n \<le> 2 ^ k) [0..<64]")
    case None
    then show ?thesis by (intro exI [of _ 1]) (simp add: next_power_of_two_def)
  next
    case (Some k)
    then have k: "k < 64" by (auto simp: find_Some_iff)
    show ?thesis
    proof (cases "k = 0")
      case True
      with Some show ?thesis by (intro exI [of _ 1]) (simp add: next_power_of_two_def max_def)
    next
      case False
      with k have "(2 :: u64) \<le> 2 ^ k"
        using power_increasing [of 1 k "2 :: nat"] by (simp add: word_le_nat_alt)
      with Some k False show ?thesis
        by (intro exI [of _ k]) (simp add: next_power_of_two_def max_def)
    qed
  qed
  then show ?thesis
    by (auto simp: spsc_wf_def ring_ok_def spsc_new_def Let_def spsc_items_def)
qed

lemma spsc_new_capacity:
  assumes "unat n \<le> 2 ^ 63"
  shows "n \<le> spsc_capacity (spsc_new n)"
proof (cases "find (\<lambda>k. unat n \<le> 2 ^ k) [0..<64]")
  case None
  then have "\<not> unat n \<le> 2 ^ 63" by (auto simp: find_None_iff dest: spec [of _ 63])
  with assms show ?thesis by simp
next
  case (Some k)
  then have "k < 64" "unat n \<le> 2 ^ k" by (auto simp: find_Some_iff)
  with Some have "n \<le> next_power_of_two n"
    by (simp add: next_power_of_two_def word_le_nat_alt)
  then show ?thesis by (simp add: spsc_new_def Let_def max.coboundedI1)
qed

lemma spsc_push_full:
  "spsc_wf q \<Longrightarrow> length (spsc_items q) = unat (spsc_capacity q) \<Longrightarrow> spsc_push q v = Some (False, q)"
  by (simp add: spsc_push_def Let_def word_le_nat_alt)

lemma ring_ok_capacity: "ring_ok q \<Longrightarrow> 0 < unat (spsc_capacity q) \<and> unat (spsc_capacity q) < 2 ^ 63 + 1"
proof -
  assume "ring_ok q"
  then obtain k where "k < 64" "unat (spsc_capacity q) = 2 ^ k" by (auto simp: ring_ok_def)
  moreover from \<open>k < 64\<close> have "(2 :: nat) ^ k \<le> 2 ^ 63" by (intro power_increasing) simp_all
  ultimately show ?thesis by simp
qed

lemma spsc_push_room:
  assumes wf: "spsc_wf q" and room: "length (spsc_items q) < unat (spsc_capacity q)"
  obtains q' where "spsc_push q v = Some (True, q')" and "spsc_items q' = spsc_items q @ [v]"
    and "spsc_wf q'" and "spsc_capacity q' = spsc_capacity q"
proof -
  let ?c = "unat (spsc_capacity q)" and ?n = "unat (write_pos q - read_pos q)"
  let ?q' = "q\<lparr>spsc_data := (spsc_data q)[unat (write_pos q AND spsc_mask q) := v],
    write_pos := write_pos q + 1\<rparr>"
  have ring: "ring_ok q" using wf by (simp add: spsc_wf_def)
  have n: "?n < ?c" using room by simp
  have w: "write_pos q = read_pos q + of_nat ?n" by simp
  have slot: "unat (write_pos q AND spsc_mask q) = (unat (read_pos q) + ?n) mod ?c"
    using ring_slot_add [OF ring, of "read_pos q" ?n] by simp
  have ring': "ring_ok ?q'" using ring by (simp add: ring_ok_def)
  have "write_pos ?q' - read_pos ?q' = of_nat (Suc ?n)" by simp
  moreover have "Suc ?n < 2 ^ LENGTH(64)"
    using n ring_ok_capacity [OF ring] by simp
  ultimately have n': "unat (write_pos ?q' - read_pos ?q') = Suc ?n"
    by (simp only: unat_of_nat_less)
  have "spsc_items ?q' = spsc_items q @ [v]"
  proof (rule spsc_items_eqI [OF ring'])
    show "unat (write_pos ?q' - read_pos ?q') = length (spsc_items q @ [v])"
      using n' by simp
    fix i assume "i < length (spsc_items q @ [v])"
    then have i: "i \<le> ?n" by simp
    show "spsc_data ?q' ! ((unat (read_pos ?q') + i) mod unat (spsc_capacity ?q')) =
        (spsc_items q @ [v]) ! i"
    proof (cases "i = ?n")
      case True
      then show ?thesis
        using slot ring_slot_bound [OF ring, of "write_pos q"] by (simp add: nth_append)
    next
      case False
      have "?n - i < ?c" using n by simp
      with False i have "(unat (read_pos q) + i) mod ?c \<noteq> (unat (read_pos q) + ?n) mod ?c"
        using mod_inj_window [of "unat (read_pos q) + i" ?c "unat (read_pos q) + ?n"] by auto
      with False i slot show ?thesis
        by (simp add: nth_append spsc_items_nth [OF ring])
    qed
  qed
  moreover have "spsc_push q v = Some (True, ?q')"
    using n ring_slot_bound [OF ring] by (simp add: spsc_push_def Let_def word_le_nat_alt)
  moreover have "spsc_wf ?q'"
    using ring' n n' by (simp add: spsc_wf_def word_le_nat_alt)
  ultimately show ?thesis using that by simp
qed


lemma spsc_pop_empty:
  assumes "spsc_items q = []"
  shows "spsc_pop q = Some (None, q)"
proof -
  have "unat (write_pos q - read_pos q) = 0" using assms length_spsc_items [of q] by simp
  then have "write_pos q - read_pos q = 0" by (simp add: unat_eq_0)
  then show ?thesis by (simp add: spsc_pop_def)
qed

lemma spsc_pop_Cons:
  assumes wf: "spsc_wf q" and items: "spsc_items q = v # vs"
  obtains q' where "spsc_pop q = Some (Some v, q')" and "spsc_items q' = vs" and "spsc_wf q'"
    and "spsc_capacity q' = spsc_capacity q"
proof -
  let ?q' = "q\<lparr>read_pos := read_pos q + 1\<rparr>" and ?n = "length vs"
  have ring: "ring_ok q" using wf by (simp add: spsc_wf_def)
  then have ring': "ring_ok ?q'" by (simp add: ring_ok_def)
  have n: "unat (write_pos q - read_pos q) = Suc ?n"
    using items length_spsc_items [of q] by simp
  have "write_pos q - read_pos q = of_nat (unat (write_pos q - read_pos q))" by simp
  also have "\<dots> = of_nat (Suc ?n)" unfolding n ..
  finally have "write_pos ?q' - read_pos ?q' = of_nat ?n" by (simp add: algebra_simps)
  moreover have "?n < 2 ^ LENGTH(64)"
    using n unat_bound [of "write_pos q - read_pos q"] by simp
  ultimately have n': "unat (write_pos ?q' - read_pos ?q') = ?n"
    by (simp only: unat_of_nat_less)
  have nth: "spsc_items q ! i = spsc_data q ! ((unat (read_pos q) + i) mod unat (spsc_capacity q))"
    if "i \<le> ?n" for i
    using that n by (simp add: spsc_items_nth [OF ring])
  have "spsc_items ?q' = vs"
  proof (rule spsc_items_eqI [OF ring' n'])
    fix i assume i: "i < ?n"
    have "unat ((read_pos q + of_nat (Suc i)) AND spsc_mask q) =
        (unat (read_pos q + 1) + i) mod unat (spsc_capacity q)"
      using ring_slot_add [OF ring, of "read_pos q + 1" i] by (simp add: algebra_simps)
    then have "(unat (read_pos q + 1) + i) mod unat (spsc_capacity q) =
        (unat (read_pos q) + Suc i) mod unat (spsc_capacity q)"
      using ring_slot_add [OF ring, of "read_pos q" "Suc i"] by (simp only:)
    then show "spsc_data ?q' ! ((unat (read_pos ?q') + i) mod unat (spsc_capacity ?q')) = vs ! i"
      using nth [of "Suc i"] i items by simp
  qed
  moreover have "spsc_pop q = Some (Some v, ?q')"
  proof -
    have "read_pos q \<noteq> write_pos q" using n by auto
    moreover have "spsc_data q ! unat (read_pos q AND spsc_mask q) = v"
      using nth [of 0] items ring_slot [OF ring, of "unat (read_pos q)"] by simp
    ultimately show ?thesis
      using ring_slot_bound [OF ring] by (simp add: spsc_pop_def Let_def)
  qed
  moreover have "spsc_wf ?q'"
    using ring' n n' wf by (simp add: spsc_wf_def word_le_nat_alt)
  ultimately show ?thesis using that by simp
qed

interpretation spsc: bounded_fifo spsc_wf spsc_items "\<lambda>q. unat (spsc_capacity q)" spsc_push spsc_pop
proof
  fix q :: spsc_queue and v :: u64 and vs
  assume wf: "spsc_wf q"
  show "length (spsc_items q) \<le> unat (spsc_capacity q)"
    using wf by (simp add: spsc_wf_def word_le_nat_alt)
  show "\<exists>q'. spsc_push q v = Some (True, q') \<and> spsc_items q' = spsc_items q @ [v] \<and> spsc_wf q' \<and>
      unat (spsc_capacity q') = unat (spsc_capacity q)"
    if "length (spsc_items q) < unat (spsc_capacity q)"
    using spsc_push_room [OF wf that] by metis
  show "spsc_push q v = Some (False, q)" if "length (spsc_items q) = unat (spsc_capacity q)"
    using spsc_push_full [OF wf that] .
  show "spsc_pop q = Some (None, q)" if "spsc_items q = []"
    using spsc_pop_empty [OF that] .
  show "\<exists>q'. spsc_pop q = Some (Some v, q') \<and> spsc_items q' = vs \<and> spsc_wf q' \<and>
      unat (spsc_capacity q') = unat (spsc_capacity q)"
    if "spsc_items q = v # vs"
    using spsc_pop_Cons [OF wf that] by metis
qed

subsection \<open>The queries\<close>

lemma spsc_queries:
  assumes "spsc_wf q"
  shows "spsc_is_empty q \<longleftrightarrow> spsc_items q = []"
    and "spsc_is_full q \<longleftrightarrow> length (spsc_items q) = unat (spsc_capacity q)"
    and "unat (spsc_len q) = length (spsc_items q)"
proof -
  show "unat (spsc_len q) = length (spsc_items q)" by (simp add: spsc_len_def)
  have "spsc_items q = [] \<longleftrightarrow> unat (write_pos q - read_pos q) = 0"
    using length_spsc_items [of q] by (metis length_0_conv)
  then show "spsc_is_empty q \<longleftrightarrow> spsc_items q = []"
    by (auto simp: spsc_is_empty_def unat_eq_0)
  show "spsc_is_full q \<longleftrightarrow> length (spsc_items q) = unat (spsc_capacity q)"
    using assms by (auto simp: spsc_is_full_def spsc_wf_def word_le_nat_alt)
qed

text \<open>C24: the ring buffer is a bounded first-in first-out queue. Whatever sequence of pushes and
  pops one thread performs on a fresh \<open>SpscQueue\<close>, no access is out of range and every call
  answers as a plain list bounded by the rounded-up capacity would, also after the 64-bit
  positions wrap around.\<close>

theorem spsc_run_refines:
  "spsc.run (spsc_new n) ops = Some (fifo_run (unat (spsc_capacity (spsc_new n))) [] ops)"
  using spsc.run_fifo [of "spsc_new n" ops] spsc_new_wf by simp

end
