(* ===== verification/Spsc_Conc.thy ===== *)
theory Spsc_Conc
  imports Spsc_Queue
begin

text \<open>
  The two ends of one \<open>SpscQueue\<close> at work at the same time: one thread runs \<open>push\<close>, another runs
  \<open>pop\<close>, interleaved at the granularity of the atomic loads and stores, under sequential
  consistency. Each end works on positions it loaded earlier, which the other end may have moved
  on since. \<open>pushed\<close> and \<open>popped\<close> record, outside the program, the values whose push returned
  \<open>true\<close> and the values that pops returned, in order.
\<close>

subsection \<open>The methods, one atomic access at a time\<close>

datatype prod_pc =
    PIdle
  | PStart u64
  | PWrite u64 u64
  | PRead u64 u64 u64
  | PStored u64 u64
  | PRet bool
  | PPanic

fun prod_step :: "spsc_queue \<Rightarrow> prod_pc \<Rightarrow> spsc_queue \<times> prod_pc" where
  "prod_step q (PStart value) = (q, PWrite value (write_pos q))"
| "prod_step q (PWrite value write) = (q, PRead value write (read_pos q))"
| "prod_step q (PRead value write read) =
     (if write - read \<ge> spsc_capacity q then (q, PRet False)
      else case upd (spsc_data q) (unat (write AND spsc_mask q)) value of
             None \<Rightarrow> (q, PPanic)
           | Some data \<Rightarrow> (q\<lparr>spsc_data := data\<rparr>, PStored value write))"
| "prod_step q (PStored value write) = (q\<lparr>write_pos := write + 1\<rparr>, PRet True)"
| "prod_step q pc = (q, pc)"

datatype cons_pc =
    CIdle
  | CStart
  | CRead u64
  | CWrite u64 u64
  | CLoaded u64 u64
  | CRet "u64 option"
  | CPanic

fun cons_step :: "spsc_queue \<Rightarrow> cons_pc \<Rightarrow> spsc_queue \<times> cons_pc" where
  "cons_step q CStart = (q, CRead (read_pos q))"
| "cons_step q (CRead read) = (q, CWrite read (write_pos q))"
| "cons_step q (CWrite read write) =
     (if read = write then (q, CRet None)
      else case idx (spsc_data q) (unat (read AND spsc_mask q)) of
             None \<Rightarrow> (q, CPanic)
           | Some value \<Rightarrow> (q, CLoaded read value))"
| "cons_step q (CLoaded read value) = (q\<lparr>read_pos := read + 1\<rparr>, CRet (Some value))"
| "cons_step q pc = (q, pc)"

record spsc_sys =
  ring :: spsc_queue
  prod :: prod_pc
  cons :: cons_pc
  pushed :: "u64 list"
  popped :: "u64 list"

text \<open>What a step adds to the two histories.\<close>

fun prod_log :: "prod_pc \<Rightarrow> u64 list" where
  "prod_log (PStored value write) = [value]"
| "prod_log pc = []"

fun cons_log :: "cons_pc \<Rightarrow> u64 list" where
  "cons_log (CLoaded read value) = [value]"
| "cons_log pc = []"

inductive spsc_step :: "spsc_sys \<Rightarrow> spsc_sys \<Rightarrow> bool" where
  call_push: "prod s = PIdle \<Longrightarrow> spsc_step s (s\<lparr>prod := PStart v\<rparr>)"
| in_push: "prod_step (ring s) (prod s) = (q, pc) \<Longrightarrow>
    spsc_step s (s\<lparr>ring := q, prod := pc, pushed := pushed s @ prod_log (prod s)\<rparr>)"
| return_push: "prod s = PRet b \<Longrightarrow> spsc_step s (s\<lparr>prod := PIdle\<rparr>)"
| call_pop: "cons s = CIdle \<Longrightarrow> spsc_step s (s\<lparr>cons := CStart\<rparr>)"
| in_pop: "cons_step (ring s) (cons s) = (q, pc) \<Longrightarrow>
    spsc_step s (s\<lparr>ring := q, cons := pc, popped := popped s @ cons_log (cons s)\<rparr>)"
| return_pop: "cons s = CRet r \<Longrightarrow> spsc_step s (s\<lparr>cons := CIdle\<rparr>)"

definition spsc_init :: "usize \<Rightarrow> spsc_sys" where
  "spsc_init n = \<lparr>ring = spsc_new n, prod = PIdle, cons = CIdle, pushed = [], popped = []\<rparr>"

inductive spsc_reach :: "usize \<Rightarrow> spsc_sys \<Rightarrow> bool" for n where
  init: "spsc_reach n (spsc_init n)"
| step: "spsc_reach n s \<Longrightarrow> spsc_step s s' \<Longrightarrow> spsc_reach n s'"

subsection \<open>The invariant\<close>

text \<open>Positions counted without wrap-around are the lengths of the two histories.\<close>

definition ring_holds :: "spsc_sys \<Rightarrow> bool" where
  "ring_holds s \<longleftrightarrow> ring_ok (ring s) \<and>
     write_pos (ring s) = of_nat (length (pushed s)) \<and>
     read_pos (ring s) = of_nat (length (popped s)) \<and>
     length (popped s) \<le> length (pushed s) \<and>
     length (pushed s) \<le> length (popped s) + unat (spsc_capacity (ring s)) \<and>
     popped s = take (length (popped s)) (pushed s) \<and>
     (\<forall>i. length (popped s) \<le> i \<longrightarrow> i < length (pushed s) \<longrightarrow>
        spsc_data (ring s) ! (i mod unat (spsc_capacity (ring s))) = pushed s ! i)"

fun prod_ok :: "spsc_sys \<Rightarrow> prod_pc \<Rightarrow> bool" where
  "prod_ok s (PWrite v w) \<longleftrightarrow> w = of_nat (length (pushed s))"
| "prod_ok s (PRead v w r) \<longleftrightarrow> w = of_nat (length (pushed s)) \<and>
     (\<exists>k. r = of_nat k \<and> k \<le> length (popped s) \<and>
        length (pushed s) \<le> k + unat (spsc_capacity (ring s)))"
| "prod_ok s (PStored v w) \<longleftrightarrow> w = of_nat (length (pushed s)) \<and>
     length (pushed s) < length (popped s) + unat (spsc_capacity (ring s)) \<and>
     spsc_data (ring s) ! (length (pushed s) mod unat (spsc_capacity (ring s))) = v"
| "prod_ok s PPanic \<longleftrightarrow> False"
| "prod_ok s _ \<longleftrightarrow> True"

fun cons_ok :: "spsc_sys \<Rightarrow> cons_pc \<Rightarrow> bool" where
  "cons_ok s (CRead r) \<longleftrightarrow> r = of_nat (length (popped s))"
| "cons_ok s (CWrite r w) \<longleftrightarrow> r = of_nat (length (popped s)) \<and>
     (\<exists>k. w = of_nat k \<and> length (popped s) \<le> k \<and> k \<le> length (pushed s))"
| "cons_ok s (CLoaded r v) \<longleftrightarrow> r = of_nat (length (popped s)) \<and>
     length (popped s) < length (pushed s) \<and> v = pushed s ! length (popped s)"
| "cons_ok s CPanic \<longleftrightarrow> False"
| "cons_ok s _ \<longleftrightarrow> True"

definition spsc_inv :: "spsc_sys \<Rightarrow> bool" where
  "spsc_inv s \<longleftrightarrow> ring_holds s \<and> prod_ok s (prod s) \<and> cons_ok s (cons s)"

lemma spsc_inv_init: "spsc_inv (spsc_init n)"
  using spsc_new_wf [of n]
  by (simp add: spsc_inv_def ring_holds_def spsc_init_def spsc_wf_def)
    (simp add: spsc_new_def Let_def)

lemma ring_capacity_bound: "ring_ok q \<Longrightarrow> unat (spsc_capacity q) < 2 ^ LENGTH(64)"
  using ring_ok_capacity by fastforce

text \<open>A step that changes neither the ring nor the histories keeps what the other end relies on.\<close>

lemma spsc_ok_cong:
  assumes "ring s' = ring s" and "pushed s' = pushed s" and "popped s' = popped s"
  shows "ring_holds s' = ring_holds s" and "prod_ok s' p = prod_ok s p" and "cons_ok s' c = cons_ok s c"
proof -
  show "ring_holds s' = ring_holds s" using assms by (simp add: ring_holds_def)
  show "prod_ok s' p = prod_ok s p" using assms by (cases p) simp_all
  show "cons_ok s' c = cons_ok s c" using assms by (cases c) simp_all
qed

lemma spsc_inv_quiet:
  assumes "spsc_inv s" and "ring s' = ring s" and "pushed s' = pushed s" and "popped s' = popped s"
    and "prod_ok s (prod s')" and "cons_ok s (cons s')"
  shows "spsc_inv s'"
  using assms by (simp add: spsc_inv_def spsc_ok_cong [OF assms(2-4)])

text \<open>The store of \<open>push\<close> goes to a slot that holds nothing the consumer has still to read.\<close>

lemma spsc_inv_store:
  assumes inv: "spsc_inv s" and pc: "prod s = PRead v w r" and room: "\<not> w - r \<ge> spsc_capacity (ring s)"
    and step: "prod_step (ring s) (PRead v w r) = (q, pc')"
  shows "spsc_inv (s\<lparr>ring := q, prod := pc'\<rparr>)" (is "spsc_inv ?s'")
proof -
  let ?n = "length (pushed s)" and ?m = "length (popped s)" and ?c = "unat (spsc_capacity (ring s))"
  have ring: "ring_ok (ring s)" using inv by (simp add: spsc_inv_def ring_holds_def)
  obtain k where k: "w = of_nat ?n" "r = of_nat k" "k \<le> ?m" "?n \<le> k + ?c" "?m \<le> ?n"
    using inv pc by (auto simp: spsc_inv_def ring_holds_def)
  then have "unat (w - r) = ?n - k"
    using ring_capacity_bound [OF ring] unat_of_nat_diff [of k ?n, where ?'a = 64] by simp
  then have n: "?n < ?m + ?c" using room k by (simp add: word_le_nat_alt)
  have slot: "unat (w AND spsc_mask (ring s)) = ?n mod ?c" using ring_slot [OF ring, of ?n] k by simp
  then have bound: "?n mod ?c < length (spsc_data (ring s))" using ring_slot_bound [OF ring, of w] by simp
  then have q: "q = (ring s)\<lparr>spsc_data := (spsc_data (ring s))[?n mod ?c := v]\<rparr>" "pc' = PStored v w"
    using step room slot by auto
  have other: "i mod ?c \<noteq> ?n mod ?c" if "?m \<le> i" "i < ?n" for i
  proof -
    have "?n - i < ?c" using that n by simp
    with that show ?thesis using mod_inj_window [of i ?c ?n] by auto
  qed
  have "(spsc_data (ring s))[?n mod ?c := v] ! (i mod ?c) = pushed s ! i" if "?m \<le> i" "i < ?n" for i
    using inv other [OF that] that by (simp add: spsc_inv_def ring_holds_def)
  then have "ring_holds ?s'" using inv q by (simp add: spsc_inv_def ring_holds_def ring_ok_def)
  moreover have "prod_ok ?s' pc'" using k n bound q by simp
  moreover have "cons_ok ?s' (cons s)" using inv by (cases "cons s") (auto simp: spsc_inv_def)
  ultimately show ?thesis by (simp add: spsc_inv_def)
qed

text \<open>The producer's step.\<close>

lemma spsc_inv_prod:
  assumes inv: "spsc_inv s" and step: "prod_step (ring s) (prod s) = (q, pc)"
  shows "spsc_inv (s\<lparr>ring := q, prod := pc, pushed := pushed s @ prod_log (prod s)\<rparr>)"
    (is "spsc_inv ?s'")
proof (cases "prod s")
  case (PWrite v w)
  show ?thesis
    by (rule spsc_inv_quiet [OF inv]; use inv step PWrite in \<open>auto simp: spsc_inv_def ring_holds_def\<close>)
next
  case (PRead v w r)
  show ?thesis
  proof (cases "w - r \<ge> spsc_capacity (ring s)")
    case True
    show ?thesis
      by (rule spsc_inv_quiet [OF inv]; use True inv step PRead in \<open>auto simp: spsc_inv_def\<close>)
  next
    case False
    then show ?thesis using spsc_inv_store [OF inv PRead False] step PRead by simp
  qed
next
  case (PStored v w)
  let ?n = "length (pushed s)" and ?m = "length (popped s)"
  have n: "w = of_nat ?n" "?n < ?m + unat (spsc_capacity (ring s))"
      "spsc_data (ring s) ! (?n mod unat (spsc_capacity (ring s))) = v"
    using inv PStored by (auto simp: spsc_inv_def)
  have q: "q = (ring s)\<lparr>write_pos := w + 1\<rparr>" "pc = PRet True" using step PStored by auto
  have "ring_holds ?s'"
    using inv n q PStored
    by (auto simp: spsc_inv_def ring_holds_def ring_ok_def nth_append less_Suc_eq add.commute)
  moreover have "cons_ok ?s' (cons s)"
    using inv PStored by (cases "cons s") (auto simp: spsc_inv_def nth_append)
  ultimately show ?thesis using q by (simp add: spsc_inv_def)
next
  case PStart
  show ?thesis
    by (rule spsc_inv_quiet [OF inv]; use inv step PStart in \<open>auto simp: spsc_inv_def ring_holds_def\<close>)
next
  case (PRet r)
  then have "q = ring s" "pc = PRet r" using step by auto
  with PRet show ?thesis
    by (intro spsc_inv_quiet [OF inv]) (use inv in \<open>simp_all add: spsc_inv_def\<close>)
qed (rule spsc_inv_quiet [OF inv]; use inv step in \<open>simp add: spsc_inv_def\<close>)+

text \<open>The load of \<open>pop\<close> reads the oldest element, which the producer does not overwrite.\<close>

lemma spsc_inv_load:
  assumes inv: "spsc_inv s" and pc: "cons s = CWrite r w" and ne: "r \<noteq> w"
    and step: "cons_step (ring s) (CWrite r w) = (q, pc')"
  shows "spsc_inv (s\<lparr>ring := q, cons := pc'\<rparr>)"
proof -
  let ?n = "length (pushed s)" and ?m = "length (popped s)" and ?c = "unat (spsc_capacity (ring s))"
  have ring: "ring_ok (ring s)" using inv by (simp add: spsc_inv_def ring_holds_def)
  obtain k where k: "r = of_nat ?m" "w = of_nat k" "?m \<le> k" "k \<le> ?n"
    using inv pc by (auto simp: spsc_inv_def)
  with ne have "?m \<noteq> k" by auto
  with k have less: "?m < ?n" by simp
  have slot: "unat (r AND spsc_mask (ring s)) = ?m mod ?c" using ring_slot [OF ring, of ?m] k by simp
  then have "?m mod ?c < length (spsc_data (ring s))" using ring_slot_bound [OF ring, of r] by simp
  then have q: "q = ring s" "pc' = CLoaded r (spsc_data (ring s) ! (?m mod ?c))"
    using step ne slot by auto
  have "spsc_data (ring s) ! (?m mod ?c) = pushed s ! ?m"
    using inv less by (auto simp: spsc_inv_def ring_holds_def)
  then show ?thesis
    by (intro spsc_inv_quiet [OF inv]) (use q inv k less in \<open>auto simp: spsc_inv_def\<close>)
qed

text \<open>The consumer's step.\<close>

lemma spsc_inv_cons:
  assumes inv: "spsc_inv s" and step: "cons_step (ring s) (cons s) = (q, pc)"
  shows "spsc_inv (s\<lparr>ring := q, cons := pc, popped := popped s @ cons_log (cons s)\<rparr>)"
    (is "spsc_inv ?s'")
proof (cases "cons s")
  case (CRead r)
  show ?thesis
    by (rule spsc_inv_quiet [OF inv]; use inv step CRead in \<open>auto simp: spsc_inv_def ring_holds_def\<close>)
next
  case (CWrite r w)
  show ?thesis
  proof (cases "r = w")
    case True
    show ?thesis
      by (rule spsc_inv_quiet [OF inv]; use True inv step CWrite in \<open>auto simp: spsc_inv_def\<close>)
  next
    case False
    then show ?thesis using spsc_inv_load [OF inv CWrite False] step CWrite by simp
  qed
next
  case (CLoaded r v)
  let ?n = "length (pushed s)" and ?m = "length (popped s)"
  have m: "r = of_nat ?m" "?m < ?n" "v = pushed s ! ?m"
    using inv CLoaded by (auto simp: spsc_inv_def)
  have q: "q = (ring s)\<lparr>read_pos := r + 1\<rparr>" "pc = CRet (Some v)" using step CLoaded by auto
  have "popped s @ [v] = take (Suc ?m) (pushed s)"
    using inv m by (simp add: spsc_inv_def ring_holds_def take_Suc_conv_app_nth)
  then have "ring_holds ?s'"
    using inv m q CLoaded by (auto simp: spsc_inv_def ring_holds_def ring_ok_def add.commute)
  moreover have "prod_ok ?s' (prod s)"
    using inv CLoaded q by (cases "prod s") (auto simp: spsc_inv_def intro: le_SucI)
  ultimately show ?thesis using q by (simp add: spsc_inv_def)
next
  case CStart
  show ?thesis
    by (rule spsc_inv_quiet [OF inv]; use inv step CStart in \<open>auto simp: spsc_inv_def ring_holds_def\<close>)
next
  case (CRet r)
  then have "q = ring s" "pc = CRet r" using step by auto
  with CRet show ?thesis
    by (intro spsc_inv_quiet [OF inv]) (use inv in \<open>simp_all add: spsc_inv_def\<close>)
qed (rule spsc_inv_quiet [OF inv]; use inv step in \<open>simp add: spsc_inv_def\<close>)+

lemma spsc_inv_step: "spsc_step s s' \<Longrightarrow> spsc_inv s \<Longrightarrow> spsc_inv s'"
proof (induction rule: spsc_step.induct)
  case (call_push s v)
  show ?case by (rule spsc_inv_quiet [OF call_push.prems]; use call_push in \<open>simp add: spsc_inv_def\<close>)
next
  case (in_push s q pc)
  then show ?case using spsc_inv_prod by blast
next
  case (return_push s b)
  show ?case by (rule spsc_inv_quiet [OF return_push.prems]; use return_push in \<open>simp add: spsc_inv_def\<close>)
next
  case (call_pop s)
  show ?case by (rule spsc_inv_quiet [OF call_pop.prems]; use call_pop in \<open>simp add: spsc_inv_def\<close>)
next
  case (in_pop s q pc)
  then show ?case using spsc_inv_cons by blast
next
  case (return_pop s r)
  show ?case by (rule spsc_inv_quiet [OF return_pop.prems]; use return_pop in \<open>simp add: spsc_inv_def\<close>)
qed

lemma spsc_reach_inv: "spsc_reach n s \<Longrightarrow> spsc_inv s"
  by (induction rule: spsc_reach.induct) (auto intro: spsc_inv_init spsc_inv_step)

lemma ring_holds_items:
  assumes "ring_holds s"
  shows "popped s @ spsc_items (ring s) = pushed s"
    and "length (spsc_items (ring s)) \<le> unat (spsc_capacity (ring s))"
proof -
  let ?n = "length (pushed s)" and ?m = "length (popped s)"
  let ?c = "unat (spsc_capacity (ring s))"
  have ring: "ring_ok (ring s)" using assms by (simp add: ring_holds_def)
  have len: "unat (write_pos (ring s) - read_pos (ring s)) = ?n - ?m" "?n - ?m \<le> ?c"
    using assms ring_capacity_bound [OF ring] unat_of_nat_diff [of ?m ?n, where ?'a = 64]
    by (auto simp: ring_holds_def)
  have "spsc_items (ring s) = drop ?m (pushed s)"
  proof (rule spsc_items_eqI [OF ring])
    show "unat (write_pos (ring s) - read_pos (ring s)) = length (drop ?m (pushed s))"
      using len by simp
    fix i assume i: "i < length (drop ?m (pushed s))"
    have "(unat (read_pos (ring s)) + i) mod ?c = (?m + i) mod ?c"
      using ring_slot_add [OF ring, of "read_pos (ring s)" i] ring_slot [OF ring, of "?m + i"] assms
      by (simp add: ring_holds_def)
    then show "spsc_data (ring s) ! ((unat (read_pos (ring s)) + i) mod ?c) = drop ?m (pushed s) ! i"
      using assms i by (simp add: ring_holds_def)
  qed
  moreover have "popped s = take ?m (pushed s)" using assms by (simp add: ring_holds_def)
  ultimately show "popped s @ spsc_items (ring s) = pushed s" by (metis append_take_drop_id)
  show "length (spsc_items (ring s)) \<le> ?c" using len by simp
qed

text \<open>C9: however the producer's and the consumer's atomic accesses interleave, nothing pushed is
  lost, duplicated or reordered: the values popped so far followed by what the ring holds are
  exactly the values pushed so far, the ring never holds more than its capacity (so no slot is
  overwritten before it is read), and neither end indexes the buffer out of range.\<close>

theorem spsc_conc_fifo:
  assumes "spsc_reach n s"
  shows "popped s @ spsc_items (ring s) = pushed s \<and>
    length (spsc_items (ring s)) \<le> unat (spsc_capacity (ring s)) \<and>
    prod s \<noteq> PPanic \<and> cons s \<noteq> CPanic"
  using ring_holds_items [of s] spsc_reach_inv [OF assms] by (auto simp: spsc_inv_def)

text \<open>An interleaved run: a push of 7 has stored its element but not yet published it while a pop
  starts and finds the queue empty; after the publication a second pop returns 7.\<close>

definition spsc_push7 :: spsc_sys where
  "spsc_push7 = \<lparr>ring = \<lparr>write_pos = 1, read_pos = 1, spsc_capacity = 2, spsc_mask = 1,
     spsc_data = [7, 0]\<rparr>, prod = PRet True, cons = CRet (Some 7), pushed = [7], popped = [7]\<rparr>"

lemma spsc_new_two:
  "spsc_new 2 = \<lparr>write_pos = 0, read_pos = 0, spsc_capacity = 2, spsc_mask = 1, spsc_data = [0, 0]\<rparr>"
proof -
  have "replicate 2 (0 :: u64) = [0, 0]" by (simp add: numeral_2_eq_2)
  then show ?thesis by (simp add: spsc_new_def next_power_of_two_def upt_rec Let_def)
qed

lemma spsc_reach_push7: "spsc_reach 2 spsc_push7"
proof -
  have advP: "spsc_reach 2 s \<Longrightarrow> prod_step (ring s) (prod s) = (q, pc) \<Longrightarrow>
      spsc_reach 2 (s\<lparr>ring := q, prod := pc, pushed := pushed s @ prod_log (prod s)\<rparr>)" for s q pc
    by (blast intro: spsc_reach.step spsc_step.in_push)
  have advC: "spsc_reach 2 s \<Longrightarrow> cons_step (ring s) (cons s) = (q, pc) \<Longrightarrow>
      spsc_reach 2 (s\<lparr>ring := q, cons := pc, popped := popped s @ cons_log (cons s)\<rparr>)" for s q pc
    by (blast intro: spsc_reach.step spsc_step.in_pop)
  let ?q = "spsc_new 2" and ?q1 = "(spsc_new 2)\<lparr>spsc_data := [7, 0]\<rparr>"
  let ?S = "\<lambda>q p c us vs. \<lparr>ring = q, prod = p, cons = c, pushed = us, popped = vs\<rparr>"
  have "spsc_reach 2 (?S ?q PIdle CIdle [] [])"
    using spsc_reach.init [of 2] by (simp add: spsc_init_def)
  then have "spsc_reach 2 (?S ?q (PStart 7) CIdle [] [])"
    using spsc_reach.step [OF _ spsc_step.call_push] by fastforce
  from advP [OF this] have "spsc_reach 2 (?S ?q (PWrite 7 0) CIdle [] [])"
    by (simp add: spsc_new_two)
  from advP [OF this] have "spsc_reach 2 (?S ?q (PRead 7 0 0) CIdle [] [])"
    by (simp add: spsc_new_two)
  from advP [OF this] have "spsc_reach 2 (?S ?q1 (PStored 7 0) CIdle [] [])"
    by (simp add: spsc_new_two)
  then have "spsc_reach 2 (?S ?q1 (PStored 7 0) CStart [] [])"
    using spsc_reach.step [OF _ spsc_step.call_pop] by fastforce
  from advC [OF this] have "spsc_reach 2 (?S ?q1 (PStored 7 0) (CRead 0) [] [])"
    by (simp add: spsc_new_two)
  from advC [OF this] have "spsc_reach 2 (?S ?q1 (PStored 7 0) (CWrite 0 0) [] [])"
    by (simp add: spsc_new_two)
  from advC [OF this] have "spsc_reach 2 (?S ?q1 (PStored 7 0) (CRet None) [] [])"
    by (simp add: spsc_new_two)
  from advP [OF this] have "spsc_reach 2 (?S (?q1\<lparr>write_pos := 1\<rparr>) (PRet True) (CRet None) [7] [])"
    by (simp add: spsc_new_two)
  then have "spsc_reach 2 (?S (?q1\<lparr>write_pos := 1\<rparr>) (PRet True) CIdle [7] [])"
    using spsc_reach.step [OF _ spsc_step.return_pop] by fastforce
  then have "spsc_reach 2 (?S (?q1\<lparr>write_pos := 1\<rparr>) (PRet True) CStart [7] [])"
    using spsc_reach.step [OF _ spsc_step.call_pop] by fastforce
  from advC [OF this] have "spsc_reach 2 (?S (?q1\<lparr>write_pos := 1\<rparr>) (PRet True) (CRead 0) [7] [])"
    by (simp add: spsc_new_two)
  from advC [OF this] have "spsc_reach 2 (?S (?q1\<lparr>write_pos := 1\<rparr>) (PRet True) (CWrite 0 1) [7] [])"
    by (simp add: spsc_new_two)
  from advC [OF this] have "spsc_reach 2 (?S (?q1\<lparr>write_pos := 1\<rparr>) (PRet True) (CLoaded 0 7) [7] [])"
    by (simp add: spsc_new_two)
  from advC [OF this] show ?thesis
    by (simp add: spsc_new_two spsc_push7_def)
qed

theorem spsc_conc_fifo_witness:
  "spsc_reach 2 spsc_push7 \<and> popped spsc_push7 @ spsc_items (ring spsc_push7) = pushed spsc_push7"
  using spsc_conc_fifo [OF spsc_reach_push7] spsc_reach_push7 by blast

end
