(* ===== verification/Atomic_Bitset.thy ===== *)
theory Atomic_Bitset
  imports Entangle_Prelude
begin

text \<open>
  \<open>AtomicBitSet\<close> of \<open>crates/entangle-lockfree/src/atomic_bitset.rs\<close>: a bitset in an array of 64-bit
  words. The first part has the methods as one thread sees them and shows that they implement a
  finite set of numbers (\<open>bs_elems\<close>). The second part interleaves any number of threads inside
  \<open>set\<close> and \<open>clear\<close>, one atomic access at a time, and shows that the boolean results are a
  hand-shake: between two successful sets of a bit there is a successful clear of it.
\<close>

subsection \<open>The struct and its methods\<close>

record atomic_bitset =
  bs_words :: "u64 list"
  bs_capacity :: u32

text \<open>\<open>u64::trailing_zeros\<close> and \<open>u64::count_ones\<close> of the standard library.\<close>

definition trailing_zeros :: "u64 \<Rightarrow> nat" where
  "trailing_zeros w = (case find (bit w) [0..<64] of Some k \<Rightarrow> k | None \<Rightarrow> 64)"

definition count_ones :: "u64 \<Rightarrow> nat" where
  "count_ones w = length (filter (bit w) [0..<64])"

definition bs_new :: "u32 \<Rightarrow> atomic_bitset" where
  "bs_new capacity = \<lparr>bs_words = replicate ((unat capacity + 63) div 64) 0, bs_capacity = capacity\<rparr>"

definition bs_word_idx :: "u32 \<Rightarrow> nat" where
  "bs_word_idx index = unat (index div 64)"

definition bs_mask :: "u32 \<Rightarrow> u64" where
  "bs_mask index = push_bit (unat (index mod 64)) 1"

definition bs_set :: "u32 \<Rightarrow> atomic_bitset \<Rightarrow> (bool \<times> atomic_bitset) option" where
  "bs_set index b = do {
     old \<leftarrow> idx (bs_words b) (bs_word_idx index);
     if old AND bs_mask index \<noteq> 0 then Some (False, b)
     else do {
       ws \<leftarrow> upd (bs_words b) (bs_word_idx index) (old OR bs_mask index);
       Some (True, b\<lparr>bs_words := ws\<rparr>)
     }
   }"

definition bs_clear :: "u32 \<Rightarrow> atomic_bitset \<Rightarrow> (bool \<times> atomic_bitset) option" where
  "bs_clear index b = do {
     old \<leftarrow> idx (bs_words b) (bs_word_idx index);
     if old AND bs_mask index = 0 then Some (False, b)
     else do {
       ws \<leftarrow> upd (bs_words b) (bs_word_idx index) (old AND NOT (bs_mask index));
       Some (True, b\<lparr>bs_words := ws\<rparr>)
     }
   }"

definition bs_is_set :: "u32 \<Rightarrow> atomic_bitset \<Rightarrow> bool option" where
  "bs_is_set index b = do {
     w \<leftarrow> idx (bs_words b) (bs_word_idx index);
     Some (w AND bs_mask index \<noteq> 0)
   }"

definition bs_count_set :: "atomic_bitset \<Rightarrow> u32" where
  "bs_count_set b = sum_list (map (\<lambda>w. of_nat (count_ones w)) (bs_words b))"

text \<open>The scan of \<open>find_and_clear_first_set\<close> over the words from number \<open>k\<close> on.\<close>

fun bs_scan :: "u32 \<Rightarrow> nat \<Rightarrow> u64 list \<Rightarrow> u32 option \<times> u64 list" where
  "bs_scan capacity k [] = (None, [])"
| "bs_scan capacity k (w # ws) =
     (if w = 0 then (case bs_scan capacity (Suc k) ws of (r, ws') \<Rightarrow> (r, w # ws'))
      else let bit_pos = trailing_zeros w; bit = push_bit bit_pos 1; new = w AND NOT bit;
               index = of_nat k * 64 + of_nat bit_pos
           in if index < capacity then (Some index, new # ws)
              else (None, (new OR bit) # ws))"

definition bs_find_and_clear_first_set :: "atomic_bitset \<Rightarrow> u32 option \<times> atomic_bitset" where
  "bs_find_and_clear_first_set b =
     (case bs_scan (bs_capacity b) 0 (bs_words b) of (r, ws) \<Rightarrow> (r, b\<lparr>bs_words := ws\<rparr>))"

subsection \<open>The set of numbers in the words\<close>

definition bs_elems :: "atomic_bitset \<Rightarrow> nat set" where
  "bs_elems b = {i. i < 64 * length (bs_words b) \<and> bit (bs_words b ! (i div 64)) (i mod 64)}"

text \<open>Enough words, and no bit past the capacity.\<close>

definition bs_wf :: "atomic_bitset \<Rightarrow> bool" where
  "bs_wf b \<longleftrightarrow> length (bs_words b) = (unat (bs_capacity b) + 63) div 64 \<and>
     (\<forall>i \<in> bs_elems b. i < unat (bs_capacity b))"

lemma bs_index_simps [simp]:
  "bs_word_idx i = unat i div 64" "unat (i mod 64 :: u32) = unat i mod 64"
  by (simp_all add: bs_word_idx_def unat_div unat_mod)

lemma bs_mask_bit: "bs_mask i = 2 ^ (unat i mod 64)"
  by (simp add: bs_mask_def push_bit_eq_mult)

lemma and_bs_mask_eq_0 [simp]: "w AND bs_mask i = 0 \<longleftrightarrow> \<not> bit w (unat i mod 64)"
  by (simp add: bs_mask_bit and_exp_eq_0_iff_not_bit)

lemma bit_or_pow [simp]: "k < 64 \<Longrightarrow> bit (w OR 2 ^ k :: u64) j \<longleftrightarrow> bit w j \<or> j = k"
  by (auto simp: bit_simps)

lemma bit_and_not_pow [simp]: "k < 64 \<Longrightarrow> bit (w AND NOT (2 ^ k) :: u64) j \<longleftrightarrow> bit w j \<and> j \<noteq> k"
  by (auto simp: bit_simps dest: bit_imp_le_length)

lemma div_mod_64_eq: "(i :: nat) div 64 = j div 64 \<Longrightarrow> i mod 64 = j mod 64 \<Longrightarrow> i = j"
  by (metis div_mult_mod_eq)

lemma bs_elems_update:
  assumes "k < length (bs_words b)"
  shows "bs_elems (b\<lparr>bs_words := (bs_words b)[k := w]\<rparr>) =
    {i \<in> bs_elems b. i div 64 \<noteq> k} \<union> {i. i div 64 = k \<and> bit w (i mod 64)}"
  using assms by (auto simp: bs_elems_def nth_list_update)

lemma bs_elems_clear_bit:
  assumes "k < length (bs_words b)" and "i div 64 = k"
  shows "bs_elems (b\<lparr>bs_words := (bs_words b)[k := bs_words b ! k AND NOT (2 ^ (i mod 64))]\<rparr>) =
    bs_elems b - {i}"
  unfolding bs_elems_update [OF assms(1)]
  using assms by (auto simp: bs_elems_def intro: div_mod_64_eq)

lemma bs_word_bound: "bs_wf b \<Longrightarrow> i < bs_capacity b \<Longrightarrow> unat i div 64 < length (bs_words b)"
  by (simp add: bs_wf_def word_less_nat_alt)

lemma bs_elems_new [simp]: "bs_elems (bs_new c) = {}"
  by (auto simp: bs_elems_def bs_new_def)

lemma bs_new_wf: "bs_wf (bs_new c)"
  by (simp add: bs_wf_def) (simp add: bs_new_def)

lemma bs_set_spec:
  assumes "bs_wf b" and "i < bs_capacity b"
  shows "\<exists>b'. bs_set i b = Some (unat i \<notin> bs_elems b, b') \<and>
    bs_elems b' = insert (unat i) (bs_elems b) \<and> bs_wf b' \<and> bs_capacity b' = bs_capacity b"
proof -
  let ?k = "unat i div 64"
  have k: "?k < length (bs_words b)" using bs_word_bound [OF assms] .
  have mem: "unat i \<in> bs_elems b \<longleftrightarrow> bit (bs_words b ! ?k) (unat i mod 64)"
    using k by (auto simp: bs_elems_def)
  show ?thesis
  proof (cases "unat i \<in> bs_elems b")
    case True
    with mem k assms show ?thesis by (auto simp: bs_set_def)
  next
    case False
    let ?b' = "b\<lparr>bs_words := (bs_words b)[?k := bs_words b ! ?k OR bs_mask i]\<rparr>"
    have elems: "bs_elems ?b' = insert (unat i) (bs_elems b)"
      unfolding bs_elems_update [OF k]
      using k by (auto simp: bs_mask_bit bs_elems_def intro: div_mod_64_eq)
    moreover have "bs_set i b = Some (True, ?b')" using False mem k by (simp add: bs_set_def)
    moreover have "bs_wf ?b'"
      using assms elems by (auto simp: bs_wf_def word_less_nat_alt)
    ultimately show ?thesis using False by simp
  qed
qed

lemma bs_clear_spec:
  assumes "bs_wf b" and "unat i div 64 < length (bs_words b)"
  shows "\<exists>b'. bs_clear i b = Some (unat i \<in> bs_elems b, b') \<and>
    bs_elems b' = bs_elems b - {unat i} \<and> bs_wf b' \<and> bs_capacity b' = bs_capacity b"
proof -
  let ?k = "unat i div 64"
  have mem: "unat i \<in> bs_elems b \<longleftrightarrow> bit (bs_words b ! ?k) (unat i mod 64)"
    using assms(2) by (auto simp: bs_elems_def)
  show ?thesis
  proof (cases "unat i \<in> bs_elems b")
    case False
    with mem assms show ?thesis by (auto simp: bs_clear_def)
  next
    case True
    let ?b' = "b\<lparr>bs_words := (bs_words b)[?k := bs_words b ! ?k AND NOT (bs_mask i)]\<rparr>"
    have elems: "bs_elems ?b' = bs_elems b - {unat i}"
      using bs_elems_clear_bit [OF assms(2) refl] by (simp add: bs_mask_bit)
    moreover have "bs_clear i b = Some (True, ?b')" using True mem assms(2) by (simp add: bs_clear_def)
    moreover have "bs_wf ?b'" using assms elems by (auto simp: bs_wf_def)
    ultimately show ?thesis using True by simp
  qed
qed

lemma bs_is_set_spec:
  "unat i div 64 < length (bs_words b) \<Longrightarrow> bs_is_set i b = Some (unat i \<in> bs_elems b)"
  by (auto simp: bs_is_set_def bs_elems_def)

lemma bs_out_of_words:
  assumes "length (bs_words b) \<le> unat i div 64"
  shows "bs_set i b = None" and "bs_clear i b = None" and "bs_is_set i b = None"
  using assms by (simp_all add: bs_set_def bs_clear_def bs_is_set_def)

subsection \<open>Counting and scanning\<close>

lemma count_ones_card: "count_ones w = card {j. j < 64 \<and> bit w j}"
proof -
  have "count_ones w = card (set (filter (bit w) [0..<64]))"
    unfolding count_ones_def by (intro distinct_card [symmetric]) simp
  also have "set (filter (bit w) [0..<64]) = {j. j < 64 \<and> bit w j}" by auto
  finally show ?thesis .
qed

lemma card_bs_elems: "card (bs_elems b) = sum_list (map count_ones (bs_words b))"
proof -
  have "card {i. i < 64 * length ws \<and> bit (ws ! (i div 64)) (i mod 64)} = sum_list (map count_ones ws)"
    (is "card (?E ws) = _") for ws :: "u64 list"
  proof (induction ws rule: rev_induct)
    case (snoc w ws)
    let ?n = "64 * length ws" and ?B = "{j. j < 64 \<and> bit w j}"
    have "i \<in> ?E (ws @ [w]) \<longleftrightarrow> i \<in> ?E ws \<union> (\<lambda>j. ?n + j) ` ?B" for i
    proof (cases "i < ?n")
      case True
      then have "i div 64 < length ws" by simp
      with True show ?thesis by (auto simp: nth_append)
    next
      case False
      then obtain j where "i = ?n + j" by (metis le_add_diff_inverse linorder_not_less)
      then show ?thesis by (auto simp: nth_append)
    qed
    then have "?E (ws @ [w]) = ?E ws \<union> (\<lambda>j. ?n + j) ` ?B" by blast
    moreover have "card (?E ws \<union> (\<lambda>j. ?n + j) ` ?B) = card (?E ws) + card ((\<lambda>j. ?n + j) ` ?B)"
      by (rule card_Un_disjoint) auto
    moreover have "card ((\<lambda>j. ?n + j) ` ?B) = count_ones w"
      unfolding count_ones_card by (rule card_image) (simp add: inj_on_def)
    ultimately show ?case using snoc.IH by simp
  qed simp
  then show ?thesis by (simp add: bs_elems_def)
qed

lemma bs_count_set_eq: "bs_count_set b = of_nat (card (bs_elems b))"
proof -
  have "sum_list (map (\<lambda>w. of_nat (count_ones w)) ws) = (of_nat (sum_list (map count_ones ws)) :: u32)"
    for ws by (induction ws) simp_all
  then show ?thesis by (simp add: bs_count_set_def card_bs_elems)
qed

lemma bs_count_set_wf:
  assumes "bs_wf b"
  shows "unat (bs_count_set b) = card (bs_elems b)"
proof -
  have "card (bs_elems b) \<le> card {..<unat (bs_capacity b)}"
    using assms by (intro card_mono) (auto simp: bs_wf_def)
  then show ?thesis
    using unat_bound [of "bs_capacity b"] by (simp add: bs_count_set_eq unat_of_nat_less)
qed

lemma trailing_zeros_nonzero:
  assumes "w \<noteq> 0"
  shows "trailing_zeros w < 64 \<and> bit w (trailing_zeros w) \<and> (\<forall>j. bit w j \<longrightarrow> trailing_zeros w \<le> j)"
proof -
  obtain j where "bit w j" using assms by (auto simp: bit_eq_iff)
  moreover from this have "j < 64" by (auto dest: bit_imp_le_length)
  ultimately have "find (bit w) [0..<64] \<noteq> None" by (auto simp: find_None_iff)
  then obtain k where k: "find (bit w) [0..<64] = Some k" by auto
  then have "k < 64" "bit w k" "\<forall>j<k. \<not> bit w j" by (auto simp: find_Some_iff)
  with k show ?thesis by (auto simp: trailing_zeros_def not_less [symmetric])
qed

lemma bs_scan_zeros: "bs_scan c k (replicate n 0) = (None, replicate n 0)"
  by (induction n arbitrary: k) simp_all

lemma bs_scan_skip:
  "bs_scan c k (replicate n 0 @ ws) = apsnd ((@) (replicate n 0)) (bs_scan c (k + n) ws)"
  by (induction n arbitrary: k) (auto simp: apsnd_def map_prod_def split: prod.splits)

text \<open>The lowest bit of the first word that is not zero is the least element.\<close>

lemma bs_first_least:
  assumes words: "bs_words b = us @ w # vs" and us: "us = replicate (length us) 0" and w: "w \<noteq> 0"
    and j: "j \<in> bs_elems b"
  shows "64 * length us + trailing_zeros w \<le> j"
proof -
  have bit: "bit (bs_words b ! (j div 64)) (j mod 64)" using j by (auto simp: bs_elems_def)
  have t: "trailing_zeros w < 64" "\<And>j. bit w j \<Longrightarrow> trailing_zeros w \<le> j"
    using trailing_zeros_nonzero [OF w] by auto
  have "bs_words b ! (j div 64) = 0" if "j div 64 < length us"
    using that words us by (metis nth_append nth_replicate)
  with bit have "\<not> j div 64 < length us" by auto
  moreover have "trailing_zeros w \<le> j mod 64" if "j div 64 = length us" using bit that words t(2) by simp
  moreover have "64 * (j div 64) + j mod 64 = j" by simp
  ultimately show ?thesis using t(1) by (cases "j div 64 = length us") linarith+
qed

lemma bs_find_spec:
  assumes wf: "bs_wf b"
  obtains "bs_elems b = {}" "bs_find_and_clear_first_set b = (None, b)"
  | i b' where "bs_find_and_clear_first_set b = (Some i, b')" "unat i = Min (bs_elems b)"
      "bs_elems b \<noteq> {}" "bs_elems b' = bs_elems b - {unat i}" "bs_wf b'"
      "bs_capacity b' = bs_capacity b"
proof (cases "\<forall>w \<in> set (bs_words b). w = 0")
  case True
  then have zeros: "bs_words b = replicate (length (bs_words b)) 0"
    by (simp add: replicate_length_same)
  then have "bs_elems b = {}" by (auto simp: bs_elems_def) (metis div_less_iff_less_mult
      mult.commute nth_replicate bit_0_eq bot_apply bot_bool_def zero_less_numeral)
  moreover have "bs_find_and_clear_first_set b = (None, b)"
    using bs_scan_zeros zeros by (metis (no_types, lifting) atomic_bitset.surjective
        atomic_bitset.update_convs(1) bs_find_and_clear_first_set_def case_prod_conv)
  ultimately show ?thesis by (rule that(1))
next
  case False
  then obtain us w vs where split: "bs_words b = us @ w # vs" "w \<noteq> 0" "\<forall>u \<in> set us. u = 0"
    using split_list_first_prop [of "bs_words b" "\<lambda>w. w \<noteq> 0"] by blast
  let ?n = "length us" and ?t = "trailing_zeros w"
  let ?i = "64 * ?n + ?t" and ?new = "w AND NOT (2 ^ ?t)"
  let ?b' = "b\<lparr>bs_words := (bs_words b)[?n := ?new]\<rparr>"
  have us: "us = replicate ?n 0" using split(3) by (simp add: replicate_length_same)
  have t: "?t < 64" "bit w ?t"
    using trailing_zeros_nonzero [OF split(2)] by auto
  have n: "?n < length (bs_words b)" using split(1) by simp
  have mem: "?i \<in> bs_elems b" using t split(1) by (auto simp: bs_elems_def nth_append)
  have least: "?i \<le> j" if "j \<in> bs_elems b" for j using bs_first_least [OF split(1) us split(2) that] .
  have cap: "?i < unat (bs_capacity b)" using mem wf by (simp add: bs_wf_def)
  then have "?i < 2 ^ LENGTH(32)" using unat_bound [of "bs_capacity b"] by simp
  then have ui: "unat (of_nat ?n * 64 + of_nat ?t :: u32) = ?i"
    using unat_of_nat_less [of ?i, where ?'a = 32] by (simp add: mult.commute)
  have "bs_scan (bs_capacity b) 0 (bs_words b) =
      (Some (of_nat ?n * 64 + of_nat ?t), (bs_words b)[?n := ?new])"
    using split(1,2) bs_scan_skip [of "bs_capacity b" 0 ?n "w # vs"] us ui cap
    by (simp add: Let_def word_less_nat_alt push_bit_eq_mult)
  then have found: "bs_find_and_clear_first_set b = (Some (of_nat ?n * 64 + of_nat ?t), ?b')"
    by (simp add: bs_find_and_clear_first_set_def)
  have elems: "bs_elems ?b' = bs_elems b - {?i}"
    using bs_elems_clear_bit [OF n, of ?i] t(1) split(1) by simp
  have "finite (bs_elems b)" by (rule finite_subset [of _ "{..<64 * length (bs_words b)}"])
    (auto simp: bs_elems_def)
  then have "Min (bs_elems b) = ?i" using mem least by (intro Min_eqI) auto
  then show ?thesis
    by (intro that(2) [OF found]) (use ui mem elems wf in \<open>auto simp: bs_wf_def\<close>)
qed

text \<open>C26: the bitset implements a finite set. On a well-formed bitset and an index below the
  capacity, \<open>set\<close> inserts the index and tells whether it was absent, \<open>clear\<close> removes it and tells
  whether it was present, \<open>is_set\<close> is membership, and \<open>count_set\<close> is the exact number of elements
  (its 32-bit sum does not wrap).\<close>

theorem bitset_refines_set:
  assumes "bs_wf b" and "i < bs_capacity b"
  shows "(\<exists>b'. bs_set i b = Some (unat i \<notin> bs_elems b, b') \<and> bs_wf b' \<and>
      bs_elems b' = insert (unat i) (bs_elems b)) \<and>
    (\<exists>b'. bs_clear i b = Some (unat i \<in> bs_elems b, b') \<and> bs_wf b' \<and>
      bs_elems b' = bs_elems b - {unat i}) \<and>
    bs_is_set i b = Some (unat i \<in> bs_elems b) \<and>
    unat (bs_count_set b) = card (bs_elems b)"
  using bs_set_spec [OF assms] bs_clear_spec [OF assms(1) bs_word_bound [OF assms]]
    bs_is_set_spec [OF bs_word_bound [OF assms]] bs_count_set_wf [OF assms(1)]
  by blast

theorem bitset_refines_set_witness:
  "bs_wf (bs_new 70) \<and> unat (bs_count_set (bs_new 70)) = card (bs_elems (bs_new 70)) \<and>
   bs_is_set 65 (bs_new 70) = Some False"
proof -
  have "65 < bs_capacity (bs_new 70)" by (simp add: bs_new_def)
  from bitset_refines_set [OF bs_new_wf this] bs_new_wf [of 70] show ?thesis by simp
qed

text \<open>\<open>find_and_clear_first_set\<close> on a well-formed bitset returns the least element and removes
  exactly that element, and returns \<open>None\<close> without a change exactly when the set is empty.\<close>

theorem bitset_find_least:
  assumes "bs_wf b" and "bs_find_and_clear_first_set b = (r, b')"
  shows "bs_wf b' \<and> (case r of None \<Rightarrow> bs_elems b = {} \<and> b' = b
    | Some i \<Rightarrow> i < bs_capacity b \<and> unat i = Min (bs_elems b) \<and> unat i \<in> bs_elems b \<and>
        bs_elems b' = bs_elems b - {unat i})"
  using assms(1)
proof (cases rule: bs_find_spec)
  case 1
  with assms show ?thesis by simp
next
  case (2 i b'')
  have "finite (bs_elems b)"
    by (rule finite_subset [of _ "{..<64 * length (bs_words b)}"]) (auto simp: bs_elems_def)
  with 2 have "unat i \<in> bs_elems b" using Min_in [of "bs_elems b"] by simp
  with 2 assms show ?thesis by (auto simp: bs_wf_def word_less_nat_alt)
qed

theorem bitset_find_least_witness:
  "bs_find_and_clear_first_set \<lparr>bs_words = [0, 6], bs_capacity = 70\<rparr> =
     (Some 65, \<lparr>bs_words = [0, 4], bs_capacity = 70\<rparr>) \<and>
   unat (65 :: u32) = Min (bs_elems \<lparr>bs_words = [0, 6], bs_capacity = 70\<rparr>)"
proof -
  let ?b = "\<lparr>bs_words = [0, 6], bs_capacity = 70\<rparr>"
  have "(6 :: u64) = (0 OR 2 ^ 1) OR 2 ^ 2" by simp
  then have six: "bit (6 :: u64) j \<longleftrightarrow> j = 1 \<or> j = 2" for j
    by (simp only: bit_or_pow) simp
  have "i < 70" if "i \<in> bs_elems ?b" for i
  proof -
    have "i < 128" "bit ([0, 6 :: u64] ! (i div 64)) (i mod 64)"
      using that by (auto simp: bs_elems_def)
    moreover from this have "i div 64 = 0 \<or> i div 64 = 1" by linarith
    ultimately have "i div 64 = 1" "i mod 64 = 1 \<or> i mod 64 = 2"
      using six [of "i mod 64"] by auto
    then show ?thesis using div_mult_mod_eq [of i 64] by linarith
  qed
  then have "bs_wf ?b" by (simp add: bs_wf_def)
  moreover have found: "bs_find_and_clear_first_set ?b = (Some 65, \<lparr>bs_words = [0, 4], bs_capacity = 70\<rparr>)"
    by (simp add: bs_find_and_clear_first_set_def trailing_zeros_def upt_rec six Let_def)
  ultimately show ?thesis using bitset_find_least [of ?b] by fastforce
qed

subsection \<open>Threads inside \<open>set\<close> and \<open>clear\<close>\<close>

text \<open>\<open>BLoop op i old\<close> is the head of the loop with the last value read from the word; the flag of
  \<open>bs_step\<close> is the spurious failure of \<open>compare_exchange_weak\<close>.\<close>

datatype bs_op = SetBit | ClearBit

datatype bs_pc =
    BIdle
  | BStart bs_op u32
  | BLoop bs_op u32 u64
  | BRet bs_op u32 bool
  | BPanic

fun bs_step :: "bool \<Rightarrow> atomic_bitset \<Rightarrow> bs_pc \<Rightarrow> atomic_bitset \<times> bs_pc" where
  "bs_step spurious b (BStart op i) =
     (case idx (bs_words b) (bs_word_idx i) of
        None \<Rightarrow> (b, BPanic)
      | Some old \<Rightarrow> (b, BLoop op i old))"
| "bs_step spurious b (BLoop op i old) =
     (if (op = SetBit \<longrightarrow> old AND bs_mask i \<noteq> 0) \<and> (op = ClearBit \<longrightarrow> old AND bs_mask i = 0)
      then (b, BRet op i False)
      else let new = (case op of SetBit \<Rightarrow> old OR bs_mask i | ClearBit \<Rightarrow> old AND NOT (bs_mask i))
           in if bs_words b ! bs_word_idx i = old \<and> \<not> spurious
              then (b\<lparr>bs_words := (bs_words b)[bs_word_idx i := new]\<rparr>, BRet op i True)
              else (b, BLoop op i (bs_words b ! bs_word_idx i)))"
| "bs_step spurious b pc = (b, pc)"

record bs_sys =
  bits :: atomic_bitset
  bthr :: "nat \<Rightarrow> bs_pc"
  sets :: "nat \<Rightarrow> nat"
  clears :: "nat \<Rightarrow> nat"

text \<open>\<open>sets i\<close> and \<open>clears i\<close> count, outside the program, the calls on bit \<open>i\<close> that answered
  \<open>true\<close>.\<close>

fun bs_wins :: "bs_op \<Rightarrow> bs_pc \<Rightarrow> bs_pc \<Rightarrow> nat \<Rightarrow> nat" where
  "bs_wins op (BLoop op' i old) (BRet op'' j True) k = (if op' = op \<and> unat i = k then 1 else 0)"
| "bs_wins op pc pc' k = 0"

inductive bs_sys_step :: "bs_sys \<Rightarrow> bs_sys \<Rightarrow> bool" where
  bs_call: "bthr s t = BIdle \<Longrightarrow> i < bs_capacity (bits s) \<Longrightarrow>
    bs_sys_step s (s\<lparr>bthr := (bthr s)(t := BStart op i)\<rparr>)"
| bs_run: "bs_step spurious (bits s) (bthr s t) = (b', pc) \<Longrightarrow>
    bs_sys_step s (s\<lparr>bits := b', bthr := (bthr s)(t := pc),
      sets := (\<lambda>k. sets s k + bs_wins SetBit (bthr s t) pc k),
      clears := (\<lambda>k. clears s k + bs_wins ClearBit (bthr s t) pc k)\<rparr>)"
| bs_return: "bthr s t = BRet op i r \<Longrightarrow> bs_sys_step s (s\<lparr>bthr := (bthr s)(t := BIdle)\<rparr>)"

definition bs_init :: "u32 \<Rightarrow> bs_sys" where
  "bs_init c = \<lparr>bits = bs_new c, bthr = (\<lambda>_. BIdle), sets = (\<lambda>_. 0), clears = (\<lambda>_. 0)\<rparr>"

inductive bs_reach :: "u32 \<Rightarrow> bs_sys \<Rightarrow> bool" for c where
  bs_reach_init: "bs_reach c (bs_init c)"
| bs_reach_step: "bs_reach c s \<Longrightarrow> bs_sys_step s s' \<Longrightarrow> bs_reach c s'"

fun bs_pc_ok :: "u32 \<Rightarrow> bs_pc \<Rightarrow> bool" where
  "bs_pc_ok c (BStart op i) \<longleftrightarrow> i < c"
| "bs_pc_ok c (BLoop op i old) \<longleftrightarrow> i < c"
| "bs_pc_ok c BPanic \<longleftrightarrow> False"
| "bs_pc_ok c _ \<longleftrightarrow> True"

definition bs_inv :: "u32 \<Rightarrow> bs_sys \<Rightarrow> bool" where
  "bs_inv c s \<longleftrightarrow> bs_wf (bits s) \<and> bs_capacity (bits s) = c \<and> (\<forall>t. bs_pc_ok c (bthr s t)) \<and>
     (\<forall>k. sets s k = clears s k + (if k \<in> bs_elems (bits s) then 1 else 0))"

text \<open>The step of one thread: either nothing changes, or one bit does and the counters follow.\<close>

lemma bs_step_effect:
  assumes "bs_step spurious b pc = (b', pc')" and "bs_wf b" and "bs_pc_ok (bs_capacity b) pc"
  shows "bs_wf b' \<and> bs_capacity b' = bs_capacity b \<and> bs_pc_ok (bs_capacity b) pc' \<and>
    (\<forall>k. bs_wins SetBit pc pc' k + (if k \<in> bs_elems b then 1 else 0) =
         bs_wins ClearBit pc pc' k + (if k \<in> bs_elems b' then 1 else 0))"
proof (cases pc)
  case (BStart op i)
  then show ?thesis using assms bs_word_bound [of b i] by auto
next
  case (BLoop op i old)
  then have i: "i < bs_capacity b" using assms(3) by simp
  have w: "unat i div 64 < length (bs_words b)" using bs_word_bound [OF assms(2) i] .
  have mem: "unat i \<in> bs_elems b \<longleftrightarrow> bit (bs_words b ! (unat i div 64)) (unat i mod 64)"
    using w by (auto simp: bs_elems_def)
  show ?thesis
  proof (cases "\<exists>b''. pc' = BRet op i True \<and> b' = b'' \<and> bs_words b ! (unat i div 64) = old")
    case False
    then have "b' = b" "(pc' = BRet op i False \<or> (\<exists>old'. pc' = BLoop op i old'))"
      using assms(1) BLoop by (auto simp: Let_def split: if_splits)
    then show ?thesis using assms(2) i BLoop by auto
  next
    case True
    then have win: "pc' = BRet op i True" and old: "bs_words b ! (unat i div 64) = old" by auto
    show ?thesis
    proof (cases op)
      case SetBit
      then have "bs_set i b = Some (True, b')" "unat i \<notin> bs_elems b"
        using assms(1) BLoop win old w mem by (auto simp: bs_set_def Let_def split: if_splits)
      then have "bs_elems b' = insert (unat i) (bs_elems b)" "bs_wf b'" "bs_capacity b' = bs_capacity b"
        using bs_set_spec [OF assms(2) i] by auto
      then show ?thesis using SetBit BLoop win \<open>unat i \<notin> bs_elems b\<close> by auto
    next
      case ClearBit
      then have "bs_clear i b = Some (True, b')" "unat i \<in> bs_elems b"
        using assms(1) BLoop win old w mem by (auto simp: bs_clear_def Let_def split: if_splits)
      then have "bs_elems b' = bs_elems b - {unat i}" "bs_wf b'" "bs_capacity b' = bs_capacity b"
        using bs_clear_spec [OF assms(2) w] by auto
      then show ?thesis using ClearBit BLoop win \<open>unat i \<in> bs_elems b\<close> by auto
    qed
  qed
qed (use assms in auto)

lemma bs_inv_step: "bs_sys_step s s' \<Longrightarrow> bs_inv c s \<Longrightarrow> bs_inv c s'"
proof (induction rule: bs_sys_step.induct)
  case (bs_run spurious s t b' pc)
  then have eff: "bs_wf b'" "bs_capacity b' = c" "bs_pc_ok c pc"
    "\<And>k. bs_wins SetBit (bthr s t) pc k + (if k \<in> bs_elems (bits s) then 1 else 0) =
      bs_wins ClearBit (bthr s t) pc k + (if k \<in> bs_elems b' then 1 else 0)"
    using bs_step_effect [OF bs_run.hyps] by (auto simp: bs_inv_def)
  have "sets s k + bs_wins SetBit (bthr s t) pc k =
      clears s k + bs_wins ClearBit (bthr s t) pc k + (if k \<in> bs_elems b' then 1 else 0)" for k
    using eff(4) [of k] bs_run.prems unfolding bs_inv_def by (metis add.assoc add.commute)
  with eff(1-3) bs_run.prems show ?case by (simp add: bs_inv_def)
qed (auto simp: bs_inv_def)

lemma bs_reach_inv: "bs_reach c s \<Longrightarrow> bs_inv c s"
proof (induction rule: bs_reach.induct)
  case bs_reach_init
  show ?case using bs_new_wf [of c] by (simp add: bs_inv_def bs_init_def) (simp add: bs_new_def)
next
  case (bs_reach_step s s')
  then show ?case by (blast intro: bs_inv_step)
qed

text \<open>The boolean answers of concurrent \<open>set\<close> and \<open>clear\<close> calls hand a bit from one winner to
  the next. In every interleaving the number of \<open>set\<close> calls on a bit that answered \<open>true\<close> is the
  number of \<open>clear\<close> calls that answered \<open>true\<close>, plus one exactly while the bit is set; so of any
  number of threads racing to set a clear bit exactly one is told that it did. No thread indexes
  the words out of range.\<close>

theorem bitset_handshake:
  assumes "bs_reach c s"
  shows "sets s k = clears s k + (if k \<in> bs_elems (bits s) then 1 else 0) \<and> bthr s t \<noteq> BPanic"
  using bs_reach_inv [OF assms] unfolding bs_inv_def by (metis bs_pc_ok.simps(3))

text \<open>Two threads race to set bit 3 of a bitset of 8: both have read the word before the first
  exchange; the second exchange fails, and the loop then finds the bit set.\<close>

lemma bs_reach_race:
  "\<exists>s. bs_reach 8 s \<and> bthr s 0 = BRet SetBit 3 True \<and> bthr s 1 = BRet SetBit 3 False"
proof -
  have run: "bs_reach 8 s \<Longrightarrow> bs_step False (bits s) (bthr s t) = (b', pc) \<Longrightarrow>
      bs_reach 8 (s\<lparr>bits := b', bthr := (bthr s)(t := pc),
        sets := (\<lambda>k. sets s k + bs_wins SetBit (bthr s t) pc k),
        clears := (\<lambda>k. clears s k + bs_wins ClearBit (bthr s t) pc k)\<rparr>)" for s t b' pc
    by (blast intro: bs_reach.bs_reach_step bs_sys_step.bs_run)
  let ?b = "\<lambda>w. \<lparr>bs_words = [w], bs_capacity = 8\<rparr>"
  let ?P = "\<lambda>w p q. \<exists>s. bs_reach 8 s \<and> bits s = ?b w \<and> bthr s 0 = p \<and> bthr s 1 = q"
  have call: "\<exists>s'. bs_reach 8 s' \<and> bits s' = bits s \<and> bthr s' = (bthr s)(t := BStart SetBit 3)"
    if "bs_reach 8 s" "bthr s t = BIdle" "bs_capacity (bits s) = 8" for s t
    using bs_reach.bs_reach_step [OF that(1) bs_sys_step.bs_call [OF that(2), of 3 SetBit]] that(3)
    by fastforce
  have mask: "bs_mask 3 = 8" "bs_word_idx 3 = 0" by (simp_all add: bs_mask_bit)
  have "?P 0 BIdle BIdle"
    using bs_reach.bs_reach_init [of 8] by (intro exI [of _ "bs_init 8"]) (simp add: bs_init_def bs_new_def)
  then have "?P 0 (BStart SetBit 3) BIdle" using call [where t = 0] by fastforce
  then have "?P 0 (BStart SetBit 3) (BStart SetBit 3)" using call [where t = 1] by fastforce
  then have "?P 0 (BLoop SetBit 3 0) (BStart SetBit 3)" using run [where t = 0] mask by fastforce
  then have "?P 0 (BLoop SetBit 3 0) (BLoop SetBit 3 0)" using run [where t = 1] mask by fastforce
  then have "?P 8 (BRet SetBit 3 True) (BLoop SetBit 3 0)"
    using run [where t = 0] mask by (fastforce simp: Let_def)
  then have "?P 8 (BRet SetBit 3 True) (BLoop SetBit 3 8)"
    using run [where t = 1] mask by (fastforce simp: Let_def)
  then have "?P 8 (BRet SetBit 3 True) (BRet SetBit 3 False)"
    using run [where t = 1] mask by (fastforce simp: Let_def)
  then show ?thesis by blast
qed

theorem bitset_handshake_witness:
  "\<exists>s. bs_reach 8 s \<and> bthr s 0 = BRet SetBit 3 True \<and> bthr s 1 = BRet SetBit 3 False \<and>
     sets s 3 = clears s 3 + (if 3 \<in> bs_elems (bits s) then 1 else 0)"
  using bs_reach_race bitset_handshake [of 8] by blast

end
