(* ===== verification/Mpmc_Container.thy ===== *)
theory Mpmc_Container
  imports Tagged_Free_List Atomic_Bitset
begin

text \<open>
  \<open>MpmcContainer\<close> of \<open>crates/entangle-lockfree/src/mpmc_container.rs\<close>: a fixed number of slots for
  64-bit values, the free ones on a tagged free list, the occupied ones marked in an
  \<open>AtomicBitSet\<close>. The abstraction \<open>mpmc_map\<close> is the finite map from slots to values; the
  invariant says that the free list holds exactly the slots whose bit is clear, and the lemmas
  show that the methods implement the operations of a bounded map with fresh keys.
\<close>

record mpmc_container =
  mpmc_data :: "u64 list"
  mpmc_occupied :: atomic_bitset
  mpmc_free_head :: u64
  mpmc_next :: "u32 list"
  mpmc_capacity :: u32

definition mpmc_pack_head :: "u32 \<Rightarrow> u32 \<Rightarrow> u64" where
  "mpmc_pack_head head tag = push_bit 32 (ucast head) OR ucast tag"

definition mpmc_extract_head :: "u64 \<Rightarrow> u32" where
  "mpmc_extract_head val = ucast (drop_bit 32 val)"

definition mpmc_extract_tag :: "u64 \<Rightarrow> u32" where
  "mpmc_extract_tag val = ucast val"

definition mpmc_new :: "u32 \<Rightarrow> mpmc_container option" where
  "mpmc_new capacity =
     (if capacity > 0
      then Some \<lparr>mpmc_data = replicate (unat capacity) 0, mpmc_occupied = bs_new capacity,
                 mpmc_free_head = mpmc_pack_head 0 0, mpmc_next = fresh_next capacity,
                 mpmc_capacity = capacity\<rparr>
      else None)"

definition mpmc_alloc_slot :: "mpmc_container \<Rightarrow> (u32 option \<times> mpmc_container) option" where
  "mpmc_alloc_slot c =
     (let old = mpmc_free_head c; head = mpmc_extract_head old
      in if head = SENTINEL then Some (None, c)
         else do {
           next_idx \<leftarrow> idx (mpmc_next c) (unat head);
           let tag = mpmc_extract_tag old;
           Some (Some head, c\<lparr>mpmc_free_head := mpmc_pack_head next_idx (tag + 1)\<rparr>)
         })"

definition mpmc_free_slot :: "u32 \<Rightarrow> mpmc_container \<Rightarrow> mpmc_container option" where
  "mpmc_free_slot slot c =
     (let old = mpmc_free_head c; head = mpmc_extract_head old
      in do {
           nxt \<leftarrow> upd (mpmc_next c) (unat slot) head;
           let tag = mpmc_extract_tag old;
           Some (c\<lparr>mpmc_next := nxt, mpmc_free_head := mpmc_pack_head slot (tag + 1)\<rparr>)
         })"

definition mpmc_add :: "u64 \<Rightarrow> mpmc_container \<Rightarrow> (u32 option \<times> mpmc_container) option" where
  "mpmc_add value c = do {
     (r, c) \<leftarrow> mpmc_alloc_slot c;
     case r of
       None \<Rightarrow> Some (None, c)
     | Some slot \<Rightarrow> do {
         data \<leftarrow> upd (mpmc_data c) (unat slot) value;
         (_, occ) \<leftarrow> bs_set slot (mpmc_occupied c);
         Some (Some slot, c\<lparr>mpmc_data := data, mpmc_occupied := occ\<rparr>)
       }
   }"

definition mpmc_remove :: "u32 \<Rightarrow> mpmc_container \<Rightarrow> (u64 option \<times> mpmc_container) option" where
  "mpmc_remove slot c = do {
     (was, occ) \<leftarrow> bs_clear slot (mpmc_occupied c);
     if \<not> was then Some (None, c)
     else do {
       value \<leftarrow> idx (mpmc_data c) (unat slot);
       c' \<leftarrow> mpmc_free_slot slot (c\<lparr>mpmc_occupied := occ\<rparr>);
       Some (Some value, c')
     }
   }"

definition mpmc_get :: "u32 \<Rightarrow> mpmc_container \<Rightarrow> u64 option option" where
  "mpmc_get slot c = do {
     is \<leftarrow> bs_is_set slot (mpmc_occupied c);
     if is then do { value \<leftarrow> idx (mpmc_data c) (unat slot); Some (Some value) }
     else Some None
   }"

text \<open>\<open>for_each\<close>: the calls it makes to its closure, in order; \<open>None\<close> is a panic on the way.\<close>

fun mpmc_visit :: "mpmc_container \<Rightarrow> u32 list \<Rightarrow> (u32 \<times> u64) list option" where
  "mpmc_visit c [] = Some []"
| "mpmc_visit c (i # is) = do {
     b \<leftarrow> bs_is_set i (mpmc_occupied c);
     if b then do {
       value \<leftarrow> idx (mpmc_data c) (unat i);
       calls \<leftarrow> mpmc_visit c is;
       Some ((i, value) # calls)
     }
     else mpmc_visit c is
   }"

definition mpmc_for_each :: "mpmc_container \<Rightarrow> (u32 \<times> u64) list option" where
  "mpmc_for_each c = mpmc_visit c (map of_nat [0..<unat (mpmc_capacity c)])"

definition mpmc_len :: "mpmc_container \<Rightarrow> u32" where
  "mpmc_len c = bs_count_set (mpmc_occupied c)"

definition mpmc_is_empty :: "mpmc_container \<Rightarrow> bool" where
  "mpmc_is_empty c \<longleftrightarrow> mpmc_len c = 0"

subsection \<open>The map and the invariant\<close>

lemma mpmc_extract_pack [simp]:
  "mpmc_extract_head (mpmc_pack_head h t) = h" "mpmc_extract_tag (mpmc_pack_head h t) = t"
proof -
  show "mpmc_extract_head (mpmc_pack_head h t) = h"
    by (intro bit_word_eqI)
      (auto simp: mpmc_extract_head_def mpmc_pack_head_def bit_simps dest: bit_imp_le_length)
  show "mpmc_extract_tag (mpmc_pack_head h t) = t"
    by (intro bit_word_eqI)
      (auto simp: mpmc_extract_tag_def mpmc_pack_head_def bit_simps dest: bit_imp_le_length)
qed

definition mpmc_map :: "mpmc_container \<Rightarrow> u32 \<Rightarrow> u64 option" where
  "mpmc_map c i = (if unat i \<in> bs_elems (mpmc_occupied c) then Some (mpmc_data c ! unat i) else None)"

definition mpmc_free :: "mpmc_container \<Rightarrow> u32 list" where
  "mpmc_free c = fl_walk (length (mpmc_next c)) (mpmc_next c) (mpmc_extract_head (mpmc_free_head c))"

definition mpmc_wf :: "mpmc_container \<Rightarrow> bool" where
  "mpmc_wf c \<longleftrightarrow>
     0 < mpmc_capacity c \<and> bs_wf (mpmc_occupied c) \<and>
     bs_capacity (mpmc_occupied c) = mpmc_capacity c \<and>
     length (mpmc_data c) = unat (mpmc_capacity c) \<and>
     length (mpmc_next c) = unat (mpmc_capacity c) \<and>
     fl_chain (mpmc_next c) (mpmc_extract_head (mpmc_free_head c)) (mpmc_free c) \<and>
     (\<forall>i. i \<in> set (mpmc_free c) \<longleftrightarrow> i < mpmc_capacity c \<and> mpmc_map c i = None)"

lemma mpmc_wfI:
  assumes "fl_chain (mpmc_next c) (mpmc_extract_head (mpmc_free_head c)) xs"
    and "0 < mpmc_capacity c" and "bs_wf (mpmc_occupied c)"
    and "bs_capacity (mpmc_occupied c) = mpmc_capacity c"
    and "length (mpmc_data c) = unat (mpmc_capacity c)"
    and "length (mpmc_next c) = unat (mpmc_capacity c)"
    and "\<And>i. i \<in> set xs \<longleftrightarrow> i < mpmc_capacity c \<and> mpmc_map c i = None"
  shows "mpmc_wf c" and "mpmc_free c = xs"
proof -
  show "mpmc_free c = xs" using fl_walk_chain [OF assms(1)] by (simp add: mpmc_free_def)
  with assms show "mpmc_wf c" by (simp add: mpmc_wf_def)
qed

lemma mpmc_map_bound:
  assumes "mpmc_wf c" and "mpmc_map c i = Some v"
  shows "i < mpmc_capacity c" and "i \<notin> set (mpmc_free c)"
  using assms by (auto simp: mpmc_wf_def mpmc_map_def bs_wf_def word_less_nat_alt split: if_splits)

lemma u32_le_SENTINEL: "c \<le> SENTINEL"
  using unat_bound [of c] by (simp add: word_le_nat_alt)

lemma mpmc_new_spec:
  assumes "0 < n"
  shows "\<exists>c. mpmc_new n = Some c \<and> mpmc_wf c \<and> mpmc_map c = Map.empty \<and> mpmc_capacity c = n"
proof -
  let ?c = "\<lparr>mpmc_data = replicate (unat n) 0, mpmc_occupied = bs_new n,
    mpmc_free_head = mpmc_pack_head 0 0, mpmc_next = fresh_next n, mpmc_capacity = n\<rparr>"
  have empty: "mpmc_map ?c = Map.empty" by (auto simp: mpmc_map_def)
  have "mpmc_wf ?c"
  proof (rule mpmc_wfI)
    show "fl_chain (mpmc_next ?c) (mpmc_extract_head (mpmc_free_head ?c)) (map of_nat [0..<unat n])"
      using fresh_next_chain [OF assms u32_le_SENTINEL] by simp
    show "i \<in> set (map of_nat [0..<unat n]) \<longleftrightarrow> i < mpmc_capacity ?c \<and> mpmc_map ?c i = None" for i
    proof -
      have "i < n \<Longrightarrow> i \<in> of_nat ` {0..<unat n}"
        by (rule image_eqI [of _ _ "unat i"]) (auto simp: word_less_nat_alt)
      moreover have "of_nat k < n" if "k < unat n" for k
        using that unat_bound [of n] by (simp add: word_less_nat_alt unat_of_nat_less)
      ultimately show ?thesis using empty by auto
    qed
  qed (use assms bs_new_wf in \<open>auto simp: bs_new_def\<close>)
  with empty assms show ?thesis by (simp add: mpmc_new_def)
qed

subsection \<open>The operations on the map\<close>

lemma mpmc_add_full:
  assumes "mpmc_wf c" and "\<forall>i < mpmc_capacity c. mpmc_map c i \<noteq> None"
  shows "mpmc_add v c = Some (None, c)"
proof -
  have "i \<notin> set (mpmc_free c)" for i using assms by (auto simp: mpmc_wf_def)
  then have "mpmc_free c = []" by (metis equals0I set_empty)
  then have "mpmc_extract_head (mpmc_free_head c) = SENTINEL" using assms(1) by (simp add: mpmc_wf_def)
  then show ?thesis by (simp add: mpmc_add_def mpmc_alloc_slot_def)
qed

lemma mpmc_add_room:
  assumes wf: "mpmc_wf c" and room: "\<exists>i < mpmc_capacity c. mpmc_map c i = None"
  shows "\<exists>i c'. mpmc_add v c = Some (Some i, c') \<and> i < mpmc_capacity c \<and> mpmc_map c i = None \<and>
    mpmc_map c' = (mpmc_map c)(i \<mapsto> v) \<and> mpmc_wf c' \<and> mpmc_capacity c' = mpmc_capacity c"
proof -
  obtain x xs where free: "mpmc_free c = x # xs"
    using wf room by (cases "mpmc_free c") (auto simp: mpmc_wf_def)
  have chain: "fl_chain (mpmc_next c) (mpmc_extract_head (mpmc_free_head c)) (x # xs)"
    using wf free by (simp add: mpmc_wf_def)
  have x: "x < mpmc_capacity c" "mpmc_map c x = None" using wf free by (auto simp: mpmc_wf_def)
  obtain occ where occ: "bs_set x (mpmc_occupied c) = Some (unat x \<notin> bs_elems (mpmc_occupied c), occ)"
      "bs_elems occ = insert (unat x) (bs_elems (mpmc_occupied c))" "bs_wf occ"
      "bs_capacity occ = mpmc_capacity c"
    using bs_set_spec [of "mpmc_occupied c" x] wf x(1) by (auto simp: mpmc_wf_def)
  let ?c' = "c\<lparr>mpmc_free_head := mpmc_pack_head (mpmc_next c ! unat x)
      (mpmc_extract_tag (mpmc_free_head c) + 1),
    mpmc_data := (mpmc_data c)[unat x := v], mpmc_occupied := occ\<rparr>"
  have xlen: "unat x < length (mpmc_data c)" using wf x by (simp add: mpmc_wf_def word_less_nat_alt)
  have "mpmc_add v c = Some (Some x, ?c')"
    using chain xlen occ(1) by (simp add: mpmc_add_def mpmc_alloc_slot_def)
  moreover have map: "mpmc_map ?c' = (mpmc_map c)(x \<mapsto> v)"
    using occ(2) xlen by (auto simp: mpmc_map_def fun_eq_iff nth_list_update unsigned_word_eqI)
  moreover have "mpmc_wf ?c'"
  proof (rule mpmc_wfI)
    show "i \<in> set xs \<longleftrightarrow> i < mpmc_capacity ?c' \<and> mpmc_map ?c' i = None" for i
      using wf free fl_chain_head_notin_tail [OF chain] unfolding map
      by (auto simp: mpmc_wf_def)
  qed (use chain wf occ in \<open>auto simp: mpmc_wf_def\<close>)
  ultimately show ?thesis using x by auto
qed

lemma mpmc_remove_present:
  assumes wf: "mpmc_wf c" and v: "mpmc_map c i = Some v"
  shows "\<exists>c'. mpmc_remove i c = Some (Some v, c') \<and> mpmc_map c' = (mpmc_map c)(i := None) \<and>
    mpmc_wf c' \<and> mpmc_capacity c' = mpmc_capacity c"
proof -
  have i: "i < mpmc_capacity c" "i \<notin> set (mpmc_free c)" using mpmc_map_bound [OF assms] by auto
  have len: "unat i < length (mpmc_data c)" "unat i < length (mpmc_next c)"
    using wf i by (auto simp: mpmc_wf_def word_less_nat_alt)
  have "unat i div 64 < length (bs_words (mpmc_occupied c))"
    using bs_word_bound [of "mpmc_occupied c" i] wf i by (simp add: mpmc_wf_def)
  then obtain occ where occ: "bs_clear i (mpmc_occupied c) = Some (True, occ)"
      "bs_elems occ = bs_elems (mpmc_occupied c) - {unat i}" "bs_wf occ"
      "bs_capacity occ = mpmc_capacity c"
    using bs_clear_spec [of "mpmc_occupied c" i] wf v
    by (auto simp: mpmc_wf_def mpmc_map_def split: if_splits)
  let ?c' = "c\<lparr>mpmc_occupied := occ, mpmc_next := (mpmc_next c)[unat i := mpmc_extract_head (mpmc_free_head c)],
    mpmc_free_head := mpmc_pack_head i (mpmc_extract_tag (mpmc_free_head c) + 1)\<rparr>"
  have "mpmc_remove i c = Some (Some v, ?c')"
    using occ(1) len v by (auto simp: mpmc_remove_def mpmc_free_slot_def mpmc_map_def Let_def split: if_splits)
  moreover have map: "mpmc_map ?c' = (mpmc_map c)(i := None)"
    using occ(2) by (auto simp: mpmc_map_def fun_eq_iff unsigned_word_eqI)
  moreover have "mpmc_wf ?c'"
  proof (rule mpmc_wfI)
    have "i \<noteq> SENTINEL" using i(1) u32_le_SENTINEL [of "mpmc_capacity c"] by auto
    then show "fl_chain (mpmc_next ?c') (mpmc_extract_head (mpmc_free_head ?c')) (i # mpmc_free c)"
      using wf len i(2) by (simp add: mpmc_wf_def)
    show "j \<in> set (i # mpmc_free c) \<longleftrightarrow> j < mpmc_capacity ?c' \<and> mpmc_map ?c' j = None" for j
      using wf i unfolding map by (auto simp: mpmc_wf_def)
  qed (use wf occ in \<open>auto simp: mpmc_wf_def\<close>)
  ultimately show ?thesis by auto
qed

lemma mpmc_remove_absent:
  assumes "mpmc_wf c" and "mpmc_map c i = None"
    and "unat i div 64 < length (bs_words (mpmc_occupied c))"
  shows "mpmc_remove i c = Some (None, c)"
  using assms bs_clear_spec [of "mpmc_occupied c" i]
  by (auto simp: mpmc_wf_def mpmc_remove_def mpmc_map_def split: if_splits)

lemma mpmc_get_spec:
  assumes "mpmc_wf c" and "unat i div 64 < length (bs_words (mpmc_occupied c))"
  shows "mpmc_get i c = Some (mpmc_map c i)"
proof -
  have "unat i < length (mpmc_data c)" if "unat i \<in> bs_elems (mpmc_occupied c)"
    using assms(1) that by (auto simp: mpmc_wf_def bs_wf_def)
  with bs_is_set_spec [OF assms(2)] show ?thesis by (simp add: mpmc_get_def mpmc_map_def)
qed

lemma mpmc_wf_words:
  "mpmc_wf c \<Longrightarrow> i < mpmc_capacity c \<Longrightarrow> unat i div 64 < length (bs_words (mpmc_occupied c))"
  using bs_word_bound [of "mpmc_occupied c" i] by (simp add: mpmc_wf_def)

lemma mpmc_visit_spec:
  assumes "mpmc_wf c" and "\<forall>i \<in> set is. i < mpmc_capacity c"
  shows "mpmc_visit c is =
    Some (map (\<lambda>i. (i, the (mpmc_map c i))) (filter (\<lambda>i. mpmc_map c i \<noteq> None) is))"
  using assms(2)
proof (induction "is")
  case (Cons i "is")
  have "bs_is_set i (mpmc_occupied c) = Some (mpmc_map c i \<noteq> None)"
    using bs_is_set_spec [OF mpmc_wf_words [OF assms(1)]] Cons.prems by (simp add: mpmc_map_def)
  moreover have "unat i < length (mpmc_data c)"
    using assms(1) Cons.prems by (simp add: mpmc_wf_def word_less_nat_alt)
  ultimately show ?case using Cons by (auto simp: mpmc_map_def)
qed simp

lemma mpmc_len_spec:
  assumes "mpmc_wf c"
  shows "unat (mpmc_len c) = card (dom (mpmc_map c))"
proof -
  have "bs_elems (mpmc_occupied c) \<subseteq> unat ` dom (mpmc_map c)"
  proof
    fix k assume k: "k \<in> bs_elems (mpmc_occupied c)"
    then have "k < unat (mpmc_capacity c)" using assms by (auto simp: mpmc_wf_def bs_wf_def)
    then have "unat (of_nat k :: u32) = k"
      using unat_bound [of "mpmc_capacity c"] by (intro unat_of_nat_less) simp
    with k show "k \<in> unat ` dom (mpmc_map c)"
      by (intro image_eqI [of _ _ "of_nat k"]) (auto simp: mpmc_map_def)
  qed
  then have "bs_elems (mpmc_occupied c) = unat ` dom (mpmc_map c)"
    by (auto simp: mpmc_map_def split: if_splits)
  then show ?thesis
    using bs_count_set_wf [of "mpmc_occupied c"] assms
    by (simp add: mpmc_len_def mpmc_wf_def card_image inj_on_word_unat)
qed

subsection \<open>The container as a bounded map\<close>

text \<open>C25: \<open>add\<close> and \<open>remove\<close> are the operations of a bounded map whose keys the container chooses.
  \<open>add\<close> fails without a change exactly when every slot is taken and otherwise stores the value
  under a slot that was free; \<open>remove\<close> returns the value stored under the slot and frees it, and
  a second \<open>remove\<close> of the slot finds nothing. The invariant that ties the free list to the bitset
  is kept.\<close>

theorem mpmc_refines_map:
  assumes wf: "mpmc_wf c"
  shows "(\<exists>r c'. mpmc_add v c = Some (r, c') \<and> mpmc_wf c' \<and>
      (case r of None \<Rightarrow> c' = c \<and> dom (mpmc_map c) = {i. i < mpmc_capacity c}
       | Some i \<Rightarrow> i < mpmc_capacity c \<and> mpmc_map c i = None \<and> mpmc_map c' = (mpmc_map c)(i \<mapsto> v))) \<and>
    (\<forall>i w. mpmc_map c i = Some w \<longrightarrow>
      (\<exists>c'. mpmc_remove i c = Some (Some w, c') \<and> mpmc_wf c' \<and>
        mpmc_map c' = (mpmc_map c)(i := None) \<and> mpmc_remove i c' = Some (None, c')))"
proof (intro conjI allI impI)
  show "\<exists>r c'. mpmc_add v c = Some (r, c') \<and> mpmc_wf c' \<and>
      (case r of None \<Rightarrow> c' = c \<and> dom (mpmc_map c) = {i. i < mpmc_capacity c}
       | Some i \<Rightarrow> i < mpmc_capacity c \<and> mpmc_map c i = None \<and> mpmc_map c' = (mpmc_map c)(i \<mapsto> v))"
  proof (cases "\<exists>i < mpmc_capacity c. mpmc_map c i = None")
    case True
    from mpmc_add_room [OF wf True] show ?thesis by fastforce
  next
    case False
    then have "dom (mpmc_map c) = {i. i < mpmc_capacity c}"
      using mpmc_map_bound(1) [OF wf] by auto
    moreover from False have "mpmc_add v c = Some (None, c)" by (intro mpmc_add_full [OF wf]) auto
    ultimately show ?thesis using wf by simp
  qed
  fix i w assume w: "mpmc_map c i = Some w"
  then obtain c' where c': "mpmc_remove i c = Some (Some w, c')" "mpmc_map c' = (mpmc_map c)(i := None)"
      "mpmc_wf c'" "mpmc_capacity c' = mpmc_capacity c"
    using mpmc_remove_present [OF wf w] by auto
  moreover have "mpmc_remove i c' = Some (None, c')"
    using mpmc_remove_absent [OF c'(3)] mpmc_wf_words [OF c'(3)] mpmc_map_bound(1) [OF wf w] c' by simp
  ultimately show "\<exists>c'. mpmc_remove i c = Some (Some w, c') \<and> mpmc_wf c' \<and>
      mpmc_map c' = (mpmc_map c)(i := None) \<and> mpmc_remove i c' = Some (None, c')" by blast
qed

theorem mpmc_refines_map_witness:
  "\<exists>c. mpmc_new 2 = Some c \<and> (\<exists>r c'. mpmc_add 7 c = Some (r, c') \<and> mpmc_wf c')"
proof -
  obtain c where "mpmc_new 2 = Some c" "mpmc_wf c" using mpmc_new_spec [of 2] by auto
  then show ?thesis using mpmc_refines_map [of c 7] by blast
qed

text \<open>The readers of the container agree with the map. \<open>get\<close> returns the value stored under
  the slot; \<open>for_each\<close> visits every occupied slot exactly once, in ascending order, with its value;
  \<open>len\<close> is the number of occupied slots. A slot past the last bitset word makes \<open>get\<close> and
  \<open>remove\<close> panic instead of answering \<open>None\<close>.\<close>

theorem mpmc_readers:
  assumes wf: "mpmc_wf c"
  shows "(\<forall>i < mpmc_capacity c. mpmc_get i c = Some (mpmc_map c i)) \<and>
    mpmc_for_each c = Some (map (\<lambda>i. (i, the (mpmc_map c i)))
      (filter (\<lambda>i. mpmc_map c i \<noteq> None) (map of_nat [0..<unat (mpmc_capacity c)]))) \<and>
    unat (mpmc_len c) = card (dom (mpmc_map c)) \<and>
    (\<forall>i. length (bs_words (mpmc_occupied c)) \<le> unat i div 64 \<longrightarrow>
       mpmc_get i c = None \<and> mpmc_remove i c = None)"
proof (intro conjI allI impI)
  have "of_nat k < mpmc_capacity c" if "k < unat (mpmc_capacity c)" for k
    using that unat_bound [of "mpmc_capacity c"] by (simp add: word_less_nat_alt unat_of_nat_less)
  then show "mpmc_for_each c = Some (map (\<lambda>i. (i, the (mpmc_map c i)))
      (filter (\<lambda>i. mpmc_map c i \<noteq> None) (map of_nat [0..<unat (mpmc_capacity c)])))"
    unfolding mpmc_for_each_def by (intro mpmc_visit_spec [OF wf]) auto
qed (use mpmc_get_spec [OF wf mpmc_wf_words [OF wf]] mpmc_len_spec [OF wf]
  in \<open>simp_all add: mpmc_get_def mpmc_remove_def bs_out_of_words\<close>)

theorem mpmc_readers_witness:
  "\<exists>c. mpmc_new 2 = Some c \<and> unat (mpmc_len c) = card (dom (mpmc_map c)) \<and> mpmc_get 64 c = None"
proof -
  obtain c where "mpmc_new 2 = Some c" "mpmc_wf c" using mpmc_new_spec [of 2] by auto
  moreover from this have "length (bs_words (mpmc_occupied c)) = 1"
    by (auto simp: mpmc_new_def bs_new_def)
  ultimately show ?thesis using mpmc_readers [of c] by (auto dest: spec [of _ "64 :: u32"])
qed

end
