(* ===== verification/Mpmc_Conc.thy ===== *)
theory Mpmc_Conc
  imports Mpmc_Container Index_Set_Conc
begin

text \<open>
  Threads that call \<open>add\<close>, \<open>remove\<close> and \<open>get\<close> on one shared \<open>MpmcContainer\<close>, interleaved at the
  granularity of the atomic accesses, under sequential consistency. \<open>alloc_step\<close> and \<open>free_step\<close> are
  the two private methods on the free list; the accesses to the bitset are those of \<open>Atomic_Bitset\<close>.

  The free list works like that of \<open>UniqueIndexSet\<close>, and the proof uses this: every run of the
  container is accompanied by a run of an index set (\<open>mpmc_sim\<close>) in which a slot is acquired where
  \<open>add\<close> takes it and released where \<open>remove\<close> gives it back. What is known of the index set carries
  over; what is left is the way of a slot between the two, through the data word and the bit.

  \<open>mver\<close> and \<open>mseen\<close> count the successful exchanges of the head word, as in \<open>Index_Set_Conc\<close>. \<open>stored\<close>,
  \<open>added\<close> and \<open>removed\<close> record, outside the program and per slot, the values written to the data word,
  the values whose bit was set by \<open>add\<close>, and the values \<open>remove\<close> took out; \<open>mslot\<close> is the slot a thread
  gave to its last call of \<open>remove\<close> or \<open>get\<close>, which may be any number.
\<close>

subsection \<open>The methods, one atomic access at a time\<close>

datatype alloc_pc = AlStart | AlLoop u64 | AlCas u64 u32 u32 | AlRet "u32 option" | AlPanic

fun alloc_step :: "bool \<Rightarrow> mpmc_container \<Rightarrow> alloc_pc \<Rightarrow> mpmc_container \<times> alloc_pc" where
  "alloc_step spurious c AlStart = (c, AlLoop (mpmc_free_head c))"
| "alloc_step spurious c (AlLoop old) =
     (let head = mpmc_extract_head old
      in if head = SENTINEL then (c, AlRet None)
         else case idx (mpmc_next c) (unat head) of
                None \<Rightarrow> (c, AlPanic)
              | Some next_idx \<Rightarrow> (c, AlCas old head next_idx))"
| "alloc_step spurious c (AlCas old head next_idx) =
     (if mpmc_free_head c = old \<and> \<not> spurious
      then (c\<lparr>mpmc_free_head := mpmc_pack_head next_idx (mpmc_extract_tag old + 1)\<rparr>, AlRet (Some head))
      else (c, AlLoop (mpmc_free_head c)))"
| "alloc_step spurious c p = (c, p)"

datatype free_pc = FrStart | FrLoop u64 | FrCas u64 | FrRet | FrPanic

fun free_step :: "bool \<Rightarrow> u32 \<Rightarrow> mpmc_container \<Rightarrow> free_pc \<Rightarrow> mpmc_container \<times> free_pc" where
  "free_step spurious slot c FrStart = (c, FrLoop (mpmc_free_head c))"
| "free_step spurious slot c (FrLoop old) =
     (case upd (mpmc_next c) (unat slot) (mpmc_extract_head old) of
        None \<Rightarrow> (c, FrPanic)
      | Some nxt \<Rightarrow> (c\<lparr>mpmc_next := nxt\<rparr>, FrCas old))"
| "free_step spurious slot c (FrCas old) =
     (if mpmc_free_head c = old \<and> \<not> spurious
      then (c\<lparr>mpmc_free_head := mpmc_pack_head slot (mpmc_extract_tag old + 1)\<rparr>, FrRet)
      else (c, FrLoop (mpmc_free_head c)))"
| "free_step spurious slot c p = (c, p)"

text \<open>A thread inside \<open>add(value)\<close>: allocating, about to store the value, inside \<open>occupied.set\<close>. Inside
  \<open>remove(slot)\<close>: inside \<open>occupied.clear\<close>, about to load the value, inside \<open>free_slot\<close>. Inside
  \<open>get(slot)\<close>: about to test the bit, about to load the value.\<close>

datatype mpmc_pc =
    MIdle
  | AddAlloc u64 alloc_pc
  | AddStore u64 u32
  | AddMark u64 u32 bs_pc
  | AddRet "u32 option"
  | RemClear u32 bs_pc
  | RemLoad u32
  | RemFree u32 u64 free_pc
  | RemRet "u64 option"
  | GetTest u32
  | GetLoad u32
  | GetRet u32 "u64 option"
  | MPanic

text \<open>Where the caller goes on when the inner method has returned.\<close>

fun after_alloc :: "u64 \<Rightarrow> alloc_pc \<Rightarrow> mpmc_pc" where
  "after_alloc value (AlRet None) = AddRet None"
| "after_alloc value (AlRet (Some slot)) = AddStore value slot"
| "after_alloc value AlPanic = MPanic"
| "after_alloc value p = AddAlloc value p"

fun after_set :: "u64 \<Rightarrow> u32 \<Rightarrow> bs_pc \<Rightarrow> mpmc_pc" where
  "after_set value slot (BRet op i b) = AddRet (Some slot)"
| "after_set value slot BPanic = MPanic"
| "after_set value slot p = AddMark value slot p"

fun after_clear :: "u32 \<Rightarrow> bs_pc \<Rightarrow> mpmc_pc" where
  "after_clear slot (BRet op i b) = (if b then RemLoad slot else RemRet None)"
| "after_clear slot BPanic = MPanic"
| "after_clear slot p = RemClear slot p"

fun after_free :: "u32 \<Rightarrow> u64 \<Rightarrow> free_pc \<Rightarrow> mpmc_pc" where
  "after_free slot value FrRet = RemRet (Some value)"
| "after_free slot value FrPanic = MPanic"
| "after_free slot value p = RemFree slot value p"

fun mpmc_thread_step :: "bool \<Rightarrow> mpmc_container \<Rightarrow> mpmc_pc \<Rightarrow> mpmc_container \<times> mpmc_pc" where
  "mpmc_thread_step b c (AddAlloc value p) = apsnd (after_alloc value) (alloc_step b c p)"
| "mpmc_thread_step b c (AddStore value slot) =
     (case upd (mpmc_data c) (unat slot) value of
        None \<Rightarrow> (c, MPanic)
      | Some data \<Rightarrow> (c\<lparr>mpmc_data := data\<rparr>, AddMark value slot (BStart SetBit slot)))"
| "mpmc_thread_step b c (AddMark value slot p) =
     (case bs_step b (mpmc_occupied c) p of
        (occ, p) \<Rightarrow> (c\<lparr>mpmc_occupied := occ\<rparr>, after_set value slot p))"
| "mpmc_thread_step b c (RemClear slot p) =
     (case bs_step b (mpmc_occupied c) p of
        (occ, p) \<Rightarrow> (c\<lparr>mpmc_occupied := occ\<rparr>, after_clear slot p))"
| "mpmc_thread_step b c (RemLoad slot) =
     (case idx (mpmc_data c) (unat slot) of
        None \<Rightarrow> (c, MPanic)
      | Some value \<Rightarrow> (c, RemFree slot value FrStart))"
| "mpmc_thread_step b c (RemFree slot value p) = apsnd (after_free slot value) (free_step b slot c p)"
| "mpmc_thread_step b c (GetTest slot) =
     (case bs_is_set slot (mpmc_occupied c) of
        None \<Rightarrow> (c, MPanic)
      | Some is \<Rightarrow> (c, if is then GetLoad slot else GetRet slot None))"
| "mpmc_thread_step b c (GetLoad slot) =
     (case idx (mpmc_data c) (unat slot) of
        None \<Rightarrow> (c, MPanic)
      | Some value \<Rightarrow> (c, GetRet slot (Some value)))"
| "mpmc_thread_step b c pc = (c, pc)"

subsection \<open>The system\<close>

record mpmc_sys =
  box :: mpmc_container
  mthr :: "nat \<Rightarrow> mpmc_pc"
  stored :: "u32 \<Rightarrow> u64 list"
  added :: "u32 \<Rightarrow> u64 list"
  removed :: "u32 \<Rightarrow> u64 list"
  mver :: nat
  mseen :: "nat \<Rightarrow> nat"
  mslot :: "nat \<Rightarrow> u32 option"

fun mpmc_loads :: "mpmc_pc \<Rightarrow> bool" where
  "mpmc_loads (AddAlloc v (AlLoop old)) = True"
| "mpmc_loads (RemFree i v (FrLoop old)) = True"
| "mpmc_loads pc = False"

fun stored_log :: "mpmc_pc \<Rightarrow> (u32 \<times> u64) option" where
  "stored_log (AddStore v i) = Some (i, v)"
| "stored_log pc = None"

fun added_log :: "mpmc_pc \<Rightarrow> mpmc_pc \<Rightarrow> (u32 \<times> u64) option" where
  "added_log (AddMark v i p) (AddRet r) = Some (i, v)"
| "added_log pc pc' = None"

fun removed_log :: "mpmc_pc \<Rightarrow> (u32 \<times> u64) option" where
  "removed_log (RemFree i v FrStart) = Some (i, v)"
| "removed_log pc = None"

definition log_at :: "(u32 \<times> u64) option \<Rightarrow> (u32 \<Rightarrow> u64 list) \<Rightarrow> u32 \<Rightarrow> u64 list" where
  "log_at e f = (case e of None \<Rightarrow> f | Some (i, v) \<Rightarrow> f(i := f i @ [v]))"

text \<open>The thread's step with the book-keeping: \<open>removed_log\<close> is of the new program counter, which
  \<open>remove\<close> reaches by loading the value.\<close>

definition mpmc_advance :: "mpmc_sys \<Rightarrow> nat \<Rightarrow> mpmc_container \<Rightarrow> mpmc_pc \<Rightarrow> mpmc_sys" where
  "mpmc_advance s t c pc =
     s\<lparr>box := c, mthr := (mthr s)(t := pc),
       stored := log_at (stored_log (mthr s t)) (stored s),
       added := log_at (added_log (mthr s t) pc) (added s),
       removed := log_at (removed_log pc) (removed s),
       mver := (if mpmc_free_head c = mpmc_free_head (box s) then mver s else Suc (mver s)),
       mseen := (if mpmc_loads pc then (mseen s)(t := mver s) else mseen s)\<rparr>"

fun mpmc_done :: "mpmc_pc \<Rightarrow> bool" where
  "mpmc_done (AddRet r) = True"
| "mpmc_done (RemRet r) = True"
| "mpmc_done (GetRet i r) = True"
| "mpmc_done pc = False"

fun pc_slot :: "mpmc_pc \<Rightarrow> u32 option" where
  "pc_slot (RemClear i p) = Some i"
| "pc_slot (GetTest i) = Some i"
| "pc_slot pc = None"

definition mpmc_call :: "nat \<Rightarrow> mpmc_pc \<Rightarrow> mpmc_sys \<Rightarrow> mpmc_sys" where
  "mpmc_call t pc s = s\<lparr>mthr := (mthr s)(t := pc), mslot := (mslot s)(t := pc_slot pc)\<rparr>"

inductive mpmc_step :: "mpmc_sys \<Rightarrow> mpmc_sys \<Rightarrow> bool" where
  call_add: "mthr s t = MIdle \<Longrightarrow> mpmc_step s (mpmc_call t (AddAlloc v AlStart) s)"
| call_remove: "mthr s t = MIdle \<Longrightarrow> mpmc_step s (mpmc_call t (RemClear i (BStart ClearBit i)) s)"
| call_get: "mthr s t = MIdle \<Longrightarrow> mpmc_step s (mpmc_call t (GetTest i) s)"
| run: "\<not> mpmc_done (mthr s t) \<Longrightarrow> mthr s t \<noteq> MIdle \<Longrightarrow>
    mpmc_thread_step b (box s) (mthr s t) = (c, pc) \<Longrightarrow> mpmc_step s (mpmc_advance s t c pc)"
| return: "mpmc_done (mthr s t) \<Longrightarrow> mpmc_step s (s\<lparr>mthr := (mthr s)(t := MIdle)\<rparr>)"

fun mpmc_old :: "mpmc_pc \<Rightarrow> bool" where
  "mpmc_old (AddAlloc v (AlLoop old)) = True"
| "mpmc_old (AddAlloc v (AlCas old h n)) = True"
| "mpmc_old (RemFree i v (FrLoop old)) = True"
| "mpmc_old (RemFree i v (FrCas old)) = True"
| "mpmc_old pc = False"

definition mpmc_window :: "mpmc_sys \<Rightarrow> bool" where
  "mpmc_window s \<longleftrightarrow> (\<forall>t. mpmc_old (mthr s t) \<longrightarrow> mver s - mseen s t < 2 ^ 32)"

definition mpmc_start :: "mpmc_container \<Rightarrow> mpmc_sys" where
  "mpmc_start c = \<lparr>box = c, mthr = (\<lambda>_. MIdle), stored = (\<lambda>_. []), added = (\<lambda>_. []),
     removed = (\<lambda>_. []), mver = 0, mseen = (\<lambda>_. 0), mslot = (\<lambda>_. None)\<rparr>"

inductive mpmc_reach :: "u32 \<Rightarrow> mpmc_sys \<Rightarrow> bool" for n where
  mpmc_init: "mpmc_new n = Some c \<Longrightarrow> mpmc_reach n (mpmc_start c)"
| mpmc_next: "mpmc_reach n s \<Longrightarrow> mpmc_window s \<Longrightarrow> mpmc_step s s' \<Longrightarrow> mpmc_reach n s'"

subsection \<open>The index set that runs along\<close>

lemma mpmc_pack_uis:
  "mpmc_pack_head h t = uis_pack h t" "mpmc_extract_head w = uis_extract_head w"
  "mpmc_extract_tag w = uis_extract_tag w"
proof -
  show "mpmc_extract_head w = uis_extract_head w"
    by (simp add: mpmc_extract_head_def uis_extract_head_def HEAD_SHIFT_def)
  show "mpmc_extract_tag w = uis_extract_tag w"
    by (intro bit_word_eqI) (auto simp: mpmc_extract_tag_def uis_extract_tag_def TAG_MASK_def mask32 bit_simps)
  show "mpmc_pack_head h t = uis_pack h t"
    by (intro bit_word_eqI)
      (auto simp: mpmc_pack_head_def uis_pack_def HEAD_SHIFT_def TAG_MASK_def mask32 bit_simps dest: bit_imp_le_length)
qed

fun uis_view :: "mpmc_pc \<Rightarrow> uis_pc" where
  "uis_view (AddAlloc v AlStart) = InAcq AcqStart"
| "uis_view (AddAlloc v (AlLoop old)) = InAcq (AcqLoop old)"
| "uis_view (AddAlloc v (AlCas old h n)) = InAcq (AcqCas old h n)"
| "uis_view (AddStore v i) = InAcq (AcqCount i)"
| "uis_view (AddRet None) = InAcq (AcqRet (Err AcquireError))"
| "uis_view (RemFree i v FrStart) = InRel (RelStart i)"
| "uis_view (RemFree i v (FrLoop old)) = InRel (RelLoop i old)"
| "uis_view (RemFree i v (FrCas old)) = InRel (RelCas i old)"
| "uis_view (RemRet (Some v)) = InRel RelCount"
| "uis_view pc = Idle"

definition uis_part :: "mpmc_container \<Rightarrow> u32 \<Rightarrow> unique_index_set" where
  "uis_part c k = \<lparr>uis_head = mpmc_free_head c, uis_next = mpmc_next c, uis_capacity = mpmc_capacity c,
     uis_borrowed = k\<rparr>"

definition mpmc_sim :: "mpmc_sys \<Rightarrow> uis_sys \<Rightarrow> bool" where
  "mpmc_sim s u \<longleftrightarrow> (\<exists>k. shared u = uis_part (box s) k) \<and> thr u = uis_view \<circ> mthr s \<and>
     ver u = mver s \<and> seen u = mseen s"

lemma uis_view_old: "mpmc_old pc \<longleftrightarrow> pc_old (uis_view pc) \<noteq> None"
  by (cases pc rule: uis_view.cases) auto

lemma mpmc_sim_window: "mpmc_sim s u \<Longrightarrow> mpmc_window s \<longleftrightarrow> tag_window u"
  by (simp add: mpmc_sim_def mpmc_window_def tag_window_def uis_view_old)

text \<open>What a step of a thread does to the slots held by callers of the index set.\<close>

fun hold_after :: "mpmc_pc \<Rightarrow> u32 set \<Rightarrow> u32 set" where
  "hold_after (AddStore v i) H = insert i H"
| "hold_after (RemLoad i) H = H - {i}"
| "hold_after pc H = H"

lemma uis_view_loads: "mpmc_loads pc \<longleftrightarrow> pc_loads (uis_view pc)"
  by (cases pc rule: uis_view.cases) auto

lemma uis_part_simps [simp]:
  "uis_head (uis_part c k) = mpmc_free_head c" "uis_next (uis_part c k) = mpmc_next c"
  "uis_capacity (uis_part c k) = mpmc_capacity c" "uis_borrowed (uis_part c k) = k"
  by (simp_all add: uis_part_def)

text \<open>A step that the index set does not see.\<close>

lemma mpmc_sim_stutter:
  assumes "mpmc_sim s u" and "uis_view pc = uis_view (mthr s t)" and "\<not> mpmc_loads pc"
    and "mpmc_free_head c = mpmc_free_head (box s)" and "mpmc_next c = mpmc_next (box s)"
    and "mpmc_capacity c = mpmc_capacity (box s)"
  shows "mpmc_sim (mpmc_advance s t c pc) u"
proof -
  obtain k where "shared u = uis_part (box s) k" using assms(1) by (auto simp: mpmc_sim_def)
  then have "shared u = uis_part c k" using assms(4-6) by (simp add: uis_part_def)
  then show ?thesis using assms by (auto simp: mpmc_sim_def mpmc_advance_def fun_eq_iff)
qed

text \<open>A step that the index set takes as well.\<close>

lemma mpmc_sim_advance:
  assumes "mpmc_sim s u" and "uis_view pc = pc'"
  shows "mpmc_sim (mpmc_advance s t c pc) (advance u t (uis_part c k) pc')"
  using assms by (auto simp: mpmc_sim_def mpmc_advance_def advance_def fun_eq_iff uis_view_loads)

lemma alloc_step_acq:
  assumes "uis_view (AddAlloc v p) = InAcq q" and "alloc_step b c p = (c', p')"
  shows "\<exists>q'. acq_step b (uis_part c k) q = (uis_part c' k, q') \<and>
    (q' = AcqPanic \<longleftrightarrow> p' = AlPanic) \<and> (p' \<noteq> AlPanic \<longrightarrow> uis_view (after_alloc v p') = InAcq q')"
  using assms
  by (cases p) (auto simp: Let_def mpmc_pack_uis uis_part_def split: if_splits option.splits)

lemma free_step_rel:
  assumes "uis_view (RemFree i v p) = InRel q" and "free_step b i c p = (c', p')"
  shows "\<exists>q'. rel_step b (uis_part c k) q = (uis_part c' k, q') \<and>
    (q' = RelPanic \<longleftrightarrow> p' = FrPanic) \<and> (p' \<noteq> FrPanic \<longrightarrow> uis_view (after_free i v p') = InRel q')"
  using assms
  by (cases p) (auto simp: Let_def mpmc_pack_uis uis_part_def split: if_splits option.splits)

lemma uis_reach_no_panic:
  assumes "uis_reach n u"
  shows "thr u t \<noteq> InAcq AcqPanic" and "thr u t \<noteq> InRel RelPanic"
  using uis_reach_inv [OF assms] by (auto simp: uis_inv_def cas_ok_def)

lemma sim_alloc:
  assumes reach: "uis_reach n u" and sim: "mpmc_sim s u" and win: "mpmc_window s"
    and pc: "mthr s t = AddAlloc v p" "uis_view (AddAlloc v p) = InAcq q"
    and step: "alloc_step b (box s) p = (c, p')"
  shows "p' \<noteq> AlPanic" and "\<exists>u'. uis_reach n u' \<and> held u' = held u \<and> mpmc_sim (mpmc_advance s t c (after_alloc v p')) u'"
proof -
  obtain k where k: "shared u = uis_part (box s) k" and thr: "thr u t = InAcq q"
    using sim pc by (auto simp: mpmc_sim_def)
  obtain q' where q': "acq_step b (shared u) q = (uis_part c k, q')" "q' = AcqPanic \<longleftrightarrow> p' = AlPanic"
      "p' \<noteq> AlPanic \<Longrightarrow> uis_view (after_alloc v p') = InAcq q'"
    using alloc_step_acq [OF pc(2) step] k by metis
  let ?u = "advance u t (uis_part c k) (InAcq q')"
  have "uis_reach n ?u"
    using uis_reach.step [OF reach] mpmc_sim_window [OF sim] win uis_step.in_acquire [OF thr q'(1)] by blast
  moreover from uis_reach_no_panic(1) [OF this, of t] have "q' \<noteq> AcqPanic" by (simp add: advance_def)
  ultimately show "p' \<noteq> AlPanic"
      and "\<exists>u'. uis_reach n u' \<and> held u' = held u \<and> mpmc_sim (mpmc_advance s t c (after_alloc v p')) u'"
    using q' mpmc_sim_advance [OF sim, of "after_alloc v p'" "InAcq q'" t c k]
    by (auto intro!: exI [of _ ?u] simp: advance_def)
qed

lemma sim_free:
  assumes reach: "uis_reach n u" and sim: "mpmc_sim s u" and win: "mpmc_window s"
    and pc: "mthr s t = RemFree i v p" "uis_view (RemFree i v p) = InRel q"
    and step: "free_step b i (box s) p = (c, p')"
  shows "p' \<noteq> FrPanic" and "\<exists>u'. uis_reach n u' \<and> held u' = held u \<and> mpmc_sim (mpmc_advance s t c (after_free i v p')) u'"
proof -
  obtain k where k: "shared u = uis_part (box s) k" and thr: "thr u t = InRel q"
    using sim pc by (auto simp: mpmc_sim_def)
  obtain q' where q': "rel_step b (shared u) q = (uis_part c k, q')" "q' = RelPanic \<longleftrightarrow> p' = FrPanic"
      "p' \<noteq> FrPanic \<Longrightarrow> uis_view (after_free i v p') = InRel q'"
    using free_step_rel [OF pc(2) step] k by metis
  let ?u = "advance u t (uis_part c k) (InRel q')"
  have "uis_reach n ?u"
    using uis_reach.step [OF reach] mpmc_sim_window [OF sim] win uis_step.in_release [OF thr q'(1)] by blast
  moreover from uis_reach_no_panic(2) [OF this, of t] have "q' \<noteq> RelPanic" by (simp add: advance_def)
  ultimately show "p' \<noteq> FrPanic"
      and "\<exists>u'. uis_reach n u' \<and> held u' = held u \<and> mpmc_sim (mpmc_advance s t c (after_free i v p')) u'"
    using q' mpmc_sim_advance [OF sim, of "after_free i v p'" "InRel q'" t c k]
    by (auto intro!: exI [of _ ?u] simp: advance_def)
qed

text \<open>The store of \<open>add\<close>: the index set counts the slot and returns it to its caller.\<close>

lemma sim_hand_out:
  assumes reach: "uis_reach n u" and sim: "mpmc_sim s u" and win: "mpmc_window s"
    and pc: "mthr s t = AddStore v i"
  shows "\<exists>u'. uis_reach n u' \<and> held u' = insert i (held u) \<and>
    mpmc_sim (mpmc_advance s t ((box s)\<lparr>mpmc_data := data\<rparr>) (AddMark v i p)) u'"
proof -
  obtain k where k: "shared u = uis_part (box s) k" and thr: "thr u t = InAcq (AcqCount i)"
    using sim pc by (auto simp: mpmc_sim_def)
  have w: "tag_window u" using mpmc_sim_window [OF sim] win by simp
  let ?u1 = "advance u t (uis_part (box s) (k + 1)) (InAcq (AcqRet (Ok i)))"
  let ?u2 = "?u1\<lparr>thr := (thr ?u1)(t := Idle), held := insert i (held ?u1)\<rparr>"
  have acq: "acq_step False (shared u) (AcqCount i) = (uis_part (box s) (k + 1), AcqRet (Ok i))"
    using k by (simp add: uis_part_def)
  have r1: "uis_reach n ?u1"
    using uis_reach.step [OF reach w uis_step.in_acquire [OF thr acq]] .
  have "tag_window ?u1" using w k by (auto simp: tag_window_def advance_def)
  moreover have "thr ?u1 t = InAcq (AcqRet (Ok i))" by (simp add: advance_def)
  ultimately have r2: "uis_reach n ?u2" using uis_reach.step [OF r1] uis_step.return_index by blast
  have "mpmc_sim (mpmc_advance s t ((box s)\<lparr>mpmc_data := data\<rparr>) (AddMark v i p)) ?u2"
    using sim k
    by (auto simp: mpmc_sim_def mpmc_advance_def advance_def fun_eq_iff uis_part_def)
  with r2 show ?thesis by (intro exI [of _ ?u2]) (simp add: advance_def)
qed

text \<open>The load of \<open>remove\<close>: the caller of the index set starts to release the slot.\<close>

lemma sim_take_back:
  assumes reach: "uis_reach n u" and sim: "mpmc_sim s u" and win: "mpmc_window s"
    and pc: "mthr s t = RemLoad i" and held: "i \<in> held u"
  shows "\<exists>u'. uis_reach n u' \<and> held u' = held u - {i} \<and> mpmc_sim (mpmc_advance s t (box s) (RemFree i v FrStart)) u'"
proof -
  have thr: "thr u t = Idle" using sim pc by (auto simp: mpmc_sim_def)
  have w: "tag_window u" using mpmc_sim_window [OF sim] win by simp
  let ?u = "u\<lparr>thr := (thr u)(t := InRel (RelStart i)), held := held u - {i}\<rparr>"
  have "uis_reach n ?u" using uis_reach.step [OF reach w uis_step.call_release [OF thr held]] .
  moreover have "mpmc_sim (mpmc_advance s t (box s) (RemFree i v FrStart)) ?u"
    using sim by (auto simp: mpmc_sim_def mpmc_advance_def fun_eq_iff)
  ultimately show ?thesis by (intro exI [of _ ?u]) simp
qed

text \<open>The return of a call.\<close>

lemma sim_return:
  assumes reach: "uis_reach n u" and sim: "mpmc_sim s u" and win: "mpmc_window s" and "done": "mpmc_done (mthr s t)"
  shows "\<exists>u'. uis_reach n u' \<and> held u' = held u \<and> mpmc_sim (s\<lparr>mthr := (mthr s)(t := MIdle)\<rparr>) u'"
proof -
  have w: "tag_window u" using mpmc_sim_window [OF sim] win by simp
  have thr: "thr u t = uis_view (mthr s t)" using sim by (simp add: mpmc_sim_def)
  let ?s' = "s\<lparr>mthr := (mthr s)(t := MIdle)\<rparr>"
  consider "uis_view (mthr s t) = Idle" | "uis_view (mthr s t) = InAcq (AcqRet (Err AcquireError))"
    | "uis_view (mthr s t) = InRel RelCount"
    using "done" by (cases "mthr s t" rule: uis_view.cases) auto
  then show ?thesis
  proof cases
    case 1
    then have "mpmc_sim ?s' u" using sim by (auto simp: mpmc_sim_def fun_eq_iff)
    with reach show ?thesis by blast
  next
    case 2
    let ?u = "u\<lparr>thr := (thr u)(t := Idle)\<rparr>"
    have "uis_reach n ?u" using uis_reach.step [OF reach w uis_step.return_error] thr 2 by metis
    moreover have "mpmc_sim ?s' ?u" using sim by (auto simp: mpmc_sim_def fun_eq_iff)
    ultimately show ?thesis by (intro exI [of _ ?u]) simp
  next
    case 3
    obtain k where k: "shared u = uis_part (box s) k" using sim by (auto simp: mpmc_sim_def)
    let ?u1 = "advance u t (uis_part (box s) (k - 1)) (InRel RelRet)"
    let ?u2 = "?u1\<lparr>thr := (thr ?u1)(t := Idle)\<rparr>"
    have "rel_step False (shared u) RelCount = (uis_part (box s) (k - 1), RelRet)"
      using k by (simp add: uis_part_def)
    then have r1: "uis_reach n ?u1"
      using uis_reach.step [OF reach w uis_step.in_release] thr 3 by metis
    have "tag_window ?u1" using w k by (auto simp: tag_window_def advance_def)
    moreover have "thr ?u1 t = InRel RelRet" by (simp add: advance_def)
    ultimately have r2: "uis_reach n ?u2" using uis_reach.step [OF r1] uis_step.return_release by blast
    moreover have "mpmc_sim ?s' ?u2"
      using sim k by (auto simp: mpmc_sim_def advance_def fun_eq_iff)
    ultimately show ?thesis by (intro exI [of _ ?u2]) (simp add: advance_def)
  qed
qed

lemma sim_call:
  assumes reach: "uis_reach n u" and sim: "mpmc_sim s u" and win: "mpmc_window s" and idle: "mthr s t = MIdle"
    and pc: "pc = AddAlloc v AlStart \<or> uis_view pc = Idle"
  shows "\<exists>u'. uis_reach n u' \<and> held u' = held u \<and> mpmc_sim (mpmc_call t pc s) u'"
proof (cases "uis_view pc = Idle")
  case True
  then have "mpmc_sim (mpmc_call t pc s) u" using sim idle by (auto simp: mpmc_sim_def mpmc_call_def fun_eq_iff)
  with reach show ?thesis by blast
next
  case False
  have thr: "thr u t = Idle" using sim idle by (simp add: mpmc_sim_def)
  let ?u = "u\<lparr>thr := (thr u)(t := InAcq AcqStart)\<rparr>"
  have "uis_reach n ?u"
    using uis_reach.step [OF reach _ uis_step.call_acquire [OF thr]] mpmc_sim_window [OF sim] win by simp
  moreover have "mpmc_sim (mpmc_call t pc s) ?u"
    using sim False pc by (auto simp: mpmc_sim_def mpmc_call_def fun_eq_iff)
  ultimately show ?thesis by (intro exI [of _ ?u]) simp
qed

subsection \<open>The invariant\<close>

text \<open>A slot that the index set has handed out is in one of three places: a thread in \<open>add\<close> is about to
  set its bit, its bit is set, or a thread in \<open>remove\<close> has cleared the bit and is about to load the
  value. \<open>None\<close> stands for the bit.\<close>

fun pc_busy :: "mpmc_pc \<Rightarrow> u32 option" where
  "pc_busy (AddMark v i p) = Some i"
| "pc_busy (RemLoad i) = Some i"
| "pc_busy pc = None"

fun busy :: "mpmc_sys \<Rightarrow> u32 \<Rightarrow> nat option \<Rightarrow> bool" where
  "busy s i None \<longleftrightarrow> unat i \<in> bs_elems (mpmc_occupied (box s))"
| "busy s i (Some t) \<longleftrightarrow> pc_busy (mthr s t) = Some i"

definition slots_ok :: "mpmc_sys \<Rightarrow> u32 set \<Rightarrow> bool" where
  "slots_ok s H \<longleftrightarrow> (\<forall>i p q. busy s i p \<longrightarrow> busy s i q \<longrightarrow> p = q) \<and> (\<forall>i. i \<in> H \<longleftrightarrow> (\<exists>p. busy s i p))"

definition box_ok :: "u32 \<Rightarrow> mpmc_container \<Rightarrow> bool" where
  "box_ok n c \<longleftrightarrow> bs_wf (mpmc_occupied c) \<and> bs_capacity (mpmc_occupied c) = n \<and> mpmc_capacity c = n \<and>
     length (mpmc_data c) = unat n"

text \<open>The slot has a word in the bitset: for capacity \<open>n\<close> it is below \<open>n\<close> rounded up to a multiple of 64.\<close>

definition bs_covers :: "u32 \<Rightarrow> u32 \<Rightarrow> bool" where
  "bs_covers n i \<longleftrightarrow> unat i div 64 < (unat n + 63) div 64"

fun mpmc_pc_ok :: "u32 \<Rightarrow> mpmc_sys \<Rightarrow> mpmc_pc \<Rightarrow> bool" where
  "mpmc_pc_ok n s (AddAlloc v p) \<longleftrightarrow> (\<exists>q. uis_view (AddAlloc v p) = InAcq q)"
| "mpmc_pc_ok n s (AddMark v i p) \<longleftrightarrow> mpmc_data (box s) ! unat i = v \<and>
     (p = BStart SetBit i \<or> (\<exists>old. p = BLoop SetBit i old \<and> \<not> bit old (unat i mod 64)))"
| "mpmc_pc_ok n s (RemClear i p) \<longleftrightarrow> p = BStart ClearBit i \<or> bs_covers n i \<and> (\<exists>old. p = BLoop ClearBit i old)"
| "mpmc_pc_ok n s (RemFree i v p) \<longleftrightarrow> (\<exists>q. uis_view (RemFree i v p) = InRel q)"
| "mpmc_pc_ok n s (GetLoad i) \<longleftrightarrow> i < n \<and> stored s i \<noteq> []"
| "mpmc_pc_ok n s (GetRet i r) \<longleftrightarrow> (\<forall>v. r = Some v \<longrightarrow> v \<in> set (stored s i))"
| "mpmc_pc_ok n s pc \<longleftrightarrow> True"

text \<open>The slot's bit is set, or was cleared by a thread that has still to load the value.\<close>

definition full :: "mpmc_sys \<Rightarrow> u32 \<Rightarrow> bool" where
  "full s i \<longleftrightarrow> unat i \<in> bs_elems (mpmc_occupied (box s)) \<or> (\<exists>t. mthr s t = RemLoad i)"

definition values_ok :: "u32 \<Rightarrow> mpmc_sys \<Rightarrow> bool" where
  "values_ok n s \<longleftrightarrow> (\<forall>i < n.
     added s i = removed s i @ (if full s i then [mpmc_data (box s) ! unat i] else []) \<and>
     (stored s i \<noteq> [] \<longrightarrow> mpmc_data (box s) ! unat i = last (stored s i)) \<and>
     (\<forall>p. busy s i p \<longrightarrow> stored s i \<noteq> []))"

definition mpmc_inv :: "u32 \<Rightarrow> mpmc_sys \<Rightarrow> uis_sys \<Rightarrow> bool" where
  "mpmc_inv n s u \<longleftrightarrow> uis_reach n u \<and> mpmc_sim s u \<and> box_ok n (box s) \<and> slots_ok s (held u) \<and>
     (\<forall>t. mpmc_pc_ok n s (mthr s t)) \<and> values_ok n s"

lemma unat_inject [simp]: "unat (i :: u32) = unat j \<longleftrightarrow> i = j"
  by (auto simp: unsigned_word_eqI)

lemma slots_okD:
  assumes "slots_ok s H" and "busy s i p"
  shows "i \<in> H" and "busy s i q \<longleftrightarrow> q = p"
  using assms unfolding slots_ok_def by metis+

lemmas mpmc_inv_defs = mpmc_inv_def box_ok_def slots_ok_def values_ok_def

lemma held_bound: "uis_reach n u \<Longrightarrow> i \<in> held u \<Longrightarrow> i < n"
proof -
  assume reach: "uis_reach n u" and i: "i \<in> held u"
  obtain xs where "uis_inv u xs" using uis_reach_inv [OF reach] by blast
  with owners_okD(1) [of u xs i Caller] i show "i < n"
    using uis_reach_capacity [OF reach] by (simp add: uis_inv_def)
qed

lemma mpmc_busy_bound: "mpmc_inv n s u \<Longrightarrow> busy s i p \<Longrightarrow> i < n"
  using held_bound unfolding mpmc_inv_def slots_ok_def by metis

lemma mpmc_busy_stored: "mpmc_inv n s u \<Longrightarrow> busy s i p \<Longrightarrow> stored s i \<noteq> []"
  using mpmc_busy_bound unfolding mpmc_inv_def values_ok_def by metis

lemma full_busy: "full s i \<Longrightarrow> \<exists>p. busy s i p \<and> (p = None \<or> (\<exists>t. p = Some t \<and> mthr s t = RemLoad i))"
  unfolding full_def by (metis busy.simps pc_busy.simps(2))

text \<open>A step that leaves the bits, the data words and the logs alone.\<close>

lemma mpmc_inv_quiet:
  assumes inv: "mpmc_inv n s u" and u': "uis_reach n u'" "mpmc_sim s' u'" "held u' = held u"
    and thr: "mthr s' = (mthr s)(t := pc)" and busy: "pc_busy pc = pc_busy (mthr s t)"
    and load: "pc_busy pc = None \<or> pc = mthr s t \<or> (\<exists>v i p p'. pc = AddMark v i p \<and> mthr s t = AddMark v i p')"
    and box: "mpmc_occupied (box s') = mpmc_occupied (box s)" "mpmc_data (box s') = mpmc_data (box s)"
      "mpmc_capacity (box s') = mpmc_capacity (box s)"
    and logs: "stored s' = stored s" "added s' = added s" "removed s' = removed s"
    and ok: "mpmc_pc_ok n s' pc"
  shows "mpmc_inv n s' u'"
proof -
  have b: "busy s' i p = busy s i p" for i p
    using busy box(1) by (cases p) (auto simp: thr)
  have "(mthr s' x = RemLoad i) = (mthr s x = RemLoad i)" for x i
    using busy load by (cases "x = t"; cases pc; cases "mthr s t") (auto simp: thr)
  then have f: "full s' i = full s i" for i using box(1) by (simp add: full_def)
  have "mpmc_pc_ok n s' q = mpmc_pc_ok n s q" for q
    using box logs by (cases q) auto
  then have "mpmc_pc_ok n s' (mthr s' x)" for x
    using inv ok by (cases "x = t") (auto simp: mpmc_inv_def thr)
  then show ?thesis
    using inv u' box logs by (simp add: mpmc_inv_defs b f)
qed

subsection \<open>The steps on the free list\<close>

lemma log_at_None [simp]: "log_at None f = f"
  by (simp add: log_at_def)

lemma advance_fields [simp]:
  "box (mpmc_advance s t c pc) = c" "mthr (mpmc_advance s t c pc) = (mthr s)(t := pc)"
  "stored (mpmc_advance s t c pc) = log_at (stored_log (mthr s t)) (stored s)"
  "added (mpmc_advance s t c pc) = log_at (added_log (mthr s t) pc) (added s)"
  "removed (mpmc_advance s t c pc) = log_at (removed_log pc) (removed s)"
  by (simp_all add: mpmc_advance_def)

lemma full_split: "full s j \<longleftrightarrow> unat j \<in> bs_elems (mpmc_occupied (box s)) \<or> mthr s t = RemLoad j \<or>
    (\<exists>x. x \<noteq> t \<and> mthr s x = RemLoad j)"
  by (auto simp: full_def)

lemma full_advance: "full (mpmc_advance s t c pc) j \<longleftrightarrow> unat j \<in> bs_elems (mpmc_occupied c) \<or> pc = RemLoad j \<or>
    (\<exists>x. x \<noteq> t \<and> mthr s x = RemLoad j)"
  unfolding full_split [of _ _ t] by auto

lemma alloc_step_frame:
  assumes "alloc_step b c p = (c', p')"
  shows "mpmc_occupied c' = mpmc_occupied c" "mpmc_data c' = mpmc_data c" "mpmc_capacity c' = mpmc_capacity c"
  using assms by (cases p; auto simp: Let_def split: if_splits option.splits)+

lemma free_step_frame:
  assumes "free_step b i c p = (c', p')"
  shows "mpmc_occupied c' = mpmc_occupied c" "mpmc_data c' = mpmc_data c" "mpmc_capacity c' = mpmc_capacity c"
    "p' \<noteq> FrStart"
  using assms by (cases p; auto simp: Let_def split: if_splits option.splits)+

lemma after_alloc_ok: "p \<noteq> AlPanic \<Longrightarrow> mpmc_pc_ok n s (after_alloc v p) \<and> pc_busy (after_alloc v p) = None \<and>
  removed_log (after_alloc v p) = None"
  by (cases "(v, p)" rule: after_alloc.cases) auto

lemma after_free_ok: "p \<noteq> FrPanic \<Longrightarrow> mpmc_pc_ok n s (after_free i v p) \<and> pc_busy (after_free i v p) = None \<and>
  (p \<noteq> FrStart \<longrightarrow> removed_log (after_free i v p) = None)"
  by (cases p) auto

lemma mpmc_inv_alloc:
  assumes inv: "mpmc_inv n s u" and win: "mpmc_window s" and pc: "mthr s t = AddAlloc v p"
    and step: "alloc_step b (box s) p = (c, p')"
  shows "\<exists>u'. mpmc_inv n (mpmc_advance s t c (after_alloc v p')) u'"
proof -
  obtain q where q: "uis_view (AddAlloc v p) = InAcq q"
    using inv pc by (metis mpmc_inv_def mpmc_pc_ok.simps(1))
  have reach: "uis_reach n u" and sim: "mpmc_sim s u" using inv by (simp_all add: mpmc_inv_def)
  obtain u' where u': "uis_reach n u'" "mpmc_sim (mpmc_advance s t c (after_alloc v p')) u'" "held u' = held u"
    and p': "p' \<noteq> AlPanic"
    using sim_alloc [OF reach sim win pc q step] by blast
  note ok = after_alloc_ok [OF p', of n "mpmc_advance s t c (after_alloc v p')" v]
  have "mpmc_inv n (mpmc_advance s t c (after_alloc v p')) u'"
    by (rule mpmc_inv_quiet [OF inv u', where t = t and pc = "after_alloc v p'"])
      (use ok pc alloc_step_frame [OF step] in simp_all)
  then show ?thesis by blast
qed

lemma mpmc_inv_free:
  assumes inv: "mpmc_inv n s u" and win: "mpmc_window s" and pc: "mthr s t = RemFree i v p"
    and step: "free_step b i (box s) p = (c, p')"
  shows "\<exists>u'. mpmc_inv n (mpmc_advance s t c (after_free i v p')) u'"
proof -
  obtain q where q: "uis_view (RemFree i v p) = InRel q"
    using inv pc by (metis mpmc_inv_def mpmc_pc_ok.simps(4))
  have reach: "uis_reach n u" and sim: "mpmc_sim s u" using inv by (simp_all add: mpmc_inv_def)
  obtain u' where u': "uis_reach n u'" "mpmc_sim (mpmc_advance s t c (after_free i v p')) u'" "held u' = held u"
    and p': "p' \<noteq> FrPanic"
    using sim_free [OF reach sim win pc q step] by blast
  note ok = after_free_ok [OF p', of n "mpmc_advance s t c (after_free i v p')" i v]
  have "mpmc_inv n (mpmc_advance s t c (after_free i v p')) u'"
    by (rule mpmc_inv_quiet [OF inv u', where t = t and pc = "after_free i v p'"])
      (use ok pc free_step_frame [OF step] in simp_all)
  then show ?thesis by blast
qed

subsection \<open>The way of a slot\<close>

lemma bs_set_step:
  assumes wf: "bs_wf b" and i: "i < bs_capacity b" "unat i \<notin> bs_elems b"
    and p: "p = BStart SetBit i \<or> (\<exists>old. p = BLoop SetBit i old \<and> \<not> bit old (unat i mod 64))"
    and step: "bs_step sp b p = (b', p')"
  obtains old where "b' = b" "p' = BLoop SetBit i old" "\<not> bit old (unat i mod 64)"
  | "p' = BRet SetBit i True" "bs_elems b' = insert (unat i) (bs_elems b)" "bs_wf b'" "bs_capacity b' = bs_capacity b"
proof -
  have w: "unat i div 64 < length (bs_words b)" using bs_word_bound [OF wf i(1)] .
  have clear: "\<not> bit (bs_words b ! (unat i div 64)) (unat i mod 64)"
    using i(2) w by (auto simp: bs_elems_def)
  show ?thesis
  proof (cases "p' = BRet SetBit i True")
    case True
    then have "bs_set i b = Some (True, b')"
      using p step w by (auto simp: bs_set_def Let_def split: if_splits)
    then show ?thesis using that(2) [OF True] bs_set_spec [OF wf i(1)] by auto
  next
    case False
    then show ?thesis using that(1) p step w clear by (auto simp: Let_def split: if_splits)
  qed
qed

lemma bs_clear_step:
  assumes wf: "bs_wf b" and w: "unat i div 64 < length (bs_words b)"
    and p: "p = BStart ClearBit i \<or> (\<exists>old. p = BLoop ClearBit i old)"
    and step: "bs_step sp b p = (b', p')"
  obtains old where "b' = b" "p' = BLoop ClearBit i old"
  | "b' = b" "p' = BRet ClearBit i False"
  | "p' = BRet ClearBit i True" "unat i \<in> bs_elems b" "bs_elems b' = bs_elems b - {unat i}" "bs_wf b'"
    "bs_capacity b' = bs_capacity b"
proof -
  show ?thesis
  proof (cases "p' = BRet ClearBit i True")
    case True
    then have "bs_clear i b = Some (True, b')" "bit (bs_words b ! (unat i div 64)) (unat i mod 64)"
      using p step w by (auto simp: bs_clear_def Let_def split: if_splits)
    moreover from this have "unat i \<in> bs_elems b" using w by (auto simp: bs_elems_def)
    ultimately show ?thesis using that(3) [OF True] bs_clear_spec [OF wf w] by auto
  next
    case False
    then show ?thesis using that(1,2) p step w by (auto simp: Let_def split: if_splits)
  qed
qed

text \<open>The store of the value.\<close>

lemma mpmc_inv_store:
  assumes inv: "mpmc_inv n s u" and win: "mpmc_window s" and pc: "mthr s t = AddStore v i"
  shows "\<exists>u'. unat i < length (mpmc_data (box s)) \<and>
    mpmc_inv n (mpmc_advance s t ((box s)\<lparr>mpmc_data := (mpmc_data (box s))[unat i := v]\<rparr>)
      (AddMark v i (BStart SetBit i))) u'" (is "\<exists>u'. _ \<and> mpmc_inv n ?s' u'")
proof -
  have reach: "uis_reach n u" and sim: "mpmc_sim s u" using inv by (simp_all add: mpmc_inv_def)
  obtain xs where xs: "uis_inv u xs" using uis_reach_inv [OF reach] by blast
  have at: "at_place u xs i (Thread t)" using sim pc by (simp add: mpmc_sim_def)
  then have i: "i < n" "i \<notin> held u"
    using owners_okD(1) [of u xs i "Thread t"] owners_okD(2) [of u xs i "Thread t" Caller] xs uis_reach_capacity [OF reach]
    by (auto simp: uis_inv_def)
  then have len: "unat i < length (mpmc_data (box s))"
    using inv by (simp add: mpmc_inv_defs word_less_nat_alt)
  obtain u' where u': "uis_reach n u'" "held u' = insert i (held u)" "mpmc_sim ?s' u'"
    using sim_hand_out [OF reach sim win pc] by blast
  have free: "\<not> busy s i p" for p using inv i(2) by (auto simp: mpmc_inv_defs)
  have b: "busy ?s' j p \<longleftrightarrow> (if j = i then p = Some t else busy s j p)" for j p
    using free [of p] pc by (cases p) auto
  have slots: "slots_ok ?s' (held u')" unfolding slots_ok_def b u'(2)
    using inv by (auto simp: mpmc_inv_defs)
  have f: "full ?s' j = full s j" for j using pc by (simp add: full_advance full_split [of s j t])
  have nf: "\<not> full s i" using free full_busy by blast
  have vals: "values_ok n ?s'"
    using inv len nf unfolding values_ok_def f b
    by (auto simp: mpmc_inv_defs pc log_at_def nth_list_update)
  have "mpmc_pc_ok n ?s' (mthr s x)" if "x \<noteq> t" for x
  proof -
    have "mpmc_pc_ok n s (mthr s x)" using inv by (simp add: mpmc_inv_def)
    moreover have "pc_busy (mthr s x) \<noteq> Some i" using free [of "Some x"] by simp
    ultimately show ?thesis using len
      by (cases "mthr s x") (auto simp: pc log_at_def nth_list_update)
  qed
  then have "mpmc_pc_ok n ?s' (mthr ?s' x)" for x using len by (cases "x = t") auto
  then have "mpmc_inv n ?s' u'"
    using inv u' slots vals by (simp add: mpmc_inv_def box_ok_def)
  with len show ?thesis by blast
qed

text \<open>The bit is set: the slot goes from the thread to the bit, and the value is added.\<close>

lemma mpmc_inv_marked:
  assumes inv: "mpmc_inv n s u" and pc: "mthr s t = AddMark v i p"
    and occ: "bs_elems occ = insert (unat i) (bs_elems (mpmc_occupied (box s)))" "bs_wf occ" "bs_capacity occ = n"
  shows "mpmc_inv n (mpmc_advance s t ((box s)\<lparr>mpmc_occupied := occ\<rparr>) (AddRet (Some i))) u" (is "mpmc_inv n ?s' u")
proof -
  have own: "busy s i (Some t)" using pc by simp
  have only: "busy s i q \<longleftrightarrow> q = Some t" for q using inv slots_okD(2) [OF _ own] by (auto simp: mpmc_inv_def)
  have b: "busy ?s' j q \<longleftrightarrow> (if j = i then q = None else busy s j q)" for j q
    using only [of q] occ(1) pc by (cases q) auto
  have "i \<in> held u" using inv slots_okD(1) [OF _ own] by (simp add: mpmc_inv_def)
  then have slots: "slots_ok ?s' (held u)" using inv unfolding slots_ok_def b by (auto simp: mpmc_inv_defs)
  have f: "full ?s' j \<longleftrightarrow> j = i \<or> full s j" for j using occ(1) pc by (auto simp: full_advance full_split [of s j t])
  have nf: "\<not> full s i"
  proof
    assume "full s i"
    from full_busy [OF this] show False using only pc by auto
  qed
  have "mpmc_data (box s) ! unat i = v" using inv pc by (metis mpmc_inv_def mpmc_pc_ok.simps(2))
  then have vals: "values_ok n ?s'"
    using inv nf mpmc_busy_stored [OF inv own] unfolding values_ok_def f b by (auto simp: mpmc_inv_defs pc log_at_def)
  have "mpmc_pc_ok n ?s' q = mpmc_pc_ok n s q" for q by (cases q) (auto simp: pc)
  then have "mpmc_pc_ok n ?s' (mthr ?s' x)" for x using inv by (auto simp: mpmc_inv_def)
  moreover have "mpmc_sim ?s' u"
    using inv by (intro mpmc_sim_stutter) (auto simp: mpmc_inv_def pc)
  ultimately show ?thesis using inv slots vals occ by (simp add: mpmc_inv_def box_ok_def)
qed

text \<open>The bit is cleared: the slot goes from the bit to the thread.\<close>

lemma mpmc_inv_cleared:
  assumes inv: "mpmc_inv n s u" and pc: "mthr s t = RemClear i p" and i: "unat i \<in> bs_elems (mpmc_occupied (box s))"
    and occ: "bs_elems occ = bs_elems (mpmc_occupied (box s)) - {unat i}" "bs_wf occ" "bs_capacity occ = n"
  shows "mpmc_inv n (mpmc_advance s t ((box s)\<lparr>mpmc_occupied := occ\<rparr>) (RemLoad i)) u" (is "mpmc_inv n ?s' u")
proof -
  have own: "busy s i None" using i by simp
  have only: "busy s i q \<longleftrightarrow> q = None" for q using inv slots_okD(2) [OF _ own] by (auto simp: mpmc_inv_def)
  have b: "busy ?s' j q \<longleftrightarrow> (if j = i then q = Some t else busy s j q)" for j q
    using only [of q] occ(1) pc by (cases q) auto
  have "i \<in> held u" using inv slots_okD(1) [OF _ own] by (simp add: mpmc_inv_def)
  then have slots: "slots_ok ?s' (held u)" using inv unfolding slots_ok_def b by (auto simp: mpmc_inv_defs)
  have f: "full ?s' j = full s j" for j using occ(1) i pc by (auto simp: full_advance full_split [of s j t])
  have vals: "values_ok n ?s'"
    using inv mpmc_busy_stored [OF inv own] unfolding values_ok_def f b by (auto simp: mpmc_inv_defs pc)
  have "mpmc_pc_ok n ?s' q = mpmc_pc_ok n s q" for q by (cases q) (auto simp: pc)
  then have "mpmc_pc_ok n ?s' (mthr ?s' x)" for x using inv by (auto simp: mpmc_inv_def)
  moreover have "mpmc_sim ?s' u"
    using inv by (intro mpmc_sim_stutter) (auto simp: mpmc_inv_def pc)
  ultimately show ?thesis using inv slots vals occ by (simp add: mpmc_inv_def box_ok_def)
qed

text \<open>The value is loaded: it is removed, and the slot leaves for the free list.\<close>

lemma mpmc_inv_taken:
  assumes inv: "mpmc_inv n s u" and win: "mpmc_window s" and pc: "mthr s t = RemLoad i"
  shows "\<exists>u'. unat i < length (mpmc_data (box s)) \<and>
    mpmc_inv n (mpmc_advance s t (box s) (RemFree i (mpmc_data (box s) ! unat i) FrStart)) u'"
    (is "\<exists>u'. _ \<and> mpmc_inv n ?s' u'")
proof -
  have reach: "uis_reach n u" and sim: "mpmc_sim s u" using inv by (simp_all add: mpmc_inv_def)
  have own: "busy s i (Some t)" using pc by simp
  then have held: "i \<in> held u" and i: "i < n" using inv slots_okD(1) [OF _ own] mpmc_busy_bound [OF inv own] by (auto simp: mpmc_inv_def)
  have only: "busy s i q \<longleftrightarrow> q = Some t" for q using inv slots_okD(2) [OF _ own] by (auto simp: mpmc_inv_def)
  obtain u' where u': "uis_reach n u'" "held u' = held u - {i}" "mpmc_sim ?s' u'"
    using sim_take_back [OF reach sim win pc held] by blast
  have b: "busy ?s' j q \<longleftrightarrow> j \<noteq> i \<and> busy s j q" for j q
    using only [of q] pc by (cases q) auto
  have slots: "slots_ok ?s' (held u')" using inv unfolding slots_ok_def b u'(2) by (auto simp: mpmc_inv_defs)
  have "mthr s x \<noteq> RemLoad i" if "x \<noteq> t" for x using only [of "Some x"] that by auto
  then have f: "full ?s' j \<longleftrightarrow> j \<noteq> i \<and> full s j" for j
    using only [of None] pc by (auto simp: full_advance full_split [of s j t])
  have fi: "full s i" using pc by (auto simp: full_def)
  have vals: "values_ok n ?s'"
    using inv fi unfolding values_ok_def f b by (auto simp: mpmc_inv_defs pc log_at_def)
  have "mpmc_pc_ok n ?s' q = mpmc_pc_ok n s q" for q by (cases q) (auto simp: pc)
  then have "mpmc_pc_ok n ?s' (mthr ?s' x)" for x using inv by (auto simp: mpmc_inv_def)
  then have "mpmc_inv n ?s' u'" using inv u' slots vals by (simp add: mpmc_inv_def)
  moreover have "unat i < length (mpmc_data (box s))" using inv i by (simp add: mpmc_inv_defs word_less_nat_alt)
  ultimately show ?thesis by blast
qed

subsection \<open>Every step keeps the invariant\<close>

lemma mpmc_inv_set_step:
  assumes inv: "mpmc_inv n s u" and pc: "mthr s t = AddMark v i p"
    and step: "bs_step b (mpmc_occupied (box s)) p = (occ, p')"
  shows "mpmc_inv n (mpmc_advance s t ((box s)\<lparr>mpmc_occupied := occ\<rparr>) (after_set v i p')) u"
proof -
  have own: "busy s i (Some t)" using pc by simp
  have occ: "bs_wf (mpmc_occupied (box s))" "bs_capacity (mpmc_occupied (box s)) = n" and sim: "mpmc_sim s u"
    and reach: "uis_reach n u" and ok: "mpmc_pc_ok n s (AddMark v i p)"
    using inv pc [symmetric] by (auto simp: mpmc_inv_def box_ok_def)
  have i: "i < n" using mpmc_busy_bound [OF inv own] .
  have clear: "unat i \<notin> bs_elems (mpmc_occupied (box s))"
    using inv slots_okD(2) [OF _ own, of _ None] by (auto simp: mpmc_inv_def)
  have p: "p = BStart SetBit i \<or> (\<exists>old. p = BLoop SetBit i old \<and> \<not> bit old (unat i mod 64))"
    using ok by simp
  from occ(1) i [folded occ(2)] clear p step show ?thesis
  proof (cases rule: bs_set_step)
    case (1 old)
    have "mpmc_sim (mpmc_advance s t ((box s)\<lparr>mpmc_occupied := occ\<rparr>) (after_set v i p')) u"
      by (rule mpmc_sim_stutter [OF sim]) (use 1 pc in simp_all)
    then show ?thesis
      by (rule mpmc_inv_quiet [OF inv reach _ refl, where t = t and pc = "AddMark v i p'"])
        (use 1 pc ok in simp_all)
  next
    case 2
    then show ?thesis using mpmc_inv_marked [OF inv pc 2(2,3)] occ(2) by simp
  qed
qed

lemma mpmc_inv_clear_step:
  assumes inv: "mpmc_inv n s u" and pc: "mthr s t = RemClear i p"
    and step: "bs_step b (mpmc_occupied (box s)) p = (occ, p')"
  shows "mpmc_inv n (mpmc_advance s t ((box s)\<lparr>mpmc_occupied := occ\<rparr>) (after_clear i p')) u"
proof -
  have occ: "bs_wf (mpmc_occupied (box s))" "bs_capacity (mpmc_occupied (box s)) = n" and sim: "mpmc_sim s u"
    and reach: "uis_reach n u" and ok: "mpmc_pc_ok n s (RemClear i p)"
    using inv pc [symmetric] by (auto simp: mpmc_inv_def box_ok_def)
  have p: "p = BStart ClearBit i \<or> (\<exists>old. p = BLoop ClearBit i old)" using ok by auto
  have words: "unat i div 64 < length (bs_words (mpmc_occupied (box s))) \<longleftrightarrow> bs_covers n i"
    using occ by (simp add: bs_wf_def bs_covers_def)
  have quiet: "mpmc_inv n (mpmc_advance s t ((box s)\<lparr>mpmc_occupied := occ\<rparr>) pc') u"
    if "occ = mpmc_occupied (box s)"
      "pc' = RemRet None \<or> pc' = MPanic \<or> bs_covers n i \<and> (\<exists>old. pc' = RemClear i (BLoop ClearBit i old))" for pc'
  proof -
    have "mpmc_sim (mpmc_advance s t ((box s)\<lparr>mpmc_occupied := occ\<rparr>) pc') u"
      by (rule mpmc_sim_stutter [OF sim]) (use that pc in auto)
    then show ?thesis
      by (rule mpmc_inv_quiet [OF inv reach _ refl, where t = t and pc = pc']) (use that pc in auto)
  qed
  show ?thesis
  proof (cases "bs_covers n i")
    case True
    from occ(1) True [folded words] p step show ?thesis
    proof (cases rule: bs_clear_step)
      case (1 old)
      then show ?thesis using quiet True by simp
    next
      case 2
      then show ?thesis using quiet by simp
    next
      case 3
      then show ?thesis using mpmc_inv_cleared [OF inv pc 3(2,3,4)] occ(2) by simp
    qed
  next
    case False
    then have "p = BStart ClearBit i" using ok by simp
    moreover have "idx (bs_words (mpmc_occupied (box s))) (unat i div 64) = None" using False words by simp
    ultimately show ?thesis using quiet step by auto
  qed
qed

lemma mpmc_inv_get_step:
  assumes inv: "mpmc_inv n s u" and pc: "mthr s t = GetTest i \<or> mthr s t = GetLoad i"
    and step: "mpmc_thread_step b (box s) (mthr s t) = (c, pc')"
  shows "mpmc_inv n (mpmc_advance s t c pc') u"
proof -
  have occ: "bs_wf (mpmc_occupied (box s))" "bs_capacity (mpmc_occupied (box s)) = n" and sim: "mpmc_sim s u"
    and reach: "uis_reach n u" and ok: "mpmc_pc_ok n s (mthr s t)" and len: "length (mpmc_data (box s)) = unat n"
    using inv by (auto simp: mpmc_inv_def box_ok_def)
  have words: "unat i div 64 < length (bs_words (mpmc_occupied (box s))) \<longleftrightarrow> bs_covers n i"
    using occ by (simp add: bs_wf_def bs_covers_def)
  have set: "stored s i \<noteq> []" "i < n" if "unat i \<in> bs_elems (mpmc_occupied (box s))"
    using mpmc_busy_stored [OF inv, of i None] mpmc_busy_bound [OF inv, of i None] that by simp_all
  have last: "mpmc_data (box s) ! unat i = last (stored s i)" "unat i < length (mpmc_data (box s))"
    if "stored s i \<noteq> []" "i < n"
    using inv that len by (auto simp: mpmc_inv_def values_ok_def word_less_nat_alt)
  have test: "bs_is_set i (mpmc_occupied (box s)) =
      (if bs_covers n i then Some (unat i \<in> bs_elems (mpmc_occupied (box s))) else None)"
    using bs_is_set_spec [of i "mpmc_occupied (box s)"] bs_out_of_words(3) [of "mpmc_occupied (box s)" i] words by auto
  have new: "c = box s" "pc' = GetLoad i \<and> stored s i \<noteq> [] \<and> i < n \<or> pc' = GetRet i None \<or> pc' = MPanic \<or>
      (\<exists>v. pc' = GetRet i (Some v) \<and> v \<in> set (stored s i))"
    using pc step ok set last test by (auto split: if_splits)
  have "mpmc_sim (mpmc_advance s t c pc') u"
    by (rule mpmc_sim_stutter [OF sim]) (use new pc in auto)
  moreover have "stored_log (mthr s t) = None" "added_log (mthr s t) pc' = None" "removed_log pc' = None" using pc new by auto
  ultimately show ?thesis
    by (intro mpmc_inv_quiet [OF inv reach _ refl, where t = t and pc = pc']) (use new pc in auto)
qed

lemma mpmc_inv_run:
  assumes inv: "mpmc_inv n s u" and win: "mpmc_window s" and busy: "\<not> mpmc_done (mthr s t)" "mthr s t \<noteq> MIdle"
    and step: "mpmc_thread_step b (box s) (mthr s t) = (c, pc)"
  shows "\<exists>u'. mpmc_inv n (mpmc_advance s t c pc) u'"
proof (cases "mthr s t")
  case (AddAlloc v p)
  obtain c' p' where p': "alloc_step b (box s) p = (c', p')" by fastforce
  then show ?thesis using mpmc_inv_alloc [OF inv win AddAlloc p'] step AddAlloc by simp
next
  case (AddStore v i)
  then show ?thesis using mpmc_inv_store [OF inv win AddStore] step by auto
next
  case (AddMark v i p)
  obtain occ p' where p': "bs_step b (mpmc_occupied (box s)) p = (occ, p')" by fastforce
  then show ?thesis using mpmc_inv_set_step [OF inv AddMark p'] step AddMark by auto
next
  case (RemClear i p)
  obtain occ p' where p': "bs_step b (mpmc_occupied (box s)) p = (occ, p')" by fastforce
  then show ?thesis using mpmc_inv_clear_step [OF inv RemClear p'] step RemClear by auto
next
  case (RemLoad i)
  then show ?thesis using mpmc_inv_taken [OF inv win RemLoad] step by auto
next
  case (RemFree i v p)
  obtain c' p' where p': "free_step b i (box s) p = (c', p')" by fastforce
  then show ?thesis using mpmc_inv_free [OF inv win RemFree p'] step RemFree by simp
next
  case (GetTest i)
  then show ?thesis using mpmc_inv_get_step [OF inv _ step] by blast
next
  case (GetLoad i)
  then show ?thesis using mpmc_inv_get_step [OF inv _ step] by blast
next
  case MPanic
  have sim: "mpmc_sim s u" "uis_reach n u" using inv by (simp_all add: mpmc_inv_def)
  have new: "c = box s" "pc = MPanic" using step MPanic by simp_all
  have "mpmc_sim (mpmc_advance s t c pc) u" by (rule mpmc_sim_stutter [OF sim(1)]) (use new MPanic in simp_all)
  from mpmc_inv_quiet [OF inv sim(2) this refl, of t pc] show ?thesis using new MPanic by auto
qed (use busy in auto)

lemma mpmc_inv_call:
  assumes inv: "mpmc_inv n s u" and win: "mpmc_window s" and idle: "mthr s t = MIdle"
    and pc: "pc = AddAlloc v AlStart \<or> pc = RemClear i (BStart ClearBit i) \<or> pc = GetTest i"
  shows "\<exists>u'. mpmc_inv n (mpmc_call t pc s) u'"
proof -
  have reach: "uis_reach n u" and sim: "mpmc_sim s u" using inv by (simp_all add: mpmc_inv_def)
  have "pc = AddAlloc v AlStart \<or> uis_view pc = Idle" using pc by auto
  from sim_call [OF reach sim win idle this] obtain u' where
    "uis_reach n u'" "mpmc_sim (mpmc_call t pc s) u'" "held u' = held u" by blast
  from mpmc_inv_quiet [OF inv this, of t pc] pc idle show ?thesis by (auto simp: mpmc_call_def)
qed

lemma mpmc_inv_step:
  assumes "mpmc_step s s'" and "mpmc_window s" and "mpmc_inv n s u"
  shows "\<exists>u'. mpmc_inv n s' u'"
  using assms
proof (induction rule: mpmc_step.induct)
  case (run s t b c pc)
  then show ?case using mpmc_inv_run by blast
next
  case (return s t)
  have reach: "uis_reach n u" and sim: "mpmc_sim s u" using return.prems by (simp_all add: mpmc_inv_def)
  from sim_return [OF reach sim return.prems(1) return.hyps] obtain u' where
    "uis_reach n u'" "mpmc_sim (s\<lparr>mthr := (mthr s)(t := MIdle)\<rparr>) u'" "held u' = held u" by blast
  from mpmc_inv_quiet [OF return.prems(2) this, of t MIdle] return.hyps show ?case
    by (cases "mthr s t") auto
next
  case (call_add s t v)
  then show ?case using mpmc_inv_call by auto
next
  case (call_remove s t i)
  then show ?case using mpmc_inv_call by auto
next
  case (call_get s t i)
  then show ?case using mpmc_inv_call by auto
qed

lemma mpmc_inv_start:
  assumes new: "mpmc_new n = Some c" and n: "n < SENTINEL"
  shows "\<exists>u. mpmc_inv n (mpmc_start c) u"
proof -
  have "0 < n" using new by (auto simp: mpmc_new_def split: if_splits)
  then have uis: "uis_new n = Some (uis_part c 0)"
    using new n by (auto simp: uis_new_def mpmc_new_def uis_part_def mpmc_pack_uis split: if_splits)
  have "mpmc_occupied c = bs_new n" "length (mpmc_data c) = unat n" "mpmc_capacity c = n"
    using new by (auto simp: mpmc_new_def split: if_splits)
  moreover have "\<not> busy (mpmc_start c) i p" for i p
    using calculation(1) by (cases p) (simp_all add: mpmc_start_def)
  moreover have "mpmc_sim (mpmc_start c) (uis_init (uis_part c 0))"
    by (auto simp: mpmc_sim_def mpmc_start_def uis_init_def)
  moreover have "\<not> full (mpmc_start c) i" for i
    using calculation(1) by (simp add: full_def mpmc_start_def)
  moreover have "bs_capacity (bs_new n) = n" by (simp add: bs_new_def)
  ultimately have "mpmc_inv n (mpmc_start c) (uis_init (uis_part c 0))"
    using uis_reach.init [OF uis] bs_new_wf [of n]
    by (simp add: mpmc_inv_defs) (simp add: mpmc_start_def uis_init_def)
  then show ?thesis by blast
qed

lemma mpmc_reach_inv: "mpmc_reach n s \<Longrightarrow> n < SENTINEL \<Longrightarrow> \<exists>u. mpmc_inv n s u"
proof (induction rule: mpmc_reach.induct)
  case (mpmc_init c)
  then show ?case using mpmc_inv_start by blast
next
  case (mpmc_next s s')
  then show ?case using mpmc_inv_step by blast
qed

subsection \<open>What threads can rely on\<close>

text \<open>Where a slot is: on the free list, with a thread that is adding a value to it, marked as occupied,
  or with a thread that is removing its value.\<close>

datatype slot_place = SFree | SAdding nat | SOccupied | SRemoving nat

fun pc_adds :: "mpmc_pc \<Rightarrow> u32 option" where
  "pc_adds (AddStore v i) = Some i"
| "pc_adds (AddMark v i p) = Some i"
| "pc_adds pc = None"

fun pc_removes :: "mpmc_pc \<Rightarrow> u32 option" where
  "pc_removes (RemLoad i) = Some i"
| "pc_removes (RemFree i v p) = Some i"
| "pc_removes pc = None"

fun slot_at :: "mpmc_sys \<Rightarrow> u32 \<Rightarrow> slot_place \<Rightarrow> bool" where
  "slot_at s i SFree \<longleftrightarrow> i \<in> set (mpmc_free (box s))"
| "slot_at s i (SAdding t) \<longleftrightarrow> pc_adds (mthr s t) = Some i"
| "slot_at s i SOccupied \<longleftrightarrow> unat i \<in> bs_elems (mpmc_occupied (box s))"
| "slot_at s i (SRemoving t) \<longleftrightarrow> pc_removes (mthr s t) = Some i"

text \<open>The place of the slot in the index set that runs along.\<close>

fun uis_place :: "mpmc_sys \<Rightarrow> slot_place \<Rightarrow> place" where
  "uis_place s SFree = FreeList"
| "uis_place s SOccupied = Caller"
| "uis_place s (SAdding t) = (if pc_busy (mthr s t) = None then Thread t else Caller)"
| "uis_place s (SRemoving t) = (if pc_busy (mthr s t) = None then Thread t else Caller)"

lemma mpmc_free_uis: "uis_free (uis_part c k) = mpmc_free c"
  by (simp add: uis_free_def mpmc_free_def mpmc_pack_uis)

lemma busy_held: "mpmc_inv n s u \<Longrightarrow> busy s i q \<Longrightarrow> i \<in> held u"
  unfolding mpmc_inv_def using slots_okD(1) by blast

text \<open>The holder of a slot that the index set has handed out.\<close>

fun slot_holder :: "slot_place \<Rightarrow> nat option" where
  "slot_holder (SAdding t) = Some t"
| "slot_holder (SRemoving t) = Some t"
| "slot_holder P = None"

lemma slot_at_busy: "slot_at s i P \<Longrightarrow> uis_place s P = Caller \<Longrightarrow> busy s i (slot_holder P)"
  by (cases "(s, P)" rule: uis_place.cases) (auto split: if_splits elim!: pc_adds.elims pc_removes.elims)

lemma slot_at_holder: "slot_at s i P \<Longrightarrow> slot_at s i Q \<Longrightarrow> slot_holder P = slot_holder Q \<Longrightarrow>
    P = SFree \<longleftrightarrow> Q = SFree \<Longrightarrow> P = Q"
  by (cases P; cases Q) (auto elim!: pc_adds.elims pc_removes.elims)

lemma slot_at_place:
  assumes inv: "mpmc_inv n s u" and at: "slot_at s i P"
  shows "at_place u (mpmc_free (box s)) i (uis_place s P)"
proof -
  have thr: "thr u t = uis_view (mthr s t)" for t using inv by (simp add: mpmc_inv_def mpmc_sim_def)
  have ok: "mpmc_pc_ok n s (mthr s t)" for t using inv by (simp add: mpmc_inv_def)
  show ?thesis
  proof (cases P)
    case (SAdding t)
    then show ?thesis using at busy_held [OF inv, of i "Some t"] by (cases "mthr s t") (auto simp: thr)
  next
    case (SRemoving t)
    then show ?thesis
      using at ok [of t] busy_held [OF inv, of i "Some t"] by (cases "mthr s t" rule: uis_view.cases) (auto simp: thr)
  next
    case SOccupied
    then show ?thesis using at busy_held [OF inv, of i None] by simp
  qed (use at in simp)
qed

lemma slot_at_unique:
  assumes inv: "mpmc_inv n s u" and at: "slot_at s i P" "slot_at s i Q" and eq: "uis_place s P = uis_place s Q"
  shows "P = Q"
proof (cases "uis_place s P = Caller")
  case True
  then have "slot_holder P = slot_holder Q"
    using slots_okD(2) slot_at_busy [OF at(1)] slot_at_busy [OF at(2)] eq inv unfolding mpmc_inv_def by metis
  then show ?thesis using True eq slot_at_holder [OF at] by (metis place.distinct(1) uis_place.simps(1))
next
  case False
  then have "slot_holder P = slot_holder Q" "P = SFree \<longleftrightarrow> Q = SFree"
    using eq by (cases P; cases Q; auto split: if_splits)+
  then show ?thesis using slot_at_holder [OF at] by blast
qed

lemma slot_at_exists:
  assumes inv: "mpmc_inv n s u" and at: "at_place u (mpmc_free (box s)) i p"
  shows "\<exists>P. slot_at s i P"
proof (cases p)
  case FreeList
  then show ?thesis using at by (intro exI [of _ SFree]) simp
next
  case Caller
  then obtain q where q: "busy s i q" using inv at by (auto simp: mpmc_inv_def slots_ok_def)
  show ?thesis
  proof (cases q)
    case None
    then show ?thesis using q by (intro exI [of _ SOccupied]) simp
  next
    case (Some t)
    then have "slot_at s i (SAdding t) \<or> slot_at s i (SRemoving t)" using q by (cases "mthr s t") auto
    then show ?thesis by blast
  qed
next
  case (Thread t)
  then have "pc_owns (uis_view (mthr s t)) = Some i" using at inv by (simp add: mpmc_inv_def mpmc_sim_def)
  then have "slot_at s i (SAdding t) \<or> slot_at s i (SRemoving t)"
    by (cases "mthr s t" rule: uis_view.cases) auto
  then show ?thesis by blast
qed

lemma mpmc_inv_owners:
  assumes "mpmc_inv n s u"
  shows "owners_ok u (mpmc_free (box s))" and "uis_capacity (shared u) = n" and "uis_inv u (mpmc_free (box s))"
proof -
  have reach: "uis_reach n u" and sim: "mpmc_sim s u" using assms by (simp_all add: mpmc_inv_def)
  obtain xs where xs: "uis_inv u xs" using uis_reach_inv [OF reach] by blast
  moreover have "xs = mpmc_free (box s)"
    using uis_inv_free [OF xs] sim mpmc_free_uis by (auto simp: mpmc_sim_def)
  ultimately show "uis_inv u (mpmc_free (box s))" "owners_ok u (mpmc_free (box s))" by (simp_all add: uis_inv_def)
  show "uis_capacity (shared u) = n" using uis_reach_capacity [OF reach] .
qed

subsection \<open>Which values were added, and who panics\<close>

text \<open>A thread panics only inside a call on a slot that has no word in the bitset.\<close>

lemma mpmc_run_panic:
  assumes inv: "mpmc_inv n s u" and win: "mpmc_window s" and calm: "mthr s t \<noteq> MPanic"
    and step: "mpmc_thread_step b (box s) (mthr s t) = (c, MPanic)"
  shows "\<exists>i. pc_slot (mthr s t) = Some i \<and> \<not> bs_covers n i"
proof -
  have reach: "uis_reach n u" and sim: "mpmc_sim s u" and ok: "mpmc_pc_ok n s (mthr s t)"
    and occ: "bs_wf (mpmc_occupied (box s))" "bs_capacity (mpmc_occupied (box s)) = n"
    and len: "length (mpmc_data (box s)) = unat n"
    using inv by (auto simp: mpmc_inv_def box_ok_def)
  have words: "bs_covers n i \<longleftrightarrow> unat i div 64 < length (bs_words (mpmc_occupied (box s)))" for i
    using occ by (simp add: bs_wf_def bs_covers_def)
  show ?thesis
  proof (cases "mthr s t")
    case (AddAlloc v p)
    obtain c' p' where p': "alloc_step b (box s) p = (c', p')" by fastforce
    obtain q where "uis_view (AddAlloc v p) = InAcq q" using ok AddAlloc by auto
    from sim_alloc(1) [OF reach sim win AddAlloc this p'] show ?thesis
      using step AddAlloc p' by (cases "(v, p')" rule: after_alloc.cases) auto
  next
    case (AddStore v i)
    then show ?thesis using mpmc_inv_store [OF inv win AddStore] step by auto
  next
    case (AddMark v i p)
    have own: "busy s i (Some t)" using AddMark by simp
    have i: "i < n" using mpmc_busy_bound [OF inv own] .
    then have "bs_covers n i" using bs_word_bound [OF occ(1)] occ(2) words by simp
    then show ?thesis using step AddMark ok words by (auto simp: Let_def split: if_splits)
  next
    case (RemClear i p)
    then show ?thesis using step ok words by (auto simp: Let_def split: if_splits option.splits)
  next
    case (RemLoad i)
    then show ?thesis using mpmc_inv_taken [OF inv win RemLoad] step by auto
  next
    case (RemFree i v p)
    obtain c' p' where p': "free_step b i (box s) p = (c', p')" by fastforce
    obtain q where "uis_view (RemFree i v p) = InRel q" using ok RemFree by auto
    from sim_free(1) [OF reach sim win RemFree this p'] show ?thesis
      using step RemFree p' by (cases p') auto
  next
    case (GetTest i)
    then show ?thesis using step words bs_is_set_spec [of i "mpmc_occupied (box s)"] by (auto split: option.splits if_splits)
  next
    case (GetLoad i)
    then show ?thesis using step ok len by (auto simp: word_less_nat_alt split: option.splits)
  qed (use step calm in simp_all)
qed

text \<open>A thread in \<open>remove\<close> or \<open>get\<close> works on the slot it was given; a value that was stored was added, or its
  \<open>add\<close> is about to set the bit.\<close>

definition calls_ok :: "u32 \<Rightarrow> mpmc_sys \<Rightarrow> bool" where
  "calls_ok n s \<longleftrightarrow> (\<forall>t i. pc_slot (mthr s t) = Some i \<longrightarrow> mslot s t = Some i) \<and>
     (\<forall>t. mthr s t = MPanic \<longrightarrow> (\<exists>i. mslot s t = Some i \<and> \<not> bs_covers n i)) \<and>
     (\<forall>i v. v \<in> set (stored s i) \<longrightarrow> v \<in> set (added s i) \<or> (\<exists>t p. mthr s t = AddMark v i p))"

lemma after_slot:
  "pc_slot (after_alloc v p) = None" "pc_slot (after_set v i q) = None" "pc_slot (after_free i v r) = None"
  "pc_slot (after_clear i q) = Some j \<Longrightarrow> j = i"
  by ((cases "(v, p)" rule: after_alloc.cases; simp), (cases q; simp), (cases r; simp), (cases q; simp split: if_splits))

lemma thread_step_slot:
  assumes "mpmc_thread_step b c pc = (c', pc')" and "pc_slot pc' = Some i"
  shows "pc_slot pc = Some i"
proof -
  obtain c1 p1 c2 p2 where "alloc_step b c (case pc of AddAlloc v p \<Rightarrow> p | _ \<Rightarrow> AlStart) = (c1, p1)"
      "free_step b (case pc of RemFree j v p \<Rightarrow> j | _ \<Rightarrow> 0) c (case pc of RemFree j v p \<Rightarrow> p | _ \<Rightarrow> FrStart) = (c2, p2)"
    by fastforce
  then show ?thesis
    using assms by (cases "(b, c, pc)" rule: mpmc_thread_step.cases)
      (auto simp: after_slot split: prod.splits option.splits if_splits dest: after_slot(4))
qed

lemma thread_step_mark:
  assumes "mpmc_thread_step b c (AddMark v i p) = (c', pc')"
  shows "pc' = MPanic \<or> (\<exists>p'. pc' = AddMark v i p') \<or> added_log (AddMark v i p) pc' = Some (i, v)"
proof -
  obtain occ q where "bs_step b (mpmc_occupied c) p = (occ, q)" by fastforce
  then show ?thesis using assms by (cases q) auto
qed

lemma thread_step_store:
  assumes "mpmc_thread_step b c (AddStore v i) = (c', pc')" and "pc' \<noteq> MPanic"
  shows "\<exists>p. pc' = AddMark v i p"
  using assms by (auto split: option.splits)

lemma log_at_set: "set (log_at e f i) = set (f i) \<union> {v. e = Some (i, v)}"
  by (auto simp: log_at_def split: option.splits)

lemma calls_ok_run:
  assumes calls: "calls_ok n s" and inv: "mpmc_inv n s u" and win: "mpmc_window s"
    and step: "mpmc_thread_step b (box s) (mthr s t) = (c, pc)"
  shows "calls_ok n (mpmc_advance s t c pc)" (is "calls_ok n ?s'")
proof -
  have slot: "mslot ?s' = mslot s" by (simp add: mpmc_advance_def)
  have panic: "\<exists>i. mslot s t = Some i \<and> \<not> bs_covers n i" if "pc = MPanic"
    using mpmc_run_panic [OF inv win, of t b c] step that calls unfolding calls_ok_def by blast
  have kept: "v \<in> set (added ?s' i) \<or> (\<exists>x p. mthr ?s' x = AddMark v i p)"
    if old: "v \<in> set (added s i) \<or> (\<exists>x p. mthr s x = AddMark v i p)" for v i
  proof -
    consider "v \<in> set (added s i)" | x p where "mthr s x = AddMark v i p" "x \<noteq> t" | p where "mthr s t = AddMark v i p"
      using old by metis
    then show ?thesis
    proof cases
      case (3 p)
      then have "pc \<noteq> MPanic" using mpmc_run_panic [OF inv win, of t b c] step by auto
      with 3 thread_step_mark [of b "box s" v i p c pc] step show ?thesis by (auto simp: log_at_set)
    qed (auto simp: log_at_set)
  qed
  have "v \<in> set (added ?s' i) \<or> (\<exists>x p. mthr ?s' x = AddMark v i p)" if "v \<in> set (stored ?s' i)" for v i
  proof (cases "v \<in> set (stored s i)")
    case True
    then show ?thesis using kept calls unfolding calls_ok_def by blast
  next
    case False
    then have at: "mthr s t = AddStore v i" using that by (auto simp: log_at_set elim!: stored_log.elims)
    then have "pc \<noteq> MPanic" using mpmc_run_panic [OF inv win, of t b c] step by auto
    then obtain p where "pc = AddMark v i p" using thread_step_store [of b "box s" v i c pc] step at by auto
    then have "mthr ?s' t = AddMark v i p" by simp
    then show ?thesis by blast
  qed
  moreover have "mslot ?s' x = Some i" if "pc_slot (mthr ?s' x) = Some i" for x i
    using that calls thread_step_slot [OF step] slot by (cases "x = t") (auto simp: calls_ok_def)
  moreover have "\<exists>i. mslot ?s' x = Some i \<and> \<not> bs_covers n i" if "mthr ?s' x = MPanic" for x
    using that panic calls slot by (cases "x = t") (auto simp: calls_ok_def)
  ultimately show ?thesis unfolding calls_ok_def by blast
qed

lemma calls_ok_other:
  assumes "calls_ok n s" and "mpmc_done (mthr s t) \<or> mthr s t = MIdle" and "pc \<noteq> MPanic"
    and "stored s' = stored s" and "added s' = added s" and "mthr s' = (mthr s)(t := pc)"
    and "mslot s' = mslot s \<and> pc_slot pc = None \<or> mslot s' = (mslot s)(t := pc_slot pc)"
  shows "calls_ok n s'"
proof -
  have mark: "mthr s t \<noteq> AddMark v i p" for v i p using assms(2) by auto
  have "\<exists>x p. mthr s' x = AddMark v i p" if "mthr s x = AddMark v i p" for v i x p
    using that mark assms(6) by (cases "x = t") auto
  then have "\<forall>i v. v \<in> set (stored s' i) \<longrightarrow> v \<in> set (added s' i) \<or> (\<exists>t p. mthr s' t = AddMark v i p)"
    using assms(1,4,5) unfolding calls_ok_def by metis
  moreover have "mslot s' x = Some i" if "pc_slot (mthr s' x) = Some i" for x i
    using that assms(1,6,7) by (cases "x = t") (auto simp: calls_ok_def)
  moreover have "\<exists>i. mslot s' x = Some i \<and> \<not> bs_covers n i" if "mthr s' x = MPanic" for x
    using that assms(1,3,6,7) by (cases "x = t") (auto simp: calls_ok_def)
  ultimately show ?thesis unfolding calls_ok_def by blast
qed

lemma mpmc_reach_calls:
  assumes "mpmc_reach n s" and "n < SENTINEL"
  shows "(\<exists>u. mpmc_inv n s u) \<and> calls_ok n s"
  using assms(1)
proof (induction rule: mpmc_reach.induct)
  case (mpmc_init c)
  then show ?case using mpmc_inv_start assms(2) by (auto simp: calls_ok_def mpmc_start_def)
next
  case (mpmc_next s s')
  then obtain u where inv: "mpmc_inv n s u" and calls: "calls_ok n s" by blast
  have "calls_ok n s'"
    using mpmc_next.hyps(3)
  proof (cases rule: mpmc_step.cases)
    case (run t b c pc)
    then show ?thesis using calls_ok_run [OF calls inv mpmc_next.hyps(2)] by blast
  next
    case (return t)
    then show ?thesis using calls by (intro calls_ok_other [of n s t MIdle s']) simp_all
  next
    case (call_add t v)
    then show ?thesis by (intro calls_ok_other [OF calls, of t "AddAlloc v AlStart"]) (simp_all add: mpmc_call_def)
  next
    case (call_remove t i)
    then show ?thesis
      by (intro calls_ok_other [OF calls, of t "RemClear i (BStart ClearBit i)"]) (simp_all add: mpmc_call_def)
  next
    case (call_get t i)
    then show ?thesis by (intro calls_ok_other [OF calls, of t "GetTest i"]) (simp_all add: mpmc_call_def)
  qed
  then show ?case using mpmc_inv_step [OF mpmc_next.hyps(3,2) inv] by blast
qed

text \<open>C10: the container under interleaving. However the atomic accesses of any number of threads in
  \<open>add\<close>, \<open>remove\<close> and \<open>get\<close> are interleaved, with spurious exchange failures and with the tag window
  respected: every slot is in exactly one place; the values that \<open>remove\<close> has taken from a slot are
  exactly the values that \<open>add\<close> has put there, each once and in order, except for at most one, which is
  still in the slot; a value that \<open>get\<close> returns was put into the slot by an \<open>add\<close>, which has set the bit
  or has stored the value and is about to set it; and a thread panics only in a \<open>remove\<close> or \<open>get\<close> of a
  slot beyond the last word of the bitset (past the capacity rounded up to 64). Threads may call
  \<open>remove\<close> and \<open>get\<close> with any slot at any time, also several on the same one.\<close>

theorem mpmc_conc_safe:
  assumes "mpmc_reach n s" and "n < SENTINEL"
  shows "(\<forall>i < n. (\<exists>!P. slot_at s i P) \<and>
      added s i = removed s i @ (if full s i then [mpmc_data (box s) ! unat i] else [])) \<and>
    (\<forall>t i v. mthr s t = GetRet i (Some v) \<longrightarrow> v \<in> set (added s i) \<or> (\<exists>t' p. mthr s t' = AddMark v i p)) \<and>
    (\<forall>t. mthr s t = MPanic \<longrightarrow> (\<exists>i. mslot s t = Some i \<and> 64 * ((unat n + 63) div 64) \<le> unat i))"
proof -
  obtain u where inv: "mpmc_inv n s u" and calls: "calls_ok n s" using mpmc_reach_calls [OF assms] by blast
  note own = mpmc_inv_owners [OF inv]
  have ok: "mpmc_pc_ok n s (mthr s t)" for t using inv by (simp add: mpmc_inv_def)
  have "\<exists>!P. slot_at s i P" if i: "i < n" for i
  proof -
    obtain p where "at_place u (mpmc_free (box s)) i p" using own(1,2) i by (auto simp: owners_ok_def)
    then obtain P where P: "slot_at s i P" using slot_at_exists [OF inv] by blast
    moreover have "Q = P" if Q: "slot_at s i Q" for Q
      using slot_at_unique [OF inv Q P] owners_okD(2) [OF own(1)] slot_at_place [OF inv] P Q by metis
    ultimately show ?thesis by blast
  qed
  moreover have "v \<in> set (added s i) \<or> (\<exists>t' p. mthr s t' = AddMark v i p)" if "mthr s t = GetRet i (Some v)" for t i v
    using ok [of t] that calls by (simp add: calls_ok_def)
  moreover have "\<exists>i. mslot s t = Some i \<and> 64 * ((unat n + 63) div 64) \<le> unat i" if panic: "mthr s t = MPanic" for t
  proof -
    obtain i where i: "mslot s t = Some i" "(unat n + 63) div 64 \<le> unat i div 64"
      using calls panic unfolding calls_ok_def bs_covers_def not_less by blast
    from mult_le_mono2 [OF i(2), of 64] have "64 * ((unat n + 63) div 64) \<le> unat i"
      using times_div_less_eq_dividend [of 64 "unat i"] by (rule order_trans)
    with i(1) show ?thesis by blast
  qed
  ultimately show ?thesis using inv unfolding mpmc_inv_def values_ok_def by blast
qed

text \<open>When all calls have returned the container is well formed again, as the sequential theorems ask, and
  stands for the map from every slot to the value that was added and not removed.\<close>

theorem mpmc_at_rest:
  assumes "mpmc_reach n s" and "n < SENTINEL" and rest: "\<forall>t. mthr s t = MIdle"
  shows "mpmc_wf (box s) \<and> (\<forall>i < n. mpmc_map (box s) i =
    (if length (removed s i) < length (added s i) then Some (last (added s i)) else None))"
proof -
  obtain u where inv: "mpmc_inv n s u" using mpmc_reach_inv [OF assms(1,2)] by blast
  note own = mpmc_inv_owners [OF inv]
  have full: "full s i \<longleftrightarrow> unat i \<in> bs_elems (mpmc_occupied (box s))" for i using rest by (auto simp: full_def)
  have held: "i \<in> held u \<longleftrightarrow> unat i \<in> bs_elems (mpmc_occupied (box s))" for i
  proof -
    have "(\<exists>p. busy s i p) \<longleftrightarrow> unat i \<in> bs_elems (mpmc_occupied (box s))"
      using rest by (metis busy.simps not_None_eq pc_busy.simps(3))
    then show ?thesis using inv by (simp add: mpmc_inv_def slots_ok_def)
  qed
  have thr: "thr u t = Idle" for t using inv rest by (simp add: mpmc_inv_def mpmc_sim_def)
  have place: "(\<exists>p. at_place u (mpmc_free (box s)) i p) \<longleftrightarrow> i \<in> set (mpmc_free (box s)) \<or> i \<in> held u" for i
    using thr by (metis at_place.simps option.distinct(1) pc_owns.simps(6) place.exhaust)
  have "i \<in> set (mpmc_free (box s)) \<longleftrightarrow> i < n \<and> mpmc_map (box s) i = None" for i
    using own held place [of i] owners_okD(2) [OF own(1), of i FreeList Caller]
    by (auto simp: owners_ok_def mpmc_map_def split: if_splits)
  then have "mpmc_wf (box s)"
    using own(3) inv
    by (auto simp: mpmc_wf_def mpmc_inv_def box_ok_def uis_inv_def list_ok_def mpmc_sim_def mpmc_pack_uis)
  then show ?thesis
    using inv full by (simp add: mpmc_inv_def values_ok_def mpmc_map_def)
qed

text \<open>Runs given by the order in which the threads take their turns.\<close>

definition mpmc_turn :: "nat \<Rightarrow> mpmc_sys \<Rightarrow> mpmc_sys" where
  "mpmc_turn t s =
     (if mpmc_done (mthr s t) then s\<lparr>mthr := (mthr s)(t := MIdle)\<rparr>
      else if mthr s t = MIdle then s
      else case mpmc_thread_step False (box s) (mthr s t) of (c, pc) \<Rightarrow> mpmc_advance s t c pc)"

lemma mpmc_turn_reach:
  assumes "mpmc_reach n s" and "mver s < 2 ^ 32"
  shows "mpmc_reach n (mpmc_turn t s)" and "mver (mpmc_turn t s) \<le> Suc (mver s)"
proof -
  have "mpmc_window s" using assms(2) by (auto simp: mpmc_window_def)
  moreover have "mpmc_turn t s = s \<or> mpmc_step s (mpmc_turn t s)"
    by (auto simp: mpmc_turn_def split: prod.splits intro: mpmc_step.intros)
  ultimately show "mpmc_reach n (mpmc_turn t s)" using mpmc_reach.mpmc_next [OF assms(1)] assms(1) by metis
  show "mver (mpmc_turn t s) \<le> Suc (mver s)"
    by (auto simp: mpmc_turn_def mpmc_advance_def split: prod.splits)
qed

lemma mpmc_turns_reach:
  assumes "mpmc_reach n s" and "mver s + length ts < 2 ^ 32"
  shows "mpmc_reach n (fold mpmc_turn ts s) \<and> mver (fold mpmc_turn ts s) \<le> mver s + length ts"
  using assms
proof (induction ts arbitrary: s)
  case (Cons t ts)
  from Cons.prems have "mver s < 2 ^ 32" by simp
  from mpmc_turn_reach [OF Cons.prems(1) this, of t] Cons.IH [of "mpmc_turn t s"] Cons.prems(2)
  show ?case by simp
qed simp

text \<open>A container with one slot: thread 1 adds the value 7, then threads 1 and 2 both remove slot 0 while
  thread 3 reads it, their accesses taking turns.\<close>

definition mpmc_one :: mpmc_sys where
  "mpmc_one = fold mpmc_turn (replicate 8 1) (mpmc_call 1 (AddAlloc 7 AlStart) (mpmc_start (the (mpmc_new 1))))"

definition mpmc_race :: mpmc_sys where
  "mpmc_race = fold mpmc_turn [1, 2, 3, 1, 2, 1, 1, 2, 3, 1, 1]
     (mpmc_call 3 (GetTest 0) (mpmc_call 2 (RemClear 0 (BStart ClearBit 0))
       (mpmc_call 1 (RemClear 0 (BStart ClearBit 0)) mpmc_one)))"

lemma mpmc_call_reach:
  assumes "mpmc_reach n s" and "mver s < 2 ^ 32" and "mthr s t = MIdle"
    and "pc = AddAlloc v AlStart \<or> pc \<in> {RemClear i (BStart ClearBit i), GetTest i}"
  shows "mpmc_reach n (mpmc_call t pc s)"
proof -
  have "mpmc_window s" using assms(2) by (auto simp: mpmc_window_def)
  moreover have "mpmc_step s (mpmc_call t pc s)"
    using assms(3,4) mpmc_step.intros(1-3) [of s t] by auto
  ultimately show ?thesis using mpmc_reach.mpmc_next [OF assms(1)] by blast
qed

lemma mpmc_call_mver [simp]: "mver (mpmc_call t pc s) = mver s"
  by (simp add: mpmc_call_def)

lemma mpmc_one_reach: "mpmc_reach 1 mpmc_one" "mver mpmc_one \<le> 8"
proof -
  let ?s = "mpmc_start (the (mpmc_new 1))"
  have "mpmc_reach 1 ?s" by (rule mpmc_init) code_simp
  then have "mpmc_reach 1 (mpmc_call 1 (AddAlloc 7 AlStart) ?s)"
    by (rule mpmc_call_reach) (simp_all add: mpmc_start_def)
  from mpmc_turns_reach [OF this, of "replicate 8 1"]
  show "mpmc_reach 1 mpmc_one" "mver mpmc_one \<le> 8" by (simp_all add: mpmc_one_def mpmc_start_def)
qed

lemma mpmc_race_reach: "mpmc_reach 1 mpmc_race"
proof -
  have idle: "mthr mpmc_one 1 = MIdle" "mthr mpmc_one 2 = MIdle" "mthr mpmc_one 3 = MIdle"
    and cap: "mpmc_capacity (box mpmc_one) = 1" by code_simp+
  let ?s1 = "mpmc_call 1 (RemClear 0 (BStart ClearBit 0)) mpmc_one"
  let ?s2 = "mpmc_call 2 (RemClear 0 (BStart ClearBit 0)) ?s1"
  have v: "mver mpmc_one < 2 ^ 32" using mpmc_one_reach(2) by simp
  have "mpmc_reach 1 ?s1" by (rule mpmc_call_reach [OF mpmc_one_reach(1), where i = 0]) (use v idle cap in simp_all)
  then have "mpmc_reach 1 ?s2"
    by (rule mpmc_call_reach [where i = 0]) (use v in \<open>simp_all add: idle cap, simp_all add: mpmc_call_def idle cap\<close>)
  then have "mpmc_reach 1 (mpmc_call 3 (GetTest 0) ?s2)"
    by (rule mpmc_call_reach [where i = 0]) (use v in \<open>simp_all add: idle cap, simp_all add: mpmc_call_def idle cap\<close>)
  from mpmc_turns_reach [OF this, of "[1, 2, 3, 1, 2, 1, 1, 2, 3, 1, 1]"] mpmc_one_reach(2)
  show ?thesis by (simp add: mpmc_race_def)
qed

theorem mpmc_conc_safe_witness:
  "mpmc_reach 1 mpmc_race \<and> mthr mpmc_race 1 = RemRet (Some 7) \<and> mthr mpmc_race 2 = RemRet None \<and>
   mthr mpmc_race 3 = GetRet 0 (Some 7) \<and> added mpmc_race 0 = [7] \<and> removed mpmc_race 0 = [7] \<and>
   (\<exists>!P. slot_at mpmc_race 0 P) \<and> mthr mpmc_race 1 \<noteq> MPanic"
proof -
  have run: "mthr mpmc_race 1 = RemRet (Some 7)" "mthr mpmc_race 2 = RemRet None"
      "mthr mpmc_race 3 = GetRet 0 (Some 7)" "added mpmc_race 0 = [7]" "removed mpmc_race 0 = [7]"
    by code_simp+
  have "1 < SENTINEL" by (simp add: SENTINEL_def)
  from mpmc_conc_safe [OF mpmc_race_reach this] run mpmc_race_reach show ?thesis by force
qed

end
