(* ===== verification/Transport_Types.thy ===== *)
theory Transport_Types
  imports Entangle_Prelude
begin

text \<open>
  The types of \<open>crates/entangle-transport/src/contracts.rs\<close> shared by the transport layer and the
  ports: the packed pointer offset that travels through the queues, the state of a channel and
  the errors of loaning, sending and receiving.
\<close>

datatype pointer_offset = PointerOffset u64

definition OFFSET_MASK :: u64 where
  "OFFSET_MASK = 0x0000FFFFFFFFFFFF"

definition po_new :: "u16 \<Rightarrow> usize \<Rightarrow> pointer_offset" where
  "po_new segment_id offset =
     PointerOffset (push_bit 48 (ucast segment_id) OR (offset AND OFFSET_MASK))"

fun po_raw :: "pointer_offset \<Rightarrow> u64" where
  "po_raw (PointerOffset w) = w"

definition po_from_raw :: "u64 \<Rightarrow> pointer_offset" where
  "po_from_raw raw = PointerOffset raw"

definition po_segment_id :: "pointer_offset \<Rightarrow> u16" where
  "po_segment_id p = ucast (drop_bit 48 (po_raw p))"

definition po_offset :: "pointer_offset \<Rightarrow> usize" where
  "po_offset p = po_raw p AND OFFSET_MASK"

datatype channel_state = Creating | Connected | Disconnected

datatype loan_error = OutOfMemory | ExceedsMaxLoans usize

datatype send_error = SendConnectionBroken | QueueFull

datatype receive_error = Empty | ReceiveConnectionBroken

subsection \<open>Packing\<close>

lemma OFFSET_MASK_mask: "OFFSET_MASK = mask 48"
  by (simp add: OFFSET_MASK_def mask_eq_decr_exp)

lemma po_raw_from_raw [simp]: "po_raw (po_from_raw w) = w" "po_from_raw (po_raw p) = p"
  by (simp_all add: po_from_raw_def) (cases p; simp)

lemma po_raw_inject: "po_raw p = po_raw q \<longleftrightarrow> p = q"
  by (metis po_raw_from_raw(2))

lemma po_segment_id_new [simp]: "po_segment_id (po_new s x) = s"
  by (intro bit_word_eqI)
    (auto simp: po_segment_id_def po_new_def OFFSET_MASK_mask bit_simps dest: bit_imp_le_length)

lemma po_offset_new_mask: "po_offset (po_new s x) = x AND OFFSET_MASK"
  by (intro bit_word_eqI)
    (auto simp: po_offset_def po_new_def OFFSET_MASK_mask bit_simps dest: bit_imp_le_length)

lemma po_offset_new:
  assumes "unat x < 2 ^ 48"
  shows "po_offset (po_new s x) = x"
proof -
  have "unat (x AND mask 48) = unat x"
    using assms by (simp add: unsigned_take_bit_eq take_bit_nat_eq_self flip: take_bit_eq_mask)
  then show ?thesis
    by (simp add: po_offset_new_mask OFFSET_MASK_mask unsigned_word_eqI)
qed

lemma po_new_parts [simp]: "po_new (po_segment_id p) (po_offset p) = p"
proof (cases p)
  case (PointerOffset w)
  have "push_bit 48 (ucast (ucast (drop_bit 48 w) :: u16)) OR (w AND mask 48 AND mask 48) = w"
    by (intro bit_word_eqI) (auto simp: bit_simps)
  with PointerOffset show ?thesis
    by (simp add: po_new_def po_segment_id_def po_offset_def OFFSET_MASK_mask)
qed

text \<open>C28: a \<open>PointerOffset\<close> carries a 16-bit segment id and a 48-bit offset without loss through the
  64-bit queues: packing then unpacking, and unpacking then packing, are identities, and the raw
  word determines the pair.\<close>

theorem pointer_offset_roundtrip:
  assumes "unat x < 2 ^ 48"
  shows "po_segment_id (po_from_raw (po_raw (po_new s x))) = s \<and>
    po_offset (po_from_raw (po_raw (po_new s x))) = x \<and>
    po_new (po_segment_id p) (po_offset p) = p"
  using po_offset_new [OF assms] by simp

theorem pointer_offset_roundtrip_witness:
  "po_segment_id (po_from_raw (po_raw (po_new 3 64))) = 3 \<and>
   po_offset (po_from_raw (po_raw (po_new 3 64))) = 64"
  using pointer_offset_roundtrip [of 64 3] by simp

end
