(* ===== verification/Pool_Alloc.thy ===== *)
theory Pool_Alloc
  imports Index_Set Transport_Types
begin

text \<open>
  \<open>PoolAllocator\<close> of \<open>crates/entangle-transport/src/pool_alloc.rs\<close>: fixed-size chunks named by
  pointer offsets, on top of a \<open>UniqueIndexSet\<close>. The proofs use the contract of the index set only
  (\<open>uis\<close>), and \<open>pool\<close> interprets the same contract for chunks.
\<close>

record pool_allocator =
  pool_index_set :: unique_index_set
  pool_chunk_size :: usize
  pool_segment_id :: u16
  pool_base_offset :: usize

definition pool_new :: "u32 \<Rightarrow> usize \<Rightarrow> u16 \<Rightarrow> usize \<Rightarrow> pool_allocator option" where
  "pool_new capacity chunk_size segment_id base_offset =
     (if chunk_size > 0
      then do {
        s \<leftarrow> uis_new capacity;
        Some \<lparr>pool_index_set = s, pool_chunk_size = chunk_size, pool_segment_id = segment_id,
              pool_base_offset = base_offset\<rparr>
      }
      else None)"

definition pool_allocate ::
  "pool_allocator \<Rightarrow> ((pointer_offset, loan_error) result \<times> pool_allocator) option" where
  "pool_allocate p = do {
     (r, s) \<leftarrow> uis_acquire (pool_index_set p);
     let p = p\<lparr>pool_index_set := s\<rparr>;
     case map_err (\<lambda>_. OutOfMemory) r of
       Err e \<Rightarrow> Some (Err e, p)
     | Ok index \<Rightarrow>
         let offset = pool_base_offset p + ucast index * pool_chunk_size p
         in Some (Ok (po_new (pool_segment_id p) offset), p)
   }"

definition pool_deallocate :: "pointer_offset \<Rightarrow> pool_allocator \<Rightarrow> pool_allocator option" where
  "pool_deallocate offset p =
     (let local = po_offset offset - pool_base_offset p;
          index = ucast (local div pool_chunk_size p) :: u32
      in do {
        s \<leftarrow> uis_release index (pool_index_set p);
        Some (p\<lparr>pool_index_set := s\<rparr>)
      })"

definition pool_allocated_count :: "pool_allocator \<Rightarrow> u32" where
  "pool_allocated_count p = uis_borrowed_count (pool_index_set p)"

definition pool_available :: "pool_allocator \<Rightarrow> u32" where
  "pool_available p = uis_available (pool_index_set p)"

definition pool_capacity :: "pool_allocator \<Rightarrow> u32" where
  "pool_capacity p = uis_capacity (pool_index_set p)"

definition pool_resolve_offset :: "pool_allocator \<Rightarrow> pointer_offset \<Rightarrow> usize" where
  "pool_resolve_offset p offset = po_offset offset"

subsection \<open>Chunks\<close>

text \<open>Chunk number \<open>i\<close>, and a pool whose chunks end before the 48-bit offset does.\<close>

definition pool_chunk :: "pool_allocator \<Rightarrow> u32 \<Rightarrow> pointer_offset" where
  "pool_chunk p i = po_new (pool_segment_id p) (pool_base_offset p + ucast i * pool_chunk_size p)"

definition pool_wf :: "pool_allocator \<Rightarrow> bool" where
  "pool_wf p \<longleftrightarrow> uis_wf (pool_index_set p) \<and> 0 < pool_chunk_size p \<and>
     unat (pool_base_offset p) + unat (pool_capacity p) * unat (pool_chunk_size p) \<le> 2 ^ 48"

definition pool_free :: "pool_allocator \<Rightarrow> pointer_offset set" where
  "pool_free p = pool_chunk p ` set (uis_free (pool_index_set p))"

definition pool_chunks :: "pool_allocator \<Rightarrow> pointer_offset set" where
  "pool_chunks p = pool_chunk p ` {..<pool_capacity p}"

text \<open>Two pools of the same layout: an operation changes the index set only.\<close>

definition same_layout :: "pool_allocator \<Rightarrow> pool_allocator \<Rightarrow> bool" where
  "same_layout p q \<longleftrightarrow> pool_chunk_size p = pool_chunk_size q \<and>
     pool_segment_id p = pool_segment_id q \<and> pool_base_offset p = pool_base_offset q \<and>
     pool_capacity p = pool_capacity q"

lemma same_layout_chunk: "same_layout p q \<Longrightarrow> pool_chunk p = pool_chunk q"
  by (simp add: same_layout_def pool_chunk_def fun_eq_iff)

lemma same_layout_chunks: "same_layout p q \<Longrightarrow> pool_chunks p = pool_chunks q"
  by (simp add: pool_chunks_def same_layout_chunk) (simp add: same_layout_def)

lemma pool_chunk_end:
  assumes "pool_wf p" and "i < pool_capacity p"
  shows "unat (pool_base_offset p) + unat i * unat (pool_chunk_size p) + unat (pool_chunk_size p)
    \<le> unat (pool_base_offset p) + unat (pool_capacity p) * unat (pool_chunk_size p)"
proof -
  have "Suc (unat i) \<le> unat (pool_capacity p)" using assms(2) by (simp add: word_less_nat_alt)
  then have "Suc (unat i) * unat (pool_chunk_size p) \<le> unat (pool_capacity p) * unat (pool_chunk_size p)"
    by (rule mult_le_mono1)
  then show ?thesis by simp
qed

lemma pool_chunk_word:
  assumes "pool_wf p" and "i < pool_capacity p"
  shows "unat (pool_base_offset p + ucast i * pool_chunk_size p) =
    unat (pool_base_offset p) + unat i * unat (pool_chunk_size p)"
proof -
  let ?n = "unat (pool_base_offset p) + unat i * unat (pool_chunk_size p)"
  have word: "pool_base_offset p + ucast i * pool_chunk_size p = of_nat ?n"
    by simp
  have "?n < 2 ^ LENGTH(64)"
    using pool_chunk_end [OF assms] assms(1) by (simp add: pool_wf_def)
  then show ?thesis unfolding word by (rule unat_of_nat_less)
qed

lemma pool_chunk_offset:
  assumes "pool_wf p" and "i < pool_capacity p"
  shows "unat (po_offset (pool_chunk p i)) =
    unat (pool_base_offset p) + unat i * unat (pool_chunk_size p)"
proof -
  have "unat (pool_base_offset p) + unat i * unat (pool_chunk_size p) < 2 ^ 48"
    using pool_chunk_end [OF assms] assms(1) by (simp add: pool_wf_def word_less_nat_alt)
  then show ?thesis
    using pool_chunk_word [OF assms] by (simp add: pool_chunk_def po_offset_new)
qed

lemma pool_chunk_index:
  assumes "pool_wf p" and "i < pool_capacity p"
  shows "ucast ((po_offset (pool_chunk p i) - pool_base_offset p) div pool_chunk_size p) = i"
proof -
  let ?d = "po_offset (pool_chunk p i) - pool_base_offset p"
  have "unat ?d = unat i * unat (pool_chunk_size p)"
    using pool_chunk_offset [OF assms] by (simp add: unat_sub word_le_nat_alt)
  then have "unat (?d div pool_chunk_size p) = unat i"
    using assms(1) by (simp add: unat_div pool_wf_def word_less_nat_alt)
  then have "unat (ucast (?d div pool_chunk_size p) :: u32) = unat i"
    using unat_bound [of i] by (simp add: unsigned_ucast_eq unsigned_take_bit_eq take_bit_nat_eq_self)
  then show ?thesis by (simp add: unsigned_word_eqI)
qed

lemma pool_chunk_inj: "pool_wf p \<Longrightarrow> inj_on (pool_chunk p) {..<pool_capacity p}"
  using pool_chunk_index by (metis inj_onI lessThan_iff)

subsection \<open>The operations\<close>

lemma pool_new_wf:
  assumes "0 < chunk_size" and "0 < capacity" and "capacity < SENTINEL"
    and "unat base + unat capacity * unat chunk_size \<le> 2 ^ 48"
  shows "\<exists>p. pool_new capacity chunk_size seg base = Some p \<and> pool_wf p \<and>
    pool_free p = pool_chunks p \<and> pool_capacity p = capacity \<and> pool_chunk_size p = chunk_size \<and>
    pool_segment_id p = seg \<and> pool_base_offset p = base"
proof -
  obtain s where s: "uis_new capacity = Some s" using assms by (simp add: uis_new_def)
  have wf: "uis_wf s" "uis_free s = map of_nat [0..<unat capacity]" "uis_capacity s = capacity"
    using uis_new_wf [OF s] by auto
  let ?p = "\<lparr>pool_index_set = s, pool_chunk_size = chunk_size, pool_segment_id = seg,
    pool_base_offset = base\<rparr>"
  have "set (uis_free s) = {..<capacity}"
  proof (rule equalityI)
    show "set (uis_free s) \<subseteq> {..<capacity}" using uis_free_bound [OF wf(1)] wf(3) by auto
    show "{..<capacity} \<subseteq> set (uis_free s)"
      using wf(2) by (auto intro!: image_eqI [of _ _ "unat _"] simp: word_less_nat_alt)
  qed
  then have "pool_free ?p = pool_chunks ?p"
    using wf by (simp add: pool_free_def pool_chunks_def pool_capacity_def)
  moreover have "pool_wf ?p" using assms wf by (simp add: pool_wf_def pool_capacity_def)
  ultimately show ?thesis using assms s wf by (simp add: pool_new_def pool_capacity_def)
qed

lemma pool_new_panics:
  "pool_new capacity chunk_size seg base = None \<longleftrightarrow> chunk_size = 0 \<or> capacity = 0 \<or> capacity = SENTINEL"
  using uis_new_panics [of capacity] by (auto simp: pool_new_def word_gt_0)

lemma pool_setI:
  assumes "pool_wf p" and "uis_wf s" and "uis_capacity s = pool_capacity p"
  shows "pool_wf (p\<lparr>pool_index_set := s\<rparr>)" and "same_layout (p\<lparr>pool_index_set := s\<rparr>) p"
    and "pool_free (p\<lparr>pool_index_set := s\<rparr>) = pool_chunk p ` set (uis_free s)"
proof -
  show "same_layout (p\<lparr>pool_index_set := s\<rparr>) p"
    using assms by (simp add: same_layout_def pool_capacity_def)
  then show "pool_free (p\<lparr>pool_index_set := s\<rparr>) = pool_chunk p ` set (uis_free s)"
    by (simp add: pool_free_def same_layout_chunk)
  show "pool_wf (p\<lparr>pool_index_set := s\<rparr>)"
    using assms by (simp add: pool_wf_def pool_capacity_def)
qed

lemma pool_free_sub: "pool_wf p \<Longrightarrow> set (uis_free (pool_index_set p)) \<subseteq> {..<pool_capacity p}"
  using uis.free_slots by (simp add: pool_wf_def pool_capacity_def)

lemma pool_allocate_free:
  assumes wf: "pool_wf p" and free: "pool_free p \<noteq> {}"
  shows "\<exists>a p'. pool_allocate p = Some (Ok a, p') \<and> a \<in> pool_free p \<and>
    pool_free p' = pool_free p - {a} \<and> pool_wf p' \<and> same_layout p' p"
proof -
  have "uis_wf (pool_index_set p)" "set (uis_free (pool_index_set p)) \<noteq> {}"
    using wf free by (auto simp: pool_wf_def pool_free_def)
  then obtain i s where acq: "uis_acquire (pool_index_set p) = Some (Ok i, s)"
      and i: "i \<in> set (uis_free (pool_index_set p))"
      and s: "set (uis_free s) = set (uis_free (pool_index_set p)) - {i}" "uis_wf s"
        "{..<uis_capacity s} = {..<uis_capacity (pool_index_set p)}"
    using uis.acquire_free by blast
  let ?p' = "p\<lparr>pool_index_set := s\<rparr>"
  have cap: "uis_capacity s = pool_capacity p" using s(3) by (simp add: pool_capacity_def)
  have "pool_allocate p = Some (Ok (pool_chunk p i), ?p')"
    using acq by (simp add: pool_allocate_def pool_chunk_def Let_def)
  moreover have "pool_chunk p ` (set (uis_free (pool_index_set p)) - {i}) = pool_free p - {pool_chunk p i}"
    unfolding pool_free_def
    using inj_on_image_set_diff [OF pool_chunk_inj [OF wf], of "set (uis_free (pool_index_set p))" "{i}"]
      pool_free_sub [OF wf] i by auto
  ultimately show ?thesis
    using pool_setI [OF wf s(2) cap] s(1) i by (auto simp: pool_free_def)
qed

lemma pool_allocate_full:
  assumes "pool_wf p" and "pool_free p = {}"
  shows "pool_allocate p = Some (Err OutOfMemory, p)"
proof -
  obtain e where "uis_acquire (pool_index_set p) = Some (Err e, pool_index_set p)"
    using uis.acquire_full [of "pool_index_set p"] assms by (auto simp: pool_wf_def pool_free_def)
  then show ?thesis by (simp add: pool_allocate_def Let_def)
qed

lemma pool_deallocate_held:
  assumes wf: "pool_wf p" and a: "a \<in> pool_chunks p" "a \<notin> pool_free p"
  shows "\<exists>p'. pool_deallocate a p = Some p' \<and> pool_free p' = insert a (pool_free p) \<and> pool_wf p' \<and>
    same_layout p' p"
proof -
  obtain i where i: "a = pool_chunk p i" "i < pool_capacity p"
    using a(1) by (auto simp: pool_chunks_def)
  then have "i \<notin> set (uis_free (pool_index_set p))" using a(2) by (auto simp: pool_free_def)
  then obtain s where s: "uis_release i (pool_index_set p) = Some s" "uis_wf s"
      "set (uis_free s) = insert i (set (uis_free (pool_index_set p)))"
      "{..<uis_capacity s} = {..<uis_capacity (pool_index_set p)}"
    using uis.release_held [of "pool_index_set p" i] wf i(2)
    by (auto simp: pool_wf_def pool_capacity_def)
  then have cap: "uis_capacity s = pool_capacity p" by (simp add: pool_capacity_def)
  have "pool_deallocate a p = Some (p\<lparr>pool_index_set := s\<rparr>)"
    using s(1) pool_chunk_index [OF wf i(2)] i(1) by (simp add: pool_deallocate_def)
  then show ?thesis
    using pool_setI [OF wf s(2) cap] s(3) i(1) by (auto simp: pool_free_def)
qed

interpretation pool: slot_allocator pool_wf pool_free pool_chunks pool_allocate pool_deallocate
proof
  fix p :: pool_allocator and a
  show "finite (pool_chunks p)" by (simp add: pool_chunks_def)
  assume wf: "pool_wf p"
  show "pool_free p \<subseteq> pool_chunks p"
    using pool_free_sub [OF wf] by (auto simp: pool_free_def pool_chunks_def)
  show "\<exists>a p'. pool_allocate p = Some (Ok a, p') \<and> a \<in> pool_free p \<and>
      pool_free p' = pool_free p - {a} \<and> pool_wf p' \<and> pool_chunks p' = pool_chunks p"
    if "pool_free p \<noteq> {}"
    using pool_allocate_free [OF wf that] same_layout_chunks by blast
  show "\<exists>e. pool_allocate p = Some (Err e, p)" if "pool_free p = {}"
    using pool_allocate_full [OF wf that] by blast
  show "\<exists>p'. pool_deallocate a p = Some p' \<and> pool_free p' = insert a (pool_free p) \<and> pool_wf p' \<and>
      pool_chunks p' = pool_chunks p"
    if "a \<in> pool_chunks p" "a \<notin> pool_free p"
    using pool_deallocate_held [OF wf that] same_layout_chunks by blast
qed

subsection \<open>The bytes of a chunk\<close>

definition chunk_bytes :: "pool_allocator \<Rightarrow> pointer_offset \<Rightarrow> nat set" where
  "chunk_bytes p a = {unat (po_offset a)..<unat (po_offset a) + unat (pool_chunk_size p)}"

lemma chunk_bytes_disjoint:
  assumes wf: "pool_wf p" and a: "a \<in> pool_chunks p" and b: "b \<in> pool_chunks p" and "a \<noteq> b"
  shows "chunk_bytes p a \<inter> chunk_bytes p b = {}"
proof -
  let ?c = "unat (pool_chunk_size p)"
  obtain i j where i: "a = pool_chunk p i" "i < pool_capacity p"
      and j: "b = pool_chunk p j" "j < pool_capacity p"
    using a b by (auto simp: pool_chunks_def)
  with \<open>a \<noteq> b\<close> have "i \<noteq> j" by auto
  then have "unat i \<noteq> unat j" using unsigned_word_eqI by blast
  then have "Suc (unat i) \<le> unat j \<or> Suc (unat j) \<le> unat i" by linarith
  then have "Suc (unat i) * ?c \<le> unat j * ?c \<or> Suc (unat j) * ?c \<le> unat i * ?c"
    using mult_le_mono1 by blast
  then show ?thesis
    using pool_chunk_offset [OF wf i(2)] pool_chunk_offset [OF wf j(2)] i j
    by (auto simp: chunk_bytes_def)
qed

lemma chunk_bytes_bound:
  assumes "pool_wf p" and "a \<in> pool_chunks p"
  shows "chunk_bytes p a \<subseteq> {unat (pool_base_offset p)..<
    unat (pool_base_offset p) + unat (pool_capacity p) * unat (pool_chunk_size p)}"
proof -
  obtain i where i: "a = pool_chunk p i" "i < pool_capacity p"
    using assms(2) by (auto simp: pool_chunks_def)
  show ?thesis
    using pool_chunk_offset [OF assms(1) i(2)] pool_chunk_end [OF assms(1) i(2)] i(1)
    by (auto simp: chunk_bytes_def)
qed

text \<open>The pool hands out memory exclusively. Any run of allocations yields chunks whose bytes
  are pairwise disjoint, lie inside the pool's region, and are as many as were free or asked for;
  none of them is one of the chunks that were out already.\<close>

theorem pool_exclusive:
  assumes wf: "pool_wf p" and run: "pool.acquire_n n p = Some (as, p')"
  shows "pool_wf p' \<and> length as = min n (card (pool_free p)) \<and> distinct as \<and>
    (\<forall>a \<in> set as. a \<in> pool_free p \<and> chunk_bytes p a \<subseteq> {unat (pool_base_offset p)..<
      unat (pool_base_offset p) + unat (pool_capacity p) * unat (pool_chunk_size p)} \<and>
      (\<forall>b \<in> pool_chunks p. b \<noteq> a \<longrightarrow> chunk_bytes p a \<inter> chunk_bytes p b = {}))"
proof -
  have sub: "pool_free p \<subseteq> pool_chunks p" using pool.free_slots [OF wf] .
  have *: "distinct as" "set as \<subseteq> pool_free p" "length as = min n (card (pool_free p))" "pool_wf p'"
    using pool.acquire_n_spec [OF wf, of n] run by auto
  show ?thesis
  proof (intro conjI ballI impI)
    fix a assume "a \<in> set as"
    then show "a \<in> pool_free p" using * by auto
    then have a: "a \<in> pool_chunks p" using sub by auto
    then show "chunk_bytes p a \<subseteq> {unat (pool_base_offset p)..<
        unat (pool_base_offset p) + unat (pool_capacity p) * unat (pool_chunk_size p)}"
      by (rule chunk_bytes_bound [OF wf])
    fix b assume "b \<in> pool_chunks p" "b \<noteq> a"
    then show "chunk_bytes p a \<inter> chunk_bytes p b = {}"
      using chunk_bytes_disjoint [OF wf a] by auto
  qed (use * in auto)
qed

theorem pool_exclusive_witness:
  "\<exists>p as p'. pool_new 4 16 0 64 = Some p \<and> pool.acquire_n 2 p = Some (as, p') \<and> distinct as"
proof -
  obtain p where p: "pool_new 4 16 0 64 = Some p" "pool_wf p"
    using pool_new_wf [of 16 4 64 0] by (auto simp: SENTINEL_def)
  obtain as p' where run: "pool.acquire_n 2 p = Some (as, p')"
    using pool.acquire_n_spec [OF p(2), of 2] by auto
  show ?thesis using p run pool_exclusive [OF p(2) run] by blast
qed

text \<open>Giving a chunk back undoes the allocation. After an allocation that returned \<open>a\<close> exactly
  \<open>a\<close> left the free set, deallocating \<open>a\<close> restores the free set, and \<open>OutOfMemory\<close> is reported
  exactly when nothing is free, without a change.\<close>

theorem pool_dealloc_inverse:
  assumes wf: "pool_wf p" and alloc: "pool_allocate p = Some (r, p')"
  shows "case r of
      Err e \<Rightarrow> e = OutOfMemory \<and> pool_free p = {} \<and> p' = p
    | Ok a \<Rightarrow> a \<in> pool_free p \<and> pool_free p' = pool_free p - {a} \<and>
        (\<exists>p''. pool_deallocate a p' = Some p'' \<and> pool_free p'' = pool_free p \<and> pool_wf p'')"
proof (cases r)
  case (Err e)
  then show ?thesis
    using pool.acquire_ErrD [OF wf] pool_allocate_full [OF wf] alloc by auto
next
  case (Ok a)
  then show ?thesis
    using pool.acquire_OkD [OF wf] pool.release_acquire_inverse [OF wf] alloc by auto
qed

theorem pool_dealloc_inverse_witness:
  "\<exists>p a p'. pool_new 4 16 0 64 = Some p \<and> pool_allocate p = Some (Ok a, p') \<and>
     (\<exists>p''. pool_deallocate a p' = Some p'' \<and> pool_free p'' = pool_free p)"
proof -
  obtain p where p: "pool_new 4 16 0 64 = Some p" "pool_wf p" "pool_free p = pool_chunks p"
      "pool_capacity p = 4"
    using pool_new_wf [of 16 4 64 0] by (auto simp: SENTINEL_def)
  then have "(0 :: u32) \<in> {..<pool_capacity p}" by simp
  then have "pool_free p \<noteq> {}" using p(3) by (auto simp: pool_chunks_def)
  then obtain a p' where "pool_allocate p = Some (Ok a, p')"
    using pool.acquire_free [OF p(2)] by auto
  then show ?thesis using pool_dealloc_inverse [OF p(2)] p(1) by fastforce
qed

end
