(* ===== verification/Text_Format.thy ===== *)
theory Text_Format
  imports Entangle_Prelude
begin

text \<open>
  What the crates use of the standard library's text formatting and parsing to build the names of
  segments, lock files and service files: decimal and zero-padded hexadecimal printing,
  \<open>u128::from_str_radix(_, 16)\<close> and \<open>str::replace\<close> of one character. The facts proved are the ones
  names need: printing is injective and parsing inverts padded hexadecimal printing.
\<close>

definition digit_char :: "nat \<Rightarrow> char" where
  "digit_char d = ''0123456789abcdef'' ! d"

fun dec_string :: "nat \<Rightarrow> string" where
  "dec_string n = (if n < 10 then [digit_char n] else dec_string (n div 10) @ [digit_char (n mod 10)])"

fun hex_string :: "nat \<Rightarrow> string" where
  "hex_string n = (if n < 16 then [digit_char n] else hex_string (n div 16) @ [digit_char (n mod 16)])"

text \<open>\<open>{:016x}\<close> and \<open>{:032x}\<close>: at least \<open>w\<close> digits.\<close>

definition hex_pad :: "nat \<Rightarrow> nat \<Rightarrow> string" where
  "hex_pad w n = replicate (w - length (hex_string n)) CHR ''0'' @ hex_string n"

definition hex_value :: "char \<Rightarrow> nat option" where
  "hex_value c =
     (let n = of_char c :: nat
      in if 48 \<le> n \<and> n \<le> 57 then Some (n - 48)
         else if 97 \<le> n \<and> n \<le> 102 then Some (n - 87)
         else if 65 \<le> n \<and> n \<le> 70 then Some (n - 55)
         else None)"

text \<open>The digits of a number below \<open>bound\<close>, left to right; an invalid digit or a value that does not
  fit ends the parse.\<close>

fun hex_digits :: "nat \<Rightarrow> nat \<Rightarrow> string \<Rightarrow> nat option" where
  "hex_digits bound acc [] = Some acc"
| "hex_digits bound acc (c # cs) =
     (case hex_value c of
        None \<Rightarrow> None
      | Some d \<Rightarrow> if acc * 16 + d < bound then hex_digits bound (acc * 16 + d) cs else None)"

definition parse_hex_u128 :: "string \<Rightarrow> u128 option" where
  "parse_hex_u128 s =
     map_option of_nat
       (case s of
          [] \<Rightarrow> None
        | [c] \<Rightarrow> hex_digits (2 ^ 128) 0 s
        | c # cs \<Rightarrow> if c = CHR ''+'' then hex_digits (2 ^ 128) 0 cs else hex_digits (2 ^ 128) 0 s)"

definition replace_char :: "char \<Rightarrow> char \<Rightarrow> string \<Rightarrow> string" where
  "replace_char a b s = map (\<lambda>c. if c = a then b else c) s"

declare dec_string.simps [simp del] hex_string.simps [simp del]

lemma digit_cases:
  assumes "(d :: nat) < 16"
  shows "d \<in> {0, 1, 2, 3, 4, 5, 6, 7, 8, 9, 10, 11, 12, 13, 14, 15}"
  using assms unfolding insert_iff empty_iff by presburger

lemma hex_value_digit [simp]: "d < 16 \<Longrightarrow> hex_value (digit_char d) = Some d"
  by (drule digit_cases) (auto simp: hex_value_def digit_char_def Let_def)

lemma digit_char_inj: "d < 16 \<Longrightarrow> e < 16 \<Longrightarrow> digit_char d = digit_char e \<longleftrightarrow> d = e"
  by (metis hex_value_digit option.inject)

lemma dec_string_nonempty [simp]: "dec_string n \<noteq> []" "[] \<noteq> dec_string n"
  by (subst dec_string.simps; simp)+

lemma dec_string_inj: "dec_string m = dec_string n \<Longrightarrow> m = n"
proof (induction m arbitrary: n rule: dec_string.induct)
  case (1 m)
  show ?case
  proof (cases "m < 10")
    case True
    with 1 show ?thesis
      by (simp add: dec_string.simps [of m] dec_string.simps [of n] digit_char_inj split: if_splits)
  next
    case False
    then have "\<not> n < 10"
      using 1 by (auto simp: dec_string.simps [of m] dec_string.simps [of n] append_eq_Cons_conv)
    with False 1 have "m div 10 = n div 10" "m mod 10 = n mod 10"
      by (auto simp: dec_string.simps [of m] dec_string.simps [of n] digit_char_inj)
    then show ?thesis by (metis div_mult_mod_eq)
  qed
qed

lemma hex_digits_append:
  "hex_digits b acc (xs @ ys) = (case hex_digits b acc xs of None \<Rightarrow> None | Some v \<Rightarrow> hex_digits b v ys)"
  by (induction xs arbitrary: acc) (auto split: option.splits)

lemma hex_digits_string: "n < b \<Longrightarrow> hex_digits b 0 (hex_string n) = Some n"
proof (induction n rule: hex_string.induct)
  case (1 n)
  show ?case
  proof (cases "n < 16")
    case True
    with 1 show ?thesis by (subst hex_string.simps) simp
  next
    case False
    have "n div 16 < b" using 1(2) by (meson div_le_dividend le_less_trans)
    with False 1 have "hex_digits b 0 (hex_string (n div 16)) = Some (n div 16)" by simp
    moreover have "n div 16 * 16 + n mod 16 = n" by simp
    ultimately show ?thesis
      using False 1(2) by (subst hex_string.simps) (simp add: hex_digits_append)
  qed
qed

lemma hex_digits_zeros: "0 < b \<Longrightarrow> hex_digits b 0 (replicate k CHR ''0'' @ cs) = hex_digits b 0 cs"
proof (induction k)
  case (Suc k)
  have "hex_value CHR ''0'' = Some 0" by (simp add: hex_value_def)
  with Suc show ?case by simp
qed simp

lemma hex_digits_pad: "n < b \<Longrightarrow> hex_digits b 0 (hex_pad w n) = Some n"
  by (simp add: hex_pad_def hex_digits_zeros hex_digits_string)

lemma hex_pad_nonempty [simp]: "hex_pad w n \<noteq> []"
  unfolding hex_pad_def by (subst hex_string.simps) simp

lemma parse_hex_pad: "parse_hex_u128 (hex_pad w (unat x)) = Some x"
proof -
  have n: "hex_digits (2 ^ 128) 0 (hex_pad w (unat x)) = Some (unat x)"
    using unat_bound [of x] by (intro hex_digits_pad) simp
  obtain c cs where s: "hex_pad w (unat x) = c # cs" by (cases "hex_pad w (unat x)") auto
  have "hex_value CHR ''+'' = None" by (simp add: hex_value_def)
  with n s have "c \<noteq> CHR ''+''" by auto
  with n s show ?thesis by (cases cs) (simp_all add: parse_hex_u128_def)
qed

lemma hex_pad_eq_iff: "hex_pad w m = hex_pad w n \<longleftrightarrow> m = n"
proof
  have "hex_digits (Suc (m + n)) 0 (hex_pad w m) = Some m" "hex_digits (Suc (m + n)) 0 (hex_pad w n) = Some n"
    by (rule hex_digits_pad, simp)+
  then show "hex_pad w m = hex_pad w n \<Longrightarrow> m = n" by (metis option.inject)
qed (rule arg_cong)

lemma hex_pad_inj: "hex_pad w (unat (x :: u128)) = hex_pad w (unat y) \<longleftrightarrow> x = y"
  using parse_hex_pad by (metis option.inject)

lemma hex_pad_digits:
  assumes "hex_value c = None"
  shows "c \<notin> set (hex_pad w n)"
proof -
  have "c \<notin> set (hex_string n)"
  proof (induction n rule: hex_string.induct)
    case (1 n)
    have "c \<noteq> digit_char d" if "d < 16" for d using that assms by auto
    with 1 show ?case by (subst hex_string.simps) simp
  qed
  moreover have "c \<noteq> CHR ''0''" using assms by (auto simp: hex_value_def)
  ultimately show ?thesis by (simp add: hex_pad_def)
qed

lemma hex_pad_slash_free: "CHR ''/'' \<notin> set (hex_pad w n)"
  by (rule hex_pad_digits) (simp add: hex_value_def)

end
