(* ===== verification/Shared_Memory.thy ===== *)
theory Shared_Memory
  imports Text_Format
begin

text \<open>
  \<open>SharedMemory\<close> of \<open>crates/entangle-platform/src/shm.rs\<close> and the errors of \<open>error.rs\<close>, with the bytes
  the higher layers read and write through the mapping. The address space of a process is a
  function from addresses to bytes. The calls into the \<open>nix\<close> crate and the standard hasher are the
  fields of a record that every constructor takes as an argument; nothing is assumed of them in
  the definitions.
\<close>

subsection \<open>The address space\<close>

type_synonym memory = "u64 \<Rightarrow> u8"

text \<open>\<open>ptr::write_bytes\<close>, \<open>ptr::write\<close> and \<open>ptr::read\<close> of a value given by its bytes.\<close>

definition write_bytes :: "u64 \<Rightarrow> u8 \<Rightarrow> nat \<Rightarrow> memory \<Rightarrow> memory" where
  "write_bytes addr b n mem = (\<lambda>a. if unat (a - addr) < n then b else mem a)"

definition write_list :: "u64 \<Rightarrow> u8 list \<Rightarrow> memory \<Rightarrow> memory" where
  "write_list addr bs mem =
     (\<lambda>a. if unat (a - addr) < length bs then bs ! unat (a - addr) else mem a)"

definition read_list :: "u64 \<Rightarrow> nat \<Rightarrow> memory \<Rightarrow> u8 list" where
  "read_list addr n mem = map (\<lambda>i. mem (addr + of_nat i)) [0..<n]"

text \<open>A \<open>u32\<close> in memory, little-endian as on every supported target.\<close>

definition u32_bytes :: "u32 \<Rightarrow> u8 list" where
  "u32_bytes w = [ucast w, ucast (drop_bit 8 w), ucast (drop_bit 16 w), ucast (drop_bit 24 w)]"

fun bytes_u32 :: "u8 list \<Rightarrow> u32" where
  "bytes_u32 [a, b, c, d] =
     ucast a OR push_bit 8 (ucast b) OR push_bit 16 (ucast c) OR push_bit 24 (ucast d)"
| "bytes_u32 bs = 0"

lemma bytes_u32_roundtrip [simp]: "bytes_u32 (u32_bytes w) = w"
proof (rule bit_word_eqI)
  fix n assume "n < LENGTH(32)"
  then consider "n < 8" | "8 \<le> n" "n < 16" | "16 \<le> n" "n < 24" | "24 \<le> n" "n < 32" by fastforce
  then show "bit (bytes_u32 (u32_bytes w)) n \<longleftrightarrow> bit w n"
    by cases (auto simp: u32_bytes_def bit_simps)
qed

lemma length_u32_bytes [simp]: "length (u32_bytes w) = 4"
  by (simp add: u32_bytes_def)

text \<open>\<open>u64::to_le_bytes\<close>, which is also how a \<open>u64\<close> and the bits of an \<open>f64\<close> lie in memory.\<close>

definition u64_le :: "u64 \<Rightarrow> u8 list" where
  "u64_le n = map (\<lambda>i. ucast (drop_bit (8 * i) n)) [0..<8]"

lemma length_u64_le [simp]: "length (u64_le n) = 8"
  by (simp add: u64_le_def)

lemma length_read_list [simp]: "length (read_list a n mem) = n"
  by (simp add: read_list_def)

lemma read_write_list_prefix:
  assumes "n \<le> length bs" and "n \<le> 2 ^ 64"
  shows "read_list addr n (write_list addr bs mem) = take n bs"
proof (rule nth_equalityI)
  fix i assume "i < length (read_list addr n (write_list addr bs mem))"
  then have "i < n" by simp
  moreover from this have "unat (of_nat i :: u64) = i"
    using assms by (intro unat_of_nat_less) simp
  ultimately show "read_list addr n (write_list addr bs mem) ! i = take n bs ! i"
    using assms by (simp add: read_list_def write_list_def)
qed (use assms in simp)

lemma read_write_list_same:
  "length bs \<le> 2 ^ 64 \<Longrightarrow> read_list addr (length bs) (write_list addr bs mem) = bs"
  by (simp add: read_write_list_prefix)

text \<open>Ranges of a mapping that starts at \<open>base\<close> and does not wrap: a write to one range leaves a
  disjoint one alone.\<close>

lemma read_write_list_disjoint:
  assumes "{x..<x + length bs} \<inter> {y..<y + n} = {}" and "x + length bs \<le> 2 ^ 64" and "y + n \<le> 2 ^ 64"
  shows "read_list (base + of_nat y) n (write_list (base + of_nat x) bs mem) =
    read_list (base + of_nat y) n mem"
proof -
  have "\<not> unat ((base + of_nat y + of_nat i) - (base + of_nat x) :: u64) < length bs" if "i < n" for i
  proof
    let ?d = "(base + of_nat y + of_nat i) - (base + of_nat x) :: u64"
    assume less: "unat ?d < length bs"
    have "?d = of_nat (y + i) - of_nat x" by simp
    then have eq: "(of_nat (y + i) :: u64) = of_nat (x + unat ?d)" by simp
    have "y + i < 2 ^ LENGTH(64)" "x + unat ?d < 2 ^ LENGTH(64)"
      using assms(2,3) that less by simp_all
    then have "y + i = x + unat ?d"
      using eq by (metis unat_of_nat_less)
    then have "y + i \<in> {x..<x + length bs} \<inter> {y..<y + n}" using less that by simp
    with assms(1) show False by blast
  qed
  then show ?thesis by (simp add: read_list_def write_list_def)
qed

lemma read_write_bytes_inside:
  assumes "x + n \<le> k" and "k \<le> 2 ^ 64"
  shows "read_list (base + of_nat x) n (write_bytes base b k mem) = replicate n b"
proof (rule nth_equalityI)
  fix i assume "i < length (read_list (base + of_nat x) n (write_bytes base b k mem))"
  then have i: "i < n" by simp
  then have "unat (of_nat (x + i) :: u64) = x + i"
    using assms by (intro unat_of_nat_less) simp
  then show "read_list (base + of_nat x) n (write_bytes base b k mem) ! i = replicate n b ! i"
    using assms i by (simp add: read_list_def write_bytes_def)
qed simp

subsection \<open>The platform errors and the calls of the operating system\<close>

datatype platform_error =
    SharedMemoryCreate string string
  | SharedMemoryOpen string string
  | SharedMemoryUnlink string string
  | Mmap string
  | FileLockError string
  | EventError string
  | SignalError string
  | ProcessMonitorError string
  | Io string

text \<open>\<open>shm_open\<close> with \<open>O_CREAT | O_EXCL\<close> and without, \<open>ftruncate\<close>, the size that \<open>fstat\<close> reports,
  \<open>mmap\<close>, \<open>shm_unlink\<close>; an error is its printed text. \<open>cfg_macos\<close> and \<open>default_hash\<close> are the
  compile-time target test and \<open>DefaultHasher\<close>.\<close>

record nix =
  shm_open_new :: "string \<Rightarrow> (nat, string) result"
  shm_open_rw :: "string \<Rightarrow> (nat, string) result"
  ftruncate :: "nat \<Rightarrow> u64 \<Rightarrow> (unit, string) result"
  fstat_size :: "nat \<Rightarrow> (u64, string) result"
  mmap :: "nat \<Rightarrow> usize \<Rightarrow> (u64, string) result"
  shm_unlink :: "string \<Rightarrow> (unit, string) result"
  cfg_macos :: bool
  default_hash :: "string \<Rightarrow> u64"

subsection \<open>The segment\<close>

record shared_memory =
  shm_ptr :: u64
  shm_size :: usize
  shm_name :: string
  shm_is_owner :: bool

definition normalize_name :: "nix \<Rightarrow> string \<Rightarrow> string" where
  "normalize_name os name =
     (let n = (case name of CHR ''/'' # _ \<Rightarrow> name | _ \<Rightarrow> ''/'' @ name)
      in if cfg_macos os \<and> length n > 30 then ''/e_'' @ hex_pad 16 (unat (default_hash os n)) else n)"

definition do_mmap :: "nix \<Rightarrow> nat \<Rightarrow> usize \<Rightarrow> string \<Rightarrow> (u64, platform_error) result" where
  "do_mmap os fd sz name =
     (if sz = 0 then Err (Mmap ''size must be non-zero'')
      else case mmap os fd sz of
             Err e \<Rightarrow> Err (Mmap (''mmap for '' @ [CHR 0x27] @ name @ [CHR 0x27] @ '': '' @ e))
           | Ok ptr \<Rightarrow> if ptr = 0 then Err (Mmap ''mmap returned null'') else Ok ptr)"

definition shm_create ::
  "nix \<Rightarrow> string \<Rightarrow> usize \<Rightarrow> memory \<Rightarrow> (shared_memory, platform_error) result \<times> memory" where
  "shm_create os name sz mem =
     (let nm = normalize_name os name
      in case shm_open_new os nm of
           Err e \<Rightarrow> (Err (SharedMemoryCreate nm e), mem)
         | Ok fd \<Rightarrow>
             (case ftruncate os fd sz of
                Err e \<Rightarrow> (Err (SharedMemoryCreate nm (''ftruncate: '' @ e)), mem)
              | Ok _ \<Rightarrow>
                  (case do_mmap os fd sz nm of
                     Err e \<Rightarrow> (Err e, mem)
                   | Ok ptr \<Rightarrow>
                       (Ok \<lparr>shm_ptr = ptr, shm_size = sz, shm_name = nm, shm_is_owner = True\<rparr>,
                        write_bytes ptr 0 (unat sz) mem))))"

definition shm_open :: "nix \<Rightarrow> string \<Rightarrow> (shared_memory, platform_error) result" where
  "shm_open os name =
     (let nm = normalize_name os name
      in case shm_open_rw os nm of
           Err e \<Rightarrow> Err (SharedMemoryOpen nm e)
         | Ok fd \<Rightarrow>
             (case fstat_size os fd of
                Err e \<Rightarrow> Err (SharedMemoryOpen nm (''fstat: '' @ e))
              | Ok sz \<Rightarrow>
                  map_ok (\<lambda>ptr. \<lparr>shm_ptr = ptr, shm_size = sz, shm_name = nm,
                                shm_is_owner = False\<rparr>)
                    (do_mmap os fd sz nm)))"

definition shm_unlink_name :: "nix \<Rightarrow> string \<Rightarrow> (unit, platform_error) result" where
  "shm_unlink_name os name =
     (let nm = normalize_name os name
      in map_err (SharedMemoryUnlink nm) (shm_unlink os nm))"

text \<open>\<open>Drop\<close>: the calls made, in order; a failure of either is only logged. The \<open>unwrap\<close> panics on a
  null pointer.\<close>

datatype shm_call = Munmap u64 usize | ShmUnlink string

definition shm_drop :: "shared_memory \<Rightarrow> shm_call list option" where
  "shm_drop shm =
     (if shm_ptr shm = 0 then None
      else Some (Munmap (shm_ptr shm) (shm_size shm) #
             (if shm_is_owner shm then [ShmUnlink (shm_name shm)] else [])))"

text \<open>\<open>get_ref\<close>, \<open>get_mut\<close>, \<open>as_slice\<close> and \<open>as_mut_slice\<close> all form the address \<open>ptr + offset\<close>. A reference
  is modelled by what is read or stored through it: \<open>get_mut\<close> stores a value, \<open>as_mut_slice\<close>
  stores one into element \<open>i\<close>.\<close>

definition shm_addr :: "shared_memory \<Rightarrow> usize \<Rightarrow> u64" where
  "shm_addr shm offset = shm_ptr shm + offset"

definition shm_get_ref :: "shared_memory \<Rightarrow> usize \<Rightarrow> nat \<Rightarrow> memory \<Rightarrow> u8 list" where
  "shm_get_ref shm offset size_of mem = read_list (shm_addr shm offset) size_of mem"

definition shm_get_mut :: "shared_memory \<Rightarrow> usize \<Rightarrow> u8 list \<Rightarrow> memory \<Rightarrow> memory" where
  "shm_get_mut shm offset value mem = write_list (shm_addr shm offset) value mem"

definition shm_as_slice :: "shared_memory \<Rightarrow> usize \<Rightarrow> nat \<Rightarrow> nat \<Rightarrow> memory \<Rightarrow> u8 list list" where
  "shm_as_slice shm offset count size_of mem =
     map (\<lambda>i. read_list (shm_addr shm offset + of_nat (i * size_of)) size_of mem) [0..<count]"

definition shm_as_mut_slice :: "shared_memory \<Rightarrow> usize \<Rightarrow> nat \<Rightarrow> u8 list \<Rightarrow> memory \<Rightarrow> memory" where
  "shm_as_mut_slice shm offset i value mem =
     write_list (shm_addr shm offset + of_nat (i * length value)) value mem"

lemma slice_ranges_disjoint: "i \<noteq> j \<Longrightarrow> {i * n..<i * n + n} \<inter> {j * n..<j * n + n} = {}" for i j n :: nat
proof -
  have "a * n + n \<le> b * n" if "a < b" for a b :: nat
    using mult_le_mono1 [OF Suc_leI [OF that], of n] by simp
  then show ?thesis if "i \<noteq> j" using that by (cases i j rule: linorder_cases) (fastforce simp: disjoint_iff)+
qed

text \<open>Storing through a mutable slice changes that element of the slice and no other.\<close>

lemma shm_slice_update:
  assumes "i < count" and "length v = n" and "count * n \<le> 2 ^ 64"
  shows "shm_as_slice shm off count n (shm_as_mut_slice shm off i v mem) = (shm_as_slice shm off count n mem)[i := v]"
proof (rule nth_equalityI)
  fix j assume "j < length (shm_as_slice shm off count n (shm_as_mut_slice shm off i v mem))"
  then have j: "j < count" by (simp add: shm_as_slice_def)
  have fits: "k * n + n \<le> 2 ^ 64" if "k < count" for k
    using mult_le_mono1 [OF Suc_leI [OF that], of n] assms(3) by simp
  show "shm_as_slice shm off count n (shm_as_mut_slice shm off i v mem) ! j = (shm_as_slice shm off count n mem)[i := v] ! j"
  proof (cases "j = i")
    case True
    have "length v \<le> 2 ^ 64" using fits [OF assms(1)] assms(2) by simp
    then show ?thesis
      using True j assms(2) read_write_list_same [of v] by (simp add: shm_as_slice_def shm_as_mut_slice_def)
  next
    case False
    then show ?thesis
      using j assms read_write_list_disjoint [of "i * n" v "j * n" n "shm_addr shm off" mem] slice_ranges_disjoint [of i j n]
        fits [OF j] fits [OF assms(1)]
      by (simp add: shm_as_slice_def shm_as_mut_slice_def)
  qed
qed (simp add: shm_as_slice_def)

subsection \<open>What create and open establish\<close>

lemma do_mmap_OkD: "do_mmap os fd sz name = Ok ptr \<Longrightarrow> ptr \<noteq> 0 \<and> sz \<noteq> 0"
  by (auto simp: do_mmap_def split: if_splits result.splits)

lemma shm_create_OkD:
  assumes "shm_create os name sz mem = (Ok shm, mem')"
  shows "shm_size shm = sz" and "shm_ptr shm \<noteq> 0" and "shm_is_owner shm" and "sz \<noteq> 0"
    and "shm_name shm = normalize_name os name" and "mem' = write_bytes (shm_ptr shm) 0 (unat sz) mem"
  using assms
  by (auto simp: shm_create_def Let_def split: result.splits dest: do_mmap_OkD)

lemma shm_create_ErrD: "shm_create os name sz mem = (Err e, mem') \<Longrightarrow> mem' = mem"
  by (auto simp: shm_create_def Let_def split: result.splits)

lemma shm_open_OkD:
  assumes "shm_open os name = Ok shm"
  shows "shm_ptr shm \<noteq> 0" and "\<not> shm_is_owner shm" and "shm_size shm \<noteq> 0"
    and "shm_name shm = normalize_name os name"
proof -
  obtain fd sz ptr where "do_mmap os fd sz (normalize_name os name) = Ok ptr"
    and "shm = \<lparr>shm_ptr = ptr, shm_size = sz, shm_name = normalize_name os name,
      shm_is_owner = False\<rparr>"
    using assms
    by (auto simp: shm_open_def Let_def split: result.splits elim!: map_ok.elims)
  then show "shm_ptr shm \<noteq> 0" and "\<not> shm_is_owner shm" and "shm_size shm \<noteq> 0"
    and "shm_name shm = normalize_name os name"
    using do_mmap_OkD by auto
qed

lemma normalize_slash: "\<exists>s. normalize_name os name = CHR ''/'' # s"
  by (auto simp: normalize_name_def Let_def split: list.splits char.splits bool.splits)

text \<open>Ownership of a shared memory object. A successful \<open>create\<close> yields a zeroed mapping of the
  requested, non-zero size whose drop unmaps it and unlinks its name; an \<open>open\<close> of the same name
  reaches the same object name and its drop unmaps without unlinking, so the object lives as long
  as its creator. A failed \<open>create\<close> leaves memory alone.\<close>

theorem shm_ownership:
  "case shm_create os name sz mem of
     (Err e, mem') \<Rightarrow> mem' = mem
   | (Ok shm, mem') \<Rightarrow> 0 < shm_size shm \<and> shm_size shm = sz \<and>
       read_list (shm_ptr shm) (unat sz) mem' = replicate (unat sz) 0 \<and>
       shm_drop shm = Some [Munmap (shm_ptr shm) sz, ShmUnlink (shm_name shm)] \<and>
       (case shm_open os name of
          Err e \<Rightarrow> True
        | Ok shm' \<Rightarrow> shm_name shm' = shm_name shm \<and>
            shm_drop shm' = Some [Munmap (shm_ptr shm') (shm_size shm')])"
proof (cases "shm_create os name sz mem")
  case (Pair r mem')
  show ?thesis
  proof (cases r)
    case (Err e)
    then show ?thesis using Pair shm_create_ErrD by simp
  next
    case (Ok shm)
    then have "shm_create os name sz mem = (Ok shm, mem')" using Pair by simp
    note shm = shm_create_OkD [OF this]
    have "read_list (shm_ptr shm) (unat sz) mem' = replicate (unat sz) 0"
      using read_write_bytes_inside [of 0 "unat sz" "unat sz" "shm_ptr shm" 0 mem] shm(6)
        unat_bound [of sz] by simp
    moreover have "case shm_open os name of Err e \<Rightarrow> True
      | Ok shm' \<Rightarrow> shm_name shm' = shm_name shm \<and>
          shm_drop shm' = Some [Munmap (shm_ptr shm') (shm_size shm')]"
      using shm_open_OkD [of os name] shm(5) by (simp add: shm_drop_def split: result.splits)
    ultimately show ?thesis
      using Pair Ok shm by (simp add: shm_drop_def word_gt_0)
  qed
qed

end
