(* ===== verification/Data_Segment.thy ===== *)
theory Data_Segment
  imports Pool_Alloc Shared_Memory
begin

text \<open>
  \<open>DataSegment\<close> of \<open>crates/entangle-transport/src/data_segment.rs\<close>: a shared memory object that starts
  with a 64-byte header and continues with equally sized chunks, handed out by a \<open>PoolAllocator\<close>.
  A payload of type \<open>T\<close> is the list of its bytes. The interpretation \<open>ds\<close> passes the allocator
  contract on to the ports.
\<close>

definition HEADER_SIZE :: usize where
  "HEADER_SIZE = 64"

record data_segment =
  ds_shm :: shared_memory
  ds_allocator :: pool_allocator
  ds_chunk_size :: usize
  ds_chunk_count :: u32

definition align8 :: "usize \<Rightarrow> usize" where
  "align8 chunk_size = (chunk_size + 7) AND NOT 7"

text \<open>The two header fields at byte 0 and byte 4.\<close>

definition write_header :: "u64 \<Rightarrow> u32 \<Rightarrow> u32 \<Rightarrow> memory \<Rightarrow> memory" where
  "write_header ptr chunk_size chunk_count mem =
     write_list (ptr + 4) (u32_bytes chunk_count) (write_list ptr (u32_bytes chunk_size) mem)"

definition read_header :: "u64 \<Rightarrow> memory \<Rightarrow> u32 \<times> u32" where
  "read_header ptr mem = (bytes_u32 (read_list ptr 4 mem), bytes_u32 (read_list (ptr + 4) 4 mem))"

definition ds_create ::
  "nix \<Rightarrow> string \<Rightarrow> usize \<Rightarrow> u32 \<Rightarrow> u16 \<Rightarrow> memory \<Rightarrow>
     ((data_segment, platform_error) result \<times> memory) option" where
  "ds_create os name chunk_size chunk_count segment_id mem =
     (let aligned_chunk_size = align8 chunk_size;
          total_size = HEADER_SIZE + aligned_chunk_size * ucast chunk_count
      in case shm_create os name total_size mem of
           (Err e, mem) \<Rightarrow> Some (Err e, mem)
         | (Ok shm, mem) \<Rightarrow>
             let mem = write_header (shm_ptr shm) (ucast aligned_chunk_size) chunk_count mem
             in do {
               allocator \<leftarrow> pool_new chunk_count aligned_chunk_size segment_id HEADER_SIZE;
               Some (Ok \<lparr>ds_shm = shm, ds_allocator = allocator, ds_chunk_size = aligned_chunk_size,
                         ds_chunk_count = chunk_count\<rparr>, mem)
             })"

definition ds_open ::
  "nix \<Rightarrow> string \<Rightarrow> u16 \<Rightarrow> memory \<Rightarrow> (data_segment, platform_error) result option" where
  "ds_open os name segment_id mem =
     (case shm_open os name of
        Err e \<Rightarrow> Some (Err e)
      | Ok shm \<Rightarrow>
          let (size32, chunk_count) = read_header (shm_ptr shm) mem; chunk_size = ucast size32
          in do {
            allocator \<leftarrow> pool_new chunk_count chunk_size segment_id HEADER_SIZE;
            Some (Ok \<lparr>ds_shm = shm, ds_allocator = allocator, ds_chunk_size = chunk_size,
                      ds_chunk_count = chunk_count\<rparr>)
          })"

definition ds_allocate ::
  "data_segment \<Rightarrow> ((pointer_offset, loan_error) result \<times> data_segment) option" where
  "ds_allocate d = do {
     (r, a) \<leftarrow> pool_allocate (ds_allocator d);
     Some (r, d\<lparr>ds_allocator := a\<rparr>)
   }"

definition ds_deallocate :: "pointer_offset \<Rightarrow> data_segment \<Rightarrow> data_segment option" where
  "ds_deallocate offset d = do {
     a \<leftarrow> pool_deallocate offset (ds_allocator d);
     Some (d\<lparr>ds_allocator := a\<rparr>)
   }"

definition ds_resolve_ptr :: "data_segment \<Rightarrow> pointer_offset \<Rightarrow> u64" where
  "ds_resolve_ptr d offset = shm_ptr (ds_shm d) + po_offset offset"

text \<open>\<open>resolve_ref\<close> read through, and \<open>resolve_mut\<close> written through; \<open>n\<close> is \<open>size_of::<T>()\<close>.\<close>

definition ds_read :: "data_segment \<Rightarrow> pointer_offset \<Rightarrow> nat \<Rightarrow> memory \<Rightarrow> u8 list" where
  "ds_read d offset n mem = read_list (ds_resolve_ptr d offset) n mem"

definition ds_write :: "data_segment \<Rightarrow> pointer_offset \<Rightarrow> u8 list \<Rightarrow> memory \<Rightarrow> memory" where
  "ds_write d offset bs mem = write_list (ds_resolve_ptr d offset) bs mem"

definition ds_allocated_count :: "data_segment \<Rightarrow> u32" where
  "ds_allocated_count d = pool_allocated_count (ds_allocator d)"

definition ds_available :: "data_segment \<Rightarrow> u32" where
  "ds_available d = pool_available (ds_allocator d)"

definition ds_name :: "data_segment \<Rightarrow> string" where
  "ds_name d = shm_name (ds_shm d)"

subsection \<open>The invariant\<close>

definition ds_free :: "data_segment \<Rightarrow> pointer_offset set" where
  "ds_free d = pool_free (ds_allocator d)"

definition ds_chunks :: "data_segment \<Rightarrow> pointer_offset set" where
  "ds_chunks d = pool_chunks (ds_allocator d)"

definition ds_wf :: "data_segment \<Rightarrow> bool" where
  "ds_wf d \<longleftrightarrow> pool_wf (ds_allocator d) \<and> pool_base_offset (ds_allocator d) = HEADER_SIZE \<and>
     pool_chunk_size (ds_allocator d) = ds_chunk_size d \<and>
     pool_capacity (ds_allocator d) = ds_chunk_count d \<and>
     unat (shm_size (ds_shm d)) = 64 + unat (ds_chunk_count d) * unat (ds_chunk_size d)"

text \<open>An operation leaves the mapping and the layout alone.\<close>

definition ds_same :: "data_segment \<Rightarrow> data_segment \<Rightarrow> bool" where
  "ds_same d e \<longleftrightarrow> ds_shm d = ds_shm e \<and> ds_chunk_size d = ds_chunk_size e \<and>
     ds_chunk_count d = ds_chunk_count e \<and> same_layout (ds_allocator d) (ds_allocator e)"

lemma ds_same_chunks: "ds_same d e \<Longrightarrow> ds_chunks d = ds_chunks e"
  by (simp add: ds_same_def ds_chunks_def same_layout_chunks)

lemma ds_wf_update:
  assumes "ds_wf d" and "pool_wf a" and "same_layout a (ds_allocator d)"
  shows "ds_wf (d\<lparr>ds_allocator := a\<rparr>)" and "ds_same (d\<lparr>ds_allocator := a\<rparr>) d"
  using assms by (simp_all add: ds_wf_def ds_same_def same_layout_def)

lemma ds_allocate_free:
  assumes "ds_wf d" and "ds_free d \<noteq> {}"
  shows "\<exists>a d'. ds_allocate d = Some (Ok a, d') \<and> a \<in> ds_free d \<and> ds_free d' = ds_free d - {a} \<and>
    ds_wf d' \<and> ds_same d' d"
proof -
  obtain a p where p: "pool_allocate (ds_allocator d) = Some (Ok a, p)" "a \<in> pool_free (ds_allocator d)"
      "pool_free p = pool_free (ds_allocator d) - {a}" "pool_wf p" "same_layout p (ds_allocator d)"
    using pool_allocate_free [of "ds_allocator d"] assms by (auto simp: ds_wf_def ds_free_def)
  then have "ds_allocate d = Some (Ok a, d\<lparr>ds_allocator := p\<rparr>)" by (simp add: ds_allocate_def)
  then show ?thesis using p ds_wf_update [OF assms(1) p(4,5)] by (auto simp: ds_free_def)
qed

lemma ds_allocate_full:
  assumes "ds_wf d" and "ds_free d = {}"
  shows "ds_allocate d = Some (Err OutOfMemory, d)"
  using assms pool_allocate_full [of "ds_allocator d"]
  by (simp add: ds_wf_def ds_free_def ds_allocate_def)

lemma ds_deallocate_held:
  assumes "ds_wf d" and "a \<in> ds_chunks d" and "a \<notin> ds_free d"
  shows "\<exists>d'. ds_deallocate a d = Some d' \<and> ds_free d' = insert a (ds_free d) \<and> ds_wf d' \<and> ds_same d' d"
proof -
  obtain p where p: "pool_deallocate a (ds_allocator d) = Some p"
      "pool_free p = insert a (pool_free (ds_allocator d))" "pool_wf p" "same_layout p (ds_allocator d)"
    using pool_deallocate_held [of "ds_allocator d" a] assms
    by (auto simp: ds_wf_def ds_free_def ds_chunks_def)
  then show ?thesis
    using ds_wf_update [OF assms(1) p(3,4)] by (auto simp: ds_deallocate_def ds_free_def)
qed

interpretation ds: slot_allocator ds_wf ds_free ds_chunks ds_allocate ds_deallocate
proof
  fix d :: data_segment and a
  show "finite (ds_chunks d)" using pool.finite_slots by (simp add: ds_chunks_def)
  assume wf: "ds_wf d"
  show "ds_free d \<subseteq> ds_chunks d"
    using wf pool.free_slots by (simp add: ds_wf_def ds_free_def ds_chunks_def)
  show "\<exists>a d'. ds_allocate d = Some (Ok a, d') \<and> a \<in> ds_free d \<and> ds_free d' = ds_free d - {a} \<and>
      ds_wf d' \<and> ds_chunks d' = ds_chunks d" if "ds_free d \<noteq> {}"
    using ds_allocate_free [OF wf that] ds_same_chunks by blast
  show "\<exists>e. ds_allocate d = Some (Err e, d)" if "ds_free d = {}"
    using ds_allocate_full [OF wf that] by blast
  show "\<exists>d'. ds_deallocate a d = Some d' \<and> ds_free d' = insert a (ds_free d) \<and> ds_wf d' \<and>
      ds_chunks d' = ds_chunks d" if "a \<in> ds_chunks d" "a \<notin> ds_free d"
    using ds_deallocate_held [OF wf that] ds_same_chunks by blast
qed

subsection \<open>Creating a segment\<close>

text \<open>Chunk sizes and counts for which the layout fits 48-bit offsets, as every payload type and
  queue length in practice does; nothing wraps then.\<close>

definition layout_fits :: "usize \<Rightarrow> u32 \<Rightarrow> bool" where
  "layout_fits chunk_size chunk_count \<longleftrightarrow> 0 < chunk_size \<and> 0 < chunk_count \<and> chunk_count < SENTINEL \<and>
     64 + unat chunk_count * (unat chunk_size + 7) \<le> 2 ^ 48"

lemma align8_facts:
  assumes "unat n + 7 < 2 ^ 64"
  shows "unat (align8 n) = (unat n + 7) div 8 * 8"
proof -
  have plus: "unat (n + 7) = unat n + 7"
    using assms unat_of_nat_less [of "unat n + 7", where ?'a = 64] by simp
  have "align8 n = (n + 7) AND NOT (mask 3)" by (simp add: align8_def mask_eq_decr_exp)
  also have "\<dots> = push_bit 3 (drop_bit 3 (n + 7))"
    by (intro bit_word_eqI) (auto simp: bit_simps)
  finally have "align8 n = push_bit 3 (drop_bit 3 (n + 7))" .
  then have "unat (align8 n) = (unat n + 7) div 8 * 8 mod 2 ^ 64"
    using plus by (simp add: push_bit_eq_mult drop_bit_eq_div unat_word_ariths unat_div)
  moreover have "(unat n + 7) div 8 * 8 \<le> unat n + 7" by simp
  ultimately show ?thesis using assms by simp
qed

lemma layout_fits_align:
  assumes "layout_fits c n"
  shows "unat (align8 c) = (unat c + 7) div 8 * 8" and "unat c \<le> unat (align8 c)"
    and "64 + unat n * unat (align8 c) \<le> 2 ^ 48"
    and "unat (HEADER_SIZE + align8 c * ucast n) = 64 + unat n * unat (align8 c)"
proof -
  have n: "1 \<le> unat n" using assms by (simp add: layout_fits_def word_less_nat_alt)
  have fits: "64 + unat n * (unat c + 7) \<le> 2 ^ 48" using assms by (simp add: layout_fits_def)
  moreover have "unat c + 7 \<le> unat n * (unat c + 7)" using n by simp
  ultimately have "unat c + 7 \<le> 2 ^ 48" by (meson add_leD2 le_trans)
  then have "unat c + 7 < 2 ^ 64" by simp
  then show eq: "unat (align8 c) = (unat c + 7) div 8 * 8" by (rule align8_facts)
  show "unat c \<le> unat (align8 c)" unfolding eq by simp
  have "unat n * unat (align8 c) \<le> unat n * (unat c + 7)" unfolding eq by (intro mult_le_mono2) simp
  with fits show total: "64 + unat n * unat (align8 c) \<le> 2 ^ 48" by linarith
  have "HEADER_SIZE + align8 c * ucast n = of_nat (64 + unat n * unat (align8 c))"
    by (simp add: HEADER_SIZE_def mult.commute)
  moreover have "64 + unat n * unat (align8 c) < 2 ^ LENGTH(64)" using total by simp
  ultimately show "unat (HEADER_SIZE + align8 c * ucast n) = 64 + unat n * unat (align8 c)"
    by (simp only: unat_of_nat_less)
qed

lemma read_write_header:
  "read_header ptr (write_header ptr size32 count mem) = (size32, count)"
proof -
  have "read_list ptr 4 (write_header ptr size32 count mem) = u32_bytes size32"
    using read_write_list_disjoint [of 4 "u32_bytes count" 0 4 ptr] read_write_list_same [of "u32_bytes size32"]
    by (simp add: write_header_def)
  moreover have "read_list (ptr + 4) 4 (write_header ptr size32 count mem) = u32_bytes count"
    using read_write_list_same [of "u32_bytes count"] by (simp add: write_header_def)
  ultimately show ?thesis by (simp add: read_header_def)
qed

lemma ds_create_wf:
  assumes fits: "layout_fits c n" and create: "shm_create os name (HEADER_SIZE + align8 c * ucast n) mem = (Ok shm, mem1)"
  shows "\<exists>d. ds_create os name c n seg mem =
      Some (Ok d, write_header (shm_ptr shm) (ucast (align8 c)) n mem1) \<and> ds_wf d \<and>
    ds_shm d = shm \<and> ds_free d = ds_chunks d \<and> ds_chunk_size d = align8 c \<and> ds_chunk_count d = n \<and>
    pool_segment_id (ds_allocator d) = seg"
proof -
  have "0 < align8 c"
    using fits layout_fits_align(2) [OF fits] by (auto simp: layout_fits_def word_less_nat_alt)
  then obtain p where p: "pool_new n (align8 c) seg HEADER_SIZE = Some p" "pool_wf p"
      "pool_free p = pool_chunks p" "pool_capacity p = n" "pool_chunk_size p = align8 c"
      "pool_segment_id p = seg" "pool_base_offset p = HEADER_SIZE"
    using pool_new_wf [of "align8 c" n HEADER_SIZE seg] fits layout_fits_align(3) [OF fits]
    by (auto simp: layout_fits_def HEADER_SIZE_def)
  have "shm_size shm = HEADER_SIZE + align8 c * ucast n" using shm_create_OkD(1) [OF create] .
  then have "unat (shm_size shm) = 64 + unat n * unat (align8 c)"
    using layout_fits_align(4) [OF fits] by simp
  then show ?thesis
    using p create by (simp add: ds_create_def Let_def ds_wf_def ds_free_def ds_chunks_def)
qed

lemma ds_create_total:
  assumes "layout_fits c n"
  shows "\<exists>r mem'. ds_create os name c n seg mem = Some (r, mem')"
proof (cases "shm_create os name (HEADER_SIZE + align8 c * ucast n) mem")
  case (Pair r mem1)
  then show ?thesis
    using ds_create_wf [OF assms, of os name mem _ mem1 seg]
    by (cases r) (auto simp: ds_create_def Let_def)
qed

lemma ds_create_OkD:
  assumes "layout_fits c n" and "ds_create os name c n seg mem = Some (Ok d, mem')"
  shows "ds_wf d \<and> ds_free d = ds_chunks d \<and> ds_chunk_size d = align8 c \<and> ds_chunk_count d = n \<and>
    pool_segment_id (ds_allocator d) = seg \<and> shm_name (ds_shm d) = normalize_name os name \<and>
    read_header (shm_ptr (ds_shm d)) mem' = (ucast (align8 c), n)"
proof (cases "shm_create os name (HEADER_SIZE + align8 c * ucast n) mem")
  case (Pair r mem1)
  then show ?thesis
  proof (cases r)
    case (Err e)
    then show ?thesis using assms Pair by (simp add: ds_create_def Let_def)
  next
    case (Ok shm)
    with Pair have create: "shm_create os name (HEADER_SIZE + align8 c * ucast n) mem = (Ok shm, mem1)"
      by simp
    show ?thesis
      using ds_create_wf [OF assms(1) create, of seg] assms(2) shm_create_OkD(5) [OF create]
      by (auto simp: read_write_header)
  qed
qed

subsection \<open>Payloads\<close>

lemma ds_chunk_range:
  assumes "ds_wf d" and "a \<in> ds_chunks d"
  shows "64 \<le> unat (po_offset a)"
    and "unat (po_offset a) + unat (ds_chunk_size d) \<le> unat (shm_size (ds_shm d))"
    and "unat (po_offset a) + unat (ds_chunk_size d) \<le> 2 ^ 48"
proof -
  let ?p = "ds_allocator d"
  have wf: "pool_wf ?p" "unat (pool_base_offset ?p) = 64" "pool_chunk_size ?p = ds_chunk_size d"
      "pool_capacity ?p = ds_chunk_count d"
    and shm: "unat (shm_size (ds_shm d)) = 64 + unat (ds_chunk_count d) * unat (ds_chunk_size d)"
    using assms(1) by (auto simp: ds_wf_def HEADER_SIZE_def)
  then have pos: "0 < unat (ds_chunk_size d)"
    by (metis pool_wf_def unat_gt_0 word_gt_0)
  have sub: "{unat (po_offset a)..<unat (po_offset a) + unat (ds_chunk_size d)} \<subseteq>
      {64..<64 + unat (ds_chunk_count d) * unat (ds_chunk_size d)}"
    using chunk_bytes_bound [of ?p a] wf assms(2) by (simp add: chunk_bytes_def ds_chunks_def)
  with pos show "64 \<le> unat (po_offset a)" by simp
  show "unat (po_offset a) + unat (ds_chunk_size d) \<le> unat (shm_size (ds_shm d))"
    using sub pos shm by simp
  then show "unat (po_offset a) + unat (ds_chunk_size d) \<le> 2 ^ 48"
    using wf shm by (simp add: pool_wf_def)
qed

lemma ds_resolve_of_nat: "ds_resolve_ptr d a = shm_ptr (ds_shm d) + of_nat (unat (po_offset a))"
  by (simp add: ds_resolve_ptr_def)

lemma ds_disjoint:
  assumes "ds_wf d" and "a \<in> ds_chunks d" and "b \<in> ds_chunks d" and "a \<noteq> b"
    and "m \<le> unat (ds_chunk_size d)" and "n \<le> unat (ds_chunk_size d)"
  shows "{unat (po_offset a)..<unat (po_offset a) + m} \<inter> {unat (po_offset b)..<unat (po_offset b) + n} = {}"
proof -
  have "{unat (po_offset a)..<unat (po_offset a) + unat (ds_chunk_size d)} \<inter>
      {unat (po_offset b)..<unat (po_offset b) + unat (ds_chunk_size d)} = {}"
    using chunk_bytes_disjoint [of "ds_allocator d" a b] assms
    by (simp add: ds_wf_def ds_chunks_def chunk_bytes_def)
  with assms(5,6) show ?thesis by (auto simp: disjoint_iff)
qed

lemma ds_read_write_same:
  assumes "ds_wf d" and "a \<in> ds_chunks d" and "length bs \<le> unat (ds_chunk_size d)"
  shows "ds_read d a (length bs) (ds_write d a bs mem) = bs"
  using ds_chunk_range(3) [OF assms(1,2)] assms(3)
  by (simp add: ds_read_def ds_write_def read_write_list_same)

lemma ds_read_write_other:
  assumes "ds_wf d" and "a \<in> ds_chunks d" and "b \<in> ds_chunks d" and "a \<noteq> b"
    and "length bs \<le> unat (ds_chunk_size d)" and "n \<le> unat (ds_chunk_size d)"
  shows "ds_read d b n (ds_write d a bs mem) = ds_read d b n mem"
  unfolding ds_read_def ds_write_def ds_resolve_of_nat
  using ds_disjoint [OF assms] ds_chunk_range(3) [OF assms(1,2)] ds_chunk_range(3) [OF assms(1,3)] assms(5,6)
  by (intro read_write_list_disjoint) simp_all

lemma ds_write_header_intact:
  assumes "ds_wf d" and "a \<in> ds_chunks d" and "length bs \<le> unat (ds_chunk_size d)"
  shows "read_header (shm_ptr (ds_shm d)) (ds_write d a bs mem) = read_header (shm_ptr (ds_shm d)) mem"
proof -
  note r = ds_chunk_range [OF assms(1,2)]
  have "read_list (shm_ptr (ds_shm d) + of_nat k) 4 (ds_write d a bs mem) =
      read_list (shm_ptr (ds_shm d) + of_nat k) 4 mem" if "k + 4 \<le> 64" for k
    unfolding ds_write_def ds_resolve_of_nat
    using r assms(3) that by (intro read_write_list_disjoint) auto
  from this [of 0] this [of 4] show ?thesis by (simp add: read_header_def)
qed

text \<open>C21: payloads do not interfere. Bytes written to a chunk are read back unchanged from that
  chunk; the addresses written lie inside the mapping, after the header (distances are taken from the
  start of the mapping, modulo the size of the address space), and every byte outside the payload
  keeps its value; so neither another chunk nor the segment header is touched.\<close>

theorem segment_isolation:
  assumes "ds_wf d" and "a \<in> ds_chunks d" and "length bs \<le> unat (ds_chunk_size d)"
  shows "ds_read d a (length bs) (ds_write d a bs mem) = bs \<and>
    64 \<le> unat (ds_resolve_ptr d a - shm_ptr (ds_shm d)) \<and>
    unat (ds_resolve_ptr d a - shm_ptr (ds_shm d)) + length bs \<le> unat (shm_size (ds_shm d)) \<and>
    (\<forall>x. length bs \<le> unat (x - ds_resolve_ptr d a) \<longrightarrow> ds_write d a bs mem x = mem x) \<and>
    read_header (shm_ptr (ds_shm d)) (ds_write d a bs mem) = read_header (shm_ptr (ds_shm d)) mem \<and>
    (\<forall>b \<in> ds_chunks d. \<forall>n \<le> unat (ds_chunk_size d). b \<noteq> a \<longrightarrow>
       ds_read d b n (ds_write d a bs mem) = ds_read d b n mem)"
proof (intro conjI ballI allI impI)
  have at: "ds_resolve_ptr d a - shm_ptr (ds_shm d) = po_offset a" by (simp add: ds_resolve_ptr_def)
  show "64 \<le> unat (ds_resolve_ptr d a - shm_ptr (ds_shm d))"
    unfolding at by (rule ds_chunk_range(1) [OF assms(1,2)])
  show "unat (ds_resolve_ptr d a - shm_ptr (ds_shm d)) + length bs \<le> unat (shm_size (ds_shm d))"
    unfolding at using ds_chunk_range(2) [OF assms(1,2)] assms(3) by linarith
  show "ds_write d a bs mem x = mem x" if "length bs \<le> unat (x - ds_resolve_ptr d a)" for x
    using that by (simp add: ds_write_def write_list_def)
qed (use assms ds_read_write_same ds_write_header_intact ds_read_write_other in auto)

text \<open>An operating system in which every call succeeds and mappings start at \<open>0x10000\<close>.\<close>

definition nix_ok :: nix where
  "nix_ok = \<lparr>shm_open_new = (\<lambda>_. Ok 3), shm_open_rw = (\<lambda>_. Ok 3), ftruncate = (\<lambda>_ _. Ok ()),
     fstat_size = (\<lambda>_. Ok 128), mmap = (\<lambda>_ _. Ok 0x10000), shm_unlink = (\<lambda>_. Ok ()),
     cfg_macos = False, default_hash = (\<lambda>_. 0)\<rparr>"

lemma layout_fits_ok: "layout_fits 8 4"
  by (simp add: layout_fits_def SENTINEL_def)

lemma ds_create_ok:
  "\<exists>d mem'. ds_create nix_ok ''seg'' 8 4 0 mem = Some (Ok d, mem') \<and> ds_wf d \<and> ds_free d = ds_chunks d \<and>
     ds_chunk_size d = 8 \<and> shm_ptr (ds_shm d) = 0x10000"
proof -
  have eight: "align8 8 = 8" by (simp add: align8_def)
  have "\<exists>mem1 shm. shm_create nix_ok ''seg'' (HEADER_SIZE + align8 8 * ucast (4 :: u32)) mem = (Ok shm, mem1) \<and>
      shm_ptr shm = 0x10000"
    by (simp add: shm_create_def Let_def nix_ok_def do_mmap_def HEADER_SIZE_def eight)
  then show ?thesis using ds_create_wf [OF layout_fits_ok] eight by metis
qed

lemma ds_wf_first_chunk: "ds_wf d \<Longrightarrow> pool_chunk (ds_allocator d) 0 \<in> ds_chunks d"
  by (auto simp: ds_chunks_def pool_chunks_def ds_wf_def pool_wf_def uis_wf_def pool_capacity_def)

theorem segment_isolation_witness:
  "\<exists>d a. ds_wf d \<and> a \<in> ds_chunks d \<and> shm_ptr (ds_shm d) = 0x10000 \<and>
     (\<forall>mem. ds_read d a 3 (ds_write d a [1, 2, 3] mem) = [1, 2, 3]) \<and>
     64 \<le> unat (ds_resolve_ptr d a - 0x10000) \<and> unat (ds_resolve_ptr d a - 0x10000) + 3 \<le> unat (shm_size (ds_shm d))"
proof -
  obtain d where d: "ds_wf d" "ds_chunk_size d = 8" "shm_ptr (ds_shm d) = 0x10000" using ds_create_ok by blast
  let ?a = "pool_chunk (ds_allocator d) 0"
  have "length [1, 2, 3 :: u8] \<le> unat (ds_chunk_size d)" using d(2) by simp
  note iso = segment_isolation [OF d(1) ds_wf_first_chunk [OF d(1)] this]
  have "ds_read d ?a 3 (ds_write d ?a [1, 2, 3] mem) = [1, 2, 3]" for mem
    using iso [of mem] by (simp add: numeral_3_eq_3)
  then show ?thesis
    using iso d(1,3) ds_wf_first_chunk [OF d(1)] by (intro exI [of _ d] exI [of _ ?a]) (auto simp: numeral_3_eq_3)
qed

subsection \<open>Opening a segment\<close>

text \<open>The second mapping shows the header that the creator wrote: what \<open>MAP_SHARED\<close> promises.\<close>

definition shares_header :: "u64 \<Rightarrow> memory \<Rightarrow> u64 \<Rightarrow> memory \<Rightarrow> bool" where
  "shares_header ptr mem ptr' mem' \<longleftrightarrow> read_list ptr' 8 mem' = read_list ptr 8 mem"

lemma read_list_split: "read_list a (m + n) mem = read_list a m mem @ read_list (a + of_nat m) n mem"
proof (rule nth_equalityI)
  fix i assume "i < length (read_list a (m + n) mem)"
  then show "read_list a (m + n) mem ! i = (read_list a m mem @ read_list (a + of_nat m) n mem) ! i"
    by (auto simp: read_list_def nth_append algebra_simps of_nat_diff)
qed simp

lemma shares_header_read:
  assumes "shares_header ptr mem ptr' mem'"
  shows "read_header ptr' mem' = read_header ptr mem"
proof -
  have "read_list ptr' (4 + 4) mem' = read_list ptr (4 + 4) mem"
    using assms by (simp add: shares_header_def)
  then have "read_list ptr' 4 mem' = read_list ptr 4 mem"
      "read_list (ptr' + of_nat 4) 4 mem' = read_list (ptr + of_nat 4) 4 mem"
    unfolding read_list_split by simp_all
  then show ?thesis by (simp add: read_header_def)
qed

text \<open>C40: \<open>DataSegment::open\<close> finds the layout its creator wrote, but it starts an allocator of its
  own with every chunk free. A chunk the creator has handed out can therefore be handed out again
  by the opener: the two first allocations name the same chunk.\<close>

theorem open_aliases_creator:
  assumes fits: "layout_fits c n" and size32: "unat (align8 c) < 2 ^ 32"
    and create: "ds_create os name c n seg mem = Some (Ok d, mem1)"
    and alloc: "ds_allocate d = Some (Ok a, d1)"
    and opened: "shm_open os' name' = Ok shm'"
    and shared: "shares_header (shm_ptr (ds_shm d)) mem1 (shm_ptr shm') mem2"
  shows "\<exists>e e1. ds_open os' name' seg mem2 = Some (Ok e) \<and> ds_chunk_size e = ds_chunk_size d \<and>
    ds_chunk_count e = ds_chunk_count d \<and> ds_allocate e = Some (Ok a, e1) \<and> a \<notin> ds_free d1"
proof -
  have d: "ds_wf d" "ds_chunk_size d = align8 c" "ds_chunk_count d = n"
      "pool_segment_id (ds_allocator d) = seg"
      "read_header (shm_ptr (ds_shm d)) mem1 = (ucast (align8 c), n)"
    using ds_create_OkD [OF fits create] by auto
  have pool: "pool_new n (align8 c) seg HEADER_SIZE = Some (ds_allocator d)"
    using create
    by (auto simp: ds_create_def Let_def Option.bind_eq_Some_conv split: prod.splits result.splits)
  have "unat (ucast (ucast (align8 c) :: u32) :: u64) = unat (align8 c)"
    using size32 by (simp add: unsigned_ucast_eq unsigned_take_bit_eq take_bit_nat_eq_self)
  then have widen: "ucast (ucast (align8 c) :: u32) = align8 c"
    by (simp add: unsigned_word_eqI)
  let ?e = "\<lparr>ds_shm = shm', ds_allocator = ds_allocator d, ds_chunk_size = align8 c, ds_chunk_count = n\<rparr>"
  have "ds_open os' name' seg mem2 = Some (Ok ?e)"
    using opened shares_header_read [OF shared] d(5) widen pool by (simp add: ds_open_def)
  moreover have "\<exists>e1. ds_allocate ?e = Some (Ok a, e1)"
    using alloc by (auto simp: ds_allocate_def Option.bind_eq_Some_conv)
  moreover have "a \<notin> ds_free d1"
    using ds.acquire_OkD [OF d(1) alloc] by auto
  ultimately show ?thesis using d(2,3) by auto
qed

theorem open_aliases_creator_witness:
  "\<exists>d mem1 a d1 e e1. ds_create nix_ok ''seg'' 8 4 0 (\<lambda>_. 0) = Some (Ok d, mem1) \<and>
     ds_allocate d = Some (Ok a, d1) \<and>
     ds_open nix_ok ''seg'' 0 mem1 = Some (Ok e) \<and> ds_allocate e = Some (Ok a, e1)"
proof -
  obtain d mem1 where d: "ds_create nix_ok ''seg'' 8 4 0 (\<lambda>_. 0) = Some (Ok d, mem1)" "ds_wf d"
      "ds_free d = ds_chunks d" "shm_ptr (ds_shm d) = 0x10000"
    using ds_create_ok by blast
  have "ds_free d \<noteq> {}" using d(3) ds_wf_first_chunk [OF d(2)] by auto
  then obtain a d1 where alloc: "ds_allocate d = Some (Ok a, d1)"
    using ds.acquire_free [OF d(2)] by blast
  have opened: "shm_open nix_ok ''seg'' = Ok \<lparr>shm_ptr = 0x10000, shm_size = 128,
      shm_name = normalize_name nix_ok ''seg'', shm_is_owner = False\<rparr>"
    by (simp add: shm_open_def nix_ok_def do_mmap_def Let_def)
  have "unat (align8 8) < 2 ^ 32" by (simp add: align8_def)
  from open_aliases_creator [OF layout_fits_ok this d(1) alloc opened, of mem1] d(1,4) alloc show ?thesis
    by (auto simp: shares_header_def)
qed

subsection \<open>The chunks that are out\<close>

definition ds_out :: "data_segment \<Rightarrow> pointer_offset set" where
  "ds_out d = ds_chunks d - ds_free d"

lemma finite_ds_out [simp]: "finite (ds_out d)"
  using ds.finite_slots by (simp add: ds_out_def)

lemma ds_out_chunks: "x \<in> ds_out d \<Longrightarrow> x \<in> ds_chunks d"
  by (simp add: ds_out_def)

lemma ds_same_resolve: "ds_same d e \<Longrightarrow> ds_resolve_ptr d = ds_resolve_ptr e"
  by (simp add: ds_same_def ds_resolve_ptr_def fun_eq_iff)

lemma ds_same_read: "ds_same d e \<Longrightarrow> ds_read d = ds_read e"
  by (simp add: ds_read_def fun_eq_iff ds_same_resolve)

lemma ds_out_allocate:
  assumes "ds_wf d" "a \<in> ds_free d" "ds_free d' = ds_free d - {a}" "ds_same d' d"
  shows "ds_out d' = insert a (ds_out d)" and "a \<notin> ds_out d" and "a \<in> ds_chunks d"
  using assms ds.free_slots [OF assms(1)] ds_same_chunks [OF assms(4)] by (auto simp: ds_out_def)

lemma ds_out_deallocate:
  assumes "ds_wf d" and "a \<in> ds_out d"
  obtains d' where "ds_deallocate a d = Some d'" "ds_out d' = ds_out d - {a}" "ds_wf d'" "ds_same d' d"
proof -
  obtain d' where d': "ds_deallocate a d = Some d'" "ds_free d' = insert a (ds_free d)" "ds_wf d'" "ds_same d' d"
    using ds_deallocate_held [OF assms(1)] assms(2) by (auto simp: ds_out_def)
  then have "ds_out d' = ds_out d - {a}" using ds_same_chunks [OF d'(4)] by (auto simp: ds_out_def)
  with d' show ?thesis using that by blast
qed

lemma card_ds_chunks: "ds_wf d \<Longrightarrow> card (ds_chunks d) = unat (ds_chunk_count d)"
proof -
  assume wf: "ds_wf d"
  have "card (ds_chunks d) = card {..<ds_chunk_count d}"
    using pool_chunk_inj [of "ds_allocator d"] wf
    by (simp add: ds_chunks_def pool_chunks_def ds_wf_def card_image)
  also have "\<dots> = card (unat ` {..<ds_chunk_count d})"
    by (simp add: card_image inj_on_word_unat)
  also have "unat ` {..<ds_chunk_count d} = {..<unat (ds_chunk_count d)}"
  proof (rule equalityI)
    show "unat ` {..<ds_chunk_count d} \<subseteq> {..<unat (ds_chunk_count d)}" by (auto simp: word_less_nat_alt)
    show "{..<unat (ds_chunk_count d)} \<subseteq> unat ` {..<ds_chunk_count d}"
    proof
      fix i assume "i \<in> {..<unat (ds_chunk_count d)}"
      then have "i < unat (ds_chunk_count d)" by simp
      moreover from this have "unat (of_nat i :: u32) = i"
        using unat_bound [of "ds_chunk_count d"] by (intro unat_of_nat_less) simp
      ultimately show "i \<in> unat ` {..<ds_chunk_count d}"
        by (intro image_eqI [of _ _ "of_nat i"]) (auto simp: word_less_nat_alt)
    qed
  qed
  finally show ?thesis by simp
qed

end
