(* ===== verification/Channel_Specs.thy ===== *)
theory Channel_Specs
  imports Transport_Types
begin

text \<open>
  What the ports rely on when they pass chunks to each other: a channel with a bounded queue of
  chunks in flight, a bounded queue of chunks on their way back, and a disconnected state in which
  nothing can be sent but everything in flight is still delivered. The client lemmas are about
  whole deliveries and follow from the contract.
\<close>

locale offset_channel =
  fixes invar :: "'c \<Rightarrow> bool"
    and inflight :: "'c \<Rightarrow> pointer_offset list"
    and returned :: "'c \<Rightarrow> pointer_offset list"
    and closed :: "'c \<Rightarrow> bool"
    and bound :: "'c \<Rightarrow> nat"
    and send :: "pointer_offset \<Rightarrow> 'c \<Rightarrow> ((unit, send_error) result \<times> 'c) option"
    and receive :: "'c \<Rightarrow> ((pointer_offset, receive_error) result \<times> 'c) option"
    and give_back :: "pointer_offset \<Rightarrow> 'c \<Rightarrow> (bool \<times> 'c) option"
    and reclaim :: "'c \<Rightarrow> (pointer_offset option \<times> 'c) option"
  assumes inflight_bound: "invar c \<Longrightarrow> length (inflight c) \<le> bound c"
    and returned_bound: "invar c \<Longrightarrow> length (returned c) \<le> bound c"
    and send_closed: "invar c \<Longrightarrow> closed c \<Longrightarrow> send a c = Some (Err SendConnectionBroken, c)"
    and send_full: "invar c \<Longrightarrow> \<not> closed c \<Longrightarrow> length (inflight c) = bound c \<Longrightarrow>
      send a c = Some (Err QueueFull, c)"
    and send_room: "invar c \<Longrightarrow> \<not> closed c \<Longrightarrow> length (inflight c) < bound c \<Longrightarrow>
      \<exists>c'. send a c = Some (Ok (), c') \<and> inflight c' = inflight c @ [a] \<and> returned c' = returned c \<and>
        closed c' = closed c \<and> bound c' = bound c \<and> invar c'"
    and receive_none: "invar c \<Longrightarrow> inflight c = [] \<Longrightarrow>
      receive c = Some (Err (if closed c then ReceiveConnectionBroken else Empty), c)"
    and receive_Cons: "invar c \<Longrightarrow> inflight c = a # as \<Longrightarrow>
      \<exists>c'. receive c = Some (Ok a, c') \<and> inflight c' = as \<and> returned c' = returned c \<and>
        closed c' = closed c \<and> bound c' = bound c \<and> invar c'"
    and give_back_full: "invar c \<Longrightarrow> length (returned c) = bound c \<Longrightarrow> give_back a c = Some (False, c)"
    and give_back_room: "invar c \<Longrightarrow> length (returned c) < bound c \<Longrightarrow>
      \<exists>c'. give_back a c = Some (True, c') \<and> returned c' = returned c @ [a] \<and> inflight c' = inflight c \<and>
        closed c' = closed c \<and> bound c' = bound c \<and> invar c'"
    and reclaim_none: "invar c \<Longrightarrow> returned c = [] \<Longrightarrow> reclaim c = Some (None, c)"
    and reclaim_Cons: "invar c \<Longrightarrow> returned c = a # as \<Longrightarrow>
      \<exists>c'. reclaim c = Some (Some a, c') \<and> returned c' = as \<and> inflight c' = inflight c \<and>
        closed c' = closed c \<and> bound c' = bound c \<and> invar c'"
begin

lemma send_total:
  assumes "invar c"
  shows "\<exists>r c'. send a c = Some (r, c') \<and> invar c' \<and> bound c' = bound c \<and> closed c' = closed c \<and>
    returned c' = returned c \<and>
    (case r of Ok _ \<Rightarrow> inflight c' = inflight c @ [a] \<and> \<not> closed c
     | Err e \<Rightarrow> c' = c \<and> e = (if closed c then SendConnectionBroken else QueueFull) \<and>
         (\<not> closed c \<longrightarrow> length (inflight c) = bound c))"
proof (cases "closed c")
  case True
  with send_closed [OF assms True] assms show ?thesis by auto
next
  case False
  show ?thesis
  proof (cases "length (inflight c) < bound c")
    case True
    with send_room [OF assms False True, of a] False show ?thesis by auto
  next
    case full: False
    with inflight_bound [OF assms] have "length (inflight c) = bound c" by simp
    with send_full [OF assms False] False assms show ?thesis by auto
  qed
qed

text \<open>Receiving everything that is in flight, the chunks in the order they were sent.\<close>

fun receive_n :: "nat \<Rightarrow> 'c \<Rightarrow> (pointer_offset list \<times> 'c) option" where
  "receive_n 0 c = Some ([], c)"
| "receive_n (Suc n) c =
     (case receive c of Some (Ok a, c') \<Rightarrow> map_option (apfst ((#) a)) (receive_n n c') | _ \<Rightarrow> None)"

lemma receive_n_inflight:
  "invar c \<Longrightarrow> inflight c = as @ bs \<Longrightarrow>
     \<exists>c'. receive_n (length as) c = Some (as, c') \<and> inflight c' = bs \<and> returned c' = returned c \<and>
       closed c' = closed c \<and> bound c' = bound c \<and> invar c'"
proof (induction as arbitrary: c)
  case (Cons a as)
  then obtain c1 where "receive c = Some (Ok a, c1)" "inflight c1 = as @ bs" "returned c1 = returned c"
      "closed c1 = closed c" "bound c1 = bound c" "invar c1"
    using receive_Cons [of c a "as @ bs"] by auto
  with Cons.IH [of c1] show ?case by auto
qed simp

text \<open>The reclaiming loop of a sender, \<open>while let Some(offset) = channel.reclaim()\<close>.\<close>

fun reclaim_n :: "nat \<Rightarrow> 'c \<Rightarrow> (pointer_offset list \<times> 'c) option" where
  "reclaim_n 0 c = None"
| "reclaim_n (Suc n) c =
     (case reclaim c of
        None \<Rightarrow> None
      | Some (None, c') \<Rightarrow> Some ([], c')
      | Some (Some a, c') \<Rightarrow> map_option (apfst ((#) a)) (reclaim_n n c'))"

lemma reclaim_n_all:
  "invar c \<Longrightarrow> length (returned c) < n \<Longrightarrow>
     \<exists>c'. reclaim_n n c = Some (returned c, c') \<and> returned c' = [] \<and> inflight c' = inflight c \<and>
       closed c' = closed c \<and> bound c' = bound c \<and> invar c'"
proof (induction n arbitrary: c)
  case (Suc n)
  show ?case
  proof (cases "returned c")
    case Nil
    with reclaim_none [OF Suc.prems(1) Nil] Suc.prems show ?thesis by auto
  next
    case (Cons a as)
    with reclaim_Cons [OF Suc.prems(1) Cons] obtain c1 where
      "reclaim c = Some (Some a, c1)" "returned c1 = as" "inflight c1 = inflight c"
      "closed c1 = closed c" "bound c1 = bound c" "invar c1"
      by blast
    with Suc.IH [of c1] Suc.prems Cons show ?thesis by auto
  qed
qed simp

end

end
