(* ===== verification/Channel.thy ===== *)
theory Channel
  imports Spsc_Queue Channel_Specs "HOL-Library.Multiset"
begin

text \<open>
  \<open>ZeroCopyChannel\<close> of \<open>crates/entangle-transport/src/channel.rs\<close>: two queues of raw pointer offsets
  and a state byte. The proofs use the queue contract (\<open>spsc\<close>) only, and \<open>ch\<close> interprets the channel
  contract the ports rely on.
\<close>

record channel =
  ch_send_queue :: spsc_queue
  ch_return_queue :: spsc_queue
  ch_state :: u8
  ch_sender_id :: u128
  ch_receiver_id :: u128

fun state_code :: "channel_state \<Rightarrow> u8" where
  "state_code Creating = 0"
| "state_code Connected = 1"
| "state_code Disconnected = 2"

definition ch_new :: "usize \<Rightarrow> u128 \<Rightarrow> u128 \<Rightarrow> channel" where
  "ch_new capacity sender_id receiver_id =
     \<lparr>ch_send_queue = spsc_new capacity, ch_return_queue = spsc_new capacity,
      ch_state = state_code Creating, ch_sender_id = sender_id, ch_receiver_id = receiver_id\<rparr>"

definition ch_connect :: "channel \<Rightarrow> channel" where
  "ch_connect c = c\<lparr>ch_state := state_code Connected\<rparr>"

definition ch_disconnect :: "channel \<Rightarrow> channel" where
  "ch_disconnect c = c\<lparr>ch_state := state_code Disconnected\<rparr>"

definition ch_get_state :: "channel \<Rightarrow> channel_state" where
  "ch_get_state c =
     (if ch_state c = 0 then Creating else if ch_state c = 1 then Connected else Disconnected)"

definition ch_send :: "pointer_offset \<Rightarrow> channel \<Rightarrow> ((unit, send_error) result \<times> channel) option" where
  "ch_send offset c =
     (if ch_get_state c = Disconnected then Some (Err SendConnectionBroken, c)
      else do {
        (pushed, q) \<leftarrow> spsc_push (ch_send_queue c) (po_raw offset);
        let c = c\<lparr>ch_send_queue := q\<rparr>;
        if \<not> pushed then Some (Err QueueFull, c) else Some (Ok (), c)
      })"

definition ch_receive :: "channel \<Rightarrow> ((pointer_offset, receive_error) result \<times> channel) option" where
  "ch_receive c =
     (if ch_get_state c = Disconnected \<and> spsc_is_empty (ch_send_queue c)
      then Some (Err ReceiveConnectionBroken, c)
      else do {
        (r, q) \<leftarrow> spsc_pop (ch_send_queue c);
        let c = c\<lparr>ch_send_queue := q\<rparr>;
        case r of None \<Rightarrow> Some (Err Empty, c) | Some raw \<Rightarrow> Some (Ok (po_from_raw raw), c)
      })"

text \<open>One turn of the loop in \<open>return_offset\<close>, and the loop: \<open>Spinning\<close> when the given number of turns
  did not find room.\<close>

definition ch_return_try :: "pointer_offset \<Rightarrow> channel \<Rightarrow> (bool \<times> channel) option" where
  "ch_return_try offset c = do {
     (pushed, q) \<leftarrow> spsc_push (ch_return_queue c) (po_raw offset);
     Some (pushed, c\<lparr>ch_return_queue := q\<rparr>)
   }"

datatype 'a spin = Done 'a | Spinning

fun ch_return_offset :: "nat \<Rightarrow> pointer_offset \<Rightarrow> channel \<Rightarrow> channel spin option" where
  "ch_return_offset 0 offset c = Some Spinning"
| "ch_return_offset (Suc turns) offset c = do {
     (pushed, c) \<leftarrow> ch_return_try offset c;
     if pushed then Some (Done c) else ch_return_offset turns offset c
   }"

definition ch_reclaim :: "channel \<Rightarrow> (pointer_offset option \<times> channel) option" where
  "ch_reclaim c = do {
     (r, q) \<leftarrow> spsc_pop (ch_return_queue c);
     Some (map_option po_from_raw r, c\<lparr>ch_return_queue := q\<rparr>)
   }"

definition ch_pending_count :: "channel \<Rightarrow> usize" where
  "ch_pending_count c = spsc_len (ch_send_queue c)"

definition ch_return_count :: "channel \<Rightarrow> usize" where
  "ch_return_count c = spsc_len (ch_return_queue c)"

subsection \<open>The two queues as lists of offsets\<close>

definition ch_inflight :: "channel \<Rightarrow> pointer_offset list" where
  "ch_inflight c = map po_from_raw (spsc_items (ch_send_queue c))"

definition ch_returned :: "channel \<Rightarrow> pointer_offset list" where
  "ch_returned c = map po_from_raw (spsc_items (ch_return_queue c))"

definition ch_bound :: "channel \<Rightarrow> nat" where
  "ch_bound c = unat (spsc_capacity (ch_send_queue c))"

definition ch_closed :: "channel \<Rightarrow> bool" where
  "ch_closed c \<longleftrightarrow> ch_get_state c = Disconnected"

definition ch_wf :: "channel \<Rightarrow> bool" where
  "ch_wf c \<longleftrightarrow> spsc_wf (ch_send_queue c) \<and> spsc_wf (ch_return_queue c) \<and>
     spsc_capacity (ch_return_queue c) = spsc_capacity (ch_send_queue c)"

lemma ch_fields [simp]:
  "ch_inflight (c\<lparr>ch_return_queue := q\<rparr>) = ch_inflight c"
  "ch_returned (c\<lparr>ch_send_queue := q\<rparr>) = ch_returned c"
  "ch_bound (c\<lparr>ch_return_queue := q\<rparr>) = ch_bound c"
  "ch_closed (c\<lparr>ch_return_queue := q\<rparr>) = ch_closed c" "ch_closed (c\<lparr>ch_send_queue := q\<rparr>) = ch_closed c"
  by (simp_all add: ch_inflight_def ch_returned_def ch_bound_def ch_closed_def ch_get_state_def)

lemma ch_new_wf [simp]:
  "ch_wf (ch_new n s r)" "ch_inflight (ch_new n s r) = []" "ch_returned (ch_new n s r) = []"
  "ch_bound (ch_new n s r) = unat (spsc_capacity (spsc_new n))" "\<not> ch_closed (ch_new n s r)"
  using spsc_new_wf [of n]
  by (simp_all add: ch_new_def ch_wf_def ch_inflight_def ch_returned_def ch_bound_def ch_closed_def
      ch_get_state_def)

lemma ch_connect_simps [simp]:
  "ch_wf (ch_connect c) = ch_wf c" "ch_inflight (ch_connect c) = ch_inflight c"
  "ch_returned (ch_connect c) = ch_returned c" "ch_bound (ch_connect c) = ch_bound c"
  "\<not> ch_closed (ch_connect c)" "ch_wf (ch_disconnect c) = ch_wf c"
  "ch_inflight (ch_disconnect c) = ch_inflight c" "ch_returned (ch_disconnect c) = ch_returned c"
  "ch_bound (ch_disconnect c) = ch_bound c" "ch_closed (ch_disconnect c)"
  by (simp_all add: ch_connect_def ch_disconnect_def ch_wf_def ch_inflight_def ch_returned_def
      ch_bound_def ch_closed_def ch_get_state_def)

lemma ch_with_send:
  assumes "ch_wf c" and "spsc_wf q" and "unat (spsc_capacity q) = unat (spsc_capacity (ch_send_queue c))"
  shows "ch_wf (c\<lparr>ch_send_queue := q\<rparr>)" and "ch_bound (c\<lparr>ch_send_queue := q\<rparr>) = ch_bound c"
    and "ch_inflight (c\<lparr>ch_send_queue := q\<rparr>) = map po_from_raw (spsc_items q)"
  using assms unsigned_word_eqI [OF assms(3)] by (simp_all add: ch_wf_def ch_bound_def ch_inflight_def)

lemma ch_with_return:
  assumes "ch_wf c" and "spsc_wf q" and "unat (spsc_capacity q) = unat (spsc_capacity (ch_return_queue c))"
  shows "ch_wf (c\<lparr>ch_return_queue := q\<rparr>)"
    and "ch_returned (c\<lparr>ch_return_queue := q\<rparr>) = map po_from_raw (spsc_items q)"
  using assms unsigned_word_eqI [OF assms(3)] by (simp_all add: ch_wf_def ch_returned_def)

lemma ch_send_room:
  assumes wf: "ch_wf c" and live: "\<not> ch_closed c" and room: "length (ch_inflight c) < ch_bound c"
  shows "\<exists>c'. ch_send a c = Some (Ok (), c') \<and> ch_inflight c' = ch_inflight c @ [a] \<and>
    ch_returned c' = ch_returned c \<and> ch_closed c' = ch_closed c \<and> ch_bound c' = ch_bound c \<and> ch_wf c'"
proof -
  let ?s = "ch_send_queue c"
  have s: "spsc_wf ?s" using wf by (simp add: ch_wf_def)
  obtain q where q: "spsc_push ?s (po_raw a) = Some (True, q)" "spsc_items q = spsc_items ?s @ [po_raw a]"
      "spsc_wf q" "unat (spsc_capacity q) = unat (spsc_capacity ?s)"
    using spsc.push_room [OF s] room by (auto simp: ch_inflight_def ch_bound_def)
  then have "ch_send a c = Some (Ok (), c\<lparr>ch_send_queue := q\<rparr>)"
    using live by (simp add: ch_send_def ch_closed_def)
  then show ?thesis using q(2) ch_with_send [OF wf q(3,4)] by (simp add: ch_inflight_def)
qed

lemma ch_receive_Cons:
  assumes wf: "ch_wf c" and inflight: "ch_inflight c = a # as"
  shows "\<exists>c'. ch_receive c = Some (Ok a, c') \<and> ch_inflight c' = as \<and> ch_returned c' = ch_returned c \<and>
    ch_closed c' = ch_closed c \<and> ch_bound c' = ch_bound c \<and> ch_wf c'"
proof -
  let ?s = "ch_send_queue c"
  have s: "spsc_wf ?s" using wf by (simp add: ch_wf_def)
  obtain v vs where items: "spsc_items ?s = v # vs" "a = po_from_raw v" "as = map po_from_raw vs"
    using inflight by (auto simp: ch_inflight_def)
  obtain q where q: "spsc_pop ?s = Some (Some v, q)" "spsc_items q = vs" "spsc_wf q"
      "unat (spsc_capacity q) = unat (spsc_capacity ?s)"
    using spsc.pop_Cons [OF s items(1)] by auto
  then have "ch_receive c = Some (Ok a, c\<lparr>ch_send_queue := q\<rparr>)"
    using spsc_queries(1) [OF s] items by (simp add: ch_receive_def)
  then show ?thesis using q(2) items ch_with_send [OF wf q(3,4)] by simp
qed

lemma ch_return_room:
  assumes wf: "ch_wf c" and room: "length (ch_returned c) < ch_bound c"
  shows "\<exists>c'. ch_return_try a c = Some (True, c') \<and> ch_returned c' = ch_returned c @ [a] \<and>
    ch_inflight c' = ch_inflight c \<and> ch_closed c' = ch_closed c \<and> ch_bound c' = ch_bound c \<and> ch_wf c'"
proof -
  let ?r = "ch_return_queue c"
  have r: "spsc_wf ?r" "spsc_capacity ?r = spsc_capacity (ch_send_queue c)" using wf by (simp_all add: ch_wf_def)
  obtain q where q: "spsc_push ?r (po_raw a) = Some (True, q)" "spsc_items q = spsc_items ?r @ [po_raw a]"
      "spsc_wf q" "unat (spsc_capacity q) = unat (spsc_capacity ?r)"
    using spsc.push_room [OF r(1)] room r(2) by (auto simp: ch_returned_def ch_bound_def)
  then have "ch_return_try a c = Some (True, c\<lparr>ch_return_queue := q\<rparr>)" by (simp add: ch_return_try_def)
  then show ?thesis using q(2) ch_with_return [OF wf q(3,4)] by (simp add: ch_returned_def)
qed

lemma ch_reclaim_Cons:
  assumes wf: "ch_wf c" and returned: "ch_returned c = a # as"
  shows "\<exists>c'. ch_reclaim c = Some (Some a, c') \<and> ch_returned c' = as \<and> ch_inflight c' = ch_inflight c \<and>
    ch_closed c' = ch_closed c \<and> ch_bound c' = ch_bound c \<and> ch_wf c'"
proof -
  let ?r = "ch_return_queue c"
  have r: "spsc_wf ?r" using wf by (simp add: ch_wf_def)
  obtain v vs where items: "spsc_items ?r = v # vs" "a = po_from_raw v" "as = map po_from_raw vs"
    using returned by (auto simp: ch_returned_def)
  obtain q where q: "spsc_pop ?r = Some (Some v, q)" "spsc_items q = vs" "spsc_wf q"
      "unat (spsc_capacity q) = unat (spsc_capacity ?r)"
    using spsc.pop_Cons [OF r items(1)] by auto
  then have "ch_reclaim c = Some (Some a, c\<lparr>ch_return_queue := q\<rparr>)"
    using items by (simp add: ch_reclaim_def)
  then show ?thesis using q(2) items ch_with_return [OF wf q(3,4)] by simp
qed

interpretation ch: offset_channel ch_wf ch_inflight ch_returned ch_closed ch_bound
  ch_send ch_receive ch_return_try ch_reclaim
proof
  fix c :: channel and a
  assume wf: "ch_wf c"
  have s: "spsc_wf (ch_send_queue c)" and r: "spsc_wf (ch_return_queue c)"
    and cap: "spsc_capacity (ch_return_queue c) = spsc_capacity (ch_send_queue c)"
    using wf by (auto simp: ch_wf_def)
  show "length (ch_inflight c) \<le> ch_bound c"
    using spsc.items_bound [OF s] by (simp add: ch_inflight_def ch_bound_def)
  show "length (ch_returned c) \<le> ch_bound c"
    using spsc.items_bound [OF r] cap by (simp add: ch_returned_def ch_bound_def)
  show "ch_send a c = Some (Err SendConnectionBroken, c)" if "ch_closed c"
    using that by (simp add: ch_send_def ch_closed_def)
  show "ch_send a c = Some (Err QueueFull, c)" if "\<not> ch_closed c" "length (ch_inflight c) = ch_bound c"
    using that spsc.push_full [OF s] by (simp add: ch_send_def ch_closed_def ch_inflight_def ch_bound_def)
  show "ch_receive c = Some (Err (if ch_closed c then ReceiveConnectionBroken else Empty), c)"
    if "ch_inflight c = []"
    using that spsc.pop_empty [OF s] spsc_queries(1) [OF s]
    by (simp add: ch_receive_def ch_closed_def ch_inflight_def)
  show "ch_return_try a c = Some (False, c)" if "length (ch_returned c) = ch_bound c"
    using that spsc.push_full [OF r] cap by (simp add: ch_return_try_def ch_returned_def ch_bound_def)
  show "ch_reclaim c = Some (None, c)" if "ch_returned c = []"
    using that spsc.pop_empty [OF r] by (simp add: ch_reclaim_def ch_returned_def)
qed (rule ch_send_room ch_receive_Cons ch_return_room ch_reclaim_Cons; assumption)+

subsection \<open>Delivery and return\<close>

text \<open>Disconnecting loses nothing that was accepted. After \<open>disconnect\<close> the receiver still gets
  every chunk in flight, in the order of sending; only then is it told that the connection is
  broken, and every further \<open>send\<close> is refused.\<close>

theorem channel_drains:
  assumes "ch_wf c"
  shows "\<exists>c'. ch.receive_n (length (ch_inflight c)) (ch_disconnect c) = Some (ch_inflight c, c') \<and>
    ch_receive c' = Some (Err ReceiveConnectionBroken, c') \<and>
    ch_send a c' = Some (Err SendConnectionBroken, c')"
proof -
  obtain c' where c': "ch.receive_n (length (ch_inflight c)) (ch_disconnect c) = Some (ch_inflight c, c')"
      "ch_inflight c' = []" "ch_closed c'" "ch_wf c'"
    using ch.receive_n_inflight [of "ch_disconnect c" "ch_inflight c" "[]"] assms by auto
  then show ?thesis using ch.receive_none [OF c'(4,2)] ch.send_closed [OF c'(4,3)] by auto
qed

lemma ch_send_ok:
  "\<exists>c. ch_send a (ch_connect (ch_new 2 1 2)) = Some (Ok (), c) \<and> ch_wf c \<and> ch_inflight c = [a]"
proof -
  have "2 \<le> ch_bound (ch_connect (ch_new 2 1 2))"
    using spsc_new_capacity [of 2] by (simp add: word_le_nat_alt)
  then show ?thesis
    using ch.send_room [of "ch_connect (ch_new 2 1 2)" a] by auto
qed

theorem channel_drains_witness:
  "\<exists>c c'. ch_wf c \<and> ch_inflight c = [po_new 0 64] \<and>
     ch.receive_n 1 (ch_disconnect c) = Some ([po_new 0 64], c') \<and>
     ch_receive c' = Some (Err ReceiveConnectionBroken, c')"
proof -
  obtain c where c: "ch_wf c" "ch_inflight c = [po_new 0 64]" using ch_send_ok by blast
  obtain c' where "ch.receive_n (length (ch_inflight c)) (ch_disconnect c) = Some (ch_inflight c, c')"
      "ch_receive c' = Some (Err ReceiveConnectionBroken, c')"
    using channel_drains [OF c(1), of "po_new 0 0"] by blast
  then have "ch.receive_n 1 (ch_disconnect c) = Some ([po_new 0 64], c')"
      "ch_receive c' = Some (Err ReceiveConnectionBroken, c')"
    using c(2) by simp_all
  then show ?thesis using c by blast
qed

text \<open>A channel in use: \<open>held\<close> are the chunks the receiver has taken and not yet returned, \<open>out\<close> the
  chunks the sender has sent and not yet reclaimed.\<close>

record ch_use =
  chan :: channel
  held :: "pointer_offset list"
  out :: "pointer_offset multiset"

inductive ch_use_step :: "ch_use \<Rightarrow> ch_use \<Rightarrow> bool" where
  use_send: "ch_send a (chan u) = Some (Ok (), c) \<Longrightarrow>
    ch_use_step u (u\<lparr>chan := c, out := add_mset a (out u)\<rparr>)"
| use_receive: "ch_receive (chan u) = Some (Ok a, c) \<Longrightarrow>
    ch_use_step u (u\<lparr>chan := c, held := a # held u\<rparr>)"
| use_return: "a \<in> set (held u) \<Longrightarrow> ch_return_try a (chan u) = Some (True, c) \<Longrightarrow>
    ch_use_step u (u\<lparr>chan := c, held := remove1 a (held u)\<rparr>)"
| use_reclaim: "ch_reclaim (chan u) = Some (Some a, c) \<Longrightarrow>
    ch_use_step u (u\<lparr>chan := c, out := out u - {#a#}\<rparr>)"
| use_disconnect: "ch_use_step u (u\<lparr>chan := ch_disconnect (chan u)\<rparr>)"

inductive ch_use_reach :: "usize \<Rightarrow> ch_use \<Rightarrow> bool" for n where
  use_init: "ch_use_reach n \<lparr>chan = ch_connect (ch_new n s r), held = [], out = {#}\<rparr>"
| use_step: "ch_use_reach n u \<Longrightarrow> ch_use_step u v \<Longrightarrow> ch_use_reach n v"

definition ch_use_inv :: "ch_use \<Rightarrow> bool" where
  "ch_use_inv u \<longleftrightarrow> ch_wf (chan u) \<and>
     out u = mset (ch_inflight (chan u)) + mset (held u) + mset (ch_returned (chan u))"

lemma ch_use_inv_step: "ch_use_step u v \<Longrightarrow> ch_use_inv u \<Longrightarrow> ch_use_inv v"
proof (induction rule: ch_use_step.induct)
  case (use_send a u c)
  then show ?case using ch.send_total [of "chan u" a] by (auto simp: ch_use_inv_def)
next
  case (use_receive u a c)
  then show ?case
    using ch.receive_Cons [of "chan u"] ch.receive_none [of "chan u"]
    by (cases "ch_inflight (chan u)") (fastforce simp: ch_use_inv_def)+
next
  case (use_return a u c)
  then have wf: "ch_wf (chan u)" by (simp add: ch_use_inv_def)
  have "length (ch_returned (chan u)) < ch_bound (chan u)"
    using ch.returned_bound [OF wf] ch.give_back_full [OF wf, of a] use_return.hyps(2)
    by (cases "length (ch_returned (chan u)) = ch_bound (chan u)") auto
  with ch.give_back_room [OF wf, of a] use_return show ?case by (auto simp: ch_use_inv_def)
next
  case (use_reclaim u a c)
  then show ?case
    using ch.reclaim_Cons [of "chan u"] ch.reclaim_none [of "chan u"]
    by (cases "ch_returned (chan u)") (fastforce simp: ch_use_inv_def)+
next
  case (use_disconnect u)
  then show ?case by (simp add: ch_use_inv_def)
qed

lemma ch_use_reach_inv: "ch_use_reach n u \<Longrightarrow> ch_use_inv u"
proof (induction rule: ch_use_reach.induct)
  case (use_init s r)
  show ?case by (simp add: ch_use_inv_def)
next
  case (use_step u v)
  then show ?case by (blast intro: ch_use_inv_step)
qed

lemma ch_return_offset_room:
  assumes "ch_wf c" and "length (ch_returned c) < ch_bound c" and "0 < turns"
  shows "\<exists>c'. ch_return_offset turns a c = Some (Done c') \<and> ch_returned c' = ch_returned c @ [a]"
  using ch.give_back_room [OF assms(1,2), of a] assms(3) by (cases turns) auto

lemma ch_return_offset_full:
  "ch_wf c \<Longrightarrow> length (ch_returned c) = ch_bound c \<Longrightarrow> ch_return_offset turns a c = Some Spinning"
  by (induction turns) (simp_all add: ch.give_back_full)

text \<open>C20: chunks are conserved and neither direction blocks a disciplined sender. However a channel is used,
  what the sender has sent and not reclaimed is exactly what is in flight, held by the receiver or
  on its way back. So while fewer chunks than the channel's capacity are unreclaimed, a \<open>send\<close> on a
  channel that has not been disconnected succeeds; while no more than the capacity are, \<open>return_offset\<close>
  succeeds at its first attempt; a full return queue makes it spin for as long as nobody reclaims, and a
  full send queue makes \<open>send\<close> fail.\<close>

theorem channel_circulation:
  assumes "ch_use_reach n u"
  shows "out u = mset (ch_inflight (chan u)) + mset (held u) + mset (ch_returned (chan u)) \<and>
    (size (out u) < ch_bound (chan u) \<longrightarrow> \<not> ch_closed (chan u) \<longrightarrow>
       (\<exists>c. ch_send b (chan u) = Some (Ok (), c) \<and> ch_inflight c = ch_inflight (chan u) @ [b])) \<and>
    (a \<in> set (held u) \<longrightarrow> size (out u) \<le> ch_bound (chan u) \<longrightarrow>
       (\<exists>c. ch_return_offset 1 a (chan u) = Some (Done c) \<and> ch_returned c = ch_returned (chan u) @ [a])) \<and>
    (length (ch_returned (chan u)) = ch_bound (chan u) \<longrightarrow>
       (\<forall>turns. ch_return_offset turns a (chan u) = Some Spinning)) \<and>
    (length (ch_inflight (chan u)) = ch_bound (chan u) \<longrightarrow> \<not> ch_closed (chan u) \<longrightarrow>
       ch_send b (chan u) = Some (Err QueueFull, chan u))"
proof (intro conjI impI allI)
  have inv: "ch_wf (chan u)"
      and out: "out u = mset (ch_inflight (chan u)) + mset (held u) + mset (ch_returned (chan u))"
    using ch_use_reach_inv [OF assms] by (auto simp: ch_use_inv_def)
  then have size: "size (out u) = length (ch_inflight (chan u)) + length (held u) + length (ch_returned (chan u))"
    by simp
  show "out u = mset (ch_inflight (chan u)) + mset (held u) + mset (ch_returned (chan u))" by (rule out)
  show "\<exists>c. ch_send b (chan u) = Some (Ok (), c) \<and> ch_inflight c = ch_inflight (chan u) @ [b]"
    if "size (out u) < ch_bound (chan u)" "\<not> ch_closed (chan u)"
    using ch.send_room [OF inv that(2), of b] that(1) size by auto
  show "ch_return_offset turns a (chan u) = Some Spinning"
    if "length (ch_returned (chan u)) = ch_bound (chan u)" for turns
    using ch_return_offset_full [OF inv that] .
  show "\<exists>c. ch_return_offset 1 a (chan u) = Some (Done c) \<and> ch_returned c = ch_returned (chan u) @ [a]"
    if "a \<in> set (held u)" "size (out u) \<le> ch_bound (chan u)"
  proof -
    have "0 < length (held u)" using that(1) by (cases "held u") auto
    then have "length (ch_returned (chan u)) < ch_bound (chan u)" using that(2) size by linarith
    then show ?thesis using ch_return_offset_room [OF inv, of 1 a] by simp
  qed
  show "ch_send b (chan u) = Some (Err QueueFull, chan u)"
    if "length (ch_inflight (chan u)) = ch_bound (chan u)" "\<not> ch_closed (chan u)"
    using ch.send_full [OF inv that(2,1)] .
qed

text \<open>One chunk is sent, received and still held: another can be sent, and the held one can be returned.\<close>

theorem channel_circulation_witness:
  "\<exists>u. ch_use_reach 2 u \<and> held u = [po_new 0 64] \<and> out u = {#po_new 0 64#} \<and>
     (\<exists>c. ch_send (po_new 0 72) (chan u) = Some (Ok (), c)) \<and>
     (\<exists>c. ch_return_offset 1 (po_new 0 64) (chan u) = Some (Done c))"
proof -
  let ?c0 = "ch_connect (ch_new 2 1 2)"
  have bound: "2 \<le> ch_bound ?c0" using spsc_new_capacity [of 2] by (simp add: word_le_nat_alt)
  obtain c1 where c1: "ch_send (po_new 0 64) ?c0 = Some (Ok (), c1)" "ch_wf c1" "ch_inflight c1 = [po_new 0 64]"
      "\<not> ch_closed c1" "ch_bound c1 = ch_bound ?c0"
    using ch.send_room [of ?c0 "po_new 0 64"] bound by auto
  obtain c2 where c2: "ch_receive c1 = Some (Ok (po_new 0 64), c2)" "\<not> ch_closed c2" "ch_bound c2 = ch_bound ?c0"
    using ch.receive_Cons [OF c1(2,3)] c1(4,5) by auto
  have "ch_use_reach 2 \<lparr>chan = c1, held = [], out = {#po_new 0 64#}\<rparr>"
    using use_step [OF use_init [of 2 1 2], OF use_send] c1(1) by fastforce
  from use_step [OF this, OF use_receive] c2(1)
  have reach: "ch_use_reach 2 \<lparr>chan = c2, held = [po_new 0 64], out = {#po_new 0 64#}\<rparr>" by fastforce
  from channel_circulation [OF this, of "po_new 0 72" "po_new 0 64"] c2 bound reach show ?thesis by fastforce
qed

lemma distinct_if_count:
  assumes "\<And>x. count (mset xs) x \<le> 1"
  shows "distinct xs"
proof -
  have "0 < count (mset xs) x" if "x \<in> set xs" for x
    using that by (simp only: count_greater_zero_iff set_mset_mset)
  then have "count (mset xs) x = (if x \<in> set xs then 1 else 0)" for x
    using assms by (metis One_nat_def count_mset_0_iff le_antisym Suc_leI)
  then show ?thesis by (simp add: distinct_count_atmost_1)
qed

end
