(* ===== verification/Service_Types.thy ===== *)
theory Service_Types
  imports Shared_Memory Transport_Types
begin

text \<open>
  The types of the service layer: \<open>contracts.rs\<close>, \<open>config.rs\<close> and \<open>error.rs\<close> of \<open>crates/entangle/src\<close>.
\<close>

datatype node_id = NodeId u128

fun nid :: "node_id \<Rightarrow> u128" where
  "nid (NodeId n) = n"

datatype service_name = ServiceName string

definition is_ascii_alphanumeric :: "char \<Rightarrow> bool" where
  "is_ascii_alphanumeric c \<longleftrightarrow>
     (let n = of_char c :: nat
      in 48 \<le> n \<and> n \<le> 57 \<or> 65 \<le> n \<and> n \<le> 90 \<or> 97 \<le> n \<and> n \<le> 122)"

definition service_name_new :: "string \<Rightarrow> (service_name, string) result" where
  "service_name_new name =
     (if name = [] \<or> length name > 255 then Err ''service name must be 1-255 bytes''
      else if \<not> list_all (\<lambda>b. is_ascii_alphanumeric b \<or> b \<in> set ''/-_.'') name
      then Err ''service name contains invalid characters''
      else Ok (ServiceName name))"

datatype overflow_strategy = Overwrite | DropNewest | Block

text \<open>\<open>NonZeroUsize\<close> is a \<open>usize\<close> whose being non-zero \<open>pubsub_qos_ok\<close> states.\<close>

record pubsub_qos =
  history_size :: usize
  max_publishers :: usize
  max_subscribers :: usize
  subscriber_overflow :: overflow_strategy
  max_loaned_samples :: usize
  buffer_size :: usize

definition pubsub_qos_ok :: "pubsub_qos \<Rightarrow> bool" where
  "pubsub_qos_ok q \<longleftrightarrow> buffer_size q \<noteq> 0"

record event_qos =
  max_notifiers :: usize
  max_listeners :: usize

record reqres_qos =
  max_clients :: usize
  max_servers :: usize
  max_pending_requests :: usize

definition MAGIC_NUMBER :: u64 where
  "MAGIC_NUMBER = 0x5A4349500001"

datatype pattern_type = PubSub | Event | ReqRes | Blackboard

record entangle_config =
  shm_root :: string
  node_name :: "string option"
  default_pubsub_qos :: pubsub_qos
  default_event_qos :: event_qos

definition pubsub_qos_default :: pubsub_qos where
  "pubsub_qos_default =
     \<lparr>history_size = 1, max_publishers = 8, max_subscribers = 16, subscriber_overflow = Overwrite,
      max_loaned_samples = 4, buffer_size = 64\<rparr>"

definition event_qos_default :: event_qos where
  "event_qos_default = \<lparr>max_notifiers = 8, max_listeners = 16\<rparr>"

definition config_default :: entangle_config where
  "config_default =
     \<lparr>shm_root = ''/tmp/entangle/'', node_name = None, default_pubsub_qos = pubsub_qos_default,
      default_event_qos = event_qos_default\<rparr>"

text \<open>\<open>EntangleConfig::load\<close>: the file's text and the RON parser are arguments.\<close>

definition config_load ::
  "(string \<Rightarrow> entangle_config option) \<Rightarrow> (string \<Rightarrow> string option) \<Rightarrow> string \<Rightarrow> entangle_config" where
  "config_load ron_config read_file path =
     (case Option.bind (read_file path) ron_config of Some c \<Rightarrow> c | None \<Rightarrow> config_default)"

datatype service_error =
    AlreadyExists string
  | NotFound string
  | IncompatibleQos string
  | Corrupted string
  | VersionMismatch u32 u32
  | ServicePlatform platform_error

datatype port_error =
    LoanErr loan_error
  | SendErr send_error
  | ReceiveErr receive_error
  | ConnectionLost u128

datatype ipc_error =
    IpcService service_error
  | IpcPort port_error
  | IpcPlatform platform_error

lemma config_default_ok: "pubsub_qos_ok (default_pubsub_qos config_default)"
  by (simp add: pubsub_qos_ok_def config_default_def pubsub_qos_default_def)

lemma service_name_new_Ok:
  "service_name_new s = Ok n \<longleftrightarrow> n = ServiceName s \<and> 1 \<le> length s \<and> length s \<le> 255 \<and>
     (\<forall>c \<in> set s. is_ascii_alphanumeric c \<or> c \<in> {CHR ''/'', CHR ''-'', CHR ''_'', CHR ''.''})"
  by (cases s) (auto simp: service_name_new_def list_all_iff)

end
