(* ===== verification/Pub_Sub.thy ===== *)
theory Pub_Sub
  imports Data_Segment Channel Service_Types
begin

text \<open>
  The publish-subscribe ports: \<open>port/publisher.rs\<close>, \<open>port/subscriber.rs\<close>, \<open>sample.rs\<close> and the shared
  wiring of \<open>service/pubsub.rs\<close> in \<open>crates/entangle/src\<close>. Objects behind an \<open>Arc\<close> live in a world and
  are named by their position in it, so that a publisher, its samples and the subscribers work on
  the same segment, channels and counters. A closure stored in a sample is the tuple of the
  objects it captures. \<open>payload\<close> is \<open>size_of::<T>()\<close>.
\<close>

record world =
  w_mem :: memory
  w_segs :: "data_segment list"
  w_chans :: "channel list"
  w_lists :: "nat list list"
  w_loans :: "usize list"

record publisher =
  pub_service_name :: string
  pub_node_id :: node_id
  pub_segment :: nat
  pub_channels :: nat
  pub_max_loaned :: usize
  pub_active_loans :: nat
  pub_payload :: nat

record sample_mut =
  smu_ptr :: u64
  smu_offset :: pointer_offset
  smu_send_fn :: "nat option"
  smu_drop_fn :: "(nat \<times> nat) option"

record sample =
  sa_ptr :: u64
  sa_offset :: pointer_offset
  sa_drop_fn :: "nat option"

record subscriber =
  sub_service_name :: string
  sub_node_id :: node_id
  sub_connections :: "(nat \<times> nat) list"

record publisher_registration =
  pr_node_id :: node_id
  pr_segment :: nat
  pr_channels :: nat

record pubsub_shared =
  ps_publishers :: "publisher_registration list"
  ps_service_name :: string
  ps_qos :: pubsub_qos
  ps_publisher_counter :: u32

subsection \<open>Creating the ports\<close>

definition pub_segment_name :: "string \<Rightarrow> u32 \<Rightarrow> node_id \<Rightarrow> string" where
  "pub_segment_name service pub_idx node =
     ''entangle_'' @ replace_char CHR ''/'' CHR ''_'' service @ ''_p'' @ dec_string (unat pub_idx) @
     ''_'' @ hex_pad 16 (unat (ucast (nid node) :: u64))"

definition pub_create ::
  "nix \<Rightarrow> string \<Rightarrow> node_id \<Rightarrow> pubsub_qos \<Rightarrow> nat \<Rightarrow> pubsub_shared \<Rightarrow> world \<Rightarrow>
     ((publisher, ipc_error) result \<times> pubsub_shared \<times> world) option" where
  "pub_create os service node qos payload sh w =
     (let chunk_size = max (of_nat payload) 8;
          chunk_count = ucast (buffer_size qos);
          pub_idx = ps_publisher_counter sh;
          sh = sh\<lparr>ps_publisher_counter := pub_idx + 1\<rparr>
      in do {
        (r, mem) \<leftarrow> ds_create os (pub_segment_name service pub_idx node) chunk_size chunk_count 0 (w_mem w);
        let w = w\<lparr>w_mem := mem\<rparr>;
        case r of
          Err e \<Rightarrow> Some (Err (IpcPlatform e), sh, w)
        | Ok segment \<Rightarrow>
            let seg = length (w_segs w); chs = length (w_lists w); lns = length (w_loans w);
                w = w\<lparr>w_segs := w_segs w @ [segment], w_lists := w_lists w @ [[]],
                      w_loans := w_loans w @ [0]\<rparr>;
                sh = sh\<lparr>ps_publishers := ps_publishers sh @
                  [\<lparr>pr_node_id = node, pr_segment = seg, pr_channels = chs\<rparr>]\<rparr>
            in Some (Ok \<lparr>pub_service_name = service, pub_node_id = node, pub_segment = seg,
                         pub_channels = chs, pub_max_loaned = max_loaned_samples qos,
                         pub_active_loans = lns, pub_payload = payload\<rparr>, sh, w)
      })"

text \<open>The loop of \<open>SubscriberBuilder::create\<close> over the registered publishers.\<close>

fun sub_connect ::
  "usize \<Rightarrow> node_id \<Rightarrow> publisher_registration list \<Rightarrow> world \<Rightarrow> ((nat \<times> nat) list \<times> world) option" where
  "sub_connect capacity node [] w = Some ([], w)"
| "sub_connect capacity node (reg # regs) w = do {
     let channel = ch_connect (ch_new capacity (nid (pr_node_id reg)) (nid node));
     let id = length (w_chans w);
     chs \<leftarrow> idx (w_lists w) (pr_channels reg);
     let w = w\<lparr>w_chans := w_chans w @ [channel], w_lists := (w_lists w)[pr_channels reg := chs @ [id]]\<rparr>;
     (conns, w) \<leftarrow> sub_connect capacity node regs w;
     Some ((pr_segment reg, id) # conns, w)
   }"

definition sub_create ::
  "string \<Rightarrow> node_id \<Rightarrow> pubsub_qos \<Rightarrow> pubsub_shared \<Rightarrow> world \<Rightarrow>
     ((subscriber, ipc_error) result \<times> world) option" where
  "sub_create service node qos sh w = do {
     (conns, w) \<leftarrow> sub_connect (buffer_size qos) node (ps_publishers sh) w;
     Some (Ok \<lparr>sub_service_name = service, sub_node_id = node, sub_connections = conns\<rparr>, w)
   }"

subsection \<open>Loaning and sending\<close>

definition pub_loan :: "publisher \<Rightarrow> world \<Rightarrow> ((sample_mut, port_error) result \<times> world) option" where
  "pub_loan p w = do {
     current \<leftarrow> idx (w_loans w) (pub_active_loans p);
     if current \<ge> pub_max_loaned p
     then Some (Err (LoanErr (ExceedsMaxLoans (pub_max_loaned p))), w)
     else do {
       segment \<leftarrow> idx (w_segs w) (pub_segment p);
       (r, segment) \<leftarrow> ds_allocate segment;
       let w = w\<lparr>w_segs := (w_segs w)[pub_segment p := segment]\<rparr>;
       case r of
         Err e \<Rightarrow> Some (Err (LoanErr e), w)
       | Ok offset \<Rightarrow>
           let ptr = ds_resolve_ptr segment offset;
               w = w\<lparr>w_loans := (w_loans w)[pub_active_loans p := current + 1],
                     w_mem := write_bytes ptr 0 (pub_payload p) (w_mem w)\<rparr>
           in Some (Ok \<lparr>smu_ptr = ptr, smu_offset = offset, smu_send_fn = Some (pub_channels p),
                        smu_drop_fn = Some (pub_segment p, pub_active_loans p)\<rparr>, w)
     }
   }"

text \<open>The body of the send closure: push to every channel, leaving at the first error.\<close>

fun send_all ::
  "pointer_offset \<Rightarrow> nat list \<Rightarrow> world \<Rightarrow> ((unit, port_error) result \<times> world) option" where
  "send_all offset [] w = Some (Ok (), w)"
| "send_all offset (ch # chs) w = do {
     c \<leftarrow> idx (w_chans w) ch;
     (r, c) \<leftarrow> ch_send offset c;
     let w = w\<lparr>w_chans := (w_chans w)[ch := c]\<rparr>;
     case r of Err e \<Rightarrow> Some (Err (SendErr e), w) | Ok _ \<Rightarrow> send_all offset chs w
   }"

definition smu_send :: "sample_mut \<Rightarrow> world \<Rightarrow> ((unit, port_error) result \<times> world) option" where
  "smu_send s w = do {
     chs_id \<leftarrow> smu_send_fn s;
     chs \<leftarrow> idx (w_lists w) chs_id;
     send_all (smu_offset s) chs w
   }"

text \<open>Dropping a sample that was not sent. (After \<open>send\<close> the closure is gone and the drop at the end
  of \<open>send\<close> does nothing.)\<close>

definition smu_drop :: "sample_mut \<Rightarrow> world \<Rightarrow> world option" where
  "smu_drop s w =
     (case smu_drop_fn s of
        None \<Rightarrow> Some w
      | Some (seg, lns) \<Rightarrow> do {
          segment \<leftarrow> idx (w_segs w) seg;
          segment \<leftarrow> ds_deallocate (smu_offset s) segment;
          current \<leftarrow> idx (w_loans w) lns;
          Some (w\<lparr>w_segs := (w_segs w)[seg := segment], w_loans := (w_loans w)[lns := current - 1]\<rparr>)
        })"

definition smu_write :: "sample_mut \<Rightarrow> u8 list \<Rightarrow> world \<Rightarrow> world" where
  "smu_write s bs w = w\<lparr>w_mem := write_list (smu_ptr s) bs (w_mem w)\<rparr>"

subsection \<open>Reclaiming\<close>

text \<open>The inner loop of \<open>reclaim\<close>: one more turn than the queue holds is enough (\<open>reclaim_chan_drains\<close>).\<close>

fun reclaim_chan :: "nat \<Rightarrow> nat \<Rightarrow> nat \<Rightarrow> nat \<Rightarrow> world \<Rightarrow> world option" where
  "reclaim_chan 0 seg lns ch w = None"
| "reclaim_chan (Suc turns) seg lns ch w = do {
     c \<leftarrow> idx (w_chans w) ch;
     (r, c) \<leftarrow> ch_reclaim c;
     let w = w\<lparr>w_chans := (w_chans w)[ch := c]\<rparr>;
     case r of
       None \<Rightarrow> Some w
     | Some offset \<Rightarrow> do {
         segment \<leftarrow> idx (w_segs w) seg;
         segment \<leftarrow> ds_deallocate offset segment;
         current \<leftarrow> idx (w_loans w) lns;
         reclaim_chan turns seg lns ch
           (w\<lparr>w_segs := (w_segs w)[seg := segment], w_loans := (w_loans w)[lns := current - 1]\<rparr>)
       }
   }"

fun reclaim_chans :: "nat \<Rightarrow> nat \<Rightarrow> nat list \<Rightarrow> world \<Rightarrow> world option" where
  "reclaim_chans seg lns [] w = Some w"
| "reclaim_chans seg lns (ch # chs) w = do {
     c \<leftarrow> idx (w_chans w) ch;
     w \<leftarrow> reclaim_chan (Suc (unat (ch_return_count c))) seg lns ch w;
     reclaim_chans seg lns chs w
   }"

definition pub_reclaim :: "publisher \<Rightarrow> world \<Rightarrow> world option" where
  "pub_reclaim p w = do {
     chs \<leftarrow> idx (w_lists w) (pub_channels p);
     reclaim_chans (pub_segment p) (pub_active_loans p) chs w
   }"

definition pub_get_active_loans :: "publisher \<Rightarrow> world \<Rightarrow> usize option" where
  "pub_get_active_loans p w = idx (w_loans w) (pub_active_loans p)"

subsection \<open>Receiving\<close>

fun receive_from ::
  "(nat \<times> nat) list \<Rightarrow> world \<Rightarrow> ((sample option, port_error) result \<times> world) option" where
  "receive_from [] w = Some (Ok None, w)"
| "receive_from ((seg, ch) # conns) w = do {
     c \<leftarrow> idx (w_chans w) ch;
     (r, c) \<leftarrow> ch_receive c;
     let w = w\<lparr>w_chans := (w_chans w)[ch := c]\<rparr>;
     case r of
       Ok offset \<Rightarrow> do {
         segment \<leftarrow> idx (w_segs w) seg;
         Some (Ok (Some \<lparr>sa_ptr = ds_resolve_ptr segment offset, sa_offset = offset,
                         sa_drop_fn = Some ch\<rparr>), w)
       }
     | Err Empty \<Rightarrow> receive_from conns w
     | Err e \<Rightarrow> Some (Err (ReceiveErr e), w)
   }"

definition sub_receive :: "subscriber \<Rightarrow> world \<Rightarrow> ((sample option, port_error) result \<times> world) option" where
  "sub_receive s w = receive_from (sub_connections s) w"

definition sa_read :: "sample \<Rightarrow> nat \<Rightarrow> world \<Rightarrow> u8 list" where
  "sa_read s n w = read_list (sa_ptr s) n (w_mem w)"

definition sa_drop :: "nat \<Rightarrow> sample \<Rightarrow> world \<Rightarrow> world spin option" where
  "sa_drop turns s w =
     (case sa_drop_fn s of
        None \<Rightarrow> Some (Done w)
      | Some ch \<Rightarrow> do {
          c \<leftarrow> idx (w_chans w) ch;
          r \<leftarrow> ch_return_offset turns (sa_offset s) c;
          Some (case r of Done c \<Rightarrow> Done (w\<lparr>w_chans := (w_chans w)[ch := c]\<rparr>) | Spinning \<Rightarrow> Spinning)
        })"

end
