(* ===== verification/Pub_Sub_Safety.thy ===== *)
theory Pub_Sub_Safety
  imports Pub_Sub
begin

text \<open>
  A publisher and one subscriber of a service, with any number of samples on loan and held, as a
  transition system over the operations of \<open>Pub_Sub\<close>. The invariant is that the chunks out of the
  pool are exactly those in somebody's custody (on loan, in flight, held by the subscriber, on
  the way back), each in one place, and that a chunk in flight or held has the bytes it was sent
  with. \<open>loaned\<close>, \<open>got\<close> and \<open>sent\<close> are the values the application holds: the samples it was given,
  and the payload of each chunk when it was last sent.
\<close>

record ps_sys =
  sw :: world
  loaned :: "sample_mut list"
  got :: "sample list"
  sent :: "pointer_offset \<Rightarrow> u8 list"

inductive ps_step :: "publisher \<Rightarrow> subscriber \<Rightarrow> ps_sys \<Rightarrow> ps_sys \<Rightarrow> bool" for p u where
  ps_loan: "pub_loan p (sw s) = Some (Ok m, w) \<Longrightarrow>
    ps_step p u s (s\<lparr>sw := w, loaned := m # loaned s\<rparr>)"
| ps_loan_refused: "pub_loan p (sw s) = Some (Err e, w) \<Longrightarrow> ps_step p u s (s\<lparr>sw := w\<rparr>)"
| ps_write: "m \<in> set (loaned s) \<Longrightarrow> length bs = pub_payload p \<Longrightarrow>
    ps_step p u s (s\<lparr>sw := smu_write m bs (sw s)\<rparr>)"
| ps_send: "m \<in> set (loaned s) \<Longrightarrow> smu_send m (sw s) = Some (r, w) \<Longrightarrow>
    ps_step p u s (s\<lparr>sw := w, loaned := remove1 m (loaned s),
      sent := (sent s)(smu_offset m := read_list (smu_ptr m) (pub_payload p) (w_mem (sw s)))\<rparr>)"
| ps_drop: "m \<in> set (loaned s) \<Longrightarrow> smu_drop m (sw s) = Some w \<Longrightarrow>
    ps_step p u s (s\<lparr>sw := w, loaned := remove1 m (loaned s)\<rparr>)"
| ps_receive: "sub_receive u (sw s) = Some (Ok (Some a), w) \<Longrightarrow>
    ps_step p u s (s\<lparr>sw := w, got := a # got s\<rparr>)"
| ps_receive_none: "sub_receive u (sw s) = Some (Ok None, w) \<Longrightarrow> ps_step p u s (s\<lparr>sw := w\<rparr>)"
| ps_release: "a \<in> set (got s) \<Longrightarrow> sa_drop turns a (sw s) = Some (Done w) \<Longrightarrow>
    ps_step p u s (s\<lparr>sw := w, got := remove1 a (got s)\<rparr>)"
| ps_reclaim: "pub_reclaim p (sw s) = Some w \<Longrightarrow> ps_step p u s (s\<lparr>sw := w\<rparr>)"

text \<open>A service with one publisher, then one subscriber.\<close>

definition empty_world :: "memory \<Rightarrow> world" where
  "empty_world mem = \<lparr>w_mem = mem, w_segs = [], w_chans = [], w_lists = [], w_loans = []\<rparr>"

definition fresh_shared :: "string \<Rightarrow> pubsub_qos \<Rightarrow> pubsub_shared" where
  "fresh_shared service qos = \<lparr>ps_publishers = [], ps_service_name = service, ps_qos = qos,
     ps_publisher_counter = 0\<rparr>"

definition ps_boot ::
  "nix \<Rightarrow> string \<Rightarrow> node_id \<Rightarrow> node_id \<Rightarrow> pubsub_qos \<Rightarrow> nat \<Rightarrow> memory \<Rightarrow>
     (publisher \<times> subscriber \<times> world) option" where
  "ps_boot os service n1 n2 qos payload mem = do {
     (r, sh, w) \<leftarrow> pub_create os service n1 qos payload (fresh_shared service qos) (empty_world mem);
     case r of
       Err e \<Rightarrow> None
     | Ok p \<Rightarrow> do {
         (r, w) \<leftarrow> sub_create service n2 qos sh w;
         case r of Err e \<Rightarrow> None | Ok u \<Rightarrow> Some (p, u, w)
       }
   }"

definition ps_start :: "world \<Rightarrow> ps_sys" where
  "ps_start w = \<lparr>sw = w, loaned = [], got = [], sent = (\<lambda>_. [])\<rparr>"

inductive ps_reach :: "publisher \<Rightarrow> subscriber \<Rightarrow> world \<Rightarrow> ps_sys \<Rightarrow> bool" for p u w0 where
  ps_init: "ps_reach p u w0 (ps_start w0)"
| ps_next: "ps_reach p u w0 s \<Longrightarrow> ps_step p u s s' \<Longrightarrow> ps_reach p u w0 s'"

text \<open>The buffer fits the layout, and the payload fits a \<open>usize\<close>.\<close>

definition ps_params_ok :: "pubsub_qos \<Rightarrow> nat \<Rightarrow> bool" where
  "ps_params_ok qos payload \<longleftrightarrow> unat (buffer_size qos) < 2 ^ 32 \<and> payload < 2 ^ 48 \<and>
     layout_fits (max (of_nat payload) 8) (ucast (buffer_size qos))"

subsection \<open>The invariant\<close>

definition custody :: "sample_mut list \<Rightarrow> channel \<Rightarrow> sample list \<Rightarrow> pointer_offset multiset" where
  "custody l c g = mset (map smu_offset l) + mset (ch_inflight c) + mset (map sa_offset g) +
     mset (ch_returned c)"

text \<open>The objects of the two ports: one segment, one channel, one channel list, one counter.\<close>

definition ps_shape :: "publisher \<Rightarrow> subscriber \<Rightarrow> bool" where
  "ps_shape p u \<longleftrightarrow> pub_segment p = 0 \<and> pub_channels p = 0 \<and> pub_active_loans p = 0 \<and>
     sub_connections u = [(0, 0)]"

definition ps_world :: "memory \<Rightarrow> data_segment \<Rightarrow> channel \<Rightarrow> usize \<Rightarrow> world" where
  "ps_world mem d c k =
     \<lparr>w_mem = mem, w_segs = [d], w_chans = [c], w_lists = [[0]], w_loans = [k]\<rparr>"

definition ps_handles :: "data_segment \<Rightarrow> ps_sys \<Rightarrow> bool" where
  "ps_handles d s \<longleftrightarrow>
     (\<forall>m \<in> set (loaned s). smu_ptr m = ds_resolve_ptr d (smu_offset m) \<and> smu_send_fn m = Some 0 \<and>
        smu_drop_fn m = Some (0, 0)) \<and>
     (\<forall>a \<in> set (got s). sa_ptr a = ds_resolve_ptr d (sa_offset a) \<and> sa_drop_fn a = Some 0)"

definition ps_inv ::
  "publisher \<Rightarrow> ps_sys \<Rightarrow> memory \<Rightarrow> data_segment \<Rightarrow> channel \<Rightarrow> usize \<Rightarrow> bool" where
  "ps_inv p s mem d c k \<longleftrightarrow> sw s = ps_world mem d c k \<and> ds_wf d \<and> ch_wf c \<and> \<not> ch_closed c \<and>
     pub_payload p \<le> unat (ds_chunk_size d) \<and> card (ds_chunks d) \<le> ch_bound c \<and>
     ps_handles d s \<and> custody (loaned s) c (got s) = mset_set (ds_out d) \<and>
     unat k = card (ds_out d) \<and>
     (\<forall>x \<in> set (ch_inflight c) \<union> sa_offset ` set (got s).
        ds_read d x (pub_payload p) mem = sent s x)"

text \<open>What equality with a set's multiset says: every chunk is in one place, and it is out.\<close>

lemma custody_member:
  assumes "custody l c g = mset_set (ds_out d)"
    and "x \<in> smu_offset ` set l \<or> x \<in> set (ch_inflight c) \<or> x \<in> sa_offset ` set g \<or> x \<in> set (ch_returned c)"
  shows "x \<in> ds_out d"
proof -
  have "x \<in># custody l c g" using assms(2) by (auto simp: custody_def)
  then show ?thesis using assms(1) by simp
qed

lemma custody_once: "custody l c g = mset_set (ds_out d) \<Longrightarrow> count (custody l c g) x \<le> 1"
  by (simp add: count_mset_set')

lemma custody_size:
  assumes "custody l c g = mset_set (ds_out d)"
  shows "length l + length (ch_inflight c) + length g + length (ch_returned c) = card (ds_out d)"
proof -
  have "size (custody l c g) = card (ds_out d)" using assms by simp
  then show ?thesis by (simp add: custody_def)
qed

lemma custody_loaned_alone:
  assumes "custody l c g = mset_set (ds_out d)" and "m \<in> set l"
  shows "smu_offset m \<notin> set (ch_inflight c)" and "smu_offset m \<notin> sa_offset ` set g"
proof -
  let ?x = "smu_offset m"
  have "?x \<in># mset (map smu_offset l)" using assms(2) by simp
  then have "0 < count (mset (map smu_offset l)) ?x" by (simp only: count_greater_zero_iff)
  moreover have "count (mset (map smu_offset l)) ?x + count (mset (ch_inflight c)) ?x +
      count (mset (map sa_offset g)) ?x + count (mset (ch_returned c)) ?x \<le> 1"
    using custody_once [OF assms(1), of ?x] by (simp only: custody_def count_union)
  ultimately have "count (mset (ch_inflight c)) ?x = 0" "count (mset (map sa_offset g)) ?x = 0"
    by linarith+
  then have "?x \<notin># mset (ch_inflight c)" "?x \<notin># mset (map sa_offset g)"
    by (simp_all only: not_in_iff)
  then show "?x \<notin> set (ch_inflight c)" "?x \<notin> sa_offset ` set g" by simp_all
qed

lemma mset_map_remove1:
  "x \<in> set xs \<Longrightarrow> mset (map f xs) = add_mset (f x) (mset (map f (remove1 x xs)))"
  by (induction xs) auto

lemma write_bytes_list: "write_bytes addr b n mem = write_list addr (replicate n b) mem"
  by (auto simp: write_bytes_def write_list_def)

text \<open>Memory: a write to one chunk that is out does not disturb the others.\<close>

lemma ps_inv_out_bound:
  assumes "ps_inv p s mem d c k"
  shows "card (ds_out d) \<le> ch_bound c" and "ch_bound c < 2 ^ 64 - 1"
proof -
  have "card (ds_out d) \<le> card (ds_chunks d)"
    using ds.finite_slots by (intro card_mono) (auto simp: ds_out_def)
  then show "card (ds_out d) \<le> ch_bound c" using assms by (simp add: ps_inv_def)
  have "ring_ok (ch_send_queue c)" using assms by (simp add: ps_inv_def ch_wf_def spsc_wf_def)
  then show "ch_bound c < 2 ^ 64 - 1" using ring_ok_capacity by (fastforce simp: ch_bound_def)
qed

lemma ps_inv_content:
  assumes "ps_inv p s mem d c k" and "x \<in> set (ch_inflight c) \<union> sa_offset ` set (got s)"
  shows "ds_read d x (pub_payload p) mem = sent s x" and "x \<in> ds_out d"
  using assms custody_member [of "loaned s" c "got s" d x] by (auto simp: ps_inv_def)

text \<open>Moving a chunk from one custodian to the next leaves the segment alone.\<close>

lemma ps_inv_move:
  assumes "ps_inv p s mem d c k" and "sw s' = ps_world mem d c' k" and "ch_wf c'"
    and "ch_closed c' = ch_closed c" and "ch_bound c' = ch_bound c" and "ps_handles d s'"
    and "custody (loaned s') c' (got s') = custody (loaned s) c (got s)"
    and "\<And>x. x \<in> set (ch_inflight c') \<union> sa_offset ` set (got s') \<Longrightarrow>
      ds_read d x (pub_payload p) mem = sent s' x"
  shows "ps_inv p s' mem d c' k"
  using assms by (simp add: ps_inv_def)

lemma ps_handles_remove:
  "ps_handles d s \<Longrightarrow> ps_handles d (s\<lparr>sw := w, loaned := remove1 m (loaned s), sent := f\<rparr>)"
  "ps_handles d s \<Longrightarrow> ps_handles d (s\<lparr>sw := w, loaned := remove1 m (loaned s)\<rparr>)"
  "ps_handles d s \<Longrightarrow> ps_handles d (s\<lparr>sw := w, got := remove1 a (got s)\<rparr>)"
  by (auto simp: ps_handles_def dest: set_remove1_subset [THEN subsetD])

subsection \<open>Each operation keeps it\<close>

text \<open>Loaning.\<close>

lemma pub_loan_result:
  assumes wf: "ds_wf d" and shape: "ps_shape p u"
  obtains (busy) "pub_max_loaned p \<le> k"
      "pub_loan p (ps_world mem d c k) =
         Some (Err (LoanErr (ExceedsMaxLoans (pub_max_loaned p))), ps_world mem d c k)"
  | (empty) "k < pub_max_loaned p" "ds_free d = {}"
      "pub_loan p (ps_world mem d c k) = Some (Err (LoanErr OutOfMemory), ps_world mem d c k)"
  | (loan) a d' where "k < pub_max_loaned p" "a \<in> ds_free d" "ds_free d' = ds_free d - {a}" "ds_wf d'"
      "ds_same d' d"
      "pub_loan p (ps_world mem d c k) =
         Some (Ok \<lparr>smu_ptr = ds_resolve_ptr d a, smu_offset = a, smu_send_fn = Some 0, smu_drop_fn = Some (0, 0)\<rparr>,
           ps_world (ds_write d a (replicate (pub_payload p) 0) mem) d' c (k + 1))"
proof (cases "pub_max_loaned p \<le> k")
  case True
  with shape show ?thesis by (intro busy) (simp_all add: ps_shape_def ps_world_def pub_loan_def)
next
  case False
  show ?thesis
  proof (cases "ds_free d = {}")
    case True
    with False shape ds_allocate_full [OF wf True] show ?thesis
      by (intro empty) (simp_all add: ps_shape_def ps_world_def pub_loan_def)
  next
    case free: False
    obtain a d' where d': "ds_allocate d = Some (Ok a, d')" "a \<in> ds_free d" "ds_free d' = ds_free d - {a}"
        "ds_wf d'" "ds_same d' d"
      using ds_allocate_free [OF wf free] by blast
    show ?thesis
      by (rule loan [OF _ d'(2-5)])
        (use False d' shape ds_same_resolve [OF d'(5)] in
          \<open>simp_all add: ps_shape_def ps_world_def pub_loan_def ds_write_def write_bytes_list Let_def\<close>)
  qed
qed

lemma ps_loan_result:
  assumes inv: "ps_inv p s mem d c k" and shape: "ps_shape p u"
  obtains (busy) "pub_max_loaned p \<le> k"
      "pub_loan p (sw s) = Some (Err (LoanErr (ExceedsMaxLoans (pub_max_loaned p))), sw s)"
  | (empty) "k < pub_max_loaned p" "ds_free d = {}"
      "pub_loan p (sw s) = Some (Err (LoanErr OutOfMemory), sw s)"
  | (loan) a d' where "k < pub_max_loaned p" "a \<in> ds_free d" "ds_free d' = ds_free d - {a}" "ds_wf d'"
      "ds_same d' d"
      "pub_loan p (sw s) = Some (Ok \<lparr>smu_ptr = ds_resolve_ptr d a, smu_offset = a, smu_send_fn = Some 0,
         smu_drop_fn = Some (0, 0)\<rparr>,
         ps_world (ds_write d a (replicate (pub_payload p) 0) mem) d' c (k + 1))"
proof -
  have "ds_wf d" and w: "sw s = ps_world mem d c k" using inv by (simp_all add: ps_inv_def)
  then show ?thesis
    by (cases rule: pub_loan_result [OF \<open>ds_wf d\<close> shape, of k mem c]) (use that in \<open>simp_all add: w\<close>)
qed

lemma unat_incr:
  assumes "unat (k :: usize) < 2 ^ 64 - 1"
  shows "unat (k + 1) = Suc (unat k)"
proof -
  have "Suc (unat k) < 2 ^ LENGTH(64)" using assms by simp
  then have "unat (of_nat (Suc (unat k)) :: usize) = Suc (unat k)" by (rule unat_of_nat_less)
  moreover have "k + 1 = of_nat (Suc (unat k))" by simp
  ultimately show ?thesis by metis
qed

lemma unat_decr:
  assumes "0 < unat (k :: usize)"
  shows "unat (k - 1) = unat k - 1"
  using assms by (simp add: unat_sub word_le_nat_alt)

lemma ps_inv_loan:
  assumes inv: "ps_inv p s mem d c k" and shape: "ps_shape p u" and loan: "pub_loan p (sw s) = Some (Ok m, w)"
  shows "\<exists>mem d c k. ps_inv p (s\<lparr>sw := w, loaned := m # loaned s\<rparr>) mem d c k"
  using inv shape
proof (cases rule: ps_loan_result)
  case (loan a d')
  let ?mem = "ds_write d a (replicate (pub_payload p) 0) mem"
  let ?s = "s\<lparr>sw := w, loaned := m # loaned s\<rparr>"
  have w: "w = ps_world ?mem d' c (k + 1)"
    and m: "m = \<lparr>smu_ptr = ds_resolve_ptr d a, smu_offset = a, smu_send_fn = Some 0, smu_drop_fn = Some (0, 0)\<rparr>"
    using loan(6) assms(3) by auto
  have wf: "ds_wf d" "pub_payload p \<le> unat (ds_chunk_size d)" using inv by (auto simp: ps_inv_def)
  note out = ds_out_allocate [OF wf(1) loan(2,3,5)]
  have "custody (loaned ?s) c (got ?s) = mset_set (ds_out d')"
    using inv out(1,2) m by (simp add: ps_inv_def custody_def)
  moreover have "unat (k + 1) = card (ds_out d')"
    using inv ps_inv_out_bound [OF inv] out(1,2) by (simp add: ps_inv_def unat_incr)
  moreover have "ds_read d' x (pub_payload p) ?mem = sent s x"
    if "x \<in> set (ch_inflight c) \<union> sa_offset ` set (got s)" for x
  proof -
    have x: "x \<in> ds_out d" "ds_read d x (pub_payload p) mem = sent s x"
      using ps_inv_content [OF inv that] by auto
    then have "x \<in> ds_chunks d" "a \<noteq> x" using out(2) by (auto simp: ds_out_def)
    then show ?thesis
      using ds_read_write_other [OF wf(1) out(3)] wf(2) x(2) ds_same_read [OF loan(5)] by simp
  qed
  moreover have "ps_handles d' ?s"
    using inv m ds_same_resolve [OF loan(5)] by (simp add: ps_inv_def ps_handles_def)
  ultimately have "ps_inv p ?s ?mem d' c (k + 1)"
    using inv w loan(4,5) ds_same_chunks [OF loan(5)] by (auto simp: ps_inv_def ds_same_def)
  then show ?thesis by blast
qed (use loan in auto)

lemma ps_inv_loan_refused:
  assumes "ps_inv p s mem d c k" and "ps_shape p u" and "pub_loan p (sw s) = Some (Err e, w)"
  shows "s\<lparr>sw := w\<rparr> = s"
  using assms(1,2) by (cases rule: ps_loan_result) (use assms(3) in auto)

text \<open>Writing through a sample on loan.\<close>

lemma ps_inv_loaned:
  assumes "ps_inv p s mem d c k" and "m \<in> set (loaned s)"
  shows "smu_ptr m = ds_resolve_ptr d (smu_offset m)" and "smu_send_fn m = Some 0"
    and "smu_drop_fn m = Some (0, 0)" and "smu_offset m \<in> ds_out d"
    and "smu_offset m \<notin> set (ch_inflight c) \<union> sa_offset ` set (got s)"
proof -
  have cust: "custody (loaned s) c (got s) = mset_set (ds_out d)" using assms(1) by (simp add: ps_inv_def)
  show "smu_ptr m = ds_resolve_ptr d (smu_offset m)" "smu_send_fn m = Some 0" "smu_drop_fn m = Some (0, 0)"
    using assms by (auto simp: ps_inv_def ps_handles_def)
  show "smu_offset m \<in> ds_out d" using custody_member [OF cust] assms(2) by auto
  show "smu_offset m \<notin> set (ch_inflight c) \<union> sa_offset ` set (got s)"
    using custody_loaned_alone [OF cust assms(2)] by auto
qed

lemma ps_inv_write:
  assumes inv: "ps_inv p s mem d c k" and m: "m \<in> set (loaned s)" and len: "length bs = pub_payload p"
  shows "ps_inv p (s\<lparr>sw := smu_write m bs (sw s)\<rparr>) (ds_write d (smu_offset m) bs mem) d c k"
proof -
  have wf: "ds_wf d" "pub_payload p \<le> unat (ds_chunk_size d)" using inv by (auto simp: ps_inv_def)
  note m' = ps_inv_loaned [OF inv m]
  have "ds_read d x (pub_payload p) (ds_write d (smu_offset m) bs mem) = sent s x"
    if "x \<in> set (ch_inflight c) \<union> sa_offset ` set (got s)" for x
  proof -
    have x: "x \<in> ds_out d" "ds_read d x (pub_payload p) mem = sent s x"
      using ps_inv_content [OF inv that] by auto
    moreover have "smu_offset m \<noteq> x" using m'(5) that by blast
    ultimately show ?thesis
      using ds_read_write_other [OF wf(1), of "smu_offset m" x bs "pub_payload p" mem] m'(4) len wf(2)
      by (auto simp: ds_out_def)
  qed
  then show ?thesis
    using inv m'(1) by (auto simp: ps_inv_def smu_write_def ps_world_def ds_write_def ps_handles_def)
qed

text \<open>Sending: with one subscriber there is always room, since the channel is at least as long as the
  pool has chunks.\<close>

lemma ps_send_result:
  assumes inv: "ps_inv p s mem d c k" and m: "m \<in> set (loaned s)"
  obtains c' where "smu_send m (sw s) = Some (Ok (), ps_world mem d c' k)"
    "ch_inflight c' = ch_inflight c @ [smu_offset m]" "ch_returned c' = ch_returned c"
    "ch_closed c' = ch_closed c" "ch_bound c' = ch_bound c" "ch_wf c'"
proof -
  have cust: "custody (loaned s) c (got s) = mset_set (ds_out d)"
      and c: "ch_wf c" "\<not> ch_closed c"
    using inv by (auto simp: ps_inv_def)
  have "0 < length (loaned s)" using m by (cases "loaned s") auto
  then have "length (ch_inflight c) < ch_bound c"
    using custody_size [OF cust] ps_inv_out_bound(1) [OF inv] by linarith
  with ch.send_room [OF c] obtain c' where c': "ch_send (smu_offset m) c = Some (Ok (), c')"
      "ch_inflight c' = ch_inflight c @ [smu_offset m]" "ch_returned c' = ch_returned c"
      "ch_closed c' = ch_closed c" "ch_bound c' = ch_bound c" "ch_wf c'"
    by blast
  then have "smu_send m (sw s) = Some (Ok (), ps_world mem d c' k)"
    using inv ps_inv_loaned(2) [OF inv m] by (simp add: ps_inv_def smu_send_def ps_world_def)
  then show ?thesis using c' that by blast
qed

lemma ps_inv_send:
  assumes inv: "ps_inv p s mem d c k" and m: "m \<in> set (loaned s)" and send: "smu_send m (sw s) = Some (r, w)"
  shows "\<exists>mem d c k. ps_inv p (s\<lparr>sw := w, loaned := remove1 m (loaned s),
    sent := (sent s)(smu_offset m := read_list (smu_ptr m) (pub_payload p) (w_mem (sw s)))\<rparr>) mem d c k"
proof -
  obtain c' where c': "smu_send m (sw s) = Some (Ok (), ps_world mem d c' k)"
      "ch_inflight c' = ch_inflight c @ [smu_offset m]" "ch_returned c' = ch_returned c"
      "ch_closed c' = ch_closed c" "ch_bound c' = ch_bound c" "ch_wf c'"
    using ps_send_result [OF inv m] .
  let ?s = "s\<lparr>sw := w, loaned := remove1 m (loaned s),
    sent := (sent s)(smu_offset m := read_list (smu_ptr m) (pub_payload p) (w_mem (sw s)))\<rparr>"
  have "sw s = ps_world mem d c k" using inv by (simp add: ps_inv_def)
  then have sent: "sent ?s = (sent s)(smu_offset m := ds_read d (smu_offset m) (pub_payload p) mem)"
    using ps_inv_loaned(1) [OF inv m] by (simp add: ps_world_def ds_read_def)
  have "ps_inv p ?s mem d c' k"
  proof (rule ps_inv_move [OF inv _ c'(6,4,5)])
    show "custody (loaned ?s) c' (got ?s) = custody (loaned s) c (got s)"
      using c'(2,3) mset_map_remove1 [OF m, of smu_offset] by (simp add: custody_def)
    show "ds_read d x (pub_payload p) mem = sent ?s x"
      if "x \<in> set (ch_inflight c') \<union> sa_offset ` set (got ?s)" for x
      using that ps_inv_content(1) [OF inv, of x] ps_inv_loaned(5) [OF inv m] c'(2) unfolding sent by auto
    show "ps_handles d ?s" using inv by (intro ps_handles_remove) (simp add: ps_inv_def)
  qed (use send c'(1) in simp)
  then show ?thesis by blast
qed

text \<open>Giving chunks back to the pool: by dropping an unsent sample, or by reclaiming.\<close>

lemma ps_drop_result:
  assumes inv: "ps_inv p s mem d c k" and m: "m \<in> set (loaned s)"
  obtains d' where "smu_drop m (sw s) = Some (ps_world mem d' c (k - 1))"
    "ds_out d' = ds_out d - {smu_offset m}" "ds_wf d'" "ds_same d' d"
proof -
  have wf: "ds_wf d" using inv by (simp add: ps_inv_def)
  obtain d' where d': "ds_deallocate (smu_offset m) d = Some d'" "ds_out d' = ds_out d - {smu_offset m}"
      "ds_wf d'" "ds_same d' d"
    using ds_out_deallocate [OF wf ps_inv_loaned(4) [OF inv m]] .
  then have "smu_drop m (sw s) = Some (ps_world mem d' c (k - 1))"
    using inv ps_inv_loaned(3) [OF inv m] by (simp add: ps_inv_def smu_drop_def ps_world_def)
  with d' show ?thesis using that by blast
qed

lemma ps_inv_drop:
  assumes inv: "ps_inv p s mem d c k" and m: "m \<in> set (loaned s)" and drop: "smu_drop m (sw s) = Some w"
  shows "\<exists>mem d c k. ps_inv p (s\<lparr>sw := w, loaned := remove1 m (loaned s)\<rparr>) mem d c k"
proof -
  obtain d' where d': "smu_drop m (sw s) = Some (ps_world mem d' c (k - 1))"
      "ds_out d' = ds_out d - {smu_offset m}" "ds_wf d'" "ds_same d' d"
    using ps_drop_result [OF inv m] .
  let ?a = "smu_offset m" and ?s = "s\<lparr>sw := w, loaned := remove1 m (loaned s)\<rparr>"
  have out: "?a \<in> ds_out d" by (rule ps_inv_loaned(4) [OF inv m])
  then have "mset_set (ds_out d) = add_mset ?a (mset_set (ds_out d'))"
    unfolding d'(2) by (simp add: mset_set.remove)
  then have "custody (loaned ?s) c (got ?s) = mset_set (ds_out d')"
    using inv mset_map_remove1 [OF m, of smu_offset] by (simp add: ps_inv_def custody_def)
  moreover have "unat (k - 1) = card (ds_out d')"
  proof -
    have "unat k = card (ds_out d)" using inv by (simp add: ps_inv_def)
    moreover from out have "0 < card (ds_out d)" by (auto simp: card_gt_0_iff)
    ultimately show ?thesis using out unat_decr [of k] unfolding d'(2) by simp
  qed
  ultimately have "ps_inv p ?s mem d' c (k - 1)"
    using inv d' drop ds_same_chunks [OF d'(4)] ds_same_resolve [OF d'(4)] ds_same_read [OF d'(4)]
    by (auto simp: ps_inv_def ps_handles_def ds_same_def dest: set_remove1_subset [THEN subsetD])
  then show ?thesis by blast
qed

text \<open>Receiving and releasing.\<close>

lemma ps_receive_result:
  assumes inv: "ps_inv p s mem d c k" and shape: "ps_shape p u"
  obtains (none) "ch_inflight c = []" "sub_receive u (sw s) = Some (Ok None, sw s)"
  | (some) x xs c' where "ch_inflight c = x # xs" "ch_inflight c' = xs" "ch_returned c' = ch_returned c"
      "ch_closed c' = ch_closed c" "ch_bound c' = ch_bound c" "ch_wf c'"
      "sub_receive u (sw s) = Some (Ok (Some \<lparr>sa_ptr = ds_resolve_ptr d x, sa_offset = x,
         sa_drop_fn = Some 0\<rparr>), ps_world mem d c' k)"
proof -
  have c: "ch_wf c" "\<not> ch_closed c" and w: "sw s = ps_world mem d c k" using inv by (auto simp: ps_inv_def)
  show ?thesis
  proof (cases "ch_inflight c")
    case Nil
    with ch.receive_none [OF c(1) Nil] c(2) w shape show ?thesis
      by (intro none) (simp_all add: sub_receive_def ps_shape_def ps_world_def)
  next
    case (Cons x xs)
    obtain c' where c': "ch_receive c = Some (Ok x, c')" "ch_inflight c' = xs" "ch_returned c' = ch_returned c"
        "ch_closed c' = ch_closed c" "ch_bound c' = ch_bound c" "ch_wf c'"
      using ch.receive_Cons [OF c(1) Cons] by blast
    show ?thesis
      by (rule some [OF Cons c'(2-6)])
        (use c'(1) w shape in \<open>simp add: sub_receive_def ps_shape_def ps_world_def\<close>)
  qed
qed

lemma ps_inv_receive:
  assumes inv: "ps_inv p s mem d c k" and shape: "ps_shape p u"
    and receive: "sub_receive u (sw s) = Some (Ok (Some a), w)"
  shows "\<exists>mem d c k. ps_inv p (s\<lparr>sw := w, got := a # got s\<rparr>) mem d c k"
  using inv shape
proof (cases rule: ps_receive_result)
  case (some x xs c')
  let ?s = "s\<lparr>sw := w, got := a # got s\<rparr>"
  have a: "a = \<lparr>sa_ptr = ds_resolve_ptr d x, sa_offset = x, sa_drop_fn = Some 0\<rparr>"
      and w: "w = ps_world mem d c' k"
    using receive some(7) by auto
  have "ps_inv p ?s mem d c' k"
  proof (rule ps_inv_move [OF inv _ some(6,4,5)])
    show "custody (loaned ?s) c' (got ?s) = custody (loaned s) c (got s)"
      using some(1-3) a by (simp add: custody_def)
    show "ds_read d y (pub_payload p) mem = sent ?s y"
      if "y \<in> set (ch_inflight c') \<union> sa_offset ` set (got ?s)" for y
      using that ps_inv_content(1) [OF inv, of y] some(1,2) a by auto
    show "ps_handles d ?s" using inv a by (simp add: ps_inv_def ps_handles_def)
  qed (simp add: w)
  then show ?thesis by blast
qed (use receive in auto)

lemma ps_inv_receive_none:
  assumes "ps_inv p s mem d c k" and "ps_shape p u" and "sub_receive u (sw s) = Some (Ok None, w)"
  shows "s\<lparr>sw := w\<rparr> = s"
  using assms(1,2) by (cases rule: ps_receive_result) (use assms(3) in auto)

lemma ps_release_result:
  assumes inv: "ps_inv p s mem d c k" and a: "a \<in> set (got s)"
  obtains c' where "\<forall>turns>0. sa_drop turns a (sw s) = Some (Done (ps_world mem d c' k))"
    "ch_inflight c' = ch_inflight c" "ch_returned c' = ch_returned c @ [sa_offset a]"
    "ch_closed c' = ch_closed c" "ch_bound c' = ch_bound c" "ch_wf c'"
proof -
  have c: "ch_wf c" and w: "sw s = ps_world mem d c k" and fn: "sa_drop_fn a = Some 0"
      and cust: "custody (loaned s) c (got s) = mset_set (ds_out d)"
    using inv a by (auto simp: ps_inv_def ps_handles_def)
  have "0 < length (got s)" using a by (cases "got s") auto
  then have "length (ch_returned c) < ch_bound c"
    using custody_size [OF cust] ps_inv_out_bound(1) [OF inv] by linarith
  with ch.give_back_room [OF c] obtain c' where c': "ch_return_try (sa_offset a) c = Some (True, c')"
      "ch_returned c' = ch_returned c @ [sa_offset a]" "ch_inflight c' = ch_inflight c"
      "ch_closed c' = ch_closed c" "ch_bound c' = ch_bound c" "ch_wf c'"
    by blast
  have "sa_drop turns a (sw s) = Some (Done (ps_world mem d c' k))" if "0 < turns" for turns
    using that c'(1) w fn by (cases turns) (simp_all add: sa_drop_def ps_world_def)
  then show ?thesis using c' that by blast
qed

lemma ps_inv_release:
  assumes inv: "ps_inv p s mem d c k" and a: "a \<in> set (got s)" and release: "sa_drop turns a (sw s) = Some (Done w)"
  shows "\<exists>mem d c k. ps_inv p (s\<lparr>sw := w, got := remove1 a (got s)\<rparr>) mem d c k"
proof -
  obtain c' where c': "\<forall>turns>0. sa_drop turns a (sw s) = Some (Done (ps_world mem d c' k))"
      "ch_inflight c' = ch_inflight c" "ch_returned c' = ch_returned c @ [sa_offset a]"
      "ch_closed c' = ch_closed c" "ch_bound c' = ch_bound c" "ch_wf c'"
    using ps_release_result [OF inv a] .
  have "sa_drop_fn a = Some 0" "sw s = ps_world mem d c k" using inv a by (auto simp: ps_inv_def ps_handles_def)
  then have "turns \<noteq> 0" using release by (cases turns) (auto simp: sa_drop_def ps_world_def)
  then have w: "w = ps_world mem d c' k" using c'(1) release by simp
  let ?s = "s\<lparr>sw := w, got := remove1 a (got s)\<rparr>"
  have "ps_inv p ?s mem d c' k"
  proof (rule ps_inv_move [OF inv _ c'(6,4,5)])
    show "custody (loaned ?s) c' (got ?s) = custody (loaned s) c (got s)"
      using c'(2,3) mset_map_remove1 [OF a, of sa_offset] by (simp add: custody_def)
    show "ds_read d y (pub_payload p) mem = sent ?s y"
      if "y \<in> set (ch_inflight c') \<union> sa_offset ` set (got ?s)" for y
      using that ps_inv_content(1) [OF inv, of y] c'(2) set_remove1_subset [of a "got s"] by auto
    show "ps_handles d ?s" using inv by (intro ps_handles_remove) (simp add: ps_inv_def)
  qed (simp add: w)
  then show ?thesis by blast
qed

text \<open>Reclaiming: the loop returns every chunk of the return queue to the pool, once.\<close>

lemma reclaim_chan_drains:
  assumes "ds_wf d" and "ch_wf c" and "set (ch_returned c) \<subseteq> ds_out d" and "distinct (ch_returned c)"
    and "length (ch_returned c) < turns"
  shows "\<exists>d' c'. reclaim_chan turns 0 0 0 (ps_world mem d c k) =
      Some (ps_world mem d' c' (k - of_nat (length (ch_returned c)))) \<and>
    ds_out d' = ds_out d - set (ch_returned c) \<and> ds_wf d' \<and> ds_same d' d \<and> ch_returned c' = [] \<and>
    ch_inflight c' = ch_inflight c \<and> ch_closed c' = ch_closed c \<and> ch_bound c' = ch_bound c \<and> ch_wf c'"
  using assms
proof (induction turns arbitrary: d c k)
  case (Suc turns)
  show ?case
  proof (cases "ch_returned c")
    case Nil
    then have "reclaim_chan (Suc turns) 0 0 0 (ps_world mem d c k) = Some (ps_world mem d c k)"
      using ch.reclaim_none [OF Suc.prems(2) Nil] by (simp add: ps_world_def)
    then show ?thesis
      using Nil Suc.prems by (intro exI [of _ d] exI [of _ c]) (simp add: ds_same_def same_layout_def)
  next
    case (Cons x xs)
    obtain c1 where c1: "ch_reclaim c = Some (Some x, c1)" "ch_returned c1 = xs"
        "ch_inflight c1 = ch_inflight c" "ch_closed c1 = ch_closed c" "ch_bound c1 = ch_bound c" "ch_wf c1"
      using ch.reclaim_Cons [OF Suc.prems(2) Cons] by blast
    have "x \<in> ds_out d" using Suc.prems(3) Cons by simp
    then obtain d1 where d1: "ds_deallocate x d = Some d1" "ds_out d1 = ds_out d - {x}" "ds_wf d1" "ds_same d1 d"
      using ds_out_deallocate [OF Suc.prems(1)] by blast
    have step: "reclaim_chan (Suc turns) 0 0 0 (ps_world mem d c k) =
        reclaim_chan turns 0 0 0 (ps_world mem d1 c1 (k - 1))"
      using c1(1) d1(1) by (simp add: ps_world_def)
    obtain d' c' where IH: "reclaim_chan turns 0 0 0 (ps_world mem d1 c1 (k - 1)) =
          Some (ps_world mem d' c' (k - 1 - of_nat (length xs)))"
        "ds_out d' = ds_out d1 - set xs" "ds_wf d'" "ds_same d' d1" "ch_returned c' = []"
        "ch_inflight c' = ch_inflight c1" "ch_closed c' = ch_closed c1" "ch_bound c' = ch_bound c1" "ch_wf c'"
      using Suc.IH [OF d1(3) c1(6), of "k - 1"] Suc.prems Cons c1(2) d1(2) by auto
    have "ds_same d' d" using IH(4) d1(4) by (simp add: ds_same_def same_layout_def)
    moreover have "ds_out d' = ds_out d - set (ch_returned c)" using IH(2) d1(2) Cons by auto
    moreover have "k - 1 - of_nat (length xs) = k - of_nat (length (ch_returned c))"
      using Cons by (simp add: algebra_simps)
    then have "reclaim_chan (Suc turns) 0 0 0 (ps_world mem d c k) =
        Some (ps_world mem d' c' (k - of_nat (length (ch_returned c))))"
      using step IH(1) by (simp only:)
    ultimately show ?thesis
      using IH c1 by (intro exI [of _ d'] exI [of _ c']) (simp del: reclaim_chan.simps)
  qed
qed simp

lemma ps_inv_returned:
  assumes "ps_inv p s mem d c k"
  shows "set (ch_returned c) \<subseteq> ds_out d" and "distinct (ch_returned c)"
proof -
  have cust: "custody (loaned s) c (got s) = mset_set (ds_out d)" using assms by (simp add: ps_inv_def)
  then show "set (ch_returned c) \<subseteq> ds_out d" using custody_member by blast
  have "count (mset (ch_returned c)) x \<le> 1" for x
    using custody_once [OF cust, of x] by (simp add: custody_def)
  then show "distinct (ch_returned c)" by (rule distinct_if_count)
qed

lemma ps_reclaim_result:
  assumes inv: "ps_inv p s mem d c k" and shape: "ps_shape p u"
  obtains d' c' where "pub_reclaim p (sw s) = Some (ps_world mem d' c' (k - of_nat (length (ch_returned c))))"
    "ds_out d' = ds_out d - set (ch_returned c)" "ds_wf d'" "ds_same d' d" "ch_returned c' = []"
    "ch_inflight c' = ch_inflight c" "ch_closed c' = ch_closed c" "ch_bound c' = ch_bound c" "ch_wf c'"
proof -
  have wf: "ds_wf d" "ch_wf c" and w: "sw s = ps_world mem d c k" using inv by (auto simp: ps_inv_def)
  have "unat (ch_return_count c) = length (ch_returned c)"
    using spsc_queries(3) [of "ch_return_queue c"] wf(2)
    by (simp add: ch_return_count_def ch_returned_def ch_wf_def)
  then obtain d' c' where r: "reclaim_chan (Suc (unat (ch_return_count c))) 0 0 0 (ps_world mem d c k) =
        Some (ps_world mem d' c' (k - of_nat (length (ch_returned c))))"
      "ds_out d' = ds_out d - set (ch_returned c)" "ds_wf d'" "ds_same d' d" "ch_returned c' = []"
      "ch_inflight c' = ch_inflight c" "ch_closed c' = ch_closed c" "ch_bound c' = ch_bound c" "ch_wf c'"
    using reclaim_chan_drains [OF wf ps_inv_returned [OF inv]] by (metis lessI)
  have "pub_reclaim p (sw s) =
      reclaim_chan (Suc (unat (ch_return_count c))) 0 0 0 (ps_world mem d c k) \<bind> reclaim_chans 0 0 []"
    using shape w by (simp add: pub_reclaim_def ps_shape_def ps_world_def del: reclaim_chan.simps)
  then have "pub_reclaim p (sw s) = Some (ps_world mem d' c' (k - of_nat (length (ch_returned c))))"
    unfolding r(1) by simp
  with r(2-9) that show ?thesis by blast
qed

lemma ps_inv_reclaim:
  assumes inv: "ps_inv p s mem d c k" and shape: "ps_shape p u" and reclaim: "pub_reclaim p (sw s) = Some w"
  shows "\<exists>mem d c k. ps_inv p (s\<lparr>sw := w\<rparr>) mem d c k"
proof -
  obtain d' c' where r: "pub_reclaim p (sw s) =
        Some (ps_world mem d' c' (k - of_nat (length (ch_returned c))))"
      "ds_out d' = ds_out d - set (ch_returned c)" "ds_wf d'" "ds_same d' d" "ch_returned c' = []"
      "ch_inflight c' = ch_inflight c" "ch_closed c' = ch_closed c" "ch_bound c' = ch_bound c" "ch_wf c'"
    using ps_reclaim_result [OF inv shape] .
  note ret = ps_inv_returned [OF inv]
  let ?k = "k - of_nat (length (ch_returned c))"
  have cust: "custody (loaned s) c (got s) = mset_set (ds_out d)" and k: "unat k = card (ds_out d)"
    using inv by (auto simp: ps_inv_def)
  have "custody (loaned s) c' (got s) = custody (loaned s) c (got s) - mset (ch_returned c)"
    using r(5,6) by (simp add: custody_def)
  also have "\<dots> = mset_set (ds_out d')"
    unfolding cust r(2) using ret by (simp add: mset_set_Diff mset_set_set)
  finally have cust': "custody (loaned s) c' (got s) = mset_set (ds_out d')" .
  have len: "length (ch_returned c) \<le> unat k" using custody_size [OF cust] k by simp
  then have "length (ch_returned c) < 2 ^ LENGTH(64)" using unat_bound [of k] by simp
  then have "unat ?k = unat k - length (ch_returned c)"
    using len by (simp add: unat_sub word_le_nat_alt unat_of_nat_less)
  moreover have "card (ds_out d') = card (ds_out d) - length (ch_returned c)"
    using ret unfolding r(2) by (simp add: card_Diff_subset distinct_card)
  ultimately have "unat ?k = card (ds_out d')" using k by simp
  then have "ps_inv p (s\<lparr>sw := w\<rparr>) mem d' c' ?k"
    using inv r reclaim cust' ds_same_chunks [OF r(4)] ds_same_resolve [OF r(4)] ds_same_read [OF r(4)]
    by (simp add: ps_inv_def ps_handles_def ds_same_def)
  then show ?thesis by blast
qed

lemma ps_inv_step:
  assumes "ps_step p u s s'" and "ps_shape p u" and "\<exists>mem d c k. ps_inv p s mem d c k"
  shows "\<exists>mem d c k. ps_inv p s' mem d c k"
  using assms
proof (induction rule: ps_step.induct)
  case (ps_loan_refused s e w)
  then show ?case using ps_inv_loan_refused by metis
next
  case (ps_receive_none s w)
  then show ?case using ps_inv_receive_none by metis
qed (blast intro: ps_inv_loan ps_inv_write ps_inv_send ps_inv_drop ps_inv_receive ps_inv_release
    ps_inv_reclaim)+

subsection \<open>Starting up\<close>

lemma ps_boot_inv:
  assumes boot: "ps_boot os service n1 n2 qos payload mem = Some (p, u, w)" and ok: "ps_params_ok qos payload"
  shows "ps_shape p u \<and> pub_payload p = payload \<and> pub_max_loaned p = max_loaned_samples qos \<and>
    (\<exists>mem d c. ps_inv p (ps_start w) mem d c 0 \<and> ds_free d = ds_chunks d \<and>
       c = ch_connect (ch_new (buffer_size qos) (nid n1) (nid n2)) \<and> ds_chunk_count d = ucast (buffer_size qos))"
proof -
  let ?size = "max (of_nat payload) 8 :: usize" and ?count = "ucast (buffer_size qos) :: u32"
  have fits: "layout_fits ?size ?count" using ok by (simp add: ps_params_ok_def)
  obtain r mem' where r: "ds_create os (pub_segment_name service 0 n1) ?size ?count 0 mem = Some (r, mem')"
    using boot
    by (auto simp: ps_boot_def pub_create_def fresh_shared_def empty_world_def Let_def
        Option.bind_eq_Some_conv)
  then obtain d where ok_r: "r = Ok d"
    using boot by (cases r) (auto simp: ps_boot_def pub_create_def fresh_shared_def empty_world_def Let_def)
  then have create: "ds_create os (pub_segment_name service 0 n1) ?size ?count 0 mem = Some (Ok d, mem')"
    using r by simp
  have p: "p = \<lparr>pub_service_name = service, pub_node_id = n1, pub_segment = 0, pub_channels = 0,
        pub_max_loaned = max_loaned_samples qos, pub_active_loans = 0, pub_payload = payload\<rparr>"
      and u: "sub_connections u = [(0, 0)]"
      and w: "w = ps_world mem' d (ch_connect (ch_new (buffer_size qos) (nid n1) (nid n2))) 0"
    using boot create
    by (auto simp: ps_boot_def pub_create_def sub_create_def fresh_shared_def empty_world_def ps_world_def Let_def)
  let ?c = "ch_connect (ch_new (buffer_size qos) (nid n1) (nid n2))"
  note d = ds_create_OkD [OF fits create]
  have out: "ds_out d = {}" using d by (simp add: ds_out_def)
  have "payload \<le> unat (ds_chunk_size d)"
  proof -
    have "payload < 2 ^ LENGTH(64)" using ok by (simp add: ps_params_ok_def)
    then have "payload \<le> unat ?size" by (simp add: max_def word_le_nat_alt unat_of_nat_less)
    then show ?thesis using layout_fits_align(2) [OF fits] d by simp
  qed
  moreover have "card (ds_chunks d) \<le> ch_bound ?c"
  proof -
    have small: "unat (buffer_size qos) < 2 ^ 32" using ok by (simp add: ps_params_ok_def)
    then have "unat ?count = unat (buffer_size qos)"
      by (simp add: unsigned_ucast_eq unsigned_take_bit_eq take_bit_nat_eq_self)
    then have "card (ds_chunks d) = unat (buffer_size qos)" using card_ds_chunks [of d] d by simp
    also have "\<dots> \<le> ch_bound ?c"
      using spsc_new_capacity [of "buffer_size qos"] small by (simp add: word_le_nat_alt)
    finally show ?thesis .
  qed
  ultimately have "ps_inv p (ps_start w) mem' d ?c 0"
    using d w p out by (simp add: ps_inv_def ps_start_def ps_handles_def custody_def)
  then show ?thesis using p u d by (auto simp: ps_shape_def)
qed

lemma ps_reach_inv:
  assumes "ps_reach p u w s" and "ps_shape p u" and "\<exists>mem d c k. ps_inv p (ps_start w) mem d c k"
  shows "\<exists>mem d c k. ps_inv p s mem d c k"
  using assms
proof (induction rule: ps_reach.induct)
  case (ps_next s s')
  then show ?case using ps_inv_step by blast
qed

subsection \<open>What a publisher and a subscriber can rely on\<close>

lemma ps_inv_integrity:
  assumes inv: "ps_inv p s mem d c k"
  shows "(\<forall>a \<in> set (got s). sa_read a (pub_payload p) (sw s) = sent s (sa_offset a)) \<and>
    distinct (map smu_offset (loaned s) @ map sa_offset (got s))"
proof -
  have w: "sw s = ps_world mem d c k" and h: "ps_handles d s"
      and cust: "custody (loaned s) c (got s) = mset_set (ds_out d)"
    using inv by (auto simp: ps_inv_def)
  have "sa_read a (pub_payload p) (sw s) = sent s (sa_offset a)" if "a \<in> set (got s)" for a
    using ps_inv_content(1) [OF inv, of "sa_offset a"] that h w
    by (auto simp: sa_read_def ps_handles_def ps_world_def ds_read_def)
  moreover have "count (mset (map smu_offset (loaned s) @ map sa_offset (got s))) x \<le> 1" for x
    using custody_once [OF cust, of x] by (simp add: custody_def)
  then have "distinct (map smu_offset (loaned s) @ map sa_offset (got s))" by (rule distinct_if_count)
  ultimately show ?thesis by blast
qed

lemma mset_out_free:
  assumes "ds_wf d"
  shows "mset_set (ds_out d) + mset_set (ds_free d) = mset_set (ds_chunks d)"
proof -
  have "mset_set (ds_out d \<union> ds_free d) = mset_set (ds_out d) + mset_set (ds_free d)"
    using ds.finite_free [OF assms] by (intro mset_set_Union) (simp_all, auto simp: ds_out_def)
  moreover have "ds_out d \<union> ds_free d = ds_chunks d" using ds.free_slots [OF assms] by (auto simp: ds_out_def)
  ultimately show ?thesis by simp
qed

text \<open>C3: zero-copy delivery is exact, for a publisher with one subscriber. Whatever the two do, in whatever
  order of whole operations, every sample the subscriber holds reads as the bytes its chunk was sent
  with, for as long as it is held; no two samples, on loan or held, share a chunk, so a later loan never
  overwrites data that is still being read; and no chunk is lost: those on loan, in flight, held, on
  their way back and free are together all chunks of the segment, each once. (With two subscribers
  this fails: see \<open>Pub_Sub_Limits\<close>.)\<close>

theorem pubsub_integrity:
  assumes "ps_boot os service n1 n2 qos payload mem = Some (p, u, w)" and "ps_params_ok qos payload"
    and "ps_reach p u w s"
  shows "(\<forall>a \<in> set (got s). sa_read a payload (sw s) = sent s (sa_offset a)) \<and>
    distinct (map smu_offset (loaned s) @ map sa_offset (got s)) \<and>
    (\<exists>d c. w_segs (sw s) = [d] \<and> w_chans (sw s) = [c] \<and>
      custody (loaned s) c (got s) + mset_set (ds_free d) = mset_set (ds_chunks d))"
proof -
  have "pub_payload p = payload" using ps_boot_inv [OF assms(1,2)] by simp
  moreover obtain mem d c k where inv: "ps_inv p s mem d c k"
    using ps_reach_inv [OF assms(3)] ps_boot_inv [OF assms(1,2)] by blast
  moreover have "w_segs (sw s) = [d]" "w_chans (sw s) = [c]" "custody (loaned s) c (got s) = mset_set (ds_out d)" "ds_wf d"
    using inv by (auto simp: ps_inv_def ps_world_def)
  ultimately show ?thesis using ps_inv_integrity [OF inv] mset_out_free [of d] by auto
qed

text \<open>C4: with one subscriber nothing leaks, blocks or panics. The counter of active loans is
  exactly the number of chunks on loan, in flight, held and on their way back; sending a sample on
  loan always succeeds (the queue cannot be full), as do dropping it, releasing a held sample (at
  the first attempt) and reclaiming; a loan succeeds exactly when fewer than \<open>max_loaned_samples\<close>
  chunks are out and the pool is not exhausted.\<close>

theorem pubsub_progress:
  assumes "ps_boot os service n1 n2 qos payload mem = Some (p, u, w)" and "ps_params_ok qos payload"
    and "ps_reach p u w s"
  shows "\<exists>d c k. w_segs (sw s) = [d] \<and> w_chans (sw s) = [c] \<and> pub_get_active_loans p (sw s) = Some k \<and>
    unat k = length (loaned s) + length (ch_inflight c) + length (got s) + length (ch_returned c) \<and>
    (\<forall>m \<in> set (loaned s). (\<exists>w'. smu_send m (sw s) = Some (Ok (), w')) \<and> (\<exists>w'. smu_drop m (sw s) = Some w')) \<and>
    (\<forall>a \<in> set (got s). \<exists>w'. sa_drop 1 a (sw s) = Some (Done w')) \<and>
    (\<exists>w'. pub_reclaim p (sw s) = Some w') \<and>
    (\<exists>r w'. pub_loan p (sw s) = Some (r, w') \<and>
      (is_Ok r \<longleftrightarrow> k < max_loaned_samples qos \<and> ds_free d \<noteq> {}))"
proof -
  have shape: "ps_shape p u" and pm: "pub_max_loaned p = max_loaned_samples qos"
    using ps_boot_inv [OF assms(1,2)] by auto
  obtain mem d c k where inv: "ps_inv p s mem d c k"
    using ps_reach_inv [OF assms(3)] ps_boot_inv [OF assms(1,2)] by blast
  then have w: "sw s = ps_world mem d c k" and k: "unat k = card (ds_out d)"
      and cust: "custody (loaned s) c (got s) = mset_set (ds_out d)"
    by (auto simp: ps_inv_def)
  have "\<exists>r w'. pub_loan p (sw s) = Some (r, w') \<and> (is_Ok r \<longleftrightarrow> k < max_loaned_samples qos \<and> ds_free d \<noteq> {})"
    using inv shape by (cases rule: ps_loan_result) (auto simp: pm)
  moreover have "\<exists>w'. smu_send m (sw s) = Some (Ok (), w')" if "m \<in> set (loaned s)" for m
    using ps_send_result [OF inv that] by blast
  moreover have "\<exists>w'. smu_drop m (sw s) = Some w'" if "m \<in> set (loaned s)" for m
    using ps_drop_result [OF inv that] by blast
  moreover have "\<exists>w'. sa_drop 1 a (sw s) = Some (Done w')" if "a \<in> set (got s)" for a
    using ps_release_result [OF inv that] by (metis zero_less_one)
  moreover have "\<exists>w'. pub_reclaim p (sw s) = Some w'" using ps_reclaim_result [OF inv shape] by blast
  moreover have "pub_get_active_loans p (sw s) = Some k"
    using shape w by (simp add: pub_get_active_loans_def ps_shape_def ps_world_def)
  ultimately show ?thesis
    using w k custody_size [OF cust] by (intro exI [of _ d] exI [of _ c] exI [of _ k]) (auto simp: ps_world_def)
qed

subsection \<open>A run\<close>

lemma ps_params_default: "ps_params_ok pubsub_qos_default 8"
  by (simp add: ps_params_ok_def pubsub_qos_default_def layout_fits_def SENTINEL_def)

lemma ps_boot_default:
  "\<exists>p u w. ps_boot nix_ok ''svc'' (NodeId 1) (NodeId 2) pubsub_qos_default 8 (\<lambda>_. 0) = Some (p, u, w)"
proof -
  let ?name = "pub_segment_name ''svc'' 0 (NodeId 1)"
  have eight: "align8 8 = 8" by (simp add: align8_def)
  have fits: "layout_fits 8 64" by (simp add: layout_fits_def SENTINEL_def)
  obtain shm mem1 where "shm_create nix_ok ?name (HEADER_SIZE + align8 8 * ucast (64 :: u32)) (\<lambda>_. 0) = (Ok shm, mem1)"
    by (simp add: shm_create_def Let_def nix_ok_def do_mmap_def HEADER_SIZE_def eight)
  from ds_create_wf [OF fits this, of 0] obtain d mem' where
    "ds_create nix_ok ?name 8 64 0 (\<lambda>_. 0) = Some (Ok d, mem')" by blast
  then show ?thesis
    by (simp add: ps_boot_def pub_create_def sub_create_def fresh_shared_def empty_world_def Let_def
        pubsub_qos_default_def)
qed

lemma ps_run_receive:
  assumes shape: "ps_shape p u" and inv: "ps_inv p (ps_start w) mem d c 0" "ds_free d = ds_chunks d"
    and max: "0 < pub_max_loaned p"
  shows "\<exists>s. ps_reach p u w s \<and> got s \<noteq> [] \<and> loaned s = []"
proof -
  have "ds_free d \<noteq> {}" using inv ds_wf_first_chunk [of d] by (auto simp: ps_inv_def)
  then have "\<exists>m w1. pub_loan p (sw (ps_start w)) = Some (Ok m, w1)"
    by (cases rule: ps_loan_result [OF inv(1) shape]) (use max in auto)
  then obtain m w1 where "pub_loan p (sw (ps_start w)) = Some (Ok m, w1)" by blast
  note loan1 = this
  let ?s1 = "(ps_start w)\<lparr>sw := w1, loaned := m # loaned (ps_start w)\<rparr>"
  have step1: "ps_step p u (ps_start w) ?s1" using loan1 by (rule ps_loan)
  have "\<exists>mem d c k. ps_inv p ?s1 mem d c k" using ps_inv_loan [OF inv(1) shape loan1] .
  then obtain mem1 d1 c1 k1 where inv1: "ps_inv p ?s1 mem1 d1 c1 k1" by blast
  have m: "m \<in> set (loaned ?s1)" by simp
  obtain c2 where send: "smu_send m (sw ?s1) = Some (Ok (), ps_world mem1 d1 c2 k1)"
      "ch_inflight c2 = ch_inflight c1 @ [smu_offset m]"
    using ps_send_result [OF inv1 m] by blast
  note step2 = ps_send [OF m send(1), of p u]
  obtain mem2 d2 c3 k2 where inv2: "ps_inv p (?s1\<lparr>sw := ps_world mem1 d1 c2 k1, loaned := remove1 m (loaned ?s1),
      sent := (sent ?s1)(smu_offset m := read_list (smu_ptr m) (pub_payload p) (w_mem (sw ?s1)))\<rparr>) mem2 d2 c3 k2"
      (is "ps_inv p ?s2 _ _ _ _")
    using ps_inv_send [OF inv1 m send(1)] by blast
  then have "c3 = c2" by (simp add: ps_inv_def ps_world_def)
  then have "\<exists>a w3. sub_receive u (sw ?s2) = Some (Ok (Some a), w3)"
    by (cases rule: ps_receive_result [OF inv2 shape]) (use send(2) in auto)
  then obtain a w3 where "sub_receive u (sw ?s2) = Some (Ok (Some a), w3)" by blast
  then have "ps_step p u ?s2 (?s2\<lparr>sw := w3, got := a # got ?s2\<rparr>)" by (rule ps_receive)
  then have "ps_reach p u w (?s2\<lparr>sw := w3, got := a # got ?s2\<rparr>)"
    using ps_next [OF ps_next [OF ps_next [OF ps_init step1] step2]] by blast
  then show ?thesis by (intro exI [of _ "?s2\<lparr>sw := w3, got := a # got ?s2\<rparr>"]) (simp add: ps_start_def)
qed

lemma ps_run_default:
  "\<exists>p u w s. ps_boot nix_ok ''svc'' (NodeId 1) (NodeId 2) pubsub_qos_default 8 (\<lambda>_. 0) = Some (p, u, w) \<and>
     ps_reach p u w s \<and> got s \<noteq> [] \<and> loaned s = []"
proof -
  obtain p u w where boot:
    "ps_boot nix_ok ''svc'' (NodeId 1) (NodeId 2) pubsub_qos_default 8 (\<lambda>_. 0) = Some (p, u, w)"
    using ps_boot_default by blast
  note b = ps_boot_inv [OF boot ps_params_default]
  have "0 < pub_max_loaned p" using b by (simp add: pubsub_qos_default_def)
  then show ?thesis using boot b ps_run_receive by blast
qed

theorem pubsub_integrity_witness:
  "\<exists>p u w s a. ps_boot nix_ok ''svc'' (NodeId 1) (NodeId 2) pubsub_qos_default 8 (\<lambda>_. 0) = Some (p, u, w) \<and>
     ps_reach p u w s \<and> a \<in> set (got s) \<and> sa_read a 8 (sw s) = sent s (sa_offset a)"
proof -
  obtain p u w s where run:
    "ps_boot nix_ok ''svc'' (NodeId 1) (NodeId 2) pubsub_qos_default 8 (\<lambda>_. 0) = Some (p, u, w)"
    "ps_reach p u w s" "got s \<noteq> []"
    using ps_run_default by blast
  then have "hd (got s) \<in> set (got s)" by simp
  then show ?thesis using run pubsub_integrity [OF run(1) ps_params_default run(2)] by blast
qed

theorem pubsub_progress_witness:
  "\<exists>p u w s a. ps_boot nix_ok ''svc'' (NodeId 1) (NodeId 2) pubsub_qos_default 8 (\<lambda>_. 0) = Some (p, u, w) \<and>
     ps_reach p u w s \<and> a \<in> set (got s) \<and> (\<exists>w'. sa_drop 1 a (sw s) = Some (Done w'))"
proof -
  obtain p u w s where run:
    "ps_boot nix_ok ''svc'' (NodeId 1) (NodeId 2) pubsub_qos_default 8 (\<lambda>_. 0) = Some (p, u, w)"
    "ps_reach p u w s" "got s \<noteq> []"
    using ps_run_default by blast
  then have "hd (got s) \<in> set (got s)" by simp
  then show ?thesis using run pubsub_progress [OF run(1) ps_params_default run(2)] by blast
qed

end
