(* ===== verification/Port_Conc.thy ===== *)
theory Port_Conc
  imports Pub_Sub_Safety Spsc_Conc
begin

text \<open>
  A publisher and a subscriber at work at the same time: \<open>SampleMut::send\<close> and \<open>Publisher::reclaim\<close>
  of \<open>port/publisher.rs\<close> in one thread, \<open>Subscriber::receive\<close> of \<open>port/subscriber.rs\<close> and the drop of a
  \<open>Sample\<close> in another, interleaved at the granularity of the atomic accesses to the channel, under
  sequential consistency. The allocator and the loan counter are used by the publisher's thread only,
  so \<open>loan\<close>, the drop of an unsent sample and the deallocation in \<open>reclaim\<close> are one step each; a store
  through a loaned sample is one step per byte.

  \<open>csent\<close> is the payload of a chunk when it was last sent, \<open>cmsgs\<close> the payloads sent and \<open>crecv\<close> the
  payloads received, in order; \<open>sq_pushed\<close>, \<open>sq_popped\<close>, \<open>rq_pushed\<close> and
  \<open>rq_popped\<close> are the histories of the two queues, as in \<open>Spsc_Conc\<close>. Both queues are instances of the
  system of \<open>Spsc_Conc\<close> (\<open>send_ring\<close>, \<open>return_ring\<close>), whose invariant the proofs use as it is.
\<close>

subsection \<open>The publisher's thread\<close>

datatype pub_pc =
    PubIdle
  | SendLoop sample_mut "nat list"
  | SendPush sample_mut nat "nat list" prod_pc
  | SendRet "(unit, port_error) result"
  | ReclaimLoop "nat list"
  | ReclaimPop nat "nat list" cons_pc
  | ReclaimFree nat "nat list" pointer_offset
  | PubPanic

fun after_push :: "sample_mut \<Rightarrow> nat \<Rightarrow> nat list \<Rightarrow> prod_pc \<Rightarrow> pub_pc" where
  "after_push m ch chs (PRet b) = (if b then SendLoop m chs else SendRet (Err (SendErr QueueFull)))"
| "after_push m ch chs PPanic = PubPanic"
| "after_push m ch chs pc = SendPush m ch chs pc"

fun after_reclaim :: "nat \<Rightarrow> nat list \<Rightarrow> cons_pc \<Rightarrow> pub_pc" where
  "after_reclaim ch chs (CRet None) = ReclaimLoop chs"
| "after_reclaim ch chs (CRet (Some raw)) = ReclaimFree ch chs (po_from_raw raw)"
| "after_reclaim ch chs CPanic = PubPanic"
| "after_reclaim ch chs pc = ReclaimPop ch chs pc"

definition reclaim_free :: "publisher \<Rightarrow> pointer_offset \<Rightarrow> world \<Rightarrow> world option" where
  "reclaim_free p offset w = do {
     segment \<leftarrow> idx (w_segs w) (pub_segment p);
     segment \<leftarrow> ds_deallocate offset segment;
     current \<leftarrow> idx (w_loans w) (pub_active_loans p);
     Some (w\<lparr>w_segs := (w_segs w)[pub_segment p := segment],
             w_loans := (w_loans w)[pub_active_loans p := current - 1]\<rparr>)
   }"

fun pub_thread_step :: "publisher \<Rightarrow> world \<Rightarrow> pub_pc \<Rightarrow> world \<times> pub_pc" where
  "pub_thread_step p w (SendLoop m []) = (w, SendRet (Ok ()))"
| "pub_thread_step p w (SendLoop m (ch # chs)) =
     (case idx (w_chans w) ch of
        None \<Rightarrow> (w, PubPanic)
      | Some c \<Rightarrow>
          (w, if ch_get_state c = Disconnected then SendRet (Err (SendErr SendConnectionBroken))
              else SendPush m ch chs (PStart (po_raw (smu_offset m)))))"
| "pub_thread_step p w (SendPush m ch chs pc) =
     (case idx (w_chans w) ch of
        None \<Rightarrow> (w, PubPanic)
      | Some c \<Rightarrow>
          (case prod_step (ch_send_queue c) pc of
             (q, pc) \<Rightarrow> (w\<lparr>w_chans := (w_chans w)[ch := c\<lparr>ch_send_queue := q\<rparr>]\<rparr>, after_push m ch chs pc)))"
| "pub_thread_step p w (ReclaimLoop []) = (w, PubIdle)"
| "pub_thread_step p w (ReclaimLoop (ch # chs)) = (w, ReclaimPop ch chs CStart)"
| "pub_thread_step p w (ReclaimPop ch chs pc) =
     (case idx (w_chans w) ch of
        None \<Rightarrow> (w, PubPanic)
      | Some c \<Rightarrow>
          (case cons_step (ch_return_queue c) pc of
             (q, pc) \<Rightarrow> (w\<lparr>w_chans := (w_chans w)[ch := c\<lparr>ch_return_queue := q\<rparr>]\<rparr>, after_reclaim ch chs pc)))"
| "pub_thread_step p w (ReclaimFree ch chs offset) =
     (case reclaim_free p offset w of
        None \<Rightarrow> (w, PubPanic)
      | Some w \<Rightarrow> (w, ReclaimPop ch chs CStart))"
| "pub_thread_step p w pc = (w, pc)"

subsection \<open>The subscriber's thread\<close>

datatype sub_pc =
    SubIdle
  | RecvLoop "(nat \<times> nat) list"
  | RecvRead nat nat "(nat \<times> nat) list"
  | RecvWrite nat nat "(nat \<times> nat) list" u64
  | RecvPop nat nat "(nat \<times> nat) list" cons_pc
  | RecvRet "(sample option, port_error) result"
  | DropPush sample nat prod_pc
  | DropRet
  | SubPanic

text \<open>\<open>RecvRead\<close> and \<open>RecvWrite\<close> are the two loads of \<open>is_empty\<close>, reached when the channel is found
  disconnected.\<close>

fun after_receive :: "world \<Rightarrow> nat \<Rightarrow> nat \<Rightarrow> (nat \<times> nat) list \<Rightarrow> cons_pc \<Rightarrow> sub_pc" where
  "after_receive w seg ch conns (CRet None) = RecvLoop conns"
| "after_receive w seg ch conns (CRet (Some raw)) =
     (case idx (w_segs w) seg of
        None \<Rightarrow> SubPanic
      | Some segment \<Rightarrow>
          RecvRet (Ok (Some \<lparr>sa_ptr = ds_resolve_ptr segment (po_from_raw raw), sa_offset = po_from_raw raw,
                             sa_drop_fn = Some ch\<rparr>)))"
| "after_receive w seg ch conns CPanic = SubPanic"
| "after_receive w seg ch conns pc = RecvPop seg ch conns pc"

fun after_return :: "sample \<Rightarrow> nat \<Rightarrow> prod_pc \<Rightarrow> sub_pc" where
  "after_return a ch (PRet b) = (if b then DropRet else DropPush a ch (PStart (po_raw (sa_offset a))))"
| "after_return a ch PPanic = SubPanic"
| "after_return a ch pc = DropPush a ch pc"

fun sub_thread_step :: "world \<Rightarrow> sub_pc \<Rightarrow> world \<times> sub_pc" where
  "sub_thread_step w (RecvLoop []) = (w, RecvRet (Ok None))"
| "sub_thread_step w (RecvLoop ((seg, ch) # conns)) =
     (case idx (w_chans w) ch of
        None \<Rightarrow> (w, SubPanic)
      | Some c \<Rightarrow>
          (w, if ch_get_state c = Disconnected then RecvRead seg ch conns else RecvPop seg ch conns CStart))"
| "sub_thread_step w (RecvRead seg ch conns) =
     (case idx (w_chans w) ch of
        None \<Rightarrow> (w, SubPanic)
      | Some c \<Rightarrow> (w, RecvWrite seg ch conns (read_pos (ch_send_queue c))))"
| "sub_thread_step w (RecvWrite seg ch conns read) =
     (case idx (w_chans w) ch of
        None \<Rightarrow> (w, SubPanic)
      | Some c \<Rightarrow>
          (w, if read = write_pos (ch_send_queue c) then RecvRet (Err (ReceiveErr ReceiveConnectionBroken))
              else RecvPop seg ch conns CStart))"
| "sub_thread_step w (RecvPop seg ch conns pc) =
     (case idx (w_chans w) ch of
        None \<Rightarrow> (w, SubPanic)
      | Some c \<Rightarrow>
          (case cons_step (ch_send_queue c) pc of
             (q, pc) \<Rightarrow> (w\<lparr>w_chans := (w_chans w)[ch := c\<lparr>ch_send_queue := q\<rparr>]\<rparr>,
                         after_receive w seg ch conns pc)))"
| "sub_thread_step w (DropPush a ch pc) =
     (case idx (w_chans w) ch of
        None \<Rightarrow> (w, SubPanic)
      | Some c \<Rightarrow>
          (case prod_step (ch_return_queue c) pc of
             (q, pc) \<Rightarrow> (w\<lparr>w_chans := (w_chans w)[ch := c\<lparr>ch_return_queue := q\<rparr>]\<rparr>, after_return a ch pc)))"
| "sub_thread_step w pc = (w, pc)"

subsection \<open>The system\<close>

record port_sys =
  pw :: world
  ppc :: pub_pc
  spc :: sub_pc
  cloaned :: "sample_mut list"
  cgot :: "sample list"
  csent :: "pointer_offset \<Rightarrow> u8 list"
  cmsgs :: "u8 list list"
  crecv :: "u8 list list"
  sq_pushed :: "u64 list"
  sq_popped :: "u64 list"
  rq_pushed :: "u64 list"
  rq_popped :: "u64 list"

text \<open>The thread that is pushing to or popping from a queue, as an end of that queue.\<close>

fun pub_prod :: "pub_pc \<Rightarrow> prod_pc" where
  "pub_prod (SendPush m ch chs pc) = pc"
| "pub_prod pc = PIdle"

fun pub_cons :: "pub_pc \<Rightarrow> cons_pc" where
  "pub_cons (ReclaimPop ch chs pc) = pc"
| "pub_cons pc = CIdle"

fun sub_prod :: "sub_pc \<Rightarrow> prod_pc" where
  "sub_prod (DropPush a ch pc) = pc"
| "sub_prod pc = PIdle"

fun sub_cons :: "sub_pc \<Rightarrow> cons_pc" where
  "sub_cons (RecvPop seg ch conns pc) = pc"
| "sub_cons pc = CIdle"

definition pub_advance :: "port_sys \<Rightarrow> world \<Rightarrow> pub_pc \<Rightarrow> port_sys" where
  "pub_advance s w pc = s\<lparr>pw := w, ppc := pc, sq_pushed := sq_pushed s @ prod_log (pub_prod (ppc s)),
     rq_popped := rq_popped s @ cons_log (pub_cons (ppc s))\<rparr>"

fun sub_gets :: "sub_pc \<Rightarrow> sample list" where
  "sub_gets (RecvRet (Ok (Some a))) = [a]"
| "sub_gets pc = []"

definition sub_advance :: "nat \<Rightarrow> port_sys \<Rightarrow> world \<Rightarrow> sub_pc \<Rightarrow> port_sys" where
  "sub_advance n s w pc = s\<lparr>pw := w, spc := pc,
     crecv := crecv s @ map (\<lambda>a. sa_read a n w) (sub_gets pc),
     rq_pushed := rq_pushed s @ prod_log (sub_prod (spc s)),
     sq_popped := sq_popped s @ cons_log (sub_cons (spc s))\<rparr>"

definition pub_runs :: "pub_pc \<Rightarrow> bool" where
  "pub_runs pc \<longleftrightarrow> pc \<noteq> PubIdle \<and> (\<forall>r. pc \<noteq> SendRet r)"

definition sub_runs :: "sub_pc \<Rightarrow> bool" where
  "sub_runs pc \<longleftrightarrow> pc \<noteq> SubIdle \<and> pc \<noteq> DropRet \<and> (\<forall>r. pc \<noteq> RecvRet r)"

inductive port_step :: "publisher \<Rightarrow> subscriber \<Rightarrow> port_sys \<Rightarrow> port_sys \<Rightarrow> bool" for p u where
  p_loan: "ppc s = PubIdle \<Longrightarrow> pub_loan p (pw s) = Some (Ok m, w) \<Longrightarrow>
    port_step p u s (s\<lparr>pw := w, cloaned := m # cloaned s\<rparr>)"
| p_loan_refused: "ppc s = PubIdle \<Longrightarrow> pub_loan p (pw s) = Some (Err e, w) \<Longrightarrow>
    port_step p u s (s\<lparr>pw := w\<rparr>)"
| p_store: "ppc s = PubIdle \<Longrightarrow> m \<in> set (cloaned s) \<Longrightarrow> i < pub_payload p \<Longrightarrow>
    port_step p u s (s\<lparr>pw := (pw s)\<lparr>w_mem := (w_mem (pw s))(smu_ptr m + of_nat i := b)\<rparr>\<rparr>)"
| p_drop: "ppc s = PubIdle \<Longrightarrow> m \<in> set (cloaned s) \<Longrightarrow> smu_drop m (pw s) = Some w \<Longrightarrow>
    port_step p u s (s\<lparr>pw := w, cloaned := remove1 m (cloaned s)\<rparr>)"
| p_call_send: "ppc s = PubIdle \<Longrightarrow> m \<in> set (cloaned s) \<Longrightarrow> smu_send_fn m = Some l \<Longrightarrow>
    idx (w_lists (pw s)) l = Some chs \<Longrightarrow>
    port_step p u s (s\<lparr>ppc := SendLoop m chs, cloaned := remove1 m (cloaned s),
      csent := (csent s)(smu_offset m := read_list (smu_ptr m) (pub_payload p) (w_mem (pw s))),
      cmsgs := cmsgs s @ [read_list (smu_ptr m) (pub_payload p) (w_mem (pw s))]\<rparr>)"
| p_call_reclaim: "ppc s = PubIdle \<Longrightarrow> idx (w_lists (pw s)) (pub_channels p) = Some chs \<Longrightarrow>
    port_step p u s (s\<lparr>ppc := ReclaimLoop chs\<rparr>)"
| p_run: "pub_runs (ppc s) \<Longrightarrow> pub_thread_step p (pw s) (ppc s) = (w, pc) \<Longrightarrow>
    port_step p u s (pub_advance s w pc)"
| p_return: "ppc s = SendRet r \<Longrightarrow> port_step p u s (s\<lparr>ppc := PubIdle\<rparr>)"
| s_call_receive: "spc s = SubIdle \<Longrightarrow> port_step p u s (s\<lparr>spc := RecvLoop (sub_connections u)\<rparr>)"
| s_call_drop: "spc s = SubIdle \<Longrightarrow> a \<in> set (cgot s) \<Longrightarrow> sa_drop_fn a = Some ch \<Longrightarrow>
    port_step p u s (s\<lparr>spc := DropPush a ch (PStart (po_raw (sa_offset a))), cgot := remove1 a (cgot s)\<rparr>)"
| s_run: "sub_runs (spc s) \<Longrightarrow> sub_thread_step (pw s) (spc s) = (w, pc) \<Longrightarrow>
    port_step p u s (sub_advance (pub_payload p) s w pc)"
| s_return_sample: "spc s = RecvRet (Ok (Some a)) \<Longrightarrow>
    port_step p u s (s\<lparr>spc := SubIdle, cgot := a # cgot s\<rparr>)"
| s_return_none: "spc s = RecvRet (Ok None) \<or> spc s = RecvRet (Err e) \<or> spc s = DropRet \<Longrightarrow>
    port_step p u s (s\<lparr>spc := SubIdle\<rparr>)"

definition port_start :: "world \<Rightarrow> port_sys" where
  "port_start w = \<lparr>pw = w, ppc = PubIdle, spc = SubIdle, cloaned = [], cgot = [], csent = (\<lambda>_. []),
     cmsgs = [], crecv = [], sq_pushed = [], sq_popped = [], rq_pushed = [], rq_popped = []\<rparr>"

inductive port_reach :: "publisher \<Rightarrow> subscriber \<Rightarrow> world \<Rightarrow> port_sys \<Rightarrow> bool" for p u w0 where
  port_init: "port_reach p u w0 (port_start w0)"
| port_next: "port_reach p u w0 s \<Longrightarrow> port_step p u s s' \<Longrightarrow> port_reach p u w0 s'"

subsection \<open>One end of a queue\<close>

fun prod_val :: "prod_pc \<Rightarrow> u64 option" where
  "prod_val (PStart v) = Some v"
| "prod_val (PWrite v w) = Some v"
| "prod_val (PRead v w r) = Some v"
| "prod_val (PStored v w) = Some v"
| "prod_val pc = None"

fun prod_room :: "u64 \<Rightarrow> prod_pc \<Rightarrow> bool" where
  "prod_room cap (PRead v w r) \<longleftrightarrow> w - r < cap"
| "prod_room cap pc \<longleftrightarrow> True"

fun cons_busy :: "cons_pc \<Rightarrow> bool" where
  "cons_busy CIdle \<longleftrightarrow> False"
| "cons_busy (CRet r) \<longleftrightarrow> False"
| "cons_busy CPanic \<longleftrightarrow> False"
| "cons_busy pc \<longleftrightarrow> True"

lemma prod_step_capacity: "prod_step q pc = (q', pc') \<Longrightarrow> spsc_capacity q' = spsc_capacity q"
  by (cases pc) (auto split: if_splits option.splits)

lemma cons_step_capacity: "cons_step q pc = (q', pc') \<Longrightarrow> spsc_capacity q' = spsc_capacity q"
  by (cases pc) (auto split: if_splits option.splits)

text \<open>A push that starts when there is room succeeds, whatever the other end does meanwhile.\<close>

lemma prod_step_room:
  assumes inv: "spsc_inv s" and v: "prod_val (prod s) = Some v"
    and room: "prod_room (spsc_capacity (ring s)) (prod s)"
    and few: "length (pushed s) < length (popped s) + unat (spsc_capacity (ring s))"
    and step: "prod_step (ring s) (prod s) = (q, pc)"
  shows "pc = PRet True \<and> prod_log (prod s) = [v] \<or>
    prod_val pc = Some v \<and> prod_room (spsc_capacity q) pc \<and> prod_log (prod s) = []"
proof (cases "prod s")
  case (PWrite x w)
  have hold: "ring_holds s" and w: "w = of_nat (length (pushed s))" using inv PWrite by (auto simp: spsc_inv_def)
  then have le: "length (popped s) \<le> length (pushed s)" by (simp add: ring_holds_def)
  have "length (pushed s) - length (popped s) < 2 ^ LENGTH(64)"
    using hold few ring_capacity_bound [of "ring s"] by (simp add: ring_holds_def)
  then have "unat (w - read_pos (ring s)) = length (pushed s) - length (popped s)"
    using hold w unat_of_nat_diff [of "length (popped s)" "length (pushed s)", where ?'a = 64]
    by (simp add: ring_holds_def)
  then have "w - read_pos (ring s) < spsc_capacity (ring s)" using few le by (simp add: word_less_nat_alt)
  then show ?thesis using PWrite v step by auto
next
  case (PRead x w r)
  then have "spsc_inv (s\<lparr>ring := q, prod := pc\<rparr>)" using spsc_inv_prod [OF inv step] by simp
  then have "pc \<noteq> PPanic" by (auto simp: spsc_inv_def)
  then show ?thesis using PRead v step room by (auto split: option.splits if_splits)
qed (use v step in auto)

lemma ring_push:
  assumes inv: "spsc_inv s" and v: "prod_val (prod s) = Some v"
    and room: "prod_room (spsc_capacity (ring s)) (prod s)"
    and few: "length (pushed s) < length (popped s) + unat (spsc_capacity (ring s))"
    and step: "prod_step (ring s) (prod s) = (q, pc)"
  obtains (stored) "pc = PRet True" "prod_log (prod s) = [v]"
      "spsc_inv (s\<lparr>ring := q, prod := PIdle, pushed := pushed s @ [v]\<rparr>)"
  | (inside) "prod_val pc = Some v" "prod_room (spsc_capacity q) pc" "prod_log (prod s) = []"
      "spsc_inv (s\<lparr>ring := q, prod := pc\<rparr>)"
proof -
  note inv' = spsc_inv_prod [OF inv step]
  consider "pc = PRet True" "prod_log (prod s) = [v]"
    | "prod_val pc = Some v" "prod_room (spsc_capacity q) pc" "prod_log (prod s) = []"
    using prod_step_room [OF assms] by blast
  then show ?thesis
  proof cases
    case 1
    have "spsc_inv (s\<lparr>ring := q, prod := PIdle, pushed := pushed s @ [v]\<rparr>)"
      by (rule spsc_inv_quiet [OF inv']; use 1 inv' in \<open>simp add: spsc_inv_def\<close>)
    with 1 show ?thesis by (rule stored)
  next
    case 2
    with inv' show ?thesis by (intro inside) simp_all
  qed
qed

lemma cons_step_busy:
  assumes inv: "spsc_inv s" and busy: "cons_busy (cons s)" and step: "cons_step (ring s) (cons s) = (q, pc)"
  shows "pc = CRet None \<and> cons_log (cons s) = [] \<or>
    (\<exists>v. pc = CRet (Some v) \<and> cons_log (cons s) = [v] \<and> length (popped s) < length (pushed s) \<and>
       pushed s ! length (popped s) = v) \<or>
    cons_busy pc \<and> cons_log (cons s) = []"
proof (cases "cons s")
  case (CWrite r w)
  then have "spsc_inv (s\<lparr>ring := q, cons := pc\<rparr>)" using spsc_inv_cons [OF inv step] by simp
  then have "pc \<noteq> CPanic" by (auto simp: spsc_inv_def)
  then show ?thesis using CWrite step by (auto split: option.splits if_splits)
next
  case (CLoaded r v)
  then show ?thesis using inv step by (auto simp: spsc_inv_def)
qed (use busy step in auto)

lemma ring_pop:
  assumes inv: "spsc_inv s" and busy: "cons_busy (cons s)" and step: "cons_step (ring s) (cons s) = (q, pc)"
  obtains (empty) "pc = CRet None" "cons_log (cons s) = []" "spsc_inv (s\<lparr>ring := q, cons := CIdle\<rparr>)"
  | (loaded) v where "pc = CRet (Some v)" "cons_log (cons s) = [v]"
      "drop (length (popped s)) (pushed s) = v # drop (Suc (length (popped s))) (pushed s)"
      "spsc_inv (s\<lparr>ring := q, cons := CIdle, popped := popped s @ [v]\<rparr>)"
  | (inside) "cons_busy pc" "cons_log (cons s) = []" "spsc_inv (s\<lparr>ring := q, cons := pc\<rparr>)"
proof -
  note inv' = spsc_inv_cons [OF inv step]
  have idle: "spsc_inv (s\<lparr>ring := q, cons := CIdle, popped := popped s @ cons_log (cons s)\<rparr>)"
    by (rule spsc_inv_quiet [OF inv']; use inv' in \<open>simp add: spsc_inv_def\<close>)
  consider "pc = CRet None" "cons_log (cons s) = []"
    | v where "pc = CRet (Some v)" "cons_log (cons s) = [v]" "length (popped s) < length (pushed s)"
        "pushed s ! length (popped s) = v"
    | "cons_busy pc" "cons_log (cons s) = []"
    using cons_step_busy [OF assms] by blast
  then show ?thesis
  proof cases
    case 1
    with idle show ?thesis by (intro empty) simp_all
  next
    case (2 v)
    with idle Cons_nth_drop_Suc [of "length (popped s)" "pushed s"] show ?thesis by (intro loaded) simp_all
  next
    case 3
    with inv' show ?thesis by (intro inside) simp_all
  qed
qed

subsection \<open>The invariant\<close>

definition send_ring :: "channel \<Rightarrow> port_sys \<Rightarrow> spsc_sys" where
  "send_ring c s = \<lparr>ring = ch_send_queue c, prod = pub_prod (ppc s), cons = sub_cons (spc s),
     pushed = sq_pushed s, popped = sq_popped s\<rparr>"

definition return_ring :: "channel \<Rightarrow> port_sys \<Rightarrow> spsc_sys" where
  "return_ring c s = \<lparr>ring = ch_return_queue c, prod = sub_prod (spc s), cons = pub_cons (ppc s),
     pushed = rq_pushed s, popped = rq_popped s\<rparr>"

text \<open>The chunks a thread has in its hands: about to be pushed, or popped and not yet passed on.\<close>

fun pub_sends :: "pub_pc \<Rightarrow> pointer_offset list" where
  "pub_sends (SendLoop m chs) = (if chs = [] then [] else [smu_offset m])"
| "pub_sends (SendPush m ch chs pc) = [smu_offset m]"
| "pub_sends pc = []"

fun pub_frees :: "pub_pc \<Rightarrow> pointer_offset list" where
  "pub_frees (ReclaimFree ch chs offset) = [offset]"
| "pub_frees pc = []"

fun sub_reads :: "sub_pc \<Rightarrow> pointer_offset list" where
  "sub_reads (RecvRet (Ok (Some a))) = [sa_offset a]"
| "sub_reads pc = []"

fun sub_drops :: "sub_pc \<Rightarrow> pointer_offset list" where
  "sub_drops (DropPush a ch pc) = [sa_offset a]"
| "sub_drops pc = []"

definition flying :: "port_sys \<Rightarrow> pointer_offset list" where
  "flying s = map po_from_raw (drop (length (sq_popped s)) (sq_pushed s))"

definition coming :: "port_sys \<Rightarrow> pointer_offset list" where
  "coming s = map po_from_raw (drop (length (rq_popped s)) (rq_pushed s))"

text \<open>The chunks that must keep the bytes they were sent with, and all chunks that are out.\<close>

definition port_live :: "port_sys \<Rightarrow> pointer_offset list" where
  "port_live s = pub_sends (ppc s) @ flying s @ sub_reads (spc s) @ map sa_offset (cgot s)"

definition port_places :: "port_sys \<Rightarrow> pointer_offset list" where
  "port_places s = map smu_offset (cloaned s) @ port_live s @ sub_drops (spc s) @ coming s @ pub_frees (ppc s)"

text \<open>What was sent is what was received, then what is in flight or being sent.\<close>

definition port_log :: "port_sys \<Rightarrow> bool" where
  "port_log s \<longleftrightarrow> cmsgs s = crecv s @ map (csent s) (flying s @ pub_sends (ppc s))"

definition smu_ok :: "data_segment \<Rightarrow> sample_mut \<Rightarrow> bool" where
  "smu_ok d m \<longleftrightarrow> smu_ptr m = ds_resolve_ptr d (smu_offset m) \<and> smu_send_fn m = Some 0 \<and>
     smu_drop_fn m = Some (0, 0)"

definition sa_ok :: "data_segment \<Rightarrow> sample \<Rightarrow> bool" where
  "sa_ok d a \<longleftrightarrow> sa_ptr a = ds_resolve_ptr d (sa_offset a) \<and> sa_drop_fn a = Some 0"

fun pub_pc_ok :: "u64 \<Rightarrow> pub_pc \<Rightarrow> bool" where
  "pub_pc_ok cap (SendLoop m chs) \<longleftrightarrow> chs = [] \<or> chs = [0]"
| "pub_pc_ok cap (SendPush m ch chs pc) \<longleftrightarrow> ch = 0 \<and> chs = [] \<and>
     prod_val pc = Some (po_raw (smu_offset m)) \<and> prod_room cap pc"
| "pub_pc_ok cap (SendRet r) \<longleftrightarrow> r = Ok ()"
| "pub_pc_ok cap (ReclaimLoop chs) \<longleftrightarrow> chs = [] \<or> chs = [0]"
| "pub_pc_ok cap (ReclaimPop ch chs pc) \<longleftrightarrow> ch = 0 \<and> chs = [] \<and> cons_busy pc"
| "pub_pc_ok cap (ReclaimFree ch chs offset) \<longleftrightarrow> ch = 0 \<and> chs = []"
| "pub_pc_ok cap PubIdle \<longleftrightarrow> True"
| "pub_pc_ok cap PubPanic \<longleftrightarrow> False"

fun sub_pc_ok :: "u64 \<Rightarrow> data_segment \<Rightarrow> sub_pc \<Rightarrow> bool" where
  "sub_pc_ok cap d (RecvLoop conns) \<longleftrightarrow> conns = [] \<or> conns = [(0, 0)]"
| "sub_pc_ok cap d (RecvPop seg ch conns pc) \<longleftrightarrow> seg = 0 \<and> ch = 0 \<and> conns = [] \<and> cons_busy pc"
| "sub_pc_ok cap d (RecvRet (Ok (Some a))) \<longleftrightarrow> sa_ok d a"
| "sub_pc_ok cap d (RecvRet (Ok None)) \<longleftrightarrow> True"
| "sub_pc_ok cap d (DropPush a ch pc) \<longleftrightarrow> ch = 0 \<and> prod_val pc = Some (po_raw (sa_offset a)) \<and> prod_room cap pc"
| "sub_pc_ok cap d SubIdle \<longleftrightarrow> True"
| "sub_pc_ok cap d DropRet \<longleftrightarrow> True"
| "sub_pc_ok cap d pc \<longleftrightarrow> False"

definition port_pcs_ok :: "data_segment \<Rightarrow> channel \<Rightarrow> port_sys \<Rightarrow> bool" where
  "port_pcs_ok d c s \<longleftrightarrow> (\<forall>m \<in> set (cloaned s). smu_ok d m) \<and> (\<forall>a \<in> set (cgot s). sa_ok d a) \<and>
     pub_pc_ok (spsc_capacity (ch_send_queue c)) (ppc s) \<and> sub_pc_ok (spsc_capacity (ch_send_queue c)) d (spc s)"

definition port_rings :: "channel \<Rightarrow> port_sys \<Rightarrow> bool" where
  "port_rings c s \<longleftrightarrow> \<not> ch_closed c \<and> spsc_capacity (ch_return_queue c) = spsc_capacity (ch_send_queue c) \<and>
     spsc_inv (send_ring c s) \<and> spsc_inv (return_ring c s)"

definition port_inv ::
  "publisher \<Rightarrow> port_sys \<Rightarrow> memory \<Rightarrow> data_segment \<Rightarrow> channel \<Rightarrow> usize \<Rightarrow> bool" where
  "port_inv p s mem d c k \<longleftrightarrow> pw s = ps_world mem d c k \<and> ds_wf d \<and> port_rings c s \<and>
     pub_payload p \<le> unat (ds_chunk_size d) \<and> card (ds_chunks d) \<le> ch_bound c \<and> port_pcs_ok d c s \<and>
     mset (port_places s) = mset_set (ds_out d) \<and> unat k = card (ds_out d) \<and> port_log s \<and>
     (\<forall>x \<in> set (port_live s). ds_read d x (pub_payload p) mem = csent s x)"

lemma smu_ok_same:
  assumes "ds_same d' d"
  shows "smu_ok d' = smu_ok d" and "sa_ok d' = sa_ok d" and "sub_pc_ok cap d' pc = sub_pc_ok cap d pc"
proof -
  show "smu_ok d' = smu_ok d" and sa: "sa_ok d' = sa_ok d"
    by (simp_all add: smu_ok_def sa_ok_def fun_eq_iff ds_same_resolve [OF assms])
  then show "sub_pc_ok cap d' pc = sub_pc_ok cap d pc"
    by (cases "(cap, d, pc)" rule: sub_pc_ok.cases) auto
qed

lemma port_invD:
  assumes "port_inv p s mem d c k"
  shows "pw s = ps_world mem d c k" and "ds_wf d" and "port_rings c s" and "pub_payload p \<le> unat (ds_chunk_size d)"
    and "card (ds_chunks d) \<le> ch_bound c" and "port_pcs_ok d c s" and "mset (port_places s) = mset_set (ds_out d)"
    and "unat k = card (ds_out d)" and "port_log s"
  using assms by (simp_all add: port_inv_def)

lemma port_places_out:
  assumes "port_inv p s mem d c k"
  shows "set (port_places s) = ds_out d" and "distinct (port_places s)"
    and "length (port_places s) = card (ds_out d)" and "card (ds_out d) \<le> ch_bound c"
proof -
  note m = port_invD(7) [OF assms]
  show "set (port_places s) = ds_out d" using m by (metis finite_ds_out finite_set_mset_mset_set set_mset_mset)
  show "length (port_places s) = card (ds_out d)" using m by (metis size_mset size_mset_set)
  show "distinct (port_places s)"
    by (rule distinct_if_count) (simp add: m count_mset_set')
  have "card (ds_out d) \<le> card (ds_chunks d)"
    using ds.finite_slots by (intro card_mono) (auto simp: ds_out_def)
  then show "card (ds_out d) \<le> ch_bound c" using port_invD(5) [OF assms] by simp
qed

lemma port_live_out: "port_inv p s mem d c k \<Longrightarrow> x \<in> set (port_live s) \<Longrightarrow> x \<in> ds_out d"
  using port_places_out(1) [of p s mem d c k] by (auto simp: port_places_def)

text \<open>A step of a thread moves chunks from place to place and leaves segment and memory alone.\<close>

lemma port_inv_move:
  assumes "port_inv p s mem d c k" and "pw s' = ps_world mem d c' k" and "port_rings c' s'"
    and "ch_bound c' = ch_bound c" and "port_pcs_ok d c' s'" and "mset (port_places s') = mset (port_places s)"
    and "port_log s'" and "\<And>x. x \<in> set (port_live s') \<Longrightarrow> ds_read d x (pub_payload p) mem = csent s' x"
  shows "port_inv p s' mem d c' k"
  using assms by (simp add: port_inv_def)

lemma port_rings_quiet:
  assumes "port_rings c s"
    and "sq_pushed s' = sq_pushed s" "sq_popped s' = sq_popped s" "rq_pushed s' = rq_pushed s" "rq_popped s' = rq_popped s"
    and "pub_prod (ppc s') = pub_prod (ppc s) \<or> pub_prod (ppc s') \<in> {PIdle} \<union> range PStart"
    and "pub_cons (ppc s') = pub_cons (ppc s) \<or> pub_cons (ppc s') \<in> {CIdle, CStart}"
    and "sub_prod (spc s') = sub_prod (spc s) \<or> sub_prod (spc s') \<in> {PIdle} \<union> range PStart"
    and "sub_cons (spc s') = sub_cons (spc s) \<or> sub_cons (spc s') \<in> {CIdle, CStart}"
  shows "port_rings c s'"
proof -
  have "spsc_inv (send_ring c s')"
    by (rule spsc_inv_quiet [of "send_ring c s"];
        use assms in \<open>auto simp: port_rings_def send_ring_def spsc_inv_def\<close>)
  moreover have "spsc_inv (return_ring c s')"
    by (rule spsc_inv_quiet [of "return_ring c s"];
        use assms in \<open>auto simp: port_rings_def return_ring_def spsc_inv_def\<close>)
  ultimately show ?thesis using assms(1) by (simp add: port_rings_def)
qed

lemma ring_le:
  assumes "port_rings c s"
  shows "length (sq_popped s) \<le> length (sq_pushed s)" and "length (rq_popped s) \<le> length (rq_pushed s)"
  using assms by (auto simp: port_rings_def spsc_inv_def ring_holds_def send_ring_def return_ring_def)

lemma pub_advance_quiet:
  "prod_log (pub_prod (ppc s)) = [] \<Longrightarrow> cons_log (pub_cons (ppc s)) = [] \<Longrightarrow>
    pub_advance s w pc = s\<lparr>pw := w, ppc := pc\<rparr>"
  by (simp add: pub_advance_def)

lemma sub_advance_quiet:
  "prod_log (sub_prod (spc s)) = [] \<Longrightarrow> cons_log (sub_cons (spc s)) = [] \<Longrightarrow> sub_gets pc = [] \<Longrightarrow>
    sub_advance n s w pc = s\<lparr>pw := w, spc := pc\<rparr>"
  by (simp add: sub_advance_def)

lemma after_push_inside: "prod_val pc = Some v \<Longrightarrow> after_push m ch chs pc = SendPush m ch chs pc"
  by (cases pc) auto

lemma after_return_inside: "prod_val pc = Some v \<Longrightarrow> after_return a ch pc = DropPush a ch pc"
  by (cases pc) auto

lemma after_reclaim_inside: "cons_busy pc \<Longrightarrow> after_reclaim ch chs pc = ReclaimPop ch chs pc"
  by (cases pc) auto

lemma after_receive_inside: "cons_busy pc \<Longrightarrow> after_receive w seg ch conns pc = RecvPop seg ch conns pc"
  by (cases pc) auto

lemma ps_world_chan [simp]:
  "w_chans (ps_world mem d c k) = [c]" "w_segs (ps_world mem d c k) = [d]" "w_lists (ps_world mem d c k) = [[0]]"
  "w_mem (ps_world mem d c k) = mem" "w_loans (ps_world mem d c k) = [k]"
  "(ps_world mem d c k)\<lparr>w_chans := [c']\<rparr> = ps_world mem d c' k"
  "(ps_world mem d c k)\<lparr>w_mem := mem'\<rparr> = ps_world mem' d c k"
  by (simp_all add: ps_world_def)

lemmas port_defs = port_log_def port_places_def port_live_def port_pcs_ok_def pub_advance_def sub_advance_def coming_def
  flying_def ch_bound_def port_inv_def

subsection \<open>Each step keeps it\<close>

text \<open>The accesses of \<open>send\<close> to the queue.\<close>

lemma port_inv_push:
  assumes inv: "port_inv p s mem d c k" and pc: "ppc s = SendPush m ch chs pp"
    and step: "pub_thread_step p (pw s) (ppc s) = (w, pc')"
  shows "\<exists>c'. port_inv p (pub_advance s w pc') mem d c' k"
proof -
  note inv' = port_invD [OF inv]
  have ok: "ch = 0" "chs = []" "prod_val pp = Some (po_raw (smu_offset m))"
      "prod_room (spsc_capacity (ch_send_queue c)) pp"
    using inv'(6) pc by (auto simp: port_pcs_ok_def)
  obtain q pq where q: "prod_step (ch_send_queue c) pp = (q, pq)" by (cases "prod_step (ch_send_queue c) pp")
  let ?c = "c\<lparr>ch_send_queue := q\<rparr>"
  have w: "w = ps_world mem d ?c k" "pc' = after_push m 0 [] pq" using step q inv'(1) pc ok(1,2) by auto
  have "length (sq_pushed s) < length (sq_popped s) + unat (spsc_capacity (ch_send_queue c))"
    using port_places_out(3,4) [OF inv] ring_le(1) [OF inv'(3)] pc
    by (auto simp: port_places_def port_live_def flying_def ch_bound_def)
  then have few: "length (pushed (send_ring c s)) < length (popped (send_ring c s)) +
      unat (spsc_capacity (ring (send_ring c s)))" by (simp add: send_ring_def)
  have spsc: "spsc_inv (send_ring c s)" using inv'(3) by (simp add: port_rings_def)
  have v: "prod_val (prod (send_ring c s)) = Some (po_raw (smu_offset m))"
    and room: "prod_room (spsc_capacity (ring (send_ring c s))) (prod (send_ring c s))"
    and qs: "prod_step (ring (send_ring c s)) (prod (send_ring c s)) = (q, pq)"
    using ok pc q by (simp_all add: send_ring_def)
  have cap: "spsc_capacity q = spsc_capacity (ch_send_queue c)" using q by (rule prod_step_capacity)
  have ret: "return_ring ?c (pub_advance s w pc') = return_ring c s"
    if "pub_cons pc' = CIdle" using that pc by (simp add: return_ring_def pub_advance_def)
  have "port_inv p (pub_advance s w pc') mem d ?c k"
    using spsc v room few qs
  proof (cases rule: ring_push)
    case stored
    then have pc': "pc' = SendLoop m []" using w by simp
    have log: "prod_log pp = [po_raw (smu_offset m)]" using stored(2) pc by (simp add: send_ring_def)
    have "send_ring ?c (pub_advance s w pc') =
        (send_ring c s)\<lparr>ring := q, prod := PIdle, pushed := pushed (send_ring c s) @ [po_raw (smu_offset m)]\<rparr>"
      using pc pc' log by (simp add: send_ring_def pub_advance_def)
    then have "port_rings ?c (pub_advance s w pc')"
      using stored(3) inv'(3) ret pc' cap by (simp add: port_rings_def)
    moreover have "flying (pub_advance s w pc') = flying s @ [smu_offset m]"
      using ring_le(1) [OF inv'(3)] pc log by (simp add: flying_def pub_advance_def)
    ultimately show ?thesis
      using inv inv'(6,9) pc pc' w(1) log cap
      by (intro port_inv_move [OF inv])
        (auto simp: port_log_def port_places_def port_live_def port_pcs_ok_def pub_advance_def coming_def ch_bound_def port_inv_def)
  next
    case inside
    then have pc': "pc' = SendPush m 0 [] pq" using w after_push_inside by blast
    have log: "prod_log pp = []" using inside(3) pc by (simp add: send_ring_def)
    have "send_ring ?c (pub_advance s w pc') = (send_ring c s)\<lparr>ring := q, prod := pq\<rparr>"
      using pc pc' log by (simp add: send_ring_def pub_advance_def)
    then have "port_rings ?c (pub_advance s w pc')"
      using inside(4) inv'(3) ret pc' cap by (simp add: port_rings_def)
    then show ?thesis
      using inv inv'(6,9) pc pc' w(1) log cap inside(1,2)
      by (intro port_inv_move [OF inv])
        (auto simp: port_defs)
  qed
  then show ?thesis by blast
qed

text \<open>The accesses of the drop of a sample.\<close>

lemma port_inv_return:
  assumes inv: "port_inv p s mem d c k" and pc: "spc s = DropPush a ch pp"
    and step: "sub_thread_step (pw s) (spc s) = (w, pc')"
  shows "\<exists>c'. port_inv p (sub_advance (pub_payload p) s w pc') mem d c' k"
    and "pc' = DropRet \<or> pc' = DropPush a 0 (snd (prod_step (ch_return_queue c) pp))"
proof -
  note inv' = port_invD [OF inv]
  let ?x = "return_ring c s" and ?a = "sa_offset a"
  have ok: "ch = 0" "prod_val pp = Some (po_raw ?a)" "prod_room (spsc_capacity (ch_send_queue c)) pp"
    and caps: "spsc_capacity (ch_return_queue c) = spsc_capacity (ch_send_queue c)"
    using inv'(3,6) pc by (auto simp: port_pcs_ok_def port_rings_def)
  obtain q pq where q: "prod_step (ch_return_queue c) pp = (q, pq)" by (cases "prod_step (ch_return_queue c) pp")
  let ?c = "c\<lparr>ch_return_queue := q\<rparr>"
  have w: "w = ps_world mem d ?c k" "pc' = after_return a 0 pq" using step q inv'(1) pc ok(1) by auto
  have "length (rq_pushed s) < length (rq_popped s) + unat (spsc_capacity (ch_return_queue c))"
    using port_places_out(3,4) [OF inv] ring_le(2) [OF inv'(3)] pc caps
    by (auto simp: port_places_def port_live_def coming_def ch_bound_def)
  then have few: "length (pushed ?x) < length (popped ?x) + unat (spsc_capacity (ring ?x))"
    by (simp add: return_ring_def)
  have spsc: "spsc_inv ?x" using inv'(3) by (simp add: port_rings_def)
  have v: "prod_val (prod ?x) = Some (po_raw ?a)" and room: "prod_room (spsc_capacity (ring ?x)) (prod ?x)"
    and qs: "prod_step (ring ?x) (prod ?x) = (q, pq)"
    using ok pc q caps by (simp_all add: return_ring_def)
  have cap: "spsc_capacity q = spsc_capacity (ch_send_queue c)" using prod_step_capacity [OF q] caps by simp
  have send: "send_ring ?c (sub_advance (pub_payload p) s w pc') = send_ring c s"
    if "sub_cons pc' = CIdle" using that pc by (simp add: send_ring_def sub_advance_def)
  have "port_inv p (sub_advance (pub_payload p) s w pc') mem d ?c k \<and> (pc' = DropRet \<or> pc' = DropPush a 0 pq)"
    using spsc v room few qs
  proof (cases rule: ring_push)
    case stored
    then have pc': "pc' = DropRet" using w by simp
    have log: "prod_log pp = [po_raw ?a]" using stored(2) pc by (simp add: return_ring_def)
    have "return_ring ?c (sub_advance (pub_payload p) s w pc') = ?x\<lparr>ring := q, prod := PIdle, pushed := pushed ?x @ [po_raw ?a]\<rparr>"
      using pc pc' log by (simp add: return_ring_def sub_advance_def)
    then have "port_rings ?c (sub_advance (pub_payload p) s w pc')"
      using stored(3) inv'(3) send pc' cap by (simp add: port_rings_def)
    moreover have "coming (sub_advance (pub_payload p) s w pc') = coming s @ [?a]"
      using ring_le(2) [OF inv'(3)] pc log by (simp add: coming_def sub_advance_def)
    ultimately have "port_inv p (sub_advance (pub_payload p) s w pc') mem d ?c k"
      using inv inv'(6,9) pc pc' w(1) log
      by (intro port_inv_move [OF inv])
        (auto simp: port_log_def port_places_def port_live_def port_pcs_ok_def sub_advance_def flying_def ch_bound_def port_inv_def)
    then show ?thesis using pc' by blast
  next
    case inside
    then have pc': "pc' = DropPush a 0 pq" using w after_return_inside by blast
    have log: "prod_log pp = []" using inside(3) pc by (simp add: return_ring_def)
    have "return_ring ?c (sub_advance (pub_payload p) s w pc') = ?x\<lparr>ring := q, prod := pq\<rparr>"
      using pc pc' log by (simp add: return_ring_def sub_advance_def)
    then have "port_rings ?c (sub_advance (pub_payload p) s w pc')"
      using inside(4) inv'(3) send pc' cap by (simp add: port_rings_def)
    then have "port_inv p (sub_advance (pub_payload p) s w pc') mem d ?c k"
      using inv inv'(6,9) pc pc' w(1) log cap inside(1,2)
      by (intro port_inv_move [OF inv]) (auto simp: port_defs)
    then show ?thesis using pc' by blast
  qed
  then show "\<exists>c'. port_inv p (sub_advance (pub_payload p) s w pc') mem d c' k"
      "pc' = DropRet \<or> pc' = DropPush a 0 (snd (prod_step (ch_return_queue c) pp))"
    using q by auto
qed

text \<open>The accesses of \<open>receive\<close> to the queue.\<close>

lemma port_inv_receive:
  assumes inv: "port_inv p s mem d c k" and pc: "spc s = RecvPop seg ch conns pp"
    and step: "sub_thread_step (pw s) (spc s) = (w, pc')"
  shows "\<exists>c'. port_inv p (sub_advance (pub_payload p) s w pc') mem d c' k"
proof -
  note inv' = port_invD [OF inv]
  let ?x = "send_ring c s"
  have ok: "seg = 0" "ch = 0" "conns = []" "cons_busy pp"
    using inv'(6) pc by (auto simp: port_pcs_ok_def)
  obtain q pq where q: "cons_step (ch_send_queue c) pp = (q, pq)" by (cases "cons_step (ch_send_queue c) pp")
  let ?c = "c\<lparr>ch_send_queue := q\<rparr>"
  have w: "w = ps_world mem d ?c k" "pc' = after_receive (pw s) 0 0 [] pq" using step q inv'(1) pc ok(1,2,3) by auto
  have spsc: "spsc_inv ?x" using inv'(3) by (simp add: port_rings_def)
  have busy: "cons_busy (cons ?x)" and qs: "cons_step (ring ?x) (cons ?x) = (q, pq)"
    using ok pc q by (simp_all add: send_ring_def)
  have cap: "spsc_capacity q = spsc_capacity (ch_send_queue c)" using q by (rule cons_step_capacity)
  have ret: "return_ring ?c (sub_advance (pub_payload p) s w pc') = return_ring c s"
    if "sub_prod pc' = PIdle" using that pc by (simp add: return_ring_def sub_advance_def)
  have "port_inv p (sub_advance (pub_payload p) s w pc') mem d ?c k"
    using spsc busy qs
  proof (cases rule: ring_pop)
    case empty
    then have pc': "pc' = RecvLoop []" using w by simp
    have log: "cons_log pp = []" using empty(2) pc by (simp add: send_ring_def)
    have "send_ring ?c (sub_advance (pub_payload p) s w pc') = ?x\<lparr>ring := q, cons := CIdle\<rparr>"
      using pc pc' log by (simp add: send_ring_def sub_advance_def)
    then have "port_rings ?c (sub_advance (pub_payload p) s w pc')"
      using empty(3) inv'(3) ret pc' cap by (simp add: port_rings_def)
    then show ?thesis
      using inv inv'(6,9) pc pc' w(1) log cap by (intro port_inv_move [OF inv]) (auto simp: port_defs)
  next
    case (loaded v)
    let ?a = "\<lparr>sa_ptr = ds_resolve_ptr d (po_from_raw v), sa_offset = po_from_raw v, sa_drop_fn = Some 0\<rparr>"
    have pc': "pc' = RecvRet (Ok (Some ?a))" using w(2) loaded(1) inv'(1) by simp
    have log: "cons_log pp = [v]" using loaded(2) pc by (simp add: send_ring_def)
    have "send_ring ?c (sub_advance (pub_payload p) s w pc') = ?x\<lparr>ring := q, cons := CIdle, popped := popped ?x @ [v]\<rparr>"
      using pc pc' log by (simp add: send_ring_def sub_advance_def)
    then have "port_rings ?c (sub_advance (pub_payload p) s w pc')"
      using loaded(4) inv'(3) ret pc' cap by (simp add: port_rings_def)
    moreover have fly: "flying s = po_from_raw v # flying (sub_advance (pub_payload p) s w pc')"
      using loaded(3) pc log by (simp add: flying_def sub_advance_def send_ring_def)
    ultimately show ?thesis
      using inv inv'(6,9) pc pc' w(1) log cap
      by (intro port_inv_move [OF inv])
        (auto simp: port_log_def port_places_def port_live_def port_pcs_ok_def sub_advance_def coming_def ch_bound_def port_inv_def sa_ok_def
          sa_read_def ds_read_def)
  next
    case inside
    then have pc': "pc' = RecvPop 0 0 [] pq" using w after_receive_inside by blast
    have log: "cons_log pp = []" using inside(2) pc by (simp add: send_ring_def)
    have "send_ring ?c (sub_advance (pub_payload p) s w pc') = ?x\<lparr>ring := q, cons := pq\<rparr>"
      using pc pc' log by (simp add: send_ring_def sub_advance_def)
    then have "port_rings ?c (sub_advance (pub_payload p) s w pc')"
      using inside(3) inv'(3) ret pc' cap by (simp add: port_rings_def)
    then show ?thesis
      using inv inv'(6,9) pc pc' w(1) log cap inside(1) by (intro port_inv_move [OF inv]) (auto simp: port_defs)
  qed
  then show ?thesis by blast
qed

text \<open>The accesses of \<open>reclaim\<close> to the queue.\<close>

lemma port_inv_reclaim_pop:
  assumes inv: "port_inv p s mem d c k" and pc: "ppc s = ReclaimPop ch chs pp"
    and step: "pub_thread_step p (pw s) (ppc s) = (w, pc')"
  shows "\<exists>c'. port_inv p (pub_advance s w pc') mem d c' k"
proof -
  note inv' = port_invD [OF inv]
  let ?x = "return_ring c s"
  have ok: "ch = 0" "chs = []" "cons_busy pp" using inv'(6) pc by (auto simp: port_pcs_ok_def)
  obtain q pq where q: "cons_step (ch_return_queue c) pp = (q, pq)" by (cases "cons_step (ch_return_queue c) pp")
  let ?c = "c\<lparr>ch_return_queue := q\<rparr>"
  have w: "w = ps_world mem d ?c k" "pc' = after_reclaim 0 [] pq" using step q inv'(1) pc ok(1,2) by auto
  have spsc: "spsc_inv ?x" using inv'(3) by (simp add: port_rings_def)
  have busy: "cons_busy (cons ?x)" and qs: "cons_step (ring ?x) (cons ?x) = (q, pq)"
    using ok pc q by (simp_all add: return_ring_def)
  have cap: "spsc_capacity q = spsc_capacity (ch_return_queue c)" using q by (rule cons_step_capacity)
  have send: "send_ring ?c (pub_advance s w pc') = send_ring c s"
    if "pub_prod pc' = PIdle" using that pc by (simp add: send_ring_def pub_advance_def)
  have "port_inv p (pub_advance s w pc') mem d ?c k"
    using spsc busy qs
  proof (cases rule: ring_pop)
    case empty
    then have pc': "pc' = ReclaimLoop []" using w by simp
    have log: "cons_log pp = []" using empty(2) pc by (simp add: return_ring_def)
    have "return_ring ?c (pub_advance s w pc') = ?x\<lparr>ring := q, cons := CIdle\<rparr>"
      using pc pc' log by (simp add: return_ring_def pub_advance_def)
    then have "port_rings ?c (pub_advance s w pc')"
      using empty(3) inv'(3) send pc' cap by (simp add: port_rings_def)
    then show ?thesis
      using inv inv'(6,9) pc pc' w(1) log cap by (intro port_inv_move [OF inv]) (auto simp: port_defs)
  next
    case (loaded v)
    have pc': "pc' = ReclaimFree 0 [] (po_from_raw v)" using w(2) loaded(1) by simp
    have log: "cons_log pp = [v]" using loaded(2) pc by (simp add: return_ring_def)
    have "return_ring ?c (pub_advance s w pc') = ?x\<lparr>ring := q, cons := CIdle, popped := popped ?x @ [v]\<rparr>"
      using pc pc' log by (simp add: return_ring_def pub_advance_def)
    then have "port_rings ?c (pub_advance s w pc')"
      using loaded(4) inv'(3) send pc' cap by (simp add: port_rings_def)
    moreover have "coming s = po_from_raw v # coming (pub_advance s w pc')"
      using loaded(3) pc log by (simp add: coming_def pub_advance_def return_ring_def)
    ultimately show ?thesis
      using inv inv'(6,9) pc pc' w(1) log cap
      by (intro port_inv_move [OF inv])
        (auto simp: port_log_def port_places_def port_live_def port_pcs_ok_def pub_advance_def flying_def ch_bound_def port_inv_def)
  next
    case inside
    then have pc': "pc' = ReclaimPop 0 [] pq" using w after_reclaim_inside by blast
    have log: "cons_log pp = []" using inside(2) pc by (simp add: return_ring_def)
    have "return_ring ?c (pub_advance s w pc') = ?x\<lparr>ring := q, cons := pq\<rparr>"
      using pc pc' log by (simp add: return_ring_def pub_advance_def)
    then have "port_rings ?c (pub_advance s w pc')"
      using inside(3) inv'(3) send pc' cap by (simp add: port_rings_def)
    then show ?thesis
      using inv inv'(6,9) pc pc' w(1) log cap inside(1) by (intro port_inv_move [OF inv]) (auto simp: port_defs)
  qed
  then show ?thesis by blast
qed

text \<open>The deallocation in \<open>reclaim\<close>, and the drop of an unsent sample.\<close>

lemma port_inv_dealloc:
  assumes inv: "port_inv p s mem d c k" and places: "mset (port_places s) = add_mset x (mset (port_places s'))"
    and d': "ds_out d' = ds_out d - {x}" "ds_wf d'" "ds_same d' d" and w: "pw s' = ps_world mem d' c (k - 1)"
    and rings: "port_rings c s'" and pcs: "port_pcs_ok d c s'" and live: "port_live s' = port_live s"
    and sent: "csent s' = csent s" and log: "port_log s'"
  shows "port_inv p s' mem d' c (k - 1)"
proof -
  note inv' = port_invD [OF inv]
  have out: "x \<in> ds_out d" using port_places_out(1) [OF inv] places by (metis set_mset_mset union_single_eq_member)
  then have "add_mset x (mset_set (ds_out d')) = mset_set (ds_out d)" unfolding d'(1) by (simp add: mset_set.remove)
  then have m: "mset (port_places s') = mset_set (ds_out d')" using inv'(7) places by (metis add_mset_remove_trivial)
  have "0 < card (ds_out d)" using out by (auto simp: card_gt_0_iff)
  then have k: "unat (k - 1) = card (ds_out d')" using inv'(8) out unat_decr [of k] unfolding d'(1) by simp
  have "port_pcs_ok d' c s'" using pcs smu_ok_same [OF d'(3)] by (simp add: port_pcs_ok_def)
  then show ?thesis
    using inv inv' w rings m k d'(2) live sent log ds_same_chunks [OF d'(3)] ds_same_read [OF d'(3)] d'(3)
    by (simp add: port_inv_def ds_same_def)
qed

lemma port_inv_free:
  assumes inv: "port_inv p s mem d c k" and shape: "ps_shape p u" and pc: "ppc s = ReclaimFree ch chs x"
    and step: "pub_thread_step p (pw s) (ppc s) = (w, pc')"
  shows "\<exists>d' c' k'. port_inv p (pub_advance s w pc') mem d' c' k'"
    and "pc' = ReclaimPop ch chs CStart" and "w_loans w = [k - 1]" and "0 < k"
proof -
  note inv' = port_invD [OF inv]
  have out: "x \<in> ds_out d" using port_places_out(1) [OF inv] pc by (auto simp: port_places_def)
  obtain d' where d': "ds_deallocate x d = Some d'" "ds_out d' = ds_out d - {x}" "ds_wf d'" "ds_same d' d"
    using ds_out_deallocate [OF inv'(2) out] .
  then have w: "w = ps_world mem d' c (k - 1)" "pc' = ReclaimPop ch chs CStart"
    using step pc inv'(1) shape by (simp_all add: reclaim_free_def ps_shape_def ps_world_def)
  then show "pc' = ReclaimPop ch chs CStart" "w_loans w = [k - 1]" by simp_all
  have "0 < card (ds_out d)" using out by (auto simp: card_gt_0_iff)
  then show "0 < k" using inv'(8) by (simp add: word_less_nat_alt)
  have adv: "pub_advance s w pc' = s\<lparr>pw := w, ppc := pc'\<rparr>" using pc by (simp add: pub_advance_quiet)
  have "port_inv p (s\<lparr>pw := w, ppc := pc'\<rparr>) mem d' c (k - 1)"
  proof (rule port_inv_dealloc [OF inv _ d'(2-4)])
    show "port_rings c (s\<lparr>pw := w, ppc := pc'\<rparr>)"
      using inv'(3) by (rule port_rings_quiet) (use pc w in simp_all)
  qed (use pc w inv'(6,9) in \<open>auto simp: port_log_def port_places_def port_live_def flying_def coming_def port_pcs_ok_def\<close>)
  then show "\<exists>d' c' k'. port_inv p (pub_advance s w pc') mem d' c' k'" unfolding adv by blast
qed

lemma port_inv_drop:
  assumes inv: "port_inv p s mem d c k" and m: "m \<in> set (cloaned s)" and drop: "smu_drop m (pw s) = Some w"
  shows "\<exists>d' k'. port_inv p (s\<lparr>pw := w, cloaned := remove1 m (cloaned s)\<rparr>) mem d' c k'"
proof -
  note inv' = port_invD [OF inv]
  have ok: "smu_ok d m" using inv'(6) m by (simp add: port_pcs_ok_def)
  have out: "smu_offset m \<in> ds_out d" using port_places_out(1) [OF inv] m by (auto simp: port_places_def)
  obtain d' where d': "ds_deallocate (smu_offset m) d = Some d'" "ds_out d' = ds_out d - {smu_offset m}"
      "ds_wf d'" "ds_same d' d"
    using ds_out_deallocate [OF inv'(2) out] .
  then have w: "w = ps_world mem d' c (k - 1)"
    using drop ok inv'(1) by (simp add: smu_drop_def smu_ok_def ps_world_def)
  have "port_inv p (s\<lparr>pw := w, cloaned := remove1 m (cloaned s)\<rparr>) mem d' c (k - 1)"
  proof (rule port_inv_dealloc [OF inv _ d'(2-4)])
    show "port_rings c (s\<lparr>pw := w, cloaned := remove1 m (cloaned s)\<rparr>)"
      using inv'(3) by (rule port_rings_quiet) simp_all
    show "mset (port_places s) =
        add_mset (smu_offset m) (mset (port_places (s\<lparr>pw := w, cloaned := remove1 m (cloaned s)\<rparr>)))"
      using mset_map_remove1 [OF m, of smu_offset] by (simp add: port_places_def port_live_def flying_def coming_def)
  qed (use w inv'(6,9) in \<open>auto simp: port_log_def port_live_def flying_def port_pcs_ok_def dest: set_remove1_subset [THEN subsetD]\<close>)
  then show ?thesis by blast
qed

text \<open>Loaning and storing.\<close>

lemma port_inv_alloc:
  assumes inv: "port_inv p s mem d c k" and d': "a \<in> ds_free d" "ds_free d' = ds_free d - {a}" "ds_wf d'" "ds_same d' d"
    and m: "smu_ok d m" "smu_offset m = a"
    and mem': "mem' = ds_write d a (replicate (pub_payload p) 0) mem"
  shows "port_inv p (s\<lparr>pw := ps_world mem' d' c (k + 1), cloaned := m # cloaned s\<rparr>) mem' d' c (k + 1)"
    (is "port_inv p ?s _ _ _ _")
proof -
  note inv' = port_invD [OF inv]
  note out = ds_out_allocate [OF inv'(2) d'(1,2,4)]
  have "ch_bound c < 2 ^ 64 - 1"
    using inv'(3) ring_ok_capacity [of "ch_send_queue c"]
    by (auto simp: port_rings_def spsc_inv_def ring_holds_def send_ring_def ch_bound_def)
  then have k: "unat (k + 1) = card (ds_out d')"
    using inv'(8) port_places_out(4) [OF inv] out(1,2) by (simp add: unat_incr)
  have "ds_read d' x (pub_payload p) mem' = csent s x" if "x \<in> set (port_live s)" for x
  proof -
    have x: "x \<in> ds_out d" "ds_read d x (pub_payload p) mem = csent s x"
      using port_live_out [OF inv that] inv that by (auto simp: port_inv_def)
    then have "x \<in> ds_chunks d" "a \<noteq> x" using out(2) by (auto simp: ds_out_def)
    then show ?thesis
      using ds_read_write_other [OF inv'(2) out(3)] inv'(4) x(2) ds_same_read [OF d'(4)] mem' by simp
  qed
  then have live: "\<forall>x \<in> set (port_live ?s). ds_read d' x (pub_payload p) mem' = csent ?s x"
    by (simp add: port_live_def flying_def)
  have "port_rings c ?s" using inv'(3) by (rule port_rings_quiet) simp_all
  moreover have "mset (port_places ?s) = mset_set (ds_out d')"
    using inv'(7) out(1,2) m(2) by (simp add: port_places_def port_live_def flying_def coming_def)
  moreover have "port_pcs_ok d' c ?s"
    using inv'(6) m(1) smu_ok_same [OF d'(4)] by (simp add: port_pcs_ok_def)
  moreover have "port_log ?s" using inv'(9) by (simp add: port_log_def flying_def)
  ultimately show ?thesis
    using inv' k live d'(3,4) ds_same_chunks [OF d'(4)] by (simp add: port_inv_def ds_same_def)
qed

lemma port_inv_loan:
  assumes inv: "port_inv p s mem d c k" and shape: "ps_shape p u" and loan: "pub_loan p (pw s) = Some (r, w)"
  shows "r = Ok m \<Longrightarrow> \<exists>mem d c k. port_inv p (s\<lparr>pw := w, cloaned := m # cloaned s\<rparr>) mem d c k"
    and "r = Err e \<Longrightarrow> s\<lparr>pw := w\<rparr> = s"
proof -
  note inv' = port_invD [OF inv]
  have "(r = Ok m \<longrightarrow> (\<exists>mem d c k. port_inv p (s\<lparr>pw := w, cloaned := m # cloaned s\<rparr>) mem d c k)) \<and>
      (r = Err e \<longrightarrow> s\<lparr>pw := w\<rparr> = s)"
    using inv'(2) shape
  proof (cases rule: pub_loan_result [where mem = mem and c = c and k = k])
    case (loan a d')
    then show ?thesis
      using assms(3) inv'(1) port_inv_alloc [OF inv loan(2-5), of m] by (auto simp: smu_ok_def)
  qed (use loan inv'(1) in auto)
  then show "r = Ok m \<Longrightarrow> \<exists>mem d c k. port_inv p (s\<lparr>pw := w, cloaned := m # cloaned s\<rparr>) mem d c k"
    and "r = Err e \<Longrightarrow> s\<lparr>pw := w\<rparr> = s" by blast+
qed

text \<open>A byte stored through a loaned sample.\<close>

lemma store_byte:
  assumes "i < n" and "n < 2 ^ 64"
  shows "mem(ptr + of_nat i := b) = write_list ptr ((read_list ptr n mem)[i := b]) mem"
proof
  fix a :: u64
  have "unat (a - ptr) = i \<longleftrightarrow> a = ptr + of_nat i"
  proof
    assume "unat (a - ptr) = i"
    then have "a - ptr = of_nat i" by auto
    then show "a = ptr + of_nat i" by (simp add: algebra_simps)
  next
    assume "a = ptr + of_nat i"
    then show "unat (a - ptr) = i" using assms by (simp add: unat_of_nat_less)
  qed
  then show "(mem(ptr + of_nat i := b)) a = write_list ptr ((read_list ptr n mem)[i := b]) mem a"
    using assms by (auto simp: write_list_def read_list_def nth_list_update)
qed

lemma port_inv_store:
  assumes inv: "port_inv p s mem d c k" and m: "m \<in> set (cloaned s)" and i: "i < pub_payload p"
    and mem': "mem' = mem(smu_ptr m + of_nat i := b)"
  shows "port_inv p (s\<lparr>pw := ps_world mem' d c k\<rparr>) mem' d c k"
proof -
  note inv' = port_invD [OF inv]
  let ?bs = "(read_list (smu_ptr m) (pub_payload p) mem)[i := b]"
  have ok: "smu_ok d m" using inv'(6) m by (simp add: port_pcs_ok_def)
  have "pub_payload p < 2 ^ 64" using inv'(4) unat_bound [of "ds_chunk_size d"] by simp
  then have mem: "mem' = ds_write d (smu_offset m) ?bs mem"
    using mem' store_byte [OF i] ok by (simp add: ds_write_def smu_ok_def)
  have "ds_read d x (pub_payload p) mem' = csent s x" if "x \<in> set (port_live s)" for x
  proof -
    have x: "x \<in> ds_out d" "ds_read d x (pub_payload p) mem = csent s x"
      using port_live_out [OF inv that] inv that by (auto simp: port_inv_def)
    moreover have "smu_offset m \<noteq> x" "smu_offset m \<in> ds_out d"
      using port_places_out(1,2) [OF inv] m that by (auto simp: port_places_def)
    ultimately show ?thesis
      using ds_read_write_other [OF inv'(2), of "smu_offset m" x ?bs "pub_payload p" mem] inv'(4)
      unfolding mem by (auto simp: ds_out_def)
  qed
  moreover have "port_rings c (s\<lparr>pw := ps_world mem' d c k\<rparr>)"
    using inv'(3) by (rule port_rings_quiet) simp_all
  ultimately show ?thesis using inv by (auto simp: port_defs)
qed

text \<open>The calls and the returns.\<close>

lemma port_inv_calls:
  assumes inv: "port_inv p s mem d c k" and "ps_shape p u"
  shows "ppc s = PubIdle \<Longrightarrow> m \<in> set (cloaned s) \<Longrightarrow> port_inv p (s\<lparr>ppc := SendLoop m [0],
      cloaned := remove1 m (cloaned s),
      csent := (csent s)(smu_offset m := read_list (smu_ptr m) (pub_payload p) mem),
      cmsgs := cmsgs s @ [read_list (smu_ptr m) (pub_payload p) mem]\<rparr>) mem d c k"
    and "ppc s = PubIdle \<Longrightarrow> port_inv p (s\<lparr>ppc := ReclaimLoop [0]\<rparr>) mem d c k"
    and "ppc s = SendRet r \<Longrightarrow> port_inv p (s\<lparr>ppc := PubIdle\<rparr>) mem d c k"
    and "spc s = SubIdle \<Longrightarrow> port_inv p (s\<lparr>spc := RecvLoop (sub_connections u)\<rparr>) mem d c k"
    and "spc s = SubIdle \<Longrightarrow> a \<in> set (cgot s) \<Longrightarrow> port_inv p (s\<lparr>spc := DropPush a 0 (PStart (po_raw (sa_offset a))),
      cgot := remove1 a (cgot s)\<rparr>) mem d c k"
    and "spc s = RecvRet (Ok (Some a)) \<Longrightarrow> port_inv p (s\<lparr>spc := SubIdle, cgot := a # cgot s\<rparr>) mem d c k"
    and "spc s = RecvRet (Ok None) \<or> spc s = DropRet \<Longrightarrow> port_inv p (s\<lparr>spc := SubIdle\<rparr>) mem d c k"
proof -
  note inv' = port_invD [OF inv]
  note quiet = port_rings_quiet [OF inv'(3)]
  note defs = port_log_def port_places_def port_live_def port_pcs_ok_def flying_def coming_def
  show "port_inv p (s\<lparr>ppc := SendLoop m [0], cloaned := remove1 m (cloaned s),
      csent := (csent s)(smu_offset m := read_list (smu_ptr m) (pub_payload p) mem),
      cmsgs := cmsgs s @ [read_list (smu_ptr m) (pub_payload p) mem]\<rparr>) mem d c k" (is "port_inv p ?s _ _ _ _")
    if pc: "ppc s = PubIdle" and m: "m \<in> set (cloaned s)"
  proof (rule port_inv_move [OF inv])
    have "smu_offset m \<notin> set (port_live s)" using port_places_out(2) [OF inv] m by (auto simp: port_places_def)
    moreover have "ds_read d (smu_offset m) (pub_payload p) mem = read_list (smu_ptr m) (pub_payload p) mem"
      using inv'(6) m by (simp add: port_pcs_ok_def smu_ok_def ds_read_def)
    ultimately show "ds_read d x (pub_payload p) mem = csent ?s x" if "x \<in> set (port_live ?s)" for x
      using that inv pc by (auto simp: port_inv_def port_live_def flying_def)
    have "smu_offset m \<notin> set (flying s)" using port_places_out(2) [OF inv] m by (auto simp: port_places_def port_live_def)
    then have "map ((csent s)(smu_offset m := x)) (flying s) = map (csent s) (flying s)" for x by auto
    then show "port_log ?s" using inv'(9) pc by (simp add: port_log_def flying_def)
    show "mset (port_places ?s) = mset (port_places s)"
      using mset_map_remove1 [OF m, of smu_offset] pc by (simp add: defs)
    show "port_rings c ?s" by (rule quiet) (use pc in simp_all)
    show "port_pcs_ok d c ?s" using inv'(6) by (auto simp: port_pcs_ok_def dest: set_remove1_subset [THEN subsetD])
  qed (use inv'(1) in simp_all)
  show "port_inv p (s\<lparr>spc := DropPush a 0 (PStart (po_raw (sa_offset a))), cgot := remove1 a (cgot s)\<rparr>) mem d c k"
      (is "port_inv p ?s _ _ _ _")
    if pc: "spc s = SubIdle" and a: "a \<in> set (cgot s)"
  proof (rule port_inv_move [OF inv])
    have "set (port_live ?s) \<subseteq> set (port_live s)"
      using pc set_remove1_subset [of a "cgot s"] by (auto simp: port_live_def flying_def)
    then show "ds_read d x (pub_payload p) mem = csent ?s x" if "x \<in> set (port_live ?s)" for x
      using that inv by (auto simp: port_inv_def)
    show "port_log ?s" using inv'(9) pc by (simp add: port_log_def flying_def)
    show "mset (port_places ?s) = mset (port_places s)"
      using mset_map_remove1 [OF a, of sa_offset] pc by (simp add: defs)
    show "port_rings c ?s" by (rule quiet) (use pc in simp_all)
    show "port_pcs_ok d c ?s" using inv'(6) by (auto simp: port_pcs_ok_def dest: set_remove1_subset [THEN subsetD])
  qed (use inv'(1) in simp_all)
  have move: "port_inv p s' mem d c k"
    if "pw s' = pw s" "port_rings c s'" "port_pcs_ok d c s'" "mset (port_places s') = mset (port_places s)"
      "set (port_live s') = set (port_live s)" "csent s' = csent s" "port_log s'" for s'
    using that inv inv'(1) by (intro port_inv_move [OF inv]) (auto simp: port_inv_def)
  show "port_inv p (s\<lparr>ppc := ReclaimLoop [0]\<rparr>) mem d c k" if "ppc s = PubIdle"
    by (rule move; (rule quiet)?; use that inv'(6,9) in \<open>simp add: defs\<close>)
  show "port_inv p (s\<lparr>ppc := PubIdle\<rparr>) mem d c k" if "ppc s = SendRet r"
    by (rule move; (rule quiet)?; use that inv'(6,9) in \<open>simp add: defs\<close>)
  show "port_inv p (s\<lparr>spc := RecvLoop (sub_connections u)\<rparr>) mem d c k" if "spc s = SubIdle"
    by (rule move; (rule quiet)?; use that inv'(6,9) assms(2) in \<open>simp add: defs ps_shape_def\<close>)
  show "port_inv p (s\<lparr>spc := SubIdle, cgot := a # cgot s\<rparr>) mem d c k" if "spc s = RecvRet (Ok (Some a))"
    by (rule move; (rule quiet)?; use that inv'(6,9) in \<open>simp add: defs\<close>)
  show "port_inv p (s\<lparr>spc := SubIdle\<rparr>) mem d c k" if "spc s = RecvRet (Ok None) \<or> spc s = DropRet"
    by (rule move; (rule quiet)?; use that inv'(6,9) in \<open>auto simp: defs\<close>)
qed

text \<open>The steps of the two threads.\<close>

lemma port_inv_pub_run:
  assumes inv: "port_inv p s mem d c k" and shape: "ps_shape p u" and runs: "pub_runs (ppc s)"
    and step: "pub_thread_step p (pw s) (ppc s) = (w, pc)"
  shows "\<exists>mem d c k. port_inv p (pub_advance s w pc) mem d c k"
proof -
  note inv' = port_invD [OF inv]
  note quiet = port_rings_quiet [OF inv'(3)]
  have quietly: "port_inv p (pub_advance s w pc) mem d c k"
    if "w = pw s" "pub_pc_ok (spsc_capacity (ch_send_queue c)) pc" "pub_sends pc = pub_sends (ppc s)"
      "pub_frees pc = pub_frees (ppc s)" "pub_prod (ppc s) = PIdle" "pub_cons (ppc s) = CIdle"
      "pub_prod pc \<in> {PIdle} \<union> range PStart" "pub_cons pc \<in> {CIdle, CStart}"
  proof -
    have "port_rings c (s\<lparr>ppc := pc\<rparr>)" by (rule quiet) (use that in simp_all)
    then have "port_inv p (s\<lparr>ppc := pc\<rparr>) mem d c k"
      using that inv inv'(6,9) by (intro port_inv_move [OF inv]) (auto simp: port_defs)
    then show ?thesis using that by (simp add: pub_advance_quiet)
  qed
  have open_c: "ch_get_state c \<noteq> Disconnected" using inv'(3) by (simp add: port_rings_def ch_closed_def)
  show ?thesis
  proof (cases "ppc s")
    case (SendLoop m chs)
    then have "chs = [] \<or> chs = [0]" using inv'(6) by (simp add: port_pcs_ok_def)
    then have "port_inv p (pub_advance s w pc) mem d c k"
      using SendLoop step inv'(1) open_c by (intro quietly) auto
    then show ?thesis by blast
  next
    case (ReclaimLoop chs)
    then have "chs = [] \<or> chs = [0]" using inv'(6) by (simp add: port_pcs_ok_def)
    then have "port_inv p (pub_advance s w pc) mem d c k"
      using ReclaimLoop step inv'(1) by (intro quietly) auto
    then show ?thesis by blast
  next
    case PubPanic
    then show ?thesis using inv'(6) by (simp add: port_pcs_ok_def)
  qed (use runs step port_inv_push [OF inv] port_inv_reclaim_pop [OF inv] port_inv_free(1) [OF inv shape] in
      \<open>fastforce simp: pub_runs_def\<close>)+
qed

lemma port_inv_sub_run:
  assumes inv: "port_inv p s mem d c k" and runs: "sub_runs (spc s)"
    and step: "sub_thread_step (pw s) (spc s) = (w, pc)"
  shows "\<exists>mem d c k. port_inv p (sub_advance (pub_payload p) s w pc) mem d c k"
proof (cases "spc s")
  case (RecvLoop conns)
  note inv' = port_invD [OF inv]
  have "ch_get_state c \<noteq> Disconnected" using inv'(3) by (simp add: port_rings_def ch_closed_def)
  moreover have "conns = [] \<or> conns = [(0, 0)]" using inv'(6) RecvLoop by (simp add: port_pcs_ok_def)
  ultimately have pc: "w = pw s" "pc = RecvRet (Ok None) \<or> pc = RecvPop 0 0 [] CStart"
    using RecvLoop step inv'(1) by auto
  have "port_rings c (s\<lparr>spc := pc\<rparr>)"
    by (rule port_rings_quiet [OF inv'(3)]) (use pc RecvLoop in auto)
  then have "port_inv p (s\<lparr>spc := pc\<rparr>) mem d c k"
    using pc inv inv'(6,9) RecvLoop by (intro port_inv_move [OF inv]) (auto simp: port_defs)
  then have "port_inv p (sub_advance (pub_payload p) s w pc) mem d c k" using pc RecvLoop by (auto simp: sub_advance_quiet)
  then show ?thesis by blast
next
  case (RecvPop seg ch conns pp)
  then show ?thesis using port_inv_receive [OF inv RecvPop step] by blast
next
  case (DropPush a ch pp)
  then show ?thesis using port_inv_return(1) [OF inv DropPush step] by blast
qed (use port_invD(6) [OF inv] runs in \<open>auto simp: port_pcs_ok_def sub_runs_def\<close>)

lemma port_inv_step:
  assumes "port_step p u s s'" and "ps_shape p u" and "\<exists>mem d c k. port_inv p s mem d c k"
  shows "\<exists>mem d c k. port_inv p s' mem d c k"
  using assms
proof (induction rule: port_step.induct)
  case (p_loan s m w)
  then show ?case using port_inv_loan(1) by blast
next
  case (p_loan_refused s e w)
  then show ?case using port_inv_loan(2) by metis
next
  case (p_store s m i b)
  then obtain mem d c k where inv: "port_inv p s mem d c k" by blast
  show ?case using port_inv_store [OF inv p_store.hyps(2,3) refl, of b] port_invD(1) [OF inv] by (simp only: ps_world_chan) blast
next
  case (p_drop s m w)
  then show ?case using port_inv_drop by blast
next
  case (p_call_send s m l chs)
  then obtain mem d c k where inv: "port_inv p s mem d c k" by blast
  have "smu_send_fn m = Some 0" using port_invD(6) [OF inv] p_call_send.hyps(2) by (simp add: port_pcs_ok_def smu_ok_def)
  then show ?case
    using port_inv_calls(1) [OF inv p_call_send.prems(1) p_call_send.hyps(1,2)] port_invD(1) [OF inv] p_call_send.hyps(3,4)
    by auto
next
  case (p_call_reclaim s chs)
  then obtain mem d c k where inv: "port_inv p s mem d c k" by blast
  then show ?case
    using port_inv_calls(2) [OF inv p_call_reclaim.prems(1) p_call_reclaim.hyps(1)] port_invD(1) [OF inv] p_call_reclaim
    by (auto simp: ps_shape_def)
next
  case (p_run s w pc)
  then show ?case using port_inv_pub_run by blast
next
  case (s_call_drop s a ch)
  then obtain mem d c k where inv: "port_inv p s mem d c k" by blast
  have "sa_drop_fn a = Some 0" using port_invD(6) [OF inv] s_call_drop.hyps(2) by (simp add: port_pcs_ok_def sa_ok_def)
  then show ?case
    using port_inv_calls(5) [OF inv s_call_drop.prems(1) s_call_drop.hyps(1,2)] s_call_drop.hyps(3) by auto
next
  case (s_run s w pc)
  then show ?case using port_inv_sub_run by blast
next
  case (s_return_none s e)
  then obtain mem d c k where inv: "port_inv p s mem d c k" by blast
  have "spc s \<noteq> RecvRet (Err e)" using port_invD(6) [OF inv] by (auto simp: port_pcs_ok_def)
  then show ?case using port_inv_calls(7) [OF inv] s_return_none by blast
qed (blast intro: port_inv_calls)+

lemma port_boot_inv:
  assumes "ps_boot os service n1 n2 qos payload mem = Some (p, u, w)" and "ps_params_ok qos payload"
  shows "ps_shape p u \<and> pub_payload p = payload \<and> pub_max_loaned p = max_loaned_samples qos \<and>
    (\<exists>mem d c. port_inv p (port_start w) mem d c 0 \<and> ds_free d = ds_chunks d)"
proof -
  obtain mem d c where b: "ps_shape p u" "pub_payload p = payload" "ps_inv p (ps_start w) mem d c 0"
      "c = ch_connect (ch_new (buffer_size qos) (nid n1) (nid n2))" "ds_free d = ds_chunks d"
      "pub_max_loaned p = max_loaned_samples qos"
    using ps_boot_inv [OF assms] by blast
  have rings: "send_ring c (port_start w) = spsc_init (buffer_size qos)"
      "return_ring c (port_start w) = spsc_init (buffer_size qos)"
    by (simp_all add: b(4) send_ring_def return_ring_def port_start_def spsc_init_def ch_connect_def ch_new_def)
  then have "port_rings c (port_start w)"
    using spsc_inv_init by (simp add: port_rings_def) (simp add: b(4) ch_connect_def ch_new_def ch_closed_def ch_get_state_def)
  then have "port_inv p (port_start w) mem d c 0"
    using b(3)
    by (simp add: port_inv_def ps_inv_def ps_start_def custody_def port_start_def port_places_def port_live_def
        port_log_def flying_def coming_def port_pcs_ok_def b(4))
  then show ?thesis using b by blast
qed

lemma port_reach_inv:
  assumes "ps_boot os service n1 n2 qos payload mem = Some (p, u, w)" and "ps_params_ok qos payload"
    and "port_reach p u w s"
  shows "ps_shape p u" and "pub_payload p = payload" and "\<exists>mem d c k. port_inv p s mem d c k"
proof -
  note b = port_boot_inv [OF assms(1,2)]
  then show "ps_shape p u" "pub_payload p = payload" by simp_all
  show "\<exists>mem d c k. port_inv p s mem d c k"
    using assms(3)
  proof (induction rule: port_reach.induct)
    case port_init
    then show ?case using b by blast
  next
    case (port_next s s')
    then show ?case using port_inv_step b by blast
  qed
qed

subsection \<open>What the two threads can rely on\<close>

text \<open>C1: one publisher and one subscriber at work at the same time. However the atomic accesses of the
  publisher's thread (loaning, storing bytes, sending, reclaiming) and of the subscriber's thread
  (receiving, dropping samples) are interleaved: every sample the subscriber holds, also the one
  \<open>receive\<close> is just returning, reads as the bytes it was sent with at every moment; every chunk of the
  segment is in exactly one place (free in the allocator, on loan, being sent, in flight, held, being
  returned, on its way back, being freed); the payloads received so far are a prefix of the payloads
  sent, in order, none twice and none left out; no thread panics and no \<open>send\<close> and no \<open>receive\<close>
  returns an error; and a \<open>loan\<close> succeeds exactly when fewer than \<open>max_loaned_samples\<close> chunks are out and
  one is free, and is refused otherwise.\<close>

theorem port_conc_safe:
  assumes "ps_boot os service n1 n2 qos payload mem = Some (p, u, w)" and "ps_params_ok qos payload"
    and "port_reach p u w s"
  shows "(\<forall>a. a \<in> set (cgot s) \<or> spc s = RecvRet (Ok (Some a)) \<longrightarrow>
      sa_read a payload (pw s) = csent s (sa_offset a)) \<and>
    (\<exists>d. w_segs (pw s) = [d] \<and> mset (port_places s) + mset_set (ds_free d) = mset_set (ds_chunks d) \<and>
      (\<exists>r w'. pub_loan p (pw s) = Some (r, w') \<and>
        (is_Ok r \<longleftrightarrow> length (port_places s) < unat (max_loaned_samples qos) \<and> ds_free d \<noteq> {}))) \<and>
    crecv s = take (length (crecv s)) (cmsgs s) \<and>
    ppc s \<noteq> PubPanic \<and> spc s \<noteq> SubPanic \<and> (\<forall>e. ppc s \<noteq> SendRet (Err e)) \<and> (\<forall>e. spc s \<noteq> RecvRet (Err e))"
proof -
  obtain mem d c k where inv: "port_inv p s mem d c k" and pay: "pub_payload p = payload" and shape: "ps_shape p u"
    using port_reach_inv [OF assms] by blast
  note inv' = port_invD [OF inv]
  have "sa_read a payload (pw s) = csent s (sa_offset a)"
    if "a \<in> set (cgot s) \<or> spc s = RecvRet (Ok (Some a))" for a
  proof -
    have "sa_ok d a" using that inv'(6) by (auto simp: port_pcs_ok_def)
    moreover have "sa_offset a \<in> set (port_live s)" using that by (auto simp: port_live_def)
    ultimately show ?thesis using inv inv'(1) pay by (simp add: port_inv_def sa_read_def sa_ok_def ds_read_def)
  qed
  moreover have "w_segs (pw s) = [d]" "mset (port_places s) + mset_set (ds_free d) = mset_set (ds_chunks d)"
    using inv'(1,7) mset_out_free [OF inv'(2)] by simp_all
  moreover have pm: "pub_max_loaned p = max_loaned_samples qos" using ps_boot_inv [OF assms(1,2)] by simp
  have "\<exists>r w'. pub_loan p (pw s) = Some (r, w') \<and>
      (is_Ok r \<longleftrightarrow> length (port_places s) < unat (max_loaned_samples qos) \<and> ds_free d \<noteq> {})"
    using inv'(2) shape unfolding inv'(1) inv'(8) [symmetric] port_places_out(3) [OF inv]
    by (cases rule: pub_loan_result [where mem = mem and c = c and k = k])
      (auto simp: pm word_le_nat_alt word_less_nat_alt)
  moreover have "crecv s = take (length (crecv s)) (cmsgs s)" using inv'(9) by (simp add: port_log_def)
  ultimately show ?thesis using inv'(6) by (auto simp: port_pcs_ok_def)
qed

text \<open>How many own steps a thread still has to take before its call has returned. A turn of the loop in
  \<open>reclaim\<close> that frees a chunk is paid for by the loan counter.\<close>

fun push_left :: "prod_pc \<Rightarrow> nat" where
  "push_left (PStart v) = 4"
| "push_left (PWrite v w) = 3"
| "push_left (PRead v w r) = 2"
| "push_left (PStored v w) = 1"
| "push_left pc = 0"

fun pop_left :: "cons_pc \<Rightarrow> nat" where
  "pop_left CStart = 4"
| "pop_left (CRead r) = 3"
| "pop_left (CWrite r w) = 2"
| "pop_left (CLoaded r v) = 1"
| "pop_left pc = 0"

fun pub_work :: "usize \<Rightarrow> pub_pc \<Rightarrow> nat" where
  "pub_work k (SendLoop m chs) = 2 + 5 * length chs"
| "pub_work k (SendPush m ch chs pc) = 2 + push_left pc + 5 * length chs"
| "pub_work k (SendRet r) = 1"
| "pub_work k (ReclaimLoop chs) = 6 * unat k + 1 + 5 * length chs"
| "pub_work k (ReclaimPop ch chs pc) = 6 * unat k + 1 + pop_left pc + 5 * length chs"
| "pub_work k (ReclaimFree ch chs offset) = 6 * unat k + 5 * length chs"
| "pub_work k pc = 0"

fun sub_work :: "sub_pc \<Rightarrow> nat" where
  "sub_work (RecvLoop conns) = 2 + 7 * length conns"
| "sub_work (RecvRead seg ch conns) = 8 + 7 * length conns"
| "sub_work (RecvWrite seg ch conns r) = 7 + 7 * length conns"
| "sub_work (RecvPop seg ch conns pc) = 2 + pop_left pc + 7 * length conns"
| "sub_work (RecvRet r) = 1"
| "sub_work (DropPush a ch pc) = 1 + push_left pc"
| "sub_work DropRet = 1"
| "sub_work pc = 0"

definition pub_left :: "publisher \<Rightarrow> port_sys \<Rightarrow> nat" where
  "pub_left p s = (case pub_get_active_loans p (pw s) of None \<Rightarrow> 0 | Some k \<Rightarrow> pub_work k (ppc s))"

lemma push_left_step: "prod_val pc = Some v \<Longrightarrow> prod_step q pc = (q', pc') \<Longrightarrow> push_left pc' < push_left pc"
  by (cases pc) (auto split: if_splits option.splits)

lemma pop_left_step: "cons_busy pc \<Longrightarrow> cons_step q pc = (q', pc') \<Longrightarrow> pop_left pc' < pop_left pc"
  by (cases pc) (auto split: if_splits option.splits)

lemma pop_left_none: "cons_busy pc \<Longrightarrow> cons_step q pc = (q', CRet r) \<Longrightarrow> r = None \<longleftrightarrow> pop_left pc = 2"
  by (cases pc) (auto split: if_splits option.splits)

lemma port_pub_loans:
  assumes "port_inv p s mem d c k" and "ps_shape p u"
  shows "pub_left p s = pub_work k (ppc s)"
  using assms by (simp add: pub_left_def pub_get_active_loans_def port_invD(1) ps_shape_def)

lemma pub_work_step:
  assumes inv: "port_inv p s mem d c k" and shape: "ps_shape p u" and runs: "pub_runs (ppc s)"
    and step: "pub_thread_step p (pw s) (ppc s) = (w, pc)"
  shows "pub_left p (pub_advance s w pc) < pub_left p s"
proof -
  note inv' = port_invD [OF inv]
  have ok: "pub_pc_ok (spsc_capacity (ch_send_queue c)) (ppc s)" using inv'(6) by (simp add: port_pcs_ok_def)
  have left: "pub_left p (pub_advance s w pc) = pub_work k' pc" if "w_loans w = [k']" for k'
    using that shape by (simp add: pub_left_def pub_get_active_loans_def pub_advance_def ps_shape_def)
  have loans: "w_loans (pw s) = [k]" using inv'(1) by simp
  show ?thesis
    unfolding port_pub_loans [OF inv shape]
  proof (cases "ppc s")
    case (SendPush m ch chs pp)
    obtain q pq where q: "prod_step (ch_send_queue c) pp = (q, pq)" by (cases "prod_step (ch_send_queue c) pp")
    have "\<exists>mem d c k. port_inv p (pub_advance s w pc) mem d c k" using port_inv_push [OF inv SendPush step] by blast
    then have "pc \<noteq> PubPanic" by (auto simp: port_inv_def port_pcs_ok_def pub_advance_def)
    then have "pub_work k pc < pub_work k (ppc s)"
      using SendPush ok step q inv'(1) push_left_step [OF _ q] by (cases pq) (auto split: if_splits)
    then show "pub_left p (pub_advance s w pc) < pub_work k (ppc s)" using left [of k] SendPush ok step q inv'(1) by auto
  next
    case (ReclaimPop ch chs pp)
    obtain q pq where q: "cons_step (ch_return_queue c) pp = (q, pq)" by (cases "cons_step (ch_return_queue c) pp")
    have "\<exists>mem d c k. port_inv p (pub_advance s w pc) mem d c k" using port_inv_reclaim_pop [OF inv ReclaimPop step] by blast
    then have "pc \<noteq> PubPanic" by (auto simp: port_inv_def port_pcs_ok_def pub_advance_def)
    moreover have "pc = after_reclaim 0 [] pq" "w_loans w = [k]" using ReclaimPop ok step q inv'(1) by auto
    ultimately have "pub_work k pc < pub_work k (ppc s)"
      using ReclaimPop ok pop_left_step [OF _ q] by (cases "(0 :: nat, [] :: nat list, pq)" rule: after_reclaim.cases) auto
    then show "pub_left p (pub_advance s w pc) < pub_work k (ppc s)" using left [of k] \<open>w_loans w = [k]\<close> by simp
  next
    case (ReclaimFree ch chs x)
    note free = port_inv_free(2-4) [OF inv shape ReclaimFree step]
    have "0 < unat k" using free(3) by (simp add: word_less_nat_alt)
    then show "pub_left p (pub_advance s w pc) < pub_work k (ppc s)"
      using left [OF free(2)] free(1) ReclaimFree ok unat_decr [of k] by simp
  next
    case (SendLoop m chs)
    have "ch_get_state c \<noteq> Disconnected" using inv'(3) by (simp add: port_rings_def ch_closed_def)
    then have "w = pw s \<and> pub_work k pc < pub_work k (ppc s)" using SendLoop ok step inv'(1) by auto
    then show "pub_left p (pub_advance s w pc) < pub_work k (ppc s)" using left [of k] loans by simp
  next
    case (ReclaimLoop chs)
    then have "w = pw s \<and> pub_work k pc < pub_work k (ppc s)" using ok step inv'(1) by auto
    then show "pub_left p (pub_advance s w pc) < pub_work k (ppc s)" using left [of k] loans by simp
  qed (use runs ok in \<open>auto simp: pub_runs_def\<close>)
qed

lemma sub_work_step:
  assumes inv: "port_inv p s mem d c k" and runs: "sub_runs (spc s)"
    and step: "sub_thread_step (pw s) (spc s) = (w, pc)"
  shows "sub_work pc < sub_work (spc s)" and "w_loans w = w_loans (pw s)"
proof -
  note inv' = port_invD [OF inv]
  have ok: "sub_pc_ok (spsc_capacity (ch_send_queue c)) d (spc s)" using inv'(6) by (simp add: port_pcs_ok_def)
  show "sub_work pc < sub_work (spc s)"
  proof (cases "spc s")
    case (RecvPop seg ch conns pp)
    obtain q pq where q: "cons_step (ch_send_queue c) pp = (q, pq)" by (cases "cons_step (ch_send_queue c) pp")
    have "pc = after_receive (pw s) 0 0 [] pq" using RecvPop ok step q inv'(1) by auto
    then show ?thesis
      using RecvPop ok pop_left_step [OF _ q] inv'(1)
      by (cases "(pw s, 0 :: nat, 0 :: nat, [] :: (nat \<times> nat) list, pq)" rule: after_receive.cases) auto
  next
    case (DropPush a ch pp)
    obtain q pq where q: "prod_step (ch_return_queue c) pp = (q, pq)" by (cases "prod_step (ch_return_queue c) pp")
    have "pc = after_return a 0 pq" using DropPush ok step q inv'(1) by auto
    then show ?thesis
      using DropPush ok push_left_step [OF _ q] port_inv_return(2) [OF inv DropPush step] q by auto
  next
    case (RecvLoop conns)
    have "ch_get_state c \<noteq> Disconnected" using inv'(3) by (simp add: port_rings_def ch_closed_def)
    then show ?thesis using RecvLoop ok step inv'(1) by auto
  qed (use runs ok in \<open>auto simp: sub_runs_def\<close>)
  show "w_loans w = w_loans (pw s)"
    using step by (cases "(pw s, spc s)" rule: sub_thread_step.cases) (auto split: option.splits prod.splits)
qed

text \<open>A thread inside a call can take a step of its own, and the step brings it nearer to the return.\<close>

lemma port_pub_left:
  assumes inv: "port_inv p s mem d c k" and shape: "ps_shape p u"
  shows "pub_left p (s\<lparr>ppc := pc\<rparr>) = pub_work k pc"
  using shape port_invD(1) [OF inv] by (simp add: pub_left_def pub_get_active_loans_def ps_shape_def)

lemma port_pub_can_step:
  assumes inv: "port_inv p s mem d c k" and shape: "ps_shape p u" and busy: "ppc s \<noteq> PubIdle"
  shows "\<exists>s'. port_step p u s s' \<and> pub_left p s' < pub_left p s"
proof (cases "\<exists>r. ppc s = SendRet r")
  case True
  then obtain r where "ppc s = SendRet r" by blast
  then have "port_step p u s (s\<lparr>ppc := PubIdle\<rparr>)" "pub_left p (s\<lparr>ppc := PubIdle\<rparr>) < pub_left p s"
    using port_pub_loans [OF inv shape] port_pub_left [OF inv shape] by (auto intro: p_return)
  then show ?thesis by blast
next
  case False
  then have runs: "pub_runs (ppc s)" using busy by (simp add: pub_runs_def)
  obtain w' pc where step: "pub_thread_step p (pw s) (ppc s) = (w', pc)" by (cases "pub_thread_step p (pw s) (ppc s)")
  show ?thesis using p_run [OF runs step] pub_work_step [OF inv shape runs step] by blast
qed

lemma port_sub_can_step:
  assumes inv: "port_inv p s mem d c k" and busy: "spc s \<noteq> SubIdle"
  shows "\<exists>s'. port_step p u s s' \<and> sub_work (spc s') < sub_work (spc s)"
proof (cases "sub_runs (spc s)")
  case True
  obtain w' pc where step: "sub_thread_step (pw s) (spc s) = (w', pc)" by (cases "sub_thread_step (pw s) (spc s)")
  show ?thesis
    using s_run [OF True step, of p u] sub_work_step(1) [OF inv True step]
    by (intro exI [of _ "sub_advance (pub_payload p) s w' pc"]) (simp add: sub_advance_def)
next
  case False
  then show ?thesis using busy s_return_sample [of s _ p u] s_return_none [of s _ p u] port_invD(6) [OF inv]
    by (fastforce simp: sub_runs_def port_pcs_ok_def elim!: sub_pc_ok.elims)
qed

text \<open>No step of either thread sets the other back.\<close>

lemma port_step_left:
  assumes inv: "port_inv p s mem d c k" and shape: "ps_shape p u" and step: "port_step p u s s'"
  shows "(ppc s \<noteq> PubIdle \<longrightarrow> pub_left p s' < pub_left p s \<or> ppc s' = ppc s \<and> pub_left p s' = pub_left p s) \<and>
    (spc s \<noteq> SubIdle \<longrightarrow> sub_work (spc s') < sub_work (spc s) \<or> spc s' = spc s)"
  using step
proof cases
  case (p_run w' pc)
  then show ?thesis using pub_work_step [OF inv shape p_run(2,3)] by (simp add: pub_advance_def)
next
  case (s_run w' pc)
  then show ?thesis
    using sub_work_step [OF inv s_run(2,3)] by (simp add: sub_advance_def pub_left_def pub_get_active_loans_def split: option.split)
next
  case (p_return r)
  then show ?thesis using port_pub_loans [OF inv shape] port_pub_left [OF inv shape] by simp
qed (auto simp: pub_left_def split: option.split)

lemma port_left_bound:
  assumes inv: "port_inv p s mem d c k" and shape: "ps_shape p u"
  shows "pub_left p s \<le> 6 * length (port_places s) + 7" and "pub_sends (ppc s) \<noteq> [] \<longrightarrow> pub_left p s \<le> 7"
    and "sub_work (spc s) \<le> 9"
proof -
  note left = port_pub_loans [OF inv shape]
  have push: "4 \<le> n \<Longrightarrow> push_left pp \<le> n" and pop: "4 \<le> n \<Longrightarrow> pop_left pq \<le> n" for pp pq n
    by (cases pp; simp) (cases pq; simp)
  have ok: "pub_pc_ok (spsc_capacity (ch_send_queue c)) (ppc s)" "sub_pc_ok (spsc_capacity (ch_send_queue c)) d (spc s)"
    using port_invD(6) [OF inv] by (simp_all add: port_pcs_ok_def)
  have k: "unat k = length (port_places s)" using port_invD(8) [OF inv] port_places_out(3) [OF inv] by simp
  show "pub_left p s \<le> 6 * length (port_places s) + 7"
    unfolding left k [symmetric] using ok(1) push pop by (cases "ppc s") (auto simp: le_SucI add.commute)
  show "pub_sends (ppc s) \<noteq> [] \<longrightarrow> pub_left p s \<le> 7"
    unfolding left using ok(1) push by (cases "ppc s") auto
  show "sub_work (spc s) \<le> 9" using ok(2) push pop by (cases "spc s") auto
qed

text \<open>C2: every call returns, and the two threads do not hold each other up. Whenever the publisher's
  thread is inside \<open>send\<close> or \<open>reclaim\<close>, it can take a step, each of its own steps brings it nearer to the
  return, and no step of the subscriber's thread sets it back; likewise for the subscriber's thread
  inside \<open>receive\<close> and inside the drop of a sample. A \<open>send\<close> takes at most seven
  own steps, a \<open>receive\<close> or a drop at most nine; a \<open>reclaim\<close> takes at most six for every chunk that is out
  and seven more.\<close>

theorem port_calls_return:
  assumes "ps_boot os service n1 n2 qos payload mem = Some (p, u, w)" and "ps_params_ok qos payload"
    and "port_reach p u w s"
  shows "(ppc s \<noteq> PubIdle \<longrightarrow> (\<exists>s'. port_step p u s s' \<and> pub_left p s' < pub_left p s)) \<and>
    (spc s \<noteq> SubIdle \<longrightarrow> (\<exists>s'. port_step p u s s' \<and> sub_work (spc s') < sub_work (spc s))) \<and>
    (\<forall>s'. port_step p u s s' \<longrightarrow>
      (ppc s \<noteq> PubIdle \<longrightarrow> pub_left p s' < pub_left p s \<or> ppc s' = ppc s \<and> pub_left p s' = pub_left p s) \<and>
      (spc s \<noteq> SubIdle \<longrightarrow> sub_work (spc s') < sub_work (spc s) \<or> spc s' = spc s)) \<and>
    pub_left p s \<le> 6 * length (port_places s) + 7 \<and> (pub_sends (ppc s) \<noteq> [] \<longrightarrow> pub_left p s \<le> 7) \<and>
    sub_work (spc s) \<le> 9"
proof -
  have shape: "ps_shape p u" using port_reach_inv(1) [OF assms] .
  obtain mem d c k where inv: "port_inv p s mem d c k" using port_reach_inv(3) [OF assms] by blast
  show ?thesis
    by (intro conjI impI allI)
      (fact port_pub_can_step [OF inv shape] port_sub_can_step [OF inv] port_step_left [OF inv shape, THEN conjunct1, rule_format]
        port_step_left [OF inv shape, THEN conjunct2, rule_format] port_left_bound(1,3) [OF inv shape]
        port_left_bound(2) [OF inv shape, rule_format])+
qed

subsection \<open>A run\<close>

text \<open>An undisturbed thread does what the sequential operation does.\<close>

lemma prod_solo:
  assumes "spsc_push q v = Some (True, q')"
  obtains data where "prod_step q (PStart v) = (q, PWrite v (write_pos q))"
    "prod_step q (PWrite v (write_pos q)) = (q, PRead v (write_pos q) (read_pos q))"
    "prod_step q (PRead v (write_pos q) (read_pos q)) = (q\<lparr>spsc_data := data\<rparr>, PStored v (write_pos q))"
    "prod_step (q\<lparr>spsc_data := data\<rparr>) (PStored v (write_pos q)) = (q', PRet True)"
  using assms that by (auto simp: spsc_push_def Let_def Option.bind_eq_Some_conv split: if_splits)

lemma cons_solo:
  assumes "spsc_pop q = Some (Some v, q')"
  shows "cons_step q CStart = (q, CRead (read_pos q))"
    "cons_step q (CRead (read_pos q)) = (q, CWrite (read_pos q) (write_pos q))"
    "cons_step q (CWrite (read_pos q) (write_pos q)) = (q, CLoaded (read_pos q) v)"
    "cons_step q (CLoaded (read_pos q) v) = (q', CRet (Some v))"
  using assms by (auto simp: spsc_pop_def Let_def Option.bind_eq_Some_conv split: if_splits)

lemma port_run_pub:
  "port_reach p u w0 s \<Longrightarrow> pub_runs (ppc s) \<Longrightarrow> pub_thread_step p (pw s) (ppc s) = (w, pc) \<Longrightarrow>
    port_reach p u w0 (pub_advance s w pc)"
  using port_next p_run by blast

lemma port_run_sub:
  "port_reach p u w0 s \<Longrightarrow> sub_runs (spc s) \<Longrightarrow> sub_thread_step (pw s) (spc s) = (w, pc) \<Longrightarrow>
    port_reach p u w0 (sub_advance (pub_payload p) s w pc)"
  using port_next s_run by blast

lemma port_send_solo:
  assumes reach: "port_reach p u w0 s" and inv: "port_inv p s mem d c k" and pc: "ppc s = SendLoop m [0]"
    and push: "spsc_push (ch_send_queue c) (po_raw (smu_offset m)) = Some (True, q)"
  shows "port_reach p u w0 (s\<lparr>pw := ps_world mem d (c\<lparr>ch_send_queue := q\<rparr>) k, ppc := SendLoop m [],
    sq_pushed := sq_pushed s @ [po_raw (smu_offset m)]\<rparr>)"
proof -
  let ?q = "ch_send_queue c" and ?v = "po_raw (smu_offset m)"
  obtain data where st: "prod_step ?q (PStart ?v) = (?q, PWrite ?v (write_pos ?q))"
    "prod_step ?q (PWrite ?v (write_pos ?q)) = (?q, PRead ?v (write_pos ?q) (read_pos ?q))"
    "prod_step ?q (PRead ?v (write_pos ?q) (read_pos ?q)) = (?q\<lparr>spsc_data := data\<rparr>, PStored ?v (write_pos ?q))"
    "prod_step (?q\<lparr>spsc_data := data\<rparr>) (PStored ?v (write_pos ?q)) = (q, PRet True)"
    using prod_solo [OF push] .
  have c: "pw s = ps_world mem d c k" "ch_get_state c \<noteq> Disconnected"
    using port_invD [OF inv] by (simp_all add: port_rings_def ch_closed_def)
  let ?at = "\<lambda>pc. s\<lparr>pw := ps_world mem d c k, ppc := SendPush m 0 [] pc\<rparr>" and ?c = "c\<lparr>ch_send_queue := ?q\<lparr>spsc_data := data\<rparr>\<rparr>"
  have same: "c\<lparr>ch_send_queue := ?q\<rparr> = c" by simp
  have "port_reach p u w0 (?at (PStart ?v))"
    using port_run_pub [OF reach, of "ps_world mem d c k" "SendPush m 0 [] (PStart ?v)"] pc c by (simp add: pub_runs_def pub_advance_def)
  from port_run_pub [OF this, of "ps_world mem d c k" "SendPush m 0 [] (PWrite ?v (write_pos ?q))"]
  have "port_reach p u w0 (?at (PWrite ?v (write_pos ?q)))"
    using c st(1) by (simp add: pub_runs_def pub_advance_def same)
  from port_run_pub [OF this, of "ps_world mem d c k" "SendPush m 0 [] (PRead ?v (write_pos ?q) (read_pos ?q))"]
  have "port_reach p u w0 (?at (PRead ?v (write_pos ?q) (read_pos ?q)))"
    using c st(2) by (simp add: pub_runs_def pub_advance_def same)
  from port_run_pub [OF this, of "ps_world mem d ?c k" "SendPush m 0 [] (PStored ?v (write_pos ?q))"]
  have "port_reach p u w0 (s\<lparr>pw := ps_world mem d ?c k, ppc := SendPush m 0 [] (PStored ?v (write_pos ?q))\<rparr>)"
    using c st(3) by (simp add: pub_runs_def pub_advance_def)
  from port_run_pub [OF this, of "ps_world mem d (c\<lparr>ch_send_queue := q\<rparr>) k" "SendLoop m []"]
  show ?thesis using st(4) by (simp add: pub_runs_def pub_advance_def)
qed

lemma port_receive_solo:
  assumes reach: "port_reach p u w0 s" and inv: "port_inv p s mem d c k" and pc: "spc s = RecvLoop [(0, 0)]"
    and pop: "spsc_pop (ch_send_queue c) = Some (Some v, q)"
  shows "\<exists>a s'. port_reach p u w0 s' \<and> spc s' = RecvRet (Ok (Some a))"
proof -
  let ?q = "ch_send_queue c"
  note st = cons_solo [OF pop]
  have c: "pw s = ps_world mem d c k" "ch_get_state c \<noteq> Disconnected"
    using port_invD [OF inv] by (simp_all add: port_rings_def ch_closed_def)
  have same: "c\<lparr>ch_send_queue := ?q\<rparr> = c" by simp
  let ?at = "\<lambda>pc. s\<lparr>pw := ps_world mem d c k, spc := RecvPop 0 0 [] pc\<rparr>"
  have "port_reach p u w0 (?at CStart)"
    using port_run_sub [OF reach, of "ps_world mem d c k" "RecvPop 0 0 [] CStart"] pc c by (simp add: sub_runs_def sub_advance_def)
  from port_run_sub [OF this, of "ps_world mem d c k" "RecvPop 0 0 [] (CRead (read_pos ?q))"]
  have "port_reach p u w0 (?at (CRead (read_pos ?q)))" using c st(1) by (simp add: sub_runs_def sub_advance_def same)
  from port_run_sub [OF this, of "ps_world mem d c k" "RecvPop 0 0 [] (CWrite (read_pos ?q) (write_pos ?q))"]
  have "port_reach p u w0 (?at (CWrite (read_pos ?q) (write_pos ?q)))"
    using c st(2) by (simp add: sub_runs_def sub_advance_def same)
  from port_run_sub [OF this, of "ps_world mem d c k" "RecvPop 0 0 [] (CLoaded (read_pos ?q) v)"]
  have "port_reach p u w0 (?at (CLoaded (read_pos ?q) v))"
    using c st(3) by (simp add: sub_runs_def sub_advance_def same)
  from port_run_sub [OF this, of "ps_world mem d (c\<lparr>ch_send_queue := q\<rparr>) k"]
  show ?thesis using c st(4) by (fastforce simp: sub_runs_def sub_advance_def)
qed

lemma port_run_receive:
  assumes boot: "port_inv p (port_start w) mem d c 0" and shape: "ps_shape p u" and free: "ds_free d \<noteq> {}"
    and max: "0 < pub_max_loaned p"
  shows "\<exists>s a. port_reach p u w s \<and> spc s = RecvRet (Ok (Some a))"
proof -
  let ?s0 = "port_start w"
  have "\<exists>m w1. pub_loan p (pw ?s0) = Some (Ok m, w1)"
    using port_invD(2) [OF boot] shape
    by (cases rule: pub_loan_result [where mem = mem and c = c and k = 0])
      (use max free port_invD(1) [OF boot] in auto)
  then obtain m w1 where loan: "pub_loan p (pw ?s0) = Some (Ok m, w1)" by blast
  let ?s1 = "?s0\<lparr>pw := w1, cloaned := m # cloaned ?s0\<rparr>"
  have s1: "port_reach p u w ?s1"
    using port_next [OF port_init p_loan [OF _ loan]] by (simp add: port_start_def)
  obtain mem1 d1 c1 k1 where inv1: "port_inv p ?s1 mem1 d1 c1 k1"
    using port_inv_loan(1) [OF boot shape loan] by blast
  have pc1: "ppc ?s1 = PubIdle" "spc ?s1 = SubIdle" "m \<in> set (cloaned ?s1)" by (simp_all add: port_start_def)
  then have "smu_send_fn m = Some 0" using port_invD(6) [OF inv1] by (simp add: port_pcs_ok_def smu_ok_def)
  then have "port_reach p u w (?s1\<lparr>ppc := SendLoop m [0], cloaned := remove1 m (cloaned ?s1),
      csent := (csent ?s1)(smu_offset m := read_list (smu_ptr m) (pub_payload p) (w_mem (pw ?s1))),
      cmsgs := cmsgs ?s1 @ [read_list (smu_ptr m) (pub_payload p) (w_mem (pw ?s1))]\<rparr>)"
    using port_next [OF s1 p_call_send [OF pc1(1,3), of 0 "[0]" p u]] port_invD(1) [OF inv1] by simp
  then have s2: "port_reach p u w (?s1\<lparr>ppc := SendLoop m [0], cloaned := remove1 m (cloaned ?s1),
      csent := (csent ?s1)(smu_offset m := read_list (smu_ptr m) (pub_payload p) mem1),
      cmsgs := cmsgs ?s1 @ [read_list (smu_ptr m) (pub_payload p) mem1]\<rparr>)" (is "port_reach p u w ?s2")
    using port_invD(1) [OF inv1] by simp
  have inv2: "port_inv p ?s2 mem1 d1 c1 k1" using port_inv_calls(1) [OF inv1 shape pc1(1,3)] .
  have len: "sq_pushed ?s2 = []" "sq_popped ?s2 = []" "spc ?s2 = SubIdle" by (simp_all add: port_start_def)
  have ring: "ring_ok (ch_send_queue c1)" "write_pos (ch_send_queue c1) = 0" "read_pos (ch_send_queue c1) = 0"
    using port_invD(3) [OF inv2] len by (auto simp: port_rings_def spsc_inv_def ring_holds_def send_ring_def)
  then have wf: "spsc_wf (ch_send_queue c1)" "spsc_items (ch_send_queue c1) = []"
    by (simp_all add: spsc_wf_def spsc_items_def)
  have "0 < unat (spsc_capacity (ch_send_queue c1))" using ring_ok_capacity [OF ring(1)] by simp
  then obtain q where q: "spsc_push (ch_send_queue c1) (po_raw (smu_offset m)) = Some (True, q)"
      "spsc_items q = [po_raw (smu_offset m)]" "spsc_wf q"
    using spsc.push_room [OF wf(1), of "po_raw (smu_offset m)"] wf(2) by auto
  let ?s3 = "?s2\<lparr>pw := ps_world mem1 d1 (c1\<lparr>ch_send_queue := q\<rparr>) k1, ppc := SendLoop m [],
    sq_pushed := sq_pushed ?s2 @ [po_raw (smu_offset m)]\<rparr>"
  have s3: "port_reach p u w ?s3" using port_send_solo [OF s2 inv2 _ q(1)] by simp
  have "sub_connections u = [(0, 0)]" using shape by (simp add: ps_shape_def)
  then have s4: "port_reach p u w (?s3\<lparr>spc := RecvLoop [(0, 0)]\<rparr>)"
    using port_next [OF s3 s_call_receive] len(3) by simp
  obtain q' where pop: "spsc_pop q = Some (Some (po_raw (smu_offset m)), q')"
    using spsc.pop_Cons [OF q(3,2)] by blast
  have "\<exists>mem d c k. port_inv p ?s3 mem d c k"
  proof -
    have "\<exists>mem d c k. port_inv p s mem d c k" if "port_reach p u w s" for s
      using that by (induction rule: port_reach.induct) (use boot port_inv_step shape in blast)+
    then show ?thesis using s3 by blast
  qed
  then obtain mem3 d3 c3 k3 where inv3: "port_inv p ?s3 mem3 d3 c3 k3" by blast
  then have "c3 = c1\<lparr>ch_send_queue := q\<rparr>" using port_invD(1) [OF inv3] by (simp add: ps_world_def)
  moreover have "port_inv p (?s3\<lparr>spc := RecvLoop [(0, 0)]\<rparr>) mem3 d3 c3 k3"
    using port_inv_calls(4) [OF inv3 shape] len(3) \<open>sub_connections u = [(0, 0)]\<close> by simp
  ultimately show ?thesis using port_receive_solo [OF s4, of mem3 d3 c3 k3] pop by auto
qed

lemma port_run_default:
  "\<exists>p u w s a. ps_boot nix_ok ''svc'' (NodeId 1) (NodeId 2) pubsub_qos_default 8 (\<lambda>_. 0) = Some (p, u, w) \<and>
     port_reach p u w s \<and> spc s = RecvRet (Ok (Some a))"
proof -
  obtain p u w where boot:
    "ps_boot nix_ok ''svc'' (NodeId 1) (NodeId 2) pubsub_qos_default 8 (\<lambda>_. 0) = Some (p, u, w)"
    using ps_boot_default by blast
  note b = port_boot_inv [OF boot ps_params_default]
  then obtain mem d c where d: "port_inv p (port_start w) mem d c 0" "ds_free d = ds_chunks d" by blast
  have "ds_free d \<noteq> {}" using d ds_wf_first_chunk [OF port_invD(2) [OF d(1)]] by auto
  moreover have "0 < pub_max_loaned p" using b by (simp add: pubsub_qos_default_def)
  ultimately show ?thesis using port_run_receive [OF d(1)] b boot by blast
qed

theorem port_conc_safe_witness:
  "\<exists>p u w s a. ps_boot nix_ok ''svc'' (NodeId 1) (NodeId 2) pubsub_qos_default 8 (\<lambda>_. 0) = Some (p, u, w) \<and>
     port_reach p u w s \<and> spc s = RecvRet (Ok (Some a)) \<and> sa_read a 8 (pw s) = csent s (sa_offset a) \<and>
     crecv s = take (length (crecv s)) (cmsgs s)"
  using port_run_default port_conc_safe [OF _ ps_params_default] by metis

theorem port_calls_return_witness:
  "\<exists>p u w s a. ps_boot nix_ok ''svc'' (NodeId 1) (NodeId 2) pubsub_qos_default 8 (\<lambda>_. 0) = Some (p, u, w) \<and>
     port_reach p u w s \<and> spc s = RecvRet (Ok (Some a)) \<and>
     (\<exists>s'. port_step p u s s' \<and> sub_work (spc s') < sub_work (spc s))"
proof -
  obtain p u w s a where run:
    "ps_boot nix_ok ''svc'' (NodeId 1) (NodeId 2) pubsub_qos_default 8 (\<lambda>_. 0) = Some (p, u, w)"
    "port_reach p u w s" "spc s = RecvRet (Ok (Some a))"
    using port_run_default by blast
  have "spc s \<noteq> SubIdle" using run(3) by simp
  then show ?thesis using port_calls_return [OF run(1) ps_params_default run(2)] run by blast
qed

subsection \<open>Samples in several threads\<close>

text \<open>\<open>Sample\<close> is declared \<open>Send\<close>, and a subscriber can be shared, so two threads can be inside the drop of
  a sample, or inside \<open>receive\<close>, at the same time. The channel's queues allow one producer and one
  consumer only. The schedule says whose turn it is.\<close>

fun sub_pair_run :: "bool list \<Rightarrow> world \<times> sub_pc \<times> sub_pc \<Rightarrow> world \<times> sub_pc \<times> sub_pc" where
  "sub_pair_run [] x = x"
| "sub_pair_run (first # turns) (w, pc1, pc2) =
     (if first then case sub_thread_step w pc1 of (w, pc1) \<Rightarrow> sub_pair_run turns (w, pc1, pc2)
      else case sub_thread_step w pc2 of (w, pc2) \<Rightarrow> sub_pair_run turns (w, pc1, pc2))"

lemma ring_stored:
  assumes "spsc_wf q" and "length (spsc_items q) < unat (spsc_capacity q)"
  shows "\<not> write_pos q - read_pos q \<ge> spsc_capacity q"
    and "upd (spsc_data q) (unat (write_pos q AND spsc_mask q)) v = Some ((spsc_data q)[unat (write_pos q AND spsc_mask q) := v])"
    and "spsc_push q v = Some (True, q\<lparr>spsc_data := (spsc_data q)[unat (write_pos q AND spsc_mask q) := v],
      write_pos := write_pos q + 1\<rparr>)"
proof -
  show room: "\<not> write_pos q - read_pos q \<ge> spsc_capacity q"
    using assms(2) by (simp add: word_le_nat_alt)
  show up: "upd (spsc_data q) (unat (write_pos q AND spsc_mask q)) v = Some ((spsc_data q)[unat (write_pos q AND spsc_mask q) := v])"
    using assms(1) ring_slot_bound [of q "write_pos q"] by (simp add: spsc_wf_def)
  show "spsc_push q v = Some (True, q\<lparr>spsc_data := (spsc_data q)[unat (write_pos q AND spsc_mask q) := v],
      write_pos := write_pos q + 1\<rparr>)"
    using room up by (simp add: spsc_push_def Let_def)
qed

lemma droppers_race:
  assumes wf: "ch_wf c" and room: "length (ch_returned c) < ch_bound c"
  shows "\<exists>c'. sub_pair_run [True, True, False, False, True, False, True, False]
      (ps_world mem d c k, DropPush a 0 (PStart (po_raw (sa_offset a))), DropPush b 0 (PStart (po_raw (sa_offset b)))) =
      (ps_world mem d c' k, DropRet, DropRet) \<and> ch_returned c' = ch_returned c @ [sa_offset b]"
proof -
  let ?q = "ch_return_queue c" and ?i = "unat (write_pos (ch_return_queue c) AND spsc_mask (ch_return_queue c))"
  have q: "spsc_wf ?q" "length (spsc_items ?q) < unat (spsc_capacity ?q)"
    using wf room by (simp_all add: ch_wf_def ch_returned_def ch_bound_def)
  note st = ring_stored [OF q]
  let ?q' = "?q\<lparr>spsc_data := (spsc_data ?q)[?i := po_raw (sa_offset b)], write_pos := write_pos ?q + 1\<rparr>"
  obtain q' where "spsc_push ?q (po_raw (sa_offset b)) = Some (True, q')" "spsc_items q' = spsc_items ?q @ [po_raw (sa_offset b)]"
    using spsc.push_room [OF q] by blast
  then have items: "spsc_items ?q' = spsc_items ?q @ [po_raw (sa_offset b)]"
    using st(3) [of "po_raw (sa_offset b)"] by simp
  have bound: "?i < length (spsc_data ?q)" using ring_slot_bound q(1) by (simp add: spsc_wf_def)
  have "sub_pair_run [True, True, False, False, True, False, True, False]
      (ps_world mem d c k, DropPush a 0 (PStart (po_raw (sa_offset a))), DropPush b 0 (PStart (po_raw (sa_offset b)))) =
      (ps_world mem d (c\<lparr>ch_return_queue := ?q'\<rparr>) k, DropRet, DropRet)"
    using st(1) bound by simp
  then show ?thesis using items by (intro exI [of _ "c\<lparr>ch_return_queue := ?q'\<rparr>"]) (simp add: ch_returned_def)
qed

lemma receivers_race:
  assumes wf: "ch_wf c" and live: "\<not> ch_closed c" and x: "ch_inflight c = x # xs"
  shows "\<exists>c' a. sub_pair_run [True, True, True, True, False, False, False, False, True, False]
      (ps_world mem d c k, RecvLoop [(0, 0)], RecvLoop [(0, 0)]) =
      (ps_world mem d c' k, RecvRet (Ok (Some a)), RecvRet (Ok (Some a))) \<and> sa_offset a = x \<and> ch_inflight c' = xs"
proof -
  let ?q = "ch_send_queue c" and ?i = "unat (read_pos (ch_send_queue c) AND spsc_mask (ch_send_queue c))"
  let ?q' = "?q\<lparr>read_pos := read_pos ?q + 1\<rparr>"
  have q: "spsc_wf ?q" using wf by (simp add: ch_wf_def)
  obtain v vs where v: "spsc_items ?q = v # vs" "x = po_from_raw v" "xs = map po_from_raw vs"
    using x by (auto simp: ch_inflight_def)
  obtain q' where pop: "spsc_pop ?q = Some (Some v, q')" "spsc_items q' = vs" using spsc.pop_Cons [OF q v(1)] by blast
  then have q': "q' = ?q'" "read_pos ?q \<noteq> write_pos ?q" "idx (spsc_data ?q) ?i = Some v"
    by (auto simp: spsc_pop_def Let_def Option.bind_eq_Some_conv split: if_splits)
  have st: "ch_get_state c \<noteq> Disconnected" using live by (simp add: ch_closed_def)
  let ?a = "\<lparr>sa_ptr = ds_resolve_ptr d x, sa_offset = x, sa_drop_fn = Some 0\<rparr>"
  have "sub_pair_run [True, True, True, True, False, False, False, False, True, False]
      (ps_world mem d c k, RecvLoop [(0, 0)], RecvLoop [(0, 0)]) =
      (ps_world mem d (c\<lparr>ch_send_queue := ?q'\<rparr>) k, RecvRet (Ok (Some ?a)), RecvRet (Ok (Some ?a)))"
    using q'(2,3) st v(2) by simp
  then show ?thesis
    using pop(2) q'(1) v(3) by (intro exI [of _ "c\<lparr>ch_send_queue := ?q'\<rparr>"] exI [of _ ?a]) (simp add: ch_inflight_def)
qed

text \<open>C34: samples must stay in one thread, although the types let them move. When two threads drop a
  sample at the same time, both drops return and only one of the two chunks is on its way back: the
  other is lost to the publisher for good. When two threads receive at the same time, both may get the
  same sample, which is then returned and deallocated twice.\<close>

theorem sample_threads_race:
  assumes "ch_wf c" and "\<not> ch_closed c"
  shows "(length (ch_returned c) < ch_bound c \<longrightarrow>
      (\<exists>turns c'. sub_pair_run turns (ps_world mem d c k, DropPush a 0 (PStart (po_raw (sa_offset a))),
          DropPush b 0 (PStart (po_raw (sa_offset b)))) = (ps_world mem d c' k, DropRet, DropRet) \<and>
        ch_returned c' = ch_returned c @ [sa_offset b])) \<and>
    (\<forall>x xs. ch_inflight c = x # xs \<longrightarrow>
      (\<exists>turns c' a. sub_pair_run turns (ps_world mem d c k, RecvLoop [(0, 0)], RecvLoop [(0, 0)]) =
          (ps_world mem d c' k, RecvRet (Ok (Some a)), RecvRet (Ok (Some a))) \<and>
        sa_offset a = x \<and> ch_inflight c' = xs))"
  using droppers_race [OF assms(1)] receivers_race [OF assms] by blast

theorem sample_threads_race_witness:
  "\<exists>c. ch_wf c \<and> \<not> ch_closed c \<and> ch_inflight c = [po_new 0 64] \<and> ch_returned c = [] \<and>
    (\<forall>mem d k. \<exists>turns c' a. sub_pair_run turns (ps_world mem d c k, RecvLoop [(0, 0)], RecvLoop [(0, 0)]) =
        (ps_world mem d c' k, RecvRet (Ok (Some a)), RecvRet (Ok (Some a))) \<and> sa_offset a = po_new 0 64) \<and>
    (\<forall>mem d k a b. \<exists>turns c'. sub_pair_run turns (ps_world mem d c k, DropPush a 0 (PStart (po_raw (sa_offset a))),
        DropPush b 0 (PStart (po_raw (sa_offset b)))) = (ps_world mem d c' k, DropRet, DropRet) \<and>
      ch_returned c' = [sa_offset b])"
proof -
  have "2 \<le> ch_bound (ch_connect (ch_new 2 1 2))"
    using spsc_new_capacity [of 2] by (simp add: word_le_nat_alt)
  then obtain c where c: "ch_wf c" "\<not> ch_closed c" "ch_inflight c = [po_new 0 64]" "ch_returned c = []" "2 \<le> ch_bound c"
    using ch.send_room [of "ch_connect (ch_new 2 1 2)" "po_new 0 64"] by auto
  note race = sample_threads_race [OF c(1,2)]
  show ?thesis
    using c race by (intro exI [of _ c] conjI allI) (force, force, force, force, blast, force)
qed

end
