(* ===== verification/Relocatable.thy ===== *)
theory Relocatable
  imports Entangle_Prelude
begin

text \<open>
  \<open>RelocatablePtr\<close> of \<open>crates/entangle-lockfree/src/relocatable.rs\<close>: a pointer kept as the signed
  distance from its own address. An address is a 64-bit word, 0 the null pointer; the address of
  the object itself is an argument, since it differs from process to process.
\<close>

record relocatable_ptr =
  rp_offset :: isize

definition rp_null :: relocatable_ptr where
  "rp_null = \<lparr>rp_offset = 0\<rparr>"

definition rp_from_ptr :: "u64 \<Rightarrow> u64 \<Rightarrow> isize" where
  "rp_from_ptr self target = target - self"

definition rp_store :: "u64 \<Rightarrow> u64 \<Rightarrow> relocatable_ptr \<Rightarrow> relocatable_ptr" where
  "rp_store self target p = p\<lparr>rp_offset := rp_from_ptr self target\<rparr>"

definition rp_load :: "u64 \<Rightarrow> relocatable_ptr \<Rightarrow> u64" where
  "rp_load self p = (let off = rp_offset p in if off = 0 then 0 else self + off)"

definition rp_load_mut :: "u64 \<Rightarrow> relocatable_ptr \<Rightarrow> u64" where
  "rp_load_mut self p = rp_load self p"

definition rp_is_null :: "relocatable_ptr \<Rightarrow> bool" where
  "rp_is_null p \<longleftrightarrow> rp_offset p = 0"

definition rp_clear :: "relocatable_ptr \<Rightarrow> relocatable_ptr" where
  "rp_clear p = p\<lparr>rp_offset := 0\<rparr>"

text \<open>C29: a stored pointer survives relocation. The pointer object lives at \<open>seg + at\<close> in the
  process that stores and at \<open>seg' + at\<close> in the one that loads, where \<open>seg\<close> and \<open>seg'\<close> are the
  addresses of the two mappings of the segment; what is loaded is the target's place in the
  loader's mapping. The one exception is a pointer to itself, which reads back as null.\<close>

theorem relocation:
  "rp_load (seg' + at) (rp_store (seg + at) (seg + tgt) p) = (if tgt = at then 0 else seg' + tgt) \<and>
   (rp_is_null (rp_store (seg + at) (seg + tgt) p) \<longleftrightarrow> tgt = at)"
  by (auto simp: rp_load_def rp_store_def rp_from_ptr_def rp_is_null_def Let_def algebra_simps)

lemma rp_clear_null [simp]: "rp_is_null (rp_clear p)" "rp_load self (rp_clear p) = 0"
  by (simp_all add: rp_is_null_def rp_clear_def rp_load_def)

end
