(* ===== verification/Port_Lifetimes.thy ===== *)
theory Port_Lifetimes
  imports Pub_Sub_Safety
begin

text \<open>
  How long the memory behind a sample lives. The segment of a publisher is an \<open>Arc<DataSegment>\<close>,
  unmapped and unlinked when the last reference to it is dropped. References are held by the
  publisher, by its registration in the service's wiring (\<open>PublisherRegistration\<close>, which stays there
  until the service handle goes), by the subscriber's connections, and by the drop closure of a sample
  on loan (\<open>smu_drop_fn\<close>). The drop closure of a received sample captures its channel only
  (\<open>sa_drop_fn\<close>). Here the ports of \<open>Pub_Sub_Safety\<close> can be dropped at any moment and in any order, while
  samples stay with the application.
\<close>

record life =
  l_sys :: ps_sys
  l_service :: "pubsub_shared option"
  l_publisher :: "publisher option"
  l_subscriber :: "subscriber option"
  l_gone :: "nat set"
  l_calls :: "shm_call list"

subsection \<open>References and drops\<close>

definition smu_segments :: "sample_mut \<Rightarrow> nat list" where
  "smu_segments m = (case smu_drop_fn m of None \<Rightarrow> [] | Some (seg, lns) \<Rightarrow> [seg])"

definition segment_refs :: "life \<Rightarrow> nat list" where
  "segment_refs l =
     (case l_service l of None \<Rightarrow> [] | Some sh \<Rightarrow> map pr_segment (ps_publishers sh)) @
     (case l_publisher l of None \<Rightarrow> [] | Some p \<Rightarrow> [pub_segment p]) @
     (case l_subscriber l of None \<Rightarrow> [] | Some u \<Rightarrow> map fst (sub_connections u)) @
     concat (map smu_segments (loaned (l_sys l)))"

text \<open>Dropping the last reference drops the segment: \<open>DataSegment\<close> has no drop of its own, its
  \<open>SharedMemory\<close> unmaps and unlinks.\<close>

fun drop_unreferenced :: "nat list \<Rightarrow> life \<Rightarrow> life option" where
  "drop_unreferenced [] l = Some l"
| "drop_unreferenced (seg # segs) l =
     (if seg \<in> l_gone l \<or> seg \<in> set (segment_refs l) then drop_unreferenced segs l
      else do {
        d \<leftarrow> idx (w_segs (sw (l_sys l))) seg;
        calls \<leftarrow> shm_drop (ds_shm d);
        drop_unreferenced segs (l\<lparr>l_gone := insert seg (l_gone l), l_calls := l_calls l @ calls\<rparr>)
      })"

definition settle :: "life \<Rightarrow> life option" where
  "settle l = drop_unreferenced [0..<length (w_segs (sw (l_sys l)))] l"

subsection \<open>Dereferencing a sample\<close>

definition in_mapping :: "data_segment \<Rightarrow> u64 \<Rightarrow> nat \<Rightarrow> bool" where
  "in_mapping d ptr n \<longleftrightarrow> unat (ptr - shm_ptr (ds_shm d)) + n \<le> unat (shm_size (ds_shm d))"

definition mapped :: "life \<Rightarrow> u64 \<Rightarrow> nat \<Rightarrow> bool" where
  "mapped l ptr n \<longleftrightarrow> n = 0 \<or>
     list_ex (\<lambda>(i, d). i \<notin> l_gone l \<and> in_mapping d ptr n) (enumerate 0 (w_segs (sw (l_sys l))))"

text \<open>\<open>Deref\<close> of the two sample types, read through for \<open>n = size_of::<T>()\<close> bytes. \<open>None\<close> is an access to
  memory that is not mapped.\<close>

definition sa_deref :: "nat \<Rightarrow> life \<Rightarrow> sample \<Rightarrow> u8 list option" where
  "sa_deref n l a =
     (if mapped l (sa_ptr a) n then Some (sa_read a n (sw (l_sys l))) else None)"

definition smu_deref :: "nat \<Rightarrow> life \<Rightarrow> sample_mut \<Rightarrow> u8 list option" where
  "smu_deref n l m =
     (if mapped l (smu_ptr m) n then Some (read_list (smu_ptr m) n (w_mem (sw (l_sys l)))) else None)"

subsection \<open>The steps\<close>

text \<open>The operations of \<open>ps_step\<close>, by the object they need: the publisher, the subscriber, or nothing but a
  sample. \<open>n\<close> is the size of the payload.\<close>

inductive by_publisher :: "publisher \<Rightarrow> ps_sys \<Rightarrow> ps_sys \<Rightarrow> bool" for p where
  bp_loan: "pub_loan p (sw s) = Some (Ok m, w) \<Longrightarrow>
    by_publisher p s (s\<lparr>sw := w, loaned := m # loaned s\<rparr>)"
| bp_loan_refused: "pub_loan p (sw s) = Some (Err e, w) \<Longrightarrow> by_publisher p s (s\<lparr>sw := w\<rparr>)"
| bp_reclaim: "pub_reclaim p (sw s) = Some w \<Longrightarrow> by_publisher p s (s\<lparr>sw := w\<rparr>)"

inductive by_subscriber :: "subscriber \<Rightarrow> ps_sys \<Rightarrow> ps_sys \<Rightarrow> bool" for u where
  bs_receive: "sub_receive u (sw s) = Some (Ok (Some a), w) \<Longrightarrow>
    by_subscriber u s (s\<lparr>sw := w, got := a # got s\<rparr>)"
| bs_receive_none: "sub_receive u (sw s) = Some (Ok None, w) \<Longrightarrow> by_subscriber u s (s\<lparr>sw := w\<rparr>)"

inductive by_sample :: "nat \<Rightarrow> ps_sys \<Rightarrow> ps_sys \<Rightarrow> bool" for n where
  ba_write: "m \<in> set (loaned s) \<Longrightarrow> length bs = n \<Longrightarrow> by_sample n s (s\<lparr>sw := smu_write m bs (sw s)\<rparr>)"
| ba_send: "m \<in> set (loaned s) \<Longrightarrow> smu_send m (sw s) = Some (r, w) \<Longrightarrow>
    by_sample n s (s\<lparr>sw := w, loaned := remove1 m (loaned s),
      sent := (sent s)(smu_offset m := read_list (smu_ptr m) n (w_mem (sw s)))\<rparr>)"
| ba_drop: "m \<in> set (loaned s) \<Longrightarrow> smu_drop m (sw s) = Some w \<Longrightarrow>
    by_sample n s (s\<lparr>sw := w, loaned := remove1 m (loaned s)\<rparr>)"
| ba_release: "a \<in> set (got s) \<Longrightarrow> sa_drop turns a (sw s) = Some (Done w) \<Longrightarrow>
    by_sample n s (s\<lparr>sw := w, got := remove1 a (got s)\<rparr>)"

inductive life_step :: "nat \<Rightarrow> life \<Rightarrow> life \<Rightarrow> bool" for n where
  lf_publisher: "l_publisher l = Some p \<Longrightarrow> by_publisher p (l_sys l) s \<Longrightarrow>
    settle (l\<lparr>l_sys := s\<rparr>) = Some l' \<Longrightarrow> life_step n l l'"
| lf_subscriber: "l_subscriber l = Some u \<Longrightarrow> by_subscriber u (l_sys l) s \<Longrightarrow>
    settle (l\<lparr>l_sys := s\<rparr>) = Some l' \<Longrightarrow> life_step n l l'"
| lf_sample: "by_sample n (l_sys l) s \<Longrightarrow> settle (l\<lparr>l_sys := s\<rparr>) = Some l' \<Longrightarrow> life_step n l l'"
| lf_drop_publisher: "settle (l\<lparr>l_publisher := None\<rparr>) = Some l' \<Longrightarrow> life_step n l l'"
| lf_drop_subscriber: "settle (l\<lparr>l_subscriber := None\<rparr>) = Some l' \<Longrightarrow> life_step n l l'"
| lf_drop_service: "settle (l\<lparr>l_service := None\<rparr>) = Some l' \<Longrightarrow> life_step n l l'"

inductive life_reach :: "nat \<Rightarrow> life \<Rightarrow> life \<Rightarrow> bool" for n l0 where
  life_init: "life_reach n l0 l0"
| life_next: "life_reach n l0 l \<Longrightarrow> life_step n l l' \<Longrightarrow> life_reach n l0 l'"

text \<open>The service of \<open>ps_boot\<close>, with its handle.\<close>

definition life_boot ::
  "nix \<Rightarrow> string \<Rightarrow> node_id \<Rightarrow> node_id \<Rightarrow> pubsub_qos \<Rightarrow> nat \<Rightarrow> memory \<Rightarrow> life option" where
  "life_boot os service n1 n2 qos payload mem = do {
     (r, sh, w) \<leftarrow> pub_create os service n1 qos payload (fresh_shared service qos) (empty_world mem);
     case r of
       Err e \<Rightarrow> None
     | Ok p \<Rightarrow> do {
         (r, w) \<leftarrow> sub_create service n2 qos sh w;
         case r of
           Err e \<Rightarrow> None
         | Ok u \<Rightarrow> Some \<lparr>l_sys = ps_start w, l_service = Some sh, l_publisher = Some p,
                         l_subscriber = Some u, l_gone = {}, l_calls = []\<rparr>
       }
   }"

subsection \<open>The mapping behind the ports\<close>

text \<open>No operation of the ports moves a segment.\<close>

lemma ds_ops_shm:
  "ds_allocate d = Some (r, d') \<Longrightarrow> ds_shm d' = ds_shm d"
  "ds_deallocate a d = Some d' \<Longrightarrow> ds_shm d' = ds_shm d"
  by (auto simp: ds_allocate_def ds_deallocate_def split: bind_splits)

lemma map_ds_shm_update:
  assumes "idx segs i = Some d" and "ds_shm d' = ds_shm d"
  shows "map ds_shm (segs[i := d']) = map ds_shm segs"
  using assms by (auto simp: map_update idx_def list_update_same_conv split: if_splits)

definition mappings :: "world \<Rightarrow> shared_memory list" where
  "mappings w = map ds_shm (w_segs w)"

lemma pub_loan_mappings: "pub_loan p w = Some (r, w') \<Longrightarrow> mappings w' = mappings w"
  by (auto simp: pub_loan_def mappings_def Let_def map_ds_shm_update ds_ops_shm
      split: bind_splits if_splits result.splits)

lemma send_all_mappings: "send_all a chs w = Some (r, w') \<Longrightarrow> mappings w' = mappings w"
  by (induction chs arbitrary: w) (auto simp: mappings_def Let_def split: bind_splits result.splits)

lemma smu_drop_mappings: "smu_drop m w = Some w' \<Longrightarrow> mappings w' = mappings w"
  by (auto simp: smu_drop_def mappings_def map_ds_shm_update ds_ops_shm split: bind_splits option.splits)

lemma sa_drop_mappings: "sa_drop turns a w = Some (Done w') \<Longrightarrow> mappings w' = mappings w"
  by (auto simp: sa_drop_def mappings_def split: bind_splits option.splits spin.splits)

lemma receive_from_mappings: "receive_from conns w = Some (r, w') \<Longrightarrow> mappings w' = mappings w"
  by (induction conns arbitrary: w)
    (auto simp: mappings_def Let_def split: bind_splits result.splits receive_error.splits)

lemma reclaim_chan_mappings: "reclaim_chan turns seg lns ch w = Some w' \<Longrightarrow> mappings w' = mappings w"
  by (induction turns arbitrary: w)
    (auto simp: mappings_def Let_def map_ds_shm_update ds_ops_shm split: bind_splits option.splits)

lemma reclaim_chans_mappings: "reclaim_chans seg lns chs w = Some w' \<Longrightarrow> mappings w' = mappings w"
  by (induction chs arbitrary: w) (auto dest: reclaim_chan_mappings simp del: reclaim_chan.simps split: bind_splits)

lemma ps_step_mappings: "ps_step p u s s' \<Longrightarrow> mappings (sw s') = mappings (sw s)"
  by (induction rule: ps_step.induct)
    (auto simp: smu_write_def smu_send_def sub_receive_def pub_reclaim_def mappings_def [of "_\<lparr>w_mem := _\<rparr>"]
      mappings_def [symmetric] dest: pub_loan_mappings send_all_mappings smu_drop_mappings
      sa_drop_mappings receive_from_mappings reclaim_chans_mappings split: bind_splits)

text \<open>The steps are those of the transition system.\<close>

lemma by_publisher_step: "by_publisher p s s' \<Longrightarrow> ps_step p u s s'"
  by (induction rule: by_publisher.induct) (auto intro: ps_step.intros)

lemma by_subscriber_step: "by_subscriber u s s' \<Longrightarrow> ps_step p u s s'"
  by (induction rule: by_subscriber.induct) (auto intro: ps_step.intros)

lemma by_sample_step: "by_sample (pub_payload p) s s' \<Longrightarrow> ps_step p u s s'"
  by (induction rule: by_sample.induct) (auto intro: ps_step.intros)

lemma ps_step_by:
  "ps_step p u s s' \<Longrightarrow> by_publisher p s s' \<or> by_subscriber u s s' \<or> by_sample (pub_payload p) s s'"
  by (induction rule: ps_step.induct)
    (auto intro: by_publisher.intros by_subscriber.intros by_sample.intros)

lemma by_sample_loaned: "by_sample n s s' \<Longrightarrow> loaned s = [] \<Longrightarrow> loaned s' = []"
  by (induction rule: by_sample.induct) auto

subsection \<open>The invariant\<close>

text \<open>\<open>p\<close>, \<open>u\<close> and \<open>sh\<close> are the objects the service started with, \<open>m\<close> the mapping of the segment.\<close>

definition unreferenced :: "life \<Rightarrow> bool" where
  "unreferenced l \<longleftrightarrow> l_service l = None \<and> l_publisher l = None \<and> l_subscriber l = None \<and>
     loaned (l_sys l) = []"

definition life_shape :: "publisher \<Rightarrow> subscriber \<Rightarrow> pubsub_shared \<Rightarrow> shared_memory \<Rightarrow> life \<Rightarrow> bool" where
  "life_shape p u sh m l \<longleftrightarrow> ps_shape p u \<and> map pr_segment (ps_publishers sh) = [0] \<and>
     shm_ptr m \<noteq> 0 \<and> shm_is_owner m \<and>
     l_service l \<in> {None, Some sh} \<and> l_publisher l \<in> {None, Some p} \<and> l_subscriber l \<in> {None, Some u} \<and>
     mappings (sw (l_sys l)) = [m] \<and> (\<exists>mem d c k. ps_inv p (l_sys l) mem d c k)"

definition life_inv :: "publisher \<Rightarrow> subscriber \<Rightarrow> pubsub_shared \<Rightarrow> shared_memory \<Rightarrow> life \<Rightarrow> bool" where
  "life_inv p u sh m l \<longleftrightarrow> life_shape p u sh m l \<and>
     l_gone l = (if unreferenced l then {0} else {}) \<and>
     l_calls l = (if unreferenced l then [Munmap (shm_ptr m) (shm_size m), ShmUnlink (shm_name m)] else [])"

lemma smu_segments_loaned:
  "ps_inv p s mem d c k \<Longrightarrow> x \<in> set (loaned s) \<Longrightarrow> smu_segments x = [0]"
  using ps_inv_loaned(3) by (simp add: smu_segments_def)

lemma segment_refs_shape:
  assumes "life_shape p u sh m l"
  shows "set (segment_refs l) = (if unreferenced l then {} else {0})"
proof -
  obtain mem d c k where "ps_inv p (l_sys l) mem d c k" using assms by (auto simp: life_shape_def)
  then have "set (concat (map smu_segments (loaned (l_sys l)))) = (if loaned (l_sys l) = [] then {} else {0})"
    using smu_segments_loaned by auto
  moreover have "set (case l_service l of None \<Rightarrow> [] | Some sh \<Rightarrow> map pr_segment (ps_publishers sh)) =
      (if l_service l = None then {} else {0})"
    using assms by (cases "l_service l") (simp_all add: life_shape_def del: set_map)
  moreover have "set (case l_publisher l of None \<Rightarrow> [] | Some p \<Rightarrow> [pub_segment p]) =
      (if l_publisher l = None then {} else {0})"
    using assms by (cases "l_publisher l") (simp_all add: life_shape_def ps_shape_def)
  moreover have "set (case l_subscriber l of None \<Rightarrow> [] | Some u \<Rightarrow> map fst (sub_connections u)) =
      (if l_subscriber l = None then {} else {0})"
    using assms by (cases "l_subscriber l") (simp_all add: life_shape_def ps_shape_def)
  ultimately show ?thesis
    unfolding segment_refs_def set_append by (simp add: unreferenced_def del: set_concat)
qed

lemma life_shape_segs:
  assumes "life_shape p u sh m l"
  obtains d where "w_segs (sw (l_sys l)) = [d]" "ds_shm d = m"
  using assms by (auto simp: life_shape_def mappings_def)

text \<open>After every step the segment is dropped if that step took its last reference.\<close>

lemma settle_inv:
  assumes shape: "life_shape p u sh m l"
    and before: "life_inv p u sh m l \<or> l_gone l = {} \<and> l_calls l = []"
  obtains l' where "settle l = Some l'" "life_inv p u sh m l'"
    "l_sys l' = l_sys l" "l_service l' = l_service l" "l_publisher l' = l_publisher l"
    "l_subscriber l' = l_subscriber l"
proof -
  obtain d where d: "w_segs (sw (l_sys l)) = [d]" "ds_shm d = m" using life_shape_segs [OF shape] .
  note refs = segment_refs_shape [OF shape]
  show ?thesis
  proof (cases "unreferenced l \<and> l_gone l = {}")
    case True
    let ?calls = "[Munmap (shm_ptr m) (shm_size m), ShmUnlink (shm_name m)]"
    let ?l = "l\<lparr>l_gone := {0}, l_calls := ?calls\<rparr>"
    have "life_shape p u sh m ?l" "unreferenced ?l"
      using shape True by (simp_all add: life_shape_def unreferenced_def)
    then have "life_inv p u sh m ?l" by (simp add: life_inv_def)
    moreover have "l_calls l = []" using before True by (auto simp: life_inv_def)
    then have "settle l = Some ?l"
      using refs True d shape by (simp add: settle_def shm_drop_def life_shape_def)
    ultimately show ?thesis using that by simp
  next
    case False
    then have "0 \<in> l_gone l \<or> 0 \<in> set (segment_refs l)"
      using before by (cases "unreferenced l") (auto simp: refs life_inv_def)
    then have "settle l = Some l" by (auto simp: settle_def d(1))
    moreover have "life_inv p u sh m l"
      using False before shape by (cases "unreferenced l") (simp_all add: life_inv_def)
    ultimately show ?thesis using that [of l] by simp
  qed
qed

lemma settle_step:
  assumes inv: "life_inv p u sh m l" and shape: "life_shape p u sh m l1"
    and same: "l_gone l1 = l_gone l" "l_calls l1 = l_calls l" and mono: "unreferenced l \<Longrightarrow> unreferenced l1"
  shows "\<exists>l'. settle l1 = Some l'" and "settle l1 = Some l' \<Longrightarrow> life_inv p u sh m l'"
proof -
  have "life_inv p u sh m l1 \<or> l_gone l1 = {} \<and> l_calls l1 = []"
    using inv shape same mono by (cases "unreferenced l") (auto simp: life_inv_def)
  from settle_inv [OF shape this] obtain l2 where "settle l1 = Some l2" "life_inv p u sh m l2" .
  then show "\<exists>l'. settle l1 = Some l'" and "settle l1 = Some l' \<Longrightarrow> life_inv p u sh m l'" by auto
qed

lemma life_shape_step:
  assumes "life_shape p u sh m l" and "ps_step p u (l_sys l) s"
  shows "life_shape p u sh m (l\<lparr>l_sys := s\<rparr>)"
proof -
  have "ps_shape p u" "\<exists>mem d c k. ps_inv p (l_sys l) mem d c k" using assms(1) by (auto simp: life_shape_def)
  then have "\<exists>mem d c k. ps_inv p s mem d c k" using ps_inv_step [OF assms(2)] by blast
  then show ?thesis using assms(1) ps_step_mappings [OF assms(2)] by (simp add: life_shape_def)
qed

lemma life_inv_step:
  assumes "life_step (pub_payload p) l l'" and inv: "life_inv p u sh m l"
  shows "life_inv p u sh m l'"
proof -
  have shape: "life_shape p u sh m l" using inv by (simp add: life_inv_def)
  then have objs: "l_publisher l \<in> {None, Some p}" "l_subscriber l \<in> {None, Some u}"
    by (simp_all add: life_shape_def)
  from assms(1) show ?thesis
  proof cases
    case (lf_publisher q s)
    then have "ps_step p u (l_sys l) s" using objs by_publisher_step by auto
    from settle_step(2) [OF inv life_shape_step [OF shape this]] show ?thesis
      using lf_publisher by (auto simp: unreferenced_def)
  next
    case (lf_subscriber v s)
    then have "ps_step p u (l_sys l) s" using objs by_subscriber_step by auto
    from settle_step(2) [OF inv life_shape_step [OF shape this]] show ?thesis
      using lf_subscriber by (auto simp: unreferenced_def)
  next
    case (lf_sample s)
    from settle_step(2) [OF inv life_shape_step [OF shape by_sample_step [OF lf_sample(1)]]] show ?thesis
      using lf_sample by_sample_loaned by (auto simp: unreferenced_def)
  next
    case lf_drop_publisher
    then show ?thesis
      using settle_step(2) [OF inv, of "l\<lparr>l_publisher := None\<rparr>"] shape
      by (simp add: life_shape_def unreferenced_def)
  next
    case lf_drop_subscriber
    then show ?thesis
      using settle_step(2) [OF inv, of "l\<lparr>l_subscriber := None\<rparr>"] shape
      by (simp add: life_shape_def unreferenced_def)
  next
    case lf_drop_service
    then show ?thesis
      using settle_step(2) [OF inv, of "l\<lparr>l_service := None\<rparr>"] shape
      by (simp add: life_shape_def unreferenced_def)
  qed
qed

lemma life_reach_inv:
  "life_reach (pub_payload p) l0 l \<Longrightarrow> life_inv p u sh m l0 \<Longrightarrow> life_inv p u sh m l"
  by (induction rule: life_reach.induct) (auto intro: life_inv_step)

subsection \<open>Starting up\<close>

lemma life_boot_D:
  assumes boot: "life_boot os service n1 n2 qos payload mem = Some l"
  obtains p u w sh where "ps_boot os service n1 n2 qos payload mem = Some (p, u, w)"
    "l = \<lparr>l_sys = ps_start w, l_service = Some sh, l_publisher = Some p, l_subscriber = Some u,
       l_gone = {}, l_calls = []\<rparr>"
    "map pr_segment (ps_publishers sh) = [0]"
    "\<forall>m. mappings w = [m] \<longrightarrow> shm_ptr m \<noteq> 0 \<and> shm_is_owner m"
proof -
  let ?size = "max (of_nat payload) 8 :: usize" and ?count = "ucast (buffer_size qos) :: u32"
  obtain r mem' where r: "ds_create os (pub_segment_name service 0 n1) ?size ?count 0 mem = Some (r, mem')"
    using boot
    by (auto simp: life_boot_def pub_create_def fresh_shared_def empty_world_def Let_def
        Option.bind_eq_Some_conv)
  with boot obtain d where "r = Ok d"
    by (cases r) (auto simp: life_boot_def pub_create_def fresh_shared_def empty_world_def Let_def)
  with r have create: "ds_create os (pub_segment_name service 0 n1) ?size ?count 0 mem = Some (Ok d, mem')"
    by simp
  have owner: "shm_ptr (ds_shm d) \<noteq> 0 \<and> shm_is_owner (ds_shm d)"
    using create
    by (auto simp: ds_create_def Let_def split: bind_splits prod.splits result.splits dest: shm_create_OkD(2,3))
  show ?thesis
    by (rule that)
      (use boot create owner in \<open>auto simp: life_boot_def ps_boot_def pub_create_def sub_create_def
         fresh_shared_def empty_world_def mappings_def Let_def\<close>)
qed

lemma life_boot_inv:
  assumes boot: "life_boot os service n1 n2 qos payload mem = Some l" and ok: "ps_params_ok qos payload"
  obtains p u sh m where "life_inv p u sh m l" "pub_payload p = payload"
    "l_service l = Some sh" "l_publisher l = Some p" "l_subscriber l = Some u"
proof -
  obtain p u w sh where b: "ps_boot os service n1 n2 qos payload mem = Some (p, u, w)"
    "l = \<lparr>l_sys = ps_start w, l_service = Some sh, l_publisher = Some p, l_subscriber = Some u,
       l_gone = {}, l_calls = []\<rparr>"
    "map pr_segment (ps_publishers sh) = [0]"
    "\<forall>m. mappings w = [m] \<longrightarrow> shm_ptr m \<noteq> 0 \<and> shm_is_owner m"
    using life_boot_D [OF boot] .
  obtain mem d c where inv: "ps_inv p (ps_start w) mem d c 0" "ps_shape p u" "pub_payload p = payload"
    using ps_boot_inv [OF b(1) ok] by blast
  then have "mappings w = [ds_shm d]" by (simp add: ps_inv_def ps_start_def ps_world_def mappings_def)
  then have "life_inv p u sh (ds_shm d) l"
    using b inv by (auto simp: life_inv_def life_shape_def unreferenced_def ps_start_def)
  then show ?thesis using that b inv by simp
qed

subsection \<open>What a holder of a sample can rely on\<close>

lemma in_mapping_chunk:
  assumes "ds_wf d" and "x \<in> ds_chunks d" and "n \<le> unat (ds_chunk_size d)"
  shows "in_mapping d (ds_resolve_ptr d x) n"
  using ds_chunk_range(2) [OF assms(1,2)] assms(3) by (simp add: in_mapping_def ds_resolve_ptr_def)

lemma mapped_chunk:
  assumes "life_inv p u sh m l" and "ps_inv p (l_sys l) mem d c k" and "x \<in> ds_out d"
  shows "mapped l (ds_resolve_ptr d x) (pub_payload p) \<longleftrightarrow> pub_payload p = 0 \<or> \<not> unreferenced l"
proof -
  have "w_segs (sw (l_sys l)) = [d]" "ds_wf d" "pub_payload p \<le> unat (ds_chunk_size d)"
    using assms(2) by (auto simp: ps_inv_def ps_world_def)
  then show ?thesis
    using in_mapping_chunk ds_out_chunks [OF assms(3)] assms(1) by (auto simp: mapped_def life_inv_def)
qed

text \<open>C6: how long a sample may be used. The publisher, the subscriber and the service
  handle may be dropped at any moment, in any order, with samples outstanding. A sample on
  loan can always be written to and read, since it keeps the segment alive. A received sample reads as
  the bytes it was sent with as long as the service handle, the publisher, the subscriber or any
  sample on loan is still there. Once all of them are gone the segment has been unmapped and
  unlinked, once, and dereferencing a received sample that is still held is an access
  to unmapped memory: it has no reference to the segment of its own.\<close>

theorem sample_lifetime:
  assumes "life_boot os service n1 n2 qos payload mem = Some l0" and "ps_params_ok qos payload"
    and "life_reach payload l0 l"
  shows "\<exists>m. map ds_shm (w_segs (sw (l_sys l))) = [m] \<and>
    (\<forall>x \<in> set (loaned (l_sys l)). smu_deref payload l x =
       Some (read_list (smu_ptr x) payload (w_mem (sw (l_sys l))))) \<and>
    (if l_service l = None \<and> l_publisher l = None \<and> l_subscriber l = None \<and> loaned (l_sys l) = []
     then l_calls l = [Munmap (shm_ptr m) (shm_size m), ShmUnlink (shm_name m)] \<and>
       (0 < payload \<longrightarrow> (\<forall>a \<in> set (got (l_sys l)). sa_deref payload l a = None))
     else l_calls l = [] \<and>
       (\<forall>a \<in> set (got (l_sys l)). sa_deref payload l a = Some (sent (l_sys l) (sa_offset a))))"
proof -
  obtain p u sh m where "life_inv p u sh m l0" and payload: "pub_payload p = payload"
    using life_boot_inv [OF assms(1,2)] .
  then have inv: "life_inv p u sh m l" using life_reach_inv [of p l0 l] assms(3) by simp
  then obtain mem d c k where ps: "ps_inv p (l_sys l) mem d c k"
    by (auto simp: life_inv_def life_shape_def)
  note live = mapped_chunk [OF inv ps, unfolded payload]
  have "smu_deref payload l x = Some (read_list (smu_ptr x) payload (w_mem (sw (l_sys l))))"
    if "x \<in> set (loaned (l_sys l))" for x
  proof -
    have "\<not> unreferenced l" using that by (auto simp: unreferenced_def)
    then show ?thesis using live ps_inv_loaned(1,4) [OF ps that] by (simp add: smu_deref_def)
  qed
  moreover have "sa_deref payload l a =
      (if payload = 0 \<or> \<not> unreferenced l then Some (sent (l_sys l) (sa_offset a)) else None)"
    if "a \<in> set (got (l_sys l))" for a
  proof -
    have "sa_ptr a = ds_resolve_ptr d (sa_offset a)" using ps that by (auto simp: ps_inv_def ps_handles_def)
    then show ?thesis
      using live ps_inv_content(2) [OF ps, of "sa_offset a"] ps_inv_integrity [OF ps] that payload
      by (simp add: sa_deref_def)
  qed
  ultimately show ?thesis
    using inv by (auto simp: life_inv_def life_shape_def mappings_def unreferenced_def)
qed

subsection \<open>A run that ends with a dangling sample\<close>

text \<open>While the service handle is there the system runs as in \<open>Pub_Sub_Safety\<close>.\<close>

lemma settle_alive:
  assumes "life_inv p u sh m l" and "\<not> unreferenced l"
  shows "settle l = Some l"
proof -
  have shape: "life_shape p u sh m l" using assms(1) by (simp add: life_inv_def)
  obtain d where "w_segs (sw (l_sys l)) = [d]" using life_shape_segs [OF shape] .
  then show ?thesis using segment_refs_shape [OF shape] assms(2) by (simp add: settle_def)
qed

lemma life_inv_alive:
  assumes "life_inv p u sh m l" and "life_shape p u sh m l'" and "\<not> unreferenced l" and "\<not> unreferenced l'"
    and "l_gone l' = l_gone l" and "l_calls l' = l_calls l"
  shows "life_inv p u sh m l'" and "settle l' = Some l'"
proof -
  show "life_inv p u sh m l'" using assms by (simp add: life_inv_def)
  then show "settle l' = Some l'" using assms(4) by (rule settle_alive)
qed

lemma life_reach_ports:
  assumes "ps_reach p u w s" and "l_sys l = ps_start w" and inv: "life_inv p u sh m l"
    and all: "l_service l = Some sh" "l_publisher l = Some p" "l_subscriber l = Some u"
  shows "life_reach (pub_payload p) l (l\<lparr>l_sys := s\<rparr>) \<and> life_inv p u sh m (l\<lparr>l_sys := s\<rparr>)"
  using assms(1)
proof (induction rule: ps_reach.induct)
  case ps_init
  then show ?case using life_init [of _ l] inv assms(2) by (metis life.surjective life.update_convs(1))
next
  case (ps_next s s')
  let ?l = "l\<lparr>l_sys := s\<rparr>" and ?l' = "l\<lparr>l_sys := s'\<rparr>"
  have alive: "\<not> unreferenced ?l" "\<not> unreferenced ?l'" using all by (simp_all add: unreferenced_def)
  have "life_shape p u sh m ?l" using ps_next.IH by (simp add: life_inv_def)
  from life_shape_step [OF this, of s'] have shape: "life_shape p u sh m ?l'" using ps_next.hyps(2) by simp
  note l' = life_inv_alive [OF conjunct2 [OF ps_next.IH] shape alive]
  have settled: "settle (?l\<lparr>l_sys := s'\<rparr>) = Some ?l'" using l'(2) by simp
  have "by_publisher p (l_sys ?l) s' \<or> by_subscriber u (l_sys ?l) s' \<or> by_sample (pub_payload p) (l_sys ?l) s'"
    using ps_step_by [OF ps_next.hyps(2)] by simp
  then have "life_step (pub_payload p) ?l ?l'"
    using all lf_publisher [OF _ _ settled] lf_subscriber [OF _ _ settled] lf_sample [OF _ settled] by auto
  then show ?case using ps_next.IH l'(1) life_next by fastforce
qed

lemma life_drop_all:
  assumes inv: "life_inv p u sh m l" and service: "l_service l = Some sh" and quiet: "loaned (l_sys l) = []"
  shows "\<exists>l'. life_reach (pub_payload p) l l' \<and> unreferenced l' \<and> l_sys l' = l_sys l"
proof -
  let ?l1 = "l\<lparr>l_publisher := None\<rparr>" and ?l2 = "l\<lparr>l_publisher := None, l_subscriber := None\<rparr>"
    and ?l3 = "l\<lparr>l_publisher := None, l_subscriber := None, l_service := None\<rparr>"
  have shape: "life_shape p u sh m l" "life_shape p u sh m ?l1" "life_shape p u sh m ?l2" "life_shape p u sh m ?l3"
    using inv by (simp_all add: life_inv_def life_shape_def)
  have alive: "\<not> unreferenced l" "\<not> unreferenced ?l1" "\<not> unreferenced ?l2"
    using service by (simp_all add: unreferenced_def)
  note s1 = life_inv_alive [OF inv shape(2) alive(1,2)]
  note s2 = life_inv_alive [OF inv shape(3) alive(1,3)]
  have "l_gone ?l3 = {} \<and> l_calls ?l3 = []" using inv alive(1) by (simp add: life_inv_def)
  with settle_inv [OF shape(4)] obtain l' where l': "settle ?l3 = Some l'" "l_sys l' = l_sys ?l3"
      "l_service l' = l_service ?l3" "l_publisher l' = l_publisher ?l3" "l_subscriber l' = l_subscriber ?l3"
    by metis
  have "life_step (pub_payload p) l ?l1" using s1(2) by (intro lf_drop_publisher) simp
  moreover have "life_step (pub_payload p) ?l1 ?l2" using s2(2) by (intro lf_drop_subscriber) simp
  moreover have "life_step (pub_payload p) ?l2 l'" using l'(1) by (intro lf_drop_service) simp
  ultimately have "life_reach (pub_payload p) l l'" by (blast intro: life_reach.intros)
  then show ?thesis using l' quiet by (intro exI [of _ l']) (simp add: unreferenced_def)
qed

lemma life_reach_trans: "life_reach n l1 l2 \<Longrightarrow> life_reach n l0 l1 \<Longrightarrow> life_reach n l0 l2"
  by (induction rule: life_reach.induct) (auto intro: life_next)

lemma life_boot_of:
  assumes "ps_boot os service n1 n2 qos payload mem = Some (p, u, w)"
  shows "\<exists>l. life_boot os service n1 n2 qos payload mem = Some l \<and> l_sys l = ps_start w \<and>
    l_publisher l = Some p \<and> l_subscriber l = Some u"
  using assms by (auto simp: ps_boot_def life_boot_def split: bind_splits result.splits)

theorem sample_lifetime_witness:
  "\<exists>l0 l l' a. life_boot nix_ok ''svc'' (NodeId 1) (NodeId 2) pubsub_qos_default 8 (\<lambda>_. 0) = Some l0 \<and>
     life_reach 8 l0 l \<and> a \<in> set (got (l_sys l)) \<and> sa_deref 8 l a = Some (sent (l_sys l) (sa_offset a)) \<and>
     life_reach 8 l0 l' \<and> a \<in> set (got (l_sys l')) \<and> sa_deref 8 l' a = None"
proof -
  obtain p u w s where run:
    "ps_boot nix_ok ''svc'' (NodeId 1) (NodeId 2) pubsub_qos_default 8 (\<lambda>_. 0) = Some (p, u, w)"
    "ps_reach p u w s" "got s \<noteq> []" "loaned s = []"
    using ps_run_default by blast
  obtain l0 where l0: "life_boot nix_ok ''svc'' (NodeId 1) (NodeId 2) pubsub_qos_default 8 (\<lambda>_. 0) = Some l0"
      "l_sys l0 = ps_start w" "l_publisher l0 = Some p" "l_subscriber l0 = Some u"
    using life_boot_of [OF run(1)] by blast
  obtain sh m where inv: "life_inv p u sh m l0" "pub_payload p = 8" "l_service l0 = Some sh"
    using life_boot_inv [OF l0(1) ps_params_default] l0(3,4) by (metis option.inject)
  let ?l = "l0\<lparr>l_sys := s\<rparr>"
  have l: "life_reach 8 l0 ?l" "life_inv p u sh m ?l"
    using life_reach_ports [OF run(2) l0(2) inv(1,3) l0(3,4)] inv(2) by simp_all
  obtain l' where "life_reach 8 ?l l'" and l': "unreferenced l'" "l_sys l' = l_sys ?l"
    using life_drop_all [OF l(2)] inv(2,3) run(4) by auto
  then have reach: "life_reach 8 l0 l'" using l(1) life_reach_trans by blast
  obtain a where a: "a \<in> set (got s)" using run(3) by (cases "got s") auto
  have "sa_deref 8 ?l a = Some (sent s (sa_offset a))"
    using sample_lifetime [OF l0(1) ps_params_default l(1)] a inv(3) by auto
  moreover have "sa_deref 8 l' a = None"
    using sample_lifetime [OF l0(1) ps_params_default reach] a l' by (auto simp: unreferenced_def)
  ultimately show ?thesis
    using l0(1) l(1) reach a l'(2)
    by (intro exI [of _ l0] exI [of _ ?l] exI [of _ l'] exI [of _ a]) simp
qed

end
