(* ===== verification/Seqlock.thy ===== *)
theory Seqlock
  imports Shared_Memory
begin

text \<open>
  The seqlock of the blackboard pattern: \<open>Writer::write\<close> of \<open>port/writer.rs\<close> and \<open>Reader::read\<close> of
  \<open>port/reader.rs\<close>, one atomic access or one byte at a time. One writer and any number of readers
  share a 64-bit sequence counter and \<open>n\<close> bytes of memory at \<open>addr\<close>; the bytes are copied one by one,
  so a reader can see a mixture of two values on the way.

  \<open>writer_issue\<close> says which stores a thread in \<open>write\<close> issues. When they become visible is a question of the
  memory order: in this theory at once and in program order, and the loads of a reader are in
  program order too (sequential consistency). \<open>Seqlock_Order\<close> has the orders that the source asks for, and
  carries what is proved here over to machines that keep the program order. \<open>completed\<close> and \<open>began\<close> record,
  outside the program, the values whose write has finished and, for each reader, how many had when it
  last loaded the counter.
\<close>

subsection \<open>The two methods\<close>

datatype writer_pc =
    WIdle
  | WStart "u8 list"
  | WLoaded "u8 list" u64
  | WBytes "u8 list" u64 nat
  | WDone

datatype reader_pc =
    RIdle
  | RStart
  | RCopy u64 "u8 list"
  | RRet "u8 list option"

record seqlock =
  sl_sequence :: u64
  sl_mem :: memory

text \<open>The \<open>Release\<close> stores of the counter and the plain stores of the bytes; \<open>cur\<close> is the value that the
  \<open>Relaxed\<close> load at the start of \<open>write\<close> returns.\<close>

datatype store = SeqStore u64 | ByteStore nat u8

fun writer_issue :: "u64 \<Rightarrow> writer_pc \<Rightarrow> store list \<times> writer_pc" where
  "writer_issue cur (WStart v) = ([], WLoaded v cur)"
| "writer_issue cur (WLoaded v seq) = ([SeqStore (seq + 1)], WBytes v seq 0)"
| "writer_issue cur (WBytes v seq i) =
     (if i < length v then ([ByteStore i (v ! i)], WBytes v seq (Suc i)) else ([SeqStore (seq + 2)], WDone))"
| "writer_issue cur pc = ([], pc)"

text \<open>A store becomes visible.\<close>

fun commit :: "u64 \<Rightarrow> store \<Rightarrow> seqlock \<Rightarrow> seqlock" where
  "commit addr (SeqStore q) l = l\<lparr>sl_sequence := q\<rparr>"
| "commit addr (ByteStore i b) l = l\<lparr>sl_mem := (sl_mem l)(addr + of_nat i := b)\<rparr>"

definition writer_step :: "u64 \<Rightarrow> seqlock \<Rightarrow> writer_pc \<Rightarrow> seqlock \<times> writer_pc" where
  "writer_step addr l pc = (case writer_issue (sl_sequence l) pc of (sts, pc) \<Rightarrow> (fold (commit addr) sts l, pc))"

lemma writer_step_simps [simp]:
  "writer_step addr l (WStart v) = (l, WLoaded v (sl_sequence l))"
  "writer_step addr l (WLoaded v seq) = (l\<lparr>sl_sequence := seq + 1\<rparr>, WBytes v seq 0)"
  "writer_step addr l (WBytes v seq i) =
     (if i < length v
      then (l\<lparr>sl_mem := (sl_mem l)(addr + of_nat i := v ! i)\<rparr>, WBytes v seq (Suc i))
      else (l\<lparr>sl_sequence := seq + 2\<rparr>, WDone))"
  "writer_step addr l WIdle = (l, WIdle)" "writer_step addr l WDone = (l, WDone)"
  by (simp_all add: writer_step_def)

text \<open>One access of \<open>read\<close>.\<close>

fun reader_step :: "u64 \<Rightarrow> nat \<Rightarrow> seqlock \<Rightarrow> reader_pc \<Rightarrow> reader_pc" where
  "reader_step addr n l RStart =
     (let s1 = sl_sequence l
      in if s1 = 0 then RRet None else if s1 AND 1 \<noteq> 0 then RStart else RCopy s1 [])"
| "reader_step addr n l (RCopy s1 buf) =
     (if length buf < n then RCopy s1 (buf @ [sl_mem l (addr + of_nat (length buf))])
      else if s1 = sl_sequence l then RRet (Some buf) else RStart)"
| "reader_step addr n l pc = pc"

subsection \<open>The system\<close>

record sl_sys =
  lock :: seqlock
  wpc :: writer_pc
  rpc :: "nat \<Rightarrow> reader_pc"
  completed :: "u8 list list"
  began :: "nat \<Rightarrow> nat"

fun writer_log :: "writer_pc \<Rightarrow> writer_pc \<Rightarrow> u8 list list" where
  "writer_log (WBytes v seq i) WDone = [v]"
| "writer_log pc pc' = []"

inductive sl_step :: "u64 \<Rightarrow> nat \<Rightarrow> sl_sys \<Rightarrow> sl_sys \<Rightarrow> bool" for addr n where
  sl_call_write: "wpc s = WIdle \<Longrightarrow> length v = n \<Longrightarrow> sl_step addr n s (s\<lparr>wpc := WStart v\<rparr>)"
| sl_write: "writer_step addr (lock s) (wpc s) = (l, pc) \<Longrightarrow>
    sl_step addr n s (s\<lparr>lock := l, wpc := pc, completed := completed s @ writer_log (wpc s) pc\<rparr>)"
| sl_return_write: "wpc s = WDone \<Longrightarrow> sl_step addr n s (s\<lparr>wpc := WIdle\<rparr>)"
| sl_call_read: "rpc s r = RIdle \<Longrightarrow> sl_step addr n s (s\<lparr>rpc := (rpc s)(r := RStart)\<rparr>)"
| sl_read: "sl_step addr n s (s\<lparr>rpc := (rpc s)(r := reader_step addr n (lock s) (rpc s r)),
    began := (if rpc s r = RStart then (began s)(r := length (completed s)) else began s)\<rparr>)"
| sl_return_read: "rpc s r = RRet x \<Longrightarrow> sl_step addr n s (s\<lparr>rpc := (rpc s)(r := RIdle)\<rparr>)"

text \<open>The counter has 63 bits for the number of writes: a reader is never overtaken by \<open>2 ^ 63\<close> of
  them within one attempt.\<close>

definition sl_window :: "sl_sys \<Rightarrow> bool" where
  "sl_window s \<longleftrightarrow> (\<forall>r s1 buf. rpc s r = RCopy s1 buf \<longrightarrow> length (completed s) < began s r + 2 ^ 63)"

definition sl_init :: "memory \<Rightarrow> sl_sys" where
  "sl_init mem = \<lparr>lock = \<lparr>sl_sequence = 0, sl_mem = mem\<rparr>, wpc = WIdle, rpc = (\<lambda>_. RIdle), completed = [],
     began = (\<lambda>_. 0)\<rparr>"

inductive sl_reach :: "u64 \<Rightarrow> nat \<Rightarrow> memory \<Rightarrow> sl_sys \<Rightarrow> bool" for addr n mem where
  sl_reach_init: "sl_reach addr n mem (sl_init mem)"
| sl_reach_step: "sl_reach addr n mem s \<Longrightarrow> sl_step addr n s s' \<Longrightarrow> sl_window s' \<Longrightarrow> sl_reach addr n mem s'"

subsection \<open>The invariant\<close>

fun mid_write :: "writer_pc \<Rightarrow> bool" where
  "mid_write (WBytes v seq i) = True"
| "mid_write pc = False"

definition current :: "sl_sys \<Rightarrow> nat" where
  "current s = length (completed s)"

fun writer_ok :: "u64 \<Rightarrow> nat \<Rightarrow> sl_sys \<Rightarrow> writer_pc \<Rightarrow> bool" where
  "writer_ok addr n s (WBytes v seq i) \<longleftrightarrow> length v = n \<and> i \<le> n \<and> seq = of_nat (2 * current s) \<and>
     sl_sequence (lock s) = of_nat (2 * current s + 1) \<and>
     take i (read_list addr n (sl_mem (lock s))) = take i v"
| "writer_ok addr n s pc \<longleftrightarrow> sl_sequence (lock s) = of_nat (2 * current s) \<and>
     (0 < current s \<longrightarrow> read_list addr n (sl_mem (lock s)) = completed s ! (current s - 1)) \<and>
     (case pc of WStart v \<Rightarrow> length v = n | WLoaded v seq \<Rightarrow> length v = n \<and> seq = of_nat (2 * current s)
      | _ \<Rightarrow> True)"

fun reader_ok :: "nat \<Rightarrow> sl_sys \<Rightarrow> nat \<Rightarrow> reader_pc \<Rightarrow> bool" where
  "reader_ok n s r (RCopy s1 buf) \<longleftrightarrow> s1 = of_nat (2 * began s r) \<and> 0 < began s r \<and>
     began s r \<le> current s \<and> length buf \<le> n \<and>
     (began s r = current s \<longrightarrow> \<not> mid_write (wpc s) \<longrightarrow>
        buf = take (length buf) (completed s ! (began s r - 1)))"
| "reader_ok n s r (RRet (Some v)) \<longleftrightarrow> 0 < began s r \<and> began s r \<le> current s \<and>
     v = completed s ! (began s r - 1)"
| "reader_ok n s r (RRet None) \<longleftrightarrow> (of_nat (2 * began s r) :: u64) = 0"
| "reader_ok n s r pc \<longleftrightarrow> True"

definition sl_inv :: "u64 \<Rightarrow> nat \<Rightarrow> sl_sys \<Rightarrow> bool" where
  "sl_inv addr n s \<longleftrightarrow> (\<forall>v \<in> set (completed s). length v = n) \<and> writer_ok addr n s (wpc s) \<and>
     (\<forall>r. reader_ok n s r (rpc s r))"

lemma read_list_byte:
  assumes "i < n" and "n \<le> 2 ^ 64"
  shows "read_list addr n (mem(addr + of_nat i := b)) = (read_list addr n mem)[i := b]"
proof (rule nth_equalityI)
  fix j assume "j < length (read_list addr n (mem(addr + of_nat i := b)))"
  then have j: "j < n" by simp
  have "i < 2 ^ LENGTH(64)" "j < 2 ^ LENGTH(64)" using assms j by simp_all
  then have "(of_nat j = (of_nat i :: u64)) = (j = i)" using unat_of_nat_less by metis
  then show "read_list addr n (mem(addr + of_nat i := b)) ! j = (read_list addr n mem)[i := b] ! j"
    using j by (auto simp: read_list_def nth_list_update)
qed simp

lemma seq_odd: "(of_nat (2 * c + 1) :: u64) AND 1 \<noteq> 0"
  by (simp add: and_one_eq flip: even_iff_mod_2_eq_zero)

lemma seq_even: "(of_nat (2 * c) :: u64) AND 1 = 0"
  by (simp add: and_one_eq flip: even_iff_mod_2_eq_zero)

lemma seq_even_odd: "(of_nat (2 * a) :: u64) \<noteq> of_nat (2 * b + 1)"
  using seq_even [of a] seq_odd [of b] by metis

lemma seq_same:
  assumes "(of_nat (2 * a) :: u64) = of_nat (2 * b)" and "a \<le> b" and "b < a + 2 ^ 63"
  shows "a = b"
proof -
  have "2 * b - 2 * a < 2 ^ LENGTH(64)" using assms(2,3) by simp
  then have "2 * a = 2 * b" using of_nat_inj_window [OF assms(1)] assms(2) by simp
  then show ?thesis by simp
qed

lemma sl_inv_init: "sl_inv addr n (sl_init mem)"
  by (simp add: sl_inv_def sl_init_def current_def)

text \<open>A step of the writer that completes nothing and does not touch the bytes of a finished value
  keeps what the readers know.\<close>

lemma reader_ok_write:
  assumes "reader_ok n s r pc" and "began s' = began s" and "completed s' = completed s @ vs"
    and "mid_write (wpc s) \<Longrightarrow> mid_write (wpc s') \<or> vs \<noteq> []"
  shows "reader_ok n s' r pc"
  using assms by (cases pc rule: reader_pc.exhaust; cases "vs = []")
    (auto simp: current_def nth_append split: option.splits elim!: reader_ok.elims)

lemma sl_inv_write:
  assumes inv: "sl_inv addr n s" and n: "n \<le> 2 ^ 64" and step: "writer_step addr (lock s) (wpc s) = (l, pc)"
  shows "sl_inv addr n (s\<lparr>lock := l, wpc := pc, completed := completed s @ writer_log (wpc s) pc\<rparr>)"
    (is "sl_inv addr n ?s'")
proof -
  have readers: "reader_ok n ?s' r (rpc s r)"
    if "mid_write (wpc s) \<Longrightarrow> mid_write pc \<or> writer_log (wpc s) pc \<noteq> []" for r
  proof (rule reader_ok_write)
    show "reader_ok n s r (rpc s r)" using inv by (simp add: sl_inv_def)
  qed (use that in simp_all)
  show ?thesis
  proof (cases "wpc s")
    case (WBytes v seq i)
    then have v: "length v = n" "i \<le> n" "seq = of_nat (2 * current s)"
        "sl_sequence (lock s) = of_nat (2 * current s + 1)"
        "take i (read_list addr n (sl_mem (lock s))) = take i v"
      using inv by (auto simp: sl_inv_def)
    show ?thesis
    proof (cases "i < n")
      case True
      let ?data = "read_list addr n (sl_mem (lock s))"
      have "l = (lock s)\<lparr>sl_mem := (sl_mem (lock s))(addr + of_nat i := v ! i)\<rparr>" "pc = WBytes v seq (Suc i)"
        using step WBytes True v(1) by auto
      moreover have "take (Suc i) (?data[i := v ! i]) = take (Suc i) v"
        using True v(1,5) by (simp add: take_Suc_conv_app_nth take_update_cancel)
      ultimately show ?thesis
        using inv readers WBytes v True read_list_byte [OF True n, of addr "sl_mem (lock s)" "v ! i"]
        by (simp add: sl_inv_def current_def)
    next
      case False
      then have l: "l = (lock s)\<lparr>sl_sequence := seq + 2\<rparr>" "pc = WDone"
        using step WBytes v(1) by auto
      have "read_list addr n (sl_mem (lock s)) = v" using False v by simp
      then show ?thesis
        using inv readers WBytes v l
        by (simp add: sl_inv_def current_def nth_append algebra_simps)
    qed
  qed (use inv step readers in \<open>auto simp: sl_inv_def current_def add.commute\<close>)
qed

text \<open>The counter tells the state of the writer.\<close>

lemma writer_ok_sequence:
  assumes "sl_inv addr n s"
  shows "sl_sequence (lock s) = of_nat (2 * current s + (if mid_write (wpc s) then 1 else 0))"
  using assms by (cases "wpc s") (auto simp: sl_inv_def)

lemma reader_start_ok:
  assumes inv: "sl_inv addr n s" and r: "began s' r = current s" "completed s' = completed s" "wpc s' = wpc s"
  shows "reader_ok n s' r (reader_step addr n (lock s) RStart)"
proof (cases "mid_write (wpc s)")
  case True
  then show ?thesis
    using writer_ok_sequence [OF inv] seq_odd [of "current s"] seq_even_odd [of 0 "current s"] by (simp add: Let_def)
next
  case False
  then have seq: "sl_sequence (lock s) = of_nat (2 * current s)" using writer_ok_sequence [OF inv] by simp
  show ?thesis
  proof (cases "sl_sequence (lock s) = 0")
    case True
    then show ?thesis using seq r by simp
  next
    case nonzero: False
    then have "0 < current s" using seq by (cases "current s") auto
    then show ?thesis using seq nonzero seq_even [of "current s"] r by (simp add: current_def)
  qed
qed

text \<open>One more byte copied while the value is still there.\<close>

lemma reader_byte_ok:
  assumes "length buf < n" and "buf = take (length buf) v" and "read_list addr n mem = v"
  shows "buf @ [mem (addr + of_nat (length buf))] = take (Suc (length buf)) v"
proof -
  have "v ! length buf = mem (addr + of_nat (length buf))" "length buf < length v"
    using assms(1,3) by (auto simp: read_list_def)
  then show ?thesis using assms(2) by (metis take_Suc_conv_app_nth)
qed

lemma reader_copy_ok:
  assumes inv: "sl_inv addr n s" and pc: "rpc s r = RCopy s1 buf" and window: "length (completed s) < began s r + 2 ^ 63"
    and s': "began s' r = began s r" "completed s' = completed s" "wpc s' = wpc s"
  shows "reader_ok n s' r (reader_step addr n (lock s) (RCopy s1 buf))"
proof -
  have "reader_ok n s r (RCopy s1 buf)" using inv pc by (simp add: sl_inv_def flip: pc)
  then have ok: "s1 = of_nat (2 * began s r)" "0 < began s r" "began s r \<le> current s" "length buf \<le> n"
    and good: "began s r = current s \<Longrightarrow> \<not> mid_write (wpc s) \<Longrightarrow>
      buf = take (length buf) (completed s ! (began s r - 1))" by auto
  have data: "read_list addr n (sl_mem (lock s)) = completed s ! (began s r - 1)"
    if "began s r = current s" "\<not> mid_write (wpc s)"
    using inv that ok(2) by (cases "wpc s") (auto simp: sl_inv_def)
  show ?thesis
  proof (cases "length buf < n")
    case True
    then show ?thesis using reader_byte_ok [OF True good data] ok s' by (auto simp: current_def min_def)
  next
    case False
    show ?thesis
    proof (cases "s1 = sl_sequence (lock s)")
      case True
      have idle: "\<not> mid_write (wpc s)"
        using writer_ok_sequence [OF inv] True ok(1) seq_even_odd [of "began s r" "current s"] by (auto split: if_splits)
      then have "began s r = current s"
        using writer_ok_sequence [OF inv] True ok(1,3) window by (intro seq_same) (auto simp: current_def)
      moreover have "length (read_list addr n (sl_mem (lock s))) = n" by simp
      ultimately have "buf = completed s ! (began s r - 1)" using good idle data False ok(4) by simp
      then show ?thesis using ok True False s' by (simp add: current_def)
    qed (use False in simp)
  qed
qed

lemma sl_inv_read:
  assumes inv: "sl_inv addr n s" and window: "sl_window s"
  shows "sl_inv addr n (s\<lparr>rpc := (rpc s)(r := reader_step addr n (lock s) (rpc s r)),
    began := (if rpc s r = RStart then (began s)(r := current s) else began s)\<rparr>)"
    (is "sl_inv addr n ?s'")
proof -
  have w: "writer_ok addr n ?s' (wpc s)"
    using inv by (cases "wpc s") (auto simp: sl_inv_def current_def)
  have other: "reader_ok n ?s' q (rpc s q)" if "q \<noteq> r" for q
    using inv that by (cases "rpc s q" rule: reader_pc.exhaust)
      (auto simp: sl_inv_def current_def split: option.splits elim!: reader_ok.elims dest!: spec [of _ q])
  have "reader_ok n ?s' r (reader_step addr n (lock s) (rpc s r))"
  proof (cases "rpc s r")
    case RStart
    then show ?thesis using reader_start_ok [OF inv, of ?s' r] by simp
  next
    case (RCopy s1 buf)
    then have "length (completed s) < began s r + 2 ^ 63" using window by (auto simp: sl_window_def)
    then show ?thesis using reader_copy_ok [OF inv RCopy, of ?s'] RCopy by simp
  next
    case (RRet x)
    then show ?thesis using inv by (cases x) (auto simp: sl_inv_def current_def dest!: spec [of _ r])
  qed simp
  then show ?thesis using inv w other by (auto simp: sl_inv_def)
qed

lemma sl_inv_quiet:
  assumes "sl_inv addr n s" and "lock s' = lock s" and "completed s' = completed s" and "began s' = began s"
    and "\<not> mid_write (wpc s)" and "\<not> mid_write (wpc s')" and "writer_ok addr n s (wpc s')"
    and "rpc s' = rpc s"
  shows "sl_inv addr n s'"
proof -
  have "writer_ok addr n s' (wpc s')" using assms by (cases "wpc s'") (auto simp: current_def)
  moreover have "reader_ok n s' r (rpc s' r)" for r
    using reader_ok_write [of n s r "rpc s r" s' "[]"] assms by (simp add: sl_inv_def)
  ultimately show ?thesis using assms by (simp add: sl_inv_def)
qed

lemma sl_inv_reader_pc:
  assumes "sl_inv addr n s" and "reader_ok n s r pc"
  shows "sl_inv addr n (s\<lparr>rpc := (rpc s)(r := pc)\<rparr>)" (is "sl_inv addr n ?s'")
proof -
  have "writer_ok addr n ?s' (wpc s)"
    using assms(1) by (cases "wpc s") (auto simp: sl_inv_def current_def)
  moreover have "reader_ok n ?s' q (((rpc s)(r := pc)) q)" for q
    using reader_ok_write [of n s q _ ?s' "[]"] assms by (simp add: sl_inv_def)
  ultimately show ?thesis using assms(1) by (simp add: sl_inv_def)
qed

lemma sl_inv_step:
  assumes "sl_step addr n s s'" and "sl_inv addr n s" and "sl_window s" and "n \<le> 2 ^ 64"
  shows "sl_inv addr n s'"
  using assms
proof (induction rule: sl_step.induct)
  case (sl_call_write s v)
  show ?case
    by (rule sl_inv_quiet [OF sl_call_write.prems(1)]; use sl_call_write in \<open>simp add: sl_inv_def current_def\<close>)
next
  case (sl_write s l pc)
  then show ?case by (intro sl_inv_write)
next
  case (sl_return_write s)
  show ?case
    by (rule sl_inv_quiet [OF sl_return_write.prems(1)]; use sl_return_write in \<open>simp add: sl_inv_def current_def\<close>)
next
  case (sl_call_read s r)
  then show ?case by (intro sl_inv_reader_pc) auto
next
  case (sl_read s r)
  then show ?case using sl_inv_read [of addr n s r] by (simp only: current_def)
next
  case (sl_return_read s r x)
  then show ?case by (intro sl_inv_reader_pc) auto
qed

lemma sl_reach_inv:
  assumes "sl_reach addr n mem s" and "n \<le> 2 ^ 64"
  shows "sl_inv addr n s \<and> sl_window s"
  using assms(1)
proof (induction rule: sl_reach.induct)
  case sl_reach_init
  show ?case using sl_inv_init by (simp add: sl_window_def sl_init_def)
next
  case (sl_reach_step s s')
  then show ?case using sl_inv_step assms(2) by blast
qed

subsection \<open>What a read returns\<close>

text \<open>Under sequential consistency a read that returns a value returns exactly one of the values written, and
  it is the last one whose write had finished when the read loaded the sequence counter for its final
  attempt. (The counter's 63 bits are enough as long as fewer than \<open>2 ^ 63\<close> writes finish during one
  attempt.)\<close>

lemma seqlock_read_sc:
  assumes "sl_reach addr n mem s" and "n \<le> 2 ^ 64" and "rpc s r = RRet (Some v)"
  shows "0 < began s r \<and> began s r \<le> length (completed s) \<and> v = completed s ! (began s r - 1) \<and> length v = n"
proof -
  have inv: "sl_inv addr n s" using sl_reach_inv [OF assms(1,2)] by blast
  then have "reader_ok n s r (rpc s r)" by (simp add: sl_inv_def)
  then have "0 < began s r" "began s r \<le> length (completed s)" "v = completed s ! (began s r - 1)"
    using assms(3) by (simp_all add: current_def)
  moreover from this have "v \<in> set (completed s)" by simp
  ultimately show ?thesis using inv by (auto simp: sl_inv_def)
qed

text \<open>\<open>None\<close> means that nothing has been written, up to the wrap-around of the counter: a read
  returns \<open>None\<close> only if the number of finished writes at its load of the counter was a multiple
  of \<open>2 ^ 63\<close>, which for the first \<open>2 ^ 63\<close> writes means none.\<close>

theorem seqlock_read_none:
  assumes "sl_reach addr n mem s" and "n \<le> 2 ^ 64" and "rpc s r = RRet None"
  shows "2 ^ 63 dvd began s r"
proof -
  have "sl_inv addr n s" using sl_reach_inv [OF assms(1,2)] by blast
  then have "reader_ok n s r (rpc s r)" by (simp add: sl_inv_def)
  then have "(of_nat (2 * began s r) :: u64) = 0" using assms(3) by simp
  then have "2 ^ LENGTH(64) dvd 2 * began s r" by (simp only: word_of_nat_eq_0_iff)
  then show ?thesis by simp
qed

text \<open>Alone, a reader makes progress: once a value is there and no write is under way, a read takes
  \<open>n + 2\<close> steps and returns the bytes in memory.\<close>

lemma reader_copy_run:
  assumes "length buf \<le> n" and "buf = take (length buf) (read_list addr n (sl_mem l))"
  shows "(reader_step addr n l ^^ (n - length buf)) (RCopy s1 buf) = RCopy s1 (read_list addr n (sl_mem l))"
  using assms
proof (induction "n - length buf" arbitrary: buf)
  case 0
  then show ?case by simp
next
  case (Suc k)
  then have less: "length buf < n" by simp
  let ?buf = "buf @ [sl_mem l (addr + of_nat (length buf))]"
  have k: "n - length buf = Suc (n - length ?buf)" using less by simp
  have "read_list addr n (sl_mem l) ! length buf = sl_mem l (addr + of_nat (length buf))"
    using less by (simp add: read_list_def)
  then have "?buf = take (length ?buf) (read_list addr n (sl_mem l))"
    using Suc.prems(2) less by (metis length_append_singleton length_read_list take_Suc_conv_app_nth)
  then have "(reader_step addr n l ^^ (n - length ?buf)) (RCopy s1 ?buf) = RCopy s1 (read_list addr n (sl_mem l))"
    using Suc.hyps(2) less by (intro Suc.hyps(1)) simp_all
  then show ?case unfolding k using less by (simp add: funpow_swap1)
qed

text \<open>A reader that runs while no write is in progress returns, in \<open>n + 2\<close> steps, the value in
  memory; it does not spin.\<close>

theorem seqlock_read_returns:
  assumes "sl_sequence l \<noteq> 0" and "sl_sequence l AND 1 = 0"
  shows "(reader_step addr n l ^^ (n + 2)) RStart = RRet (Some (read_list addr n (sl_mem l)))"
proof -
  let ?v = "read_list addr n (sl_mem l)"
  have "(reader_step addr n l ^^ n) (RCopy (sl_sequence l) []) = RCopy (sl_sequence l) ?v"
    using reader_copy_run [of "[]" n addr l] by simp
  moreover have "reader_step addr n l RStart = RCopy (sl_sequence l) []" using assms by (simp add: Let_def)
  moreover have "(reader_step addr n l ^^ (n + 2)) RStart =
      reader_step addr n l ((reader_step addr n l ^^ n) (reader_step addr n l RStart))"
    by (simp add: funpow_swap1)
  ultimately show ?thesis by simp
qed

theorem seqlock_read_returns_witness:
  "(reader_step 16 2 \<lparr>sl_sequence = 4, sl_mem = (\<lambda>_. 9)\<rparr> ^^ 4) RStart = RRet (Some [9, 9])"
proof -
  have "(reader_step 16 2 \<lparr>sl_sequence = 4, sl_mem = (\<lambda>_. 9)\<rparr> ^^ (2 + 2)) RStart =
      RRet (Some (read_list 16 2 (\<lambda>_. 9)))"
    using seqlock_read_returns [of "\<lparr>sl_sequence = 4, sl_mem = (\<lambda>_. 9)\<rparr>" 2 16] by simp
  moreover have "read_list 16 2 (\<lambda>_. 9) = [9, 9]" by (simp add: read_list_def numeral_2_eq_2)
  ultimately show ?thesis by simp
qed

subsection \<open>A run\<close>

lemma sl_reach_write_read:
  "\<exists>s. sl_reach 16 1 (\<lambda>_. 0) s \<and> rpc s 0 = RRet (Some [5]) \<and> rpc s 1 = RRet None"
proof -
  let ?S = "\<lambda>q b w p p' c k. \<lparr>lock = \<lparr>sl_sequence = q, sl_mem = (\<lambda>_. 0)(16 := b)\<rparr>, wpc = w,
    rpc = (\<lambda>_. RIdle)(0 := p, 1 := p'), completed = c, began = (\<lambda>_. 0)(0 := k)\<rparr>"
  have go: "sl_reach 16 1 (\<lambda>_. 0) s'" if "sl_reach 16 1 (\<lambda>_. 0) s" "sl_step 16 1 s s''" "s'' = s'"
    "sl_window s'" for s s' s''
    using that by (blast intro: sl_reach_step)
  have "sl_reach 16 1 (\<lambda>_. 0) (?S 0 0 WIdle RIdle RIdle [] 0)"
    using sl_reach_init [of 16 1 "\<lambda>_. 0"] by (simp add: sl_init_def fun_upd_idem)
  then have "sl_reach 16 1 (\<lambda>_. 0) (?S 0 0 WIdle RIdle RStart [] 0)"
    by (rule go [OF _ sl_call_read [of _ 1]]) (auto simp: sl_window_def fun_eq_iff)
  then have "sl_reach 16 1 (\<lambda>_. 0) (?S 0 0 WIdle RIdle (RRet None) [] 0)"
    by (rule go [OF _ sl_read [of _ _ _ 1]]) (auto simp: sl_window_def fun_eq_iff)
  then have "sl_reach 16 1 (\<lambda>_. 0) (?S 0 0 (WStart [5]) RIdle (RRet None) [] 0)"
    by (rule go [OF _ sl_call_write [of _ "[5]"]]) (auto simp: sl_window_def fun_eq_iff)
  then have "sl_reach 16 1 (\<lambda>_. 0) (?S 0 0 (WLoaded [5] 0) RIdle (RRet None) [] 0)"
    by (rule go [OF _ sl_write]) (auto simp: sl_window_def fun_eq_iff)
  then have "sl_reach 16 1 (\<lambda>_. 0) (?S 1 0 (WBytes [5] 0 0) RIdle (RRet None) [] 0)"
    by (rule go [OF _ sl_write]) (auto simp: sl_window_def fun_eq_iff)
  then have "sl_reach 16 1 (\<lambda>_. 0) (?S 1 5 (WBytes [5] 0 1) RIdle (RRet None) [] 0)"
    by (rule go [OF _ sl_write]) (auto simp: sl_window_def fun_eq_iff)
  then have "sl_reach 16 1 (\<lambda>_. 0) (?S 2 5 WDone RIdle (RRet None) [[5]] 0)"
    by (rule go [OF _ sl_write]) (auto simp: sl_window_def fun_eq_iff)
  then have "sl_reach 16 1 (\<lambda>_. 0) (?S 2 5 WDone RStart (RRet None) [[5]] 0)"
    by (rule go [OF _ sl_call_read [of _ 0]]) (auto simp: sl_window_def fun_eq_iff)
  then have "sl_reach 16 1 (\<lambda>_. 0) (?S 2 5 WDone (RCopy 2 []) (RRet None) [[5]] 1)"
    by (rule go [OF _ sl_read [of _ _ _ 0]]) (auto simp: sl_window_def fun_eq_iff)
  then have "sl_reach 16 1 (\<lambda>_. 0) (?S 2 5 WDone (RCopy 2 [5]) (RRet None) [[5]] 1)"
    by (rule go [OF _ sl_read [of _ _ _ 0]]) (auto simp: sl_window_def fun_eq_iff)
  then have "sl_reach 16 1 (\<lambda>_. 0) (?S 2 5 WDone (RRet (Some [5])) (RRet None) [[5]] 1)"
    by (rule go [OF _ sl_read [of _ _ _ 0]]) (auto simp: sl_window_def fun_eq_iff)
  then show ?thesis by (intro exI conjI) (assumption, simp_all)
qed

theorem seqlock_read_none_witness:
  "\<exists>s. sl_reach 16 1 (\<lambda>_. 0) s \<and> rpc s 1 = RRet None \<and> 2 ^ 63 dvd began s 1"
proof -
  obtain s where s: "sl_reach 16 1 (\<lambda>_. 0) s" "rpc s 1 = RRet None" using sl_reach_write_read by blast
  show ?thesis using s seqlock_read_none [OF s(1) _ s(2)] by auto
qed

end
