(* ===== verification/Seqlock_Limits.thy ===== *)
theory Seqlock_Limits
  imports Seqlock
begin

text \<open>
  The consistency of the seqlock rests on a single thread in \<open>Writer::write\<close>, which the code does not
  enforce: \<open>write\<close> takes \<open>&self\<close> and a \<open>Writer\<close> can be shared between threads, so two calls may overlap. Then
  a reader can return a mixture of two values, even when all accesses are sequentially consistent; such
  runs exist on every machine.
\<close>

subsection \<open>Two threads in one writer\<close>

record mw_sys =
  mw_lock :: seqlock
  mw_wpc :: "nat \<Rightarrow> writer_pc"
  mw_rpc :: reader_pc

inductive mw_step :: "u64 \<Rightarrow> nat \<Rightarrow> mw_sys \<Rightarrow> mw_sys \<Rightarrow> bool" for addr n where
  mw_call_write: "mw_wpc s t = WIdle \<Longrightarrow> length v = n \<Longrightarrow>
    mw_step addr n s (s\<lparr>mw_wpc := (mw_wpc s)(t := WStart v)\<rparr>)"
| mw_write: "writer_step addr (mw_lock s) (mw_wpc s t) = (l, pc) \<Longrightarrow>
    mw_step addr n s (s\<lparr>mw_lock := l, mw_wpc := (mw_wpc s)(t := pc)\<rparr>)"
| mw_return_write: "mw_wpc s t = WDone \<Longrightarrow> mw_step addr n s (s\<lparr>mw_wpc := (mw_wpc s)(t := WIdle)\<rparr>)"
| mw_call_read: "mw_rpc s = RIdle \<Longrightarrow> mw_step addr n s (s\<lparr>mw_rpc := RStart\<rparr>)"
| mw_read: "mw_step addr n s (s\<lparr>mw_rpc := reader_step addr n (mw_lock s) (mw_rpc s)\<rparr>)"
| mw_return_read: "mw_rpc s = RRet x \<Longrightarrow> mw_step addr n s (s\<lparr>mw_rpc := RIdle\<rparr>)"

definition mw_init :: "memory \<Rightarrow> mw_sys" where
  "mw_init mem = \<lparr>mw_lock = \<lparr>sl_sequence = 0, sl_mem = mem\<rparr>, mw_wpc = (\<lambda>_. WIdle), mw_rpc = RIdle\<rparr>"

subsection \<open>Storing the bytes of a value, and reading them back\<close>

fun put_bytes :: "u64 \<Rightarrow> u8 list \<Rightarrow> nat \<Rightarrow> nat \<Rightarrow> memory \<Rightarrow> memory" where
  "put_bytes addr v i 0 mem = mem"
| "put_bytes addr v i (Suc k) mem = put_bytes addr v (Suc i) k (mem(addr + of_nat i := v ! i))"

lemma read_put_bytes:
  assumes "i + k \<le> n" and "n \<le> 2 ^ 64" and "length v = n"
  shows "read_list addr n (put_bytes addr v i k mem) =
    take i (read_list addr n mem) @ take k (drop i v) @ drop (i + k) (read_list addr n mem)"
  using assms(1)
proof (induction k arbitrary: i mem)
  case (Suc k)
  have i: "i < n" using Suc.prems by simp
  let ?r = "read_list addr n mem"
  have r: "read_list addr n (mem(addr + of_nat i := v ! i)) = ?r[i := v ! i]"
    using read_list_byte [OF i assms(2)] .
  have "take (Suc i) (?r[i := v ! i]) = take i ?r @ [v ! i]" using i by (simp add: take_Suc_conv_app_nth)
  moreover have "drop (Suc i + k) (?r[i := v ! i]) = drop (i + Suc k) ?r" by simp
  moreover have "take (Suc k) (drop i v) = v ! i # take k (drop (Suc i) v)"
    using i assms(3) by (simp add: Cons_nth_drop_Suc [symmetric])
  ultimately show ?case using Suc.IH [of "Suc i"] Suc.prems r by simp
qed simp

lemma rtranclp_funpow:
  assumes "\<And>x. R (f x) (f (g x))"
  shows "R\<^sup>*\<^sup>* (f x) (f ((g ^^ k) x))"
  by (induction k) (auto intro: rtranclp.rtrancl_into_rtrancl assms)

text \<open>A system that stores one byte of \<open>v\<close> per step stores any number of them.\<close>

lemma rtranclp_put_bytes:
  assumes step: "\<And>mem i. i < length v \<Longrightarrow> R (f mem i) (f (mem(addr + of_nat i := v ! i)) (Suc i))"
    and "i + k \<le> length v"
  shows "R\<^sup>*\<^sup>* (f mem i) (f (put_bytes addr v i k mem) (i + k))"
  using assms(2)
proof (induction k arbitrary: i mem)
  case (Suc k)
  then have i: "i < length v" "Suc i + k \<le> length v" by simp_all
  have "R\<^sup>*\<^sup>* (f (mem(addr + of_nat i := v ! i)) (Suc i)) (f (put_bytes addr v i (Suc k) mem) (i + Suc k))"
    using Suc.IH [of "Suc i" "mem(addr + of_nat i := v ! i)", OF i(2)]
    by (simp only: put_bytes.simps add_Suc add_Suc_right)
  with step [OF i(1)] show ?case by (rule converse_rtranclp_into_rtranclp)
qed simp

lemma mw_read_value:
  assumes "mw_rpc s = RIdle" and "sl_sequence (mw_lock s) = 2"
  shows "(mw_step addr n)\<^sup>*\<^sup>* s (s\<lparr>mw_rpc := RRet (Some (read_list addr n (sl_mem (mw_lock s))))\<rparr>)"
proof -
  let ?f = "\<lambda>pc. s\<lparr>mw_rpc := pc\<rparr>"
  have "mw_step addr n (?f pc) (?f (reader_step addr n (mw_lock s) pc))" for pc
    using mw_read [where s = "?f pc"] by simp
  then have "(mw_step addr n)\<^sup>*\<^sup>* (?f RStart) (?f ((reader_step addr n (mw_lock s) ^^ (n + 2)) RStart))"
    by (rule rtranclp_funpow [where f = ?f])
  moreover have "mw_step addr n s (?f RStart)" using assms(1) by (rule mw_call_read)
  moreover have "(reader_step addr n (mw_lock s) ^^ (n + 2)) RStart =
      RRet (Some (read_list addr n (sl_mem (mw_lock s))))"
    using assms(2) by (intro seqlock_read_returns) simp_all
  ultimately show ?thesis by (metis converse_rtranclp_into_rtranclp)
qed

text \<open>The states of the runs below: the counter, the memory, the two threads, and an idle reader.\<close>

abbreviation mw_at :: "u64 \<Rightarrow> memory \<Rightarrow> writer_pc \<Rightarrow> writer_pc \<Rightarrow> mw_sys" where
  "mw_at q mem a b \<equiv> \<lparr>mw_lock = \<lparr>sl_sequence = q, sl_mem = mem\<rparr>, mw_wpc = (\<lambda>_. WIdle)(0 := a, Suc 0 := b),
     mw_rpc = RIdle\<rparr>"

lemma mw_at_call:
  "length v = n \<Longrightarrow> mw_step addr n (mw_at q mem WIdle b) (mw_at q mem (WStart v) b)"
  "length v = n \<Longrightarrow> mw_step addr n (mw_at q mem a WIdle) (mw_at q mem a (WStart v))"
  using mw_call_write [where s = "mw_at q mem WIdle b" and t = 0 and v = v]
    mw_call_write [where s = "mw_at q mem a WIdle" and t = "Suc 0" and v = v]
  by (simp_all add: fun_upd_twist)

lemma mw_at_write:
  "writer_step addr \<lparr>sl_sequence = q, sl_mem = mem\<rparr> a = (\<lparr>sl_sequence = q', sl_mem = mem'\<rparr>, a') \<Longrightarrow>
     mw_step addr n (mw_at q mem a b) (mw_at q' mem' a' b)"
  "writer_step addr \<lparr>sl_sequence = q, sl_mem = mem\<rparr> b = (\<lparr>sl_sequence = q', sl_mem = mem'\<rparr>, b') \<Longrightarrow>
     mw_step addr n (mw_at q mem a b) (mw_at q' mem' a b')"
  using mw_write [where s = "mw_at q mem a b" and t = 0] mw_write [where s = "mw_at q mem a b" and t = "Suc 0"]
  by (simp_all add: fun_upd_twist)

lemma mw_at_bytes:
  assumes "i + k \<le> length v"
  shows "(mw_step addr n)\<^sup>*\<^sup>* (mw_at q mem (WBytes v s i) b) (mw_at q (put_bytes addr v i k mem) (WBytes v s (i + k)) b)"
    and "(mw_step addr n)\<^sup>*\<^sup>* (mw_at q mem a (WBytes v s i)) (mw_at q (put_bytes addr v i k mem) a (WBytes v s (i + k)))"
  using assms
  by (intro rtranclp_put_bytes [where f = "\<lambda>mem i. mw_at q mem (WBytes v s i) b"]
      rtranclp_put_bytes [where f = "\<lambda>mem i. mw_at q mem a (WBytes v s i)"] mw_at_write; simp)+

text \<open>C35: what the comment \<open>we are the sole writer\<close> is worth. Two threads that call \<open>write\<close> on the
  same \<open>Writer\<close> at the same time, which safe code may do, can leave the first \<open>k\<close> bytes of one value and
  the rest of the other, for every \<open>k\<close>, under an even counter: a reader that comes after both calls have
  returned takes the mixture for a consistent value.\<close>

theorem two_writers_torn:
  assumes "length v1 = n" and "length v2 = n" and "n \<le> 2 ^ 64" and "k \<le> n"
  shows "\<exists>s. (mw_step addr n)\<^sup>*\<^sup>* (mw_init mem) s \<and> mw_wpc s 0 = WDone \<and> mw_wpc s 1 = WDone \<and>
    mw_rpc s = RRet (Some (take k v2 @ drop k v1))"
proof -
  let ?R = "mw_step addr n"
  let ?m1 = "put_bytes addr v1 0 k mem"
  let ?m2 = "put_bytes addr v2 0 n ?m1"
  let ?m3 = "put_bytes addr v1 k (n - k) ?m2"
  note step = rtranclp.rtrancl_into_rtrancl [where r = ?R] and steps = rtranclp_trans [where r = ?R]
  have "mw_init mem = mw_at 0 mem WIdle WIdle" by (simp add: mw_init_def fun_eq_iff)
  then have "?R\<^sup>*\<^sup>* (mw_init mem) (mw_at 0 mem WIdle WIdle)" by (simp only: rtranclp.rtrancl_refl)
  from step [OF this mw_at_call(1) [OF assms(1)]] have "?R\<^sup>*\<^sup>* (mw_init mem) (mw_at 0 mem (WStart v1) WIdle)" .
  from step [OF this mw_at_call(2) [OF assms(2)]] have "?R\<^sup>*\<^sup>* (mw_init mem) (mw_at 0 mem (WStart v1) (WStart v2))" .
  then have "?R\<^sup>*\<^sup>* (mw_init mem) (mw_at 0 mem (WLoaded v1 0) (WStart v2))"
    by (rule step [OF _ mw_at_write(1)]) simp
  then have "?R\<^sup>*\<^sup>* (mw_init mem) (mw_at 0 mem (WLoaded v1 0) (WLoaded v2 0))"
    by (rule step [OF _ mw_at_write(2)]) simp
  then have "?R\<^sup>*\<^sup>* (mw_init mem) (mw_at 1 mem (WBytes v1 0 0) (WLoaded v2 0))"
    by (rule step [OF _ mw_at_write(1)]) simp
  then have "?R\<^sup>*\<^sup>* (mw_init mem) (mw_at 1 mem (WBytes v1 0 0) (WBytes v2 0 0))"
    by (rule step [OF _ mw_at_write(2)]) simp
  then have "?R\<^sup>*\<^sup>* (mw_init mem) (mw_at 1 ?m1 (WBytes v1 0 k) (WBytes v2 0 0))"
    by (rule steps) (use mw_at_bytes(1) [of 0 k v1] assms in simp)
  then have "?R\<^sup>*\<^sup>* (mw_init mem) (mw_at 1 ?m2 (WBytes v1 0 k) (WBytes v2 0 n))"
    by (rule steps) (use mw_at_bytes(2) [of 0 n v2] assms in simp)
  then have "?R\<^sup>*\<^sup>* (mw_init mem) (mw_at 1 ?m3 (WBytes v1 0 n) (WBytes v2 0 n))"
    by (rule steps) (use mw_at_bytes(1) [of k "n - k" v1] assms in simp)
  then have "?R\<^sup>*\<^sup>* (mw_init mem) (mw_at 2 ?m3 WDone (WBytes v2 0 n))"
    by (rule step [OF _ mw_at_write(1)]) (use assms in simp)
  then have "?R\<^sup>*\<^sup>* (mw_init mem) (mw_at 2 ?m3 WDone WDone)"
    by (rule step [OF _ mw_at_write(2)]) (use assms in simp)
  then have "?R\<^sup>*\<^sup>* (mw_init mem) ((mw_at 2 ?m3 WDone WDone)\<lparr>mw_rpc := RRet (Some (read_list addr n ?m3))\<rparr>)"
    by (rule steps) (use mw_read_value [of "mw_at 2 ?m3 WDone WDone"] in simp)
  moreover have "read_list addr n ?m3 = take k v2 @ drop k v1"
  proof -
    have "read_list addr n ?m2 = v2" using read_put_bytes [of 0 n n v2] assms by simp
    then show ?thesis using read_put_bytes [of k "n - k" n v1 addr ?m2] assms by simp
  qed
  ultimately show ?thesis by (intro exI conjI) (assumption, simp_all)
qed

theorem two_writers_torn_witness:
  "\<exists>s. (mw_step 16 2)\<^sup>*\<^sup>* (mw_init (\<lambda>_. 0)) s \<and> mw_rpc s = RRet (Some [2, 1])"
  using two_writers_torn [of "[1, 1]" 2 "[2, 2]" 1 16 "\<lambda>_. 0"] by auto

end
