(* ===== verification/Seqlock_Order.thy ===== *)
theory Seqlock_Order
  imports Seqlock_Limits
begin

text \<open>
  The seqlock under the memory orders that the source asks for. The stores of \<open>Writer::write\<close> wait in a
  buffer until they become visible to other threads, and a reader may perform its loads out of
  program order, as far as \<open>Release\<close> and \<open>Acquire\<close> allow: a \<open>Release\<close> store of the counter becomes visible
  only after all stores before it, but later stores of bytes may overtake it; the first \<open>Acquire\<close> load of
  \<open>read\<close> comes before its other loads, but the second one may come before the loads of the bytes. A
  machine can be stricter than that: x86-64 keeps the order of a thread's stores and the order of its loads.

  \<open>mo_calls\<close> are the values given to \<open>write\<close>, in order, \<open>mo_done\<close> is the number of writes whose last store
  is visible, and \<open>mo_began\<close> what it was when a reader last loaded the counter for the first time.
\<close>

subsection \<open>The machine\<close>

record machine =
  stores_in_order :: bool
  loads_in_order :: bool

text \<open>\<open>before\<close> are the stores issued earlier and not visible yet. A byte stays in order with other stores to
  the same byte on every machine.\<close>

fun may_commit :: "machine \<Rightarrow> store list \<Rightarrow> store \<Rightarrow> bool" where
  "may_commit m before (SeqStore q) \<longleftrightarrow> before = []"
| "may_commit m before (ByteStore i b) \<longleftrightarrow>
     (if stores_in_order m then before = [] else \<forall>c. ByteStore i c \<notin> set before)"

text \<open>What the writer's own thread reads from the counter: its newest store.\<close>

fun newest_seq :: "store list \<Rightarrow> u64 \<Rightarrow> u64" where
  "newest_seq [] q = q"
| "newest_seq (SeqStore q' # sts) q = newest_seq sts q'"
| "newest_seq (ByteStore i b # sts) q = newest_seq sts q"

subsection \<open>A reader that performs its loads in some order\<close>

text \<open>\<open>QCopy s1 buf s2\<close> has loaded \<open>s1\<close>, the bytes of \<open>buf\<close> that are there, and perhaps \<open>s2\<close>.\<close>

datatype load = LoadSeq | LoadByte nat

datatype reader_loads =
    QIdle
  | QStart
  | QCopy u64 "u8 option list" "u64 option"
  | QRet "u8 list option"

fun may_load :: "machine \<Rightarrow> reader_loads \<Rightarrow> load \<Rightarrow> bool" where
  "may_load m QStart LoadSeq \<longleftrightarrow> True"
| "may_load m (QCopy s1 buf s2) LoadSeq \<longleftrightarrow> s2 = None \<and> (loads_in_order m \<longrightarrow> None \<notin> set buf)"
| "may_load m (QCopy s1 buf s2) (LoadByte i) \<longleftrightarrow> i < length buf \<and> buf ! i = None \<and>
     (loads_in_order m \<longrightarrow> s2 = None \<and> None \<notin> set (take i buf))"
| "may_load m pc a \<longleftrightarrow> False"

text \<open>When everything has been loaded the two values of the counter are compared.\<close>

fun reader_decide :: "reader_loads \<Rightarrow> reader_loads" where
  "reader_decide (QCopy s1 buf (Some s2)) =
     (if None \<in> set buf then QCopy s1 buf (Some s2)
      else if s1 = s2 then QRet (Some (map the buf)) else QStart)"
| "reader_decide pc = pc"

fun reader_load :: "u64 \<Rightarrow> nat \<Rightarrow> seqlock \<Rightarrow> load \<Rightarrow> reader_loads \<Rightarrow> reader_loads" where
  "reader_load addr n l LoadSeq QStart =
     (let s1 = sl_sequence l
      in if s1 = 0 then QRet None else if s1 AND 1 \<noteq> 0 then QStart else QCopy s1 (replicate n None) None)"
| "reader_load addr n l LoadSeq (QCopy s1 buf s2) = reader_decide (QCopy s1 buf (Some (sl_sequence l)))"
| "reader_load addr n l (LoadByte i) (QCopy s1 buf s2) =
     reader_decide (QCopy s1 (buf[i := Some (sl_mem l (addr + of_nat i))]) s2)"
| "reader_load addr n l a pc = pc"

subsection \<open>The system\<close>

record mo_sys =
  mo_lock :: seqlock
  mo_pending :: "store list"
  mo_wpc :: writer_pc
  mo_rpc :: "nat \<Rightarrow> reader_loads"
  mo_calls :: "u8 list list"
  mo_done :: nat
  mo_began :: "nat \<Rightarrow> nat"

fun closes :: "store \<Rightarrow> nat" where
  "closes (SeqStore q) = (if q AND 1 = 0 then 1 else 0)"
| "closes (ByteStore i b) = 0"

inductive mo_step :: "machine \<Rightarrow> u64 \<Rightarrow> nat \<Rightarrow> mo_sys \<Rightarrow> mo_sys \<Rightarrow> bool" for m addr n where
  mo_call_write: "mo_wpc s = WIdle \<Longrightarrow> length v = n \<Longrightarrow>
    mo_step m addr n s (s\<lparr>mo_wpc := WStart v, mo_calls := mo_calls s @ [v]\<rparr>)"
| mo_issue: "writer_issue (newest_seq (mo_pending s) (sl_sequence (mo_lock s))) (mo_wpc s) = (sts, pc) \<Longrightarrow>
    mo_step m addr n s (s\<lparr>mo_pending := mo_pending s @ sts, mo_wpc := pc\<rparr>)"
| mo_return_write: "mo_wpc s = WDone \<Longrightarrow> mo_step m addr n s (s\<lparr>mo_wpc := WIdle\<rparr>)"
| mo_commit: "mo_pending s = before @ x # rest \<Longrightarrow> may_commit m before x \<Longrightarrow>
    mo_step m addr n s (s\<lparr>mo_lock := commit addr x (mo_lock s), mo_pending := before @ rest,
      mo_done := mo_done s + closes x\<rparr>)"
| mo_call_read: "mo_rpc s r = QIdle \<Longrightarrow> mo_step m addr n s (s\<lparr>mo_rpc := (mo_rpc s)(r := QStart)\<rparr>)"
| mo_load: "may_load m (mo_rpc s r) a \<Longrightarrow>
    mo_step m addr n s (s\<lparr>mo_rpc := (mo_rpc s)(r := reader_load addr n (mo_lock s) a (mo_rpc s r)),
      mo_began := (if mo_rpc s r = QStart then (mo_began s)(r := mo_done s) else mo_began s)\<rparr>)"
| mo_return_read: "mo_rpc s r = QRet x \<Longrightarrow> mo_step m addr n s (s\<lparr>mo_rpc := (mo_rpc s)(r := QIdle)\<rparr>)"

definition mo_window :: "mo_sys \<Rightarrow> bool" where
  "mo_window s \<longleftrightarrow> (\<forall>r s1 buf s2. mo_rpc s r = QCopy s1 buf s2 \<longrightarrow> mo_done s < mo_began s r + 2 ^ 63)"

definition mo_init :: "memory \<Rightarrow> mo_sys" where
  "mo_init mem = \<lparr>mo_lock = \<lparr>sl_sequence = 0, sl_mem = mem\<rparr>, mo_pending = [], mo_wpc = WIdle, mo_rpc = (\<lambda>_. QIdle),
     mo_calls = [], mo_done = 0, mo_began = (\<lambda>_. 0)\<rparr>"

inductive mo_reach :: "machine \<Rightarrow> u64 \<Rightarrow> nat \<Rightarrow> memory \<Rightarrow> mo_sys \<Rightarrow> bool" for m addr n mem where
  mo_reach_init: "mo_reach m addr n mem (mo_init mem)"
| mo_reach_step: "mo_reach m addr n mem s \<Longrightarrow> mo_step m addr n s s' \<Longrightarrow> mo_window s' \<Longrightarrow> mo_reach m addr n mem s'"

subsection \<open>In program order: a sequentially consistent run alongside\<close>

text \<open>The stores of one call, and of the calls to come.\<close>

definition byte_stores :: "u8 list \<Rightarrow> nat \<Rightarrow> store list" where
  "byte_stores v i = map (\<lambda>i. ByteStore i (v ! i)) [i..<length v]"

lemma byte_stores_Cons: "i < length v \<Longrightarrow> byte_stores v i = ByteStore i (v ! i) # byte_stores v (Suc i)"
  by (simp add: byte_stores_def upt_conv_Cons)

lemma byte_stores_Nil: "\<not> i < length v \<Longrightarrow> byte_stores v i = []"
  by (simp add: byte_stores_def)

definition write_stores :: "u8 list \<Rightarrow> u64 \<Rightarrow> store list" where
  "write_stores v q = SeqStore (q + 1) # byte_stores v 0 @ [SeqStore (q + 2)]"

fun all_stores :: "u64 \<Rightarrow> u8 list list \<Rightarrow> store list" where
  "all_stores q [] = []"
| "all_stores q (v # vs) = write_stores v q @ all_stores (q + 2) vs"

text \<open>The stores that a writer has still to issue, after \<open>k\<close> calls with the one under way.\<close>

fun to_issue :: "nat \<Rightarrow> writer_pc \<Rightarrow> store list" where
  "to_issue k (WStart v) = write_stores v (of_nat (2 * (k - 1)))"
| "to_issue k (WLoaded v seq) = write_stores v seq"
| "to_issue k (WBytes v seq i) = byte_stores v i @ [SeqStore (seq + 2)]"
| "to_issue k pc = []"

text \<open>What the writer's thread knows of the counter.\<close>

fun seq_known :: "nat \<Rightarrow> u64 \<Rightarrow> writer_pc \<Rightarrow> bool" where
  "seq_known k q (WStart v) \<longleftrightarrow> 0 < k \<and> q = of_nat (2 * (k - 1))"
| "seq_known k q (WLoaded v seq) \<longleftrightarrow> 0 < k \<and> seq = of_nat (2 * (k - 1))"
| "seq_known k q (WBytes v seq i) \<longleftrightarrow> 0 < k \<and> seq = of_nat (2 * (k - 1))"
| "seq_known k q pc \<longleftrightarrow> q = of_nat (2 * k)"

fun in_order :: "nat \<Rightarrow> reader_pc \<Rightarrow> reader_loads" where
  "in_order n RIdle = QIdle"
| "in_order n RStart = QStart"
| "in_order n (RCopy s1 buf) = QCopy s1 (map Some buf @ replicate (n - length buf) None) None"
| "in_order n (RRet x) = QRet x"

text \<open>The value being written in the sequentially consistent run.\<close>

fun under_way :: "writer_pc \<Rightarrow> u8 list list" where
  "under_way (WBytes v seq i) = [v]"
| "under_way pc = []"

text \<open>The stores not yet visible, issued or to come.\<close>

definition writer_ahead :: "mo_sys \<Rightarrow> store list \<Rightarrow> bool" where
  "writer_ahead s stream \<longleftrightarrow> mo_pending s @ to_issue (length (mo_calls s)) (mo_wpc s) = stream \<and>
     seq_known (length (mo_calls s)) (newest_seq (mo_pending s) (sl_sequence (mo_lock s))) (mo_wpc s)"

definition mo_sim :: "nat \<Rightarrow> mo_sys \<Rightarrow> sl_sys \<Rightarrow> u8 list list \<Rightarrow> bool" where
  "mo_sim n s t vs \<longleftrightarrow> lock t = mo_lock s \<and> mo_rpc s = in_order n \<circ> rpc t \<and> began t = mo_began s \<and>
     mo_done s = length (completed t) \<and> (wpc t = WIdle \<or> mid_write (wpc t)) \<and>
     mo_calls s = completed t @ under_way (wpc t) @ vs \<and> (\<forall>v \<in> set vs. length v = n) \<and>
     writer_ahead s (to_issue 0 (wpc t) @ all_stores (of_nat (2 * length (completed t @ under_way (wpc t)))) vs)"

lemma all_stores_snoc: "all_stores q (vs @ [v]) = all_stores q vs @ write_stores v (q + of_nat (2 * length vs))"
  by (induction vs arbitrary: q) (simp_all add: algebra_simps)

lemma newest_seq_append: "newest_seq (xs @ ys) q = newest_seq ys (newest_seq xs q)"
  by (induction xs q rule: newest_seq.induct) simp_all

lemma newest_seq_commit: "newest_seq (x # xs) (sl_sequence l) = newest_seq xs (sl_sequence (commit addr x l))"
  by (cases x) simp_all

lemma mo_sim_window: "mo_sim n s t vs \<Longrightarrow> mo_window s \<Longrightarrow> sl_window t"
  by (auto simp: mo_sim_def mo_window_def sl_window_def)

lemma mo_sim_init: "mo_sim n (mo_init mem) (sl_init mem) []"
  by (auto simp: mo_sim_def writer_ahead_def mo_init_def sl_init_def)

text \<open>The steps of the writer's thread are not seen by the other run.\<close>

lemma writer_ahead_call:
  assumes "writer_ahead s stream" and "mo_wpc s = WIdle"
  shows "writer_ahead (s\<lparr>mo_wpc := WStart v, mo_calls := mo_calls s @ [v]\<rparr>)
    (stream @ write_stores v (of_nat (2 * length (mo_calls s))))"
  using assms by (auto simp: writer_ahead_def)

lemma writer_ahead_issue:
  assumes ahead: "writer_ahead s stream"
    and step: "writer_issue (newest_seq (mo_pending s) (sl_sequence (mo_lock s))) (mo_wpc s) = (sts, pc)"
  shows "writer_ahead (s\<lparr>mo_pending := mo_pending s @ sts, mo_wpc := pc\<rparr>) stream"
proof (cases "mo_wpc s")
  case (WBytes v seq i)
  then have "0 < length (mo_calls s)" "seq = of_nat (2 * (length (mo_calls s) - 1))"
    using ahead by (simp_all add: writer_ahead_def)
  then have "seq + 2 = of_nat (2 * length (mo_calls s))" by (cases "length (mo_calls s)") simp_all
  then show ?thesis
    using ahead step WBytes
    by (cases "i < length v") (auto simp: writer_ahead_def byte_stores_Cons byte_stores_Nil newest_seq_append)
qed (use ahead step in \<open>auto simp: writer_ahead_def newest_seq_append write_stores_def\<close>)

lemma mo_sim_call:
  assumes sim: "mo_sim n s t vs" and "mo_wpc s = WIdle" and "length v = n"
  shows "mo_sim n (s\<lparr>mo_wpc := WStart v, mo_calls := mo_calls s @ [v]\<rparr>) t (vs @ [v])"
proof -
  let ?q = "of_nat (2 * length (completed t @ under_way (wpc t))) :: u64"
  have "mo_calls s = (completed t @ under_way (wpc t)) @ vs" using sim by (simp add: mo_sim_def)
  then have "of_nat (2 * length (mo_calls s)) = ?q + of_nat (2 * length vs)" by simp
  then have "(to_issue 0 (wpc t) @ all_stores ?q vs) @ write_stores v (of_nat (2 * length (mo_calls s))) =
      to_issue 0 (wpc t) @ all_stores ?q (vs @ [v])" by (simp only: all_stores_snoc append_assoc)
  moreover have "writer_ahead s (to_issue 0 (wpc t) @ all_stores ?q vs)" using sim by (simp add: mo_sim_def)
  ultimately show ?thesis
    using sim assms(3) writer_ahead_call [OF _ assms(2), of _ v] unfolding mo_sim_def by force
qed

lemma mo_sim_issue:
  assumes "mo_sim n s t vs"
    and "writer_issue (newest_seq (mo_pending s) (sl_sequence (mo_lock s))) (mo_wpc s) = (sts, pc)"
  shows "mo_sim n (s\<lparr>mo_pending := mo_pending s @ sts, mo_wpc := pc\<rparr>) t vs"
  using assms writer_ahead_issue [OF _ assms(2)] by (simp add: mo_sim_def)

lemma writer_ahead_return: "writer_ahead s stream \<Longrightarrow> mo_wpc s = WDone \<Longrightarrow> writer_ahead (s\<lparr>mo_wpc := WIdle\<rparr>) stream"
  by (auto simp: writer_ahead_def)

lemma mo_sim_return: "mo_sim n s t vs \<Longrightarrow> mo_wpc s = WDone \<Longrightarrow> mo_sim n (s\<lparr>mo_wpc := WIdle\<rparr>) t vs"
  by (simp add: mo_sim_def writer_ahead_return)

text \<open>A store becomes visible: the other run performs it, with the steps of the call around it.\<close>

lemma writer_ahead_commit:
  assumes "writer_ahead s stream" and "mo_pending s = x # rest"
  shows "\<exists>stream'. stream = x # stream' \<and>
    writer_ahead (s\<lparr>mo_lock := commit addr x (mo_lock s), mo_pending := rest, mo_done := k\<rparr>) stream'"
  using assms newest_seq_commit [of x rest "mo_lock s" addr] by (auto simp: writer_ahead_def)

lemma closes_even: "closes (SeqStore (of_nat (2 * k) + 2)) = 1" and closes_odd: "closes (SeqStore (of_nat (2 * k) + 1)) = 0"
proof -
  have "(of_nat (2 * k) + 2 :: u64) = of_nat (2 * Suc k)" "(of_nat (2 * k) + 1 :: u64) = of_nat (2 * k + 1)" by simp_all
  then show "closes (SeqStore (of_nat (2 * k) + 2)) = 1" "closes (SeqStore (of_nat (2 * k) + 1)) = 0"
    using seq_even [of "Suc k"] seq_odd [of k] by (simp_all only: closes.simps if_True if_False refl not_False_eq_True)
qed

lemma sim_commit_open:
  assumes sim: "mo_sim n s t vs" and reach: "sl_reach addr n mem t" and inv: "sl_inv addr n t"
    and pend: "mo_pending s = x # rest" and idle: "wpc t = WIdle"
    and win: "mo_window (s\<lparr>mo_lock := commit addr x (mo_lock s), mo_pending := rest, mo_done := mo_done s + closes x\<rparr>)"
  shows "\<exists>t' vs'. sl_reach addr n mem t' \<and>
    mo_sim n (s\<lparr>mo_lock := commit addr x (mo_lock s), mo_pending := rest, mo_done := mo_done s + closes x\<rparr>) t' vs'"
    (is "\<exists>t' vs'. _ \<and> mo_sim n ?s' t' vs'")
proof -
  let ?q = "of_nat (2 * length (completed t)) :: u64"
  have ahead: "writer_ahead s (all_stores ?q vs)" using sim idle by (simp add: mo_sim_def)
  obtain stream' where stream': "all_stores ?q vs = x # stream'" "writer_ahead ?s' stream'"
    using writer_ahead_commit [OF ahead pend] by blast
  obtain v vs' where vs: "vs = v # vs'" using stream'(1) by (cases vs) simp_all
  then have x: "x = SeqStore (?q + 1)" and rest: "stream' = byte_stores v 0 @ [SeqStore (?q + 2)] @ all_stores (?q + 2) vs'"
    using stream'(1) by (simp_all add: write_stores_def)
  have len: "length v = n" using sim vs by (simp add: mo_sim_def)
  have seq: "sl_sequence (lock t) = ?q" using inv idle by (simp add: sl_inv_def current_def)
  have quiet: "closes x = 0" unfolding x by (rule closes_odd)
  have w: "sl_window (t\<lparr>lock := l, wpc := pc\<rparr>)" for l pc
  proof -
    have "mo_window s" using win quiet by (simp add: mo_window_def)
    then have "sl_window t" using mo_sim_window [OF sim] by simp
    then show ?thesis by (simp add: sl_window_def)
  qed
  let ?t1 = "t\<lparr>wpc := WStart v\<rparr>"
  let ?t2 = "t\<lparr>wpc := WLoaded v ?q\<rparr>"
  let ?t3 = "t\<lparr>lock := (lock t)\<lparr>sl_sequence := ?q + 1\<rparr>, wpc := WBytes v ?q 0\<rparr>"
  have "sl_reach addr n mem ?t1"
    using sl_reach_step [OF reach sl_call_write [OF idle len]] w [where l = "lock t" and pc = "WStart v"] by simp
  from sl_reach_step [OF this sl_write [of addr ?t1 "lock t" "WLoaded v ?q"]]
  have "sl_reach addr n mem ?t2" using seq w [where l = "lock t" and pc = "WLoaded v ?q"] by simp
  from sl_reach_step [OF this sl_write [of addr ?t2 "(lock t)\<lparr>sl_sequence := ?q + 1\<rparr>" "WBytes v ?q 0"]]
  have "sl_reach addr n mem ?t3" using w [where l = "(lock t)\<lparr>sl_sequence := ?q + 1\<rparr>" and pc = "WBytes v ?q 0"] by simp
  moreover have "mo_sim n ?s' ?t3 vs'"
    using sim idle vs x quiet stream'(2) unfolding rest by (simp add: mo_sim_def algebra_simps)
  ultimately show ?thesis by blast
qed

lemma sim_commit_byte:
  assumes sim: "mo_sim n s t vs" and reach: "sl_reach addr n mem t" and pend: "mo_pending s = x # rest"
    and pc: "wpc t = WBytes v seq i" and i: "i < length v"
    and win: "mo_window (s\<lparr>mo_lock := commit addr x (mo_lock s), mo_pending := rest, mo_done := mo_done s + closes x\<rparr>)"
  shows "\<exists>t' vs'. sl_reach addr n mem t' \<and>
    mo_sim n (s\<lparr>mo_lock := commit addr x (mo_lock s), mo_pending := rest, mo_done := mo_done s + closes x\<rparr>) t' vs'"
    (is "\<exists>t' vs'. _ \<and> mo_sim n ?s' t' vs'")
proof -
  let ?all = "all_stores (of_nat (2 * length (completed t @ [v]))) vs"
  have "writer_ahead s (byte_stores v i @ [SeqStore (seq + 2)] @ ?all)" using sim pc by (simp add: mo_sim_def)
  from writer_ahead_commit [OF this pend] have x: "x = ByteStore i (v ! i)"
    and ahead: "writer_ahead ?s' (byte_stores v (Suc i) @ [SeqStore (seq + 2)] @ ?all)"
    using i by (auto simp: byte_stores_Cons)
  let ?l = "(lock t)\<lparr>sl_mem := (sl_mem (lock t))(addr + of_nat i := v ! i)\<rparr>"
  let ?t = "t\<lparr>lock := ?l, wpc := WBytes v seq (Suc i)\<rparr>"
  have sim': "mo_sim n ?s' ?t vs" using sim pc x ahead by (simp add: mo_sim_def)
  moreover from sl_reach_step [OF reach sl_write [of addr t ?l "WBytes v seq (Suc i)"]]
  have "sl_reach addr n mem ?t" using pc i mo_sim_window [OF sim' win] by simp
  ultimately show ?thesis by blast
qed

lemma sim_commit_close:
  assumes sim: "mo_sim n s t vs" and reach: "sl_reach addr n mem t" and inv: "sl_inv addr n t"
    and pend: "mo_pending s = x # rest" and pc: "wpc t = WBytes v seq i" and i: "\<not> i < length v"
    and win: "mo_window (s\<lparr>mo_lock := commit addr x (mo_lock s), mo_pending := rest, mo_done := mo_done s + closes x\<rparr>)"
  shows "\<exists>t' vs'. sl_reach addr n mem t' \<and>
    mo_sim n (s\<lparr>mo_lock := commit addr x (mo_lock s), mo_pending := rest, mo_done := mo_done s + closes x\<rparr>) t' vs'"
    (is "\<exists>t' vs'. _ \<and> mo_sim n ?s' t' vs'")
proof -
  let ?all = "all_stores (of_nat (2 * length (completed t @ [v]))) vs"
  have "writer_ahead s (byte_stores v i @ [SeqStore (seq + 2)] @ ?all)" using sim pc by (simp add: mo_sim_def)
  from writer_ahead_commit [OF this pend] have x: "x = SeqStore (seq + 2)" and ahead: "writer_ahead ?s' ?all"
    using i by (auto simp: byte_stores_Nil)
  have "seq = of_nat (2 * length (completed t))" using inv pc by (simp add: sl_inv_def current_def)
  then have "done": "closes x = 1" unfolding x by (simp only: closes_even)
  let ?l = "(lock t)\<lparr>sl_sequence := seq + 2\<rparr>"
  let ?t1 = "t\<lparr>lock := ?l, wpc := WDone, completed := completed t @ [v]\<rparr>"
  let ?t2 = "t\<lparr>lock := ?l, completed := completed t @ [v], wpc := WIdle\<rparr>"
  have sim': "mo_sim n ?s' ?t2 vs" using sim pc x "done" ahead by (simp add: mo_sim_def)
  have w: "sl_window ?t2" using mo_sim_window [OF sim' win] .
  then have "sl_window ?t1" by (simp add: sl_window_def)
  with sl_reach_step [OF reach sl_write [of addr t ?l WDone]] have "sl_reach addr n mem ?t1" using pc i by simp
  from sl_reach_step [OF this sl_return_write] w have "sl_reach addr n mem ?t2" by simp
  with sim' show ?thesis by blast
qed

lemma sim_commit:
  assumes sim: "mo_sim n s t vs" and reach: "sl_reach addr n mem t" and inv: "sl_inv addr n t"
    and m: "stores_in_order m" and pend: "mo_pending s = before @ x # rest" "may_commit m before x"
    and win: "mo_window (s\<lparr>mo_lock := commit addr x (mo_lock s), mo_pending := before @ rest, mo_done := mo_done s + closes x\<rparr>)"
  shows "\<exists>t' vs'. sl_reach addr n mem t' \<and> mo_sim n
    (s\<lparr>mo_lock := commit addr x (mo_lock s), mo_pending := before @ rest, mo_done := mo_done s + closes x\<rparr>) t' vs'"
proof -
  have "before = []" using pend(2) m by (cases x) simp_all
  then have p: "mo_pending s = x # rest" and w: "mo_window (s\<lparr>mo_lock := commit addr x (mo_lock s), mo_pending := rest,
      mo_done := mo_done s + closes x\<rparr>)" using pend(1) win by simp_all
  have "wpc t = WIdle \<or> (\<exists>v seq i. wpc t = WBytes v seq i)" using sim by (cases "wpc t") (auto simp: mo_sim_def)
  then show ?thesis
    using sim_commit_open [OF sim reach inv p _ w] sim_commit_byte [OF sim reach p _ _ w]
      sim_commit_close [OF sim reach inv p _ _ w] \<open>before = []\<close> by (metis append_Nil)
qed

text \<open>Loads in program order are the loads of \<open>reader_step\<close>.\<close>

lemma in_order_load:
  assumes m: "loads_in_order m" and may: "may_load m (in_order n pc) a" and buf: "\<And>s1 b. pc = RCopy s1 b \<Longrightarrow> length b \<le> n"
  shows "reader_load addr n l a (in_order n pc) = in_order n (reader_step addr n l pc)"
proof (cases pc)
  case RStart
  then show ?thesis using may by (cases a) (simp_all add: Let_def)
next
  case (RCopy s1 b)
  then have len: "length b \<le> n" using buf by blast
  show ?thesis
  proof (cases a)
    case LoadSeq
    then have "length b = n" using may RCopy m len by (cases "n - length b") simp_all
    then show ?thesis using RCopy LoadSeq by (simp add: comp_def)
  next
    case (LoadByte i)
    let ?buf = "map Some b @ replicate (n - length b) None"
    have i: "i < n" "?buf ! i = None" "None \<notin> set (take i ?buf)" using may RCopy LoadByte m len by simp_all
    have "length b \<le> i" using i(2) by (cases "i < length b") (simp_all add: nth_append)
    moreover have "i \<le> length b"
    proof (rule ccontr)
      assume "\<not> i \<le> length b"
      then have "?buf ! length b \<in> set (take i ?buf)" using i(1) len by (simp add: nth_append)
      moreover have "?buf ! length b = None" using \<open>\<not> i \<le> length b\<close> i(1) by (simp add: nth_append)
      ultimately show False using i(3) by simp
    qed
    ultimately have at: "i = length b" by simp
    have "n - length b = Suc (n - Suc (length b))" using i(1) at by simp
    then show ?thesis using RCopy LoadByte i(1) by (simp add: at list_update_append)
  qed
qed (use may in simp_all)

text \<open>A step of a reader in the other run.\<close>

lemma mo_sim_reader:
  assumes "mo_sim n s t vs" and "mo_rpc s' = (mo_rpc s)(r := in_order n pc)" and "mo_lock s' = mo_lock s"
    and "mo_pending s' = mo_pending s" and "mo_wpc s' = mo_wpc s" and "mo_calls s' = mo_calls s"
    and "mo_done s' = mo_done s" and "t' = t\<lparr>rpc := (rpc t)(r := pc), began := mo_began s'\<rparr>"
  shows "mo_sim n s' t' vs"
  using assms by (auto simp: mo_sim_def writer_ahead_def)

lemma sim_load:
  assumes sim: "mo_sim n s t vs" and reach: "sl_reach addr n mem t" and inv: "sl_inv addr n t"
    and m: "loads_in_order m" and may: "may_load m (mo_rpc s r) a"
    and s': "s' = s\<lparr>mo_rpc := (mo_rpc s)(r := reader_load addr n (mo_lock s) a (mo_rpc s r)),
      mo_began := (if mo_rpc s r = QStart then (mo_began s)(r := mo_done s) else mo_began s)\<rparr>"
    and win: "mo_window s'"
  shows "\<exists>t'. sl_reach addr n mem t' \<and> mo_sim n s' t' vs"
proof -
  have pc: "mo_rpc s r = in_order n (rpc t r)" "lock t = mo_lock s" "began t = mo_began s" "mo_done s = length (completed t)"
    using sim by (simp_all add: mo_sim_def)
  have "reader_ok n t r (rpc t r)" using inv by (simp add: sl_inv_def)
  then have "length b \<le> n" if "rpc t r = RCopy s1 b" for s1 b using that by simp
  define pc' where "pc' = reader_step addr n (lock t) (rpc t r)"
  have load: "reader_load addr n (mo_lock s) a (mo_rpc s r) = in_order n pc'"
    using in_order_load [OF m, of n "rpc t r" a addr "lock t"] \<open>\<And>s1 b. rpc t r = RCopy s1 b \<Longrightarrow> length b \<le> n\<close> may pc(1,2)
    by (simp add: pc'_def)
  have start: "mo_rpc s r = QStart \<longleftrightarrow> rpc t r = RStart" using pc(1) by (cases "rpc t r") simp_all
  let ?t' = "t\<lparr>rpc := (rpc t)(r := pc'), began := (if rpc t r = RStart then (began t)(r := length (completed t)) else began t)\<rparr>"
  have sim': "mo_sim n s' ?t' vs"
    by (rule mo_sim_reader [OF sim, where r = r]) (use load start pc s' in auto)
  have "sl_window ?t'" using mo_sim_window [OF sim' win] .
  then have "sl_reach addr n mem ?t'" using sl_reach_step [OF reach sl_read] unfolding pc'_def by blast
  with sim' show ?thesis by blast
qed

lemma mo_reach_sim:
  assumes "mo_reach m addr n mem s" and "stores_in_order m" and "loads_in_order m" and "n \<le> 2 ^ 64"
  shows "\<exists>t vs. sl_reach addr n mem t \<and> mo_sim n s t vs"
  using assms(1)
proof (induction rule: mo_reach.induct)
  case mo_reach_init
  show ?case using sl_reach_init mo_sim_init by blast
next
  case (mo_reach_step s s')
  then obtain t vs where reach: "sl_reach addr n mem t" and sim: "mo_sim n s t vs" by blast
  have inv: "sl_inv addr n t" using sl_reach_inv [OF reach assms(4)] by blast
  note win = mo_reach_step.hyps(3)
  have idle: "mo_rpc s r = in_order n (rpc t r)" for r using sim by (simp add: mo_sim_def)
  show ?case
    using mo_reach_step.hyps(2)
  proof (cases rule: mo_step.cases)
    case (mo_call_write v)
    then show ?thesis using mo_sim_call [OF sim] reach by blast
  next
    case (mo_issue sts pc)
    then show ?thesis using mo_sim_issue [OF sim] reach by blast
  next
    case mo_return_write
    then show ?thesis using mo_sim_return [OF sim] reach by blast
  next
    case (mo_commit before x rest)
    then show ?thesis using sim_commit [OF sim reach inv assms(2)] win by blast
  next
    case (mo_load r a)
    then show ?thesis using sim_load [OF sim reach inv assms(3) _ _ win] by blast
  next
    case (mo_call_read r)
    then have r: "rpc t r = RIdle" using idle [of r] by (cases "rpc t r") simp_all
    let ?t' = "t\<lparr>rpc := (rpc t)(r := RStart), began := mo_began s'\<rparr>"
    have sim': "mo_sim n s' ?t' vs" by (rule mo_sim_reader [OF sim, where r = r]) (use mo_call_read in simp_all)
    have "began t = mo_began s'" using sim mo_call_read by (simp add: mo_sim_def)
    then have "?t' = t\<lparr>rpc := (rpc t)(r := RStart)\<rparr>" by simp
    then have "sl_reach addr n mem ?t'"
      using sl_reach.sl_reach_step [OF reach sl_call_read [OF r]] mo_sim_window [OF sim' win] by simp
    with sim' show ?thesis by blast
  next
    case (mo_return_read r x)
    then have r: "rpc t r = RRet x" using idle [of r] by (cases "rpc t r") simp_all
    let ?t' = "t\<lparr>rpc := (rpc t)(r := RIdle), began := mo_began s'\<rparr>"
    have sim': "mo_sim n s' ?t' vs" by (rule mo_sim_reader [OF sim, where r = r]) (use mo_return_read in simp_all)
    have "began t = mo_began s'" using sim mo_return_read by (simp add: mo_sim_def)
    then have "?t' = t\<lparr>rpc := (rpc t)(r := RIdle)\<rparr>" by simp
    then have "sl_reach addr n mem ?t'"
      using sl_reach.sl_reach_step [OF reach sl_return_read [OF r]] mo_sim_window [OF sim' win] by simp
    with sim' show ?thesis by blast
  qed
qed

lemma mo_read_in_order:
  assumes "mo_reach m addr n mem s" and "stores_in_order m" and "loads_in_order m" and "n \<le> 2 ^ 64"
    and ret: "mo_rpc s r = QRet (Some v)"
  shows "0 < mo_began s r \<and> mo_began s r \<le> mo_done s \<and> mo_done s \<le> length (mo_calls s) \<and>
    v = mo_calls s ! (mo_began s r - 1)"
proof -
  obtain t vs where reach: "sl_reach addr n mem t" and sim: "mo_sim n s t vs" using mo_reach_sim [OF assms(1-4)] by blast
  have "in_order n (rpc t r) = QRet (Some v)" using sim ret by (simp add: mo_sim_def)
  then have "rpc t r = RRet (Some v)" by (cases "rpc t r") simp_all
  note ret = seqlock_read_sc [OF reach assms(4) this]
  have eq: "mo_began s = began t" "mo_done s = length (completed t)" "mo_calls s = completed t @ under_way (wpc t) @ vs"
    using sim by (simp_all add: mo_sim_def)
  have "(completed t @ xs) ! (began t r - 1) = completed t ! (began t r - 1)" for xs
    using ret by (auto simp: nth_append)
  then show ?thesis using ret unfolding eq by simp
qed

subsection \<open>Out of order: runs that return a mixture\<close>

text \<open>Runs in which few writes finish, with reader 0 only.\<close>

definition mo_go :: "machine \<Rightarrow> u64 \<Rightarrow> nat \<Rightarrow> mo_sys \<Rightarrow> mo_sys \<Rightarrow> bool" where
  "mo_go m addr n s s' \<longleftrightarrow> mo_step m addr n s s' \<and> mo_done s' < 2 ^ 63"

definition mo_at ::
  "seqlock \<Rightarrow> store list \<Rightarrow> writer_pc \<Rightarrow> reader_loads \<Rightarrow> u8 list list \<Rightarrow> nat \<Rightarrow> nat \<Rightarrow> mo_sys" where
  "mo_at l ps w r vs d b = \<lparr>mo_lock = l, mo_pending = ps, mo_wpc = w, mo_rpc = (\<lambda>_. QIdle)(0 := r), mo_calls = vs,
     mo_done = d, mo_began = (\<lambda>_. 0)(0 := b)\<rparr>"

lemma mo_init_at: "mo_init mem = mo_at \<lparr>sl_sequence = 0, sl_mem = mem\<rparr> [] WIdle QIdle [] 0 0"
  by (auto simp: mo_init_def mo_at_def)

lemma mo_reach_go: "(mo_go m addr n)\<^sup>*\<^sup>* s s' \<Longrightarrow> mo_reach m addr n mem s \<Longrightarrow> mo_reach m addr n mem s'"
proof (induction rule: rtranclp_induct)
  case (step s s')
  then have "mo_step m addr n s s'" "mo_window s'" by (auto simp: mo_go_def mo_window_def)
  with step show ?case using mo_reach_step by blast
qed

lemma mo_go_issue:
  assumes "writer_issue (newest_seq ps (sl_sequence l)) w = (sts, w')" and "d < 2 ^ 63"
  shows "mo_go m addr n (mo_at l ps w r vs d b) (mo_at l (ps @ sts) w' r vs d b)"
  using mo_issue [where s = "mo_at l ps w r vs d b" and sts = sts and pc = w'] assms by (simp add: mo_go_def mo_at_def)

lemma mo_go_bytes:
  assumes "d < 2 ^ 63" and "i + j \<le> length v"
  shows "(mo_go m addr n)\<^sup>*\<^sup>* (mo_at l ps (WBytes v q i) r vs d b)
    (mo_at l (ps @ map (\<lambda>i. ByteStore i (v ! i)) [i..<i + j]) (WBytes v q (i + j)) r vs d b)"
  using assms(2)
proof (induction j)
  case (Suc j)
  let ?ps = "ps @ map (\<lambda>i. ByteStore i (v ! i)) [i..<i + j]"
  have "mo_go m addr n (mo_at l ?ps (WBytes v q (i + j)) r vs d b)
      (mo_at l (?ps @ [ByteStore (i + j) (v ! (i + j))]) (WBytes v q (Suc (i + j))) r vs d b)"
    by (rule mo_go_issue) (use Suc.prems assms(1) in simp_all)
  with Suc show ?case by (simp add: rtranclp.rtrancl_into_rtrancl)
qed simp

text \<open>A whole call of \<open>write\<close>, with its stores left in the buffer.\<close>

lemma mo_go_write:
  assumes v: "length v = n" and d: "d < 2 ^ 63" and q: "newest_seq ps (sl_sequence l) = q"
  shows "(mo_go m addr n)\<^sup>*\<^sup>* (mo_at l ps WIdle r vs d b) (mo_at l (ps @ write_stores v q) WIdle r (vs @ [v]) d b)"
proof -
  let ?R = "mo_go m addr n" and ?at = "\<lambda>ps w. mo_at l ps w r (vs @ [v]) d b"
  note step = rtranclp.rtrancl_into_rtrancl [where r = ?R]
  have "?R (mo_at l ps WIdle r vs d b) (?at ps (WStart v))"
    using mo_call_write [where s = "mo_at l ps WIdle r vs d b"] v d by (simp add: mo_go_def mo_at_def)
  then have "?R\<^sup>*\<^sup>* (mo_at l ps WIdle r vs d b) (?at ps (WStart v))" by blast
  from step [OF this mo_go_issue [OF _ d]] q have "?R\<^sup>*\<^sup>* (mo_at l ps WIdle r vs d b) (?at ps (WLoaded v q))" by fastforce
  from step [OF this mo_go_issue [OF _ d]]
  have "?R\<^sup>*\<^sup>* (mo_at l ps WIdle r vs d b) (?at (ps @ [SeqStore (q + 1)]) (WBytes v q 0))" by fastforce
  from rtranclp_trans [OF this mo_go_bytes [OF d]]
  have "?R\<^sup>*\<^sup>* (mo_at l ps WIdle r vs d b) (?at (ps @ SeqStore (q + 1) # byte_stores v 0) (WBytes v q (length v)))"
    by (fastforce simp: byte_stores_def)
  from step [OF this mo_go_issue [OF _ d]]
  have "?R\<^sup>*\<^sup>* (mo_at l ps WIdle r vs d b) (?at (ps @ write_stores v q) WDone)" by (fastforce simp: write_stores_def)
  moreover have "?R (?at (ps @ write_stores v q) WDone) (?at (ps @ write_stores v q) WIdle)"
    using mo_return_write [where s = "?at (ps @ write_stores v q) WDone"] d by (simp add: mo_go_def mo_at_def)
  ultimately show ?thesis by (rule step)
qed

text \<open>Stores becoming visible in order, and bytes overtaking the odd counter.\<close>

lemma mo_go_commits:
  assumes "d + sum_list (map closes xs) < 2 ^ 63"
  shows "(mo_go m addr n)\<^sup>*\<^sup>* (mo_at l (xs @ ps) w r vs d b)
    (mo_at (fold (commit addr) xs l) ps w r vs (d + sum_list (map closes xs)) b)"
  using assms
proof (induction xs arbitrary: l d)
  case (Cons x xs)
  let ?s = "mo_at l (x # xs @ ps) w r vs d b"
  have "may_commit m [] x" by (cases x) simp_all
  with mo_commit [where s = ?s and before = "[]" and x = x and rest = "xs @ ps" and m = m and addr = addr and n = n]
  have "mo_go m addr n ?s (mo_at (commit addr x l) (xs @ ps) w r vs (d + closes x) b)"
    using Cons.prems by (simp add: mo_go_def mo_at_def)
  moreover have "(mo_go m addr n)\<^sup>*\<^sup>* (mo_at (commit addr x l) (xs @ ps) w r vs (d + closes x) b)
      (mo_at (fold (commit addr) xs (commit addr x l)) ps w r vs (d + closes x + sum_list (map closes xs)) b)"
    using Cons.prems by (intro Cons.IH) simp
  ultimately show ?case by (simp add: converse_rtranclp_into_rtranclp add.assoc)
qed simp

lemma fold_byte_stores:
  "i + k = length v \<Longrightarrow> fold (commit addr) (byte_stores v i) l = l\<lparr>sl_mem := put_bytes addr v i k (sl_mem l)\<rparr>"
proof (induction k arbitrary: i l)
  case (Suc k)
  then have "i < length v" "Suc i + k = length v" by simp_all
  then show ?case using Suc.IH [of "Suc i"] by (simp add: byte_stores_Cons)
qed (simp add: byte_stores_Nil)

lemma fold_write_stores:
  "fold (commit addr) (write_stores v q) l = \<lparr>sl_sequence = q + 2, sl_mem = put_bytes addr v 0 (length v) (sl_mem l)\<rparr>"
  using fold_byte_stores [of 0 "length v" v addr "l\<lparr>sl_sequence := q + 1\<rparr>"] by (simp add: write_stores_def)

lemma closes_write: "sum_list (map closes (write_stores v (of_nat (2 * k)))) = 1"
proof -
  have "sum_list (map closes (byte_stores v 0)) = 0" by (simp add: byte_stores_def comp_def)
  then show ?thesis using closes_odd [of k] closes_even [of k] by (simp add: write_stores_def)
qed

lemma mo_go_written:
  assumes v: "length v = n" and l: "sl_sequence l = of_nat (2 * k)" and d: "d < 2 ^ 63 - 1"
  shows "(mo_go m addr n)\<^sup>*\<^sup>* (mo_at l [] WIdle r vs d b)
    (mo_at \<lparr>sl_sequence = of_nat (2 * Suc k), sl_mem = put_bytes addr v 0 n (sl_mem l)\<rparr> [] WIdle r (vs @ [v]) (Suc d) b)"
proof -
  let ?q = "of_nat (2 * k) :: u64"
  have "(mo_go m addr n)\<^sup>*\<^sup>* (mo_at l [] WIdle r vs d b) (mo_at l (write_stores v ?q) WIdle r (vs @ [v]) d b)"
    using mo_go_write [OF v, of d "[]" l ?q] l d by simp
  moreover have "d + sum_list (map closes (write_stores v ?q)) < 2 ^ 63" by (subst closes_write) (use d in simp)
  from mo_go_commits [OF this, of m addr n l "[]"]
  have "(mo_go m addr n)\<^sup>*\<^sup>* (mo_at l (write_stores v ?q) WIdle r (vs @ [v]) d b)
      (mo_at (fold (commit addr) (write_stores v ?q) l) [] WIdle r (vs @ [v]) (Suc d) b)"
    by (simp only: closes_write append_Nil2) simp
  moreover have "fold (commit addr) (write_stores v ?q) l =
      \<lparr>sl_sequence = of_nat (2 * Suc k), sl_mem = put_bytes addr v 0 n (sl_mem l)\<rparr>"
    using v by (simp add: fold_write_stores)
  ultimately show ?thesis by (simp add: rtranclp_trans)
qed

lemma mo_go_overtake:
  assumes m: "\<not> stores_in_order m" and d: "d < 2 ^ 63" and j: "i + j \<le> length v"
  shows "(mo_go m addr n)\<^sup>*\<^sup>* (mo_at l (SeqStore q # byte_stores v i @ rest) w r vs d b)
    (mo_at (l\<lparr>sl_mem := put_bytes addr v i j (sl_mem l)\<rparr>) (SeqStore q # byte_stores v (i + j) @ rest) w r vs d b)"
  using j
proof (induction j arbitrary: i l)
  case (Suc j)
  let ?s = "mo_at l (SeqStore q # byte_stores v i @ rest) w r vs d b"
  let ?l = "l\<lparr>sl_mem := (sl_mem l)(addr + of_nat i := v ! i)\<rparr>"
  have "mo_pending ?s = [SeqStore q] @ ByteStore i (v ! i) # (byte_stores v (Suc i) @ rest)"
    using Suc.prems by (simp add: byte_stores_Cons mo_at_def)
  from mo_commit [OF this, of m addr n]
  have "mo_go m addr n ?s (mo_at ?l (SeqStore q # byte_stores v (Suc i) @ rest) w r vs d b)"
    using m d by (simp add: mo_go_def mo_at_def)
  moreover have "(mo_go m addr n)\<^sup>*\<^sup>* (mo_at ?l (SeqStore q # byte_stores v (Suc i) @ rest) w r vs d b)
      (mo_at (l\<lparr>sl_mem := put_bytes addr v i (Suc j) (sl_mem l)\<rparr>) (SeqStore q # byte_stores v (i + Suc j) @ rest) w r vs d b)"
    using Suc.IH [of "Suc i" ?l] Suc.prems by (simp del: fun_upd_apply)
  ultimately show ?case by (rule converse_rtranclp_into_rtranclp)
qed simp

text \<open>The loads of a reader.\<close>

lemma mo_go_load:
  assumes "may_load m pc a" and "d < 2 ^ 63"
  shows "mo_go m addr n (mo_at l ps w pc vs d b) (mo_at l ps w (reader_load addr n l a pc) vs d (if pc = QStart then d else b))"
  using mo_load [where s = "mo_at l ps w pc vs d b" and r = 0 and a = a and m = m] assms by (auto simp: mo_go_def mo_at_def)

lemma mo_go_start:
  assumes "sl_sequence l \<noteq> 0" and "sl_sequence l AND 1 = 0" and d: "d < 2 ^ 63"
  shows "(mo_go m addr n)\<^sup>*\<^sup>* (mo_at l ps w QIdle vs d b)
    (mo_at l ps w (QCopy (sl_sequence l) (replicate n None) None) vs d d)"
proof -
  have "mo_go m addr n (mo_at l ps w QIdle vs d b) (mo_at l ps w QStart vs d b)"
    using mo_call_read [where s = "mo_at l ps w QIdle vs d b" and r = 0] d by (simp add: mo_go_def mo_at_def)
  moreover have "mo_go m addr n (mo_at l ps w QStart vs d b) (mo_at l ps w (QCopy (sl_sequence l) (replicate n None) None) vs d d)"
    using mo_go_load [of m QStart LoadSeq d addr n l ps w vs b] assms by (simp add: Let_def)
  ultimately show ?thesis by (meson converse_rtranclp_into_rtranclp r_into_rtranclp)
qed

abbreviation mem_bytes :: "u64 \<Rightarrow> seqlock \<Rightarrow> nat list \<Rightarrow> u8 list" where
  "mem_bytes addr l is \<equiv> map (\<lambda>i. sl_mem l (addr + of_nat i)) is"

lemma mo_go_range:
  assumes "loads_in_order m \<longrightarrow> s2 = None \<and> None \<notin> set xs" and "s2 = None \<or> 0 < k" and d: "d < 2 ^ 63"
  shows "(mo_go m addr n)\<^sup>*\<^sup>* (mo_at l ps w (QCopy s1 (xs @ replicate k None @ ys) s2) vs d b)
    (mo_at l ps w (reader_decide (QCopy s1 (xs @ map Some (mem_bytes addr l [length xs..<length xs + k]) @ ys) s2)) vs d b)"
  using assms(1,2)
proof (induction k arbitrary: xs)
  case (Suc k)
  let ?b = "Some (sl_mem l (addr + of_nat (length xs)))"
  let ?buf = "xs @ replicate (Suc k) None @ ys"
  have load: "?buf[length xs := ?b] = (xs @ [?b]) @ replicate k None @ ys" by simp
  have "may_load m (QCopy s1 ?buf s2) (LoadByte (length xs))" using Suc.prems(1) by (simp add: nth_append)
  from mo_go_load [OF this d, of addr n l ps w vs b]
  have go: "mo_go m addr n (mo_at l ps w (QCopy s1 ?buf s2) vs d b)
      (mo_at l ps w (reader_decide (QCopy s1 ((xs @ [?b]) @ replicate k None @ ys) s2)) vs d b)"
    unfolding reader_load.simps load by simp
  have "[length xs..<length xs + Suc k] = length xs # [Suc (length xs)..<Suc (length xs) + k]"
    by (simp add: upt_conv_Cons del: upt_Suc)
  then have range: "xs @ map Some (mem_bytes addr l [length xs..<length xs + Suc k]) @ ys =
      (xs @ [?b]) @ map Some (mem_bytes addr l [length (xs @ [?b])..<length (xs @ [?b]) + k]) @ ys"
    by simp
  show ?case
  proof (cases "k = 0")
    case True
    then show ?thesis using go unfolding range by simp
  next
    case False
    then have "reader_decide (QCopy s1 ((xs @ [?b]) @ replicate k None @ ys) s2) = QCopy s1 ((xs @ [?b]) @ replicate k None @ ys) s2"
      by (cases s2) simp_all
    with go have first: "mo_go m addr n (mo_at l ps w (QCopy s1 ?buf s2) vs d b)
        (mo_at l ps w (QCopy s1 ((xs @ [?b]) @ replicate k None @ ys) s2) vs d b)" by simp
    have "loads_in_order m \<longrightarrow> s2 = None \<and> None \<notin> set (xs @ [?b])" using Suc.prems(1) by auto
    from Suc.IH [OF this] False show ?thesis
      unfolding range by (intro converse_rtranclp_into_rtranclp [where r = "mo_go m addr n", OF first]) simp
  qed
qed simp

lemma mo_go_read:
  assumes "sl_sequence l \<noteq> 0" and "sl_sequence l AND 1 = 0" and d: "d < 2 ^ 63"
  shows "(mo_go m addr n)\<^sup>*\<^sup>* (mo_at l ps w QIdle vs d b) (mo_at l ps w (QRet (Some (read_list addr n (sl_mem l)))) vs d d)"
proof -
  let ?buf = "map Some (read_list addr n (sl_mem l))" and ?q = "sl_sequence l"
  have "(mo_go m addr n)\<^sup>*\<^sup>* (mo_at l ps w QIdle vs d b) (mo_at l ps w (QCopy ?q (replicate n None) None) vs d d)"
    by (rule mo_go_start [OF assms])
  also have "(mo_go m addr n)\<^sup>*\<^sup>* \<dots> (mo_at l ps w (QCopy ?q ?buf None) vs d d)"
    using mo_go_range [where xs = "[]" and ys = "[]" and ?s2.0 = None and k = n and d = d and l = l and m = m and addr = addr] d
    by (simp add: read_list_def)
  also have "(mo_go m addr n)\<^sup>*\<^sup>* \<dots> (mo_at l ps w (QRet (Some (read_list addr n (sl_mem l)))) vs d d)"
    using mo_go_load [of m "QCopy ?q ?buf None" LoadSeq d addr n l ps w vs d] d
    by (simp add: comp_def image_iff r_into_rtranclp)
  finally show ?thesis .
qed

text \<open>The first value is written and becomes visible; it can be read.\<close>

lemma mo_go_first:
  assumes "length v = n"
  shows "(mo_go m addr n)\<^sup>*\<^sup>* (mo_init mem) (mo_at \<lparr>sl_sequence = 2, sl_mem = put_bytes addr v 0 n mem\<rparr> [] WIdle QIdle [v] 1 0)"
  using mo_go_written [OF assms, where l = "\<lparr>sl_sequence = 0, sl_mem = mem\<rparr>" and k = 0 and d = 0 and vs = "[]" and r = QIdle and b = 0]
  by (simp add: mo_init_at)

lemma mo_first_read:
  assumes "length v = n" and "n \<le> 2 ^ 64"
  shows "mo_reach m addr n mem (mo_at \<lparr>sl_sequence = 2, sl_mem = put_bytes addr v 0 n mem\<rparr> [] WIdle (QRet (Some v)) [v] 1 1)"
proof -
  let ?l = "\<lparr>sl_sequence = 2, sl_mem = put_bytes addr v 0 n mem\<rparr>"
  have "read_list addr n (sl_mem ?l) = v" using read_put_bytes [of 0 n n v addr mem] assms by simp
  then have "(mo_go m addr n)\<^sup>*\<^sup>* (mo_at ?l [] WIdle QIdle [v] 1 0) (mo_at ?l [] WIdle (QRet (Some v)) [v] 1 1)"
    using mo_go_read [of ?l 1 m addr n "[]" WIdle "[v]" 0] by simp
  then show ?thesis by (rule mo_reach_go) (rule mo_reach_go [OF mo_go_first [OF assms(1)] mo_reach_init])
qed

text \<open>Bytes of the second value overtake the counter that says a write is under way.\<close>

lemma mo_stores_overtake:
  assumes m: "\<not> stores_in_order m" and n: "n \<le> 2 ^ 64" and v: "length v1 = n" "length v2 = n" and k: "k \<le> n"
  shows "\<exists>s. mo_reach m addr n mem s \<and> mo_calls s = [v1, v2] \<and> mo_rpc s 0 = QRet (Some (take k v2 @ drop k v1))"
proof -
  let ?R = "mo_go m addr n"
  let ?l1 = "\<lparr>sl_sequence = 2, sl_mem = put_bytes addr v1 0 n mem\<rparr>"
  let ?l2 = "\<lparr>sl_sequence = 2, sl_mem = put_bytes addr v2 0 k (sl_mem ?l1)\<rparr>"
  let ?ps = "SeqStore 3 # byte_stores v2 k @ [SeqStore 4]"
  have go1: "?R\<^sup>*\<^sup>* (mo_init mem) (mo_at ?l1 [] WIdle QIdle [v1] 1 0)"
    by (rule mo_go_first [OF v(1)])
  have go2: "?R\<^sup>*\<^sup>* (mo_at ?l1 [] WIdle QIdle [v1] 1 0)
      (mo_at ?l1 (SeqStore 3 # byte_stores v2 0 @ [SeqStore 4]) WIdle QIdle [v1, v2] 1 0)"
    using mo_go_write [OF v(2), where ps = "[]" and l = ?l1 and q = 2 and d = 1 and r = QIdle and vs = "[v1]" and b = 0]
    by (simp add: write_stores_def)
  have go3: "?R\<^sup>*\<^sup>* (mo_at ?l1 (SeqStore 3 # byte_stores v2 0 @ [SeqStore 4]) WIdle QIdle [v1, v2] 1 0)
      (mo_at ?l2 ?ps WIdle QIdle [v1, v2] 1 0)"
    using mo_go_overtake [OF m, of 1 0 k v2 addr n ?l1] v(2) k by simp
  have go4: "?R\<^sup>*\<^sup>* (mo_at ?l2 ?ps WIdle QIdle [v1, v2] 1 0)
      (mo_at ?l2 ?ps WIdle (QRet (Some (read_list addr n (sl_mem ?l2)))) [v1, v2] 1 1)"
    using mo_go_read [of ?l2 1] by simp
  have "mo_reach m addr n mem (mo_at ?l2 ?ps WIdle (QRet (Some (read_list addr n (sl_mem ?l2)))) [v1, v2] 1 1)"
    by (intro mo_reach_go [OF go4] mo_reach_go [OF go3] mo_reach_go [OF go2] mo_reach_go [OF go1] mo_reach_init)
  moreover have "read_list addr n (sl_mem ?l2) = take k v2 @ drop k v1"
    using read_put_bytes [of 0 k n v2 addr "sl_mem ?l1"] read_put_bytes [of 0 n n v1 addr mem] assms by simp
  ultimately show ?thesis by (intro exI [of _ "mo_at ?l2 ?ps WIdle _ [v1, v2] 1 1"]) (simp add: mo_at_def)
qed

text \<open>The second load of the counter comes before the first \<open>k\<close> bytes are loaded.\<close>

lemma mo_loads_overtake:
  assumes m: "\<not> loads_in_order m" and n: "n \<le> 2 ^ 64" and v: "length v1 = n" "length v2 = n" and k: "k \<le> n"
  shows "\<exists>s. mo_reach m addr n mem s \<and> mo_calls s = [v1, v2] \<and> mo_rpc s 0 = QRet (Some (take k v2 @ drop k v1))"
proof -
  let ?R = "mo_go m addr n"
  let ?l1 = "\<lparr>sl_sequence = 2, sl_mem = put_bytes addr v1 0 n mem\<rparr>"
  let ?l2 = "\<lparr>sl_sequence = 4, sl_mem = put_bytes addr v2 0 n (sl_mem ?l1)\<rparr>"
  let ?ys = "map Some (drop k v1)"
  define q where "q = reader_decide (QCopy 2 (replicate k None @ ?ys) (Some 2))"
  have bytes: "mem_bytes addr \<lparr>sl_sequence = q, sl_mem = put_bytes addr v 0 n mm\<rparr> [0..<n] = v" if "length v = n" for q v mm
    using read_put_bytes [of 0 n n v addr mm] that n by (simp add: read_list_def)
  have "map Some (mem_bytes addr ?l1 [k..<n]) = map Some (drop k (mem_bytes addr ?l1 [0..<n]))" by (simp add: drop_map)
  then have ys: "map Some (mem_bytes addr ?l1 [k..<n]) = ?ys" using bytes [OF v(1)] by simp
  have "mem_bytes addr ?l2 [0..<k] = take k (mem_bytes addr ?l2 [0..<n])" using k by (simp add: take_map)
  then have xs: "mem_bytes addr ?l2 [0..<k] = take k v2" using bytes [OF v(2)] by simp
  have go1: "?R\<^sup>*\<^sup>* (mo_init mem) (mo_at ?l1 [] WIdle QIdle [v1] 1 0)"
    by (rule mo_go_first [OF v(1)])
  have go2: "?R\<^sup>*\<^sup>* (mo_at ?l1 [] WIdle QIdle [v1] 1 0)
      (mo_at ?l1 [] WIdle (QCopy 2 (replicate k None @ replicate (n - k) None @ []) None) [v1] 1 1)"
    using mo_go_start [of ?l1 1] k by (simp add: replicate_add [symmetric])
  have go3: "?R\<^sup>*\<^sup>* (mo_at ?l1 [] WIdle (QCopy 2 (replicate k None @ replicate (n - k) None @ []) None) [v1] 1 1)
      (mo_at ?l1 [] WIdle (QCopy 2 (replicate k None @ ?ys) None) [v1] 1 1)"
    using mo_go_range [where xs = "replicate k None" and ys = "[]" and ?s2.0 = None and k = "n - k" and d = 1 and l = ?l1 and m = m
        and addr = addr] m k ys
    by simp
  have go4: "?R\<^sup>*\<^sup>* (mo_at ?l1 [] WIdle (QCopy 2 (replicate k None @ ?ys) None) [v1] 1 1)
      (mo_at ?l1 [] WIdle q [v1] 1 1)"
    using mo_go_load [of m "QCopy 2 (replicate k None @ ?ys) None" LoadSeq 1 addr n ?l1] m
    by (simp add: q_def r_into_rtranclp)
  have go5: "?R\<^sup>*\<^sup>* (mo_at ?l1 [] WIdle q [v1] 1 1)
      (mo_at ?l2 [] WIdle q [v1, v2] (Suc 1) 1)"
    using mo_go_written [OF v(2), where l = ?l1 and k = 1 and d = 1 and vs = "[v1]" and r = q and b = 1
        and addr = addr and m = m] by simp
  have go6: "?R\<^sup>*\<^sup>* (mo_at ?l2 [] WIdle q [v1, v2] (Suc 1) 1)
      (mo_at ?l2 [] WIdle (QRet (Some (take k v2 @ drop k v1))) [v1, v2] (Suc 1) 1)"
  proof (cases "k = 0")
    case False
    have before: "q = QCopy 2 ([] @ replicate k None @ ?ys) (Some 2)" using False by (simp add: q_def)
    have after: "reader_decide (QCopy 2 ([] @ map Some (mem_bytes addr ?l2 [length []..<length [] + k]) @ ?ys) (Some 2)) =
        QRet (Some (take k v2 @ drop k v1))"
      unfolding list.size(3) add_0 xs by (auto simp: comp_def)
    have "(loads_in_order m \<longrightarrow> (Some 2 :: u64 option) = None \<and> None \<notin> set [])" "(Some 2 :: u64 option) = None \<or> 0 < k" "Suc 1 < (2 :: nat) ^ 63"
      using m False by simp_all
    from mo_go_range [OF this, of addr n ?l2 "[]" WIdle 2 ?ys "[v1, v2]" 1] show ?thesis unfolding after before .
  qed (auto simp: q_def comp_def)
  have "mo_reach m addr n mem (mo_at ?l2 [] WIdle (QRet (Some (take k v2 @ drop k v1))) [v1, v2] (Suc 1) 1)"
    by (intro mo_reach_go [OF go6] mo_reach_go [OF go5] mo_reach_go [OF go4] mo_reach_go [OF go3] mo_reach_go [OF go2] mo_reach_go [OF go1] mo_reach_init)
  then show ?thesis by (intro exI [of _ "mo_at ?l2 [] WIdle _ [v1, v2] (Suc 1) 1"]) (simp add: mo_at_def)
qed

subsection \<open>What a read returns\<close>

text \<open>C11: one thread writes values of \<open>n\<close> bytes and any number of threads read, each store of a counter or a
  byte becoming visible and each load happening at a time of its own. On a machine that keeps a thread's
  stores in order and its loads in order, every value that \<open>read\<close> returns is, byte for byte, the value of one
  call of \<open>write\<close>: the last one whose stores were all visible when the successful attempt loaded the counter.
  (Fewer than \<open>2^63\<close> writes finish during an attempt.) \<open>Release\<close> and \<open>Acquire\<close>, which are all the source
  asks for, do not suffice: on a machine that does no more than that for stores, or no more than that
  for loads, a read may return any first part of the second value followed by the rest of the first.\<close>

theorem seqlock_read_consistent:
  assumes "n \<le> 2 ^ 64"
  shows "(stores_in_order m \<and> loads_in_order m \<longrightarrow>
      (\<forall>s r v. mo_reach m addr n mem s \<longrightarrow> mo_rpc s r = QRet (Some v) \<longrightarrow>
        0 < mo_began s r \<and> mo_began s r \<le> mo_done s \<and> mo_done s \<le> length (mo_calls s) \<and>
        v = mo_calls s ! (mo_began s r - 1)))
    \<and> (\<not> (stores_in_order m \<and> loads_in_order m) \<longrightarrow>
      (\<forall>v1 v2 k. length v1 = n \<longrightarrow> length v2 = n \<longrightarrow> k \<le> n \<longrightarrow>
        (\<exists>s. mo_reach m addr n mem s \<and> mo_calls s = [v1, v2] \<and> mo_rpc s 0 = QRet (Some (take k v2 @ drop k v1)))))"
proof (intro conjI [where P = "_ \<longrightarrow> _"] impI allI)
  fix s r v
  assume "stores_in_order m \<and> loads_in_order m" and "mo_reach m addr n mem s" and "mo_rpc s r = QRet (Some v)"
  then show "0 < mo_began s r \<and> mo_began s r \<le> mo_done s \<and> mo_done s \<le> length (mo_calls s) \<and>
      v = mo_calls s ! (mo_began s r - 1)" using mo_read_in_order assms by blast
next
  fix v1 v2 :: "u8 list" and k
  assume "\<not> (stores_in_order m \<and> loads_in_order m)" and "length v1 = n" and "length v2 = n" and "k \<le> n"
  then show "\<exists>s. mo_reach m addr n mem s \<and> mo_calls s = [v1, v2] \<and> mo_rpc s 0 = QRet (Some (take k v2 @ drop k v1))"
    using mo_stores_overtake [OF _ assms] mo_loads_overtake [OF _ assms] by blast
qed

text \<open>At a value of two bytes: a reader on a machine that keeps the order returns what was written, and one on
  a machine that only does what the source asks for returns a byte of each value.\<close>

theorem seqlock_read_consistent_witness:
  "(\<exists>s. mo_reach \<lparr>stores_in_order = True, loads_in_order = True\<rparr> 64 2 (\<lambda>_. 0) s \<and> mo_rpc s 0 = QRet (Some [1, 2]) \<and>
      0 < mo_began s 0 \<and> [1, 2] = mo_calls s ! (mo_began s 0 - 1)) \<and>
   (\<exists>s. mo_reach \<lparr>stores_in_order = False, loads_in_order = True\<rparr> 64 2 (\<lambda>_. 0) s \<and> mo_calls s = [[1, 2], [3, 4]] \<and>
      mo_rpc s 0 = QRet (Some [3, 2]))"
proof -
  let ?m = "\<lparr>stores_in_order = True, loads_in_order = True\<rparr>"
  let ?s = "mo_at \<lparr>sl_sequence = 2, sl_mem = put_bytes 64 [1, 2] 0 2 (\<lambda>_. 0)\<rparr> [] WIdle (QRet (Some [1, 2])) [[1, 2]] 1 1"
  have "mo_reach ?m 64 2 (\<lambda>_. 0) ?s" by (rule mo_first_read) simp_all
  moreover have "mo_rpc ?s 0 = QRet (Some [1, 2])" by (simp add: mo_at_def)
  moreover note seqlock_read_consistent [of 2 ?m 64 "\<lambda>_. 0"]
  ultimately have "mo_reach ?m 64 2 (\<lambda>_. 0) ?s \<and> mo_rpc ?s 0 = QRet (Some [1, 2]) \<and>
      0 < mo_began ?s 0 \<and> [1, 2] = mo_calls ?s ! (mo_began ?s 0 - 1)" by fastforce
  moreover have "\<exists>s. mo_reach \<lparr>stores_in_order = False, loads_in_order = True\<rparr> 64 2 (\<lambda>_. 0) s \<and>
      mo_calls s = [[1, 2], [3, 4]] \<and> mo_rpc s 0 = QRet (Some (take 1 [3, 4] @ drop 1 [1, 2]))"
    using seqlock_read_consistent [of 2 "\<lparr>stores_in_order = False, loads_in_order = True\<rparr>" 64 "\<lambda>_. 0",
        THEN conjunct2, rule_format, of "[1, 2]" "[3, 4]" 1] by simp
  ultimately show ?thesis by auto
qed

end
