(* ===== verification/Lockfree_Tests.thy ===== *)
theory Lockfree_Tests
  imports Relocatable Spsc_Queue Index_Set Atomic_Bitset Mpmc_Container
begin

text \<open>
  The unit tests of \<open>crates/entangle-lockfree\<close>, run on the model: every test function that uses a single
  thread, with its assertions. A test that panics or whose assertion fails is \<open>None\<close>. The tests
  with threads are in \<open>Thread_Tests\<close>.
\<close>

subsection \<open>Relocatable pointers\<close>

text \<open>\<open>self\<close> is the address of the pointer, \<open>data\<close> that of the variable it is pointed at.\<close>

definition test_null_by_default :: "u64 \<Rightarrow> unit option" where
  "test_null_by_default self = do {
     let rp = rp_null;
     assert_that (rp_is_null rp);
     assert_that (rp_load self rp = 0)
   }"

definition test_store_and_load :: "u64 \<Rightarrow> u64 \<Rightarrow> unit option" where
  "test_store_and_load self data = do {
     let rp = rp_store self data rp_null;
     assert_that (\<not> rp_is_null rp);
     assert_that (rp_load self rp = data)
   }"

definition test_clear_resets_to_null :: "u64 \<Rightarrow> u64 \<Rightarrow> unit option" where
  "test_clear_resets_to_null self data = do {
     let rp = rp_store self data rp_null;
     assert_that (\<not> rp_is_null rp);
     assert_that (rp_is_null (rp_clear rp))
   }"

subsection \<open>The queue\<close>

definition test_push_pop_basic :: "unit option" where
  "test_push_pop_basic = do {
     let q = spsc_new 4;
     assert_that (spsc_is_empty q);
     (r, q) \<leftarrow> spsc_push q 1; assert_that r;
     (r, q) \<leftarrow> spsc_push q 2; assert_that r;
     (r, q) \<leftarrow> spsc_push q 3; assert_that r;
     (r, q) \<leftarrow> spsc_push q 4; assert_that r;
     assert_that (spsc_is_full q);
     (r, q) \<leftarrow> spsc_push q 5; assert_that (\<not> r);
     (v, q) \<leftarrow> spsc_pop q; assert_that (v = Some 1);
     (v, q) \<leftarrow> spsc_pop q; assert_that (v = Some 2);
     (v, q) \<leftarrow> spsc_pop q; assert_that (v = Some 3);
     (v, q) \<leftarrow> spsc_pop q; assert_that (v = Some 4);
     assert_that (spsc_is_empty q);
     (v, q) \<leftarrow> spsc_pop q; assert_that (v = None)
   }"

fun wrap_rounds :: "u64 list \<Rightarrow> spsc_queue \<Rightarrow> unit option" where
  "wrap_rounds [] q = Some ()"
| "wrap_rounds (round # rounds) q = do {
     (r, q) \<leftarrow> spsc_push q (round * 2); assert_that r;
     (r, q) \<leftarrow> spsc_push q (round * 2 + 1); assert_that r;
     (v, q) \<leftarrow> spsc_pop q; assert_that (v = Some (round * 2));
     (v, q) \<leftarrow> spsc_pop q; assert_that (v = Some (round * 2 + 1));
     wrap_rounds rounds q
   }"

definition test_wrap_around :: "unit option" where
  "test_wrap_around = wrap_rounds (map of_nat [0..<10]) (spsc_new 2)"

definition test_len_tracking :: "unit option" where
  "test_len_tracking = do {
     let q = spsc_new 4;
     assert_that (spsc_len q = 0);
     (_, q) \<leftarrow> spsc_push q 1;
     assert_that (spsc_len q = 1);
     (_, q) \<leftarrow> spsc_push q 2;
     assert_that (spsc_len q = 2);
     (_, q) \<leftarrow> spsc_pop q;
     assert_that (spsc_len q = 1)
   }"

subsection \<open>The index set\<close>

definition test_basic_acquire_release :: "unit option" where
  "test_basic_acquire_release = do {
     s \<leftarrow> uis_new 4;
     assert_that (uis_borrowed_count s = 0);
     assert_that (uis_available s = 4);
     (r, s) \<leftarrow> uis_acquire s; a \<leftarrow> unwrap r;
     (r, s) \<leftarrow> uis_acquire s; b \<leftarrow> unwrap r;
     assert_that (a \<noteq> b);
     assert_that (uis_borrowed_count s = 2);
     s \<leftarrow> uis_release a s;
     assert_that (uis_borrowed_count s = 1);
     s \<leftarrow> uis_release b s;
     assert_that (uis_borrowed_count s = 0)
   }"

definition test_exhaust_and_recover :: "unit option" where
  "test_exhaust_and_recover = do {
     s \<leftarrow> uis_new 2;
     (r, s) \<leftarrow> uis_acquire s; a \<leftarrow> unwrap r;
     (r, s) \<leftarrow> uis_acquire s; b \<leftarrow> unwrap r;
     (r, s) \<leftarrow> uis_acquire s; assert_that (\<not> is_Ok r);
     s \<leftarrow> uis_release a s;
     (r, s) \<leftarrow> uis_acquire s; c \<leftarrow> unwrap r;
     assert_that (c = a);
     s \<leftarrow> uis_release b s;
     s \<leftarrow> uis_release c s;
     Some ()
   }"

text \<open>The loop that acquires \<open>n\<close> indices, and the one that releases a list of them.\<close>

fun acquire_n :: "nat \<Rightarrow> unique_index_set \<Rightarrow> (u32 list \<times> unique_index_set) option" where
  "acquire_n 0 s = Some ([], s)"
| "acquire_n (Suc n) s = do {
     (r, s) \<leftarrow> uis_acquire s;
     i \<leftarrow> unwrap r;
     (ixs, s) \<leftarrow> acquire_n n s;
     Some (i # ixs, s)
   }"

fun release_all :: "u32 list \<Rightarrow> unique_index_set \<Rightarrow> unique_index_set option" where
  "release_all [] s = Some s"
| "release_all (i # ixs) s = do { s \<leftarrow> uis_release i s; release_all ixs s }"

definition test_all_indices_unique :: "unit option" where
  "test_all_indices_unique = do {
     s \<leftarrow> uis_new 64;
     (acquired, s) \<leftarrow> acquire_n 64 s;
     assert_that (length (remdups_adj (sort acquired)) = 64)
   }"

definition test_large_capacity_beyond_16bit :: "unit option" where
  "test_large_capacity_beyond_16bit = do {
     s \<leftarrow> uis_new 100000;
     (indices, s) \<leftarrow> acquire_n 70000 s;
     assert_that (uis_borrowed_count s = 70000);
     s \<leftarrow> release_all indices s;
     assert_that (uis_borrowed_count s = 0)
   }"

subsection \<open>The bitset\<close>

definition test_set_and_check :: "unit option" where
  "test_set_and_check = do {
     let bs = bs_new 128;
     r \<leftarrow> bs_is_set 0 bs; assert_that (\<not> r);
     (r, bs) \<leftarrow> bs_set 0 bs; assert_that r;
     r \<leftarrow> bs_is_set 0 bs; assert_that r;
     (r, bs) \<leftarrow> bs_set 0 bs; assert_that (\<not> r)
   }"

definition test_clear :: "unit option" where
  "test_clear = do {
     (_, bs) \<leftarrow> bs_set 42 (bs_new 128);
     (r, bs) \<leftarrow> bs_clear 42 bs; assert_that r;
     r \<leftarrow> bs_is_set 42 bs; assert_that (\<not> r);
     (r, bs) \<leftarrow> bs_clear 42 bs; assert_that (\<not> r)
   }"

definition test_count :: "unit option" where
  "test_count = do {
     (_, bs) \<leftarrow> bs_set 0 (bs_new 128);
     (_, bs) \<leftarrow> bs_set 63 bs;
     (_, bs) \<leftarrow> bs_set 64 bs;
     (_, bs) \<leftarrow> bs_set 127 bs;
     assert_that (bs_count_set bs = 4)
   }"

definition test_find_and_clear :: "unit option" where
  "test_find_and_clear = do {
     (_, bs) \<leftarrow> bs_set 5 (bs_new 128);
     (_, bs) \<leftarrow> bs_set 70 bs;
     let (r, bs) = bs_find_and_clear_first_set bs;
     assert_that (r = Some 5);
     let (r, bs) = bs_find_and_clear_first_set bs;
     assert_that (r = Some 70);
     let (r, bs) = bs_find_and_clear_first_set bs;
     assert_that (r = None)
   }"

subsection \<open>The slot container\<close>

definition test_add_and_get :: "unit option" where
  "test_add_and_get = do {
     c \<leftarrow> mpmc_new 4;
     (r, c) \<leftarrow> mpmc_add 100 c; s0 \<leftarrow> r;
     (r, c) \<leftarrow> mpmc_add 200 c; s1 \<leftarrow> r;
     v \<leftarrow> mpmc_get s0 c; assert_that (v = Some 100);
     v \<leftarrow> mpmc_get s1 c; assert_that (v = Some 200);
     assert_that (mpmc_len c = 2)
   }"

definition test_remove :: "unit option" where
  "test_remove = do {
     c \<leftarrow> mpmc_new 4;
     (r, c) \<leftarrow> mpmc_add 42 c; s \<leftarrow> r;
     (v, c) \<leftarrow> mpmc_remove s c; assert_that (v = Some 42);
     v \<leftarrow> mpmc_get s c; assert_that (v = None);
     assert_that (mpmc_len c = 0)
   }"

definition test_full :: "unit option" where
  "test_full = do {
     c \<leftarrow> mpmc_new 2;
     (r, c) \<leftarrow> mpmc_add 1 c; s1 \<leftarrow> r;
     (r, c) \<leftarrow> mpmc_add 2 c; s2 \<leftarrow> r;
     (r, c) \<leftarrow> mpmc_add 3 c; assert_that (r = None)
   }"

definition test_reuse_after_remove :: "unit option" where
  "test_reuse_after_remove = do {
     c \<leftarrow> mpmc_new 2;
     (r, c) \<leftarrow> mpmc_add 1 c; s \<leftarrow> r;
     (_, c) \<leftarrow> mpmc_remove s c;
     (r, c) \<leftarrow> mpmc_add 99 c; s2 \<leftarrow> r;
     v \<leftarrow> mpmc_get s2 c; assert_that (v = Some 99)
   }"

definition test_for_each :: "unit option" where
  "test_for_each = do {
     c \<leftarrow> mpmc_new 4;
     (_, c) \<leftarrow> mpmc_add 10 c;
     (_, c) \<leftarrow> mpmc_add 20 c;
     (_, c) \<leftarrow> mpmc_add 30 c;
     visited \<leftarrow> mpmc_for_each c;
     assert_that (sort (map snd visited) = [10, 20, 30])
   }"

subsection \<open>They pass\<close>

lemma relocatable_tests_pass:
  "test_null_by_default self = Some ()"
  "data \<noteq> self \<Longrightarrow> test_store_and_load self data = Some ()"
  "data \<noteq> self \<Longrightarrow> test_clear_resets_to_null self data = Some ()"
  by (simp_all add: test_null_by_default_def test_store_and_load_def test_clear_resets_to_null_def rp_null_def
      rp_is_null_def rp_load_def rp_store_def rp_from_ptr_def rp_clear_def Let_def)

text \<open>The tests with concrete numbers are evaluated.\<close>

lemma spsc_tests_pass:
  "test_push_pop_basic = Some ()" "test_wrap_around = Some ()" "test_len_tracking = Some ()"
  by code_simp+

lemma bitset_tests_pass:
  "test_set_and_check = Some ()" "test_clear = Some ()" "test_count = Some ()" "test_find_and_clear = Some ()"
  by code_simp+

lemma mpmc_tests_pass:
  "test_add_and_get = Some ()" "test_remove = Some ()" "test_full = Some ()"
  "test_reuse_after_remove = Some ()" "test_for_each = Some ()"
  by code_simp+

text \<open>The two tests with many indices follow from the free stack.\<close>

lemma acquire_n_free:
  assumes "uis_wf s" and "n \<le> length (uis_free s)"
  obtains s' where "acquire_n n s = Some (take n (uis_free s), s')" "uis_wf s'"
    "uis_free s' = drop n (uis_free s)" "uis_capacity s' = uis_capacity s"
  using assms
proof (induction n arbitrary: s thesis)
  case (Suc n)
  obtain x xs where xs: "uis_free s = x # xs" using Suc.prems(3) by (cases "uis_free s") auto
  obtain s1 where s1: "uis_acquire s = Some (Ok x, s1)" "uis_wf s1" "uis_free s1 = xs"
      "uis_capacity s1 = uis_capacity s"
    using uis_acquire_Cons [OF Suc.prems(2) xs] .
  obtain s2 where "acquire_n n s1 = Some (take n xs, s2)" "uis_wf s2" "uis_free s2 = drop n xs"
      "uis_capacity s2 = uis_capacity s1"
    using Suc.IH [of s1] Suc.prems(3) s1(2,3) xs by auto
  then show ?case using Suc.prems(1) [of s2] s1 xs by simp
qed simp

lemma release_all_free:
  assumes "uis_wf s" and "distinct ixs" and "set ixs \<subseteq> {..<uis_capacity s}" and "set ixs \<inter> set (uis_free s) = {}"
  obtains s' where "release_all ixs s = Some s'" "uis_wf s'" "uis_free s' = rev ixs @ uis_free s"
    "uis_capacity s' = uis_capacity s"
  using assms
proof (induction ixs arbitrary: s thesis)
  case (Cons i ixs)
  obtain s1 where s1: "uis_release i s = Some s1" "uis_wf s1" "uis_free s1 = i # uis_free s"
      "uis_capacity s1 = uis_capacity s"
    using uis_release_wf [OF Cons.prems(2), of i] Cons.prems(4,5) by auto
  obtain s2 where "release_all ixs s1 = Some s2" "uis_wf s2" "uis_free s2 = rev ixs @ uis_free s1"
      "uis_capacity s2 = uis_capacity s1"
    using Cons.IH [of s1] Cons.prems(3-5) s1(2-4) by auto
  then show ?case using Cons.prems(1) [of s2] s1 by simp
qed simp

lemma acquire_release_fresh:
  assumes "0 < c" and "c < SENTINEL" and "n \<le> unat c"
  obtains s ixs s1 s2 where "uis_new c = Some s" "acquire_n n s = Some (ixs, s1)" "length ixs = n" "distinct ixs"
    "unat (uis_borrowed_count s1) = n" "release_all ixs s1 = Some s2" "uis_borrowed_count s2 = 0"
proof -
  obtain s where s: "uis_new c = Some s" using assms(1,2) by (simp add: uis_new_def)
  then have wf: "uis_wf s" "length (uis_free s) = unat c" "uis_capacity s = c" using uis_new_wf [OF s] by auto
  let ?ixs = "take n (uis_free s)"
  obtain s1 where s1: "acquire_n n s = Some (?ixs, s1)" "uis_wf s1" "uis_free s1 = drop n (uis_free s)"
      "uis_capacity s1 = c"
    using acquire_n_free [OF wf(1), of n] assms(3) wf(2,3) by auto
  have dist: "distinct (?ixs @ drop n (uis_free s))" using uis_free_distinct [OF wf(1)] by simp
  have bound: "set ?ixs \<subseteq> {..<c}" using uis_free_bound [OF wf(1)] wf(3) by (auto dest: in_set_takeD)
  obtain s2 where s2: "release_all ?ixs s1 = Some s2" "uis_wf s2" "uis_free s2 = rev ?ixs @ drop n (uis_free s)"
      "uis_capacity s2 = c"
  proof (rule release_all_free [OF s1(2), of ?ixs])
    show "distinct ?ixs" "set ?ixs \<inter> set (uis_free s1) = {}"
      using dist unfolding s1(3) distinct_append by blast+
  qed (use bound s1 in auto)
  have "unat (uis_borrowed_count s1) = n"
    using uis_wf_borrowed [OF s1(2)] s1(3,4) wf(2) assms(3) by (simp add: uis_borrowed_count_def)
  moreover have "uis_borrowed_count s2 = 0"
    using uis_wf_borrowed [OF s2(2)] s2(3,4) wf(2) assms(3)
    by (simp add: uis_borrowed_count_def unat_eq_0 [symmetric])
  ultimately show ?thesis using that [OF s s1(1)] s2(1) dist wf(2) assms(3) by auto
qed

lemma remdups_adj_sort_distinct: "distinct xs \<Longrightarrow> length (remdups_adj (sort xs)) = length xs"
  by (simp add: remdups_adj_distinct)

lemma index_set_tests_pass:
  "test_basic_acquire_release = Some ()" "test_exhaust_and_recover = Some ()"
  "test_all_indices_unique = Some ()" "test_large_capacity_beyond_16bit = Some ()"
proof -
  show "test_basic_acquire_release = Some ()" "test_exhaust_and_recover = Some ()" by code_simp+
  have large: "(0 :: u32) < 64" "(64 :: u32) < SENTINEL" "64 \<le> unat (64 :: u32)"
    "(0 :: u32) < 100000" "(100000 :: u32) < SENTINEL" "70000 \<le> unat (100000 :: u32)"
    by (simp_all add: SENTINEL_def)
  show "test_all_indices_unique = Some ()"
    using acquire_release_fresh [OF large(1-3)]
    by (rule) (simp add: test_all_indices_unique_def remdups_adj_sort_distinct del: acquire_n.simps)
  obtain s ixs s1 s2 where "uis_new 100000 = Some s" "acquire_n 70000 s = Some (ixs, s1)" "length ixs = 70000"
      "distinct ixs" "unat (uis_borrowed_count s1) = 70000" "release_all ixs s1 = Some s2" "uis_borrowed_count s2 = 0"
    using acquire_release_fresh [OF large(4-6)] .
  moreover have "uis_borrowed_count s1 = 70000"
    using arg_cong [OF \<open>unat (uis_borrowed_count s1) = 70000\<close>, of "of_nat :: nat \<Rightarrow> u32"] by simp
  ultimately show "test_large_capacity_beyond_16bit = Some ()"
    unfolding test_large_capacity_beyond_16bit_def by (simp del: acquire_n.simps release_all.simps)
qed

end
