(* ===== verification/Thread_Tests.thy ===== *)
theory Thread_Tests
  imports Mpmc_Conc Spsc_Conc "HOL-Library.Sublist"
begin

text \<open>
  The tests of \<open>crates/entangle-lockfree\<close> that start threads, among them those written for the model
  checker \<open>loom\<close>: the programs of their threads on top of the interleaved accesses of \<open>Index_Set_Conc\<close>,
  \<open>Spsc_Conc\<close> and \<open>Atomic_Bitset\<close>, for any number of threads and rounds. Whatever the schedule, the
  assertion at the end of the test holds once all threads have finished.
\<close>

subsection \<open>Acquiring and releasing\<close>

text \<open>Each of \<open>threads\<close> threads does \<open>rounds\<close> times: acquire an index and, if it got one, release it.\<close>

record churn =
  ct_set :: uis_sys
  ct_rounds :: "nat \<Rightarrow> nat"
  ct_index :: "nat \<Rightarrow> u32 option"

inductive churn_step :: "churn \<Rightarrow> churn \<Rightarrow> bool" where
  ct_acquire: "ct_rounds s t = Suc k \<Longrightarrow> ct_index s t = None \<Longrightarrow> thr (ct_set s) t = Idle \<Longrightarrow>
    churn_step s (s\<lparr>ct_set := (ct_set s)\<lparr>thr := (thr (ct_set s))(t := InAcq AcqStart)\<rparr>,
      ct_rounds := (ct_rounds s)(t := k)\<rparr>)"
| ct_in_acquire: "thr (ct_set s) t = InAcq p \<Longrightarrow> acq_step b (shared (ct_set s)) p = (u, p') \<Longrightarrow>
    churn_step s (s\<lparr>ct_set := advance (ct_set s) t u (InAcq p')\<rparr>)"
| ct_got: "thr (ct_set s) t = InAcq (AcqRet (Ok i)) \<Longrightarrow>
    churn_step s (s\<lparr>ct_set := (ct_set s)\<lparr>thr := (thr (ct_set s))(t := Idle), held := insert i (held (ct_set s))\<rparr>,
      ct_index := (ct_index s)(t := Some i)\<rparr>)"
| ct_got_none: "thr (ct_set s) t = InAcq (AcqRet (Err e)) \<Longrightarrow>
    churn_step s (s\<lparr>ct_set := (ct_set s)\<lparr>thr := (thr (ct_set s))(t := Idle)\<rparr>\<rparr>)"
| ct_release: "ct_index s t = Some i \<Longrightarrow> thr (ct_set s) t = Idle \<Longrightarrow>
    churn_step s (s\<lparr>ct_set := (ct_set s)\<lparr>thr := (thr (ct_set s))(t := InRel (RelStart i)),
      held := held (ct_set s) - {i}\<rparr>, ct_index := (ct_index s)(t := None)\<rparr>)"
| ct_in_release: "thr (ct_set s) t = InRel p \<Longrightarrow> rel_step b (shared (ct_set s)) p = (u, p') \<Longrightarrow>
    churn_step s (s\<lparr>ct_set := advance (ct_set s) t u (InRel p')\<rparr>)"
| ct_released: "thr (ct_set s) t = InRel RelRet \<Longrightarrow>
    churn_step s (s\<lparr>ct_set := (ct_set s)\<lparr>thr := (thr (ct_set s))(t := Idle)\<rparr>\<rparr>)"

definition churn_start :: "nat \<Rightarrow> nat \<Rightarrow> unique_index_set \<Rightarrow> churn" where
  "churn_start threads rounds u = \<lparr>ct_set = uis_init u,
     ct_rounds = (\<lambda>t. if t < threads then rounds else 0), ct_index = (\<lambda>_. None)\<rparr>"

definition churn_finished :: "churn \<Rightarrow> bool" where
  "churn_finished s \<longleftrightarrow> (\<forall>t. ct_rounds s t = 0 \<and> ct_index s t = None \<and> thr (ct_set s) t = Idle)"

text \<open>An upper bound for the exchanges of the head word that a thread still makes, which shows that the tag
  cannot come around in a test.\<close>

fun pc_credit :: "uis_pc \<Rightarrow> nat" where
  "pc_credit Idle = 0"
| "pc_credit (InAcq (AcqCount i)) = 1"
| "pc_credit (InAcq (AcqRet r)) = 1"
| "pc_credit (InAcq AcqPanic) = 0"
| "pc_credit (InAcq p) = 2"
| "pc_credit (InRel (RelStart i)) = 1"
| "pc_credit (InRel (RelLoop i old)) = 1"
| "pc_credit (InRel (RelCas i old)) = 1"
| "pc_credit (InRel p) = 0"

definition credit :: "churn \<Rightarrow> nat \<Rightarrow> nat" where
  "credit s t = 2 * ct_rounds s t + pc_credit (thr (ct_set s) t) + (if ct_index s t = None then 0 else 1)"

lemma acq_credit:
  "acq_step b u p = (u', p') \<Longrightarrow>
     pc_credit (InAcq p') + (if uis_head u' = uis_head u then 0 else 1) \<le> pc_credit (InAcq p)"
  by (cases p) (auto simp: Let_def split: if_splits option.splits)

lemma rel_credit:
  "rel_step b u p = (u', p') \<Longrightarrow>
     pc_credit (InRel p') + (if uis_head u' = uis_head u then 0 else 1) \<le> pc_credit (InRel p)"
  by (cases p) (auto split: if_splits option.splits)

definition churn_inv :: "nat \<Rightarrow> nat \<Rightarrow> u32 \<Rightarrow> churn \<Rightarrow> bool" where
  "churn_inv n k c s \<longleftrightarrow> uis_reach c (ct_set s) \<and> held (ct_set s) = ran (ct_index s) \<and>
     (\<forall>t u i. ct_index s t = Some i \<longrightarrow> ct_index s u = Some i \<longrightarrow> t = u) \<and>
     ver (ct_set s) + (\<Sum>t<n. credit s t) \<le> 2 * n * k \<and> (\<forall>t\<ge>n. credit s t = 0 \<and> thr (ct_set s) t = Idle) \<and>
     (\<forall>t. thr (ct_set s) t \<noteq> Idle \<longrightarrow> ct_index s t = None)"

lemma churn_budget:
  assumes "t < n" and "\<And>u. u \<noteq> t \<Longrightarrow> credit s' u = credit s u"
    and "ver (ct_set s') + credit s' t \<le> ver (ct_set s) + credit s t"
    and "ver (ct_set s) + (\<Sum>t<n. credit s t) \<le> B"
  shows "ver (ct_set s') + (\<Sum>t<n. credit s' t) \<le> B"
proof -
  have "(\<Sum>t<n. credit s t) = credit s t + sum (credit s) ({..<n} - {t})"
    "(\<Sum>t<n. credit s' t) = credit s' t + sum (credit s') ({..<n} - {t})"
    using assms(1) by (simp_all add: sum.remove)
  moreover have "sum (credit s') ({..<n} - {t}) = sum (credit s) ({..<n} - {t})"
    by (rule sum.cong) (simp_all add: assms(2))
  ultimately show ?thesis using assms(3,4) by linarith
qed

lemma churn_inv_window:
  assumes "churn_inv n k c s" and "2 * n * k < 2 ^ 32"
  shows "tag_window (ct_set s)"
proof -
  have "ver (ct_set s) \<le> 2 * n * k" using assms(1) by (simp add: churn_inv_def)
  then show ?thesis using assms(2) unfolding tag_window_def by (meson diff_le_self le_less_trans)
qed

text \<open>An index that \<open>acquire\<close> is about to return is not in anybody's hands yet.\<close>

lemma uis_reach_returning:
  assumes "uis_reach c s" and "thr s t = InAcq (AcqRet (Ok i))"
  shows "i \<notin> held s"
proof -
  obtain xs where "owners_ok s xs" using uis_reach_inv [OF assms(1)] by (auto simp: uis_inv_def)
  moreover have "at_place s xs i (Thread t)" using assms(2) by simp
  ultimately have "\<not> at_place s xs i Caller" using owners_okD(2) by blast
  then show ?thesis by simp
qed

lemma churn_inv_move:
  assumes inv: "churn_inv n k c s" and win: "2 * n * k < 2 ^ 32" and step: "uis_step (ct_set s) (ct_set s')"
    and busy: "credit s t \<noteq> 0 \<or> thr (ct_set s) t \<noteq> Idle" and other: "\<And>u. u \<noteq> t \<Longrightarrow> credit s' u = credit s u"
      "\<And>u. u \<noteq> t \<Longrightarrow> thr (ct_set s') u = thr (ct_set s) u"
    and pay: "ver (ct_set s') + credit s' t \<le> ver (ct_set s) + credit s t"
    and owners: "held (ct_set s') = ran (ct_index s')"
      "\<forall>t u i. ct_index s' t = Some i \<longrightarrow> ct_index s' u = Some i \<longrightarrow> t = u"
      "\<forall>t. thr (ct_set s') t \<noteq> Idle \<longrightarrow> ct_index s' t = None"
  shows "churn_inv n k c s'"
proof -
  have t: "t < n" using inv busy by (meson churn_inv_def not_less)
  have "uis_reach c (ct_set s')"
    using uis_reach.step [OF _ churn_inv_window [OF inv win] step] inv by (simp add: churn_inv_def)
  moreover have "ver (ct_set s') + (\<Sum>t<n. credit s' t) \<le> 2 * n * k"
    using churn_budget [OF t other(1) pay] inv by (simp add: churn_inv_def)
  moreover have "credit s' u = 0 \<and> thr (ct_set s') u = Idle" if "n \<le> u" for u
    using that t other inv by (auto simp: churn_inv_def)
  ultimately show ?thesis using owners by (simp add: churn_inv_def)
qed

lemma churn_inv_step:
  assumes "churn_step s s'" and inv: "churn_inv n k c s" and win: "2 * n * k < 2 ^ 32"
  shows "churn_inv n k c s'"
proof -
  note move = churn_inv_move [OF inv win]
  have own: "held (ct_set s) = ran (ct_index s)"
      "\<forall>t u i. ct_index s t = Some i \<longrightarrow> ct_index s u = Some i \<longrightarrow> t = u"
      "\<forall>t. thr (ct_set s) t \<noteq> Idle \<longrightarrow> ct_index s t = None"
    using inv by (simp_all add: churn_inv_def)
  from assms(1) show ?thesis
  proof cases
    case (ct_acquire t k)
    have "uis_step (ct_set s) (ct_set s')" unfolding ct_acquire(1) using ct_acquire(4) by (auto intro: uis_step.call_acquire)
    then show ?thesis by (rule move [where t = t]) (use ct_acquire own in \<open>auto simp: credit_def\<close>)
  next
    case (ct_in_acquire t p b u p')
    have "uis_step (ct_set s) (ct_set s')"
      unfolding ct_in_acquire(1) using ct_in_acquire(2,3) by (auto intro: uis_step.in_acquire)
    then show ?thesis
      by (rule move [where t = t])
        (use ct_in_acquire own acq_credit [OF ct_in_acquire(3)] in
          \<open>auto simp: credit_def advance_def split: if_splits\<close>)
  next
    case (ct_got t i)
    have "uis_reach c (ct_set s)" using inv by (simp add: churn_inv_def)
    then have new: "i \<notin> held (ct_set s)" using ct_got(2) by (rule uis_reach_returning)
    have "uis_step (ct_set s) (ct_set s')" unfolding ct_got(1) using ct_got(2) by (auto intro: uis_step.return_index)
    moreover have "ct_index s t = None" using own(3) ct_got(2) by simp
    moreover have "ct_index s u \<noteq> Some i" for u using new own(1) by (auto intro: ranI)
    ultimately show ?thesis by (intro move [where t = t]) (use ct_got own in \<open>auto simp: credit_def\<close>)
  next
    case (ct_got_none t e)
    have "uis_step (ct_set s) (ct_set s')"
      unfolding ct_got_none(1) using ct_got_none(2) by (auto intro: uis_step.return_error)
    then show ?thesis by (rule move [where t = t]) (use ct_got_none own in \<open>auto simp: credit_def\<close>)
  next
    case (ct_release t i)
    have "i \<in> held (ct_set s)" using ct_release(2) own(1) by (simp add: ranI)
    then have "uis_step (ct_set s) (ct_set s')"
      unfolding ct_release(1) using ct_release(3) by (auto intro: uis_step.call_release)
    moreover have "ran ((ct_index s)(t := None)) = ran (ct_index s) - {i}"
      using own(2) ct_release(2) by (auto simp: ran_def) (metis option.inject)
    ultimately show ?thesis by (intro move [where t = t]) (use ct_release own in \<open>auto simp: credit_def\<close>)
  next
    case (ct_in_release t p b u p')
    have "uis_step (ct_set s) (ct_set s')"
      unfolding ct_in_release(1) using ct_in_release(2,3) by (auto intro: uis_step.in_release)
    then show ?thesis
      by (rule move [where t = t])
        (use ct_in_release own rel_credit [OF ct_in_release(3)] in
          \<open>auto simp: credit_def advance_def split: if_splits\<close>)
  next
    case (ct_released t)
    have "uis_step (ct_set s) (ct_set s')"
      unfolding ct_released(1) using ct_released(2) by (auto intro: uis_step.return_release)
    then show ?thesis by (rule move [where t = t]) (use ct_released own in \<open>auto simp: credit_def\<close>)
  qed
qed

lemma churn_inv_start:
  assumes "uis_new c = Some u"
  shows "churn_inv n k c (churn_start n k u)"
proof -
  have "(\<Sum>t<n. credit (churn_start n k u) t) = (\<Sum>t<n. 2 * k)"
    by (rule sum.cong) (simp_all add: credit_def churn_start_def uis_init_def)
  then show ?thesis
    using uis_reach.init [OF assms] by (simp add: churn_inv_def churn_start_def credit_def uis_init_def)
qed

text \<open>Whatever the schedule, nothing is borrowed when all threads have finished.\<close>

lemma churn_reach_inv:
  assumes "uis_new c = Some u" and "2 * n * k < 2 ^ 32" and "churn_step\<^sup>*\<^sup>* (churn_start n k u) s"
  shows "churn_inv n k c s"
  using assms(3) by (induction rule: rtranclp_induct) (use churn_inv_start assms(1,2) churn_inv_step in blast)+

lemma churn_returns_all:
  assumes "uis_new c = Some u" and "2 * n * k < 2 ^ 32" and "churn_step\<^sup>*\<^sup>* (churn_start n k u) s"
    and "churn_finished s"
  shows "uis_borrowed_count (shared (ct_set s)) = 0"
proof -
  have "churn_inv n k c s" using churn_reach_inv [OF assms(1-3)] .
  then have "uis_reach c (ct_set s)" "held (ct_set s) = {}"
    using assms(4) by (simp_all add: churn_inv_def churn_finished_def ran_def)
  then have "unat (uis_borrowed_count (shared (ct_set s))) = 0"
    using uis_count_at_rest [of c "ct_set s"] assms(4) by (simp add: churn_finished_def)
  then show ?thesis by (simp add: unat_eq_0)
qed

text \<open>\<open>concurrent_acquire_release\<close>, with 8 threads and 100 rounds, and the \<open>loom\<close> test, with 2 threads and one
  round, which asks that no thread panics.\<close>

definition test_concurrent_acquire_release :: bool where
  "test_concurrent_acquire_release \<longleftrightarrow> (\<forall>u s. uis_new 64 = Some u \<longrightarrow>
     churn_step\<^sup>*\<^sup>* (churn_start 8 100 u) s \<longrightarrow> churn_finished s \<longrightarrow> uis_borrowed_count (shared (ct_set s)) = 0)"

definition test_concurrent_acquire_release_never_duplicates :: bool where
  "test_concurrent_acquire_release_never_duplicates \<longleftrightarrow> (\<forall>u s t. uis_new 3 = Some u \<longrightarrow>
     churn_step\<^sup>*\<^sup>* (churn_start 2 1 u) s \<longrightarrow>
     thr (ct_set s) t \<noteq> InAcq AcqPanic \<and> thr (ct_set s) t \<noteq> InRel RelPanic)"

lemma index_set_thread_tests_pass:
  "test_concurrent_acquire_release" "test_concurrent_acquire_release_never_duplicates"
proof -
  show "test_concurrent_acquire_release"
    using churn_returns_all [where n = 8 and k = 100] unfolding test_concurrent_acquire_release_def by simp
  show "test_concurrent_acquire_release_never_duplicates"
    unfolding test_concurrent_acquire_release_never_duplicates_def
  proof (intro allI impI)
    fix u s t assume "uis_new 3 = Some u" "churn_step\<^sup>*\<^sup>* (churn_start 2 1 u) s"
    then have "churn_inv 2 1 3 s" by (intro churn_reach_inv) simp_all
    then have "uis_reach 3 (ct_set s)" by (simp add: churn_inv_def)
    then show "thr (ct_set s) t \<noteq> InAcq AcqPanic \<and> thr (ct_set s) t \<noteq> InRel RelPanic"
      using uis_reach_no_panic by blast
  qed
qed

subsection \<open>A producer and a consumer\<close>

text \<open>The producer pushes the values of \<open>rl_todo\<close>; with \<open>retry\<close> it repeats a push that found the queue full. The consumer
  pops as long as \<open>again\<close> says so, of the number of pops so far and the values received.\<close>

record relay =
  rl_queue :: spsc_sys
  rl_todo :: "u64 list"
  rl_pops :: nat
  rl_received :: "u64 list"

inductive relay_step :: "bool \<Rightarrow> (nat \<Rightarrow> u64 list \<Rightarrow> bool) \<Rightarrow> relay \<Rightarrow> relay \<Rightarrow> bool" for retry again where
  rl_push: "prod (rl_queue s) = PIdle \<Longrightarrow> rl_todo s = v # vs \<Longrightarrow>
    relay_step retry again s (s\<lparr>rl_queue := (rl_queue s)\<lparr>prod := PStart v\<rparr>\<rparr>)"
| rl_in_push: "prod_step (ring (rl_queue s)) (prod (rl_queue s)) = (q, pc) \<Longrightarrow>
    relay_step retry again s (s\<lparr>rl_queue := (rl_queue s)\<lparr>ring := q, prod := pc,
      pushed := pushed (rl_queue s) @ prod_log (prod (rl_queue s))\<rparr>\<rparr>)"
| rl_pushed: "prod (rl_queue s) = PRet b \<Longrightarrow>
    relay_step retry again s (s\<lparr>rl_queue := (rl_queue s)\<lparr>prod := PIdle\<rparr>,
      rl_todo := (if b \<or> \<not> retry then tl (rl_todo s) else rl_todo s)\<rparr>)"
| rl_pop: "cons (rl_queue s) = CIdle \<Longrightarrow> again (rl_pops s) (rl_received s) \<Longrightarrow>
    relay_step retry again s (s\<lparr>rl_queue := (rl_queue s)\<lparr>cons := CStart\<rparr>, rl_pops := Suc (rl_pops s)\<rparr>)"
| rl_in_pop: "cons_step (ring (rl_queue s)) (cons (rl_queue s)) = (q, pc) \<Longrightarrow>
    relay_step retry again s (s\<lparr>rl_queue := (rl_queue s)\<lparr>ring := q, cons := pc,
      popped := popped (rl_queue s) @ cons_log (cons (rl_queue s))\<rparr>\<rparr>)"
| rl_popped: "cons (rl_queue s) = CRet r \<Longrightarrow>
    relay_step retry again s (s\<lparr>rl_queue := (rl_queue s)\<lparr>cons := CIdle\<rparr>,
      rl_received := rl_received s @ (case r of None \<Rightarrow> [] | Some v \<Rightarrow> [v])\<rparr>)"

definition relay_start :: "usize \<Rightarrow> u64 list \<Rightarrow> relay" where
  "relay_start capacity vs = \<lparr>rl_queue = spsc_init capacity, rl_todo = vs, rl_pops = 0, rl_received = []\<rparr>"

definition relay_finished :: "(nat \<Rightarrow> u64 list \<Rightarrow> bool) \<Rightarrow> relay \<Rightarrow> bool" where
  "relay_finished again s \<longleftrightarrow> prod (rl_queue s) = PIdle \<and> rl_todo s = [] \<and> cons (rl_queue s) = CIdle \<and>
     \<not> again (rl_pops s) (rl_received s)"

text \<open>What the producer still has to push, and what the consumer is about to receive.\<close>

fun push_value :: "prod_pc \<Rightarrow> u64 option" where
  "push_value (PStart v) = Some v"
| "push_value (PWrite v w) = Some v"
| "push_value (PRead v w r) = Some v"
| "push_value (PStored v w) = Some v"
| "push_value pc = None"

fun pop_value :: "cons_pc \<Rightarrow> u64 list" where
  "pop_value (CRet (Some v)) = [v]"
| "pop_value pc = []"

definition left_to_push :: "prod_pc \<Rightarrow> u64 list \<Rightarrow> u64 list" where
  "left_to_push pc todo = (if pc = PRet True then tl todo else todo)"

definition push_ok :: "bool \<Rightarrow> u64 list \<Rightarrow> prod_pc \<Rightarrow> u64 list \<Rightarrow> u64 list \<Rightarrow> bool" where
  "push_ok retry vs pc sent todo \<longleftrightarrow>
     (\<forall>v. push_value pc = Some v \<longrightarrow> (\<exists>ws. todo = v # ws)) \<and> (pc = PRet True \<longrightarrow> todo \<noteq> []) \<and>
     subseq (sent @ left_to_push pc todo) vs \<and> (retry \<longrightarrow> sent @ left_to_push pc todo = vs)"

definition relay_inv :: "bool \<Rightarrow> usize \<Rightarrow> u64 list \<Rightarrow> relay \<Rightarrow> bool" where
  "relay_inv retry n vs s \<longleftrightarrow> spsc_reach n (rl_queue s) \<and>
     push_ok retry vs (prod (rl_queue s)) (pushed (rl_queue s)) (rl_todo s) \<and>
     popped (rl_queue s) = rl_received s @ pop_value (cons (rl_queue s))"

lemma push_ok_step:
  assumes step: "prod_step q pc = (q', pc')" and ok: "push_ok retry vs pc sent todo"
  shows "push_ok retry vs pc' (sent @ prod_log pc) todo"
proof -
  have "prod_log pc @ left_to_push pc' todo = left_to_push pc todo"
    using assms by (cases pc) (auto simp: push_ok_def left_to_push_def split: if_splits option.splits)
  moreover have "push_value pc' = Some v \<Longrightarrow> push_value pc = Some v" for v
    using step by (cases pc) (auto split: if_splits option.splits)
  moreover have "pc' = PRet True \<Longrightarrow> pc = PRet True \<or> (\<exists>v. push_value pc = Some v)"
    using step by (cases pc) (auto split: if_splits option.splits)
  ultimately show ?thesis using ok by (auto simp: push_ok_def)
qed

lemma push_ok_return:
  assumes "push_ok retry vs (PRet b) sent todo"
  shows "push_ok retry vs PIdle sent (if b \<or> \<not> retry then tl todo else todo)"
proof (cases b)
  case False
  have "subseq (tl todo) todo" by (cases todo) auto
  then have "subseq (sent @ tl todo) (sent @ todo)" by (simp add: subseq_append')
  then show ?thesis
    using assms False subseq_order.trans [of "sent @ tl todo" "sent @ todo" vs]
    by (auto simp: push_ok_def left_to_push_def)
qed (use assms in \<open>simp add: push_ok_def left_to_push_def\<close>)

lemma cons_step_value: "cons_step q pc = (q', pc') \<Longrightarrow> pop_value pc' = pop_value pc @ cons_log pc"
  by (cases pc) (auto split: if_splits option.splits)

lemma relay_inv_step: "relay_step retry again s s' \<Longrightarrow> relay_inv retry n vs s \<Longrightarrow> relay_inv retry n vs s'"
proof (induction rule: relay_step.induct)
  case (rl_push s v ws)
  then have "push_ok retry vs (PStart v) (pushed (rl_queue s)) (rl_todo s)"
    by (simp add: relay_inv_def push_ok_def left_to_push_def)
  then show ?case
    using rl_push spsc_reach.step [OF _ spsc_step.call_push, of n "rl_queue s" v] by (simp add: relay_inv_def)
next
  case (rl_in_push s q pc)
  then show ?case
    using spsc_reach.step [OF _ spsc_step.in_push [OF rl_in_push.hyps], of n] push_ok_step [OF rl_in_push.hyps]
    by (simp add: relay_inv_def)
next
  case (rl_pushed s b)
  then show ?case
    using spsc_reach.step [OF _ spsc_step.return_push, of n "rl_queue s" b]
      push_ok_return [of retry vs b "pushed (rl_queue s)" "rl_todo s"]
    by (simp add: relay_inv_def split del: if_split)
next
  case (rl_pop s)
  then show ?case
    using spsc_reach.step [OF _ spsc_step.call_pop, of n "rl_queue s"] by (simp add: relay_inv_def)
next
  case (rl_in_pop s q pc)
  then show ?case
    using spsc_reach.step [OF _ spsc_step.in_pop [OF rl_in_pop.hyps], of n] cons_step_value [OF rl_in_pop.hyps]
    by (simp add: relay_inv_def)
next
  case (rl_popped s r)
  then show ?case
    using spsc_reach.step [OF _ spsc_step.return_pop, of n "rl_queue s" r]
    by (cases r) (simp_all add: relay_inv_def)
qed

lemma relay_reach_inv:
  assumes "(relay_step retry again)\<^sup>*\<^sup>* (relay_start n vs) s"
  shows "relay_inv retry n vs s"
  using assms
proof (induction rule: rtranclp_induct)
  case base
  show ?case using spsc_reach.init [of n]
    by (simp add: relay_inv_def relay_start_def push_ok_def left_to_push_def spsc_init_def)
qed (rule relay_inv_step)

text \<open>What was received is a prefix of the values pushed; with \<open>retry\<close> all of them are pushed in order.\<close>

lemma relay_finished_received:
  assumes "(relay_step retry again)\<^sup>*\<^sup>* (relay_start n vs) s" and "relay_finished again s"
  shows "subseq (rl_received s) vs" and "retry \<Longrightarrow> prefix (rl_received s) vs"
proof -
  have inv: "relay_inv retry n vs s" using relay_reach_inv [OF assms(1)] .
  then have "ring_holds (rl_queue s)" using spsc_reach_inv by (auto simp: relay_inv_def spsc_inv_def)
  then have "prefix (popped (rl_queue s)) (pushed (rl_queue s))"
    unfolding ring_holds_def by (metis take_is_prefix)
  then have p: "prefix (rl_received s) (pushed (rl_queue s))"
    using inv assms(2) by (simp add: relay_inv_def relay_finished_def)
  have "subseq (pushed (rl_queue s)) vs" "retry \<longrightarrow> pushed (rl_queue s) = vs"
    using inv assms(2) by (auto simp: relay_inv_def relay_finished_def push_ok_def left_to_push_def)
  then show "subseq (rl_received s) vs" "retry \<Longrightarrow> prefix (rl_received s) vs"
    using p prefix_imp_subseq subseq_order.trans by blast+
qed

definition test_concurrent_producer_consumer :: bool where
  "test_concurrent_producer_consumer \<longleftrightarrow>
     (let n = 10000; expected = map of_nat [0..<n]; again = (\<lambda>pops received. length received < n)
      in \<forall>s. (relay_step True again)\<^sup>*\<^sup>* (relay_start 64 expected) s \<longrightarrow> relay_finished again s \<longrightarrow>
           rl_received s = expected)"

definition test_spsc_fifo_ordering :: bool where
  "test_spsc_fifo_ordering \<longleftrightarrow>
     (let again = (\<lambda>pops received. pops < 4)
      in \<forall>s. (relay_step False again)\<^sup>*\<^sup>* (relay_start 4 [1, 2]) s \<longrightarrow> relay_finished again s \<longrightarrow>
           sorted_wrt (<) (rl_received s))"

lemma spsc_thread_tests_pass: "test_concurrent_producer_consumer" "test_spsc_fifo_ordering"
proof -
  have "rl_received s = map of_nat [0..<n]"
    if "(relay_step True again)\<^sup>*\<^sup>* (relay_start 64 (map of_nat [0..<n])) s" "relay_finished again s"
      "again = (\<lambda>pops received. length received < n)" for s n again
  proof -
    have "prefix (rl_received s) (map of_nat [0..<n])" using relay_finished_received(2) [OF that(1,2)] by simp
    moreover have "n \<le> length (rl_received s)" using that(2,3) by (simp add: relay_finished_def)
    ultimately show ?thesis using prefix_length_less by (fastforce simp: prefix_order.le_less)
  qed
  then show "test_concurrent_producer_consumer" unfolding test_concurrent_producer_consumer_def Let_def by blast
  have "sorted_wrt (<) xs" if "subseq xs [1, 2 :: u64]" for xs
    using that by (auto simp: subseq_singleton_left elim!: list_emb.cases)
  then show "test_spsc_fifo_ordering"
    unfolding test_spsc_fifo_ordering_def Let_def using relay_finished_received(1) by blast
qed

subsection \<open>Setting bits\<close>

text \<open>Each thread sets the bits of its list, one after the other.\<close>

record setters =
  st_bits :: bs_sys
  st_todo :: "nat \<Rightarrow> u32 list"

inductive setters_step :: "setters \<Rightarrow> setters \<Rightarrow> bool" where
  st_call: "bthr (st_bits s) t = BIdle \<Longrightarrow> st_todo s t = i # ixs \<Longrightarrow>
    setters_step s (s\<lparr>st_bits := (st_bits s)\<lparr>bthr := (bthr (st_bits s))(t := BStart SetBit i)\<rparr>,
      st_todo := (st_todo s)(t := ixs)\<rparr>)"
| st_run: "bs_step spurious (bits (st_bits s)) (bthr (st_bits s) t) = (b', pc) \<Longrightarrow>
    setters_step s (s\<lparr>st_bits := (st_bits s)\<lparr>bits := b', bthr := (bthr (st_bits s))(t := pc)\<rparr>\<rparr>)"
| st_return: "bthr (st_bits s) t = BRet op i r \<Longrightarrow>
    setters_step s (s\<lparr>st_bits := (st_bits s)\<lparr>bthr := (bthr (st_bits s))(t := BIdle)\<rparr>\<rparr>)"

definition setters_start :: "u32 \<Rightarrow> (nat \<Rightarrow> u32 list) \<Rightarrow> setters" where
  "setters_start c script = \<lparr>st_bits = bs_init c, st_todo = script\<rparr>"

definition setters_finished :: "setters \<Rightarrow> bool" where
  "setters_finished s \<longleftrightarrow> (\<forall>t. bthr (st_bits s) t = BIdle \<and> st_todo s t = [])"

text \<open>No thread clears a bit, so a bit seen or set stays set.\<close>

fun setting :: "bs_pc \<Rightarrow> u32 option" where
  "setting (BStart op i) = Some i"
| "setting (BLoop op i old) = Some i"
| "setting pc = None"

fun set_pc_ok :: "atomic_bitset \<Rightarrow> bs_pc \<Rightarrow> bool" where
  "set_pc_ok b (BStart op i) \<longleftrightarrow> op = SetBit \<and> i < bs_capacity b"
| "set_pc_ok b (BLoop op i old) \<longleftrightarrow> op = SetBit \<and> i < bs_capacity b \<and>
     (old AND bs_mask i \<noteq> 0 \<longrightarrow> unat i \<in> bs_elems b)"
| "set_pc_ok b (BRet op i r) \<longleftrightarrow> unat i \<in> bs_elems b"
| "set_pc_ok b BPanic \<longleftrightarrow> False"
| "set_pc_ok b BIdle \<longleftrightarrow> True"

lemma set_pc_ok_mono:
  "set_pc_ok b pc \<Longrightarrow> bs_elems b \<subseteq> bs_elems b' \<Longrightarrow> bs_capacity b' = bs_capacity b \<Longrightarrow> set_pc_ok b' pc"
  by (cases pc) auto

lemma word_bit_elems:
  assumes "bs_wf b" and "i < bs_capacity b"
  shows "bs_words b ! bs_word_idx i AND bs_mask i \<noteq> 0 \<longleftrightarrow> unat i \<in> bs_elems b"
  using bs_word_bound [OF assms] by (auto simp: and_bs_mask_eq_0 bs_elems_def)

lemma set_step_ok:
  assumes step: "bs_step spurious b pc = (b', pc')" and wf: "bs_wf b" and ok: "set_pc_ok b pc"
  shows "bs_wf b' \<and> bs_capacity b' = bs_capacity b \<and> bs_elems b \<subseteq> bs_elems b' \<and> set_pc_ok b' pc' \<and>
    (\<forall>i. setting pc = Some i \<longrightarrow> setting pc' = Some i \<or> unat i \<in> bs_elems b')"
proof -
  have pc: "bs_pc_ok (bs_capacity b) pc" using ok by (cases pc) auto
  note eff = bs_step_effect [OF step wf pc]
  have no_clear: "bs_wins ClearBit pc pc' k = 0" for k
    using ok by (cases "(ClearBit, pc, pc', k)" rule: bs_wins.cases) auto
  have sub: "bs_elems b \<subseteq> bs_elems b'"
  proof
    fix k assume "k \<in> bs_elems b"
    then show "k \<in> bs_elems b'" using eff no_clear [of k] by (metis add_is_0 one_neq_zero)
  qed
  have won: "unat i \<in> bs_elems b'" if "pc = BLoop SetBit i old" "pc' = BRet SetBit i True" for i old
    using eff no_clear [of "unat i"] that by (metis (mono_tags, lifting) add_is_0 bs_wins.simps(1) one_neq_zero)
  have "set_pc_ok b' pc' \<and> (\<forall>i. setting pc = Some i \<longrightarrow> setting pc' = Some i \<or> unat i \<in> bs_elems b')"
  proof (cases pc)
    case (BStart op i)
    then show ?thesis
      using step ok word_bit_elems [OF wf, of i] bs_word_bound [OF wf, of i] by auto
  next
    case (BLoop op i old)
    then show ?thesis
      using step ok word_bit_elems [OF wf, of i] won sub by (auto simp: Let_def split: if_splits)
  qed (use step ok in auto)
  then show ?thesis using eff sub by blast
qed

definition setter_ok :: "atomic_bitset \<Rightarrow> u32 list \<Rightarrow> u32 list \<Rightarrow> bs_pc \<Rightarrow> bool" where
  "setter_ok b script todo pc \<longleftrightarrow> set_pc_ok b pc \<and> set todo \<subseteq> {..<bs_capacity b} \<and>
     (\<forall>i \<in> set script. i \<in> set todo \<or> setting pc = Some i \<or> unat i \<in> bs_elems b)"

definition setters_inv :: "u32 \<Rightarrow> (nat \<Rightarrow> u32 list) \<Rightarrow> setters \<Rightarrow> bool" where
  "setters_inv c script s \<longleftrightarrow> bs_wf (bits (st_bits s)) \<and> bs_capacity (bits (st_bits s)) = c \<and>
     (\<forall>t. setter_ok (bits (st_bits s)) (script t) (st_todo s t) (bthr (st_bits s) t))"

lemma setter_ok_call: "setter_ok b script (i # ixs) BIdle \<Longrightarrow> setter_ok b script ixs (BStart SetBit i)"
  by (auto simp: setter_ok_def)

lemma setter_ok_return: "setter_ok b script todo (BRet op i r) \<Longrightarrow> setter_ok b script todo BIdle"
  by (simp add: setter_ok_def)

lemma setter_ok_run:
  assumes "bs_step spurious b pc = (b', pc')" and "bs_wf b" and "setter_ok b script todo pc"
  shows "bs_wf b'" and "bs_capacity b' = bs_capacity b" and "setter_ok b' script todo pc'"
    and "setter_ok b script2 todo2 pc2 \<Longrightarrow> setter_ok b' script2 todo2 pc2"
proof -
  have ok: "set_pc_ok b pc" using assms(3) by (simp add: setter_ok_def)
  note eff = set_step_ok [OF assms(1,2) ok]
  then show "bs_wf b'" "bs_capacity b' = bs_capacity b" by blast+
  show "setter_ok b' script todo pc'" using eff assms(3) unfolding setter_ok_def by (metis subsetD)
  show "setter_ok b script2 todo2 pc2 \<Longrightarrow> setter_ok b' script2 todo2 pc2"
    using eff set_pc_ok_mono [of b pc2 b'] unfolding setter_ok_def by (metis subsetD)
qed

lemma setters_inv_step: "setters_step s s' \<Longrightarrow> setters_inv c script s \<Longrightarrow> setters_inv c script s'"
proof (induction rule: setters_step.induct)
  case (st_call s t i ixs)
  then have "setter_ok (bits (st_bits s)) (script t) (i # ixs) BIdle" unfolding setters_inv_def by metis
  then show ?case using st_call setter_ok_call by (simp add: setters_inv_def)
next
  case (st_run spurious s t b' pc)
  then have "bs_wf (bits (st_bits s))" "setter_ok (bits (st_bits s)) (script t) (st_todo s t) (bthr (st_bits s) t)"
    by (simp_all add: setters_inv_def)
  from setter_ok_run [OF st_run.hyps this] show ?case using st_run.prems by (simp add: setters_inv_def)
next
  case (st_return s t op i r)
  then have "setter_ok (bits (st_bits s)) (script t) (st_todo s t) (BRet op i r)" unfolding setters_inv_def by metis
  then show ?case using st_return setter_ok_return by (simp add: setters_inv_def)
qed

lemma setters_reach_inv:
  assumes "setters_step\<^sup>*\<^sup>* (setters_start c script) s" and "\<forall>t. set (script t) \<subseteq> {..<c}"
  shows "setters_inv c script s"
  using assms(1)
proof (induction rule: rtranclp_induct)
  case base
  have "bs_wf (bs_new c)" "bs_capacity (bs_new c) = c" using bs_new_wf [of c] by (simp_all add: bs_new_def)
  then show ?case using assms(2) by (simp add: setters_inv_def setters_start_def bs_init_def setter_ok_def)
qed (rule setters_inv_step)

lemma setters_set_all:
  assumes "setters_step\<^sup>*\<^sup>* (setters_start c script) s" and "setters_finished s"
    and "\<forall>t. set (script t) \<subseteq> {..<c}" and "\<forall>i<c. \<exists>t. i \<in> set (script t)"
  shows "bs_count_set (bits (st_bits s)) = c"
proof -
  let ?b = "bits (st_bits s)"
  have "setters_inv c script s" using setters_reach_inv [OF assms(1,3)] .
  then have b: "bs_wf ?b" "bs_capacity ?b = c" "\<And>t i. i \<in> set (script t) \<Longrightarrow> unat i \<in> bs_elems ?b"
    using assms(2) by (auto simp: setters_inv_def setters_finished_def setter_ok_def)
  have "k \<in> bs_elems ?b" if k: "k < unat c" for k
  proof -
    have id: "unat (of_nat k :: u32) = k" using k unat_bound [of c] by (intro unat_of_nat_less) simp
    then have "(of_nat k :: u32) < c" using k by (simp add: word_less_nat_alt)
    then obtain t where "of_nat k \<in> set (script t)" using assms(4) by blast
    from b(3) [OF this] show ?thesis using id by simp
  qed
  moreover have "k < unat c" if "k \<in> bs_elems ?b" for k using that b(1,2) by (auto simp: bs_wf_def)
  ultimately have "bs_elems ?b = {..<unat c}" by blast
  then have "unat (bs_count_set ?b) = unat c" using bs_count_set_wf [OF b(1)] by simp
  then show ?thesis by (simp only: unsigned_word_eqI)
qed

definition test_concurrent_set :: bool where
  "test_concurrent_set \<longleftrightarrow>
     (let script = (\<lambda>t. if t < 4 then map (\<lambda>i. of_nat (t * 64 + i)) [0..<64] else [])
      in \<forall>s. setters_step\<^sup>*\<^sup>* (setters_start 256 script) s \<longrightarrow> setters_finished s \<longrightarrow>
           bs_count_set (bits (st_bits s)) = 256)"

definition test_concurrent_set_clear :: bool where
  "test_concurrent_set_clear \<longleftrightarrow>
     (let script = (\<lambda>t. if t = 0 then [0, 1] else if t = 1 then [2, 3] else [])
      in \<forall>s. setters_step\<^sup>*\<^sup>* (setters_start 4 script) s \<longrightarrow> setters_finished s \<longrightarrow>
           bs_count_set (bits (st_bits s)) = 4)"

lemma bitset_thread_tests_pass: "test_concurrent_set" "test_concurrent_set_clear"
proof -
  let ?f = "\<lambda>t :: nat. if t < 4 then map (\<lambda>i. of_nat (t * 64 + i) :: u32) [0..<64] else []"
  have small: "(of_nat m :: u32) < 256" if "m < 256" for m
    using that by (simp add: word_less_nat_alt unat_of_nat_less)
  have "set (?f t) \<subseteq> {..<256}" for t
    using small [of "t * 64 + _"] by (auto simp del: of_nat_add of_nat_mult)
  then have "\<forall>t. set (?f t) \<subseteq> {..<256}" by blast
  moreover have "\<exists>t. i \<in> set (?f t)" if "i < 256" for i :: u32
  proof -
    have "unat i < 256" using that by (simp add: word_less_nat_alt)
    then have t: "unat i div 64 < 4" by (simp add: less_mult_imp_div_less)
    have "i = of_nat (unat i div 64 * 64 + unat i mod 64)" by (simp only: div_mult_mod_eq of_nat_unat ucast_id)
    then have "i \<in> (\<lambda>j. of_nat (unat i div 64 * 64 + j)) ` set [0..<64]" by (rule image_eqI) simp
    then have "i \<in> set (?f (unat i div 64))" using t by (simp only: if_True set_map)
    then show ?thesis by blast
  qed
  ultimately show "test_concurrent_set"
    unfolding test_concurrent_set_def Let_def using setters_set_all [of 256 ?f] by blast
  let ?g = "\<lambda>t :: nat. if t = 0 then [0, 1 :: u32] else if t = 1 then [2, 3] else []"
  have "\<forall>t. set (?g t) \<subseteq> {..<4}" by auto
  moreover have "\<exists>t. i \<in> set (?g t)" if "i < 4" for i :: u32
  proof -
    have "unat i \<in> {0, 1, 2, 3}" using that by (auto simp: word_less_nat_alt)
    then have "i = of_nat 0 \<or> i = of_nat 1 \<or> i = of_nat 2 \<or> i = of_nat 3" by (metis insert_iff singletonD of_nat_unat ucast_id)
    then show ?thesis by (auto intro: exI [of _ 0] exI [of _ 1])
  qed
  ultimately show "test_concurrent_set_clear"
    unfolding test_concurrent_set_clear_def Let_def using setters_set_all [of 4 ?g] by blast
qed

end
