(* ===== verification/Segment_Mgr.thy ===== *)
theory Segment_Mgr
  imports Data_Segment
begin

text \<open>
  \<open>SegmentManager\<close> of \<open>crates/entangle-transport/src/segment_mgr.rs\<close>: a growing list of data segments.
  A chunk is named by the id of its segment and its offset there; when every segment is full a new
  one is created. The proofs use the contract of a segment only (\<open>ds\<close>).
\<close>

record segment_manager =
  sm_segments :: "data_segment list"
  sm_name_prefix :: string
  sm_chunk_size :: usize
  sm_chunks_per_segment :: u32

definition sm_seg_name :: "string \<Rightarrow> u16 \<Rightarrow> string" where
  "sm_seg_name prefix seg_id = prefix @ ''_seg_'' @ dec_string (unat seg_id)"

definition sm_create ::
  "nix \<Rightarrow> string \<Rightarrow> usize \<Rightarrow> u32 \<Rightarrow> memory \<Rightarrow>
     ((segment_manager, platform_error) result \<times> memory) option" where
  "sm_create os name_prefix chunk_size chunks_per_segment mem = do {
     (r, mem) \<leftarrow> ds_create os (sm_seg_name name_prefix 0) chunk_size chunks_per_segment 0 mem;
     Some (map_ok (\<lambda>initial. \<lparr>sm_segments = [initial], sm_name_prefix = name_prefix,
       sm_chunk_size = chunk_size, sm_chunks_per_segment = chunks_per_segment\<rparr>) r, mem)
   }"

text \<open>The loop over the existing segments: the first that has a chunk gives it.\<close>

fun sm_try_existing :: "data_segment list \<Rightarrow> (pointer_offset option \<times> data_segment list) option" where
  "sm_try_existing [] = Some (None, [])"
| "sm_try_existing (seg # segs) = do {
     (r, seg) \<leftarrow> ds_allocate seg;
     case r of
       Ok offset \<Rightarrow> Some (Some offset, seg # segs)
     | Err _ \<Rightarrow> do {
         (found, segs) \<leftarrow> sm_try_existing segs;
         Some (found, seg # segs)
       }
   }"

definition sm_allocate ::
  "nix \<Rightarrow> segment_manager \<Rightarrow> memory \<Rightarrow>
     ((pointer_offset, loan_error) result \<times> segment_manager \<times> memory) option" where
  "sm_allocate os m mem = do {
     (found, segs) \<leftarrow> sm_try_existing (sm_segments m);
     let m = m\<lparr>sm_segments := segs\<rparr>;
     case found of
       Some offset \<Rightarrow> Some (Ok offset, m, mem)
     | None \<Rightarrow> do {
         let seg_id = (of_nat (length (sm_segments m)) :: u16);
         (r, mem) \<leftarrow> ds_create os (sm_seg_name (sm_name_prefix m) seg_id) (sm_chunk_size m)
           (sm_chunks_per_segment m) seg_id mem;
         case r of
           Err _ \<Rightarrow> Some (Err OutOfMemory, m, mem)
         | Ok new_seg \<Rightarrow> do {
             (r, new_seg) \<leftarrow> ds_allocate new_seg;
             case r of
               Err e \<Rightarrow> do { _ \<leftarrow> shm_drop (ds_shm new_seg); Some (Err e, m, mem) }
             | Ok offset \<Rightarrow> Some (Ok offset, m\<lparr>sm_segments := sm_segments m @ [new_seg]\<rparr>, mem)
           }
       }
   }"

definition sm_deallocate :: "pointer_offset \<Rightarrow> segment_manager \<Rightarrow> segment_manager option" where
  "sm_deallocate offset m =
     (let seg_id = unat (po_segment_id offset)
      in if seg_id < length (sm_segments m)
         then do {
           seg \<leftarrow> ds_deallocate offset (sm_segments m ! seg_id);
           Some (m\<lparr>sm_segments := (sm_segments m)[seg_id := seg]\<rparr>)
         }
         else Some m)"

definition sm_resolve_ptr :: "segment_manager \<Rightarrow> pointer_offset \<Rightarrow> u64 option" where
  "sm_resolve_ptr m offset = do {
     seg \<leftarrow> idx (sm_segments m) (unat (po_segment_id offset));
     Some (ds_resolve_ptr seg offset)
   }"

definition sm_resolve_ref :: "segment_manager \<Rightarrow> pointer_offset \<Rightarrow> nat \<Rightarrow> memory \<Rightarrow> u8 list option" where
  "sm_resolve_ref m offset n mem = do {
     seg \<leftarrow> idx (sm_segments m) (unat (po_segment_id offset));
     Some (ds_read seg offset n mem)
   }"

definition sm_resolve_mut :: "segment_manager \<Rightarrow> pointer_offset \<Rightarrow> u8 list \<Rightarrow> memory \<Rightarrow> memory option" where
  "sm_resolve_mut m offset bs mem = do {
     seg \<leftarrow> idx (sm_segments m) (unat (po_segment_id offset));
     Some (ds_write seg offset bs mem)
   }"

definition sm_segment_count :: "segment_manager \<Rightarrow> usize" where
  "sm_segment_count m = of_nat (length (sm_segments m))"

definition sm_total_available :: "segment_manager \<Rightarrow> u32" where
  "sm_total_available m = (\<Sum>s \<leftarrow> sm_segments m. ds_available s)"

definition sm_total_allocated :: "segment_manager \<Rightarrow> u32" where
  "sm_total_allocated m = (\<Sum>s \<leftarrow> sm_segments m. ds_allocated_count s)"

subsection \<open>The invariant\<close>

text \<open>Segment number \<open>i\<close> is well formed, carries the id \<open>i\<close> and has the layout of the manager.\<close>

definition sm_wf :: "segment_manager \<Rightarrow> bool" where
  "sm_wf m \<longleftrightarrow> layout_fits (sm_chunk_size m) (sm_chunks_per_segment m) \<and> length (sm_segments m) \<le> 2 ^ 16 \<and>
     (\<forall>i < length (sm_segments m). ds_wf (sm_segments m ! i) \<and>
        pool_segment_id (ds_allocator (sm_segments m ! i)) = of_nat i)"

definition sm_out :: "segment_manager \<Rightarrow> pointer_offset set" where
  "sm_out m = (\<Union>s \<in> set (sm_segments m). ds_out s)"

lemma ds_chunks_segment: "x \<in> ds_chunks d \<Longrightarrow> po_segment_id x = pool_segment_id (ds_allocator d)"
  by (auto simp: ds_chunks_def pool_chunks_def pool_chunk_def)

lemma ds_same_id: "ds_same d e \<Longrightarrow> pool_segment_id (ds_allocator d) = pool_segment_id (ds_allocator e)"
  by (simp add: ds_same_def same_layout_def)

text \<open>An outstanding chunk is found by its id.\<close>

lemma sm_out_iff:
  assumes "sm_wf m"
  shows "x \<in> sm_out m \<longleftrightarrow> unat (po_segment_id x) < length (sm_segments m) \<and>
    x \<in> ds_out (sm_segments m ! unat (po_segment_id x))"
proof
  assume "x \<in> sm_out m"
  then obtain i where i: "i < length (sm_segments m)" "x \<in> ds_out (sm_segments m ! i)"
    by (auto simp: sm_out_def in_set_conv_nth)
  then have "po_segment_id x = of_nat i"
    using ds_chunks_segment [OF ds_out_chunks] assms by (simp add: sm_wf_def)
  moreover have "i < 2 ^ LENGTH(16)" using i(1) assms by (simp add: sm_wf_def)
  ultimately have "unat (po_segment_id x) = i" by (simp only: unat_of_nat_less)
  with i show "unat (po_segment_id x) < length (sm_segments m) \<and>
      x \<in> ds_out (sm_segments m ! unat (po_segment_id x))" by simp
qed (auto simp: sm_out_def)

lemma sm_out_at:
  assumes "sm_wf m" and "i < length (sm_segments m)"
  shows "ds_out (sm_segments m ! i) = {x \<in> sm_out m. unat (po_segment_id x) = i}"
proof -
  have "unat (po_segment_id x) = i" if "x \<in> ds_out (sm_segments m ! i)" for x
  proof -
    have "po_segment_id x = of_nat i"
      using ds_chunks_segment [OF ds_out_chunks [OF that]] assms by (simp add: sm_wf_def)
    moreover have "i < 2 ^ LENGTH(16)" using assms by (simp add: sm_wf_def)
    ultimately show ?thesis by (simp only: unat_of_nat_less)
  qed
  then show ?thesis using assms(2) sm_out_iff [OF assms(1)] by auto
qed

text \<open>Segment \<open>i\<close> of the list gave the chunk \<open>a\<close> and became \<open>s'\<close>.\<close>

definition sm_took :: "data_segment list \<Rightarrow> nat \<Rightarrow> pointer_offset \<Rightarrow> data_segment \<Rightarrow> bool" where
  "sm_took segs i a s' \<longleftrightarrow> i < length segs \<and> a \<in> ds_free (segs ! i) \<and>
     ds_free s' = ds_free (segs ! i) - {a} \<and> ds_wf s' \<and> ds_same s' (segs ! i)"

lemma sm_try_existing_found:
  assumes "\<forall>s \<in> set segs. ds_wf s" and "\<exists>s \<in> set segs. ds_free s \<noteq> {}"
  shows "\<exists>i a s'. sm_took segs i a s' \<and> sm_try_existing segs = Some (Some a, segs[i := s'])"
  using assms
proof (induction segs)
  case (Cons s segs)
  then have wf: "ds_wf s" by simp
  show ?case
  proof (cases "ds_free s = {}")
    case True
    then have "\<exists>s \<in> set segs. ds_free s \<noteq> {}" using Cons.prems by auto
    then obtain i a s' where "sm_took segs i a s'" "sm_try_existing segs = Some (Some a, segs[i := s'])"
      using Cons by auto
    then have "sm_took (s # segs) (Suc i) a s' \<and>
        sm_try_existing (s # segs) = Some (Some a, (s # segs)[Suc i := s'])"
      using ds_allocate_full [OF wf True] by (simp add: sm_took_def)
    then show ?thesis by (intro exI)
  next
    case False
    obtain a s' where "ds_allocate s = Some (Ok a, s')" "a \<in> ds_free s" "ds_free s' = ds_free s - {a}"
        "ds_wf s'" "ds_same s' s"
      using ds_allocate_free [OF wf False] by blast
    then have "sm_took (s # segs) 0 a s' \<and> sm_try_existing (s # segs) = Some (Some a, (s # segs)[0 := s'])"
      by (simp add: sm_took_def)
    then show ?thesis by (intro exI)
  qed
qed simp

lemma sm_try_existing_full:
  "\<forall>s \<in> set segs. ds_wf s \<and> ds_free s = {} \<Longrightarrow> sm_try_existing segs = Some (None, segs)"
  by (induction segs) (simp_all add: ds_allocate_full)

lemma sm_wf_update:
  assumes "sm_wf m" and "i < length (sm_segments m)" and "ds_wf s'" and "ds_same s' (sm_segments m ! i)"
  shows "sm_wf (m\<lparr>sm_segments := (sm_segments m)[i := s']\<rparr>)"
  using assms ds_same_id [OF assms(4)] by (auto simp: sm_wf_def nth_list_update)

text \<open>Taking a chunk from segment \<open>i\<close> or giving one back changes the outstanding set by that chunk.\<close>

lemma sm_out_update:
  assumes m: "sm_wf m" and i: "i < length (sm_segments m)" and s': "ds_wf s'" "ds_same s' (sm_segments m ! i)"
  shows "sm_out (m\<lparr>sm_segments := (sm_segments m)[i := s']\<rparr>) =
    {x \<in> sm_out m. unat (po_segment_id x) \<noteq> i} \<union> ds_out s'"
proof -
  let ?m = "m\<lparr>sm_segments := (sm_segments m)[i := s']\<rparr>"
  have id: "unat (po_segment_id x) = i" if "x \<in> ds_out s'" for x
  proof -
    have "po_segment_id x = of_nat i"
      using ds_chunks_segment [OF ds_out_chunks [OF that]] ds_same_id [OF s'(2)] m i by (simp add: sm_wf_def)
    moreover have "i < 2 ^ LENGTH(16)" using i m by (simp add: sm_wf_def)
    ultimately show ?thesis by (simp only: unat_of_nat_less)
  qed
  show ?thesis
    using id i unfolding set_eq_iff sm_out_iff [OF sm_wf_update [OF assms]] Un_iff mem_Collect_eq sm_out_iff [OF m]
    by (auto simp: nth_list_update)
qed

lemma sm_resolve_update:
  assumes "i < length (sm_segments m)" and "ds_same s' (sm_segments m ! i)"
  shows "sm_resolve_ptr (m\<lparr>sm_segments := (sm_segments m)[i := s']\<rparr>) x = sm_resolve_ptr m x"
  using assms ds_same_resolve [OF assms(2)]
  by (cases "unat (po_segment_id x) < length (sm_segments m)")
    (auto simp: sm_resolve_ptr_def nth_list_update)

text \<open>Giving an outstanding chunk back.\<close>

lemma sm_deallocate_out:
  assumes m: "sm_wf m" and x: "x \<in> sm_out m"
  obtains m' where "sm_deallocate x m = Some m'" "sm_wf m'" "sm_out m' = sm_out m - {x}"
    "\<And>y. sm_resolve_ptr m' y = sm_resolve_ptr m y"
proof -
  let ?i = "unat (po_segment_id x)" and ?s = "sm_segments m ! unat (po_segment_id x)"
  have i: "?i < length (sm_segments m)" "x \<in> ds_out ?s" using x sm_out_iff [OF m] by auto
  have wf: "ds_wf ?s" using m i(1) by (simp add: sm_wf_def)
  obtain s' where s': "ds_deallocate x ?s = Some s'" "ds_out s' = ds_out ?s - {x}" "ds_wf s'" "ds_same s' ?s"
    using ds_out_deallocate [OF wf i(2)] .
  let ?m = "m\<lparr>sm_segments := (sm_segments m)[?i := s']\<rparr>"
  have "sm_out ?m = sm_out m - {x}"
    unfolding sm_out_update [OF m i(1) s'(3,4)] s'(2) sm_out_at [OF m i(1)] by auto
  moreover have "sm_deallocate x m = Some ?m" using s'(1) i(1) by (simp add: sm_deallocate_def Let_def)
  ultimately show ?thesis
    using that sm_wf_update [OF m i(1) s'(3,4)] sm_resolve_update [OF i(1) s'(4)] by blast
qed

text \<open>Growing by one segment.\<close>

lemma sm_grow:
  assumes m: "sm_wf m" and len: "length (sm_segments m) < 2 ^ 16" and s: "ds_wf s"
    and id: "pool_segment_id (ds_allocator s) = of_nat (length (sm_segments m))"
  shows "sm_wf (m\<lparr>sm_segments := sm_segments m @ [s]\<rparr>)"
    and "sm_out (m\<lparr>sm_segments := sm_segments m @ [s]\<rparr>) = sm_out m \<union> ds_out s"
    and "x \<in> sm_out m \<Longrightarrow>
      sm_resolve_ptr (m\<lparr>sm_segments := sm_segments m @ [s]\<rparr>) x = sm_resolve_ptr m x"
    and "ds_out s \<inter> sm_out m = {}"
proof -
  show "sm_wf (m\<lparr>sm_segments := sm_segments m @ [s]\<rparr>)"
    using assms by (auto simp: sm_wf_def nth_append less_Suc_eq)
  show "sm_out (m\<lparr>sm_segments := sm_segments m @ [s]\<rparr>) = sm_out m \<union> ds_out s"
    by (auto simp: sm_out_def)
  show "sm_resolve_ptr (m\<lparr>sm_segments := sm_segments m @ [s]\<rparr>) x = sm_resolve_ptr m x" if "x \<in> sm_out m"
    using that sm_out_iff [OF m, of x] by (simp add: sm_resolve_ptr_def nth_append)
  have "unat (po_segment_id x) = length (sm_segments m)" if "x \<in> ds_out s" for x
    using ds_chunks_segment [OF ds_out_chunks [OF that]] id len by (simp add: unat_of_nat_less)
  then show "ds_out s \<inter> sm_out m = {}" using sm_out_iff [OF m] by fastforce
qed

subsection \<open>Allocation\<close>

text \<open>No segment of the manager has a chunk left.\<close>

definition sm_full :: "segment_manager \<Rightarrow> bool" where
  "sm_full m \<longleftrightarrow> (\<forall>s \<in> set (sm_segments m). ds_free s = {})"

text \<open>What a successful allocation promises.\<close>

definition sm_gave :: "segment_manager \<Rightarrow> pointer_offset \<Rightarrow> segment_manager \<Rightarrow> bool" where
  "sm_gave m a m' \<longleftrightarrow> sm_wf m' \<and> a \<notin> sm_out m \<and> sm_out m' = insert a (sm_out m) \<and>
     length (sm_segments m') = length (sm_segments m) + (if sm_full m then 1 else 0) \<and>
     (\<forall>x \<in> sm_out m. sm_resolve_ptr m' x = sm_resolve_ptr m x)"

lemma sm_wf_segments: "sm_wf m \<Longrightarrow> \<forall>s \<in> set (sm_segments m). ds_wf s"
  by (auto simp: sm_wf_def in_set_conv_nth)

lemma sm_allocate_existing:
  assumes m: "sm_wf m" and free: "\<not> sm_full m"
  shows "\<exists>a m'. sm_allocate os m mem = Some (Ok a, m', mem) \<and> sm_gave m a m'"
proof -
  obtain i a s' where took: "sm_took (sm_segments m) i a s'"
      and eq: "sm_try_existing (sm_segments m) = Some (Some a, (sm_segments m)[i := s'])"
    using sm_try_existing_found [OF sm_wf_segments [OF m]] free by (auto simp: sm_full_def)
  let ?m = "m\<lparr>sm_segments := (sm_segments m)[i := s']\<rparr>"
  have i: "i < length (sm_segments m)" and s': "ds_wf s'" "ds_same s' (sm_segments m ! i)"
    and a: "a \<in> ds_free (sm_segments m ! i)" "ds_free s' = ds_free (sm_segments m ! i) - {a}"
    using took by (simp_all add: sm_took_def)
  have wf: "ds_wf (sm_segments m ! i)" using m i by (simp add: sm_wf_def)
  note out = ds_out_allocate [OF wf a s'(2)]
  have "unat (po_segment_id a) = i"
    using ds_chunks_segment [OF out(3)] m i by (simp add: sm_wf_def unat_of_nat_less)
  then have "a \<notin> sm_out m" using out(2) sm_out_iff [OF m] by simp
  moreover have "sm_out ?m = insert a (sm_out m)"
    unfolding sm_out_update [OF m i s'] out(1) sm_out_at [OF m i] by auto
  ultimately have "sm_gave m a ?m"
    using sm_wf_update [OF m i s'] sm_resolve_update [OF i s'(2)] free by (simp add: sm_gave_def)
  moreover have "sm_allocate os m mem = Some (Ok a, ?m, mem)" using eq by (simp add: sm_allocate_def Let_def)
  ultimately show ?thesis by blast
qed

lemma sm_allocate_new:
  assumes m: "sm_wf m" and full: "sm_full m" and len: "length (sm_segments m) < 2 ^ 16"
  shows "(\<exists>mem'. sm_allocate os m mem = Some (Err OutOfMemory, m, mem')) \<or>
    (\<exists>a m' mem'. sm_allocate os m mem = Some (Ok a, m', mem') \<and> sm_gave m a m')"
proof -
  let ?id = "of_nat (length (sm_segments m)) :: u16"
  let ?create = "ds_create os (sm_seg_name (sm_name_prefix m) ?id) (sm_chunk_size m) (sm_chunks_per_segment m) ?id mem"
  have none: "sm_try_existing (sm_segments m) = Some (None, sm_segments m)"
    using sm_try_existing_full sm_wf_segments [OF m] full by (simp add: sm_full_def)
  have fits: "layout_fits (sm_chunk_size m) (sm_chunks_per_segment m)" using m by (simp add: sm_wf_def)
  obtain r mem' where r: "?create = Some (r, mem')" using ds_create_total [OF fits] by metis
  show ?thesis
  proof (cases r)
    case (Err e)
    then show ?thesis using r none by (simp add: sm_allocate_def Let_def)
  next
    case (Ok d)
    note d = ds_create_OkD [OF fits r [unfolded Ok]]
    then have "ds_free d \<noteq> {}" using ds_wf_first_chunk by auto
    then obtain a s where s: "ds_allocate d = Some (Ok a, s)" "a \<in> ds_free d" "ds_free s = ds_free d - {a}"
        "ds_wf s" "ds_same s d"
      using ds_allocate_free [of d] d by blast
    have out: "ds_out s = {a}" using ds_out_allocate(1) [OF _ s(2,3,5)] d by (simp add: ds_out_def)
    have "sm_gave m a (m\<lparr>sm_segments := sm_segments m @ [s]\<rparr>)"
      using sm_grow [OF m len s(4)] ds_same_id [OF s(5)] d out full by (auto simp: sm_gave_def)
    then show ?thesis using r Ok none s(1) by (auto simp: sm_allocate_def Let_def)
  qed
qed

text \<open>C22: a manager with fewer than \<open>2\<^sup>1\<^sup>6\<close> segments hands out chunks across its segments. It takes a free
  chunk where there is one and adds a segment exactly when there is none; the chunk was not
  outstanding before, every outstanding offset still resolves to the same address, and giving the
  chunk back restores the outstanding set. The only error is that no segment could be added, and
  the manager is then unchanged.\<close>

theorem segment_growth:
  assumes "sm_wf m" and "length (sm_segments m) < 2 ^ 16"
  shows "\<exists>r m' mem'. sm_allocate os m mem = Some (r, m', mem') \<and>
    (case r of
       Err e \<Rightarrow> e = OutOfMemory \<and> sm_full m \<and> m' = m
     | Ok a \<Rightarrow> sm_gave m a m' \<and> (\<exists>m''. sm_deallocate a m' = Some m'' \<and> sm_wf m'' \<and> sm_out m'' = sm_out m))"
proof -
  have undo: "\<exists>m''. sm_deallocate a m' = Some m'' \<and> sm_wf m'' \<and> sm_out m'' = sm_out m" if "sm_gave m a m'" for a m'
  proof -
    have "sm_wf m'" "a \<in> sm_out m'" "sm_out m' - {a} = sm_out m" using that by (auto simp: sm_gave_def)
    then show ?thesis using sm_deallocate_out [of m' a] by metis
  qed
  show ?thesis
  proof (cases "sm_full m")
    case True
    then show ?thesis using sm_allocate_new [OF assms(1) True assms(2), of os mem] undo by fastforce
  next
    case False
    then show ?thesis using sm_allocate_existing [OF assms(1) False, of os mem] undo by fastforce
  qed
qed

text \<open>What \<open>create\<close> returns is such a manager.\<close>

lemma sm_create_wf:
  assumes fits: "layout_fits c n" and "sm_create os p c n mem = Some (Ok m, mem')"
  shows "sm_wf m \<and> sm_out m = {} \<and> \<not> sm_full m \<and> length (sm_segments m) = 1"
proof -
  obtain d where d: "ds_create os (sm_seg_name p 0) c n 0 mem = Some (Ok d, mem')"
      and m: "m = \<lparr>sm_segments = [d], sm_name_prefix = p, sm_chunk_size = c, sm_chunks_per_segment = n\<rparr>"
    using assms(2) by (auto simp: sm_create_def split: bind_splits prod.splits result.splits elim!: map_ok.elims)
  show ?thesis
    using ds_create_OkD [OF fits d] ds_wf_first_chunk [of d] fits
    by (auto simp: m sm_wf_def sm_out_def sm_full_def ds_out_def)
qed

theorem segment_growth_witness:
  "\<exists>m mem. sm_create nix_ok ''p'' 8 4 (\<lambda>_. 0) = Some (Ok m, mem) \<and> sm_wf m \<and> length (sm_segments m) < 2 ^ 16 \<and>
    (\<exists>a m' m''. sm_allocate nix_ok m mem = Some (Ok a, m', mem) \<and> sm_gave m a m' \<and>
       sm_deallocate a m' = Some m'' \<and> sm_out m'' = {})"
proof -
  have "\<exists>shm mem1. shm_create nix_ok (sm_seg_name ''p'' 0) (HEADER_SIZE + align8 8 * ucast (4 :: u32)) (\<lambda>_. 0) = (Ok shm, mem1)"
    by (simp add: shm_create_def Let_def nix_ok_def do_mmap_def HEADER_SIZE_def align8_def)
  then obtain d mem where "ds_create nix_ok (sm_seg_name ''p'' 0) 8 4 0 (\<lambda>_. 0) = Some (Ok d, mem)"
    using ds_create_wf [OF layout_fits_ok] by metis
  then obtain m where m: "sm_create nix_ok ''p'' 8 4 (\<lambda>_. 0) = Some (Ok m, mem)"
    by (simp add: sm_create_def)
  note wf = sm_create_wf [OF layout_fits_ok m]
  then have len: "length (sm_segments m) < 2 ^ 16" by simp
  obtain a m' where a: "sm_allocate nix_ok m mem = Some (Ok a, m', mem)"
    using sm_allocate_existing [of m] wf by blast
  then have "sm_gave m a m' \<and> (\<exists>m''. sm_deallocate a m' = Some m'' \<and> sm_wf m'' \<and> sm_out m'' = sm_out m)"
    using segment_growth [of m nix_ok mem] wf len by auto
  then show ?thesis using m wf len a by auto
qed

end
