(* ===== verification/Transport_Tests.thy ===== *)
theory Transport_Tests
  imports Channel Segment_Mgr
begin

text \<open>
  The unit tests of \<open>crates/entangle-transport\<close> and of \<open>shm.rs\<close> of \<open>crates/entangle-platform\<close>, run on the
  model. The operating system, the unique name each test makes from the clock, and the memory are
  arguments of the tests that create shared memory. A \<open>u64\<close> is stored as its eight bytes.
\<close>

subsection \<open>The channel\<close>

definition test_send_receive_cycle :: "unit option" where
  "test_send_receive_cycle = do {
     let ch = ch_connect (ch_new 4 1 2);
     let offset = po_new 0 1024;
     (r, ch) \<leftarrow> ch_send offset ch; _ \<leftarrow> unwrap r;
     (r, ch) \<leftarrow> ch_receive ch; received \<leftarrow> unwrap r;
     assert_that (received = offset);
     r \<leftarrow> ch_return_offset 1 received ch;
     ch \<leftarrow> (case r of Done ch \<Rightarrow> Some ch | Spinning \<Rightarrow> None);
     (r, ch) \<leftarrow> ch_reclaim ch; reclaimed \<leftarrow> r;
     assert_that (reclaimed = offset)
   }"

definition test_disconnected_send_fails :: "unit option" where
  "test_disconnected_send_fails = do {
     let ch = ch_disconnect (ch_connect (ch_new 4 1 2));
     (r, ch) \<leftarrow> ch_send (po_new 0 0) ch;
     assert_that (r = Err SendConnectionBroken)
   }"

definition test_empty_receive :: "unit option" where
  "test_empty_receive = do {
     (r, ch) \<leftarrow> ch_receive (ch_connect (ch_new 4 1 2));
     assert_that (r = Err Empty)
   }"

definition test_queue_full :: "unit option" where
  "test_queue_full = do {
     let ch = ch_connect (ch_new 2 1 2);
     (r, ch) \<leftarrow> ch_send (po_new 0 0) ch; _ \<leftarrow> unwrap r;
     (r, ch) \<leftarrow> ch_send (po_new 0 1) ch; _ \<leftarrow> unwrap r;
     (r, ch) \<leftarrow> ch_send (po_new 0 2) ch;
     assert_that (r = Err QueueFull)
   }"

lemma channel_tests_pass:
  "test_send_receive_cycle = Some ()" "test_disconnected_send_fails = Some ()" "test_empty_receive = Some ()"
  "test_queue_full = Some ()"
  by code_simp+

subsection \<open>The pool allocator\<close>

definition test_allocate_and_deallocate :: "unit option" where
  "test_allocate_and_deallocate = do {
     alloc \<leftarrow> pool_new 4 256 0 0;
     assert_that (pool_available alloc = 4);
     (r, alloc) \<leftarrow> pool_allocate alloc; o1 \<leftarrow> unwrap r;
     (r, alloc) \<leftarrow> pool_allocate alloc; o2 \<leftarrow> unwrap r;
     assert_that (o1 \<noteq> o2);
     assert_that (pool_allocated_count alloc = 2);
     alloc \<leftarrow> pool_deallocate o1 alloc;
     assert_that (pool_allocated_count alloc = 1);
     assert_that (pool_available alloc = 3)
   }"

definition test_exhaust :: "unit option" where
  "test_exhaust = do {
     alloc \<leftarrow> pool_new 2 64 0 0;
     (r, alloc) \<leftarrow> pool_allocate alloc; _ \<leftarrow> unwrap r;
     (r, alloc) \<leftarrow> pool_allocate alloc; _ \<leftarrow> unwrap r;
     (r, alloc) \<leftarrow> pool_allocate alloc;
     assert_that (\<not> is_Ok r)
   }"

definition test_offset_encoding :: "unit option" where
  "test_offset_encoding = do {
     alloc \<leftarrow> pool_new 4 1024 3 4096;
     (r, alloc) \<leftarrow> pool_allocate alloc; a \<leftarrow> unwrap r;
     assert_that (po_segment_id a = 3);
     assert_that (po_offset a = 4096)
   }"

lemma pool_tests_pass:
  "test_allocate_and_deallocate = Some ()" "test_exhaust = Some ()" "test_offset_encoding = Some ()"
  by code_simp+

subsection \<open>The data segment\<close>

definition test_create_allocate_write_read :: "nix \<Rightarrow> string \<Rightarrow> memory \<Rightarrow> unit option" where
  "test_create_allocate_write_read os name mem = do {
     (r, mem) \<leftarrow> ds_create os name 64 4 0 mem; ds \<leftarrow> unwrap r;
     (r, ds) \<leftarrow> ds_allocate ds; offset \<leftarrow> unwrap r;
     let mem = ds_write ds offset (u64_le 0xCAFEBABE) mem;
     assert_that (ds_read ds offset 8 mem = u64_le 0xCAFEBABE);
     ds \<leftarrow> ds_deallocate offset ds;
     assert_that (ds_available ds = 4)
   }"

definition test_segment_exhaust_and_recover :: "nix \<Rightarrow> string \<Rightarrow> memory \<Rightarrow> unit option" where
  "test_segment_exhaust_and_recover os name mem = do {
     (r, mem) \<leftarrow> ds_create os name 32 2 0 mem; ds \<leftarrow> unwrap r;
     (r, ds) \<leftarrow> ds_allocate ds; o1 \<leftarrow> unwrap r;
     (r, ds) \<leftarrow> ds_allocate ds; o2 \<leftarrow> unwrap r;
     (r, ds) \<leftarrow> ds_allocate ds; assert_that (\<not> is_Ok r);
     ds \<leftarrow> ds_deallocate o1 ds;
     (r, ds) \<leftarrow> ds_allocate ds; o3 \<leftarrow> unwrap r;
     (r, ds) \<leftarrow> ds_allocate ds; assert_that (\<not> is_Ok r);
     ds \<leftarrow> ds_deallocate o2 ds;
     ds \<leftarrow> ds_deallocate o3 ds;
     Some ()
   }"

text \<open>They pass on a system in which every call succeeds.\<close>

lemma segment_tests_pass:
  "test_create_allocate_write_read nix_ok ''entangle_ds_basic_0'' (\<lambda>_. 0) = Some ()"
  "test_segment_exhaust_and_recover nix_ok ''entangle_ds_exhaust_0'' (\<lambda>_. 0) = Some ()"
  by code_simp+

subsection \<open>The segment manager\<close>

definition test_single_segment :: "nix \<Rightarrow> string \<Rightarrow> memory \<Rightarrow> unit option" where
  "test_single_segment os prefix mem = do {
     (r, mem) \<leftarrow> sm_create os prefix 64 4 mem; mgr \<leftarrow> unwrap r;
     (r, mgr, mem) \<leftarrow> sm_allocate os mgr mem; a \<leftarrow> unwrap r;
     assert_that (po_segment_id a = 0);
     mem \<leftarrow> sm_resolve_mut mgr a (u64_le 42) mem;
     v \<leftarrow> sm_resolve_ref mgr a 8 mem;
     assert_that (v = u64_le 42);
     mgr \<leftarrow> sm_deallocate a mgr;
     Some ()
   }"

definition test_auto_expand :: "nix \<Rightarrow> string \<Rightarrow> memory \<Rightarrow> unit option" where
  "test_auto_expand os prefix mem = do {
     (r, mem) \<leftarrow> sm_create os prefix 32 2 mem; mgr \<leftarrow> unwrap r;
     (r, mgr, mem) \<leftarrow> sm_allocate os mgr mem; o1 \<leftarrow> unwrap r;
     (r, mgr, mem) \<leftarrow> sm_allocate os mgr mem; o2 \<leftarrow> unwrap r;
     assert_that (sm_segment_count mgr = 1);
     (r, mgr, mem) \<leftarrow> sm_allocate os mgr mem; o3 \<leftarrow> unwrap r;
     assert_that (sm_segment_count mgr = 2);
     assert_that (po_segment_id o3 = 1);
     mgr \<leftarrow> sm_deallocate o1 mgr;
     mgr \<leftarrow> sm_deallocate o2 mgr;
     mgr \<leftarrow> sm_deallocate o3 mgr;
     Some ()
   }"

lemma segment_manager_tests_pass:
  "test_single_segment nix_ok ''entangle_sm_single_0'' (\<lambda>_. 0) = Some ()"
  "test_auto_expand nix_ok ''entangle_sm_expand_0'' (\<lambda>_. 0) = Some ()"
  by code_simp+

subsection \<open>Shared memory\<close>

definition test_create_and_open :: "nix \<Rightarrow> string \<Rightarrow> memory \<Rightarrow> unit option" where
  "test_create_and_open os name mem = do {
     let size_bytes = 4096;
     let (r, mem) = shm_create os name size_bytes mem; shm \<leftarrow> unwrap r;
     assert_that (shm_size shm = size_bytes);
     assert_that (shm_is_owner shm);
     shm2 \<leftarrow> unwrap (shm_open os name);
     assert_that (shm_size shm2 = size_bytes);
     assert_that (\<not> shm_is_owner shm2);
     _ \<leftarrow> shm_drop shm2;
     _ \<leftarrow> shm_drop shm;
     Some ()
   }"

definition test_write_and_read :: "nix \<Rightarrow> string \<Rightarrow> memory \<Rightarrow> unit option" where
  "test_write_and_read os name mem = do {
     let (r, mem) = shm_create os name 4096 mem; shm \<leftarrow> unwrap r;
     let mem = shm_get_mut shm 0 (u64_le 0xDEADBEEF) mem;
     shm2 \<leftarrow> unwrap (shm_open os name);
     assert_that (shm_get_ref shm2 0 8 mem = u64_le 0xDEADBEEF);
     _ \<leftarrow> shm_drop shm2;
     _ \<leftarrow> shm_drop shm;
     Some ()
   }"

text \<open>A system that gives the object its size and maps it again where it is mapped already.\<close>

definition nix_page :: nix where
  "nix_page = nix_ok\<lparr>fstat_size := (\<lambda>_. Ok 4096)\<rparr>"

lemma shm_tests_pass:
  "test_create_and_open nix_page ''/entangle_test_create_open_0'' (\<lambda>_. 0) = Some ()"
  "test_write_and_read nix_page ''/entangle_test_write_read_0'' (\<lambda>_. 0) = Some ()"
  by code_simp+

end
