(* ===== verification/File_System.thy ===== *)
theory File_System
  imports Text_Format
begin

text \<open>
  What the crates use of \<open>std::fs\<close>, \<open>std::path\<close> and \<open>flock(2)\<close>. A path names an inode, an inode has
  contents and at most one exclusive lock, and a lock belongs to the open file description that took
  it: it survives the removal of the name and ends when the description is closed. Any call may
  fail for reasons outside the model, and a listing comes in any order; both are read from an
  \<open>io_env\<close>, the environment during one operation.
\<close>

type_synonym path = string

record file_system =
  fs_names :: "path \<Rightarrow> nat option"
  fs_data :: "nat \<Rightarrow> string"
  fs_locks :: "nat \<Rightarrow> nat option"
  fs_dirs :: "path set"
  fs_next_inode :: nat
  fs_next_fd :: nat

record io_env =
  mkdir_err :: "path \<Rightarrow> string option"
  open_err :: "path \<Rightarrow> string option"
  write_err :: "path \<Rightarrow> (nat \<times> string) option"
  read_err :: "path \<Rightarrow> bool"
  stat_err :: "path \<Rightarrow> bool"
  remove_err :: "path \<Rightarrow> string option"
  flock_err :: "path \<Rightarrow> string option"
  unlock_err :: "path \<Rightarrow> string option"
  read_dir :: "path \<Rightarrow> ((string, string) result list, string) result"

record fs_file =
  fd_id :: nat
  fd_inode :: nat

datatype open_failure = FileExists | OpenFailed string

subsection \<open>Paths\<close>

definition ends_slash :: "path \<Rightarrow> bool" where
  "ends_slash p \<longleftrightarrow> p \<noteq> [] \<and> last p = CHR ''/''"

definition path_join :: "path \<Rightarrow> path \<Rightarrow> path" where
  "path_join p q =
     (if q \<noteq> [] \<and> hd q = CHR ''/'' then q
      else if p = [] \<or> ends_slash p then p @ q
      else p @ ''/'' @ q)"

definition strip_slashes :: "path \<Rightarrow> path" where
  "strip_slashes p = rev (dropWhile (\<lambda>c. c = CHR ''/'') (rev p))"

definition path_parent :: "path \<Rightarrow> path option" where
  "path_parent p =
     (let q = strip_slashes p
      in if q = [] then None
         else let d = rev (dropWhile (\<lambda>c. c \<noteq> CHR ''/'') (rev q))
              in Some (if d = [] then [] else if strip_slashes d = [] then ''/'' else strip_slashes d))"

subsection \<open>Files and directories\<close>

definition fs_content :: "file_system \<Rightarrow> path \<Rightarrow> string option" where
  "fs_content fs p = map_option (fs_data fs) (fs_names fs p)"

definition fs_exists :: "io_env \<Rightarrow> path \<Rightarrow> file_system \<Rightarrow> bool" where
  "fs_exists env p fs \<longleftrightarrow> \<not> stat_err env p \<and> (fs_names fs p \<noteq> None \<or> p \<in> fs_dirs fs)"

definition fs_create_dir_all :: "io_env \<Rightarrow> path \<Rightarrow> file_system \<Rightarrow> (unit, string) result \<times> file_system" where
  "fs_create_dir_all env p fs =
     (case mkdir_err env p of
        Some e \<Rightarrow> (Err e, fs)
      | None \<Rightarrow> (Ok (), fs\<lparr>fs_dirs := insert p (fs_dirs fs)\<rparr>))"

text \<open>Opening an inode yields a new open file description.\<close>

definition fs_describe :: "nat \<Rightarrow> file_system \<Rightarrow> fs_file \<times> file_system" where
  "fs_describe i fs =
     (\<lparr>fd_id = fs_next_fd fs, fd_inode = i\<rparr>, fs\<lparr>fs_next_fd := Suc (fs_next_fd fs)\<rparr>)"

definition fs_make :: "path \<Rightarrow> file_system \<Rightarrow> nat \<times> file_system" where
  "fs_make p fs =
     (fs_next_inode fs,
      fs\<lparr>fs_names := (fs_names fs)(p \<mapsto> fs_next_inode fs),
         fs_data := (fs_data fs)(fs_next_inode fs := ''''),
         fs_locks := (fs_locks fs)(fs_next_inode fs := None),
         fs_next_inode := Suc (fs_next_inode fs)\<rparr>)"

text \<open>\<open>OpenOptions::new().write(true).create_new(true)\<close>, \<open>.create(true).truncate(false)\<close> and \<open>File::open\<close>.\<close>

definition fs_create_new :: "io_env \<Rightarrow> path \<Rightarrow> file_system \<Rightarrow> (fs_file, open_failure) result \<times> file_system" where
  "fs_create_new env p fs =
     (case open_err env p of
        Some e \<Rightarrow> (Err (OpenFailed e), fs)
      | None \<Rightarrow>
          if fs_names fs p \<noteq> None \<or> p \<in> fs_dirs fs then (Err FileExists, fs)
          else let (i, fs) = fs_make p fs; (f, fs) = fs_describe i fs in (Ok f, fs))"

definition fs_open_or_create :: "io_env \<Rightarrow> path \<Rightarrow> file_system \<Rightarrow> (fs_file, string) result \<times> file_system" where
  "fs_open_or_create env p fs =
     (case open_err env p of
        Some e \<Rightarrow> (Err e, fs)
      | None \<Rightarrow>
          let (i, fs) = (case fs_names fs p of Some i \<Rightarrow> (i, fs) | None \<Rightarrow> fs_make p fs);
              (f, fs) = fs_describe i fs
          in (Ok f, fs))"

definition fs_open_read :: "io_env \<Rightarrow> path \<Rightarrow> file_system \<Rightarrow> fs_file option \<times> file_system" where
  "fs_open_read env p fs =
     (if open_err env p \<noteq> None then (None, fs)
      else case fs_names fs p of
             None \<Rightarrow> (None, fs)
           | Some i \<Rightarrow> let (f, fs) = fs_describe i fs in (Some f, fs))"

text \<open>\<open>write_all\<close> on a new file; a failure may leave part of the text behind.\<close>

definition fs_write_all :: "io_env \<Rightarrow> path \<Rightarrow> fs_file \<Rightarrow> string \<Rightarrow> file_system \<Rightarrow> (unit, string) result \<times> file_system" where
  "fs_write_all env p f s fs =
     (case write_err env p of
        Some (n, e) \<Rightarrow> (Err e, fs\<lparr>fs_data := (fs_data fs)(fd_inode f := take n s)\<rparr>)
      | None \<Rightarrow> (Ok (), fs\<lparr>fs_data := (fs_data fs)(fd_inode f := s)\<rparr>))"

definition fs_read_to_string :: "io_env \<Rightarrow> path \<Rightarrow> file_system \<Rightarrow> string option" where
  "fs_read_to_string env p fs = (if read_err env p then None else fs_content fs p)"

definition fs_remove_file :: "io_env \<Rightarrow> path \<Rightarrow> file_system \<Rightarrow> (unit, string) result \<times> file_system" where
  "fs_remove_file env p fs =
     (case remove_err env p of
        Some e \<Rightarrow> (Err e, fs)
      | None \<Rightarrow>
          if fs_names fs p = None then (Err ''No such file or directory (os error 2)'', fs)
          else (Ok (), fs\<lparr>fs_names := (fs_names fs)(p := None)\<rparr>))"

subsection \<open>Locks\<close>

text \<open>\<open>flock(fd, LOCK_EX | LOCK_NB)\<close>, \<open>flock(fd, LOCK_UN)\<close> and the closing of a description, which also
  happens when its process dies.\<close>

definition fs_flock :: "io_env \<Rightarrow> path \<Rightarrow> fs_file \<Rightarrow> file_system \<Rightarrow> (unit, string) result \<times> file_system" where
  "fs_flock env p f fs =
     (case flock_err env p of
        Some e \<Rightarrow> (Err e, fs)
      | None \<Rightarrow>
          if fs_locks fs (fd_inode f) \<in> {None, Some (fd_id f)}
          then (Ok (), fs\<lparr>fs_locks := (fs_locks fs)(fd_inode f \<mapsto> fd_id f)\<rparr>)
          else (Err ''Resource temporarily unavailable (os error 11)'', fs))"

definition fs_release :: "fs_file \<Rightarrow> file_system \<Rightarrow> file_system" where
  "fs_release f fs =
     (if fs_locks fs (fd_inode f) = Some (fd_id f)
      then fs\<lparr>fs_locks := (fs_locks fs)(fd_inode f := None)\<rparr> else fs)"

definition fs_unlock :: "io_env \<Rightarrow> path \<Rightarrow> fs_file \<Rightarrow> file_system \<Rightarrow> (unit, string) result \<times> file_system" where
  "fs_unlock env p f fs =
     (case unlock_err env p of Some e \<Rightarrow> (Err e, fs) | None \<Rightarrow> (Ok (), fs_release f fs))"

definition fs_close :: "fs_file \<Rightarrow> file_system \<Rightarrow> file_system" where
  "fs_close = fs_release"

subsection \<open>Well-formed file systems and faultless environments\<close>

text \<open>Inodes and descriptions are handed out in order; different names are different inodes (the
  crates make no hard links).\<close>

definition fs_wf :: "file_system \<Rightarrow> bool" where
  "fs_wf fs \<longleftrightarrow>
     (\<forall>p i. fs_names fs p = Some i \<longrightarrow> i < fs_next_inode fs) \<and>
     (\<forall>i d. fs_locks fs i = Some d \<longrightarrow> i < fs_next_inode fs \<and> d < fs_next_fd fs) \<and>
     (\<forall>p q i. fs_names fs p = Some i \<longrightarrow> fs_names fs q = Some i \<longrightarrow> p = q)"

definition io_calm :: "io_env \<Rightarrow> bool" where
  "io_calm env \<longleftrightarrow> mkdir_err env = (\<lambda>_. None) \<and> open_err env = (\<lambda>_. None) \<and>
     write_err env = (\<lambda>_. None) \<and> read_err env = (\<lambda>_. False) \<and> stat_err env = (\<lambda>_. False) \<and>
     remove_err env = (\<lambda>_. None) \<and> flock_err env = (\<lambda>_. None) \<and> unlock_err env = (\<lambda>_. None)"

definition fs_empty :: file_system where
  "fs_empty = \<lparr>fs_names = (\<lambda>_. None), fs_data = (\<lambda>_. ''''), fs_locks = (\<lambda>_. None), fs_dirs = {},
     fs_next_inode = 0, fs_next_fd = 0\<rparr>"

definition io_quiet :: io_env where
  "io_quiet = \<lparr>mkdir_err = (\<lambda>_. None), open_err = (\<lambda>_. None), write_err = (\<lambda>_. None),
     read_err = (\<lambda>_. False), stat_err = (\<lambda>_. False), remove_err = (\<lambda>_. None), flock_err = (\<lambda>_. None),
     unlock_err = (\<lambda>_. None), read_dir = (\<lambda>_. Ok [])\<rparr>"

lemmas fs_defs =
  fs_content_def fs_exists_def fs_create_dir_all_def fs_describe_def fs_make_def fs_create_new_def
  fs_open_or_create_def fs_open_read_def fs_write_all_def fs_read_to_string_def fs_remove_file_def
  fs_flock_def fs_release_def fs_unlock_def fs_close_def

lemma io_calm_quiet [simp]: "io_calm io_quiet" "io_calm (io_quiet\<lparr>read_dir := rd\<rparr>)"
  by (simp_all add: io_calm_def io_quiet_def)

lemma io_calm_simps [simp]:
  assumes "io_calm env"
  shows "mkdir_err env p = None" "open_err env p = None" "write_err env p = None"
    "\<not> read_err env p" "\<not> stat_err env p" "remove_err env p = None" "flock_err env p = None"
    "unlock_err env p = None"
  using assms by (simp_all add: io_calm_def)

lemma fs_wf_empty [simp]: "fs_wf fs_empty"
  by (simp add: fs_wf_def fs_empty_def)

lemma path_join_inj: "CHR ''/'' \<notin> set a \<Longrightarrow> CHR ''/'' \<notin> set b \<Longrightarrow> path_join p a = path_join p b \<longleftrightarrow> a = b"
  by (cases a; cases b) (auto simp: path_join_def)

subsection \<open>What an operation leaves alone\<close>

text \<open>The files at the paths \<open>P\<close> keep their names, contents and locks.\<close>

definition fs_keeps :: "path set \<Rightarrow> file_system \<Rightarrow> file_system \<Rightarrow> bool" where
  "fs_keeps P fs fs' \<longleftrightarrow> (\<forall>p \<in> P. fs_names fs' p = fs_names fs p \<and>
     (\<forall>i. fs_names fs p = Some i \<longrightarrow> fs_data fs' i = fs_data fs i \<and> fs_locks fs' i = fs_locks fs i))"

lemma fs_keeps_refl: "fs_keeps P fs fs"
  by (simp add: fs_keeps_def)

lemma fs_keeps_trans: "fs_keeps P fs fs1 \<Longrightarrow> fs_keeps P fs1 fs2 \<Longrightarrow> fs_keeps P fs fs2"
  by (simp add: fs_keeps_def)

lemma fs_keeps_mono: "fs_keeps P fs fs' \<Longrightarrow> Q \<subseteq> P \<Longrightarrow> fs_keeps Q fs fs'"
  by (auto simp: fs_keeps_def)

lemma keeps_content:
  assumes "fs_keeps P fs fs'" and "p \<in> P"
  shows "fs_content fs' p = fs_content fs p"
  using assms by (cases "fs_names fs p") (auto simp: fs_content_def fs_keeps_def)

lemma fs_wf_fresh:
  assumes "fs_wf fs"
  shows "fs_names fs p \<noteq> Some (fs_next_inode fs)" and "fs_locks fs (fs_next_inode fs) = None"
  using assms unfolding fs_wf_def by (metis less_irrefl, metis less_irrefl not_None_eq)

text \<open>An open description of the file at \<open>p\<close>.\<close>

definition fd_of :: "file_system \<Rightarrow> path \<Rightarrow> fs_file \<Rightarrow> bool" where
  "fd_of fs p f \<longleftrightarrow> fs_wf fs \<and> fs_names fs p = Some (fd_inode f) \<and> fd_id f < fs_next_fd fs"

lemma fs_open_or_create_keeps:
  assumes "fs_wf fs" and "fs_open_or_create env p fs = (r, fs')"
  shows "fs_wf fs'" and "fs_keeps (- {p}) fs fs'" and "r = Ok f \<Longrightarrow> fd_of fs' p f"
proof -
  show wf: "fs_wf fs'"
    using assms fs_wf_fresh [OF assms(1)] unfolding fs_wf_def
    by (auto simp: fs_defs Let_def less_Suc_eq split: option.splits if_splits)
  show "fs_keeps (- {p}) fs fs'"
    using assms(2) fs_wf_fresh [OF assms(1)]
    by (auto simp: fs_open_or_create_def fs_make_def fs_describe_def fs_keeps_def Let_def split: option.splits)
  show "fd_of fs' p f" if "r = Ok f"
    using assms(2) that wf by (auto simp: fd_of_def fs_defs Let_def split: option.splits)
qed

lemma fs_flock_keeps:
  assumes "fd_of fs p f" and "fs_flock env p f fs = (r, fs')"
  shows "fd_of fs' p f" and "fs_keeps (- {p}) fs fs'"
proof -
  show "fd_of fs' p f"
    using assms unfolding fd_of_def fs_wf_def by (auto simp: fs_flock_def split: option.splits if_splits)
  show "fs_keeps (- {p}) fs fs'"
    using assms by (auto simp: fd_of_def fs_flock_def fs_keeps_def fs_wf_def split: option.splits if_splits)
qed

lemma fs_release_keeps:
  assumes "fd_of fs p f"
  shows "fd_of (fs_release f fs) p f" and "fs_keeps (- {p}) fs (fs_release f fs)"
  using assms by (auto simp: fd_of_def fs_release_def fs_keeps_def fs_wf_def)

lemma fs_open_read_keeps:
  assumes "fs_wf fs" and "fs_open_read env p fs = (x, fs')"
  shows "fs_keeps P fs fs'" and "x = None \<Longrightarrow> fs_wf fs'" and "x = Some f \<Longrightarrow> fd_of fs' p f"
  using assms
  by (auto simp: fs_open_read_def fs_describe_def Let_def fs_keeps_def fd_of_def fs_wf_def less_Suc_eq
      split: if_splits option.splits)

subsection \<open>The directory of a file\<close>

lemma strip_slashes_snoc [simp]: "strip_slashes (p @ [CHR ''/'']) = strip_slashes p"
  by (simp add: strip_slashes_def)

lemma strip_slashes_id: "p \<noteq> [] \<Longrightarrow> last p \<noteq> CHR ''/'' \<Longrightarrow> strip_slashes p = p"
  by (cases p rule: rev_cases) (simp_all add: strip_slashes_def)

lemma path_parent_join:
  assumes p: "p \<noteq> []" "last p \<noteq> CHR ''/''" and a: "a \<noteq> []" "CHR ''/'' \<notin> set a"
  shows "path_parent (path_join p a) = Some p"
proof -
  have join: "path_join p a = p @ CHR ''/'' # a" using p a by (cases a) (auto simp: path_join_def ends_slash_def)
  have "last a \<noteq> CHR ''/''" using a by (metis last_in_set)
  then have strip: "strip_slashes (path_join p a) = path_join p a" using a(1) by (intro strip_slashes_id) (auto simp: join)
  have "dropWhile (\<lambda>c. c \<noteq> CHR ''/'') (rev a @ CHR ''/'' # rev p) = CHR ''/'' # rev p"
    using a(2) by (subst dropWhile_append2) auto
  then show ?thesis using p strip strip_slashes_id [OF p] by (simp add: path_parent_def Let_def join)
qed

end
