(* ===== verification/Process_Monitor.thy ===== *)
theory Process_Monitor
  imports File_System Service_Types
begin

text \<open>
  Process liveness: \<open>file_lock.rs\<close> and \<open>process_monitor.rs\<close> of \<open>crates/entangle-platform/src\<close>. A
  node holds an exclusive lock on its file for as long as it lives; others probe the lock. An
  operation takes the environment of its system calls and the file system and returns the new one.
\<close>

subsection \<open>File locks\<close>

record file_lock =
  fl_file :: fs_file
  fl_path :: path
  fl_locked :: bool

text \<open>\<open>FileLock::acquire\<close> in its two halves: up to the opened file, and the lock on it.\<close>

definition fl_acquire_open ::
  "io_env \<Rightarrow> path \<Rightarrow> file_system \<Rightarrow> (fs_file, platform_error) result \<times> file_system" where
  "fl_acquire_open env p fs =
     (let (made, fs) = (case path_parent p of
            None \<Rightarrow> (Ok (), fs)
          | Some parent \<Rightarrow>
              (case fs_create_dir_all env parent fs of
                 (Err e, fs) \<Rightarrow> (Err (FileLockError (''cannot create directory '' @ parent @ '': '' @ e)), fs)
               | (Ok _, fs) \<Rightarrow> (Ok (), fs)))
      in case made of
           Err e \<Rightarrow> (Err e, fs)
         | Ok _ \<Rightarrow>
             (case fs_open_or_create env p fs of
                (Err e, fs) \<Rightarrow> (Err (FileLockError (''cannot open '' @ p @ '': '' @ e)), fs)
              | (Ok f, fs) \<Rightarrow> (Ok f, fs)))"

definition fl_acquire_lock ::
  "io_env \<Rightarrow> path \<Rightarrow> fs_file \<Rightarrow> file_system \<Rightarrow> (file_lock, platform_error) result \<times> file_system" where
  "fl_acquire_lock env p f fs =
     (case fs_flock env p f fs of
        (Err e, fs) \<Rightarrow> (Err (FileLockError (''cannot lock '' @ p @ '': '' @ e)), fs_close f fs)
      | (Ok _, fs) \<Rightarrow> (Ok \<lparr>fl_file = f, fl_path = p, fl_locked = True\<rparr>, fs))"

definition fl_acquire ::
  "io_env \<Rightarrow> path \<Rightarrow> file_system \<Rightarrow> (file_lock, platform_error) result \<times> file_system" where
  "fl_acquire env p fs =
     (case fl_acquire_open env p fs of
        (Err e, fs) \<Rightarrow> (Err e, fs)
      | (Ok f, fs) \<Rightarrow> fl_acquire_lock env p f fs)"

definition fl_is_locked :: "io_env \<Rightarrow> path \<Rightarrow> file_system \<Rightarrow> bool \<times> file_system" where
  "fl_is_locked env p fs =
     (case fs_open_read env p fs of
        (None, fs) \<Rightarrow> (False, fs)
      | (Some f, fs) \<Rightarrow>
          (case fs_flock env p f fs of
             (Err e, fs) \<Rightarrow> (True, fs_close f fs)
           | (Ok _, fs) \<Rightarrow> (False, fs_close f (snd (fs_unlock env p f fs)))))"

definition fl_unlock ::
  "io_env \<Rightarrow> file_lock \<Rightarrow> file_system \<Rightarrow> (unit, platform_error) result \<times> file_lock \<times> file_system" where
  "fl_unlock env l fs =
     (if \<not> fl_locked l then (Ok (), l, fs)
      else case fs_unlock env (fl_path l) (fl_file l) fs of
             (Err e, fs) \<Rightarrow> (Err (FileLockError (''unlock failed: '' @ e)), l, fs)
           | (Ok _, fs) \<Rightarrow> (Ok (), l\<lparr>fl_locked := False\<rparr>, fs))"

text \<open>\<open>Drop for FileLock\<close>, then the drop of its \<open>File\<close> field, which closes the description.\<close>

definition fl_drop :: "io_env \<Rightarrow> file_lock \<Rightarrow> file_system \<Rightarrow> file_system" where
  "fl_drop env l fs =
     fs_close (fl_file l) (if fl_locked l then snd (snd (fl_unlock env l fs)) else fs)"

definition fl_release_and_remove ::
  "io_env \<Rightarrow> file_lock \<Rightarrow> file_system \<Rightarrow> (unit, platform_error) result \<times> file_system" where
  "fl_release_and_remove env l fs =
     (case fl_unlock env l fs of
        (Err e, l, fs) \<Rightarrow> (Err e, fl_drop env l fs)
      | (Ok _, l, fs) \<Rightarrow>
          (case fs_remove_file env (fl_path l) fs of
             (Err e, fs) \<Rightarrow>
               (Err (FileLockError (''cannot remove '' @ fl_path l @ '': '' @ e)), fl_drop env l fs)
           | (Ok _, fs) \<Rightarrow> (Ok (), fl_drop env l fs)))"

subsection \<open>The monitor\<close>

record process_monitor =
  pm_lock :: file_lock
  pm_node_id :: node_id
  pm_root_dir :: path

definition nodes_dir :: "path \<Rightarrow> path" where
  "nodes_dir root = path_join root ''nodes''"

definition node_path :: "path \<Rightarrow> node_id \<Rightarrow> path" where
  "node_path root n = path_join (nodes_dir root) (hex_pad 32 (unat (nid n)))"

text \<open>The \<open>Display\<close> texts of \<open>PlatformError\<close>.\<close>

fun show_platform_error :: "platform_error \<Rightarrow> string" where
  "show_platform_error (SharedMemoryCreate n r) =
     ''shared memory creation failed for '' @ [CHR 0x27] @ n @ [CHR 0x27] @ '': '' @ r"
| "show_platform_error (SharedMemoryOpen n r) =
     ''shared memory open failed for '' @ [CHR 0x27] @ n @ [CHR 0x27] @ '': '' @ r"
| "show_platform_error (SharedMemoryUnlink n r) =
     ''shared memory unlink failed for '' @ [CHR 0x27] @ n @ [CHR 0x27] @ '': '' @ r"
| "show_platform_error (Mmap r) = ''mmap failed: '' @ r"
| "show_platform_error (FileLockError r) = ''file lock error: '' @ r"
| "show_platform_error (EventError r) = ''event notification error: '' @ r"
| "show_platform_error (SignalError r) = ''signal handling error: '' @ r"
| "show_platform_error (ProcessMonitorError r) = ''process monitor error: '' @ r"
| "show_platform_error (Io e) = ''IO error: '' @ e"

definition pm_register ::
  "io_env \<Rightarrow> node_id \<Rightarrow> path \<Rightarrow> file_system \<Rightarrow> (process_monitor, platform_error) result \<times> file_system" where
  "pm_register env n root fs =
     (case fs_create_dir_all env (nodes_dir root) fs of
        (Err e, fs) \<Rightarrow> (Err (ProcessMonitorError (''cannot create nodes dir: '' @ e)), fs)
      | (Ok _, fs) \<Rightarrow>
          (case fl_acquire env (node_path root n) fs of
             (Err e, fs) \<Rightarrow>
               (Err (ProcessMonitorError (''cannot acquire node lock: '' @ show_platform_error e)), fs)
           | (Ok l, fs) \<Rightarrow> (Ok \<lparr>pm_lock = l, pm_node_id = n, pm_root_dir = root\<rparr>, fs)))"

definition pm_is_alive :: "io_env \<Rightarrow> node_id \<Rightarrow> path \<Rightarrow> file_system \<Rightarrow> bool \<times> file_system" where
  "pm_is_alive env n root fs = fl_is_locked env (node_path root n) fs"

text \<open>The loop of \<open>list_nodes\<close>. A name that is not UTF-8 is not hexadecimal either.\<close>

fun parse_entries :: "(string, string) result list \<Rightarrow> (node_id list, platform_error) result" where
  "parse_entries [] = Ok []"
| "parse_entries (Err e # es) = Err (ProcessMonitorError (''cannot read dir entry: '' @ e))"
| "parse_entries (Ok name # es) =
     (case parse_hex_u128 name of
        None \<Rightarrow> parse_entries es
      | Some n \<Rightarrow> map_ok (\<lambda>ns. NodeId n # ns) (parse_entries es))"

definition pm_list_nodes :: "io_env \<Rightarrow> path \<Rightarrow> file_system \<Rightarrow> (node_id list, platform_error) result" where
  "pm_list_nodes env root fs =
     (if \<not> fs_exists env (nodes_dir root) fs then Ok []
      else case read_dir env (nodes_dir root) of
             Err e \<Rightarrow> Err (ProcessMonitorError (''cannot read nodes dir: '' @ e))
           | Ok es \<Rightarrow> parse_entries es)"

fun cleanup_nodes :: "io_env \<Rightarrow> path \<Rightarrow> node_id list \<Rightarrow> file_system \<Rightarrow> node_id list \<times> file_system" where
  "cleanup_nodes env root [] fs = ([], fs)"
| "cleanup_nodes env root (n # ns) fs =
     (let (alive, fs) = pm_is_alive env n root fs
      in if alive then cleanup_nodes env root ns fs
         else case fs_remove_file env (node_path root n) fs of
                (Err e, fs) \<Rightarrow> cleanup_nodes env root ns fs
              | (Ok _, fs) \<Rightarrow> (let (dead, fs) = cleanup_nodes env root ns fs in (n # dead, fs)))"

definition pm_cleanup_dead_nodes ::
  "io_env \<Rightarrow> path \<Rightarrow> file_system \<Rightarrow> (node_id list, platform_error) result \<times> file_system" where
  "pm_cleanup_dead_nodes env root fs =
     (case pm_list_nodes env root fs of
        Err e \<Rightarrow> (Err e, fs)
      | Ok ns \<Rightarrow> (let (dead, fs) = cleanup_nodes env root ns fs in (Ok dead, fs)))"

definition pm_deregister ::
  "io_env \<Rightarrow> process_monitor \<Rightarrow> file_system \<Rightarrow> (unit, platform_error) result \<times> file_system" where
  "pm_deregister env m fs =
     (case fl_release_and_remove env (pm_lock m) fs of
        (r, fs) \<Rightarrow> (map_err (\<lambda>e. ProcessMonitorError (''deregister failed: '' @ show_platform_error e)) r, fs))"

text \<open>Dropping the monitor drops its lock; the file stays. A crash only closes the description.\<close>

definition pm_drop :: "io_env \<Rightarrow> process_monitor \<Rightarrow> file_system \<Rightarrow> file_system" where
  "pm_drop env m fs = fl_drop env (pm_lock m) fs"

definition pm_crash :: "process_monitor \<Rightarrow> file_system \<Rightarrow> file_system" where
  "pm_crash m fs = fs_close (fl_file (pm_lock m)) fs"

subsection \<open>What the operations do to names and locks\<close>

definition held :: "file_system \<Rightarrow> path \<Rightarrow> bool" where
  "held fs p \<longleftrightarrow> (\<exists>i d. fs_names fs p = Some i \<and> fs_locks fs i = Some d)"

lemma node_path_inj: "node_path root m = node_path root n \<longleftrightarrow> m = n"
  by (cases m; cases n) (simp add: node_path_def path_join_inj hex_pad_slash_free hex_pad_inj)

lemma fl_is_locked_view:
  assumes "io_calm env" and "fs_wf fs"
  shows "\<exists>fs'. fl_is_locked env p fs = (held fs p, fs') \<and> fs_names fs' = fs_names fs \<and>
    fs_locks fs' = fs_locks fs \<and> fs_wf fs'"
proof (cases "fs_names fs p")
  case None
  then show ?thesis
    using assms by (auto simp: fl_is_locked_def fs_open_read_def held_def)
next
  case (Some i)
  let ?fs = "fs\<lparr>fs_next_fd := Suc (fs_next_fd fs)\<rparr>"
  have fresh: "fs_locks fs i \<noteq> Some (fs_next_fd fs)"
    using assms(2) by (auto simp: fs_wf_def)
  have wf: "fs_wf ?fs" using assms(2) by (auto simp: fs_wf_def less_Suc_eq)
  have "fl_is_locked env p fs = (held fs p, ?fs\<lparr>fs_locks := fs_locks fs\<rparr>)"
    using assms(1) Some fresh
    by (cases "fs_locks fs i")
      (auto simp: fl_is_locked_def fs_defs held_def fun_upd_idem_iff intro!: file_system.equality)
  then show ?thesis using wf by auto
qed

lemmas fl_acquire_defs = fl_acquire_def fl_acquire_open_def fl_acquire_lock_def fs_defs Let_def

lemma fl_acquire_view:
  assumes env: "io_calm env" and wf: "fs_wf fs"
  shows "if held fs p
    then \<exists>e fs'. fl_acquire env p fs = (Err e, fs') \<and> fs_names fs' = fs_names fs \<and>
      fs_locks fs' = fs_locks fs \<and> fs_wf fs'
    else \<exists>i fs'. fl_acquire env p fs =
        (Ok \<lparr>fl_file = \<lparr>fd_id = fs_next_fd fs, fd_inode = i\<rparr>, fl_path = p, fl_locked = True\<rparr>, fs') \<and>
      fs_names fs' = (fs_names fs)(p \<mapsto> i) \<and> fs_locks fs' = (fs_locks fs)(i \<mapsto> fs_next_fd fs) \<and>
      fs_locks fs i = None \<and> fs_wf fs'"
proof -
  let ?dirs = "case path_parent p of None \<Rightarrow> fs_dirs fs | Some q \<Rightarrow> insert q (fs_dirs fs)"
  have none: "fs_locks fs (fs_next_inode fs) = None"
    using wf unfolding fs_wf_def by (metis less_irrefl not_None_eq)
  have noname: "fs_names fs q \<noteq> Some (fs_next_inode fs)" for q
    using wf unfolding fs_wf_def by fastforce
  show ?thesis
  proof (cases "fs_names fs p")
    case None
    have "fl_acquire env p fs =
      (Ok \<lparr>fl_file = \<lparr>fd_id = fs_next_fd fs, fd_inode = fs_next_inode fs\<rparr>, fl_path = p, fl_locked = True\<rparr>,
       fs\<lparr>fs_dirs := ?dirs, fs_names := (fs_names fs)(p \<mapsto> fs_next_inode fs),
          fs_data := (fs_data fs)(fs_next_inode fs := ''''),
          fs_locks := (fs_locks fs)(fs_next_inode fs \<mapsto> fs_next_fd fs),
          fs_next_inode := Suc (fs_next_inode fs), fs_next_fd := Suc (fs_next_fd fs)\<rparr>)"
      using env None by (auto simp: fl_acquire_defs split: option.splits)
    moreover have "fs_wf (fs\<lparr>fs_dirs := ?dirs, fs_names := (fs_names fs)(p \<mapsto> fs_next_inode fs),
          fs_data := (fs_data fs)(fs_next_inode fs := ''''),
          fs_locks := (fs_locks fs)(fs_next_inode fs \<mapsto> fs_next_fd fs),
          fs_next_inode := Suc (fs_next_inode fs), fs_next_fd := Suc (fs_next_fd fs)\<rparr>)"
      using wf noname unfolding fs_wf_def by (auto simp: less_Suc_eq)
    ultimately show ?thesis using None none by (simp add: held_def)
  next
    case (Some i)
    have fresh: "fs_locks fs i \<noteq> Some (fs_next_fd fs)" using wf by (auto simp: fs_wf_def)
    show ?thesis
    proof (cases "fs_locks fs i")
      case None
      have "fl_acquire env p fs =
        (Ok \<lparr>fl_file = \<lparr>fd_id = fs_next_fd fs, fd_inode = i\<rparr>, fl_path = p, fl_locked = True\<rparr>,
         fs\<lparr>fs_dirs := ?dirs, fs_locks := (fs_locks fs)(i \<mapsto> fs_next_fd fs),
            fs_next_fd := Suc (fs_next_fd fs)\<rparr>)"
        using env None Some by (auto simp: fl_acquire_defs split: option.splits)
      moreover have "fs_wf (fs\<lparr>fs_dirs := ?dirs, fs_locks := (fs_locks fs)(i \<mapsto> fs_next_fd fs),
            fs_next_fd := Suc (fs_next_fd fs)\<rparr>)"
        using wf Some unfolding fs_wf_def by (auto simp: less_Suc_eq)
      ultimately show ?thesis using None Some by (simp add: held_def fun_upd_idem)
    next
      case held: (Some d)
      have "\<exists>e. fl_acquire env p fs =
          (Err e, fs\<lparr>fs_dirs := ?dirs, fs_next_fd := Suc (fs_next_fd fs)\<rparr>)"
        using env held Some fresh by (auto simp: fl_acquire_defs split: option.splits)
      moreover have "fs_wf (fs\<lparr>fs_dirs := ?dirs, fs_next_fd := Suc (fs_next_fd fs)\<rparr>)"
        using wf unfolding fs_wf_def by (auto simp: less_Suc_eq)
      ultimately show ?thesis using held Some by (auto simp: held_def)
    qed
  qed
qed

lemma pm_register_view:
  assumes env: "io_calm env" and wf: "fs_wf fs"
  shows "if held fs (node_path root n)
    then \<exists>e fs'. pm_register env n root fs = (Err e, fs') \<and> fs_names fs' = fs_names fs \<and>
      fs_locks fs' = fs_locks fs \<and> fs_wf fs'
    else \<exists>i fs'. pm_register env n root fs =
        (Ok \<lparr>pm_lock = \<lparr>fl_file = \<lparr>fd_id = fs_next_fd fs, fd_inode = i\<rparr>, fl_path = node_path root n,
               fl_locked = True\<rparr>, pm_node_id = n, pm_root_dir = root\<rparr>, fs') \<and>
      fs_names fs' = (fs_names fs)(node_path root n \<mapsto> i) \<and>
      fs_locks fs' = (fs_locks fs)(i \<mapsto> fs_next_fd fs) \<and> fs_locks fs i = None \<and> fs_wf fs'"
proof -
  let ?fs = "fs\<lparr>fs_dirs := insert (nodes_dir root) (fs_dirs fs)\<rparr>"
  have "fs_wf ?fs" using wf by (simp add: fs_wf_def)
  from fl_acquire_view [OF env this, of "node_path root n"]
  show ?thesis
    using env by (auto simp: pm_register_def fs_create_dir_all_def held_def split: if_splits)
qed

lemma fl_drop_view:
  assumes "fs_wf fs"
  shows "fs_names (fl_drop env l fs) = fs_names fs" and "fs_wf (fl_drop env l fs)"
    and "fs_locks (fl_drop env l fs) =
      (if fs_locks fs (fd_inode (fl_file l)) = Some (fd_id (fl_file l))
       then (fs_locks fs)(fd_inode (fl_file l) := None) else fs_locks fs)"
  using assms
  by (auto simp: fl_drop_def fl_unlock_def fs_unlock_def fs_close_def fs_release_def fs_wf_def
      split: option.splits)

text \<open>The cleanup removes the files of listed nodes whose lock nobody holds, reports exactly those, and
  leaves every held file in place.\<close>

lemma cleanup_nodes_view:
  assumes "io_calm env" and "fs_wf fs"
  shows "\<exists>dead fs'. cleanup_nodes env root ns fs = (dead, fs') \<and> fs_wf fs' \<and>
    fs_locks fs' = fs_locks fs \<and>
    (\<forall>p. fs_names fs' p = (if p \<in> node_path root ` set ns \<and> \<not> held fs p then None else fs_names fs p)) \<and>
    set dead = {n \<in> set ns. fs_names fs (node_path root n) \<noteq> None \<and> \<not> held fs (node_path root n)}"
  using assms(2)
proof (induction ns arbitrary: fs)
  case (Cons n ns)
  let ?p = "node_path root n"
  obtain fs1 where probe: "pm_is_alive env n root fs = (held fs ?p, fs1)"
    and fs1: "fs_names fs1 = fs_names fs" "fs_locks fs1 = fs_locks fs" "fs_wf fs1"
    using fl_is_locked_view [OF assms(1) Cons.prems, of ?p] by (auto simp: pm_is_alive_def)
  have held1: "held fs1 q = held fs q" for q using fs1 by (simp add: held_def)
  show ?case
  proof (cases "held fs ?p")
    case True
    with Cons.IH [OF fs1(3)] probe fs1 held1 show ?thesis by (fastforce simp: node_path_inj)
  next
    case False
    show ?thesis
    proof (cases "fs_names fs ?p")
      case None
      with False Cons.IH [OF fs1(3)] probe fs1 held1 assms(1) show ?thesis
        by (fastforce simp: fs_remove_file_def)
    next
      case (Some i)
      let ?fs2 = "fs1\<lparr>fs_names := (fs_names fs1)(?p := None)\<rparr>"
      have wf: "fs_wf ?fs2" using fs1(3) by (auto simp: fs_wf_def)
      have held2: "held ?fs2 q \<longleftrightarrow> held fs q" for q using fs1 False by (auto simp: held_def)
      have step: "cleanup_nodes env root (n # ns) fs =
          (let (dead, fs') = cleanup_nodes env root ns ?fs2 in (n # dead, fs'))"
        using probe False Some fs1(1) assms(1) by (simp add: fs_remove_file_def)
      from Cons.IH [OF wf] step held2 fs1 False Some show ?thesis
        by (fastforce simp: node_path_inj)
    qed
  qed
qed simp

subsection \<open>Nodes coming and going\<close>

record pm_sys =
  pms_fs :: file_system
  pms_live :: "process_monitor list"

text \<open>Steps of any number of processes that use the directory under \<open>root\<close>: each is one whole
  operation in a calm environment, with any directory listing.\<close>

inductive pm_step :: "path \<Rightarrow> pm_sys \<Rightarrow> pm_sys \<Rightarrow> bool" for root where
  register_ok: "io_calm env \<Longrightarrow> pm_register env n root (pms_fs s) = (Ok m, fs') \<Longrightarrow>
    pm_step root s \<lparr>pms_fs = fs', pms_live = m # pms_live s\<rparr>"
| register_err: "io_calm env \<Longrightarrow> pm_register env n root (pms_fs s) = (Err e, fs') \<Longrightarrow>
    pm_step root s (s\<lparr>pms_fs := fs'\<rparr>)"
| drop: "io_calm env \<Longrightarrow> m \<in> set (pms_live s) \<Longrightarrow>
    pm_step root s \<lparr>pms_fs = pm_drop env m (pms_fs s), pms_live = remove1 m (pms_live s)\<rparr>"
| crash: "m \<in> set (pms_live s) \<Longrightarrow>
    pm_step root s \<lparr>pms_fs = pm_crash m (pms_fs s), pms_live = remove1 m (pms_live s)\<rparr>"
| deregister: "io_calm env \<Longrightarrow> m \<in> set (pms_live s) \<Longrightarrow> pm_deregister env m (pms_fs s) = (r, fs') \<Longrightarrow>
    pm_step root s \<lparr>pms_fs = fs', pms_live = remove1 m (pms_live s)\<rparr>"
| probe: "io_calm env \<Longrightarrow> pm_is_alive env n root (pms_fs s) = (b, fs') \<Longrightarrow>
    pm_step root s (s\<lparr>pms_fs := fs'\<rparr>)"
| cleanup: "io_calm env \<Longrightarrow> pm_cleanup_dead_nodes env root (pms_fs s) = (r, fs') \<Longrightarrow>
    pm_step root s (s\<lparr>pms_fs := fs'\<rparr>)"

inductive pm_reach :: "path \<Rightarrow> pm_sys \<Rightarrow> bool" for root where
  start: "pm_reach root \<lparr>pms_fs = fs_empty, pms_live = []\<rparr>"
| step: "pm_reach root s \<Longrightarrow> pm_step root s s' \<Longrightarrow> pm_reach root s'"

definition holds_lock :: "path \<Rightarrow> file_system \<Rightarrow> process_monitor \<Rightarrow> bool" where
  "holds_lock root fs m \<longleftrightarrow> pm_root_dir m = root \<and> fl_path (pm_lock m) = node_path root (pm_node_id m) \<and>
     fl_locked (pm_lock m) \<and> fs_names fs (fl_path (pm_lock m)) = Some (fd_inode (fl_file (pm_lock m))) \<and>
     fs_locks fs (fd_inode (fl_file (pm_lock m))) = Some (fd_id (fl_file (pm_lock m)))"

definition pm_inv :: "path \<Rightarrow> pm_sys \<Rightarrow> bool" where
  "pm_inv root s \<longleftrightarrow> fs_wf (pms_fs s) \<and> distinct (pms_live s) \<and>
     (\<forall>m \<in> set (pms_live s). holds_lock root (pms_fs s) m) \<and>
     (\<forall>i d. fs_locks (pms_fs s) i = Some d \<longrightarrow>
        (\<exists>m \<in> set (pms_live s). fd_inode (fl_file (pm_lock m)) = i))"

text \<open>Two live monitors never share an inode, so the lock of one is untouched by what happens to
  another.\<close>

lemma holds_lock_inode:
  assumes "fs_wf fs" and "holds_lock root fs m" and "holds_lock root fs m'"
    and "fd_inode (fl_file (pm_lock m)) = fd_inode (fl_file (pm_lock m'))"
  shows "m = m'"
proof -
  have "node_path root (pm_node_id m) = node_path root (pm_node_id m')"
    using assms unfolding holds_lock_def fs_wf_def by metis
  then have "pm_node_id m = pm_node_id m'" by (simp add: node_path_inj)
  moreover have "fl_file (pm_lock m) = fl_file (pm_lock m')"
    using assms by (auto simp: holds_lock_def)
  ultimately show ?thesis
    using assms by (auto simp: holds_lock_def intro!: process_monitor.equality file_lock.equality)
qed

lemma held_iff_live:
  assumes "pm_inv root s"
  shows "held (pms_fs s) (node_path root n) \<longleftrightarrow> n \<in> pm_node_id ` set (pms_live s)"
proof
  assume "held (pms_fs s) (node_path root n)"
  then obtain i d where "fs_names (pms_fs s) (node_path root n) = Some i" "fs_locks (pms_fs s) i = Some d"
    by (auto simp: held_def)
  moreover from this obtain m where m: "m \<in> set (pms_live s)" "fd_inode (fl_file (pm_lock m)) = i"
    using assms unfolding pm_inv_def by blast
  ultimately have "node_path root n = node_path root (pm_node_id m)"
    using assms unfolding pm_inv_def holds_lock_def fs_wf_def by metis
  then show "n \<in> pm_node_id ` set (pms_live s)" using m(1) by (auto simp: node_path_inj)
next
  assume "n \<in> pm_node_id ` set (pms_live s)"
  then show "held (pms_fs s) (node_path root n)"
    using assms by (auto simp: pm_inv_def holds_lock_def held_def)
qed

lemma pm_inv_same:
  assumes "pm_inv root s" and "fs_wf fs'" and "fs_locks fs' = fs_locks (pms_fs s)"
    and "\<And>p. held (pms_fs s) p \<Longrightarrow> fs_names fs' p = fs_names (pms_fs s) p"
  shows "pm_inv root (s\<lparr>pms_fs := fs'\<rparr>)"
  using assms unfolding pm_inv_def holds_lock_def held_def by auto

lemma pm_inv_gone:
  assumes inv: "pm_inv root s" and m: "m \<in> set (pms_live s)" and wf: "fs_wf fs'"
    and locks: "fs_locks fs' = (fs_locks (pms_fs s))(fd_inode (fl_file (pm_lock m)) := None)"
    and names: "\<And>p. p \<noteq> fl_path (pm_lock m) \<Longrightarrow> fs_names fs' p = fs_names (pms_fs s) p"
  shows "pm_inv root \<lparr>pms_fs = fs', pms_live = remove1 m (pms_live s)\<rparr>"
proof -
  have live: "set (remove1 m (pms_live s)) = set (pms_live s) - {m}" "distinct (remove1 m (pms_live s))"
    using inv by (simp_all add: pm_inv_def distinct_remove1)
  have keep: "holds_lock root fs' m'" if "m' \<in> set (pms_live s)" "m' \<noteq> m" for m'
  proof -
    have hm: "holds_lock root (pms_fs s) m" and hm': "holds_lock root (pms_fs s) m'"
      using inv m that by (auto simp: pm_inv_def)
    have "fd_inode (fl_file (pm_lock m')) \<noteq> fd_inode (fl_file (pm_lock m))"
      using holds_lock_inode [OF _ hm' hm] inv that(2) by (auto simp: pm_inv_def)
    moreover from this have "fl_path (pm_lock m') \<noteq> fl_path (pm_lock m)"
      using hm hm' by (auto simp: holds_lock_def)
    ultimately show ?thesis using hm' names [of "fl_path (pm_lock m')"] locks unfolding holds_lock_def by auto
  qed
  have "\<exists>m' \<in> set (pms_live s) - {m}. fd_inode (fl_file (pm_lock m')) = i"
    if "fs_locks fs' i = Some d" for i d
  proof -
    from that locks have i: "i \<noteq> fd_inode (fl_file (pm_lock m))" "fs_locks (pms_fs s) i = Some d"
      by (auto split: if_splits)
    then obtain m' where "m' \<in> set (pms_live s)" "fd_inode (fl_file (pm_lock m')) = i"
      using inv unfolding pm_inv_def by blast
    with i show ?thesis by blast
  qed
  then show ?thesis using live wf keep by (auto simp: pm_inv_def)
qed

lemma pm_deregister_view:
  assumes env: "io_calm env" and wf: "fs_wf fs" and m: "holds_lock root fs m"
  shows "\<exists>fs'. pm_deregister env m fs = (Ok (), fs') \<and> fs_wf fs' \<and>
    fs_locks fs' = (fs_locks fs)(fd_inode (fl_file (pm_lock m)) := None) \<and>
    fs_names fs' = (fs_names fs)(fl_path (pm_lock m) := None)"
proof -
  let ?f = "fl_file (pm_lock m)"
  let ?fs = "fs\<lparr>fs_locks := (fs_locks fs)(fd_inode ?f := None),
    fs_names := (fs_names fs)(fl_path (pm_lock m) := None)\<rparr>"
  have "pm_deregister env m fs = (Ok (), ?fs)"
    using env m
    by (auto simp: pm_deregister_def fl_release_and_remove_def fl_unlock_def fl_drop_def fs_defs holds_lock_def)
  moreover have "fs_wf ?fs" using wf by (auto simp: fs_wf_def)
  ultimately show ?thesis by auto
qed

lemma pm_inv_register:
  assumes inv: "pm_inv root s" and env: "io_calm env"
    and run: "pm_register env n root (pms_fs s) = (Ok m, fs')"
  shows "pm_inv root \<lparr>pms_fs = fs', pms_live = m # pms_live s\<rparr>"
proof -
  have wf: "fs_wf (pms_fs s)" using inv by (simp add: pm_inv_def)
  obtain i where m: "m = \<lparr>pm_lock = \<lparr>fl_file = \<lparr>fd_id = fs_next_fd (pms_fs s), fd_inode = i\<rparr>,
        fl_path = node_path root n, fl_locked = True\<rparr>, pm_node_id = n, pm_root_dir = root\<rparr>"
    and free: "\<not> held (pms_fs s) (node_path root n)"
    and fs': "fs_names fs' = (fs_names (pms_fs s))(node_path root n \<mapsto> i)"
      "fs_locks fs' = (fs_locks (pms_fs s))(i \<mapsto> fs_next_fd (pms_fs s))"
      "fs_locks (pms_fs s) i = None" "fs_wf fs'"
    using pm_register_view [OF env wf, of root n] run by (auto split: if_splits)
  have old: "fl_path (pm_lock m') \<noteq> node_path root n \<and> fd_inode (fl_file (pm_lock m')) \<noteq> i"
    if "m' \<in> set (pms_live s)" for m'
    using inv that free fs'(3) by (auto simp: pm_inv_def holds_lock_def held_def)
  have "holds_lock root fs' m'" if "m' \<in> set (pms_live s)" for m'
    using inv that old [OF that] fs' by (auto simp: pm_inv_def holds_lock_def)
  moreover have "holds_lock root fs' m" using m fs' by (simp add: holds_lock_def)
  moreover have "m \<notin> set (pms_live s)" using old m by fastforce
  moreover have "\<exists>m' \<in> insert m (set (pms_live s)). fd_inode (fl_file (pm_lock m')) = j"
    if "fs_locks fs' j = Some d" for j d
    using that inv m fs'(2) unfolding pm_inv_def by (cases "j = i") auto
  ultimately show ?thesis using inv fs'(4) by (simp add: pm_inv_def)
qed

lemma pm_step_inv: "pm_step root s s' \<Longrightarrow> pm_inv root s \<Longrightarrow> pm_inv root s'"
proof (induction rule: pm_step.induct)
  case (register_ok env n s m fs')
  then show ?case by (simp add: pm_inv_register)
next
  case (register_err env n s e fs')
  then have wf: "fs_wf (pms_fs s)" by (simp add: pm_inv_def)
  from pm_register_view [OF register_err(1) wf, of root n] register_err show ?case
    by (intro pm_inv_same) (auto split: if_splits)
next
  case (drop env m s)
  then have "holds_lock root (pms_fs s) m" and wf: "fs_wf (pms_fs s)" by (auto simp: pm_inv_def)
  then show ?case
    using drop fl_drop_view [OF wf, of env "pm_lock m"]
    by (intro pm_inv_gone) (auto simp: pm_drop_def holds_lock_def)
next
  case (crash m s)
  then have "holds_lock root (pms_fs s) m" and wf: "fs_wf (pms_fs s)" by (auto simp: pm_inv_def)
  then show ?case
    using crash by (intro pm_inv_gone) (auto simp: pm_crash_def fs_close_def fs_release_def holds_lock_def fs_wf_def)
next
  case (deregister env m s r fs')
  then have m: "holds_lock root (pms_fs s) m" and wf: "fs_wf (pms_fs s)" by (auto simp: pm_inv_def)
  from pm_deregister_view [OF deregister(1) wf m] deregister show ?case
    by (intro pm_inv_gone) auto
next
  case (probe env n s b fs')
  then have wf: "fs_wf (pms_fs s)" by (simp add: pm_inv_def)
  from fl_is_locked_view [OF probe(1) wf, of "node_path root n"] probe show ?case
    by (intro pm_inv_same) (auto simp: pm_is_alive_def)
next
  case (cleanup env s r fs')
  then have wf: "fs_wf (pms_fs s)" by (simp add: pm_inv_def)
  show ?case
  proof (cases "pm_list_nodes env root (pms_fs s)")
    case (Ok ns)
    from cleanup_nodes_view [OF cleanup(1) wf, of root ns] Ok cleanup show ?thesis
      by (intro pm_inv_same) (auto simp: pm_cleanup_dead_nodes_def)
  next
    case (Err e)
    with cleanup show ?thesis by (simp add: pm_cleanup_dead_nodes_def pm_inv_def)
  qed
qed

lemma pm_reach_inv: "pm_reach root s \<Longrightarrow> pm_inv root s"
proof (induction rule: pm_reach.induct)
  case start
  show ?case by (simp add: pm_inv_def) (simp add: fs_empty_def)
qed (blast intro: pm_step_inv)

text \<open>C14: liveness detection is exact between operations. However many processes register, exit,
  crash, probe and clean up under one root, \<open>is_alive\<close> answers whether the node has a live monitor, a
  node id is held by at most one live monitor, and a cleanup over any listing reports exactly the
  listed nodes whose file is there and whose process is gone, removes exactly their files, and
  leaves every live node alive.\<close>

theorem pm_liveness:
  assumes "pm_reach root s" and "io_calm env"
  shows "(\<forall>n. fst (pm_is_alive env n root (pms_fs s)) \<longleftrightarrow> n \<in> pm_node_id ` set (pms_live s)) \<and>
    distinct (map pm_node_id (pms_live s)) \<and>
    (\<forall>ns. pm_list_nodes env root (pms_fs s) = Ok ns \<longrightarrow>
      (\<exists>dead fs'. pm_cleanup_dead_nodes env root (pms_fs s) = (Ok dead, fs') \<and>
        set dead = {n \<in> set ns. fs_names (pms_fs s) (node_path root n) \<noteq> None \<and>
                     n \<notin> pm_node_id ` set (pms_live s)} \<and>
        (\<forall>n. fs_names fs' (node_path root n) =
           (if n \<in> set dead then None else fs_names (pms_fs s) (node_path root n))) \<and>
        (\<forall>n. fst (pm_is_alive env n root fs') \<longleftrightarrow> n \<in> pm_node_id ` set (pms_live s))))"
proof -
  note inv = pm_reach_inv [OF assms(1)]
  then have wf: "fs_wf (pms_fs s)" by (simp add: pm_inv_def)
  note live = held_iff_live [OF inv]
  have alive: "fst (pm_is_alive env n root fs) \<longleftrightarrow> held fs (node_path root n)" if "fs_wf fs" for n fs
    using fl_is_locked_view [OF assms(2) that, of "node_path root n"] by (auto simp: pm_is_alive_def)
  have inj: "inj_on pm_node_id (set (pms_live s))"
    using inv holds_lock_inode [OF wf] unfolding pm_inv_def holds_lock_def inj_on_def
    by (metis option.inject)
  have clean: "\<exists>dead fs'. pm_cleanup_dead_nodes env root (pms_fs s) = (Ok dead, fs') \<and>
      set dead = {n \<in> set ns. fs_names (pms_fs s) (node_path root n) \<noteq> None \<and>
                   n \<notin> pm_node_id ` set (pms_live s)} \<and>
      (\<forall>n. fs_names fs' (node_path root n) =
         (if n \<in> set dead then None else fs_names (pms_fs s) (node_path root n))) \<and>
      (\<forall>n. fst (pm_is_alive env n root fs') \<longleftrightarrow> n \<in> pm_node_id ` set (pms_live s))"
    if ns: "pm_list_nodes env root (pms_fs s) = Ok ns" for ns
  proof -
    obtain dead fs' where run: "cleanup_nodes env root ns (pms_fs s) = (dead, fs')" and wf': "fs_wf fs'"
      and locks: "fs_locks fs' = fs_locks (pms_fs s)"
      and names: "\<And>p. fs_names fs' p =
        (if p \<in> node_path root ` set ns \<and> \<not> held (pms_fs s) p then None else fs_names (pms_fs s) p)"
      and dead: "set dead = {n \<in> set ns. fs_names (pms_fs s) (node_path root n) \<noteq> None \<and>
        \<not> held (pms_fs s) (node_path root n)}"
      using cleanup_nodes_view [OF assms(2) wf, of root ns] by blast
    have "held fs' p \<longleftrightarrow> held (pms_fs s) p" for p
      using locks names by (auto simp: held_def)
    then show ?thesis
      using run ns dead names alive [OF wf'] live
      by (auto simp: pm_cleanup_dead_nodes_def node_path_inj image_iff)
  qed
  show ?thesis
    using alive [OF wf] live inv inj clean by (auto simp: distinct_map pm_inv_def)
qed

theorem pm_liveness_witness:
  "\<exists>s. pm_reach ''/r'' s \<and> pm_node_id ` set (pms_live s) = {NodeId 7} \<and>
     fst (pm_is_alive io_quiet (NodeId 7) ''/r'' (pms_fs s)) \<and>
     \<not> fst (pm_is_alive io_quiet (NodeId 8) ''/r'' (pms_fs s))"
proof -
  have "\<not> held fs_empty p" for p by (simp add: held_def fs_empty_def)
  then obtain m fs' where m: "pm_register io_quiet (NodeId 7) ''/r'' fs_empty = (Ok m, fs')"
    and n: "pm_node_id m = NodeId 7"
    using pm_register_view [of io_quiet fs_empty "''/r''" "NodeId 7"] by (auto split: if_splits)
  have "pm_step ''/r'' \<lparr>pms_fs = fs_empty, pms_live = []\<rparr> \<lparr>pms_fs = fs', pms_live = [m]\<rparr>"
    using pm_step.register_ok [of io_quiet "NodeId 7" "''/r''" "\<lparr>pms_fs = fs_empty, pms_live = []\<rparr>" m fs'] m
    by simp
  then have reach: "pm_reach ''/r'' \<lparr>pms_fs = fs', pms_live = [m]\<rparr>"
    using pm_reach.intros by blast
  from pm_liveness [OF this io_calm_quiet(1)] reach n show ?thesis
    by (intro exI [of _ "\<lparr>pms_fs = fs', pms_live = [m]\<rparr>"]) simp
qed

lemma fl_acquire_open_calm:
  assumes "io_calm env"
  shows "\<exists>f fs'. fl_acquire_open env p fs = (Ok f, fs') \<and> fs_names fs' p = Some (fd_inode f) \<and>
    fs_locks fs' (fd_inode f) =
      (case fs_names fs p of None \<Rightarrow> None | Some i \<Rightarrow> fs_locks fs i) \<and> (fs_wf fs \<longrightarrow> fs_wf fs')"
proof -
  have "fs_wf fs \<longrightarrow> fs_names fs q \<noteq> Some (fs_next_inode fs)" for q
    unfolding fs_wf_def by fastforce
  then show ?thesis
    using assms
    by (auto simp: fl_acquire_open_def fs_defs Let_def fs_wf_def less_Suc_eq split: option.splits)
qed

text \<open>C38: registration is not atomic. When a cleanup that lists the node runs between the opening of
  its lock file and the locking of it, the cleanup removes the file and reports the node dead, the
  registration still succeeds, on a file that no longer has a name, and from then on \<open>is_alive\<close>
  answers that the live node is dead.\<close>

theorem register_cleanup_race:
  assumes "fs_wf fs" and "io_calm env" and "io_calm env'" and "\<not> held fs (node_path root n)"
    and "fl_acquire_open env (node_path root n) fs = (Ok f, fs1)"
    and "pm_list_nodes env' root fs1 = Ok ns" and "n \<in> set ns"
    and "pm_cleanup_dead_nodes env' root fs1 = (Ok dead, fs2)"
  shows "n \<in> set dead \<and>
    (\<exists>l fs3. fl_acquire_lock env (node_path root n) f fs2 = (Ok l, fs3) \<and> fl_locked l \<and>
       fst (pm_is_alive env' n root fs3) = False)"
proof -
  let ?p = "node_path root n"
  obtain wf1: "fs_wf fs1" and name: "fs_names fs1 ?p = Some (fd_inode f)"
    and free: "fs_locks fs1 (fd_inode f) = None"
    using fl_acquire_open_calm [OF assms(2), of ?p fs] assms(1,4,5)
    by (auto simp: held_def split: option.splits)
  then have dead1: "\<not> held fs1 ?p" by (simp add: held_def)
  obtain wf2: "fs_wf fs2" and locks: "fs_locks fs2 = fs_locks fs1" and gone: "fs_names fs2 ?p = None"
    and dead: "n \<in> set dead"
    using cleanup_nodes_view [OF assms(3) wf1, of root ns] assms(6,7,8) dead1 name
    by (auto simp: pm_cleanup_dead_nodes_def)
  let ?fs3 = "fs2\<lparr>fs_locks := (fs_locks fs2)(fd_inode f \<mapsto> fd_id f)\<rparr>"
  have "fl_acquire_lock env ?p f fs2 = (Ok \<lparr>fl_file = f, fl_path = ?p, fl_locked = True\<rparr>, ?fs3)"
    using assms(2) free locks by (simp add: fl_acquire_lock_def fs_flock_def)
  moreover have "fst (pm_is_alive env' n root ?fs3) = False"
    using gone assms(3) by (simp add: pm_is_alive_def fl_is_locked_def fs_open_read_def)
  ultimately show ?thesis using dead by auto
qed

theorem register_cleanup_race_witness:
  "let p = node_path ''/r'' (NodeId 7);
       env = io_quiet\<lparr>read_dir := (\<lambda>_. Ok [Ok (hex_pad 32 7)])\<rparr>;
       (f, fs1) = fl_acquire_open io_quiet p (fs_empty\<lparr>fs_dirs := {nodes_dir ''/r''}\<rparr>);
       (r, fs2) = pm_cleanup_dead_nodes env ''/r'' fs1
   in case (f, r) of
        (Ok f, Ok dead) \<Rightarrow> NodeId 7 \<in> set dead \<and>
          (\<exists>l fs3. fl_acquire_lock io_quiet p f fs2 = (Ok l, fs3) \<and> fl_locked l \<and>
             fst (pm_is_alive env (NodeId 7) ''/r'' fs3) = False)
      | _ \<Rightarrow> False"
proof -
  let ?p = "node_path ''/r'' (NodeId 7)" and ?fs = "fs_empty\<lparr>fs_dirs := {nodes_dir ''/r''}\<rparr>"
  let ?env = "io_quiet\<lparr>read_dir := (\<lambda>_. Ok [Ok (hex_pad 32 7)])\<rparr>"
  have wf: "fs_wf ?fs" by (simp add: fs_wf_def fs_empty_def)
  obtain f fs1 where f: "fl_acquire_open io_quiet ?p ?fs = (Ok f, fs1)" and wf1: "fs_wf fs1"
    using fl_acquire_open_calm [of io_quiet ?p ?fs] wf by auto
  have dir: "nodes_dir ''/r'' \<in> fs_dirs fs1"
    using f by (auto simp: fl_acquire_open_def fs_defs Let_def fs_empty_def split: option.splits if_splits prod.splits)
  have "parse_hex_u128 (hex_pad 32 7) = Some 7"
    using parse_hex_pad [of 32 7] by simp
  then have nodes: "pm_list_nodes ?env ''/r'' fs1 = Ok [NodeId 7]"
    using dir by (simp add: pm_list_nodes_def fs_exists_def io_quiet_def)
  then obtain dead fs2 where clean: "pm_cleanup_dead_nodes ?env ''/r'' fs1 = (Ok dead, fs2)"
    by (cases "cleanup_nodes ?env ''/r'' [NodeId 7] fs1") (simp add: pm_cleanup_dead_nodes_def del: cleanup_nodes.simps)
  have "\<not> held ?fs ?p" by (simp add: held_def fs_empty_def)
  from register_cleanup_race [OF wf io_calm_quiet this f nodes _ clean]
  show ?thesis using f clean by simp
qed

subsection \<open>Files other than those of nodes\<close>

lemma fl_drop_keeps:
  assumes "fd_of fs p (fl_file l)"
  shows "fd_of (fl_drop env l fs) p (fl_file l)" and "fs_keeps (- {p}) fs (fl_drop env l fs)"
proof -
  have "fl_drop env l fs = fs_release (fl_file l) fs \<or>
      fl_drop env l fs = fs_release (fl_file l) (fs_release (fl_file l) fs)"
    by (auto simp: fl_drop_def fl_unlock_def fs_unlock_def fs_close_def split: option.splits)
  then show "fd_of (fl_drop env l fs) p (fl_file l)" and "fs_keeps (- {p}) fs (fl_drop env l fs)"
    using fs_release_keeps [OF assms] fs_release_keeps [OF fs_release_keeps(1) [OF assms]]
    by (auto intro: fs_keeps_trans)
qed

lemma fl_acquire_open_keeps:
  assumes wf: "fs_wf fs" and run: "fl_acquire_open env p fs = (r, fs')"
  shows "fs_wf fs'" and "fs_keeps (- {p}) fs fs'" and "r = Ok f \<Longrightarrow> fd_of fs' p f"
proof -
  consider e where "r = Err e" "fs' = fs"
    | D q where "fs_open_or_create env p (fs\<lparr>fs_dirs := D\<rparr>) = (q, fs')" "\<And>f. r = Ok f \<Longrightarrow> q = Ok f"
  proof (cases "path_parent p")
    case None
    then show ?thesis using run that(2) [of "fs_dirs fs"]
      by (auto simp: fl_acquire_open_def Let_def split: prod.splits result.splits)
  next
    case (Some q)
    then show ?thesis using run that(1) that(2) [of "insert q (fs_dirs fs)"]
      by (auto simp: fl_acquire_open_def fs_create_dir_all_def Let_def split: option.splits prod.splits result.splits)
  qed
  then have "fs_wf fs' \<and> fs_keeps (- {p}) fs fs' \<and> (\<forall>f. r = Ok f \<longrightarrow> fd_of fs' p f)"
  proof cases
    case 1
    then show ?thesis using wf by (simp add: fs_keeps_refl)
  next
    case (2 D q)
    have "fs_wf (fs\<lparr>fs_dirs := D\<rparr>)" "fs_keeps (- {p}) fs (fs\<lparr>fs_dirs := D\<rparr>)"
      using wf by (auto simp: fs_wf_def fs_keeps_def)
    then show ?thesis using fs_open_or_create_keeps [OF _ 2(1)] 2(2) by (blast intro: fs_keeps_trans)
  qed
  then show "fs_wf fs'" and "fs_keeps (- {p}) fs fs'" and "r = Ok f \<Longrightarrow> fd_of fs' p f" by blast+
qed

lemma fl_acquire_keeps:
  assumes wf: "fs_wf fs" and run: "fl_acquire env p fs = (r, fs')"
  shows "fs_wf fs'" and "fs_keeps (- {p}) fs fs'" and "r = Ok l \<Longrightarrow> fd_of fs' p (fl_file l)"
proof -
  obtain q fs1 where o: "fl_acquire_open env p fs = (q, fs1)" by (cases "fl_acquire_open env p fs")
  note o1 = fl_acquire_open_keeps [OF wf o]
  have "fs_wf fs' \<and> fs_keeps (- {p}) fs fs' \<and> (\<forall>l. r = Ok l \<longrightarrow> fd_of fs' p (fl_file l))"
  proof (cases q)
    case (Err e)
    then show ?thesis using run o o1 by (auto simp: fl_acquire_def)
  next
    case (Ok f)
    obtain t fs2 where l: "fs_flock env p f fs1 = (t, fs2)" by (cases "fs_flock env p f fs1")
    note l1 = fs_flock_keeps [OF o1(3) [OF Ok] l]
    have "fd_of fs' p f \<and> fs_keeps (- {p}) fs2 fs'" "\<forall>l. r = Ok l \<longrightarrow> fl_file l = f"
      using run o Ok l l1(1) fs_release_keeps [OF l1(1)] fs_keeps_refl
      by (auto simp: fl_acquire_def fl_acquire_lock_def fs_close_def split: result.splits)
    then show ?thesis using o1(2) l1(2) by (auto simp: fd_of_def intro: fs_keeps_trans)
  qed
  then show "fs_wf fs'" and "fs_keeps (- {p}) fs fs'" and "r = Ok l \<Longrightarrow> fd_of fs' p (fl_file l)" by blast+
qed

lemma pm_register_keeps:
  assumes wf: "fs_wf fs" and run: "pm_register env n root fs = (r, fs')"
  shows "fs_wf fs'" and "fs_keeps (- {node_path root n}) fs fs'"
    and "r = Ok m \<Longrightarrow> fd_of fs' (node_path root n) (fl_file (pm_lock m))"
proof -
  let ?fs = "fs\<lparr>fs_dirs := insert (nodes_dir root) (fs_dirs fs)\<rparr>"
  have dirs: "fs_wf ?fs" "fs_keeps P fs ?fs" for P using wf by (auto simp: fs_wf_def fs_keeps_def)
  obtain q fs1 where q: "fl_acquire env (node_path root n) ?fs = (q, fs1)" by (cases "fl_acquire env (node_path root n) ?fs")
  note a = fl_acquire_keeps [OF dirs(1) q]
  have "fs_wf fs' \<and> fs_keeps (- {node_path root n}) fs fs' \<and> 
     (\<forall>m. r = Ok m \<longrightarrow> fd_of fs' (node_path root n) (fl_file (pm_lock m)))"
    using run wf q a fs_keeps_trans [OF dirs(2) a(2)] fs_keeps_refl
    by (auto simp: pm_register_def fs_create_dir_all_def split: option.splits result.splits)
  then show "fs_wf fs'" and "fs_keeps (- {node_path root n}) fs fs'"
    and "r = Ok m \<Longrightarrow> fd_of fs' (node_path root n) (fl_file (pm_lock m))" by blast+
qed

lemma pm_drop_keeps:
  assumes "fd_of fs (node_path root n) (fl_file (pm_lock m))"
  shows "fs_wf (pm_drop env m fs)" and "fs_keeps (- {node_path root n}) fs (pm_drop env m fs)"
  using fl_drop_keeps [OF assms] by (simp_all add: pm_drop_def fd_of_def)

lemma fl_is_locked_keeps:
  assumes "fs_wf fs" and "fl_is_locked env p fs = (b, fs')"
  shows "fs_wf fs' \<and> fs_keeps (- {p}) fs fs'"
proof -
  obtain x fs1 where x: "fs_open_read env p fs = (x, fs1)" by (cases "fs_open_read env p fs")
  note x1 = fs_open_read_keeps [OF assms(1) x]
  show ?thesis
  proof (cases x)
    case None
    then show ?thesis using assms x x1 by (auto simp: fl_is_locked_def)
  next
    case (Some f)
    obtain t fs2 where l: "fs_flock env p f fs1 = (t, fs2)" by (cases "fs_flock env p f fs1")
    note l1 = fs_flock_keeps [OF x1(3) [OF Some] l]
    note r1 = fs_release_keeps [OF l1(1)]
    note r2 = fs_release_keeps [OF r1(1)]
    have "fs' = fs_release f fs2 \<or> fs' = fs_release f (fs_release f fs2)"
      using assms(2) x Some l by (auto simp: fl_is_locked_def fs_close_def fs_unlock_def split: result.splits option.splits)
    then have "fd_of fs' p f \<and> fs_keeps (- {p}) fs2 fs'"
      using r1 r2 by (auto intro: fs_keeps_trans)
    then show ?thesis using x1(1) l1(2) by (auto simp: fd_of_def intro: fs_keeps_trans)
  qed
qed

lemma cleanup_nodes_keeps:
  assumes "fs_wf fs"
  shows "fs_wf (snd (cleanup_nodes env root ns fs)) \<and>
    fs_keeps (- range (node_path root)) fs (snd (cleanup_nodes env root ns fs))"
  using assms
proof (induction ns arbitrary: fs)
  case Nil
  then show ?case by (simp add: fs_keeps_refl)
next
  case (Cons n ns)
  let ?P = "- range (node_path root)"
  obtain a fs1 where a: "pm_is_alive env n root fs = (a, fs1)" by (cases "pm_is_alive env n root fs")
  then have f1: "fs_wf fs1" "fs_keeps ?P fs fs1"
    using fl_is_locked_keeps [OF Cons.prems] fs_keeps_mono [of "- {node_path root n}" fs fs1 ?P]
    by (auto simp: pm_is_alive_def)
  obtain r fs2 where r: "fs_remove_file env (node_path root n) fs1 = (r, fs2)"
    by (cases "fs_remove_file env (node_path root n) fs1")
  then have f2: "fs_wf fs2" "fs_keeps ?P fs1 fs2"
    using f1(1) by (auto simp: fs_remove_file_def fs_wf_def fs_keeps_def split: option.splits if_splits)
  have "snd (cleanup_nodes env root (n # ns) fs) \<in>
      {snd (cleanup_nodes env root ns fs1), snd (cleanup_nodes env root ns fs2)}"
    using a r by (auto split: result.splits prod.splits)
  then show ?case
    using Cons.IH [OF f1(1)] Cons.IH [OF f2(1)] f1 f2 by (auto intro: fs_keeps_trans)
qed

lemma node_path_parent: "path_parent (node_path root n) = Some (nodes_dir root)"
  unfolding node_path_def
  by (rule path_parent_join) (auto simp: nodes_dir_def path_join_def hex_pad_slash_free)

lemma pm_register_dirs: "fs_dirs (snd (pm_register env n root fs)) \<subseteq> insert (nodes_dir root) (fs_dirs fs)"
  by (auto simp: pm_register_def fl_acquire_defs node_path_parent split: option.splits result.splits prod.splits if_splits)

end
