(* ===== verification/Signals.thy ===== *)
theory Signals
  imports Shared_Memory
begin

text \<open>
  \<open>crates/entangle-platform/src/signal.rs\<close>: the process-wide flags that record \<open>SIGTERM\<close> and
  \<open>SIGINT\<close>, their handler, and its installation. The dispositions are part of the state: the default
  action of both signals ends the process, so a signal without a handler has no next state.
\<close>

type_synonym c_int = "32 word"

definition SIGINT :: c_int where "SIGINT = 2"

definition SIGTERM :: c_int where "SIGTERM = 15"

record signal_state =
  shutdown_flag :: bool
  sigterm_flag :: bool
  sigint_flag :: bool
  sig_handled :: "c_int list"

definition sig_start :: signal_state where
  "sig_start = \<lparr>shutdown_flag = False, sigterm_flag = False, sigint_flag = False, sig_handled = []\<rparr>"

definition signal_handler :: "c_int \<Rightarrow> signal_state \<Rightarrow> signal_state" where
  "signal_handler sig s =
     (let s = s\<lparr>shutdown_flag := True\<rparr>
      in if sig = SIGTERM then s\<lparr>sigterm_flag := True\<rparr>
         else if sig = SIGINT then s\<lparr>sigint_flag := True\<rparr>
         else s)"

text \<open>\<open>signal(2)\<close>, which may refuse, and the delivery of a signal.\<close>

definition sys_signal :: "(c_int \<Rightarrow> string option) \<Rightarrow> c_int \<Rightarrow> signal_state \<Rightarrow> (unit, string) result \<times> signal_state" where
  "sys_signal refuse sig s =
     (case refuse sig of
        Some e \<Rightarrow> (Err e, s)
      | None \<Rightarrow> (Ok (), s\<lparr>sig_handled := List.insert sig (sig_handled s)\<rparr>))"

definition sig_deliver :: "c_int \<Rightarrow> signal_state \<Rightarrow> signal_state option" where
  "sig_deliver sig s = (if sig \<in> set (sig_handled s) then Some (signal_handler sig s) else None)"

definition sig_install ::
  "(c_int \<Rightarrow> string option) \<Rightarrow> signal_state \<Rightarrow> (unit, platform_error) result \<times> signal_state" where
  "sig_install refuse s =
     (case sys_signal refuse SIGTERM s of
        (Err e, s) \<Rightarrow> (Err (SignalError (''failed to install SIGTERM handler: '' @ e)), s)
      | (Ok _, s) \<Rightarrow>
          (case sys_signal refuse SIGINT s of
             (Err e, s) \<Rightarrow> (Err (SignalError (''failed to install SIGINT handler: '' @ e)), s)
           | (Ok _, s) \<Rightarrow> (Ok (), s)))"

definition shutdown_requested :: "signal_state \<Rightarrow> bool" where
  "shutdown_requested s = shutdown_flag s"

definition sigterm_received :: "signal_state \<Rightarrow> bool" where
  "sigterm_received s = sigterm_flag s"

definition sigint_received :: "signal_state \<Rightarrow> bool" where
  "sigint_received s = sigint_flag s"

definition sig_reset :: "signal_state \<Rightarrow> signal_state" where
  "sig_reset s = s\<lparr>shutdown_flag := False, sigterm_flag := False, sigint_flag := False\<rparr>"

subsection \<open>What the flags tell\<close>

fun sig_deliver_all :: "c_int list \<Rightarrow> signal_state \<Rightarrow> signal_state option" where
  "sig_deliver_all [] s = Some s"
| "sig_deliver_all (sig # sigs) s = do { s \<leftarrow> sig_deliver sig s; sig_deliver_all sigs s }"

lemma signal_handler_handled [simp]: "sig_handled (signal_handler sig s) = sig_handled s"
  by (simp add: signal_handler_def Let_def)

lemma sig_install_handled:
  assumes "sig_install refuse s = (Ok u, s')"
  shows "set (sig_handled s') = insert SIGTERM (insert SIGINT (set (sig_handled s)))"
    and "shutdown_flag s' = shutdown_flag s" and "sigterm_flag s' = sigterm_flag s" and "sigint_flag s' = sigint_flag s"
  using assms by (auto simp: sig_install_def sys_signal_def split: option.splits)

lemma sig_deliver_all_flags:
  assumes "set sigs \<subseteq> set (sig_handled s)"
  shows "\<exists>s'. sig_deliver_all sigs s = Some s' \<and> sig_handled s' = sig_handled s \<and>
    (shutdown_flag s' \<longleftrightarrow> shutdown_flag s \<or> sigs \<noteq> []) \<and>
    (sigterm_flag s' \<longleftrightarrow> sigterm_flag s \<or> SIGTERM \<in> set sigs) \<and>
    (sigint_flag s' \<longleftrightarrow> sigint_flag s \<or> SIGINT \<in> set sigs)"
  using assms
proof (induction sigs arbitrary: s)
  case (Cons sig sigs)
  let ?s = "signal_handler sig s"
  have "set sigs \<subseteq> set (sig_handled ?s)" using Cons.prems by simp
  from Cons.IH [OF this] Cons.prems show ?case
    by (auto simp: sig_deliver_def signal_handler_def Let_def SIGTERM_def SIGINT_def)
qed simp

text \<open>The shutdown flags record exactly the signals received. After the handlers are installed and
  the flags reset, no sequence of \<open>SIGTERM\<close> and \<open>SIGINT\<close> ends the process; a shutdown is reported if
  and only if one arrived, and each of the two if and only if it did, however often the handlers
  are installed again.\<close>

theorem signals_recorded:
  assumes "sig_install refuse s = (Ok u, s1)" and "set sigs \<subseteq> {SIGTERM, SIGINT}"
    and "sig_install refuse' (sig_reset s1) = (Ok u', s2)"
  shows "\<exists>s'. sig_deliver_all sigs s2 = Some s' \<and> (shutdown_requested s' \<longleftrightarrow> sigs \<noteq> []) \<and>
    (sigterm_received s' \<longleftrightarrow> SIGTERM \<in> set sigs) \<and> (sigint_received s' \<longleftrightarrow> SIGINT \<in> set sigs)"
proof -
  note i = sig_install_handled [OF assms(3)]
  have "set sigs \<subseteq> set (sig_handled s2)" using assms(2) i(1) by auto
  from sig_deliver_all_flags [OF this] i(2-4) show ?thesis
    by (auto simp: sig_reset_def shutdown_requested_def sigterm_received_def sigint_received_def)
qed

theorem signals_recorded_witness:
  "\<exists>s1 s2 s'. sig_install (\<lambda>_. None) sig_start = (Ok (), s1) \<and>
    sig_install (\<lambda>_. None) (sig_reset s1) = (Ok (), s2) \<and>
    sig_deliver_all [SIGINT, SIGINT] s2 = Some s' \<and> sigint_received s' \<and> \<not> sigterm_received s'"
proof -
  obtain s1 where s1: "sig_install (\<lambda>_. None) sig_start = (Ok (), s1)"
    by (simp add: sig_install_def sys_signal_def)
  obtain s2 where s2: "sig_install (\<lambda>_. None) (sig_reset s1) = (Ok (), s2)"
    by (simp add: sig_install_def sys_signal_def)
  from signals_recorded [OF s1 _ s2, of "[SIGINT, SIGINT]"] s1 s2 show ?thesis
    by (auto simp: SIGTERM_def SIGINT_def)
qed

end
