(* ===== verification/Wakeup_Specs.thy ===== *)
theory Wakeup_Specs
  imports Entangle_Prelude
begin

text \<open>
  The contract of a wake-up source: notifications are counted per source, a wait takes one or all of
  them, and a source is not disturbed by what happens to another. A call that cannot proceed
  \<open>Blocks\<close>.
\<close>

datatype 'a blocking = Returns 'a | Blocks

text \<open>The same call \<open>k\<close> times in a row.\<close>

fun repeat_call :: "nat \<Rightarrow> ('w \<Rightarrow> ('a \<times> 'w) blocking option) \<Rightarrow> 'w \<Rightarrow> ('a list \<times> 'w) blocking option" where
  "repeat_call 0 f w = Some (Returns ([], w))"
| "repeat_call (Suc k) f w = do {
     b \<leftarrow> f w;
     case b of
       Blocks \<Rightarrow> Some Blocks
     | Returns (a, w) \<Rightarrow> do {
         rest \<leftarrow> repeat_call k f w;
         Some (case rest of Blocks \<Rightarrow> Blocks | Returns (as, w) \<Rightarrow> Returns (a # as, w))
       }
   }"

locale wakeup_source =
  fixes ok :: "'w \<Rightarrow> nat \<Rightarrow> bool"
    and pending :: "'w \<Rightarrow> nat \<Rightarrow> nat"
    and limit :: nat
    and takes_all :: bool
    and notify :: "nat \<Rightarrow> 'w \<Rightarrow> ((unit, 'x) result \<times> 'w) blocking option"
    and wait :: "nat \<Rightarrow> 'w \<Rightarrow> ((unit, 'x) result \<times> 'w) blocking option"
    and try_wait :: "nat \<Rightarrow> 'w \<Rightarrow> ((bool, 'x) result \<times> 'w) blocking option"
  assumes notify_law: "ok w e \<Longrightarrow> pending w e < limit \<Longrightarrow>
      \<exists>w'. notify e w = Some (Returns (Ok (), w')) \<and> ok w' = ok w \<and>
           pending w' = (pending w)(e := Suc (pending w e))"
    and wait_blocks: "ok w e \<Longrightarrow> pending w e = 0 \<Longrightarrow> wait e w = Some Blocks"
    and wait_law: "ok w e \<Longrightarrow> 0 < pending w e \<Longrightarrow>
      \<exists>w'. wait e w = Some (Returns (Ok (), w')) \<and> ok w' = ok w \<and>
           pending w' = (pending w)(e := if takes_all then 0 else pending w e - 1)"
    and try_wait_law: "ok w e \<Longrightarrow>
      \<exists>w'. try_wait e w = Some (Returns (Ok (0 < pending w e), w')) \<and> ok w' = ok w \<and>
           pending w' = (pending w)(e := if takes_all then 0 else pending w e - 1)"
begin

lemma notify_many:
  assumes "ok w e" and "pending w e + k \<le> limit"
  shows "\<exists>w'. repeat_call k (notify e) w = Some (Returns (replicate k (Ok ()), w')) \<and> ok w' = ok w \<and>
    pending w' = (pending w)(e := pending w e + k)"
  using assms
proof (induction k arbitrary: w)
  case (Suc k)
  obtain w1 where w1: "notify e w = Some (Returns (Ok (), w1))" "ok w1 = ok w"
    "pending w1 = (pending w)(e := Suc (pending w e))"
    using notify_law [of w e] Suc.prems by auto
  with Suc.IH [of w1] Suc.prems show ?case by (auto simp: fun_eq_iff)
qed simp

text \<open>How often polling sees a notification: once for all of them, or once for each.\<close>

definition visible :: "'w \<Rightarrow> nat \<Rightarrow> nat" where
  "visible w e = (if takes_all then min 1 (pending w e) else pending w e)"

lemma try_wait_many:
  assumes "ok w e"
  shows "\<exists>w'. repeat_call n (try_wait e) w = Some (Returns (map (\<lambda>i. Ok (i < visible w e)) [0..<n], w')) \<and>
    ok w' = ok w \<and> (\<forall>e'. e' \<noteq> e \<longrightarrow> pending w' e' = pending w e')"
  using assms
proof (induction n arbitrary: w)
  case (Suc n)
  obtain w1 where w1: "try_wait e w = Some (Returns (Ok (0 < pending w e), w1))" "ok w1 = ok w"
    "pending w1 = (pending w)(e := if takes_all then 0 else pending w e - 1)"
    using try_wait_law [OF Suc.prems] by auto
  have v: "visible w1 e = visible w e - 1" "0 < pending w e \<longleftrightarrow> 0 < visible w e"
    using w1(3) by (auto simp: visible_def)
  have list: "map (\<lambda>i. Ok (i < visible w e)) [0..<Suc n] =
      Ok (0 < pending w e) # map (\<lambda>i. Ok (i < visible w1 e)) [0..<n]"
    unfolding v by (simp add: upt_conv_Cons map_Suc_upt [symmetric] less_diff_conv del: upt_Suc)
  show ?case unfolding list using Suc.IH [of w1] Suc.prems w1 by auto
qed simp

lemma notify_then_poll:
  assumes "ok w e" and "pending w e = 0" and "k \<le> limit"
  shows "\<exists>w1 w2. repeat_call k (notify e) w = Some (Returns (replicate k (Ok ()), w1)) \<and>
    repeat_call n (try_wait e) w1 =
      Some (Returns (map (\<lambda>i. Ok (i < (if takes_all then min 1 k else k))) [0..<n], w2)) \<and>
    ok w2 = ok w \<and> (\<forall>e'. e' \<noteq> e \<longrightarrow> pending w2 e' = pending w e')"
proof -
  obtain w1 where w1: "repeat_call k (notify e) w = Some (Returns (replicate k (Ok ()), w1))"
    "ok w1 = ok w" "pending w1 = (pending w)(e := k)"
    using notify_many [OF assms(1), of k] assms(2,3) by auto
  then have "visible w1 e = (if takes_all then min 1 k else k)" by (simp add: visible_def)
  moreover from w1 assms(1) have "ok w1 e" by simp
  ultimately show ?thesis using try_wait_many [of w1 e n] w1 by auto
qed

text \<open>Notifying one source is invisible at another.\<close>

lemma notify_elsewhere:
  assumes "ok w e" and "ok w e'" and "e' \<noteq> e" and "pending w e + k \<le> limit" and "pending w e' = 0"
  shows "\<exists>w1. repeat_call k (notify e) w = Some (Returns (replicate k (Ok ()), w1)) \<and>
    wait e' w1 = Some Blocks \<and> (\<exists>w2. try_wait e' w1 = Some (Returns (Ok False, w2)))"
proof -
  obtain w1 where w1: "repeat_call k (notify e) w = Some (Returns (replicate k (Ok ()), w1))"
    "ok w1 = ok w" "pending w1 = (pending w)(e := pending w e + k)"
    using notify_many [OF assms(1,4)] by auto
  with assms have "ok w1 e'" "pending w1 e' = 0" by simp_all
  then show ?thesis using w1(1) wait_blocks [of w1 e'] try_wait_law [of w1 e'] by auto
qed

end

end
