(* ===== verification/Event_Notification.thy ===== *)
theory Event_Notification
  imports Service_Types Wakeup_Specs
begin

text \<open>
  \<open>EventNotification\<close> of \<open>crates/entangle-platform/src/event.rs\<close>: an \<open>eventfd\<close> on Linux, a pipe
  elsewhere. The kernel objects live in an \<open>ev_world\<close> and a notification is the position of its
  object there. A blocking call that cannot proceed is the value \<open>Blocks\<close>. The platform and the
  faults of the system calls are an argument.
\<close>

subsection \<open>The kernel objects\<close>

record ev_obj =
  ev_value :: nat
  ev_rd_nonblock :: bool
  ev_wr_nonblock :: bool

datatype os_error = WouldBlock | OtherError string

text \<open>\<open>ew_errno\<close> is what \<open>io::Error::last_os_error\<close> reads: a successful call leaves it alone.\<close>

record ev_world =
  ew_objs :: "ev_obj list"
  ew_errno :: os_error

record ev_os =
  cfg_linux :: bool
  pipe_capacity :: nat
  create_fault :: "string option"
  read_fault :: "string option"
  write_fault :: "string option"
  getfl_fault :: "string option"
  setfl_fault :: "bool \<Rightarrow> string option"

fun show_os_error :: "os_error \<Rightarrow> string" where
  "show_os_error WouldBlock = ''Resource temporarily unavailable (os error 11)''"
| "show_os_error (OtherError e) = e"

text \<open>The largest value an \<open>eventfd\<close> counter holds, and the bytes a pipe holds.\<close>

definition ev_limit :: "ev_os \<Rightarrow> nat" where
  "ev_limit os = (if cfg_linux os then 2 ^ 64 - 2 else pipe_capacity os)"

subsection \<open>The operations\<close>

type_synonym event_notification = nat

definition new_eventfd ::
  "ev_os \<Rightarrow> ev_world \<Rightarrow> (event_notification, platform_error) result \<times> ev_world" where
  "new_eventfd os w =
     (case create_fault os of
        Some e \<Rightarrow> (Err (EventError (''eventfd creation failed: '' @ e)), w\<lparr>ew_errno := OtherError e\<rparr>)
      | None \<Rightarrow>
          (Ok (length (ew_objs w)),
           w\<lparr>ew_objs := ew_objs w @ [\<lparr>ev_value = 0, ev_rd_nonblock = False, ev_wr_nonblock = False\<rparr>]\<rparr>))"

definition new_pipe ::
  "ev_os \<Rightarrow> ev_world \<Rightarrow> (event_notification, platform_error) result \<times> ev_world" where
  "new_pipe os w =
     (case create_fault os of
        Some e \<Rightarrow> (Err (EventError (''pipe creation failed: '' @ e)), w\<lparr>ew_errno := OtherError e\<rparr>)
      | None \<Rightarrow>
          (Ok (length (ew_objs w)),
           w\<lparr>ew_objs := ew_objs w @ [\<lparr>ev_value = 0, ev_rd_nonblock = False, ev_wr_nonblock = False\<rparr>]\<rparr>))"

definition ev_new ::
  "ev_os \<Rightarrow> ev_world \<Rightarrow> (event_notification, platform_error) result \<times> ev_world" where
  "ev_new os w = (if cfg_linux os then new_eventfd os w else new_pipe os w)"

lemmas ev_new_defs = ev_new_def new_eventfd_def new_pipe_def

definition ev_fail :: "string \<Rightarrow> os_error \<Rightarrow> ev_world \<Rightarrow> ('a, platform_error) result \<times> ev_world" where
  "ev_fail what e w = (Err (EventError (what @ show_os_error e)), w\<lparr>ew_errno := e\<rparr>)"

definition ev_notify ::
  "ev_os \<Rightarrow> event_notification \<Rightarrow> ev_world \<Rightarrow> ((unit, platform_error) result \<times> ev_world) blocking option" where
  "ev_notify os ev w = do {
     obj \<leftarrow> idx (ew_objs w) ev;
     let what = (if cfg_linux os then ''eventfd write failed: '' else ''pipe write failed: '');
     Some (case write_fault os of
       Some e \<Rightarrow> Returns (ev_fail what (OtherError e) w)
     | None \<Rightarrow>
         if ev_value obj + 1 > ev_limit os
         then (if ev_wr_nonblock obj then Returns (ev_fail what WouldBlock w) else Blocks)
         else Returns (Ok (), w\<lparr>ew_objs := (ew_objs w)[ev := obj\<lparr>ev_value := ev_value obj + 1\<rparr>]\<rparr>))
   }"

text \<open>A read takes the whole counter of an \<open>eventfd\<close> and one byte of a pipe.\<close>

definition ev_wait ::
  "ev_os \<Rightarrow> event_notification \<Rightarrow> ev_world \<Rightarrow> ((unit, platform_error) result \<times> ev_world) blocking option" where
  "ev_wait os ev w = do {
     obj \<leftarrow> idx (ew_objs w) ev;
     let what = (if cfg_linux os then ''eventfd read failed: '' else ''pipe read failed: '');
     Some (case read_fault os of
       Some e \<Rightarrow> Returns (ev_fail what (OtherError e) w)
     | None \<Rightarrow>
         if ev_value obj = 0
         then (if ev_rd_nonblock obj then Returns (ev_fail what WouldBlock w) else Blocks)
         else Returns (Ok (), w\<lparr>ew_objs := (ew_objs w)[ev :=
                obj\<lparr>ev_value := (if cfg_linux os then 0 else ev_value obj - 1)\<rparr>]\<rparr>))
   }"

text \<open>\<open>O_NONBLOCK\<close> belongs to the description: for an \<open>eventfd\<close> it covers reads and writes.\<close>

definition set_nonblocking ::
  "ev_os \<Rightarrow> event_notification \<Rightarrow> bool \<Rightarrow> ev_world \<Rightarrow> ((unit, platform_error) result \<times> ev_world) option" where
  "set_nonblocking os ev nonblocking w = do {
     obj \<leftarrow> idx (ew_objs w) ev;
     Some (case getfl_fault os of
       Some e \<Rightarrow> ev_fail ''fcntl F_GETFL failed: '' (OtherError e) w
     | None \<Rightarrow>
         (case setfl_fault os nonblocking of
            Some e \<Rightarrow> ev_fail ''fcntl F_SETFL failed: '' (OtherError e) w
          | None \<Rightarrow>
              (Ok (), w\<lparr>ew_objs := (ew_objs w)[ev := obj\<lparr>ev_rd_nonblock := nonblocking,
                 ev_wr_nonblock := (if cfg_linux os then nonblocking else ev_wr_nonblock obj)\<rparr>]\<rparr>)))
   }"

definition ev_try_wait ::
  "ev_os \<Rightarrow> event_notification \<Rightarrow> ev_world \<Rightarrow> ((bool, platform_error) result \<times> ev_world) blocking option" where
  "ev_try_wait os ev w = do {
     (r, w) \<leftarrow> set_nonblocking os ev True w;
     case r of
       Err e \<Rightarrow> Some (Returns (Err e, w))
     | Ok _ \<Rightarrow> do {
         b \<leftarrow> ev_wait os ev w;
         case b of
           Blocks \<Rightarrow> Some Blocks
         | Returns (result, w) \<Rightarrow> do {
             (r, w) \<leftarrow> set_nonblocking os ev False w;
             Some (Returns (case r of
               Err e \<Rightarrow> (Err e, w)
             | Ok _ \<Rightarrow>
                 (case result of
                    Ok _ \<Rightarrow> (Ok True, w)
                  | Err (EventError _) \<Rightarrow>
                      (if ew_errno w = WouldBlock then (Ok False, w)
                       else (Err (EventError (''try_wait failed: '' @ show_os_error (ew_errno w))), w))
                  | Err e \<Rightarrow> (Err e, w))))
           }
       }
   }"

subsection \<open>What they do when the system calls succeed\<close>

definition ev_calm :: "ev_os \<Rightarrow> bool" where
  "ev_calm os \<longleftrightarrow> create_fault os = None \<and> read_fault os = None \<and> write_fault os = None \<and>
     getfl_fault os = None \<and> setfl_fault os = (\<lambda>_. None) \<and> 0 < ev_limit os"

text \<open>Pending notifications of an event, and events in their normal, blocking mode.\<close>

definition ev_pending :: "ev_world \<Rightarrow> event_notification \<Rightarrow> nat" where
  "ev_pending w ev = ev_value (ew_objs w ! ev)"

definition ev_ok :: "ev_world \<Rightarrow> event_notification \<Rightarrow> bool" where
  "ev_ok w ev \<longleftrightarrow> ev < length (ew_objs w) \<and>
     \<not> ev_rd_nonblock (ew_objs w ! ev) \<and> \<not> ev_wr_nonblock (ew_objs w ! ev)"

text \<open>The world with the pending count of one event replaced.\<close>

definition ev_put :: "event_notification \<Rightarrow> nat \<Rightarrow> ev_world \<Rightarrow> ev_world" where
  "ev_put ev k w = w\<lparr>ew_objs := (ew_objs w)[ev := (ew_objs w ! ev)\<lparr>ev_value := k\<rparr>]\<rparr>"

lemma ev_ok_put [simp]: "ev_ok (ev_put ev k w) ev' = ev_ok w ev'"
  by (cases "ev' = ev") (auto simp: ev_put_def ev_ok_def)

lemma ev_put_simps [simp]:
  "length (ew_objs (ev_put ev k w)) = length (ew_objs w)"
  "ev < length (ew_objs w) \<Longrightarrow> ev_pending (ev_put ev k w) ev' = (if ev' = ev then k else ev_pending w ev')"
  "ev < length (ew_objs w) \<Longrightarrow> ev_put ev j (ev_put ev k w) = ev_put ev j w"
  by (auto simp: ev_put_def ev_pending_def nth_list_update)

lemma ev_put_same [simp]: "ev < length (ew_objs w) \<Longrightarrow> ev_put ev (ev_pending w ev) w = w"
  by (simp add: ev_put_def ev_pending_def)

lemma ev_notify_ok:
  assumes "ev_calm os" and "ev_ok w ev" and "ev_pending w ev < ev_limit os"
  shows "ev_notify os ev w = Some (Returns (Ok (), ev_put ev (Suc (ev_pending w ev)) w))"
  using assms by (simp add: ev_notify_def ev_calm_def ev_ok_def ev_pending_def ev_put_def)

lemma ev_wait_ok:
  assumes "ev_calm os" and "ev_ok w ev"
  shows "ev_wait os ev w =
    Some (if ev_pending w ev = 0 then Blocks
          else Returns (Ok (), ev_put ev (if cfg_linux os then 0 else ev_pending w ev - 1) w))"
  using assms by (simp add: ev_wait_def ev_calm_def ev_ok_def ev_pending_def ev_put_def)

lemma ev_try_wait_ok:
  assumes "ev_calm os" and "ev_ok w ev"
  shows "ev_try_wait os ev w =
    Some (Returns (if ev_pending w ev = 0 then (Ok False, w\<lparr>ew_errno := WouldBlock\<rparr>)
                   else (Ok True, ev_put ev (if cfg_linux os then 0 else ev_pending w ev - 1) w)))"
proof -
  obtain k where o: "ew_objs w ! ev = \<lparr>ev_value = k, ev_rd_nonblock = False, ev_wr_nonblock = False\<rparr>"
    and ev: "ev < length (ew_objs w)"
    using assms(2) by (cases "ew_objs w ! ev") (auto simp: ev_ok_def)
  then have "(ew_objs w)[ev := \<lparr>ev_value = k, ev_rd_nonblock = False, ev_wr_nonblock = False\<rparr>] = ew_objs w"
    by (metis list_update_id)
  with o ev show ?thesis
    using assms(1)
    by (cases w; cases "k = 0") (simp_all add: ev_try_wait_def set_nonblocking_def ev_wait_def ev_calm_def
        ev_pending_def ev_put_def ev_fail_def)
qed

lemma ev_errno_view [simp]:
  "ev_pending (w\<lparr>ew_errno := e\<rparr>) = ev_pending w" "ev_ok (w\<lparr>ew_errno := e\<rparr>) = ev_ok w"
  by (simp_all add: ev_pending_def ev_ok_def fun_eq_iff)

lemma ev_pending_put [simp]:
  "ev < length (ew_objs w) \<Longrightarrow> ev_pending (ev_put ev k w) = (ev_pending w)(ev := k)"
  by (simp add: fun_eq_iff)

interpretation es: wakeup_source "\<lambda>w ev. ev_calm os \<and> ev_ok w ev" ev_pending "ev_limit os" "cfg_linux os"
  "ev_notify os" "ev_wait os" "ev_try_wait os"
proof unfold_locales
  fix w e
  assume ok: "ev_calm os \<and> ev_ok w e"
  then have len: "e < length (ew_objs w)" by (simp add: ev_ok_def)
  show "\<exists>w'. ev_notify os e w = Some (Returns (Ok (), w')) \<and>
      (\<lambda>ev. ev_calm os \<and> ev_ok w' ev) = (\<lambda>ev. ev_calm os \<and> ev_ok w ev) \<and>
      ev_pending w' = (ev_pending w)(e := Suc (ev_pending w e))" if "ev_pending w e < ev_limit os"
    using ev_notify_ok [OF _ _ that] ok len by (auto simp: fun_eq_iff)
  show "ev_wait os e w = Some Blocks" if "ev_pending w e = 0"
    using ev_wait_ok [of os w e] ok that by simp
  show "\<exists>w'. ev_wait os e w = Some (Returns (Ok (), w')) \<and>
      (\<lambda>ev. ev_calm os \<and> ev_ok w' ev) = (\<lambda>ev. ev_calm os \<and> ev_ok w ev) \<and>
      ev_pending w' = (ev_pending w)(e := if cfg_linux os then 0 else ev_pending w e - 1)"
    if "0 < ev_pending w e"
    using ev_wait_ok [of os w e] ok len that by (auto simp: fun_eq_iff)
  show "\<exists>w'. ev_try_wait os e w = Some (Returns (Ok (0 < ev_pending w e), w')) \<and>
      (\<lambda>ev. ev_calm os \<and> ev_ok w' ev) = (\<lambda>ev. ev_calm os \<and> ev_ok w ev) \<and>
      ev_pending w' = (ev_pending w)(e := if cfg_linux os then 0 else ev_pending w e - 1)"
    using ev_try_wait_ok [of os w e] ok len by (auto simp: fun_eq_iff)
qed

text \<open>C30: delivery through one notification object. After \<open>k\<close> notifications on an idle object,
  polling it with \<open>try_wait\<close> never blocks and succeeds exactly once on Linux if \<open>k\<close> is positive, where
  the counter of the \<open>eventfd\<close> is taken as a whole, and exactly \<open>k\<close> times on the other platforms, where
  every notification is a byte in a pipe. No other object is affected and the descriptor is left in
  blocking mode.\<close>

theorem notification_delivery:
  assumes "ev_calm os" and "ev_ok w ev" and "ev_pending w ev = 0" and "k \<le> ev_limit os"
  shows "\<exists>w1 w2. repeat_call k (ev_notify os ev) w = Some (Returns (replicate k (Ok ()), w1)) \<and>
    repeat_call n (ev_try_wait os ev) w1 =
      Some (Returns (map (\<lambda>i. Ok (i < (if cfg_linux os then min 1 k else k))) [0..<n], w2)) \<and>
    ev_ok w2 ev \<and> (\<forall>ev'. ev' \<noteq> ev \<longrightarrow> ev_pending w2 ev' = ev_pending w ev')"
  using es.notify_then_poll [of os w ev k n] assms by (auto simp: fun_eq_iff)

definition ev_linux :: ev_os where
  "ev_linux = \<lparr>cfg_linux = True, pipe_capacity = 65536, create_fault = None, read_fault = None,
     write_fault = None, getfl_fault = None, setfl_fault = (\<lambda>_. None)\<rparr>"

definition ev_fresh :: ev_world where
  "ev_fresh = \<lparr>ew_objs = [], ew_errno = OtherError ''''\<rparr>"

lemma ev_linux_calm: "ev_calm ev_linux" "ev_limit ev_linux = 2 ^ 64 - 2"
  by (simp_all add: ev_calm_def ev_linux_def ev_limit_def)

theorem notification_delivery_witness:
  "let w = snd (ev_new ev_linux ev_fresh)
   in \<exists>w1 w2. repeat_call 3 (ev_notify ev_linux 0) w = Some (Returns (replicate 3 (Ok ()), w1)) \<and>
        repeat_call 2 (ev_try_wait ev_linux 0) w1 = Some (Returns ([Ok True, Ok False], w2))"
proof -
  let ?w = "snd (ev_new ev_linux ev_fresh)"
  have "ev_ok ?w 0" "ev_pending ?w 0 = 0"
    by (simp_all add: ev_new_defs ev_linux_def ev_fresh_def ev_ok_def ev_pending_def)
  then obtain w1 w2 where "repeat_call 3 (ev_notify ev_linux 0) ?w = Some (Returns (replicate 3 (Ok ()), w1))"
    and "repeat_call 2 (ev_try_wait ev_linux 0) w1 =
      Some (Returns (map (\<lambda>i. Ok (i < (if cfg_linux ev_linux then min 1 3 else 3))) [0..<2], w2))"
    using notification_delivery [OF ev_linux_calm(1), of ?w 0 3 2] by (auto simp: ev_linux_calm(2))
  moreover have "[0..<2] = [0, 1 :: nat]" by (simp add: upt_rec)
  moreover have "cfg_linux ev_linux" by (simp add: ev_linux_def)
  ultimately show ?thesis unfolding Let_def by auto
qed

end
