(* ===== verification/Event_Ports.thy ===== *)
theory Event_Ports
  imports Event_Notification
begin

text \<open>
  The ports of the event pattern and the wait set: \<open>port/notifier.rs\<close>, \<open>port/listener.rs\<close> and
  \<open>waitset.rs\<close> of \<open>crates/entangle/src\<close>, on the notification objects of the platform. \<open>libc::poll\<close> is an
  argument of \<open>ws_wait\<close>; what the manual says of it is the predicate \<open>poll_documented\<close>.
\<close>

subsection \<open>Notifier and listener\<close>

definition ipc_call ::
  "(('a, platform_error) result \<times> ev_world) blocking option \<Rightarrow>
     (('a, ipc_error) result \<times> ev_world) blocking option" where
  "ipc_call c = do {
     b \<leftarrow> c;
     Some (case b of Blocks \<Rightarrow> Blocks | Returns (r, w) \<Rightarrow> Returns (map_err IpcPlatform r, w))
   }"

record notifier =
  no_service_name :: string
  no_event :: event_notification

definition no_create :: "ev_os \<Rightarrow> string \<Rightarrow> ev_world \<Rightarrow> (notifier, ipc_error) result \<times> ev_world" where
  "no_create os service w =
     (case ev_new os w of
        (Err e, w) \<Rightarrow> (Err (IpcPlatform e), w)
      | (Ok event, w) \<Rightarrow> (Ok \<lparr>no_service_name = service, no_event = event\<rparr>, w))"

definition no_notify ::
  "ev_os \<Rightarrow> notifier \<Rightarrow> ev_world \<Rightarrow> ((unit, ipc_error) result \<times> ev_world) blocking option" where
  "no_notify os nt w = ipc_call (ev_notify os (no_event nt) w)"

record listener =
  li_service_name :: string
  li_event :: event_notification

definition li_create :: "ev_os \<Rightarrow> string \<Rightarrow> ev_world \<Rightarrow> (listener, ipc_error) result \<times> ev_world" where
  "li_create os service w =
     (case ev_new os w of
        (Err e, w) \<Rightarrow> (Err (IpcPlatform e), w)
      | (Ok event, w) \<Rightarrow> (Ok \<lparr>li_service_name = service, li_event = event\<rparr>, w))"

definition li_wait ::
  "ev_os \<Rightarrow> listener \<Rightarrow> ev_world \<Rightarrow> ((unit, ipc_error) result \<times> ev_world) blocking option" where
  "li_wait os li w = ipc_call (ev_wait os (li_event li) w)"

definition li_try_wait ::
  "ev_os \<Rightarrow> listener \<Rightarrow> ev_world \<Rightarrow> ((bool, ipc_error) result \<times> ev_world) blocking option" where
  "li_try_wait os li w = ipc_call (ev_try_wait os (li_event li) w)"

text \<open>\<open>RawFd\<close> is a signed number; the descriptor of a notification object is its position.\<close>

type_synonym raw_fd = int

definition li_raw_fd :: "listener \<Rightarrow> raw_fd" where
  "li_raw_fd li = int (li_event li)"

subsection \<open>The wait set\<close>

record wait_entry =
  we_fd :: raw_fd
  we_id :: nat

type_synonym wait_set = "wait_entry list"

datatype attachment_id = AttachmentId nat

definition ws_new :: wait_set where
  "ws_new = []"

definition ws_attach_fd :: "raw_fd \<Rightarrow> wait_set \<Rightarrow> attachment_id \<times> wait_set" where
  "ws_attach_fd fd ws = (let id = length ws in (AttachmentId id, ws @ [\<lparr>we_fd = fd, we_id = id\<rparr>]))"

definition ws_attach_listener :: "listener \<Rightarrow> wait_set \<Rightarrow> attachment_id \<times> wait_set" where
  "ws_attach_listener li ws = ws_attach_fd (li_raw_fd li) ws"

text \<open>The call to \<open>libc::poll\<close>, with \<open>POLLIN\<close> asked of every descriptor: it may block, or return its
  result and the \<open>revents\<close> of the descriptors.\<close>

type_synonym poll_call = "raw_fd list \<Rightarrow> 32 word \<Rightarrow> ev_world \<Rightarrow> (int \<times> 16 word list) blocking"

definition POLLIN :: "16 word" where
  "POLLIN = 1"

definition POLLNVAL :: "16 word" where
  "POLLNVAL = 32"

text \<open>\<open>as_millis\<close> gives a \<open>u128\<close>; the cast to \<open>i32\<close> keeps its low 32 bits.\<close>

definition ws_timeout_ms :: "u128 option \<Rightarrow> 32 word" where
  "ws_timeout_ms timeout = (case timeout of Some ms \<Rightarrow> ucast ms | None \<Rightarrow> -1)"

definition ws_wait :: "poll_call \<Rightarrow> u128 option \<Rightarrow> wait_set \<Rightarrow> ev_world \<Rightarrow> attachment_id list blocking" where
  "ws_wait poll timeout ws w =
     (if ws = [] then Returns []
      else case poll (map we_fd ws) (ws_timeout_ms timeout) w of
             Blocks \<Rightarrow> Blocks
           | Returns (ret, revents) \<Rightarrow>
               if ret \<le> 0 then Returns []
               else Returns (map (\<lambda>(i, _). AttachmentId i)
                      (filter (\<lambda>(_, r). r AND POLLIN \<noteq> 0) (enumerate 0 revents))))"

subsection \<open>A notification reaches no listener\<close>

lemma ipc_repeat:
  assumes "repeat_call k f w = Some (Returns (rs, w'))"
  shows "repeat_call k (\<lambda>w. ipc_call (f w)) w = Some (Returns (map (map_err IpcPlatform) rs, w'))"
  using assms
proof (induction k arbitrary: w rs)
  case (Suc k)
  then show ?case
    by (fastforce simp: ipc_call_def split: bind_splits blocking.splits prod.splits)
qed simp

lemma ev_new_ok:
  assumes "ev_calm os" and "ev_new os w = (r, w')"
  shows "r = Ok (length (ew_objs w))" and "length (ew_objs w') = Suc (length (ew_objs w))"
    and "ev_ok w' (length (ew_objs w))" and "ev_pending w' (length (ew_objs w)) = 0"
    and "ev < length (ew_objs w) \<Longrightarrow> ev_ok w' ev = ev_ok w ev \<and> ev_pending w' ev = ev_pending w ev"
  using assms by (auto simp: ev_new_defs ev_calm_def ev_ok_def ev_pending_def nth_append split: if_splits)

text \<open>The event pattern does not connect its ports. Whichever of a notifier and a listener of a
  service is created first, each gets a notification object of its own; however often the notifier
  notifies, successfully every time, a \<open>wait\<close> of the listener blocks and its \<open>try_wait\<close> reports that
  nothing is pending.\<close>

theorem notify_reaches_no_listener:
  assumes "ev_calm os" and "k \<le> ev_limit os"
    and "no_create os service w = (Ok nt, w1) \<and> li_create os service w1 = (Ok li, w2) \<or>
         li_create os service w = (Ok li, w1) \<and> no_create os service w1 = (Ok nt, w2)"
  shows "\<exists>w3. repeat_call k (no_notify os nt) w2 = Some (Returns (replicate k (Ok ()), w3)) \<and>
    li_wait os li w3 = Some Blocks \<and> (\<exists>w4. li_try_wait os li w3 = Some (Returns (Ok False, w4)))"
proof -
  let ?n = "no_event nt" and ?l = "li_event li"
  have "ev_ok w2 ?n \<and> ev_ok w2 ?l \<and> ?l \<noteq> ?n \<and> ev_pending w2 ?n = 0 \<and> ev_pending w2 ?l = 0"
    using assms(3) ev_new_ok [OF assms(1), of w] ev_new_ok [OF assms(1), of w1]
    by (auto simp: no_create_def li_create_def split: prod.splits result.splits)
  then obtain w3 w4 where "repeat_call k (ev_notify os ?n) w2 = Some (Returns (replicate k (Ok ()), w3))"
    and "ev_wait os ?l w3 = Some Blocks" and "ev_try_wait os ?l w3 = Some (Returns (Ok False, w4))"
    using es.notify_elsewhere [of os w2 ?n ?l k] assms(1,2) by auto
  then show ?thesis
    using ipc_repeat [of k "ev_notify os ?n" w2]
    by (auto simp: no_notify_def [abs_def] li_wait_def li_try_wait_def ipc_call_def map_replicate_const)
qed

theorem notify_reaches_no_listener_witness:
  "case no_create ev_linux ''alarm'' ev_fresh of (r, w1) \<Rightarrow>
     (case li_create ev_linux ''alarm'' w1 of (s, w2) \<Rightarrow>
        (case (r, s) of
           (Ok nt, Ok li) \<Rightarrow>
             \<exists>w3. repeat_call 5 (no_notify ev_linux nt) w2 = Some (Returns (replicate 5 (Ok ()), w3)) \<and>
               li_wait ev_linux li w3 = Some Blocks
         | _ \<Rightarrow> False))"
proof -
  obtain nt w1 where n: "no_create ev_linux ''alarm'' ev_fresh = (Ok nt, w1)"
    by (simp add: no_create_def ev_new_defs ev_linux_def)
  obtain li w2 where l: "li_create ev_linux ''alarm'' w1 = (Ok li, w2)"
    by (simp add: li_create_def ev_new_defs ev_linux_def)
  have "no_create ev_linux ''alarm'' ev_fresh = (Ok nt, w1) \<and> li_create ev_linux ''alarm'' w1 = (Ok li, w2) \<or>
      li_create ev_linux ''alarm'' ev_fresh = (Ok li, w1) \<and> no_create ev_linux ''alarm'' w1 = (Ok nt, w2)"
    using n l by blast
  from notify_reaches_no_listener [OF ev_linux_calm(1) _ this, of 5] n l
  show ?thesis by (auto simp: ev_linux_calm(2))
qed

subsection \<open>What a wait set reports\<close>

text \<open>What \<open>poll(2)\<close> promises. \<open>conds w fd\<close> are the conditions that hold on a descriptor, \<open>POLLIN\<close> when it can
  be read, \<open>POLLNVAL\<close> when it is not open, none for a negative number, and so on. If there is one on any
  descriptor the call returns at once the number of descriptors with one; otherwise it
  waits, without end for a negative timeout, or returns 0 when the time is over. Or it fails (a signal,
  say) and returns -1.\<close>

definition poll_reply :: "(ev_world \<Rightarrow> raw_fd \<Rightarrow> 16 word) \<Rightarrow> poll_call" where
  "poll_reply conds fds timeout_ms w =
     (let revents = map (conds w) fds
      in if \<exists>r \<in> set revents. r \<noteq> 0 then Returns (int (length (filter (\<lambda>r. r \<noteq> 0) revents)), revents)
         else if sint timeout_ms < 0 then Blocks
         else Returns (0, revents))"

definition poll_fails :: "poll_call \<Rightarrow> raw_fd list \<Rightarrow> 32 word \<Rightarrow> ev_world \<Rightarrow> bool" where
  "poll_fails poll fds timeout_ms w \<longleftrightarrow> (\<exists>revents. poll fds timeout_ms w = Returns (-1, revents))"

definition poll_documented :: "(ev_world \<Rightarrow> raw_fd \<Rightarrow> 16 word) \<Rightarrow> poll_call \<Rightarrow> bool" where
  "poll_documented conds poll \<longleftrightarrow>
     (\<forall>fds t w. poll fds t w = poll_reply conds fds t w \<or> poll_fails poll fds t w)"

lemma ws_timeout_negative:
  "sint (ws_timeout_ms timeout) < 0 \<longleftrightarrow> (case timeout of None \<Rightarrow> True | Some ms \<Rightarrow> bit ms 31)"
  by (auto simp: ws_timeout_ms_def bit_last_iff [symmetric] bit_simps split: option.splits)

lemma ws_wait_times_out:
  assumes "poll_documented conds poll" and "\<forall>e \<in> set ws. conds w (we_fd e) = 0" and "\<not> bit ms 31"
  shows "ws_wait poll (Some ms) ws w = Returns []"
proof -
  let ?fds = "map we_fd ws" and ?t = "ws_timeout_ms (Some ms)"
  have "poll_reply conds ?fds ?t w = Returns (0, map (conds w) ?fds)"
    using assms(2,3) ws_timeout_negative [of "Some ms"] by (auto simp: poll_reply_def Let_def)
  then have "poll ?fds ?t w = Returns (0, map (conds w) ?fds) \<or> poll_fails poll ?fds ?t w"
    using assms(1) unfolding poll_documented_def by metis
  then show ?thesis by (auto simp: ws_wait_def poll_fails_def)
qed

text \<open>C31: \<open>WaitSet::wait\<close>, for a \<open>poll\<close> that does what its manual says. An empty set returns nothing, and so
  does a call of \<open>poll\<close> that fails. If \<open>poll\<close> finds a condition on some attached descriptor, \<open>wait\<close> returns
  at once with exactly the attachments that can be read, in the order they were attached; these may be none: a
  descriptor that has been closed ends the wait without being reported. With no condition on any
  descriptor it returns nothing when the timeout is over. The timeout is truncated to 32 bits: when bit 31
  of its milliseconds is set, as for 2147483648 ms, the call never returns.\<close>

theorem waitset_exact:
  assumes "poll_documented conds poll"
  shows "ws_wait poll timeout ws w =
     (if ws = [] \<or> poll_fails poll (map we_fd ws) (ws_timeout_ms timeout) w then Returns []
      else if \<exists>e \<in> set ws. conds w (we_fd e) \<noteq> 0
      then Returns (map AttachmentId (filter (\<lambda>i. conds w (we_fd (ws ! i)) AND POLLIN \<noteq> 0) [0..<length ws]))
      else case timeout of
             None \<Rightarrow> Blocks
           | Some ms \<Rightarrow> if bit ms 31 then Blocks else Returns [])"
proof (cases "ws = [] \<or> poll_fails poll (map we_fd ws) (ws_timeout_ms timeout) w")
  case True
  then show ?thesis by (auto simp: ws_wait_def poll_fails_def)
next
  case False
  let ?rev = "map (conds w) (map we_fd ws)"
  have poll: "poll (map we_fd ws) (ws_timeout_ms timeout) w = poll_reply conds (map we_fd ws) (ws_timeout_ms timeout) w"
    using assms False by (auto simp: poll_documented_def)
  note ws_timeout_negative [of timeout]
  moreover have "(\<exists>r \<in> set ?rev. r \<noteq> 0) \<longleftrightarrow> (\<exists>e \<in> set ws. conds w (we_fd e) \<noteq> 0)" by auto
  moreover have "\<exists>r \<in> set ?rev. r \<noteq> 0 \<Longrightarrow> 0 < int (length (filter (\<lambda>r. r \<noteq> 0) ?rev))"
    by (auto simp: filter_empty_conv)
  moreover have "map (\<lambda>(i, _). AttachmentId i) (filter (\<lambda>(_, r). r AND POLLIN \<noteq> 0) (enumerate 0 ?rev)) =
      map AttachmentId (filter (\<lambda>i. conds w (we_fd (ws ! i)) AND POLLIN \<noteq> 0) [0..<length ws])"
  proof -
    have "enumerate 0 ?rev = map (\<lambda>i. (i, conds w (we_fd (ws ! i)))) [0..<length ws]"
      by (rule nth_equalityI) (simp_all add: nth_enumerate_eq)
    then show ?thesis by (simp add: filter_map comp_def)
  qed
  ultimately show ?thesis
    using False by (auto simp: ws_wait_def poll poll_reply_def Let_def split: option.splits)
qed

text \<open>The conditions on a notification object: readable when something is pending, and not open when there
  is no such object.\<close>

definition event_conds :: "ev_world \<Rightarrow> raw_fd \<Rightarrow> 16 word" where
  "event_conds w fd =
     (if fd < 0 then 0 else if nat fd < length (ew_objs w) then (if ev_pending w (nat fd) > 0 then POLLIN else 0)
      else POLLNVAL)"

lemma poll_documented_reply: "poll_documented conds (poll_reply conds)"
  by (simp add: poll_documented_def)

text \<open>Two objects of which the second is pending: attached in either order it is the one reported. With the
  descriptor of an object that is gone, the call returns nothing although no timeout was given.\<close>

theorem waitset_exact_witness:
  "let w = \<lparr>ew_objs = [\<lparr>ev_value = 0, ev_rd_nonblock = False, ev_wr_nonblock = False\<rparr>,
       \<lparr>ev_value = 1, ev_rd_nonblock = False, ev_wr_nonblock = False\<rparr>], ew_errno = WouldBlock\<rparr>;
     ws = snd (ws_attach_fd 1 (snd (ws_attach_fd 0 ws_new)))
   in ws_wait (poll_reply event_conds) None ws w = Returns [AttachmentId 1] \<and>
     ws_wait (poll_reply event_conds) None (snd (ws_attach_fd 7 ws_new)) w = Returns [] \<and>
     ws_wait (poll_reply event_conds) (Some 2147483648) (snd (ws_attach_fd 0 ws_new)) w = Blocks"
proof -
  have "POLLIN \<noteq> 0" "POLLIN AND POLLIN \<noteq> 0" "POLLNVAL \<noteq> 0" "POLLNVAL AND POLLIN = 0" "bit (2147483648 :: u128) 31"
    by (simp_all add: POLLIN_def POLLNVAL_def bit_iff_odd)
  then show ?thesis
    unfolding Let_def waitset_exact [OF poll_documented_reply]
    by (simp add: poll_fails_def poll_reply_def Let_def event_conds_def ev_pending_def ws_attach_fd_def ws_new_def
        ws_timeout_ms_def)
qed

end
