(* ===== verification/Platform_Tests.thy ===== *)
theory Platform_Tests
  imports Process_Monitor Signals Event_Ports
begin

text \<open>
  The unit tests of \<open>file_lock.rs\<close>, \<open>process_monitor.rs\<close>, \<open>signal.rs\<close> and \<open>event.rs\<close> of \<open>crates/entangle-platform\<close>, and of
  \<open>waitset.rs\<close>, run on the model. The environment and the paths, which the tests make from the clock, are
  arguments. A call that blocks for ever is \<open>None\<close>, as one that panics.
\<close>

fun returned :: "'a blocking \<Rightarrow> 'a option" where
  "returned (Returns x) = Some x"
| "returned Blocks = None"

subsection \<open>File locks\<close>

definition test_acquire_and_release :: "io_env \<Rightarrow> path \<Rightarrow> file_system \<Rightarrow> unit option" where
  "test_acquire_and_release env p fs = do {
     let (r, fs) = fl_acquire env p fs; lock \<leftarrow> unwrap r;
     let fs = fl_drop env lock fs;
     let (_, fs) = fs_remove_file env p fs;
     Some ()
   }"

definition test_release_and_remove :: "io_env \<Rightarrow> path \<Rightarrow> file_system \<Rightarrow> unit option" where
  "test_release_and_remove env p fs = do {
     let (r, fs) = fl_acquire env p fs; lock \<leftarrow> unwrap r;
     let (r, fs) = fl_release_and_remove env lock fs; _ \<leftarrow> unwrap r;
     assert_that (\<not> fs_exists env p fs)
   }"

subsection \<open>The process monitor\<close>

text \<open>The removal of the test directory at the end of the two tests is left out; its result is ignored.\<close>

definition test_register_and_list :: "io_env \<Rightarrow> path \<Rightarrow> file_system \<Rightarrow> unit option" where
  "test_register_and_list env root fs = do {
     let node_id = NodeId 42;
     let (r, fs) = pm_register env node_id root fs; monitor \<leftarrow> unwrap r;
     nodes \<leftarrow> unwrap (pm_list_nodes env root fs);
     assert_that (node_id \<in> set nodes);
     let fs = pm_drop env monitor fs;
     Some ()
   }"

definition test_cleanup_dead :: "io_env \<Rightarrow> path \<Rightarrow> file_system \<Rightarrow> unit option" where
  "test_cleanup_dead env root fs = do {
     let node_id = NodeId 99;
     let (r, fs) = pm_register env node_id root fs; monitor \<leftarrow> unwrap r;
     let fs = pm_drop env monitor fs;
     let (r, fs) = pm_cleanup_dead_nodes env root fs; dead \<leftarrow> unwrap r;
     assert_that (node_id \<in> set dead)
   }"

subsection \<open>Signals\<close>

definition test_install_handlers :: "(c_int \<Rightarrow> string option) \<Rightarrow> signal_state \<Rightarrow> unit option" where
  "test_install_handlers refuse s = do {
     let (r, s) = sig_install refuse (sig_reset s); _ \<leftarrow> unwrap r;
     assert_that (\<not> shutdown_requested s)
   }"

definition test_manual_flag_set :: "signal_state \<Rightarrow> unit option" where
  "test_manual_flag_set s = do {
     let s = (sig_reset s)\<lparr>shutdown_flag := True\<rparr>;
     assert_that (shutdown_requested s);
     assert_that (\<not> shutdown_requested (sig_reset s))
   }"

subsection \<open>Events and the wait set\<close>

definition test_notify_and_wait :: "ev_os \<Rightarrow> ev_world \<Rightarrow> unit option" where
  "test_notify_and_wait os w = do {
     let (r, w) = ev_new os w; event \<leftarrow> unwrap r;
     c \<leftarrow> ev_notify os event w; (r, w) \<leftarrow> returned c; _ \<leftarrow> unwrap r;
     c \<leftarrow> ev_wait os event w; (r, w) \<leftarrow> returned c; unwrap r
   }"

definition test_try_wait_empty :: "ev_os \<Rightarrow> ev_world \<Rightarrow> unit option" where
  "test_try_wait_empty os w = do {
     let (r, w) = ev_new os w; event \<leftarrow> unwrap r;
     c \<leftarrow> ev_try_wait os event w; (r, w) \<leftarrow> returned c; b \<leftarrow> unwrap r;
     assert_that (\<not> b)
   }"

definition test_try_wait_with_pending :: "ev_os \<Rightarrow> ev_world \<Rightarrow> unit option" where
  "test_try_wait_with_pending os w = do {
     let (r, w) = ev_new os w; event \<leftarrow> unwrap r;
     c \<leftarrow> ev_notify os event w; (r, w) \<leftarrow> returned c; _ \<leftarrow> unwrap r;
     c \<leftarrow> ev_try_wait os event w; (r, w) \<leftarrow> returned c; b \<leftarrow> unwrap r;
     assert_that b;
     c \<leftarrow> ev_try_wait os event w; (r, w) \<leftarrow> returned c; b \<leftarrow> unwrap r;
     assert_that (\<not> b)
   }"

definition test_empty_waitset_returns_empty :: "poll_call \<Rightarrow> ev_world \<Rightarrow> unit option" where
  "test_empty_waitset_returns_empty poll w = do {
     triggered \<leftarrow> returned (ws_wait poll (Some 10) ws_new w);
     assert_that (triggered = [])
   }"

subsection \<open>They pass\<close>

definition io_listing :: "node_id \<Rightarrow> io_env" where
  "io_listing n = io_quiet\<lparr>read_dir := (\<lambda>_. Ok [Ok (hex_pad 32 (unat (nid n)))])\<rparr>"

lemma file_lock_tests_pass:
  "test_acquire_and_release io_quiet ''/tmp/entangle_test_locks/a'' fs_empty = Some ()"
  "test_release_and_remove io_quiet ''/tmp/entangle_test_locks/b'' fs_empty = Some ()"
  by code_simp+

lemma pm_register_makes_dir:
  "io_calm env \<Longrightarrow> nodes_dir root \<in> fs_dirs (snd (pm_register env n root fs))"
  by (auto simp: pm_register_def fl_acquire_defs io_calm_def fs_create_dir_all_def
      split: option.splits result.splits prod.splits if_splits)

lemma io_listing_calm: "io_calm (io_listing n)"
  by (simp add: io_listing_def io_calm_def io_quiet_def)

lemma pm_list_nodes_listing:
  "nodes_dir root \<in> fs_dirs fs \<Longrightarrow> pm_list_nodes (io_listing n) root fs = Ok [n]"
  by (cases n) (simp add: pm_list_nodes_def fs_exists_def io_listing_def io_quiet_def parse_hex_pad)

lemma pm_drop_dirs: "fs_dirs (pm_drop env m fs) = fs_dirs fs"
  by (simp add: pm_drop_def fl_drop_def fl_unlock_def fs_unlock_def fs_close_def fs_release_def
      split: option.splits)

lemma pm_register_free:
  assumes "fs_wf fs" and "\<not> held fs (node_path root n)"
  obtains m fs' where "pm_register (io_listing n) n root fs = (Ok m, fs')" "fs_wf fs'"
    "nodes_dir root \<in> fs_dirs fs'" "fs_names fs' (node_path root n) = Some (fd_inode (fl_file (pm_lock m)))"
    "fs_locks fs' (fd_inode (fl_file (pm_lock m))) = Some (fd_id (fl_file (pm_lock m)))"
proof -
  obtain i fs' where r: "pm_register (io_listing n) n root fs =
        (Ok \<lparr>pm_lock = \<lparr>fl_file = \<lparr>fd_id = fs_next_fd fs, fd_inode = i\<rparr>, fl_path = node_path root n,
               fl_locked = True\<rparr>, pm_node_id = n, pm_root_dir = root\<rparr>, fs')" "fs_wf fs'"
      "fs_names fs' = (fs_names fs)(node_path root n \<mapsto> i)" "fs_locks fs' = (fs_locks fs)(i \<mapsto> fs_next_fd fs)"
    using pm_register_view [OF io_listing_calm assms(1), of root n n] assms(2) by auto
  have "nodes_dir root \<in> fs_dirs fs'" using pm_register_makes_dir [OF io_listing_calm, of root n n fs] r(1) by simp
  from that [OF r(1,2) this] show ?thesis by (simp add: r(3,4))
qed

text \<open>On any well-formed file system in which the node is not alive already.\<close>

lemma process_monitor_tests_pass:
  "fs_wf fs \<Longrightarrow> \<not> held fs (node_path root (NodeId 42)) \<Longrightarrow>
    test_register_and_list (io_listing (NodeId 42)) root fs = Some ()"
  "fs_wf fs \<Longrightarrow> \<not> held fs (node_path root (NodeId 99)) \<Longrightarrow>
    test_cleanup_dead (io_listing (NodeId 99)) root fs = Some ()"
proof -
  assume "fs_wf fs" "\<not> held fs (node_path root (NodeId 42))"
  then obtain m fs' where "pm_register (io_listing (NodeId 42)) (NodeId 42) root fs = (Ok m, fs')"
      "nodes_dir root \<in> fs_dirs fs'"
    using pm_register_free by blast
  then show "test_register_and_list (io_listing (NodeId 42)) root fs = Some ()"
    by (simp add: test_register_and_list_def pm_list_nodes_listing)
next
  assume wf: "fs_wf fs" and free: "\<not> held fs (node_path root (NodeId 99))"
  let ?n = "NodeId 99" and ?env = "io_listing (NodeId 99)"
  obtain m fs1 where r: "pm_register ?env ?n root fs = (Ok m, fs1)" "fs_wf fs1" "nodes_dir root \<in> fs_dirs fs1"
      "fs_names fs1 (node_path root ?n) = Some (fd_inode (fl_file (pm_lock m)))"
      "fs_locks fs1 (fd_inode (fl_file (pm_lock m))) = Some (fd_id (fl_file (pm_lock m)))"
    using pm_register_free [OF wf free] .
  let ?fs2 = "pm_drop ?env m fs1"
  have fs2: "fs_wf ?fs2" "fs_names ?fs2 (node_path root ?n) \<noteq> None" "\<not> held ?fs2 (node_path root ?n)"
    using fl_drop_view [OF r(2), of ?env "pm_lock m"] r(4,5) by (auto simp: pm_drop_def held_def)
  obtain dead fs3 where "cleanup_nodes ?env root [?n] ?fs2 = (dead, fs3)" "?n \<in> set dead"
    using cleanup_nodes_view [OF io_listing_calm [of ?n] fs2(1), of root "[?n]"] fs2(2,3) by auto
  then show "test_cleanup_dead ?env root fs = Some ()"
    using r(1,3) pm_drop_dirs [of ?env m fs1]
    by (simp add: test_cleanup_dead_def pm_cleanup_dead_nodes_def pm_list_nodes_listing del: cleanup_nodes.simps)
qed

lemma signal_tests_pass:
  "test_install_handlers (\<lambda>_. None) s = Some ()" "test_manual_flag_set s = Some ()"
  by (simp_all add: test_install_handlers_def test_manual_flag_set_def sig_install_def sys_signal_def
      sig_reset_def shutdown_requested_def)

lemma event_tests_pass:
  assumes "ev_calm os"
  shows "test_notify_and_wait os w = Some ()" "test_try_wait_empty os w = Some ()"
    "test_try_wait_with_pending os w = Some ()"
proof -
  let ?ev = "length (ew_objs w)"
  obtain r w' where "ev_new os w = (r, w')" by (cases "ev_new os w")
  with ev_new_ok [OF assms this] have new: "ev_new os w = (Ok ?ev, w')" "ev_ok w' ?ev" "ev_pending w' ?ev = 0"
    by simp_all
  have len: "?ev < length (ew_objs w')" "0 < ev_limit os" using new(2) assms by (simp_all add: ev_ok_def ev_calm_def)
  note calls = new len ev_notify_ok [OF assms] ev_wait_ok [OF assms] ev_try_wait_ok [OF assms]
  show "test_notify_and_wait os w = Some ()" by (simp add: test_notify_and_wait_def calls)
  show "test_try_wait_empty os w = Some ()" by (simp add: test_try_wait_empty_def calls)
  show "test_try_wait_with_pending os w = Some ()" by (simp add: test_try_wait_with_pending_def calls)
qed

lemma waitset_test_passes: "test_empty_waitset_returns_empty poll w = Some ()"
  by (simp add: test_empty_waitset_returns_empty_def ws_wait_def ws_new_def)

end
