(* ===== verification/Pub_Sub_Limits.thy ===== *)
theory Pub_Sub_Limits
  imports Pub_Sub_Safety
begin

text \<open>
  Where the accounting of \<open>publisher.rs\<close> does not hold: with no subscriber a sent chunk is never
  given back, and with two subscribers it is given back twice. Both are stated as runs of the
  operations of \<open>Pub_Sub\<close> from a fresh pair of ports.
\<close>

definition two_world :: "memory \<Rightarrow> data_segment \<Rightarrow> channel \<Rightarrow> channel \<Rightarrow> usize \<Rightarrow> world" where
  "two_world mem d c1 c2 k =
     \<lparr>w_mem = mem, w_segs = [d], w_chans = [c1, c2], w_lists = [[0, 1]], w_loans = [k]\<rparr>"

definition pub_shape :: "publisher \<Rightarrow> bool" where
  "pub_shape p \<longleftrightarrow> pub_segment p = 0 \<and> pub_channels p = 0 \<and> pub_active_loans p = 0"

subsection \<open>Deallocating twice\<close>

text \<open>A pool whose free list has become a loop on the chunk \<open>a\<close>.\<close>

definition pool_loop :: "pool_allocator \<Rightarrow> pointer_offset \<Rightarrow> bool" where
  "pool_loop p a \<longleftrightarrow> (\<exists>i. a = pool_chunk p i \<and> i \<noteq> SENTINEL \<and>
     uis_extract_head (uis_head (pool_index_set p)) = i \<and> unat i < length (uis_next (pool_index_set p)) \<and>
     uis_next (pool_index_set p) ! unat i = i)"

lemma pool_loop_allocate:
  assumes "pool_loop p a"
  shows "\<exists>p'. pool_allocate p = Some (Ok a, p') \<and> pool_loop p' a"
proof -
  obtain i s' where i: "a = pool_chunk p i" "i \<noteq> SENTINEL"
      "uis_extract_head (uis_head (pool_index_set p)) = i" "unat i < length (uis_next (pool_index_set p))"
      "uis_next (pool_index_set p) ! unat i = i"
    and s': "uis_acquire (pool_index_set p) = Some (Ok i, s')" "uis_extract_head (uis_head s') = i"
      "uis_next s' = uis_next (pool_index_set p)"
    using assms uis_self_loop_acquire by (fastforce simp: pool_loop_def)
  then show ?thesis
    by (auto simp: pool_allocate_def pool_loop_def pool_chunk_def)
qed

lemma pool_double_deallocate:
  assumes wf: "pool_wf p" and a: "a \<in> pool_chunks p" "a \<notin> pool_free p"
  shows "\<exists>p1 p2. pool_deallocate a p = Some p1 \<and> pool_deallocate a p1 = Some p2 \<and> pool_loop p2 a"
proof -
  obtain i where i: "a = pool_chunk p i" "i < pool_capacity p" using a(1) by (auto simp: pool_chunks_def)
  have "i \<noteq> SENTINEL" using wf i(2) by (auto simp: pool_wf_def uis_wf_def pool_capacity_def)
  moreover have index: "ucast ((po_offset a - pool_base_offset p) div pool_chunk_size p) = i"
    using pool_chunk_index [OF wf i(2)] i(1) by simp
  obtain p1 where p1: "pool_deallocate a p = Some p1" using pool_deallocate_held [OF wf a] by blast
  then obtain s1 where s1: "uis_release i (pool_index_set p) = Some s1" "p1 = p\<lparr>pool_index_set := s1\<rparr>"
    using index by (auto simp: pool_deallocate_def Option.bind_eq_Some_conv)
  ultimately obtain s2 where s2: "uis_release i s1 = Some s2" "uis_extract_head (uis_head s2) = i"
      "unat i < length (uis_next s2)" "uis_next s2 ! unat i = i" "i \<noteq> SENTINEL"
    using uis_double_release by blast
  then have "pool_deallocate a p1 = Some (p1\<lparr>pool_index_set := s2\<rparr>)"
    using index s1(2) by (simp add: pool_deallocate_def)
  moreover have "pool_loop (p1\<lparr>pool_index_set := s2\<rparr>) a"
    using s2 i(1) s1(2) by (auto simp: pool_loop_def pool_chunk_def)
  ultimately show ?thesis using p1 by blast
qed

lemma ds_double_deallocate:
  assumes "ds_wf d" and "a \<in> ds_out d"
  shows "\<exists>d1 d2. ds_deallocate a d = Some d1 \<and> ds_deallocate a d1 = Some d2 \<and> pool_loop (ds_allocator d2) a \<and>
    ds_shm d2 = ds_shm d"
proof -
  obtain p1 p2 where "pool_deallocate a (ds_allocator d) = Some p1" "pool_deallocate a p1 = Some p2"
      "pool_loop p2 a"
    using pool_double_deallocate [of "ds_allocator d" a] assms
    by (auto simp: ds_wf_def ds_out_def ds_chunks_def ds_free_def)
  then show ?thesis by (auto simp: ds_deallocate_def)
qed

lemma ds_loop_allocate:
  assumes "pool_loop (ds_allocator d) a"
  shows "\<exists>d'. ds_allocate d = Some (Ok a, d') \<and> pool_loop (ds_allocator d') a"
  using pool_loop_allocate [OF assms] by (auto simp: ds_allocate_def)

subsection \<open>Two subscribers\<close>

lemma reclaim_one_chan:
  assumes wf: "ch_wf c" and ret: "ch_returned c = [a]" and "w_chans w ! ch = c" and "ch < length (w_chans w)"
    and "w_segs w = [d]" and "w_loans w = [k]" and "ds_deallocate a d = Some d'"
  shows "\<exists>c'. reclaim_chan (Suc (unat (ch_return_count c))) 0 0 ch w =
    Some (w\<lparr>w_chans := (w_chans w)[ch := c'], w_segs := [d'], w_loans := [k - 1]\<rparr>) \<and> ch_wf c'"
proof -
  have "unat (ch_return_count c) = length (ch_returned c)"
    using spsc_queries(3) [of "ch_return_queue c"] wf
    by (simp add: ch_return_count_def ch_returned_def ch_wf_def)
  then have n: "unat (ch_return_count c) = Suc 0" using ret by simp
  obtain c1 where c1: "ch_reclaim c = Some (Some a, c1)" "ch_returned c1 = []" "ch_wf c1"
    using ch.reclaim_Cons [OF wf ret] by blast
  then have c2: "ch_reclaim c1 = Some (None, c1)" using ch.reclaim_none by blast
  show ?thesis
    unfolding n using assms c1 c2 by (intro exI [of _ c1]) simp
qed

lemma pub_reclaim_twice:
  assumes p: "pub_shape p" and d: "ds_wf d" "a \<in> ds_out d"
    and c1: "ch_wf c1" "ch_returned c1 = [a]" and c2: "ch_wf c2" "ch_returned c2 = [a]"
  shows "\<exists>d' c1' c2'. pub_reclaim p (two_world mem d c1 c2 k) = Some (two_world mem d' c1' c2' (k - 1 - 1)) \<and>
    pool_loop (ds_allocator d') a"
proof -
  obtain d1 d2 where d12: "ds_deallocate a d = Some d1" "ds_deallocate a d1 = Some d2"
      "pool_loop (ds_allocator d2) a"
    using ds_double_deallocate [OF d] by blast
  let ?w = "two_world mem d c1 c2 k"
  obtain c1' where r1: "reclaim_chan (Suc (unat (ch_return_count c1))) 0 0 0 ?w =
      Some (?w\<lparr>w_chans := (w_chans ?w)[0 := c1'], w_segs := [d1], w_loans := [k - 1]\<rparr>)"
    using reclaim_one_chan [OF c1, of ?w 0 d k d1] d12(1) by (auto simp: two_world_def)
  have w1: "?w\<lparr>w_chans := (w_chans ?w)[0 := c1'], w_segs := [d1], w_loans := [k - 1]\<rparr> =
      two_world mem d1 c1' c2 (k - 1)" by (simp add: two_world_def)
  let ?w1 = "two_world mem d1 c1' c2 (k - 1)"
  obtain c2' where r2: "reclaim_chan (Suc (unat (ch_return_count c2))) 0 0 1 ?w1 =
      Some (?w1\<lparr>w_chans := (w_chans ?w1)[1 := c2'], w_segs := [d2], w_loans := [k - 1 - 1]\<rparr>)"
    using reclaim_one_chan [OF c2, of ?w1 1 d1 "k - 1" d2] d12(2) by (auto simp: two_world_def)
  have "pub_reclaim p ?w = reclaim_chans 0 0 [0, 1] ?w"
    using p by (simp add: pub_reclaim_def pub_shape_def) (simp add: two_world_def)
  also have "\<dots> = reclaim_chans 0 0 [1] ?w1"
    using r1 w1 by (simp add: two_world_def del: reclaim_chan.simps)
  also have "\<dots> = Some (two_world mem d2 c1' c2' (k - 1 - 1))"
    using r2 by (simp add: two_world_def del: reclaim_chan.simps)
  finally show ?thesis using d12(3) by blast
qed

lemma pub_loan_two:
  assumes "pub_shape p" and "k < pub_max_loaned p" and "ds_allocate d = Some (Ok a, d')"
  shows "pub_loan p (two_world mem d c1 c2 k) =
    Some (Ok \<lparr>smu_ptr = ds_resolve_ptr d' a, smu_offset = a, smu_send_fn = Some 0, smu_drop_fn = Some (0, 0)\<rparr>,
      two_world (write_bytes (ds_resolve_ptr d' a) 0 (pub_payload p) mem) d' c1 c2 (k + 1))"
  using assms not_le [of "pub_max_loaned p" k] by (simp add: pub_loan_def pub_shape_def two_world_def Let_def)

lemma pub_loan_loop:
  assumes "pub_shape p" and "pool_loop (ds_allocator d) a" and "k < pub_max_loaned p"
  shows "\<exists>m mem' d'. pub_loan p (two_world mem d c1 c2 k) = Some (Ok m, two_world mem' d' c1 c2 (k + 1)) \<and>
    smu_offset m = a \<and> pool_loop (ds_allocator d') a"
  using ds_loop_allocate [OF assms(2)] pub_loan_two [OF assms(1,3)] by fastforce

lemma ch_round_trip:
  "\<exists>ca cb cc. ch_send a (ch_connect (ch_new n s r)) = Some (Ok (), ca) \<and> ch_receive ca = Some (Ok a, cb) \<and>
     ch_return_try a cb = Some (True, cc) \<and> ch_wf cc \<and> ch_returned cc = [a]"
proof -
  have wf: "ch_wf (ch_new n s r)" by simp
  have pos: "0 < ch_bound (ch_new n s r)"
    using wf ring_ok_capacity by (simp add: ch_wf_def spsc_wf_def ch_bound_def)
  obtain ca where ca: "ch_send a (ch_connect (ch_new n s r)) = Some (Ok (), ca)" "ch_inflight ca = [a]"
      "ch_returned ca = []" "ch_bound ca = ch_bound (ch_new n s r)" "ch_wf ca"
    using ch.send_room [of "ch_connect (ch_new n s r)" a] pos by auto
  obtain cb where cb: "ch_receive ca = Some (Ok a, cb)" "ch_returned cb = []" "ch_bound cb = ch_bound ca" "ch_wf cb"
    using ch.receive_Cons [OF ca(5,2)] ca(3) by auto
  then show ?thesis using ch.give_back_room [OF cb(4), of a] ca pos by auto
qed

text \<open>A service with one publisher, then two subscribers.\<close>

definition two_boot ::
  "nix \<Rightarrow> string \<Rightarrow> node_id \<Rightarrow> node_id \<Rightarrow> node_id \<Rightarrow> pubsub_qos \<Rightarrow> nat \<Rightarrow> memory \<Rightarrow>
     (publisher \<times> subscriber \<times> subscriber \<times> world) option" where
  "two_boot os service n1 n2 n3 qos payload mem = do {
     (r, sh, w) \<leftarrow> pub_create os service n1 qos payload (fresh_shared service qos) (empty_world mem);
     p \<leftarrow> unwrap r;
     (r, w) \<leftarrow> sub_create service n2 qos sh w;
     u1 \<leftarrow> unwrap r;
     (r, w) \<leftarrow> sub_create service n3 qos sh w;
     u2 \<leftarrow> unwrap r;
     Some (p, u1, u2, w)
   }"

text \<open>One message: loaned, sent, received by both subscribers, dropped by both, reclaimed. Every call has to
  succeed, the drops at their first attempt; the chunk of the message is returned.\<close>

definition finished :: "'a spin \<Rightarrow> 'a option" where
  "finished s = (case s of Done a \<Rightarrow> Some a | Spinning \<Rightarrow> None)"

definition one_message ::
  "publisher \<Rightarrow> subscriber \<Rightarrow> subscriber \<Rightarrow> world \<Rightarrow> (pointer_offset \<times> world) option" where
  "one_message p u1 u2 w = do {
     (r, w) \<leftarrow> pub_loan p w; m \<leftarrow> unwrap r;
     (r, w) \<leftarrow> smu_send m w; _ \<leftarrow> unwrap r;
     (r, w) \<leftarrow> sub_receive u1 w; x1 \<leftarrow> unwrap r; x1 \<leftarrow> x1;
     (r, w) \<leftarrow> sub_receive u2 w; x2 \<leftarrow> unwrap r; x2 \<leftarrow> x2;
     s \<leftarrow> sa_drop 1 x1 w; w \<leftarrow> finished s;
     s \<leftarrow> sa_drop 1 x2 w; w \<leftarrow> finished s;
     w \<leftarrow> pub_reclaim p w;
     Some (smu_offset m, w)
   }"

lemma two_boot_result:
  assumes boot: "two_boot os service n1 n2 n3 qos payload mem = Some (p, u1, u2, w)" and ok: "ps_params_ok qos payload"
  obtains mem' d where "w = two_world mem' d (ch_connect (ch_new (buffer_size qos) (nid n1) (nid n2)))
      (ch_connect (ch_new (buffer_size qos) (nid n1) (nid n3))) 0"
    "pub_shape p" "pub_max_loaned p = max_loaned_samples qos" "sub_connections u1 = [(0, 0)]" "sub_connections u2 = [(0, 1)]"
    "ds_wf d" "ds_free d = ds_chunks d" "card (ds_chunks d) = unat (buffer_size qos)"
proof -
  let ?size = "max (of_nat payload) 8 :: usize" and ?count = "ucast (buffer_size qos) :: u32"
  have fits: "layout_fits ?size ?count" using ok by (simp add: ps_params_ok_def)
  obtain r mem' where r: "ds_create os (pub_segment_name service 0 n1) ?size ?count 0 mem = Some (r, mem')"
    using ds_create_total [OF fits] by blast
  then obtain d where create: "ds_create os (pub_segment_name service 0 n1) ?size ?count 0 mem = Some (Ok d, mem')"
    using boot by (cases r) (auto simp: two_boot_def pub_create_def fresh_shared_def empty_world_def Let_def)
  note d = ds_create_OkD [OF fits create]
  have "unat ?count = unat (buffer_size qos)"
    using ok by (simp add: ps_params_ok_def unsigned_ucast_eq unsigned_take_bit_eq take_bit_nat_eq_self)
  then have "card (ds_chunks d) = unat (buffer_size qos)" using card_ds_chunks [of d] d by simp
  with that [of mem' d] boot create d show ?thesis
    by (simp add: two_boot_def pub_create_def sub_create_def fresh_shared_def empty_world_def two_world_def
        pub_shape_def Let_def) auto
qed

lemma one_message_result:
  assumes p: "pub_shape p" "k < pub_max_loaned p" and d: "ds_wf d" "ds_free d \<noteq> {}"
    and u: "sub_connections u1 = [(0, 0)]" "sub_connections u2 = [(0, 1)]"
    and c: "c1 = ch_connect (ch_new n s r1)" "c2 = ch_connect (ch_new n s r2)"
  shows "\<exists>a mem' d' c1' c2'. one_message p u1 u2 (two_world mem d c1 c2 k) = Some (a, two_world mem' d' c1' c2' (k - 1)) \<and>
    pool_loop (ds_allocator d') a"
proof -
  obtain a d' where d': "ds_allocate d = Some (Ok a, d')" "ds_wf d'" "a \<in> ds_out d'"
    using ds_allocate_free [OF d] ds_out_allocate [OF d(1)] by blast
  obtain ca1 cb1 cc1 where t1: "ch_send a c1 = Some (Ok (), ca1)" "ch_receive ca1 = Some (Ok a, cb1)"
      "ch_return_try a cb1 = Some (True, cc1)" "ch_wf cc1" "ch_returned cc1 = [a]"
    using ch_round_trip c(1) by blast
  obtain ca2 cb2 cc2 where t2: "ch_send a c2 = Some (Ok (), ca2)" "ch_receive ca2 = Some (Ok a, cb2)"
      "ch_return_try a cb2 = Some (True, cc2)" "ch_wf cc2" "ch_returned cc2 = [a]"
    using ch_round_trip c(2) by blast
  let ?m = "\<lparr>smu_ptr = ds_resolve_ptr d' a, smu_offset = a, smu_send_fn = Some 0, smu_drop_fn = Some (0, 0)\<rparr>"
  let ?mem = "write_bytes (ds_resolve_ptr d' a) 0 (pub_payload p) mem"
  let ?x = "\<lambda>ch. \<lparr>sa_ptr = ds_resolve_ptr d' a, sa_offset = a, sa_drop_fn = Some ch\<rparr>"
  have loan: "pub_loan p (two_world mem d c1 c2 k) = Some (Ok ?m, two_world ?mem d' c1 c2 (k + 1))"
    by (rule pub_loan_two [OF p d'(1)])
  have send: "smu_send ?m (two_world ?mem d' c1 c2 (k + 1)) = Some (Ok (), two_world ?mem d' ca1 ca2 (k + 1))"
    using t1(1) t2(1) by (simp add: smu_send_def two_world_def)
  have recv1: "sub_receive u1 (two_world ?mem d' ca1 ca2 (k + 1)) = Some (Ok (Some (?x 0)), two_world ?mem d' cb1 ca2 (k + 1))"
    using t1(2) u(1) by (simp add: sub_receive_def two_world_def)
  have recv2: "sub_receive u2 (two_world ?mem d' cb1 ca2 (k + 1)) = Some (Ok (Some (?x 1)), two_world ?mem d' cb1 cb2 (k + 1))"
    using t2(2) u(2) by (simp add: sub_receive_def two_world_def)
  have drop1: "sa_drop 1 (?x 0) (two_world ?mem d' cb1 cb2 (k + 1)) = Some (Done (two_world ?mem d' cc1 cb2 (k + 1)))"
    using t1(3) by (simp add: sa_drop_def two_world_def)
  have drop2: "sa_drop 1 (?x 1) (two_world ?mem d' cc1 cb2 (k + 1)) = Some (Done (two_world ?mem d' cc1 cc2 (k + 1)))"
    using t2(3) by (simp add: sa_drop_def two_world_def)
  obtain e e1 e2 where "pub_reclaim p (two_world ?mem d' cc1 cc2 (k + 1)) = Some (two_world ?mem e e1 e2 (k + 1 - 1 - 1))"
      "pool_loop (ds_allocator e) a"
    using pub_reclaim_twice [OF p(1) d'(2,3) t1(4,5) t2(4,5)] by blast
  then show ?thesis
    using loan send recv1 recv2 drop1 drop2 by (auto simp: one_message_def finished_def)
qed

text \<open>C32: two subscribers break the accounting of loans. Start with a fresh publisher and two subscribers, and
  let one message be sent, received and dropped by both, and reclaimed: its chunk is deallocated twice and
  the free list becomes a loop on it. If another sample was on loan meanwhile (the limits allow two, and the
  pool has two chunks), the next two loans, both outstanding, are the chunk of that message,
  whatever the application is still writing into the first. If none was, the counter of
  active loans, incremented once and decremented twice, has wrapped to \<open>usize::MAX\<close>, and every later loan is
  refused.\<close>

theorem two_subscribers_alias:
  assumes "two_boot os service n1 n2 n3 qos payload mem = Some (p, u1, u2, w)" and "ps_params_ok qos payload"
  shows "(2 \<le> max_loaned_samples qos \<longrightarrow> 2 \<le> buffer_size qos \<longrightarrow>
      (\<exists>m w0 a w1 m1 w2 m2 w3. pub_loan p w = Some (Ok m, w0) \<and> one_message p u1 u2 w0 = Some (a, w1) \<and>
        pub_loan p w1 = Some (Ok m1, w2) \<and> pub_loan p w2 = Some (Ok m2, w3) \<and>
        smu_offset m1 = a \<and> smu_offset m2 = a)) \<and>
    (0 < max_loaned_samples qos \<longrightarrow>
      (\<exists>a w1. one_message p u1 u2 w = Some (a, w1) \<and> pub_get_active_loans p w1 = Some (- 1) \<and>
        pub_loan p w1 = Some (Err (LoanErr (ExceedsMaxLoans (max_loaned_samples qos))), w1)))"
proof -
  let ?c = "\<lambda>n. ch_connect (ch_new (buffer_size qos) (nid n1) (nid n))"
  obtain mem' d where w: "w = two_world mem' d (?c n2) (?c n3) 0" and p: "pub_shape p" "pub_max_loaned p = max_loaned_samples qos"
    and u: "sub_connections u1 = [(0, 0)]" "sub_connections u2 = [(0, 1)]"
    and d: "ds_wf d" "ds_free d = ds_chunks d" "card (ds_chunks d) = unat (buffer_size qos)"
    using two_boot_result [OF assms] .
  have free: "ds_free d \<noteq> {}" using d(2) ds_wf_first_chunk [OF d(1)] by auto
  show ?thesis
  proof (intro conjI impI)
    assume max: "2 \<le> max_loaned_samples qos" and size: "2 \<le> buffer_size qos"
    then have k: "0 < pub_max_loaned p" "1 < pub_max_loaned p" using p(2) by (simp_all add: word_le_nat_alt word_less_nat_alt)
    obtain x e where e: "ds_allocate d = Some (Ok x, e)" "x \<in> ds_free d" "ds_free e = ds_free d - {x}" "ds_wf e"
      using ds_allocate_free [OF d(1) free] by blast
    have "card (ds_free e) = card (ds_free d) - 1" using e(2,3) by simp
    then have "ds_free e \<noteq> {}" using d(2,3) size by (auto simp: word_le_nat_alt)
    moreover obtain m mem0 where loan: "pub_loan p w = Some (Ok m, two_world mem0 e (?c n2) (?c n3) 1)"
      using pub_loan_two [OF p(1) k(1) e(1)] w by simp
    ultimately obtain a mem1 d1 c1 c2 where msg:
      "one_message p u1 u2 (two_world mem0 e (?c n2) (?c n3) 1) = Some (a, two_world mem1 d1 c1 c2 0)"
      "pool_loop (ds_allocator d1) a"
      using one_message_result [OF p(1) k(2) e(4) _ u refl refl] by fastforce
    obtain m1 mem2 d2 where l1: "pub_loan p (two_world mem1 d1 c1 c2 0) = Some (Ok m1, two_world mem2 d2 c1 c2 1)"
        "smu_offset m1 = a" "pool_loop (ds_allocator d2) a"
      using pub_loan_loop [OF p(1) msg(2) k(1)] by fastforce
    obtain m2 w3 where "pub_loan p (two_world mem2 d2 c1 c2 1) = Some (Ok m2, w3)" "smu_offset m2 = a"
      using pub_loan_loop [OF p(1) l1(3) k(2)] by blast
    with loan msg(1) l1(1,2) show "\<exists>m w0 a w1 m1 w2 m2 w3. pub_loan p w = Some (Ok m, w0) \<and>
        one_message p u1 u2 w0 = Some (a, w1) \<and> pub_loan p w1 = Some (Ok m1, w2) \<and> pub_loan p w2 = Some (Ok m2, w3) \<and>
        smu_offset m1 = a \<and> smu_offset m2 = a" by blast
  next
    assume "0 < max_loaned_samples qos"
    then obtain a mem1 d1 c1 c2 where msg: "one_message p u1 u2 w = Some (a, two_world mem1 d1 c1 c2 (- 1))"
      using one_message_result [OF p(1) _ d(1) free u refl refl] p(2) w by fastforce
    have "max_loaned_samples qos \<le> - 1" by simp
    then have "pub_loan p (two_world mem1 d1 c1 c2 (- 1)) =
        Some (Err (LoanErr (ExceedsMaxLoans (max_loaned_samples qos))), two_world mem1 d1 c1 c2 (- 1))"
      using p by (simp add: pub_loan_def pub_shape_def two_world_def)
    moreover have "pub_get_active_loans p (two_world mem1 d1 c1 c2 (- 1)) = Some (- 1)"
      using p(1) by (simp add: pub_get_active_loans_def pub_shape_def two_world_def)
    ultimately show "\<exists>a w1. one_message p u1 u2 w = Some (a, w1) \<and> pub_get_active_loans p w1 = Some (- 1) \<and>
        pub_loan p w1 = Some (Err (LoanErr (ExceedsMaxLoans (max_loaned_samples qos))), w1)" using msg by blast
  qed
qed

theorem two_subscribers_alias_witness:
  "\<exists>p u1 u2 w m w0 a w1 m1 w2 m2 w3.
     two_boot nix_ok ''svc'' (NodeId 1) (NodeId 2) (NodeId 3) pubsub_qos_default 8 (\<lambda>_. 0) = Some (p, u1, u2, w) \<and>
     pub_loan p w = Some (Ok m, w0) \<and> one_message p u1 u2 w0 = Some (a, w1) \<and>
     pub_loan p w1 = Some (Ok m1, w2) \<and> pub_loan p w2 = Some (Ok m2, w3) \<and> smu_offset m1 = smu_offset m2"
proof -
  have fits: "layout_fits 8 64" by (simp add: layout_fits_def SENTINEL_def)
  obtain shm mem1 where
    "shm_create nix_ok (pub_segment_name ''svc'' 0 (NodeId 1)) (HEADER_SIZE + align8 8 * ucast (64 :: u32)) (\<lambda>_. 0) = (Ok shm, mem1)"
    by (simp add: shm_create_def Let_def nix_ok_def do_mmap_def HEADER_SIZE_def align8_def)
  from ds_create_wf [OF fits this, of 0] obtain d mem' where
    "ds_create nix_ok (pub_segment_name ''svc'' 0 (NodeId 1)) 8 64 0 (\<lambda>_. 0) = Some (Ok d, mem')" by blast
  then obtain p u1 u2 w where boot:
    "two_boot nix_ok ''svc'' (NodeId 1) (NodeId 2) (NodeId 3) pubsub_qos_default 8 (\<lambda>_. 0) = Some (p, u1, u2, w)"
    by (simp add: two_boot_def pub_create_def sub_create_def fresh_shared_def empty_world_def Let_def pubsub_qos_default_def)
  have "2 \<le> max_loaned_samples pubsub_qos_default" "2 \<le> buffer_size pubsub_qos_default"
    by (simp_all add: pubsub_qos_default_def)
  with two_subscribers_alias [OF boot ps_params_default] boot show ?thesis by metis
qed

definition lone_publisher :: publisher where
  "lone_publisher = \<lparr>pub_service_name = ''svc'', pub_node_id = NodeId 1, pub_segment = 0, pub_channels = 0,
     pub_max_loaned = 4, pub_active_loans = 0, pub_payload = 8\<rparr>"

subsection \<open>No subscriber\<close>

definition lone_world :: "memory \<Rightarrow> data_segment \<Rightarrow> usize \<Rightarrow> world" where
  "lone_world mem d k = \<lparr>w_mem = mem, w_segs = [d], w_chans = [], w_lists = [[]], w_loans = [k]\<rparr>"

text \<open>Publishing \<open>n\<close> messages, reclaiming before each.\<close>

fun publish_n :: "nat \<Rightarrow> publisher \<Rightarrow> world \<Rightarrow> world option" where
  "publish_n 0 p w = Some w"
| "publish_n (Suc n) p w = do {
     w \<leftarrow> pub_reclaim p w;
     (r, w) \<leftarrow> pub_loan p w;
     case r of
       Err e \<Rightarrow> None
     | Ok m \<Rightarrow> do {
         (r, w) \<leftarrow> smu_send m w;
         case r of Err e \<Rightarrow> None | Ok _ \<Rightarrow> publish_n n p w
       }
   }"

lemma publish_lone:
  assumes p: "pub_shape p" and "ds_wf d" and "unat k + n \<le> unat (pub_max_loaned p)" and "n \<le> card (ds_free d)"
  shows "\<exists>mem' d'. publish_n n p (lone_world mem d k) = Some (lone_world mem' d' (k + of_nat n))"
  using assms(2-4)
proof (induction n arbitrary: mem d k)
  case (Suc n)
  have "ds_free d \<noteq> {}" using Suc.prems(3) by auto
  then obtain a d' where d': "ds_allocate d = Some (Ok a, d')" "ds_free d' = ds_free d - {a}" "a \<in> ds_free d" "ds_wf d'"
    using ds_allocate_free [OF Suc.prems(1)] by blast
  have k: "\<not> pub_max_loaned p \<le> k" using Suc.prems(2) by (simp add: word_le_nat_alt)
  have "unat k < 2 ^ 64 - 1" using Suc.prems(2) unat_bound [of "pub_max_loaned p"] by simp
  then have k1: "unat (k + 1) = Suc (unat k)" by (rule unat_incr)
  have card: "n \<le> card (ds_free d')"
    using Suc.prems(3) d'(2,3) ds.finite_free [OF Suc.prems(1)] by simp
  let ?mem = "write_bytes (ds_resolve_ptr d' a) 0 (pub_payload p) mem"
  have "publish_n (Suc n) p (lone_world mem d k) = publish_n n p (lone_world ?mem d' (k + 1))"
    using p d'(1) k
    by (simp add: lone_world_def pub_reclaim_def pub_loan_def smu_send_def pub_shape_def Let_def)
  then show ?case
    using Suc.IH [OF d'(4) _ card, of "k + 1" ?mem] Suc.prems(2) k1 by (simp add: algebra_simps)
qed (simp, blast)

text \<open>C33: a publisher without subscribers stops after \<open>max_loaned_samples\<close> messages. Each send
  succeeds and reaches nobody, so no chunk ever comes back: after that many messages every loan is
  refused, however often the publisher reclaims.\<close>

theorem no_subscriber_starves:
  assumes "pub_shape p" and "ds_wf d" and "unat (pub_max_loaned p) \<le> card (ds_free d)"
  shows "\<exists>w. publish_n (unat (pub_max_loaned p)) p (lone_world mem d 0) = Some w \<and>
    pub_reclaim p w = Some w \<and>
    pub_loan p w = Some (Err (LoanErr (ExceedsMaxLoans (pub_max_loaned p))), w)"
proof -
  obtain mem' d' where w: "publish_n (unat (pub_max_loaned p)) p (lone_world mem d 0) =
      Some (lone_world mem' d' (pub_max_loaned p))"
    using publish_lone [OF assms(1,2), of 0 "unat (pub_max_loaned p)" mem] assms(3) by auto
  moreover have "pub_reclaim p (lone_world mem' d' (pub_max_loaned p)) = Some (lone_world mem' d' (pub_max_loaned p))"
    using assms(1) by (simp add: lone_world_def pub_reclaim_def pub_shape_def)
  moreover have "pub_loan p (lone_world mem' d' (pub_max_loaned p)) =
      Some (Err (LoanErr (ExceedsMaxLoans (pub_max_loaned p))), lone_world mem' d' (pub_max_loaned p))"
    using assms(1) by (simp add: lone_world_def pub_loan_def pub_shape_def)
  ultimately show ?thesis by blast
qed

theorem no_subscriber_starves_witness:
  "\<exists>d w. publish_n 4 lone_publisher (lone_world (\<lambda>_. 0) d 0) = Some w \<and>
     pub_loan lone_publisher w = Some (Err (LoanErr (ExceedsMaxLoans 4)), w)"
proof -
  obtain d mem' where d: "ds_create nix_ok ''seg'' 8 4 0 (\<lambda>_. 0) = Some (Ok d, mem')" "ds_wf d"
      "ds_free d = ds_chunks d"
    using ds_create_ok by blast
  have "ds_chunk_count d = 4" using ds_create_OkD [OF layout_fits_ok d(1)] by simp
  then have "card (ds_free d) = 4" using card_ds_chunks [OF d(2)] d(3) by simp
  moreover have "pub_shape lone_publisher" "pub_max_loaned lone_publisher = 4"
    by (simp_all add: pub_shape_def lone_publisher_def)
  ultimately show ?thesis
    using no_subscriber_starves [OF _ d(2), of lone_publisher "\<lambda>_. 0"] by auto
qed

end
