(* ===== verification/Req_Res.thy ===== *)
theory Req_Res
  imports Pub_Sub
begin

text \<open>
  The request-response ports: \<open>port/client.rs\<close>, \<open>port/server.rs\<close> and the shared wiring of
  \<open>service/reqres.rs\<close> in \<open>crates/entangle/src\<close>. The world of the ports is extended by the lists of
  client wires that a server and its registration share. \<open>req\<close> and \<open>res\<close> are the sizes of the two
  payload types; a payload is the list of its bytes.
\<close>

record client_wire =
  cw_client_id :: node_id
  cw_request_channel :: nat
  cw_response_channel :: nat

record server_registration =
  sr_node_id :: node_id
  sr_segment :: nat
  sr_clients :: nat

record reqres_shared =
  rr_server :: "server_registration option"
  rr_service_name :: string

record rr_world = world +
  w_clients :: "client_wire list list"

record server =
  srv_service_name :: string
  srv_node_id :: node_id
  srv_segment :: nat
  srv_clients :: nat
  srv_req :: nat

record client =
  cli_service_name :: string
  cli_node_id :: node_id
  cli_segment :: nat
  cli_request_channel :: nat
  cli_response_channel :: nat
  cli_res :: nat

record pending_response =
  pre_segment :: nat
  pre_response_channel :: nat
  pre_res :: nat

record active_request =
  ar_request :: "u8 list"
  ar_response_channel :: nat
  ar_segment :: nat

subsection \<open>Creating the ports\<close>

definition srv_segment_name :: "string \<Rightarrow> node_id \<Rightarrow> string" where
  "srv_segment_name service node =
     ''entangle_'' @ replace_char CHR ''/'' CHR ''_'' service @ ''_reqres_'' @ hex_pad 32 (unat (nid node))"

text \<open>When a server is registered already, the segment just created is dropped again.\<close>

definition srv_create ::
  "nix \<Rightarrow> string \<Rightarrow> node_id \<Rightarrow> reqres_qos \<Rightarrow> nat \<Rightarrow> nat \<Rightarrow> reqres_shared \<Rightarrow> rr_world \<Rightarrow>
     ((server, ipc_error) result \<times> reqres_shared \<times> rr_world) option" where
  "srv_create os service node qos req res sh w =
     (let chunk_size = max (max (of_nat req) (of_nat res)) 8;
          chunk_count = ucast (max (max_pending_requests qos * 2) 16)
      in do {
        (r, mem) \<leftarrow> ds_create os (srv_segment_name service node) chunk_size chunk_count 0 (w_mem w);
        let w = w\<lparr>w_mem := mem\<rparr>;
        case r of
          Err e \<Rightarrow> Some (Err (IpcPlatform e), sh, w)
        | Ok segment \<Rightarrow>
            if rr_server sh \<noteq> None
            then do {
              _ \<leftarrow> shm_drop (ds_shm segment);
              Some (Err (IpcService (AlreadyExists service)), sh, w)
            }
            else
              let seg = length (w_segs w); cls = length (w_clients w);
                  w = w\<lparr>w_segs := w_segs w @ [segment], w_clients := w_clients w @ [[]]\<rparr>;
                  sh = sh\<lparr>rr_server := Some \<lparr>sr_node_id = node, sr_segment = seg, sr_clients = cls\<rparr>\<rparr>
              in Some (Ok \<lparr>srv_service_name = service, srv_node_id = node, srv_segment = seg,
                           srv_clients = cls, srv_req = req\<rparr>, sh, w)
      })"

definition cli_create ::
  "string \<Rightarrow> node_id \<Rightarrow> reqres_qos \<Rightarrow> nat \<Rightarrow> reqres_shared \<Rightarrow> rr_world \<Rightarrow>
     ((client, ipc_error) result \<times> rr_world) option" where
  "cli_create service node qos res sh w =
     (case rr_server sh of
        None \<Rightarrow> Some (Err (IpcService (NotFound service)), w)
      | Some reg \<Rightarrow> do {
          let capacity = max_pending_requests qos;
          let request = ch_connect (ch_new capacity (nid node) (nid (sr_node_id reg)));
          let response = ch_connect (ch_new capacity (nid (sr_node_id reg)) (nid node));
          let req_id = length (w_chans w);
          let res_id = Suc req_id;
          wires \<leftarrow> idx (w_clients w) (sr_clients reg);
          let wire = \<lparr>cw_client_id = node, cw_request_channel = req_id, cw_response_channel = res_id\<rparr>;
          let w = w\<lparr>w_chans := w_chans w @ [request, response],
                    w_clients := (w_clients w)[sr_clients reg := wires @ [wire]]\<rparr>;
          Some (Ok \<lparr>cli_service_name = service, cli_node_id = node, cli_segment = sr_segment reg,
                    cli_request_channel = req_id, cli_response_channel = res_id, cli_res = res\<rparr>, w)
        })"

subsection \<open>Requests and responses\<close>

text \<open>The common part of \<open>Client::send\<close> and \<open>ActiveRequest::respond\<close>: allocate a chunk of the segment,
  copy the value into it, and push its offset to a channel. When the push fails the chunk stays
  allocated.\<close>

definition post ::
  "nat \<Rightarrow> nat \<Rightarrow> u8 list \<Rightarrow> rr_world \<Rightarrow> ((unit, port_error) result \<times> rr_world) option" where
  "post seg ch value w = do {
     segment \<leftarrow> idx (w_segs w) seg;
     (r, segment) \<leftarrow> ds_allocate segment;
     let w = w\<lparr>w_segs := (w_segs w)[seg := segment]\<rparr>;
     case r of
       Err e \<Rightarrow> Some (Err (LoanErr e), w)
     | Ok offset \<Rightarrow> do {
         let w = w\<lparr>w_mem := ds_write segment offset value (w_mem w)\<rparr>;
         c \<leftarrow> idx (w_chans w) ch;
         (r, c) \<leftarrow> ch_send offset c;
         let w = w\<lparr>w_chans := (w_chans w)[ch := c]\<rparr>;
         Some (map_err SendErr r, w)
       }
   }"

definition cli_send ::
  "client \<Rightarrow> u8 list \<Rightarrow> rr_world \<Rightarrow> ((pending_response, port_error) result \<times> rr_world) option" where
  "cli_send c request w = do {
     (r, w) \<leftarrow> post (cli_segment c) (cli_request_channel c) request w;
     Some (map_ok (\<lambda>_. \<lparr>pre_segment = cli_segment c, pre_response_channel = cli_response_channel c,
                        pre_res = cli_res c\<rparr>) r, w)
   }"

definition ar_respond ::
  "active_request \<Rightarrow> u8 list \<Rightarrow> rr_world \<Rightarrow> ((unit, port_error) result \<times> rr_world) option" where
  "ar_respond a response w = post (ar_segment a) (ar_response_channel a) response w"

text \<open>The common part of \<open>Server::receive\<close> and \<open>PendingResponse::try_receive\<close>: pop an offset, copy the
  value out of its chunk, and free the chunk.\<close>

definition collect ::
  "nat \<Rightarrow> nat \<Rightarrow> nat \<Rightarrow> rr_world \<Rightarrow> ((u8 list, receive_error) result \<times> rr_world) option" where
  "collect seg ch n w = do {
     c \<leftarrow> idx (w_chans w) ch;
     (r, c) \<leftarrow> ch_receive c;
     let w = w\<lparr>w_chans := (w_chans w)[ch := c]\<rparr>;
     case r of
       Err e \<Rightarrow> Some (Err e, w)
     | Ok offset \<Rightarrow> do {
         segment \<leftarrow> idx (w_segs w) seg;
         let value = ds_read segment offset n (w_mem w);
         segment \<leftarrow> ds_deallocate offset segment;
         Some (Ok value, w\<lparr>w_segs := (w_segs w)[seg := segment]\<rparr>)
       }
   }"

fun srv_poll ::
  "nat \<Rightarrow> nat \<Rightarrow> client_wire list \<Rightarrow> rr_world \<Rightarrow> ((active_request option, port_error) result \<times> rr_world) option" where
  "srv_poll seg n [] w = Some (Ok None, w)"
| "srv_poll seg n (wire # wires) w = do {
     (r, w) \<leftarrow> collect seg (cw_request_channel wire) n w;
     case r of
       Ok request \<Rightarrow>
         Some (Ok (Some \<lparr>ar_request = request, ar_response_channel = cw_response_channel wire,
                         ar_segment = seg\<rparr>), w)
     | Err Empty \<Rightarrow> srv_poll seg n wires w
     | Err e \<Rightarrow> Some (Err (ReceiveErr e), w)
   }"

definition srv_receive ::
  "server \<Rightarrow> rr_world \<Rightarrow> ((active_request option, port_error) result \<times> rr_world) option" where
  "srv_receive s w = do {
     wires \<leftarrow> idx (w_clients w) (srv_clients s);
     srv_poll (srv_segment s) (srv_req s) wires w
   }"

definition pre_try_receive ::
  "pending_response \<Rightarrow> rr_world \<Rightarrow> ((u8 list option, port_error) result \<times> rr_world) option" where
  "pre_try_receive p w = do {
     (r, w) \<leftarrow> collect (pre_segment p) (pre_response_channel p) (pre_res p) w;
     Some (case r of
       Ok value \<Rightarrow> (Ok (Some value), w)
     | Err Empty \<Rightarrow> (Ok None, w)
     | Err e \<Rightarrow> (Err (ReceiveErr e), w))
   }"

text \<open>\<open>PendingResponse::receive\<close>: the loop, \<open>Spinning\<close> when the given number of turns found no response.\<close>

fun pre_receive ::
  "nat \<Rightarrow> pending_response \<Rightarrow> rr_world \<Rightarrow> ((u8 list, port_error) result \<times> rr_world) spin option" where
  "pre_receive 0 p w = Some Spinning"
| "pre_receive (Suc turns) p w = do {
     (r, w) \<leftarrow> pre_try_receive p w;
     case r of
       Err e \<Rightarrow> Some (Done (Err e, w))
     | Ok (Some value) \<Rightarrow> Some (Done (Ok value, w))
     | Ok None \<Rightarrow> pre_receive turns p w
   }"

subsection \<open>Chunks as letters\<close>

text \<open>The invariant of a segment whose chunks travel through channels: per channel, what was put into
  it is what was taken from it followed by the contents of the chunks in flight; a chunk is in
  flight once, in one channel, and is allocated. \<open>n k\<close> is the size of a letter of channel \<open>k\<close>.\<close>

definition mail_inv ::
  "(nat \<Rightarrow> nat) \<Rightarrow> data_segment \<Rightarrow> memory \<Rightarrow> channel list \<Rightarrow> (nat \<Rightarrow> u8 list list) \<Rightarrow> (nat \<Rightarrow> u8 list list) \<Rightarrow>
     bool" where
  "mail_inv n d mem cs put taken \<longleftrightarrow> ds_wf d \<and>
     (\<forall>k < length cs. n k \<le> unat (ds_chunk_size d) \<and> ch_wf (cs ! k) \<and> \<not> ch_closed (cs ! k) \<and>
        put k = taken k @ map (\<lambda>x. ds_read d x (n k) mem) (ch_inflight (cs ! k))) \<and>
     (\<Sum>c \<leftarrow> cs. mset (ch_inflight c)) \<subseteq># mset_set (ds_out d)"

lemma sum_mset_update:
  assumes "k < length cs"
  shows "(\<Sum>c \<leftarrow> cs[k := c']. f c) + f (cs ! k) = (\<Sum>c \<leftarrow> cs. f c) + (f c' :: 'a::comm_monoid_add)"
  using assms
proof (induction cs arbitrary: k)
  case (Cons c cs)
  then show ?case by (cases k) (simp_all add: ac_simps)
qed simp

lemma sum_mset_member: "k < length cs \<Longrightarrow> x \<in># f (cs ! k) \<Longrightarrow> x \<in># (\<Sum>c \<leftarrow> cs. f c)"
  by (induction cs arbitrary: k) (auto simp: less_Suc_eq_0_disj)

lemma mail_inv_out:
  assumes "mail_inv n d mem cs put taken" and "k < length cs" and "x \<in> set (ch_inflight (cs ! k))"
  shows "x \<in> ds_out d" and "x \<in> ds_chunks d"
proof -
  have "x \<in># (\<Sum>c \<leftarrow> cs. mset (ch_inflight c))"
    using assms(2,3) by (intro sum_mset_member) simp_all
  then show "x \<in> ds_out d"
    using assms(1) unfolding mail_inv_def by (metis finite_ds_out finite_set_mset_mset_set mset_subset_eqD)
  then show "x \<in> ds_chunks d" by (rule ds_out_chunks)
qed

text \<open>Posting a letter: whether or not the channel takes it, the letters in flight keep their contents.\<close>

lemma mail_post:
  assumes inv: "mail_inv n d mem cs put taken" and k: "k < length cs" and len: "length bs = n k"
    and alloc: "a \<in> ds_free d" "ds_free d' = ds_free d - {a}" "ds_wf d'" "ds_same d' d"
    and send: "ch_send a (cs ! k) = Some (r, c')"
  shows "mail_inv n d' (ds_write d' a bs mem) (cs[k := c'])
    (if is_Ok r then put(k := put k @ [bs]) else put) taken"
proof -
  let ?mem = "ds_write d' a bs mem" and ?put = "if is_Ok r then put(k := put k @ [bs]) else put"
  have wf: "ds_wf d" and c: "ch_wf (cs ! k)" "\<not> ch_closed (cs ! k)" using inv k by (auto simp: mail_inv_def)
  note out = ds_out_allocate [OF wf alloc(1,2,4)]
  have size: "ds_chunk_size d' = ds_chunk_size d" using alloc(4) by (simp add: ds_same_def)
  have written: "ds_write d' a bs mem = ds_write d a bs mem"
    using ds_same_resolve [OF alloc(4)] by (simp add: ds_write_def)
  have old: "ds_read d' x (n j) ?mem = ds_read d x (n j) mem"
    if "j < length cs" "x \<in> set (ch_inflight (cs ! j))" for j x
  proof -
    have "x \<in> ds_chunks d" "a \<noteq> x" using mail_inv_out [OF inv that] out(2) by auto
    moreover have "n j \<le> unat (ds_chunk_size d)" "n k \<le> unat (ds_chunk_size d)"
      using inv that(1) k by (auto simp: mail_inv_def)
    ultimately show ?thesis
      unfolding written ds_same_read [OF alloc(4)] by (intro ds_read_write_other [OF wf out(3)]) (simp_all add: len)
  qed
  have new: "ds_read d' a (n k) ?mem = bs"
    unfolding written ds_same_read [OF alloc(4)] len [symmetric]
    using inv k len by (intro ds_read_write_same [OF wf out(3)]) (simp add: mail_inv_def)
  obtain c'_eq: "ch_wf c'" "\<not> ch_closed c'"
      "ch_inflight c' = ch_inflight (cs ! k) @ (if is_Ok r then [a] else [])"
    using ch.send_total [OF c(1), of a] send c by (auto split: result.splits)
  have logs: "n j \<le> unat (ds_chunk_size d') \<and> ch_wf (cs[k := c'] ! j) \<and> \<not> ch_closed (cs[k := c'] ! j) \<and>
      ?put j = taken j @ map (\<lambda>x. ds_read d' x (n j) ?mem) (ch_inflight (cs[k := c'] ! j))"
    if "j < length cs" for j
  proof -
    have "put j = taken j @ map (\<lambda>x. ds_read d' x (n j) ?mem) (ch_inflight (cs ! j))"
      using inv that old [OF that] by (simp add: mail_inv_def cong: map_cong)
    then show ?thesis
      using inv that c'_eq new size by (cases "j = k") (auto simp: mail_inv_def)
  qed
  have "(\<Sum>c \<leftarrow> cs[k := c']. mset (ch_inflight c)) = (\<Sum>c \<leftarrow> cs. mset (ch_inflight c)) + (if is_Ok r then {#a#} else {#})"
    using sum_mset_update [OF k, of "\<lambda>c. mset (ch_inflight c)" c'] c'_eq(3) by (auto split: if_splits)
  moreover have "mset_set (ds_out d') = add_mset a (mset_set (ds_out d))" using out by simp
  moreover have "(\<Sum>c \<leftarrow> cs. mset (ch_inflight c)) \<subseteq># mset_set (ds_out d)" using inv by (simp add: mail_inv_def)
  ultimately have "(\<Sum>c \<leftarrow> cs[k := c']. mset (ch_inflight c)) \<subseteq># mset_set (ds_out d')"
    by (auto intro: subset_mset.order_trans)
  then show ?thesis using logs alloc(3) by (simp add: mail_inv_def)
qed

text \<open>Taking the first letter of a channel.\<close>

lemma mail_take:
  assumes inv: "mail_inv n d mem cs put taken" and k: "k < length cs" and flight: "ch_inflight (cs ! k) = x # xs"
  obtains c' d' where "ch_receive (cs ! k) = Some (Ok x, c')" "ds_deallocate x d = Some d'" "ds_same d' d"
    "ds_out d' = ds_out d - {x}"
    "mail_inv n d' mem (cs[k := c']) put (taken(k := taken k @ [ds_read d x (n k) mem]))"
proof -
  have wf: "ds_wf d" and c: "ch_wf (cs ! k)" "\<not> ch_closed (cs ! k)" using inv k by (auto simp: mail_inv_def)
  obtain c' where c': "ch_receive (cs ! k) = Some (Ok x, c')" "ch_inflight c' = xs" "ch_wf c'" "\<not> ch_closed c'"
    using ch.receive_Cons [OF c(1) flight] c(2) by auto
  have x: "x \<in> ds_out d" using mail_inv_out [OF inv k] flight by simp
  obtain d' where d': "ds_deallocate x d = Some d'" "ds_out d' = ds_out d - {x}" "ds_wf d'" "ds_same d' d"
    using ds_out_deallocate [OF wf x] .
  have "(\<Sum>c \<leftarrow> cs. mset (ch_inflight c)) = add_mset x (\<Sum>c \<leftarrow> cs[k := c']. mset (ch_inflight c))"
    using sum_mset_update [OF k, of "\<lambda>c. mset (ch_inflight c)" c'] c'(2) flight by simp
  moreover have "mset_set (ds_out d) = add_mset x (mset_set (ds_out d'))"
    using x unfolding d'(2) by (simp add: mset_set.remove)
  moreover have "(\<Sum>c \<leftarrow> cs. mset (ch_inflight c)) \<subseteq># mset_set (ds_out d)" using inv by (simp add: mail_inv_def)
  ultimately have "(\<Sum>c \<leftarrow> cs[k := c']. mset (ch_inflight c)) \<subseteq># mset_set (ds_out d')" by simp
  moreover have "n j \<le> unat (ds_chunk_size d') \<and> ch_wf (cs[k := c'] ! j) \<and> \<not> ch_closed (cs[k := c'] ! j) \<and>
      put j = (taken(k := taken k @ [ds_read d x (n k) mem])) j @
        map (\<lambda>x. ds_read d' x (n j) mem) (ch_inflight (cs[k := c'] ! j))" if "j < length cs" for j
    using inv that c' flight d'(4) ds_same_read [OF d'(4)]
    by (cases "j = k") (auto simp: mail_inv_def ds_same_def)
  ultimately have "mail_inv n d' mem (cs[k := c']) put (taken(k := taken k @ [ds_read d x (n k) mem]))"
    using d'(3) by (simp add: mail_inv_def)
  then show ?thesis using that c'(1) d' by blast
qed

end
