(* ===== verification/Req_Res_Safety.thy ===== *)
theory Req_Res_Safety
  imports Req_Res
begin

text \<open>
  One server and any number of clients, from the creation of the server on: every request and every
  response arrives unchanged, in order, at the port it was meant for. The steps are whole port
  operations in any order; \<open>rr_put\<close> and \<open>rr_taken\<close> record, per channel, the payloads put into it and
  taken out of it.
\<close>

subsection \<open>The system\<close>

record rr_sys =
  rw :: rr_world
  rr_clients :: "client list"
  rr_pending :: "pending_response list"
  rr_active :: "active_request list"
  rr_put :: "nat \<Rightarrow> u8 list list"
  rr_taken :: "nat \<Rightarrow> u8 list list"

definition log :: "nat \<Rightarrow> u8 list \<Rightarrow> (nat \<Rightarrow> u8 list list) \<Rightarrow> nat \<Rightarrow> u8 list list" where
  "log k v f = f(k := f k @ [v])"

inductive rr_step :: "server \<Rightarrow> reqres_shared \<Rightarrow> nat \<Rightarrow> nat \<Rightarrow> rr_sys \<Rightarrow> rr_sys \<Rightarrow> bool" for srv sh req res where
  connect: "cli_create service node qos res sh (rw s) = Some (Ok c, w) \<Longrightarrow>
    rr_step srv sh req res s (s\<lparr>rw := w, rr_clients := rr_clients s @ [c]\<rparr>)"
| send: "c \<in> set (rr_clients s) \<Longrightarrow> length v = req \<Longrightarrow> cli_send c v (rw s) = Some (Ok p, w) \<Longrightarrow>
    rr_step srv sh req res s (s\<lparr>rw := w, rr_pending := p # rr_pending s,
      rr_put := log (cli_request_channel c) v (rr_put s)\<rparr>)"
| send_failed: "c \<in> set (rr_clients s) \<Longrightarrow> length v = req \<Longrightarrow> cli_send c v (rw s) = Some (Err e, w) \<Longrightarrow>
    rr_step srv sh req res s (s\<lparr>rw := w\<rparr>)"
| receive: "srv_receive srv (rw s) = Some (Ok (Some a), w) \<Longrightarrow>
    rr_step srv sh req res s (s\<lparr>rw := w, rr_active := a # rr_active s,
      rr_taken := log (ar_response_channel a - 1) (ar_request a) (rr_taken s)\<rparr>)"
| receive_none: "srv_receive srv (rw s) = Some (Ok None, w) \<Longrightarrow> rr_step srv sh req res s (s\<lparr>rw := w\<rparr>)"
| respond: "a \<in> set (rr_active s) \<Longrightarrow> length v = res \<Longrightarrow> ar_respond a v (rw s) = Some (Ok _, w) \<Longrightarrow>
    rr_step srv sh req res s (s\<lparr>rw := w, rr_active := remove1 a (rr_active s),
      rr_put := log (ar_response_channel a) v (rr_put s)\<rparr>)"
| respond_failed: "a \<in> set (rr_active s) \<Longrightarrow> length v = res \<Longrightarrow> ar_respond a v (rw s) = Some (Err e, w) \<Longrightarrow>
    rr_step srv sh req res s (s\<lparr>rw := w, rr_active := remove1 a (rr_active s)\<rparr>)"
| take_response: "p \<in> set (rr_pending s) \<Longrightarrow> pre_try_receive p (rw s) = Some (Ok (Some v), w) \<Longrightarrow>
    rr_step srv sh req res s (s\<lparr>rw := w, rr_taken := log (pre_response_channel p) v (rr_taken s)\<rparr>)"
| take_none: "p \<in> set (rr_pending s) \<Longrightarrow> pre_try_receive p (rw s) = Some (Ok None, w) \<Longrightarrow>
    rr_step srv sh req res s (s\<lparr>rw := w\<rparr>)"

definition rr_start :: "rr_world \<Rightarrow> rr_sys" where
  "rr_start w = \<lparr>rw = w, rr_clients = [], rr_pending = [], rr_active = [], rr_put = (\<lambda>_. []),
     rr_taken = (\<lambda>_. [])\<rparr>"

inductive rr_reach :: "server \<Rightarrow> reqres_shared \<Rightarrow> nat \<Rightarrow> nat \<Rightarrow> rr_world \<Rightarrow> rr_sys \<Rightarrow> bool" for srv sh req res w0 where
  rr_init: "rr_reach srv sh req res w0 (rr_start w0)"
| rr_next: "rr_reach srv sh req res w0 s \<Longrightarrow> rr_step srv sh req res s s' \<Longrightarrow> rr_reach srv sh req res w0 s'"

definition rr_empty :: "memory \<Rightarrow> rr_world" where
  "rr_empty mem = \<lparr>w_mem = mem, w_segs = [], w_chans = [], w_lists = [], w_loans = [], w_clients = []\<rparr>"

definition rr_fresh :: "string \<Rightarrow> reqres_shared" where
  "rr_fresh service = \<lparr>rr_server = None, rr_service_name = service\<rparr>"

definition rr_params_ok :: "reqres_qos \<Rightarrow> nat \<Rightarrow> nat \<Rightarrow> bool" where
  "rr_params_ok qos req res \<longleftrightarrow> req < 2 ^ 48 \<and> res < 2 ^ 48 \<and>
     layout_fits (max (max (of_nat req) (of_nat res)) 8) (ucast (max (max_pending_requests qos * 2) 16))"

subsection \<open>The invariant\<close>

text \<open>Client number \<open>i\<close> has the channels \<open>2 * i\<close> for requests and \<open>2 * i + 1\<close> for responses.\<close>

definition letter :: "nat \<Rightarrow> nat \<Rightarrow> nat \<Rightarrow> nat" where
  "letter req res k = (if even k then req else res)"

definition rr_wired :: "client_wire list \<Rightarrow> client list \<Rightarrow> nat \<Rightarrow> nat \<Rightarrow> bool" where
  "rr_wired wires cls chans res \<longleftrightarrow> length cls = length wires \<and> chans = 2 * length wires \<and>
     (\<forall>i < length wires. cw_request_channel (wires ! i) = 2 * i \<and> cw_response_channel (wires ! i) = 2 * i + 1 \<and>
        cli_segment (cls ! i) = 0 \<and> cli_request_channel (cls ! i) = 2 * i \<and>
        cli_response_channel (cls ! i) = 2 * i + 1 \<and> cli_res (cls ! i) = res)"

definition rr_handles :: "rr_sys \<Rightarrow> nat \<Rightarrow> bool" where
  "rr_handles s res \<longleftrightarrow>
     (\<forall>p \<in> set (rr_pending s). pre_segment p = 0 \<and> pre_res p = res \<and>
        (\<exists>i < length (rr_clients s). pre_response_channel p = 2 * i + 1)) \<and>
     (\<forall>a \<in> set (rr_active s). ar_segment a = 0 \<and>
        (\<exists>i < length (rr_clients s). ar_response_channel a = 2 * i + 1 \<and> ar_request a \<in> set (rr_taken s (2 * i))))"

definition rr_inv :: "nat \<Rightarrow> nat \<Rightarrow> rr_sys \<Rightarrow> data_segment \<Rightarrow> client_wire list \<Rightarrow> bool" where
  "rr_inv req res s d wires \<longleftrightarrow> w_segs (rw s) = [d] \<and> w_clients (rw s) = [wires] \<and>
     rr_wired wires (rr_clients s) (length (w_chans (rw s))) res \<and>
     mail_inv (letter req res) d (w_mem (rw s)) (w_chans (rw s)) (rr_put s) (rr_taken s) \<and>
     req \<le> unat (ds_chunk_size d) \<and> res \<le> unat (ds_chunk_size d) \<and> rr_handles s res \<and>
     (\<forall>k \<ge> length (w_chans (rw s)). rr_put s k = [] \<and> rr_taken s k = [])"

subsection \<open>The two halves of a delivery\<close>

lemma post_result:
  assumes inv: "mail_inv n d (w_mem w) (w_chans w) put taken" and segs: "w_segs w = [d]"
    and k: "k < length (w_chans w)" and len: "length v = n k"
  obtains (full) "ds_free d = {}" "post 0 k v w = Some (Err (LoanErr OutOfMemory), w)"
  | (posted) r w' d' a where "post 0 k v w = Some (map_err SendErr r, w')" "w_segs w' = [d']" "ds_same d' d"
      "w_clients w' = w_clients w" "length (w_chans w') = length (w_chans w)"
      "mail_inv n d' (w_mem w') (w_chans w') (if is_Ok r then log k v put else put) taken"
      "card (ds_out d') = Suc (card (ds_out d))"
      "\<And>j. ch_bound (w_chans w' ! j) = ch_bound (w_chans w ! j)"
      "ch_inflight (w_chans w' ! k) = ch_inflight (w_chans w ! k) @ (if is_Ok r then [a] else [])"
      "if length (ch_inflight (w_chans w ! k)) < ch_bound (w_chans w ! k) then is_Ok r
       else r = Err QueueFull \<and> w_chans w' = w_chans w"
proof (cases "ds_free d = {}")
  case True
  have "ds_wf d" using inv by (simp add: mail_inv_def)
  with ds_allocate_full [OF this True] have "post 0 k v w = Some (Err (LoanErr OutOfMemory), w\<lparr>w_segs := [d]\<rparr>)"
    using segs by (simp add: post_def)
  moreover have "w\<lparr>w_segs := [d]\<rparr> = w" using segs by simp
  ultimately show ?thesis using True full by simp
next
  case False
  have wf: "ds_wf d" and c: "ch_wf (w_chans w ! k)" "\<not> ch_closed (w_chans w ! k)"
    using inv k by (auto simp: mail_inv_def)
  obtain a d' where a: "ds_allocate d = Some (Ok a, d')" "a \<in> ds_free d" "ds_free d' = ds_free d - {a}"
      "ds_wf d'" "ds_same d' d"
    using ds_allocate_free [OF wf False] by blast
  let ?c = "w_chans w ! k"
  obtain r c' where send: "ch_send a ?c = Some (r, c')"
      and r: "ch_bound c' = ch_bound ?c" "ch_inflight c' = ch_inflight ?c @ (if is_Ok r then [a] else [])"
        "if length (ch_inflight ?c) < ch_bound ?c then is_Ok r else r = Err QueueFull \<and> c' = ?c"
  proof (cases "length (ch_inflight ?c) < ch_bound ?c")
    case True
    then obtain c' where "ch_send a ?c = Some (Ok (), c')" "ch_bound c' = ch_bound ?c"
        "ch_inflight c' = ch_inflight ?c @ [a]"
      using ch.send_room [OF c True] by blast
    then show ?thesis using that [of "Ok ()" c'] True by simp
  next
    case False
    then have "length (ch_inflight ?c) = ch_bound ?c" using ch.inflight_bound [OF c(1)] by simp
    then show ?thesis using that [of "Err QueueFull" ?c] ch.send_full [OF c] False by simp
  qed
  let ?w = "w\<lparr>w_segs := [d'], w_mem := ds_write d' a v (w_mem w), w_chans := (w_chans w)[k := c']\<rparr>"
  note out = ds_out_allocate [OF wf a(2,3,5)]
  have "post 0 k v w = Some (map_err SendErr r, ?w)"
    using segs a(1) k send by (simp add: post_def)
  then show ?thesis
    by (rule posted [of r ?w d' a])
      (use mail_post [OF inv k len a(2-5) send] a(5) out r k in \<open>auto simp: log_def nth_list_update split: if_splits\<close>)
qed

lemma collect_result:
  assumes inv: "mail_inv n d (w_mem w) (w_chans w) put taken" and segs: "w_segs w = [d]"
    and k: "k < length (w_chans w)"
  obtains (none) "put k = taken k" "collect 0 k (n k) w = Some (Err Empty, w)"
  | (some) v w' d' where "collect 0 k (n k) w = Some (Ok v, w')" "w_segs w' = [d']" "ds_same d' d"
      "w_clients w' = w_clients w" "length (w_chans w') = length (w_chans w)" "w_mem w' = w_mem w"
      "mail_inv n d' (w_mem w') (w_chans w') put (log k v taken)"
      "length (taken k) < length (put k)" "v = put k ! length (taken k)"
      "\<And>j. ch_bound (w_chans w' ! j) = ch_bound (w_chans w ! j)" "ds_free d' \<noteq> {}"
proof (cases "ch_inflight (w_chans w ! k)")
  case Nil
  have c: "ch_wf (w_chans w ! k)" "\<not> ch_closed (w_chans w ! k)" using inv k by (auto simp: mail_inv_def)
  have "collect 0 k (n k) w = Some (Err Empty, w\<lparr>w_chans := (w_chans w)[k := w_chans w ! k]\<rparr>)"
    using ch.receive_none [OF c(1) Nil] c(2) k by (simp add: collect_def)
  moreover have "put k = taken k" using inv k Nil by (simp add: mail_inv_def)
  ultimately show ?thesis using none by simp
next
  case (Cons x xs)
  let ?v = "ds_read d x (n k) (w_mem w)"
  obtain c' d' where cd: "ch_receive (w_chans w ! k) = Some (Ok x, c')" "ds_deallocate x d = Some d'"
      "ds_same d' d" "ds_out d' = ds_out d - {x}" and inv': "mail_inv n d' (w_mem w) ((w_chans w)[k := c']) put (taken(k := taken k @ [?v]))"
    using mail_take [OF inv k Cons] by metis
  let ?w = "w\<lparr>w_chans := (w_chans w)[k := c'], w_segs := [d']\<rparr>"
  have "ch_bound c' = ch_bound (w_chans w ! k)"
    using ch.receive_Cons [OF _ Cons] cd(1) inv k by (auto simp: mail_inv_def)
  then have bound: "ch_bound ((w_chans w)[k := c'] ! j) = ch_bound (w_chans w ! j)" for j
    using k by (cases "j = k") simp_all
  have "x \<in> ds_chunks d'" "x \<notin> ds_out d'"
    using mail_inv_out(2) [OF inv k] Cons cd(4) ds_same_chunks [OF cd(3)] by auto
  then have "ds_free d' \<noteq> {}" by (auto simp: ds_out_def)
  moreover have "put k = taken k @ ?v # map (\<lambda>x. ds_read d x (n k) (w_mem w)) xs"
    using inv k Cons by (simp add: mail_inv_def)
  moreover have "collect 0 k (n k) w = Some (Ok ?v, ?w)"
    using cd segs k by (simp add: collect_def)
  ultimately show ?thesis
    by (intro some [of ?v ?w d']) (use cd(3) inv' bound in \<open>simp_all add: log_def\<close>)
qed

text \<open>The server takes the oldest request of the first client that has one.\<close>

lemma srv_poll_result:
  assumes inv: "mail_inv n d (w_mem w) (w_chans w) put taken" and segs: "w_segs w = [d]"
    and wires: "\<forall>wire \<in> set wires. cw_request_channel wire < length (w_chans w) \<and> n (cw_request_channel wire) = req"
  obtains (none) "\<forall>wire \<in> set wires. put (cw_request_channel wire) = taken (cw_request_channel wire)"
      "srv_poll 0 req wires w = Some (Ok None, w)"
  | (some) wire v w' d' where "wire \<in> set wires"
      "srv_poll 0 req wires w = Some (Ok (Some \<lparr>ar_request = v, ar_response_channel = cw_response_channel wire,
         ar_segment = 0\<rparr>), w')" "w_segs w' = [d']" "ds_same d' d" "w_clients w' = w_clients w"
      "length (w_chans w') = length (w_chans w)" "w_mem w' = w_mem w"
      "mail_inv n d' (w_mem w') (w_chans w') put (log (cw_request_channel wire) v taken)"
proof -
  have "(\<forall>wire \<in> set wires. put (cw_request_channel wire) = taken (cw_request_channel wire)) \<and>
      srv_poll 0 req wires w = Some (Ok None, w) \<or>
    (\<exists>wire \<in> set wires. \<exists>v w' d'. srv_poll 0 req wires w =
        Some (Ok (Some \<lparr>ar_request = v, ar_response_channel = cw_response_channel wire, ar_segment = 0\<rparr>), w') \<and>
      w_segs w' = [d'] \<and> ds_same d' d \<and> w_clients w' = w_clients w \<and>
      length (w_chans w') = length (w_chans w) \<and> w_mem w' = w_mem w \<and>
      mail_inv n d' (w_mem w') (w_chans w') put (log (cw_request_channel wire) v taken))"
    using wires
  proof (induction wires)
    case (Cons wire wires)
    let ?k = "cw_request_channel wire"
    from Cons.prems have k: "?k < length (w_chans w)" "n ?k = req" by auto
    show ?case
      using inv segs k(1)
    proof (cases rule: collect_result [where ?n = n and ?taken = taken])
      case none
      with Cons k(2) show ?thesis by auto
    next
      case (some v w' d')
      then show ?thesis using k(2) by (intro disjI2 bexI [of _ wire] exI [of _ v] exI [of _ w'] exI [of _ d']) simp_all
    qed
  qed simp
  then show ?thesis using none some by blast
qed

subsection \<open>Every step keeps the invariant\<close>

lemma rr_client_index:
  assumes "rr_wired wires cls chans res" and "c \<in> set cls"
  obtains i where "i < length wires" "c = cls ! i" "cli_segment c = 0" "cli_request_channel c = 2 * i"
    "cli_response_channel c = 2 * i + 1" "cli_res c = res" "2 * i < chans" "2 * i + 1 < chans"
proof -
  obtain i where "i < length cls" "c = cls ! i" using assms(2) by (auto simp: in_set_conv_nth)
  with assms(1) show ?thesis using that [of i] by (simp add: rr_wired_def)
qed

text \<open>A post to a channel of the system, successful or not.\<close>

lemma rr_inv_post:
  assumes inv: "rr_inv req res s d wires" and k: "k < length (w_chans (rw s))" and len: "length v = letter req res k"
    and post: "post 0 k v (rw s) = Some (r, w)"
    and put: "f = (if is_Ok r then log k v (rr_put s) else rr_put s)"
    and s': "rw s' = w" "rr_put s' = f" "rr_clients s' = rr_clients s" "rr_taken s' = rr_taken s" "rr_handles s' res"
  shows "\<exists>d. rr_inv req res s' d wires"
proof -
  have mail: "mail_inv (letter req res) d (w_mem (rw s)) (w_chans (rw s)) (rr_put s) (rr_taken s)"
    and segs: "w_segs (rw s) = [d]"
    using inv by (auto simp: rr_inv_def)
  show ?thesis
    using mail segs k len
  proof (cases rule: post_result)
    case full
    then have "rr_inv req res s' d wires" using inv post put s' by (simp add: rr_inv_def)
    then show ?thesis by blast
  next
    case (posted r0 w' d' a)
    have "is_Ok r = is_Ok r0" "w = w'" using posted(1) post by (cases r0; auto)+
    then have "rr_inv req res s' d' wires"
      using inv posted k put s' by (auto simp: rr_inv_def ds_same_def log_def split: if_splits)
    then show ?thesis by blast
  qed
qed

lemma rr_inv_connect:
  assumes inv: "rr_inv req res s d wires" and sh: "rr_server sh = Some reg" "sr_segment reg = 0" "sr_clients reg = 0"
    and create: "cli_create service node qos res sh (rw s) = Some (Ok c, w)"
  shows "\<exists>wires. rr_inv req res (s\<lparr>rw := w, rr_clients := rr_clients s @ [c]\<rparr>) d wires"
proof -
  let ?n = "length (w_chans (rw s))" and ?wire = "\<lparr>cw_client_id = node,
    cw_request_channel = length (w_chans (rw s)), cw_response_channel = Suc (length (w_chans (rw s)))\<rparr>"
  let ?a = "ch_connect (ch_new (max_pending_requests qos) (nid node) (nid (sr_node_id reg)))"
  let ?b = "ch_connect (ch_new (max_pending_requests qos) (nid (sr_node_id reg)) (nid node))"
  have cls: "w_clients (rw s) = [wires]" using inv by (simp add: rr_inv_def)
  have c: "c = \<lparr>cli_service_name = service, cli_node_id = node, cli_segment = 0, cli_request_channel = ?n,
      cli_response_channel = Suc ?n, cli_res = res\<rparr>"
    and w: "w = (rw s)\<lparr>w_chans := w_chans (rw s) @ [?a, ?b], w_clients := [wires @ [?wire]]\<rparr>"
    using create cls sh by (auto simp: cli_create_def Let_def)
  have wired: "rr_wired (wires @ [?wire]) (rr_clients s @ [c]) (Suc (Suc ?n)) res"
    using inv c unfolding rr_inv_def rr_wired_def by (auto simp: nth_append less_Suc_eq)
  have "mail_inv (letter req res) d (w_mem (rw s)) (w_chans (rw s) @ [?a, ?b]) (rr_put s) (rr_taken s)"
  proof -
    have "letter req res k \<le> unat (ds_chunk_size d)" for k using inv by (simp add: rr_inv_def letter_def)
    moreover have "rr_put s k = [] \<and> rr_taken s k = []" if "?n \<le> k" for k using inv that by (simp add: rr_inv_def)
    ultimately show ?thesis
      using inv unfolding rr_inv_def mail_inv_def by (auto simp: nth_append less_Suc_eq)
  qed
  moreover have "rr_handles (s\<lparr>rw := w, rr_clients := rr_clients s @ [c]\<rparr>) res"
    using inv unfolding rr_inv_def rr_handles_def by (auto simp: less_Suc_eq; blast)
  ultimately have "rr_inv req res (s\<lparr>rw := w, rr_clients := rr_clients s @ [c]\<rparr>) d (wires @ [?wire])"
    using inv w wired unfolding rr_inv_def by simp
  then show ?thesis by blast
qed

lemma rr_wires_ok:
  assumes "rr_inv req res s d wires"
  shows "\<forall>wire \<in> set wires. cw_request_channel wire < length (w_chans (rw s)) \<and>
    letter req res (cw_request_channel wire) = req"
  using assms by (auto simp: rr_inv_def rr_wired_def letter_def in_set_conv_nth)

lemma rr_inv_receive:
  assumes inv: "rr_inv req res s d wires" and srv: "srv_segment srv = 0" "srv_clients srv = 0" "srv_req srv = req"
    and run: "srv_receive srv (rw s) = Some (Ok (Some a), w)"
  shows "\<exists>d. rr_inv req res (s\<lparr>rw := w, rr_active := a # rr_active s,
    rr_taken := log (ar_response_channel a - 1) (ar_request a) (rr_taken s)\<rparr>) d wires"
proof -
  have mail: "mail_inv (letter req res) d (w_mem (rw s)) (w_chans (rw s)) (rr_put s) (rr_taken s)"
    and segs: "w_segs (rw s) = [d]" and poll: "srv_poll 0 req wires (rw s) = Some (Ok (Some a), w)"
    using inv srv run by (auto simp: rr_inv_def srv_receive_def)
  show ?thesis
    using mail segs rr_wires_ok [OF inv]
  proof (cases rule: srv_poll_result)
    case none
    then show ?thesis using poll by simp
  next
    case (some wire v w' d')
    have a: "a = \<lparr>ar_request = v, ar_response_channel = cw_response_channel wire, ar_segment = 0\<rparr>" "w = w'"
      using poll some(2) by auto
    obtain i where i: "i < length wires" "cw_request_channel wire = 2 * i" "cw_response_channel wire = 2 * i + 1"
      using some(1) inv by (auto simp: rr_inv_def rr_wired_def in_set_conv_nth)
    have len: "length (rr_clients s) = length wires" "length (w_chans (rw s)) = 2 * length wires"
      using inv by (auto simp: rr_inv_def rr_wired_def)
    have "rr_handles (s\<lparr>rw := w, rr_active := a # rr_active s,
        rr_taken := log (ar_response_channel a - 1) (ar_request a) (rr_taken s)\<rparr>) res"
      using inv a i len unfolding rr_inv_def rr_handles_def by (fastforce simp: log_def)
    then have "rr_inv req res (s\<lparr>rw := w, rr_active := a # rr_active s,
        rr_taken := log (ar_response_channel a - 1) (ar_request a) (rr_taken s)\<rparr>) d' wires"
      using inv some a i len by (auto simp: rr_inv_def ds_same_def log_def)
    then show ?thesis by blast
  qed
qed

lemma rr_pending_index:
  assumes "rr_inv req res s d wires" and "p \<in> set (rr_pending s)"
  obtains i where "i < length wires" "pre_segment p = 0" "pre_res p = letter req res (2 * i + 1)"
    "pre_response_channel p = 2 * i + 1" "2 * i + 1 < length (w_chans (rw s))"
proof -
  obtain i where "i < length (rr_clients s)" "pre_response_channel p = 2 * i + 1" "pre_segment p = 0" "pre_res p = res"
    using assms by (auto simp: rr_inv_def rr_handles_def)
  then show ?thesis using that [of i] assms(1) by (simp add: rr_inv_def rr_wired_def letter_def)
qed

lemma rr_inv_take:
  assumes inv: "rr_inv req res s d wires" and p: "p \<in> set (rr_pending s)"
    and run: "pre_try_receive p (rw s) = Some (Ok (Some v), w)"
  shows "\<exists>d. rr_inv req res (s\<lparr>rw := w, rr_taken := log (pre_response_channel p) v (rr_taken s)\<rparr>) d wires"
proof -
  have mail: "mail_inv (letter req res) d (w_mem (rw s)) (w_chans (rw s)) (rr_put s) (rr_taken s)"
    and segs: "w_segs (rw s) = [d]" using inv by (auto simp: rr_inv_def)
  obtain i where i: "i < length wires" "pre_segment p = 0" "pre_res p = letter req res (2 * i + 1)"
      "pre_response_channel p = 2 * i + 1" "2 * i + 1 < length (w_chans (rw s))"
    using rr_pending_index [OF inv p] .
  show ?thesis
    using mail segs i(5)
  proof (cases rule: collect_result)
    case none
    then show ?thesis using run i by (simp add: pre_try_receive_def)
  next
    case (some v' w' d')
    have vw: "v = v'" "w = w'" using run some(1) i by (auto simp: pre_try_receive_def)
    have "rr_handles (s\<lparr>rw := w, rr_taken := log (pre_response_channel p) v (rr_taken s)\<rparr>) res"
      using inv i unfolding rr_inv_def rr_handles_def by (fastforce simp: log_def)
    then have "rr_inv req res (s\<lparr>rw := w, rr_taken := log (pre_response_channel p) v (rr_taken s)\<rparr>) d' wires"
      using inv some vw i by (auto simp: rr_inv_def ds_same_def log_def)
    then show ?thesis by blast
  qed
qed

text \<open>The ports of a server that registered first in an empty world.\<close>

definition rr_shape :: "server \<Rightarrow> reqres_shared \<Rightarrow> nat \<Rightarrow> bool" where
  "rr_shape srv sh req \<longleftrightarrow> srv_segment srv = 0 \<and> srv_clients srv = 0 \<and> srv_req srv = req \<and>
     (\<exists>reg. rr_server sh = Some reg \<and> sr_segment reg = 0 \<and> sr_clients reg = 0)"

lemma rr_active_index:
  assumes "rr_inv req res s d wires" and "a \<in> set (rr_active s)"
  obtains i where "i < length wires" "ar_segment a = 0" "ar_response_channel a = 2 * i + 1"
    "2 * i + 1 < length (w_chans (rw s))" "ar_request a \<in> set (rr_taken s (2 * i))"
proof -
  obtain i where "i < length (rr_clients s)" "ar_response_channel a = 2 * i + 1" "ar_segment a = 0"
      "ar_request a \<in> set (rr_taken s (2 * i))"
    using assms by (auto simp: rr_inv_def rr_handles_def)
  then show ?thesis using that [of i] assms(1) by (simp add: rr_inv_def rr_wired_def)
qed

lemma rr_handles_less:
  assumes "rr_handles s res" and "rr_clients s' = rr_clients s" and "rr_taken s' = rr_taken s"
    and "set (rr_pending s') \<subseteq> set (rr_pending s)" and "set (rr_active s') \<subseteq> set (rr_active s)"
  shows "rr_handles s' res"
  using assms unfolding rr_handles_def by (metis subsetD)

lemma rr_inv_send:
  assumes inv: "rr_inv req res s d wires" and c: "c \<in> set (rr_clients s)" and len: "length v = req"
    and run: "cli_send c v (rw s) = Some (r, w)"
  shows "\<exists>d. case r of
      Ok p \<Rightarrow> rr_inv req res (s\<lparr>rw := w, rr_pending := p # rr_pending s,
        rr_put := log (cli_request_channel c) v (rr_put s)\<rparr>) d wires
    | Err e \<Rightarrow> rr_inv req res (s\<lparr>rw := w\<rparr>) d wires"
proof -
  have wired: "rr_wired wires (rr_clients s) (length (w_chans (rw s))) res" and h: "rr_handles s res"
    using inv by (auto simp: rr_inv_def)
  obtain i where i: "i < length wires" "cli_segment c = 0" "cli_request_channel c = 2 * i"
      "cli_response_channel c = 2 * i + 1" "cli_res c = res" "2 * i < length (w_chans (rw s))"
    using rr_client_index [OF wired c] by metis
  obtain r0 where post: "post 0 (2 * i) v (rw s) = Some (r0, w)"
      and r: "r = map_ok (\<lambda>_. \<lparr>pre_segment = 0, pre_response_channel = 2 * i + 1, pre_res = res\<rparr>) r0"
    using run i by (auto simp: cli_send_def split: Option.bind_splits)
  have l: "length v = letter req res (2 * i)" using len by (simp add: letter_def)
  show ?thesis
  proof (cases r0)
    case (Ok u)
    let ?p = "\<lparr>pre_segment = 0, pre_response_channel = 2 * i + 1, pre_res = res\<rparr>"
    have "rr_handles (s\<lparr>rw := w, rr_pending := ?p # rr_pending s, rr_put := log (2 * i) v (rr_put s)\<rparr>) res"
      using h i(1) wired by (auto simp: rr_handles_def rr_wired_def)
    with rr_inv_post [OF inv i(6) l post refl, of "s\<lparr>rw := w, rr_pending := ?p # rr_pending s,
        rr_put := log (2 * i) v (rr_put s)\<rparr>"] Ok r i(3) show ?thesis by simp
  next
    case (Err e)
    have "rr_handles (s\<lparr>rw := w\<rparr>) res" using h by (rule rr_handles_less) simp_all
    with rr_inv_post [OF inv i(6) l post refl, of "s\<lparr>rw := w\<rparr>"] Err r show ?thesis by simp
  qed
qed

lemma rr_inv_respond:
  assumes inv: "rr_inv req res s d wires" and a: "a \<in> set (rr_active s)" and len: "length v = res"
    and run: "ar_respond a v (rw s) = Some (r, w)"
  shows "\<exists>d. rr_inv req res (s\<lparr>rw := w, rr_active := remove1 a (rr_active s),
    rr_put := (if is_Ok r then log (ar_response_channel a) v (rr_put s) else rr_put s)\<rparr>) d wires"
proof -
  obtain i where i: "i < length wires" "ar_segment a = 0" "ar_response_channel a = 2 * i + 1"
      "2 * i + 1 < length (w_chans (rw s))" "ar_request a \<in> set (rr_taken s (2 * i))"
    using rr_active_index [OF inv a] .
  have post: "post 0 (2 * i + 1) v (rw s) = Some (r, w)" using run i by (simp add: ar_respond_def)
  have l: "length v = letter req res (2 * i + 1)" using len by (simp add: letter_def)
  have h: "rr_handles s res" using inv by (simp add: rr_inv_def)
  let ?s = "s\<lparr>rw := w, rr_active := remove1 a (rr_active s),
    rr_put := (if is_Ok r then log (2 * i + 1) v (rr_put s) else rr_put s)\<rparr>"
  have "rr_handles ?s res" by (rule rr_handles_less [OF h]) (simp_all add: set_remove1_subset)
  then show ?thesis
    unfolding i(3) by (intro rr_inv_post [OF inv i(4) l post refl]) simp_all
qed

lemma rr_idle:
  assumes inv: "rr_inv req res s d wires" and "w = rw s"
  shows "rr_inv req res (s\<lparr>rw := w\<rparr>) d wires"
  using assms by (simp add: rr_inv_def rr_handles_def)

lemma rr_inv_receive_none:
  assumes inv: "rr_inv req res s d wires" and srv: "srv_segment srv = 0" "srv_clients srv = 0" "srv_req srv = req"
    and run: "srv_receive srv (rw s) = Some (Ok None, w)"
  shows "w = rw s"
proof -
  have mail: "mail_inv (letter req res) d (w_mem (rw s)) (w_chans (rw s)) (rr_put s) (rr_taken s)"
    and segs: "w_segs (rw s) = [d]" and poll: "srv_poll 0 req wires (rw s) = Some (Ok None, w)"
    using inv srv run by (auto simp: rr_inv_def srv_receive_def)
  show ?thesis
    using mail segs rr_wires_ok [OF inv] by (cases rule: srv_poll_result) (use poll in auto)
qed

text \<open>A poll for a response returns the oldest one not yet taken, or says that there is none.\<close>

lemma rr_try_receive:
  assumes inv: "rr_inv req res s d wires" and p: "p \<in> set (rr_pending s)"
  defines "k \<equiv> pre_response_channel p"
  shows "\<exists>w. pre_try_receive p (rw s) =
    Some (Ok (if rr_taken s k = rr_put s k then None else Some (rr_put s k ! length (rr_taken s k))), w) \<and>
    (rr_taken s k = rr_put s k \<longrightarrow> w = rw s)"
proof -
  have mail: "mail_inv (letter req res) d (w_mem (rw s)) (w_chans (rw s)) (rr_put s) (rr_taken s)"
    and segs: "w_segs (rw s) = [d]" using inv by (auto simp: rr_inv_def)
  obtain i where i: "pre_segment p = 0" "pre_res p = letter req res (2 * i + 1)"
      "pre_response_channel p = 2 * i + 1" "2 * i + 1 < length (w_chans (rw s))"
    using rr_pending_index [OF inv p] by metis
  show ?thesis
    unfolding k_def using mail segs i(4)
    by (cases rule: collect_result) (auto simp: pre_try_receive_def i)
qed

lemma rr_inv_step:
  assumes "rr_step srv sh req res s s'" and "rr_inv req res s d wires" and "rr_shape srv sh req"
  shows "\<exists>d wires. rr_inv req res s' d wires"
  using assms
proof (cases rule: rr_step.cases)
  case (connect service node qos c w)
  obtain reg where "rr_server sh = Some reg" "sr_segment reg = 0" "sr_clients reg = 0"
    using assms(3) by (auto simp: rr_shape_def)
  from rr_inv_connect [OF assms(2) this connect(2)] connect(1) show ?thesis by blast
next
  case (send c v p w)
  then show ?thesis using rr_inv_send [OF assms(2) send(2,3,4)] by auto
next
  case (send_failed c v e w)
  then show ?thesis using rr_inv_send [OF assms(2) send_failed(2,3,4)] by auto
next
  case (receive a w)
  have "srv_segment srv = 0" "srv_clients srv = 0" "srv_req srv = req" using assms(3) by (simp_all add: rr_shape_def)
  from rr_inv_receive [OF assms(2) this receive(2)] receive(1) show ?thesis by blast
next
  case (receive_none w)
  have "srv_segment srv = 0" "srv_clients srv = 0" "srv_req srv = req" using assms(3) by (simp_all add: rr_shape_def)
  from rr_inv_receive_none [OF assms(2) this receive_none(2)] receive_none(1) rr_idle [OF assms(2)]
  show ?thesis by blast
next
  case (respond a v u w)
  then show ?thesis using rr_inv_respond [OF assms(2) respond(2,3,4)] by auto
next
  case (respond_failed a v e w)
  then show ?thesis using rr_inv_respond [OF assms(2) respond_failed(2,3,4)] by auto
next
  case (take_response p v w)
  then show ?thesis using rr_inv_take [OF assms(2)] by blast
next
  case (take_none p w)
  then show ?thesis using rr_try_receive [OF assms(2) take_none(2)] rr_idle [OF assms(2)]
    by (auto split: if_splits)
qed

subsection \<open>Starting up\<close>

lemma srv_create_inv:
  assumes create: "srv_create os service node qos req res (rr_fresh service) (rr_empty mem) = Some (Ok srv, sh, w)"
    and ok: "rr_params_ok qos req res"
  shows "rr_shape srv sh req \<and> (\<exists>d. rr_inv req res (rr_start w) d [] \<and> ds_out d = {} \<and>
    ds_chunk_count d = ucast (max (max_pending_requests qos * 2) 16))"
proof -
  let ?size = "max (max (of_nat req) (of_nat res)) 8 :: usize"
    and ?count = "ucast (max (max_pending_requests qos * 2) 16) :: u32"
  have fits: "layout_fits ?size ?count" using ok by (simp add: rr_params_ok_def)
  obtain r mem' where "ds_create os (srv_segment_name service node) ?size ?count 0 mem = Some (r, mem')"
    using create by (auto simp: srv_create_def rr_fresh_def rr_empty_def Let_def Option.bind_eq_Some_conv)
  moreover from this obtain d where "r = Ok d"
    using create by (cases r) (auto simp: srv_create_def rr_fresh_def rr_empty_def Let_def)
  ultimately have seg: "ds_create os (srv_segment_name service node) ?size ?count 0 mem = Some (Ok d, mem')"
    by simp
  note d = ds_create_OkD [OF fits seg]
  have shape: "rr_shape srv sh req"
      and w: "w = \<lparr>w_mem = mem', w_segs = [d], w_chans = [], w_lists = [], w_loans = [], w_clients = [[]]\<rparr>"
    using create seg by (auto simp: srv_create_def rr_fresh_def rr_empty_def Let_def rr_shape_def)
  have "req \<le> unat ?size" "res \<le> unat ?size"
  proof -
    have "req < 2 ^ LENGTH(64)" "res < 2 ^ LENGTH(64)" using ok by (simp_all add: rr_params_ok_def)
    then have "unat (of_nat req :: usize) = req" "unat (of_nat res :: usize) = res"
      by (simp_all only: unat_of_nat_less)
    then show "req \<le> unat ?size" "res \<le> unat ?size" by (auto simp: max_def word_le_nat_alt)
  qed
  then have "req \<le> unat (ds_chunk_size d)" "res \<le> unat (ds_chunk_size d)"
    using layout_fits_align(2) [OF fits] d by auto
  then have "rr_inv req res (rr_start w) d []"
    using d w by (simp add: rr_inv_def rr_start_def rr_wired_def rr_handles_def mail_inv_def)
  then show ?thesis using shape d by (auto simp: ds_out_def)
qed

lemma rr_reach_inv:
  assumes "rr_reach srv sh req res w s" and "rr_shape srv sh req" and "\<exists>d wires. rr_inv req res (rr_start w) d wires"
  shows "\<exists>d wires. rr_inv req res s d wires"
  using assms
proof (induction rule: rr_reach.induct)
  case (rr_next s s')
  then show ?case using rr_inv_step by blast
qed

subsection \<open>What clients and the server can rely on\<close>

text \<open>C13: request-response delivery. With any number of clients, sending, receiving, responding and
  polling in any order: the requests the server took from a client are, unchanged and in order, the
  first of those that client sent, and the responses a client took are the first of those put on its channel; no chunk
  carries two payloads at a time; a request in progress leads back to a client that sent it; and
  polling any pending response never fails or panics and yields the oldest response its client has
  not taken yet.\<close>

theorem reqres_integrity:
  assumes "srv_create os service node qos req res (rr_fresh service) (rr_empty mem) = Some (Ok srv, sh, w)"
    and "rr_params_ok qos req res" and "rr_reach srv sh req res w s"
  shows "(\<forall>c \<in> set (rr_clients s). \<forall>k \<in> {cli_request_channel c, cli_response_channel c}.
      \<exists>rest. rr_put s k = rr_taken s k @ rest) \<and>
    distinct (concat (map ch_inflight (w_chans (rw s)))) \<and>
    (\<forall>a \<in> set (rr_active s). \<exists>c \<in> set (rr_clients s). ar_response_channel a = cli_response_channel c \<and>
       ar_request a \<in> set (rr_put s (cli_request_channel c))) \<and>
    (\<forall>p \<in> set (rr_pending s). \<exists>w'. pre_try_receive p (rw s) =
       Some (Ok (if rr_taken s (pre_response_channel p) = rr_put s (pre_response_channel p) then None
         else Some (rr_put s (pre_response_channel p) ! length (rr_taken s (pre_response_channel p)))), w'))"
proof -
  obtain d wires where inv: "rr_inv req res s d wires"
    using rr_reach_inv [OF assms(3)] srv_create_inv [OF assms(1,2)] by blast
  then have wired: "rr_wired wires (rr_clients s) (length (w_chans (rw s))) res"
    and mail: "mail_inv (letter req res) d (w_mem (rw s)) (w_chans (rw s)) (rr_put s) (rr_taken s)"
    by (auto simp: rr_inv_def)
  have prefix: "\<exists>rest. rr_put s k = rr_taken s k @ rest" if "k < length (w_chans (rw s))" for k
    using mail that by (auto simp: mail_inv_def)
  have "\<exists>rest. rr_put s k = rr_taken s k @ rest"
    if "c \<in> set (rr_clients s)" "k \<in> {cli_request_channel c, cli_response_channel c}" for c k
    using rr_client_index [OF wired that(1)] that(2) prefix by (metis empty_iff insert_iff)
  moreover have "distinct (concat (map ch_inflight (w_chans (rw s))))"
  proof (rule distinct_if_count)
    fix x
    have "mset (concat (map ch_inflight cs)) = (\<Sum>c \<leftarrow> cs. mset (ch_inflight c))" for cs
      by (induction cs) auto
    moreover have "(\<Sum>c \<leftarrow> w_chans (rw s). mset (ch_inflight c)) \<subseteq># mset_set (ds_out d)"
      using mail by (simp add: mail_inv_def)
    ultimately have "count (mset (concat (map ch_inflight (w_chans (rw s))))) x \<le> count (mset_set (ds_out d)) x"
      by (simp add: mset_subset_eq_count)
    then show "count (mset (concat (map ch_inflight (w_chans (rw s))))) x \<le> 1"
      by (rule order_trans) (simp add: count_mset_set')
  qed
  moreover have "\<exists>c \<in> set (rr_clients s). ar_response_channel a = cli_response_channel c \<and>
      ar_request a \<in> set (rr_put s (cli_request_channel c))" if a: "a \<in> set (rr_active s)" for a
  proof -
    obtain i where i: "i < length wires" "ar_segment a = 0" "ar_response_channel a = 2 * i + 1"
        "2 * i + 1 < length (w_chans (rw s))" "ar_request a \<in> set (rr_taken s (2 * i))"
      using rr_active_index [OF inv a] .
    then have "ar_request a \<in> set (rr_put s (2 * i))" using prefix [of "2 * i"] by auto
    then show ?thesis
      using i wired by (intro bexI [of _ "rr_clients s ! i"]) (auto simp: rr_wired_def)
  qed
  moreover have "\<exists>w'. pre_try_receive p (rw s) =
       Some (Ok (if rr_taken s (pre_response_channel p) = rr_put s (pre_response_channel p) then None
         else Some (rr_put s (pre_response_channel p) ! length (rr_taken s (pre_response_channel p)))), w')"
    if "p \<in> set (rr_pending s)" for p
    using rr_try_receive [OF inv that] by blast
  ultimately show ?thesis by blast
qed

subsection \<open>Filling a request queue\<close>

lemma rr_send_room:
  assumes inv: "rr_inv req res s d wires" and c: "c \<in> set (rr_clients s)" and len: "length v = req"
    and free: "ds_free d \<noteq> {}"
  defines "k \<equiv> cli_request_channel c"
  obtains r w d' where "cli_send c v (rw s) = Some (r, w)" "w_segs w = [d']" "ds_same d' d"
    "card (ds_out d') = Suc (card (ds_out d))" "\<And>j. ch_bound (w_chans w ! j) = ch_bound (w_chans (rw s) ! j)"
    "if length (ch_inflight (w_chans (rw s) ! k)) < ch_bound (w_chans (rw s) ! k)
     then is_Ok r \<and> length (ch_inflight (w_chans w ! k)) = Suc (length (ch_inflight (w_chans (rw s) ! k)))
     else r = Err (SendErr QueueFull) \<and> w_chans w = w_chans (rw s)"
proof -
  have wired: "rr_wired wires (rr_clients s) (length (w_chans (rw s))) res"
    and mail: "mail_inv (letter req res) d (w_mem (rw s)) (w_chans (rw s)) (rr_put s) (rr_taken s)"
    and segs: "w_segs (rw s) = [d]"
    using inv by (auto simp: rr_inv_def)
  obtain i where i: "cli_segment c = 0" "cli_request_channel c = 2 * i" "2 * i < length (w_chans (rw s))"
    using rr_client_index [OF wired c] by metis
  have l: "length v = letter req res (2 * i)" using len by (simp add: letter_def)
  show ?thesis
    using mail segs i(3) l
  proof (cases rule: post_result)
    case full
    then show ?thesis using free by simp
  next
    case (posted r w d' a)
    let ?r = "map_ok (\<lambda>_. \<lparr>pre_segment = cli_segment c, pre_response_channel = cli_response_channel c,
      pre_res = cli_res c\<rparr>) (map_err SendErr r)"
    have "cli_send c v (rw s) = Some (?r, w)" using posted(1) i by (simp add: cli_send_def)
    moreover have "if length (ch_inflight (w_chans (rw s) ! k)) < ch_bound (w_chans (rw s) ! k)
      then is_Ok ?r \<and> length (ch_inflight (w_chans w ! k)) = Suc (length (ch_inflight (w_chans (rw s) ! k)))
      else ?r = Err (SendErr QueueFull) \<and> w_chans w = w_chans (rw s)"
      using posted(9,10) i(2) by (cases "is_Ok r") (simp_all add: k_def split: if_splits)
    ultimately show ?thesis by (rule that [OF _ posted(2,3,7,8)])
  qed
qed

text \<open>A service whose only client has posted \<open>n\<close> requests that the server has not looked at.\<close>

definition rr_filled :: "rr_sys \<Rightarrow> data_segment \<Rightarrow> client \<Rightarrow> u8 list \<Rightarrow> nat \<Rightarrow> nat \<Rightarrow> bool" where
  "rr_filled s d c v n b \<longleftrightarrow> w_segs (rw s) = [d] \<and> rr_clients s = [c] \<and> card (ds_out d) = n \<and>
     length (ch_inflight (w_chans (rw s) ! cli_request_channel c)) = n \<and>
     ch_bound (w_chans (rw s) ! cli_request_channel c) = b \<and>
     rr_put s (cli_request_channel c) = replicate n v \<and> (0 < n \<longrightarrow> rr_pending s \<noteq> []) \<and> rr_taken s = (\<lambda>_. [])"

lemma rr_fill_none:
  assumes create: "srv_create os service node qos req res (rr_fresh service) (rr_empty mem) = Some (Ok srv, sh, w)"
    and ok: "rr_params_ok qos req res"
  shows "\<exists>s d c. rr_reach srv sh req res w s \<and>
    rr_filled s d c v 0 (unat (spsc_capacity (spsc_new (max_pending_requests qos)))) \<and>
    ds_chunk_count d = ucast (max (max_pending_requests qos * 2) 16) \<and> ds_wf d"
proof -
  obtain d where shape: "rr_shape srv sh req" and inv: "rr_inv req res (rr_start w) d []"
      and d: "ds_out d = {}" "ds_chunk_count d = ucast (max (max_pending_requests qos * 2) 16)"
    using srv_create_inv [OF create ok] by blast
  have w: "w_segs w = [d]" "w_clients w = [[]]" "w_chans w = []" and wf: "ds_wf d"
    using inv by (auto simp: rr_inv_def rr_start_def rr_wired_def mail_inv_def)
  obtain reg where reg: "rr_server sh = Some reg" "sr_segment reg = 0" "sr_clients reg = 0"
    using shape by (auto simp: rr_shape_def)
  obtain c w' where c: "cli_create service node qos res sh w = Some (Ok c, w')" "cli_request_channel c = 0"
      "w_segs w' = [d]" "ch_inflight (w_chans w' ! 0) = []"
      "ch_bound (w_chans w' ! 0) = unat (spsc_capacity (spsc_new (max_pending_requests qos)))"
    using w reg by (simp add: cli_create_def Let_def)
  let ?s = "(rr_start w)\<lparr>rw := w', rr_clients := [c]\<rparr>"
  have "rr_step srv sh req res (rr_start w) ?s"
    using rr_step.connect [of service node qos res sh "rr_start w" c w' srv req] c(1) by (simp add: rr_start_def)
  then have "rr_reach srv sh req res w ?s" by (rule rr_next [OF rr_init])
  then show ?thesis
    using c d wf by (intro exI [of _ ?s] exI [of _ d] exI [of _ c]) (simp add: rr_filled_def rr_start_def)
qed

lemma rr_fill:
  assumes create: "srv_create os service node qos req res (rr_fresh service) (rr_empty mem) = Some (Ok srv, sh, w)"
    and ok: "rr_params_ok qos req res" and v: "length v = req"
    and n: "n \<le> unat (spsc_capacity (spsc_new (max_pending_requests qos)))"
      "n \<le> unat (ucast (max (max_pending_requests qos * 2) 16) :: u32)"
  shows "\<exists>s d c. rr_reach srv sh req res w s \<and>
    rr_filled s d c v n (unat (spsc_capacity (spsc_new (max_pending_requests qos)))) \<and>
    ds_chunk_count d = ucast (max (max_pending_requests qos * 2) 16) \<and> ds_wf d"
  using n
proof (induction n)
  case 0
  show ?case using rr_fill_none [OF create ok] .
next
  case (Suc n)
  then obtain s d c where s: "rr_reach srv sh req res w s" "ds_wf d"
      "rr_filled s d c v n (unat (spsc_capacity (spsc_new (max_pending_requests qos))))"
      "ds_chunk_count d = ucast (max (max_pending_requests qos * 2) 16)"
    by auto
  obtain d0 wires where inv0: "rr_inv req res s d0 wires"
    using rr_reach_inv [OF s(1)] srv_create_inv [OF create ok] by blast
  then have inv: "rr_inv req res s d wires" using s(3) by (simp add: rr_inv_def rr_filled_def)
  have free: "ds_free d \<noteq> {}"
  proof
    assume "ds_free d = {}"
    then have "card (ds_out d) = card (ds_chunks d)" by (simp add: ds_out_def)
    then show False using s card_ds_chunks [OF s(2)] Suc.prems by (simp add: rr_filled_def)
  qed
  obtain r w' d' where send: "cli_send c v (rw s) = Some (r, w')" "w_segs w' = [d']" "ds_same d' d"
      "card (ds_out d') = Suc (card (ds_out d))" "\<And>j. ch_bound (w_chans w' ! j) = ch_bound (w_chans (rw s) ! j)"
      and res: "if length (ch_inflight (w_chans (rw s) ! cli_request_channel c)) < ch_bound (w_chans (rw s) ! cli_request_channel c)
       then is_Ok r \<and> length (ch_inflight (w_chans w' ! cli_request_channel c)) =
         Suc (length (ch_inflight (w_chans (rw s) ! cli_request_channel c)))
       else r = Err (SendErr QueueFull) \<and> w_chans w' = w_chans (rw s)"
    using rr_send_room [OF inv _ v free, of c] s(3) by (auto simp: rr_filled_def)
  have "is_Ok r" and len: "length (ch_inflight (w_chans w' ! cli_request_channel c)) = Suc n"
    using res s(3) Suc.prems by (auto simp: rr_filled_def)
  then obtain p where r: "r = Ok p" by (cases r) auto
  let ?s = "s\<lparr>rw := w', rr_pending := p # rr_pending s, rr_put := log (cli_request_channel c) v (rr_put s)\<rparr>"
  have "rr_step srv sh req res s ?s"
    using send(1) r s(3) v by (intro rr_step.send) (auto simp: rr_filled_def)
  then have "rr_reach srv sh req res w ?s" by (rule rr_next [OF s(1)])
  moreover from rr_reach_inv [OF this] srv_create_inv [OF create ok] have "ds_wf d'"
    using send(2) by (fastforce simp: rr_inv_def mail_inv_def)
  ultimately show ?case
    using send s(3,4) len
    by (intro exI [of _ ?s] exI [of _ d'] exI [of _ c])
      (auto simp: rr_filled_def ds_same_def log_def replicate_append_same)
qed

definition rr_qos :: reqres_qos where
  "rr_qos = \<lparr>max_clients = 8, max_servers = 1, max_pending_requests = 16\<rparr>"

lemma rr_params_ok_default: "rr_params_ok rr_qos 8 8"
  by (simp add: rr_params_ok_def rr_qos_def layout_fits_def SENTINEL_def)

lemma rr_create_default:
  "\<exists>srv sh w. srv_create nix_ok ''s'' (NodeId 1) rr_qos 8 8 (rr_fresh ''s'') (rr_empty mem) = Some (Ok srv, sh, w)"
proof -
  have fits: "layout_fits (8 :: usize) (32 :: u32)" by (simp add: layout_fits_def SENTINEL_def)
  obtain shm mem1 where "shm_create nix_ok (srv_segment_name ''s'' (NodeId 1))
      (HEADER_SIZE + align8 8 * ucast (32 :: u32)) mem = (Ok shm, mem1)"
    by (simp add: shm_create_def Let_def nix_ok_def do_mmap_def HEADER_SIZE_def align8_def)
  from ds_create_wf [OF fits this, of 0] obtain d mem' where
    "ds_create nix_ok (srv_segment_name ''s'' (NodeId 1)) 8 32 0 mem = Some (Ok d, mem')"
    by auto
  then show ?thesis by (simp add: srv_create_def rr_fresh_def rr_empty_def rr_qos_def Let_def)
qed

lemma rr_capacity_default: "unat (spsc_capacity (spsc_new (max_pending_requests rr_qos))) \<ge> 16"
  using spsc_new_capacity [of "max_pending_requests rr_qos"] by (simp add: rr_qos_def word_le_nat_alt)

theorem reqres_integrity_witness:
  "\<exists>srv sh w s c. rr_reach srv sh 8 8 w s \<and> c \<in> set (rr_clients s) \<and>
     rr_put s (cli_request_channel c) = replicate 3 [1, 2, 3, 4, 5, 6, 7, 8] \<and>
     distinct (concat (map ch_inflight (w_chans (rw s)))) \<and>
     (\<exists>rest. rr_put s (cli_request_channel c) = rr_taken s (cli_request_channel c) @ rest)"
proof -
  obtain srv sh w where create: "srv_create nix_ok ''s'' (NodeId 1) rr_qos 8 8 (rr_fresh ''s'') (rr_empty (\<lambda>_. 0)) =
      Some (Ok srv, sh, w)"
    using rr_create_default by blast
  have "\<exists>s d c. rr_reach srv sh 8 8 w s \<and> rr_filled s d c [1, 2, 3, 4, 5, 6, 7, 8] 3
      (unat (spsc_capacity (spsc_new (max_pending_requests rr_qos))))"
    using rr_fill [OF create rr_params_ok_default, of "[1, 2, 3, 4, 5, 6, 7, 8]" 3] rr_capacity_default
    by (force simp: rr_qos_def)
  then obtain s d c where s: "rr_reach srv sh 8 8 w s" "rr_clients s = [c]"
      "rr_put s (cli_request_channel c) = replicate 3 [1, 2, 3, 4, 5, 6, 7, 8]"
    by (auto simp: rr_filled_def)
  note reqres_integrity [OF create rr_params_ok_default s(1)]
  with s show ?thesis by (metis insertI1 list.set(2))
qed

subsection \<open>Failed sends\<close>

fun send_times :: "nat \<Rightarrow> client \<Rightarrow> u8 list \<Rightarrow> rr_world \<Rightarrow> rr_world option" where
  "send_times 0 c v w = Some w"
| "send_times (Suc n) c v w = do { (_, w) \<leftarrow> cli_send c v w; send_times n c v w }"

lemma card_free_out:
  assumes "ds_wf d"
  shows "card (ds_free d) + card (ds_out d) = card (ds_chunks d)"
  using assms ds.free_slots [OF assms] ds.finite_slots [of d]
  by (metis add.commute card_Diff_subset card_mono ds_out_def finite_subset le_add_diff_inverse2)

lemma rr_send_full:
  assumes reach: "rr_reach srv sh req res w s" and shape: "rr_shape srv sh req"
    and start: "\<exists>d wires. rr_inv req res (rr_start w) d wires"
    and c: "c \<in> set (rr_clients s)" and v: "length v = req" and d: "w_segs (rw s) = [d]"
    and queue: "ch_bound (w_chans (rw s) ! cli_request_channel c) \<le> length (ch_inflight (w_chans (rw s) ! cli_request_channel c))"
  shows "\<exists>s' d'. send_times (card (ds_free d)) c v (rw s) = Some (rw s') \<and> rr_reach srv sh req res w s' \<and>
    w_chans (rw s') = w_chans (rw s) \<and> w_segs (rw s') = [d'] \<and> ds_free d' = {} \<and>
    rr_active s' = rr_active s \<and> rr_clients s' = rr_clients s"
  using reach c d queue
proof (induction "card (ds_free d)" arbitrary: s d)
  case 0
  obtain d0 wires where "rr_inv req res s d0 wires" using rr_reach_inv [OF 0(2) shape start] by blast
  with 0 have "ds_wf d" by (auto simp: rr_inv_def mail_inv_def)
  with 0 ds.free_slots ds.finite_slots have "ds_free d = {}" by (metis card_0_eq finite_subset)
  with 0 show ?case by (intro exI [of _ s] exI [of _ d]) simp
next
  case (Suc n)
  let ?k = "cli_request_channel c"
  obtain d0 wires where "rr_inv req res s d0 wires" using rr_reach_inv [OF Suc(3) shape start] by blast
  with Suc(5) have inv: "rr_inv req res s d wires" by (auto simp: rr_inv_def)
  then have wf: "ds_wf d" by (simp add: rr_inv_def mail_inv_def)
  have free: "ds_free d \<noteq> {}" using Suc(2) by (metis card.empty nat.distinct(1))
  obtain r w1 d1 where send: "cli_send c v (rw s) = Some (r, w1)" "w_segs w1 = [d1]" "ds_same d1 d"
      "card (ds_out d1) = Suc (card (ds_out d))"
      and full: "if length (ch_inflight (w_chans (rw s) ! ?k)) < ch_bound (w_chans (rw s) ! ?k)
       then is_Ok r \<and> length (ch_inflight (w_chans w1 ! ?k)) = Suc (length (ch_inflight (w_chans (rw s) ! ?k)))
       else r = Err (SendErr QueueFull) \<and> w_chans w1 = w_chans (rw s)"
    using rr_send_room [OF inv Suc(4) v free] by metis
  from full Suc(6) have r: "r = Err (SendErr QueueFull)" and chans: "w_chans w1 = w_chans (rw s)"
    by (simp_all split: if_splits)
  let ?s = "s\<lparr>rw := w1\<rparr>"
  have reach1: "rr_reach srv sh req res w ?s"
    using rr_next [OF Suc(3) rr_step.send_failed [OF Suc(4) v]] send(1) r by simp
  obtain d2 wires2 where "rr_inv req res ?s d2 wires2" using rr_reach_inv [OF reach1 shape start] by blast
  with send(2) have "ds_wf d1" by (auto simp: rr_inv_def mail_inv_def)
  then have n: "n = card (ds_free d1)"
    using card_free_out [of d1] card_free_out [OF wf] send(4) Suc(2) ds_same_chunks [OF send(3)] by simp
  have "\<exists>s' d'. send_times (card (ds_free d1)) c v (rw ?s) = Some (rw s') \<and> rr_reach srv sh req res w s' \<and>
    w_chans (rw s') = w_chans (rw ?s) \<and> w_segs (rw s') = [d'] \<and> ds_free d' = {} \<and>
    rr_active s' = rr_active ?s \<and> rr_clients s' = rr_clients ?s"
    by (rule Suc(1) [OF n reach1]) (use Suc(4,6) send(2) chans in simp_all)
  then show ?case using send(1) chans by (simp add: Suc(2) [symmetric] n [symmetric])
qed

text \<open>C37: a send that fails keeps the chunk it allocated. When the request queue of a client is full,
  each further \<open>send\<close> fails with \<open>QueueFull\<close> and takes one chunk out of the pool for good: no channel
  holds it and nobody frees it. After as many attempts as there were free chunks the pool is empty
  with the queues unchanged, and the server can no longer respond to any request in progress, of any
  client: \<open>respond\<close> fails with \<open>OutOfMemory\<close>.\<close>

theorem reqres_failed_send_leaks:
  assumes "srv_create os service node qos req res (rr_fresh service) (rr_empty mem) = Some (Ok srv, sh, w)"
    and "rr_params_ok qos req res" and "rr_reach srv sh req res w s"
    and "c \<in> set (rr_clients s)" and "length v = req" and "w_segs (rw s) = [d]"
    and "ch_bound (w_chans (rw s) ! cli_request_channel c) = length (ch_inflight (w_chans (rw s) ! cli_request_channel c))"
  shows "\<exists>w' d'. send_times (card (ds_free d)) c v (rw s) = Some w' \<and> w_chans w' = w_chans (rw s) \<and>
    w_segs w' = [d'] \<and> ds_free d' = {} \<and>
    (\<forall>a \<in> set (rr_active s). \<forall>u. length u = res \<longrightarrow>
       ar_respond a u w' = Some (Err (LoanErr OutOfMemory), w'))"
proof -
  have shape: "rr_shape srv sh req" and start: "\<exists>d wires. rr_inv req res (rr_start w) d wires"
    using srv_create_inv [OF assms(1,2)] by blast+
  obtain s' d' where s': "send_times (card (ds_free d)) c v (rw s) = Some (rw s')" "rr_reach srv sh req res w s'"
      "w_chans (rw s') = w_chans (rw s)" "w_segs (rw s') = [d']" "ds_free d' = {}" "rr_active s' = rr_active s"
    using rr_send_full [OF assms(3) shape start assms(4,5,6)] assms(7) by auto
  obtain d0 wires where "rr_inv req res s' d0 wires" using rr_reach_inv [OF s'(2) shape start] by blast
  then have inv: "rr_inv req res s' d' wires" using s'(4) by (auto simp: rr_inv_def)
  then have mail: "mail_inv (letter req res) d' (w_mem (rw s')) (w_chans (rw s')) (rr_put s') (rr_taken s')"
    by (simp add: rr_inv_def)
  have "ar_respond a u (rw s') = Some (Err (LoanErr OutOfMemory), rw s')"
    if a: "a \<in> set (rr_active s)" and u: "length u = res" for a u
  proof -
    obtain i where i: "i < length wires" "ar_segment a = 0" "ar_response_channel a = 2 * i + 1"
        "2 * i + 1 < length (w_chans (rw s'))" "ar_request a \<in> set (rr_taken s' (2 * i))"
      using rr_active_index [OF inv] a s'(6) by metis
    have "ds_wf d'" using mail by (simp add: mail_inv_def)
    from ds_allocate_full [OF this s'(5)] show ?thesis
      using i s'(4) by (simp add: ar_respond_def post_def)
  qed
  then show ?thesis using s' by blast
qed

theorem reqres_failed_send_leaks_witness:
  "\<exists>srv sh w s c d w' d'. rr_reach srv sh 8 8 w s \<and> w_segs (rw s) = [d] \<and> card (ds_free d) = 16 \<and>
     send_times 16 c [1, 2, 3, 4, 5, 6, 7, 8] (rw s) = Some w' \<and> w_segs w' = [d'] \<and> ds_free d' = {} \<and>
     w_chans w' = w_chans (rw s)"
proof -
  let ?v = "[1, 2, 3, 4, 5, 6, 7, 8] :: u8 list"
  have "find (\<lambda>k. unat (16 :: usize) \<le> 2 ^ k) [0..<64] = Some 4"
    by (simp add: upt_conv_Cons)
  then have cap: "unat (spsc_capacity (spsc_new (max_pending_requests rr_qos))) = 16"
    by (simp add: spsc_new_def rr_qos_def next_power_of_two_def)
  obtain srv sh w where create: "srv_create nix_ok ''s'' (NodeId 1) rr_qos 8 8 (rr_fresh ''s'') (rr_empty (\<lambda>_. 0)) =
      Some (Ok srv, sh, w)"
    using rr_create_default by blast
  obtain s d c where s: "rr_reach srv sh 8 8 w s" "rr_filled s d c ?v 16 16" "ds_chunk_count d = 32" "ds_wf d"
    using rr_fill [OF create rr_params_ok_default, of ?v 16] cap by (force simp: rr_qos_def)
  have f: "w_segs (rw s) = [d]" "c \<in> set (rr_clients s)" "card (ds_out d) = 16"
      "ch_bound (w_chans (rw s) ! cli_request_channel c) = length (ch_inflight (w_chans (rw s) ! cli_request_channel c))"
    using s(2) by (simp_all add: rr_filled_def)
  have free: "card (ds_free d) = 16"
    using card_free_out [OF s(4)] card_ds_chunks [OF s(4)] s(3) f(3) by simp
  have "length ?v = 8" by simp
  from reqres_failed_send_leaks [OF create rr_params_ok_default s(1) f(2) this f(1,4)]
  obtain w' d' where w': "send_times 16 c ?v (rw s) = Some w'" "w_chans w' = w_chans (rw s)" "w_segs w' = [d']"
      "ds_free d' = {}"
    unfolding free by blast
  show ?thesis
    by (rule exI [of _ srv], rule exI [of _ sh], rule exI [of _ w], rule exI [of _ s], rule exI [of _ c],
        rule exI [of _ d], rule exI [of _ w'], rule exI [of _ d'], intro conjI)
      (fact s(1) f(1) free w')+
qed

end
