(* ===== verification/Blackboard.thy ===== *)
theory Blackboard
  imports Seqlock Req_Res
begin

text \<open>
  The blackboard ports: \<open>port/writer.rs\<close>, \<open>port/reader.rs\<close> and the shared wiring of
  \<open>service/blackboard.rs\<close> in \<open>crates/entangle/src\<close>. The value lives in the single chunk of a data
  segment, the sequence counter is an \<open>Arc<AtomicU64>\<close> that writer and readers share; both are
  named by their position in the world of the ports, extended by the counters. Here a method runs alone; \<open>wr_write_runs\<close> connects
  \<open>wr_write\<close> with the byte-wise steps whose interleavings \<open>Seqlock\<close> covers. \<open>payload\<close> is
  \<open>size_of::<T>()\<close>.
\<close>

record bb_world = rr_world +
  w_sequences :: "u64 list"

record writer_registration =
  wreg_segment :: nat
  wreg_sequence :: nat
  wreg_data_offset :: pointer_offset

record blackboard_shared =
  bbs_writer :: "writer_registration option"
  bbs_service_name :: string

record bb_writer =
  wr_service_name :: string
  wr_node_id :: node_id
  wr_segment :: nat
  wr_data_offset :: pointer_offset
  wr_sequence :: nat

record bb_reader =
  rd_service_name :: string
  rd_node_id :: node_id
  rd_segment :: nat
  rd_data_offset :: pointer_offset
  rd_sequence :: nat

subsection \<open>Creating the ports\<close>

definition bb_segment_name :: "string \<Rightarrow> node_id \<Rightarrow> string" where
  "bb_segment_name service node =
     ''entangle_'' @ replace_char CHR ''/'' CHR ''_'' service @ ''_bb_'' @ hex_pad 32 (unat (nid node))"

fun show_loan_error :: "loan_error \<Rightarrow> string" where
  "show_loan_error OutOfMemory = ''out of memory in data segment''"
| "show_loan_error (ExceedsMaxLoans n) = ''max loaned samples ('' @ dec_string (unat n) @ '') exceeded''"

text \<open>On the two late error returns the segment just created is dropped.\<close>

definition wr_create ::
  "nix \<Rightarrow> string \<Rightarrow> node_id \<Rightarrow> nat \<Rightarrow> blackboard_shared \<Rightarrow> bb_world \<Rightarrow>
     ((bb_writer, ipc_error) result \<times> blackboard_shared \<times> bb_world) option" where
  "wr_create os service node payload sh w = do {
     (r, mem) \<leftarrow> ds_create os (bb_segment_name service node) (max (of_nat payload) 8) 1 0 (w_mem w);
     let w = w\<lparr>w_mem := mem\<rparr>;
     case r of
       Err e \<Rightarrow> Some (Err (IpcPlatform e), sh, w)
     | Ok segment \<Rightarrow> do {
         (r, segment) \<leftarrow> ds_allocate segment;
         case r of
           Err e \<Rightarrow> do {
             _ \<leftarrow> shm_drop (ds_shm segment);
             Some (Err (IpcPlatform (ProcessMonitorError (''blackboard allocate: '' @ show_loan_error e))), sh, w)
           }
         | Ok data_offset \<Rightarrow>
             (case bbs_writer sh of
                Some _ \<Rightarrow> do {
                  _ \<leftarrow> shm_drop (ds_shm segment);
                  Some (Err (IpcService (AlreadyExists service)), sh, w)
                }
              | None \<Rightarrow>
                  let seg = length (w_segs w); sq = length (w_sequences w);
                      w = w\<lparr>w_segs := w_segs w @ [segment], w_sequences := w_sequences w @ [0]\<rparr>;
                      sh = sh\<lparr>bbs_writer := Some \<lparr>wreg_segment = seg, wreg_sequence = sq,
                                                 wreg_data_offset = data_offset\<rparr>\<rparr>
                  in Some (Ok \<lparr>wr_service_name = service, wr_node_id = node, wr_segment = seg,
                               wr_data_offset = data_offset, wr_sequence = sq\<rparr>, sh, w))
       }
   }"

definition rd_create ::
  "string \<Rightarrow> node_id \<Rightarrow> blackboard_shared \<Rightarrow> (bb_reader, ipc_error) result" where
  "rd_create service node sh =
     (case bbs_writer sh of
        None \<Rightarrow> Err (IpcService (NotFound service))
      | Some reg \<Rightarrow>
          Ok \<lparr>rd_service_name = service, rd_node_id = node, rd_segment = wreg_segment reg,
              rd_data_offset = wreg_data_offset reg, rd_sequence = wreg_sequence reg\<rparr>)"

subsection \<open>Writing and reading\<close>

definition wr_write ::
  "bb_writer \<Rightarrow> u8 list \<Rightarrow> bb_world \<Rightarrow> ((unit, port_error) result \<times> bb_world) option" where
  "wr_write wr v w = do {
     seq \<leftarrow> idx (w_sequences w) (wr_sequence wr);
     let w = w\<lparr>w_sequences := (w_sequences w)[wr_sequence wr := seq + 1]\<rparr>;
     segment \<leftarrow> idx (w_segs w) (wr_segment wr);
     let w = w\<lparr>w_mem := ds_write segment (wr_data_offset wr) v (w_mem w)\<rparr>;
     Some (Ok (), w\<lparr>w_sequences := (w_sequences w)[wr_sequence wr := seq + 2]\<rparr>)
   }"

text \<open>The retry loop of \<open>read\<close>, \<open>turns\<close> times.\<close>

fun rd_read ::
  "nat \<Rightarrow> nat \<Rightarrow> bb_reader \<Rightarrow> bb_world \<Rightarrow> (u8 list option, port_error) result spin option" where
  "rd_read 0 payload rd w = Some Spinning"
| "rd_read (Suc turns) payload rd w = do {
     s1 \<leftarrow> idx (w_sequences w) (rd_sequence rd);
     if s1 = 0 then Some (Done (Ok None))
     else if s1 AND 1 \<noteq> 0 then rd_read turns payload rd w
     else do {
       segment \<leftarrow> idx (w_segs w) (rd_segment rd);
       let value = ds_read segment (rd_data_offset rd) payload (w_mem w);
       s2 \<leftarrow> idx (w_sequences w) (rd_sequence rd);
       if s1 = s2 then Some (Done (Ok (Some value))) else rd_read turns payload rd w
     }
   }"

text \<open>A sequence of writes.\<close>

fun wr_writes :: "bb_writer \<Rightarrow> u8 list list \<Rightarrow> bb_world \<Rightarrow> bb_world option" where
  "wr_writes wr [] w = Some w"
| "wr_writes wr (v # vs) w = do { (_, w) \<leftarrow> wr_write wr v w; wr_writes wr vs w }"

subsection \<open>Wired ports\<close>

text \<open>A writer whose chunk exists in its segment, and a reader built from its registration.\<close>

definition wr_wired :: "nat \<Rightarrow> bb_writer \<Rightarrow> bb_world \<Rightarrow> bool" where
  "wr_wired payload wr w \<longleftrightarrow> wr_segment wr < length (w_segs w) \<and> wr_sequence wr < length (w_sequences w) \<and>
     ds_wf (w_segs w ! wr_segment wr) \<and> wr_data_offset wr \<in> ds_chunks (w_segs w ! wr_segment wr) \<and>
     payload \<le> unat (ds_chunk_size (w_segs w ! wr_segment wr))"

definition rd_of :: "bb_writer \<Rightarrow> bb_reader \<Rightarrow> bool" where
  "rd_of wr rd \<longleftrightarrow> rd_segment rd = wr_segment wr \<and> rd_data_offset rd = wr_data_offset wr \<and>
     rd_sequence rd = wr_sequence wr"

definition wr_seq :: "bb_writer \<Rightarrow> bb_world \<Rightarrow> u64" where
  "wr_seq wr w = w_sequences w ! wr_sequence wr"

lemma wr_create_wired:
  assumes fits: "layout_fits (max (of_nat payload) 8) 1" and payload: "payload < 2 ^ 64"
    and create: "wr_create os service node payload sh w = Some (Ok wr, sh', w')"
  shows "bbs_writer sh = None \<and> wr_wired payload wr w' \<and> wr_seq wr w' = 0 \<and>
    (\<exists>rd. rd_create service' node' sh' = Ok rd \<and> rd_of wr rd)"
proof -
  obtain d mem where d: "ds_create os (bb_segment_name service node) (max (of_nat payload) 8) 1 0 (w_mem w) = Some (Ok d, mem)"
    using create by (auto simp: wr_create_def Let_def split: bind_splits prod.splits result.splits)
  note wf = ds_create_OkD [OF fits d]
  then have "ds_free d \<noteq> {}" using ds_wf_first_chunk by auto
  then obtain a s where s: "ds_allocate d = Some (Ok a, s)" "a \<in> ds_free d" "ds_free s = ds_free d - {a}"
      "ds_wf s" "ds_same s d"
    using ds_allocate_free [of d] wf by blast
  have a: "a \<in> ds_chunks s" using ds_out_allocate(3) [OF _ s(2,3,5)] ds_same_chunks [OF s(5)] wf by simp
  have "unat (of_nat payload :: usize) = payload" using payload by (simp add: unat_of_nat_less)
  moreover have "unat (of_nat payload :: usize) \<le> unat (max (of_nat payload) 8 :: usize)"
    by (simp only: word_le_nat_alt [symmetric] max.cobounded1)
  ultimately have "payload \<le> unat (ds_chunk_size s)"
    using layout_fits_align(2) [OF fits] wf s(5) by (simp add: ds_same_def)
  note len = this
  show ?thesis
  proof (cases "bbs_writer sh")
    case None
    have "wr = \<lparr>wr_service_name = service, wr_node_id = node, wr_segment = length (w_segs w),
          wr_data_offset = a, wr_sequence = length (w_sequences w)\<rparr>"
        "w' = w\<lparr>w_mem := mem, w_segs := w_segs w @ [s], w_sequences := w_sequences w @ [0]\<rparr>"
        "bbs_writer sh' = Some \<lparr>wreg_segment = length (w_segs w), wreg_sequence = length (w_sequences w),
          wreg_data_offset = a\<rparr>"
      using create None by (auto simp: wr_create_def d s(1) Let_def)
    then show ?thesis using None s(4) a len by (simp add: wr_wired_def wr_seq_def rd_of_def rd_create_def)
  next
    case (Some reg)
    then show ?thesis using create by (auto simp: wr_create_def d s(1) Let_def split: bind_splits)
  qed
qed

lemma wr_write_wired:
  assumes "wr_wired payload wr w" and "length v = payload"
  shows "\<exists>w'. wr_write wr v w = Some (Ok (), w') \<and> wr_wired payload wr w' \<and> wr_seq wr w' = wr_seq wr w + 2 \<and>
    w_segs w' = w_segs w \<and>
    ds_read (w_segs w ! wr_segment wr) (wr_data_offset wr) payload (w_mem w') = v"
proof -
  have "ds_read (w_segs w ! wr_segment wr) (wr_data_offset wr) payload
      (ds_write (w_segs w ! wr_segment wr) (wr_data_offset wr) v (w_mem w)) = v"
    using ds_read_write_same [of _ _ v] assms by (simp add: wr_wired_def)
  then show ?thesis using assms by (simp add: wr_write_def Let_def wr_wired_def wr_seq_def)
qed

lemma wr_writes_wired:
  assumes "wr_wired payload wr w" and "\<forall>v \<in> set vs. length v = payload"
  shows "\<exists>w'. wr_writes wr vs w = Some w' \<and> wr_wired payload wr w' \<and>
    wr_seq wr w' = wr_seq wr w + of_nat (2 * length vs) \<and> w_segs w' = w_segs w \<and>
    (vs \<noteq> [] \<longrightarrow> ds_read (w_segs w ! wr_segment wr) (wr_data_offset wr) payload (w_mem w') = last vs)"
  using assms
proof (induction vs arbitrary: w)
  case (Cons v vs)
  obtain w1 where w1: "wr_write wr v w = Some (Ok (), w1)" "wr_wired payload wr w1"
      "wr_seq wr w1 = wr_seq wr w + 2" "w_segs w1 = w_segs w"
      "ds_read (w_segs w ! wr_segment wr) (wr_data_offset wr) payload (w_mem w1) = v"
    using wr_write_wired [of payload wr w v] Cons.prems by auto
  obtain w2 where w2: "wr_writes wr vs w1 = Some w2" "wr_wired payload wr w2"
      "wr_seq wr w2 = wr_seq wr w1 + of_nat (2 * length vs)" "w_segs w2 = w_segs w1"
      "vs \<noteq> [] \<longrightarrow> ds_read (w_segs w1 ! wr_segment wr) (wr_data_offset wr) payload (w_mem w2) = last vs"
    using Cons.IH [OF w1(2)] Cons.prems by auto
  show ?case using w1 w2 by (cases vs) auto
qed simp

text \<open>What a reader finds after any number of writes on a fresh blackboard.\<close>

lemma rd_read_after_writes:
  assumes wired: "wr_wired payload wr w'" "wr_seq wr w' = 0" "rd_of wr rd"
    and vs: "\<forall>v \<in> set vs. length v = payload" "length vs < 2 ^ 63"
  shows "\<exists>w''. wr_writes wr vs w' = Some w'' \<and>
    rd_read (Suc turns) payload rd w'' = Some (Done (Ok (if vs = [] then None else Some (last vs))))"
proof -
  obtain w'' where w'': "wr_writes wr vs w' = Some w''" "wr_wired payload wr w''"
      "wr_seq wr w'' = of_nat (2 * length vs)" "w_segs w'' = w_segs w'"
      "vs \<noteq> [] \<longrightarrow> ds_read (w_segs w' ! wr_segment wr) (wr_data_offset wr) payload (w_mem w'') = last vs"
    using wr_writes_wired [OF wired(1) vs(1)] wired(2) by auto
  have zero: "wr_seq wr w'' = 0 \<longleftrightarrow> vs = []"
    using seq_same [of 0 "length vs"] vs(2) w''(3) by auto
  have even: "wr_seq wr w'' AND 1 = 0" using seq_even w''(3) by metis
  have "rd_read (Suc turns) payload rd w'' = Some (Done (Ok (if vs = [] then None else Some (last vs))))"
    using zero even w''(2,4,5) wired(3) by (auto simp: wr_wired_def rd_of_def wr_seq_def Let_def)
  then show ?thesis using w''(1) by blast
qed

text \<open>C12: the blackboard holds the last value written. A reader of a blackboard, whenever it was built
  from the writer's registration, finds no value before the first write, and after any number of
  writes (below the \<open>2\<^sup>6\<^sup>3\<close> at which the counter returns to zero) exactly the bytes of the last
  one; neither the writes nor the read fail or spin.\<close>

theorem blackboard_last_write:
  assumes "layout_fits (max (of_nat payload) 8) 1" and "payload < 2 ^ 64"
    and "wr_create os service node payload sh w = Some (Ok wr, sh', w')"
    and "rd_create service' node' sh' = Ok rd"
    and "\<forall>v \<in> set vs. length v = payload" and "length vs < 2 ^ 63"
  shows "\<exists>w''. wr_writes wr vs w' = Some w'' \<and>
    rd_read (Suc turns) payload rd w'' = Some (Done (Ok (if vs = [] then None else Some (last vs))))"
proof -
  have wired: "wr_wired payload wr w'" "wr_seq wr w' = 0" "rd_of wr rd"
    using wr_create_wired [OF assms(1-3), of service' node'] assms(4) by auto
  then show ?thesis using rd_read_after_writes assms(5,6) by blast
qed

text \<open>A process without ports.\<close>

definition no_ports :: "memory \<Rightarrow> bb_world" where
  "no_ports mem = \<lparr>w_mem = mem, w_segs = [], w_chans = [], w_lists = [], w_loans = [], w_clients = [],
     w_sequences = []\<rparr>"

lemma wr_create_ok:
  "\<exists>wr sh w. wr_create nix_ok ''temp'' (NodeId 1) 2 \<lparr>bbs_writer = None, bbs_service_name = ''temp''\<rparr>
     (no_ports (\<lambda>_. 0)) = Some (Ok wr, sh, w)"
proof -
  let ?name = "bb_segment_name ''temp'' (NodeId 1)"
  have fits: "layout_fits 8 1" by (simp add: layout_fits_def SENTINEL_def)
  have "\<exists>shm mem. shm_create nix_ok ?name (HEADER_SIZE + align8 8 * ucast (1 :: u32)) (\<lambda>_. 0) = (Ok shm, mem)"
    by (simp add: shm_create_def Let_def nix_ok_def do_mmap_def HEADER_SIZE_def align8_def)
  then obtain d mem where d: "ds_create nix_ok ?name 8 1 0 (\<lambda>_. 0) = Some (Ok d, mem)"
    using ds_create_wf [OF fits] by metis
  then have wf: "ds_wf d" "ds_free d = ds_chunks d" using ds_create_OkD [OF fits d] by simp_all
  then have "ds_free d \<noteq> {}" using ds_wf_first_chunk [OF wf(1)] by auto
  then obtain a s where "ds_allocate d = Some (Ok a, s)" using ds_allocate_free [OF wf(1)] by blast
  then show ?thesis using d by (simp add: wr_create_def no_ports_def Let_def max_def)
qed

theorem blackboard_last_write_witness:
  "\<exists>wr sh w rd. wr_create nix_ok ''temp'' (NodeId 1) 2 \<lparr>bbs_writer = None, bbs_service_name = ''temp''\<rparr>
      (no_ports (\<lambda>_. 0)) = Some (Ok wr, sh, w) \<and>
    rd_create ''temp'' (NodeId 2) sh = Ok rd \<and>
    (\<exists>w'. wr_writes wr [[1, 2], [3, 4]] w = Some w' \<and> rd_read 1 2 rd w' = Some (Done (Ok (Some [3, 4]))))"
proof -
  have fits: "layout_fits (max (of_nat 2) 8) 1" by (simp add: layout_fits_def SENTINEL_def max_def)
  obtain wr sh w where w: "wr_create nix_ok ''temp'' (NodeId 1) 2 \<lparr>bbs_writer = None, bbs_service_name = ''temp''\<rparr>
      (no_ports (\<lambda>_. 0)) = Some (Ok wr, sh, w)"
    using wr_create_ok by blast
  obtain rd where rd: "rd_create ''temp'' (NodeId 2) sh = Ok rd"
    using wr_create_wired [OF fits _ w, of "''temp''" "NodeId 2"] by auto
  have "\<exists>w'. wr_writes wr [[1, 2], [3, 4]] w = Some w' \<and> rd_read 1 2 rd w' = Some (Done (Ok (Some [3, 4])))"
    using blackboard_last_write [OF fits _ w rd, of "[[1, 2], [3, 4]]" 0] by simp
  then show ?thesis using w rd by blast
qed

subsection \<open>One writer\<close>

lemma ds_create_ptr: "ds_create os name c n seg mem = Some (Ok d, mem') \<Longrightarrow> shm_ptr (ds_shm d) \<noteq> 0"
  by (auto simp: ds_create_def Let_def split: bind_splits prod.splits result.splits dest: shm_create_OkD(2))

text \<open>There is one writer per blackboard, and readers follow it. Creating a writer for a blackboard
  that has one fails, with \<open>AlreadyExists\<close> unless the segment itself could not be created, and
  changes neither the registration nor a segment nor a counter; without a writer no reader can be
  created.\<close>

theorem blackboard_single_writer:
  assumes "layout_fits (max (of_nat payload) 8) 1"
  shows "(\<forall>reg. bbs_writer sh = Some reg \<longrightarrow>
      (\<exists>e mem. wr_create os service node payload sh w = Some (Err e, sh, w\<lparr>w_mem := mem\<rparr>) \<and>
         (e = IpcService (AlreadyExists service) \<or> (\<exists>p. e = IpcPlatform p)))) \<and>
    (bbs_writer sh = None \<longrightarrow> rd_create service node sh = Err (IpcService (NotFound service)))"
proof (intro conjI allI impI)
  fix reg
  assume reg: "bbs_writer sh = Some reg"
  obtain q mem where q: "ds_create os (bb_segment_name service node) (max (of_nat payload) 8) 1 0 (w_mem w) = Some (q, mem)"
    using ds_create_total [OF assms] by metis
  show "\<exists>e mem. wr_create os service node payload sh w = Some (Err e, sh, w\<lparr>w_mem := mem\<rparr>) \<and>
      (e = IpcService (AlreadyExists service) \<or> (\<exists>p. e = IpcPlatform p))"
  proof (cases q)
    case (Err e)
    then show ?thesis using q by (auto simp: wr_create_def Let_def)
  next
    case (Ok d)
    note d = ds_create_OkD [OF assms q [unfolded Ok]]
    then have "ds_free d \<noteq> {}" using ds_wf_first_chunk by auto
    then obtain a s where s: "ds_allocate d = Some (Ok a, s)" "ds_same s d"
      using ds_allocate_free [of d] d by blast
    have "shm_ptr (ds_shm d) \<noteq> 0" using ds_create_ptr [OF q [unfolded Ok]] .
    then have "shm_drop (ds_shm s) \<noteq> None" using s(2) by (simp add: shm_drop_def ds_same_def)
    then obtain calls where "shm_drop (ds_shm s) = Some calls" by blast
    then show ?thesis using q Ok reg s(1) by (auto simp: wr_create_def Let_def)
  qed
qed (simp add: rd_create_def)

theorem blackboard_single_writer_witness:
  "let sh = \<lparr>bbs_writer = Some \<lparr>wreg_segment = 0, wreg_sequence = 0, wreg_data_offset = PointerOffset 64\<rparr>,
             bbs_service_name = ''temp''\<rparr>;
       w = (no_ports (\<lambda>_. 0))
   in layout_fits (max (of_nat 2) 8) 1 \<and>
     (\<exists>e mem. wr_create nix_ok ''temp'' (NodeId 1) 2 sh w = Some (Err e, sh, w\<lparr>w_mem := mem\<rparr>))"
proof -
  have fits: "layout_fits (max (of_nat 2) 8) 1" by (simp add: layout_fits_def SENTINEL_def max_def)
  from blackboard_single_writer [OF this] fits show ?thesis unfolding Let_def by fastforce
qed

subsection \<open>A write as a run of single steps\<close>

text \<open>The counter and memory that the writer works on.\<close>

definition wr_lock :: "bb_writer \<Rightarrow> bb_world \<Rightarrow> seqlock" where
  "wr_lock wr w = \<lparr>sl_sequence = wr_seq wr w, sl_mem = w_mem w\<rparr>"

definition wr_addr :: "bb_writer \<Rightarrow> bb_world \<Rightarrow> u64" where
  "wr_addr wr w = ds_resolve_ptr (w_segs w ! wr_segment wr) (wr_data_offset wr)"

definition writer_go :: "u64 \<Rightarrow> seqlock \<times> writer_pc \<Rightarrow> seqlock \<times> writer_pc" where
  "writer_go addr s = writer_step addr (fst s) (snd s)"

lemma write_list_snoc:
  assumes "k < length v" and "length v \<le> 2 ^ 64"
  shows "(write_list addr (take k v) mem)(addr + of_nat k := v ! k) = write_list addr (take (Suc k) v) mem"
proof
  fix a
  have k: "unat (of_nat k :: u64) = k" using assms by (simp add: unat_of_nat_less)
  have at: "a = addr + of_nat k \<longleftrightarrow> unat (a - addr) = k"
  proof
    assume "unat (a - addr) = k"
    moreover have "of_nat (unat (a - addr)) = a - addr" by simp
    ultimately have "a - addr = of_nat k" by simp
    then show "a = addr + of_nat k" by (simp add: algebra_simps)
  qed (simp add: k)
  show "((write_list addr (take k v) mem)(addr + of_nat k := v ! k)) a = write_list addr (take (Suc k) v) mem a"
    using assms(1) unfolding fun_upd_def at by (auto simp: write_list_def less_Suc_eq)
qed

lemma writer_go_bytes:
  assumes "k \<le> length v" and "length v \<le> 2 ^ 64"
  shows "(writer_go addr ^^ k) (l, WBytes v seq 0) = (l\<lparr>sl_mem := write_list addr (take k v) (sl_mem l)\<rparr>, WBytes v seq k)"
  using assms
proof (induction k)
  case 0
  show ?case by (simp add: write_list_def)
next
  case (Suc k)
  then show ?case using write_list_snoc [of k v addr "sl_mem l"] by (simp add: writer_go_def)
qed

text \<open>\<open>Writer::write\<close> as one call and as single steps are the same. Run without interference, the
  \<open>length v + 3\<close> atomic and byte-wise steps of a write end in the counter and memory that the
  method leaves, so what is proved of interleaved steps is about this method.\<close>

lemma wr_write_runs:
  assumes "wr_wired (length v) wr w" and "wr_write wr v w = Some (r, w')"
  shows "((\<lambda>s. writer_step (wr_addr wr w) (fst s) (snd s)) ^^ (length v + 3)) (wr_lock wr w, WStart v) =
    (wr_lock wr w', WDone)"
proof -
  let ?addr = "wr_addr wr w" and ?l = "wr_lock wr w"
  have small: "length v \<le> 2 ^ 64"
    using assms(1) unsigned_less [of "ds_chunk_size (w_segs w ! wr_segment wr)", where ?'a = nat]
    by (simp add: wr_wired_def)
  have "writer_go ?addr (writer_go ?addr (?l, WStart v)) =
      (?l\<lparr>sl_sequence := wr_seq wr w + 1\<rparr>, WBytes v (wr_seq wr w) 0)"
    by (simp add: writer_go_def wr_lock_def)
  then have "(writer_go ?addr ^^ (length v + 3)) (?l, WStart v) =
      writer_go ?addr ((writer_go ?addr ^^ length v) (?l\<lparr>sl_sequence := wr_seq wr w + 1\<rparr>, WBytes v (wr_seq wr w) 0))"
    by (simp add: numeral_3_eq_3 funpow_swap1)
  also have "\<dots> = (\<lparr>sl_sequence = wr_seq wr w + 2, sl_mem = write_list ?addr v (w_mem w)\<rparr>, WDone)"
    using writer_go_bytes [OF order_refl small] by (simp add: writer_go_def wr_lock_def)
  also have "\<dots> = (wr_lock wr w', WDone)"
    using assms by (auto simp: wr_write_def wr_wired_def wr_lock_def wr_seq_def wr_addr_def ds_write_def Let_def)
  finally show ?thesis by (simp add: writer_go_def [abs_def])
qed

end
