(* ===== verification/Directory_Specs.thy ===== *)
theory Directory_Specs
  imports Service_Types
begin

text \<open>
  The contract between the service lifecycle and the registry below it: a directory of service
  configurations. A name selects a file (\<open>key\<close>); a file is absent, holds a configuration, or holds
  text that is not one. Calls are made in an environment, and the laws speak of calm ones, in which
  the operating system reports no fault of its own.
\<close>

locale config_directory =
  fixes invar :: "'s \<Rightarrow> bool"
    and calm :: "'e \<Rightarrow> bool"
    and key :: "string \<Rightarrow> string"
    and find :: "'s \<Rightarrow> string \<Rightarrow> ('c, string) result option"
    and cname :: "'c \<Rightarrow> string"
    and register :: "'e \<Rightarrow> 'c \<Rightarrow> 's \<Rightarrow> (string, service_error) result \<times> 's"
    and lookup :: "'e \<Rightarrow> string \<Rightarrow> 's \<Rightarrow> ('c, service_error) result"
    and unregister :: "'e \<Rightarrow> string \<Rightarrow> 's \<Rightarrow> (unit, service_error) result \<times> 's"
  assumes register_absent:
      "invar s \<Longrightarrow> calm e \<Longrightarrow> find s (key (cname c)) = None \<Longrightarrow>
         \<exists>s'. register e c s = (Ok (key (cname c)), s') \<and> invar s' \<and>
              find s' = (find s)(key (cname c) \<mapsto> Ok c)"
    and register_present:
      "invar s \<Longrightarrow> calm e \<Longrightarrow> find s (key (cname c)) \<noteq> None \<Longrightarrow>
         \<exists>s'. register e c s = (Err (AlreadyExists (cname c)), s') \<and> invar s' \<and> find s' = find s"
    and lookup_law:
      "invar s \<Longrightarrow> calm e \<Longrightarrow> lookup e n s =
         (case find s (key n) of
            None \<Rightarrow> Err (NotFound n)
          | Some (Err m) \<Rightarrow> Err (Corrupted (''deserialization failed: '' @ m))
          | Some (Ok c) \<Rightarrow> Ok c)"
    and unregister_law:
      "invar s \<Longrightarrow> calm e \<Longrightarrow>
         \<exists>s'. unregister e n s = (Ok (), s') \<and> invar s' \<and> find s' = (find s)(key n := None)"
begin

text \<open>What was registered is found, under every name that selects the same file, and nothing else
  changed.\<close>

lemma lookup_after_register:
  assumes "invar s" and "calm e" and "calm e'" and "register e c s = (Ok p, s')"
  shows "lookup e' n s' = (if key n = key (cname c) then Ok c else lookup e' n s)"
    and "invar s'" and "find s (key (cname c)) = None" and "find s' = (find s)(key (cname c) \<mapsto> Ok c)"
proof -
  show none: "find s (key (cname c)) = None"
    using assms register_present [of s e c] by fastforce
  show inv: "invar s'" and find: "find s' = (find s)(key (cname c) \<mapsto> Ok c)"
    using register_absent [OF assms(1,2) none] assms(4) by auto
  show "lookup e' n s' = (if key n = key (cname c) then Ok c else lookup e' n s)"
    using lookup_law [OF inv assms(3)] lookup_law [OF assms(1,3)] find by simp
qed

lemma lookup_after_failed_register:
  assumes "invar s" and "calm e" and "calm e'" and "register e c s = (Err x, s')"
  shows "lookup e' n s' = lookup e' n s" and "invar s'" and "x = AlreadyExists (cname c)"
proof -
  have "find s (key (cname c)) \<noteq> None"
    using assms register_absent [of s e c] by fastforce
  from register_present [OF assms(1,2) this] assms(4)
  have inv: "invar s'" and "find s' = find s" and "x = AlreadyExists (cname c)" by auto
  then show "invar s'" "x = AlreadyExists (cname c)" "lookup e' n s' = lookup e' n s"
    using lookup_law [OF inv assms(3)] lookup_law [OF assms(1,3)] by simp_all
qed

lemma unregister_undoes_register:
  assumes "invar s" and "calm e" and "calm e'" and "register e c s = (Ok p, s')"
  shows "\<exists>s''. unregister e' (cname c) s' = (Ok (), s'') \<and> invar s'' \<and> find s'' = find s"
proof -
  note r = lookup_after_register [OF assms]
  have "((find s)(key (cname c) \<mapsto> Ok c))(key (cname c) := None) = find s"
    using r(3) by (simp add: fun_upd_idem)
  then show ?thesis using unregister_law [OF r(2) assms(3), of "cname c"] r(4) by simp
qed

lemma lookup_NotFound_iff:
  "invar s \<Longrightarrow> calm e \<Longrightarrow> lookup e n s = Err (NotFound m) \<longleftrightarrow> m = n \<and> find s (key n) = None"
  by (auto simp: lookup_law split: option.splits result.splits)

end

end
