(* ===== verification/Service_Registry.thy ===== *)
theory Service_Registry
  imports Directory_Specs File_System
begin

text \<open>
  Service discovery: \<open>StaticConfig\<close> (\<open>service/config.rs\<close>), the file-based \<open>ServiceRegistry\<close>
  (\<open>service/registry.rs\<close>) and \<open>ServiceLifecycle\<close> (\<open>service/lifecycle.rs\<close>). The RON serializer is a
  parameter; what the code relies on is that reading back what was written gives the same
  configuration (\<open>ron_ok\<close>).
\<close>

subsection \<open>Static configurations\<close>

record static_config =
  sc_magic :: u64
  sc_version :: u32
  sc_pattern :: pattern_type
  sc_service_name :: string
  sc_payload_type_name :: string
  sc_payload_size :: usize
  sc_payload_align :: usize

definition sc_new :: "pattern_type \<Rightarrow> string \<Rightarrow> string \<Rightarrow> usize \<Rightarrow> usize \<Rightarrow> static_config" where
  "sc_new pattern service_name payload_type_name payload_size payload_align =
     \<lparr>sc_magic = MAGIC_NUMBER, sc_version = 1, sc_pattern = pattern, sc_service_name = service_name,
      sc_payload_type_name = payload_type_name, sc_payload_size = payload_size,
      sc_payload_align = payload_align\<rparr>"

fun show_pattern :: "pattern_type \<Rightarrow> string" where
  "show_pattern PubSub = ''PubSub''"
| "show_pattern Event = ''Event''"
| "show_pattern ReqRes = ''ReqRes''"
| "show_pattern Blackboard = ''Blackboard''"

definition validate_compatibility :: "static_config \<Rightarrow> static_config \<Rightarrow> (unit, service_error) result" where
  "validate_compatibility c other =
     (if sc_magic c \<noteq> sc_magic other then Err (Corrupted ''invalid magic number'')
      else if sc_version c \<noteq> sc_version other
      then Err (VersionMismatch (sc_version c) (sc_version other))
      else if sc_pattern c \<noteq> sc_pattern other
      then Err (IncompatibleQos
        (''pattern mismatch: expected '' @ show_pattern (sc_pattern c) @ '', found '' @
         show_pattern (sc_pattern other)))
      else if sc_payload_size c \<noteq> sc_payload_size other \<or> sc_payload_align c \<noteq> sc_payload_align other
      then Err (IncompatibleQos
        (''payload layout mismatch: '' @ dec_string (unat (sc_payload_size c)) @ ''B/'' @
         dec_string (unat (sc_payload_align c)) @ '' vs '' @
         dec_string (unat (sc_payload_size other)) @ ''B/'' @
         dec_string (unat (sc_payload_align other))))
      else Ok ())"

subsection \<open>The registry\<close>

record ron =
  ron_to_string :: "static_config \<Rightarrow> (string, string) result"
  ron_from_str :: "string \<Rightarrow> (static_config, string) result"

record service_registry =
  reg_root :: path

definition reg_new :: "path \<Rightarrow> service_registry" where
  "reg_new root = \<lparr>reg_root = path_join root ''services''\<rparr>"

definition service_path :: "service_registry \<Rightarrow> string \<Rightarrow> path" where
  "service_path r name = path_join (reg_root r) (replace_char CHR ''/'' CHR ''_'' name @ ''.ron'')"

definition reg_register ::
  "ron \<Rightarrow> service_registry \<Rightarrow> io_env \<Rightarrow> static_config \<Rightarrow> file_system \<Rightarrow>
     (path, service_error) result \<times> file_system" where
  "reg_register rn r env c fs =
     (case fs_create_dir_all env (reg_root r) fs of
        (Err e, fs) \<Rightarrow> (Err (ServicePlatform (Io e)), fs)
      | (Ok _, fs) \<Rightarrow>
          let path = service_path r (sc_service_name c)
          in case ron_to_string rn c of
               Err e \<Rightarrow> (Err (Corrupted (''serialization failed: '' @ e)), fs)
             | Ok serialized \<Rightarrow>
                 (case fs_create_new env path fs of
                    (Err FileExists, fs) \<Rightarrow> (Err (AlreadyExists (sc_service_name c)), fs)
                  | (Err (OpenFailed e), fs) \<Rightarrow> (Err (ServicePlatform (Io e)), fs)
                  | (Ok f, fs) \<Rightarrow>
                      (case fs_write_all env path f serialized fs of
                         (Err e, fs) \<Rightarrow> (Err (ServicePlatform (Io e)), fs_close f fs)
                       | (Ok _, fs) \<Rightarrow> (Ok path, fs_close f fs))))"

definition reg_lookup ::
  "ron \<Rightarrow> service_registry \<Rightarrow> io_env \<Rightarrow> string \<Rightarrow> file_system \<Rightarrow> (static_config, service_error) result" where
  "reg_lookup rn r env name fs =
     (case fs_read_to_string env (service_path r name) fs of
        None \<Rightarrow> Err (NotFound name)
      | Some data \<Rightarrow>
          map_err (\<lambda>e. Corrupted (''deserialization failed: '' @ e)) (ron_from_str rn data))"

definition reg_unregister ::
  "service_registry \<Rightarrow> io_env \<Rightarrow> string \<Rightarrow> file_system \<Rightarrow> (unit, service_error) result \<times> file_system" where
  "reg_unregister r env name fs =
     (let path = service_path r name
      in if fs_exists env path fs
         then case fs_remove_file env path fs of
                (Err e, fs) \<Rightarrow> (Err (ServicePlatform (Io e)), fs)
              | (Ok _, fs) \<Rightarrow> (Ok (), fs)
         else (Ok (), fs))"

text \<open>The loop of \<open>list\<close>: entries that cannot be read or parsed are left out.\<close>

fun reg_collect ::
  "ron \<Rightarrow> service_registry \<Rightarrow> io_env \<Rightarrow> file_system \<Rightarrow> (string, string) result list \<Rightarrow> static_config list" where
  "reg_collect rn r env fs [] = []"
| "reg_collect rn r env fs (Err e # entries) = reg_collect rn r env fs entries"
| "reg_collect rn r env fs (Ok entry # entries) =
     (case fs_read_to_string env (path_join (reg_root r) entry) fs of
        None \<Rightarrow> reg_collect rn r env fs entries
      | Some data \<Rightarrow>
          (case ron_from_str rn data of
             Err e \<Rightarrow> reg_collect rn r env fs entries
           | Ok c \<Rightarrow> c # reg_collect rn r env fs entries))"

definition reg_list ::
  "ron \<Rightarrow> service_registry \<Rightarrow> io_env \<Rightarrow> file_system \<Rightarrow> (static_config list, service_error) result" where
  "reg_list rn r env fs =
     (if \<not> fs_exists env (reg_root r) fs then Ok []
      else case read_dir env (reg_root r) of
             Err e \<Rightarrow> Err (ServicePlatform (Io e))
           | Ok entries \<Rightarrow> Ok (reg_collect rn r env fs entries))"

subsection \<open>The lifecycle\<close>

record service_lifecycle =
  lc_registry :: service_registry

definition lc_new :: "path \<Rightarrow> service_lifecycle" where
  "lc_new root = \<lparr>lc_registry = reg_new root\<rparr>"

definition lc_create ::
  "ron \<Rightarrow> service_lifecycle \<Rightarrow> io_env \<Rightarrow> static_config \<Rightarrow> file_system \<Rightarrow>
     (unit, service_error) result \<times> file_system" where
  "lc_create rn lc env c fs =
     (case reg_register rn (lc_registry lc) env c fs of (r, fs) \<Rightarrow> (map_ok (\<lambda>_. ()) r, fs))"

definition lc_open ::
  "ron \<Rightarrow> service_lifecycle \<Rightarrow> io_env \<Rightarrow> static_config \<Rightarrow> file_system \<Rightarrow>
     (static_config, service_error) result" where
  "lc_open rn lc env expected fs =
     (case reg_lookup rn (lc_registry lc) env (sc_service_name expected) fs of
        Err e \<Rightarrow> Err e
      | Ok existing \<Rightarrow> map_ok (\<lambda>_. existing) (validate_compatibility expected existing))"

definition lc_open_or_create ::
  "ron \<Rightarrow> service_lifecycle \<Rightarrow> io_env \<Rightarrow> static_config \<Rightarrow> file_system \<Rightarrow>
     (static_config, service_error) result \<times> file_system" where
  "lc_open_or_create rn lc env c fs =
     (case lc_open rn lc env c fs of
        Ok existing \<Rightarrow> (Ok existing, fs)
      | Err (NotFound n) \<Rightarrow>
          (case lc_create rn lc env c fs of (r, fs) \<Rightarrow> (map_ok (\<lambda>_. c) r, fs))
      | Err e \<Rightarrow> (Err e, fs))"

definition lc_destroy ::
  "service_lifecycle \<Rightarrow> io_env \<Rightarrow> string \<Rightarrow> file_system \<Rightarrow> (unit, service_error) result \<times> file_system" where
  "lc_destroy lc env name fs = reg_unregister (lc_registry lc) env name fs"

subsection \<open>The registry as a directory\<close>

definition ron_ok :: "ron \<Rightarrow> bool" where
  "ron_ok rn \<longleftrightarrow> (\<forall>c. \<exists>s. ron_to_string rn c = Ok s \<and> ron_from_str rn s = Ok c)"

text \<open>The registry may be used when the serializer round-trips, the file system is well formed and
  no service file is a directory.\<close>

definition reg_ok :: "ron \<Rightarrow> service_registry \<Rightarrow> file_system \<Rightarrow> bool" where
  "reg_ok rn r fs \<longleftrightarrow> ron_ok rn \<and> fs_wf fs \<and> (\<forall>n. service_path r n \<notin> fs_dirs fs)"

definition reg_find :: "ron \<Rightarrow> file_system \<Rightarrow> path \<Rightarrow> (static_config, string) result option" where
  "reg_find rn fs p = map_option (ron_from_str rn) (fs_content fs p)"

lemma service_path_form:
  "\<exists>x. service_path r n = x @ replace_char CHR ''/'' CHR ''_'' n @ ''.ron''"
  by (auto simp: service_path_def path_join_def)

lemma service_path_not_root: "service_path r n \<noteq> reg_root r"
proof
  assume "service_path r n = reg_root r"
  then have "length (service_path r n) = length (reg_root r)" by simp
  moreover have "hd (replace_char CHR ''/'' CHR ''_'' n @ ''.ron'') \<noteq> CHR ''/''"
    by (cases n) (auto simp: replace_char_def)
  ultimately show False by (auto simp: service_path_def path_join_def split: if_splits)
qed

lemma service_path_eq_iff:
  "service_path r m = service_path r n \<longleftrightarrow>
     replace_char CHR ''/'' CHR ''_'' m = replace_char CHR ''/'' CHR ''_'' n"
proof -
  have "CHR ''/'' \<notin> set (replace_char CHR ''/'' CHR ''_'' k @ ''.ron'')" for k
    by (auto simp: replace_char_def)
  then show ?thesis by (simp add: service_path_def path_join_inj)
qed

text \<open>Writing a new service file changes that file only.\<close>

lemma reg_register_absent:
  assumes "reg_ok rn r fs" and "io_calm env" and "reg_find rn fs (service_path r (sc_service_name c)) = None"
  shows "\<exists>fs'. reg_register rn r env c fs = (Ok (service_path r (sc_service_name c)), fs') \<and>
    reg_ok rn r fs' \<and> reg_find rn fs' = (reg_find rn fs)(service_path r (sc_service_name c) \<mapsto> Ok c)"
proof -
  let ?p = "service_path r (sc_service_name c)" and ?i = "fs_next_inode fs"
  obtain s where s: "ron_to_string rn c = Ok s" "ron_from_str rn s = Ok c"
    using assms(1) by (auto simp: reg_ok_def ron_ok_def)
  have p: "fs_names fs ?p = None" "?p \<notin> fs_dirs fs" "?p \<noteq> reg_root r"
    using assms service_path_not_root by (auto simp: reg_find_def fs_content_def reg_ok_def)
  have wf: "fs_wf fs" using assms(1) by (simp add: reg_ok_def)
  define fs' where "fs' = fs\<lparr>fs_dirs := insert (reg_root r) (fs_dirs fs),
    fs_names := (fs_names fs)(?p \<mapsto> ?i), fs_data := (fs_data fs)(?i := s),
    fs_locks := (fs_locks fs)(?i := None), fs_next_inode := Suc ?i, fs_next_fd := Suc (fs_next_fd fs)\<rparr>"
  have eq: "reg_register rn r env c fs = (Ok ?p, fs')"
    using assms(2) s(1) p by (simp add: reg_register_def fs_defs fs'_def Let_def)
  have find: "reg_find rn fs' q = ((reg_find rn fs)(?p \<mapsto> Ok c)) q" for q
    using wf s(2) by (cases "fs_names fs q") (auto simp: reg_find_def fs_content_def fs'_def fs_wf_def)
  have "fs_wf fs'"
    using wf unfolding fs_wf_def fs'_def by (auto simp: less_Suc_eq)
  then have "reg_ok rn r fs'"
    using assms(1) service_path_not_root by (auto simp: reg_ok_def fs'_def)
  then show ?thesis using eq find by blast
qed

lemma reg_register_present:
  assumes "reg_ok rn r fs" and "io_calm env" and "reg_find rn fs (service_path r (sc_service_name c)) \<noteq> None"
  shows "\<exists>fs'. reg_register rn r env c fs = (Err (AlreadyExists (sc_service_name c)), fs') \<and>
    reg_ok rn r fs' \<and> reg_find rn fs' = reg_find rn fs"
proof -
  let ?fs = "fs\<lparr>fs_dirs := insert (reg_root r) (fs_dirs fs)\<rparr>"
  obtain s where "ron_to_string rn c = Ok s"
    using assms(1) by (auto simp: reg_ok_def ron_ok_def)
  moreover have "fs_names fs (service_path r (sc_service_name c)) \<noteq> None"
    using assms(3) by (auto simp: reg_find_def fs_content_def)
  ultimately have "reg_register rn r env c fs = (Err (AlreadyExists (sc_service_name c)), ?fs)"
    using assms(2) by (auto simp: reg_register_def fs_defs Let_def)
  moreover have "reg_ok rn r ?fs"
    using assms(1) service_path_not_root by (auto simp: reg_ok_def fs_wf_def)
  moreover have "reg_find rn ?fs = reg_find rn fs"
    by (simp add: reg_find_def fs_content_def fun_eq_iff)
  ultimately show ?thesis by blast
qed

lemma reg_lookup_find:
  assumes "io_calm env"
  shows "reg_lookup rn r env n fs =
    (case reg_find rn fs (service_path r n) of
       None \<Rightarrow> Err (NotFound n)
     | Some (Err m) \<Rightarrow> Err (Corrupted (''deserialization failed: '' @ m))
     | Some (Ok c) \<Rightarrow> Ok c)"
  using assms
  by (auto simp: reg_lookup_def reg_find_def fs_read_to_string_def split: option.splits result.splits)

lemma reg_unregister_find:
  assumes "reg_ok rn r fs" and "io_calm env"
  shows "\<exists>fs'. reg_unregister r env n fs = (Ok (), fs') \<and> reg_ok rn r fs' \<and>
    reg_find rn fs' = (reg_find rn fs)(service_path r n := None)"
proof (cases "fs_names fs (service_path r n)")
  case None
  then show ?thesis
    using assms by (auto simp: reg_unregister_def fs_exists_def reg_ok_def reg_find_def fs_content_def fun_eq_iff)
next
  case (Some i)
  let ?fs = "fs\<lparr>fs_names := (fs_names fs)(service_path r n := None)\<rparr>"
  have "reg_unregister r env n fs = (Ok (), ?fs)"
    using Some assms(2) by (simp add: reg_unregister_def fs_exists_def fs_remove_file_def)
  moreover have "fs_wf ?fs" using assms(1) by (auto simp: fs_wf_def reg_ok_def)
  ultimately show ?thesis
    using assms(1) by (auto simp: reg_ok_def reg_find_def fs_content_def fun_eq_iff)
qed

interpretation reg: config_directory "reg_ok rn r" io_calm "service_path r" "reg_find rn" sc_service_name
  "reg_register rn r" "reg_lookup rn r" "reg_unregister r"
  by unfold_locales
    (rule reg_register_absent reg_register_present reg_lookup_find reg_unregister_find; assumption)+

subsection \<open>A serializer that round-trips\<close>

text \<open>A concrete instance of the serializer for the witnesses: fixed-width binary fields and texts
  with a mark before every character.\<close>

definition put_word :: "'a::len word \<Rightarrow> string" where
  "put_word w = map (\<lambda>i. if bit w i then CHR ''1'' else CHR ''0'') [0..<LENGTH('a)]"

definition get_word :: "string \<Rightarrow> 'a::len word" where
  "get_word s = horner_sum of_bool 2 (map (\<lambda>c. c = CHR ''1'') s)"

fun put_text :: "string \<Rightarrow> string" where
  "put_text [] = ''e''"
| "put_text (c # s) = CHR ''c'' # c # put_text s"

fun get_text :: "string \<Rightarrow> (string \<times> string) option" where
  "get_text (x # s) =
     (if x = CHR ''e'' then Some ([], s)
      else case s of [] \<Rightarrow> None | c # s \<Rightarrow> map_option (\<lambda>(t, rest). (c # t, rest)) (get_text s))"
| "get_text [] = None"

fun get_pattern :: "string \<Rightarrow> pattern_type" where
  "get_pattern (c # s) =
     (if c = CHR ''P'' then PubSub else if c = CHR ''E'' then Event
      else if c = CHR ''R'' then ReqRes else Blackboard)"
| "get_pattern [] = Blackboard"

definition ron_plain :: ron where
  "ron_plain =
     \<lparr>ron_to_string = (\<lambda>c. Ok (put_word (sc_magic c) @ put_word (sc_version c) @
        put_word (sc_payload_size c) @ put_word (sc_payload_align c) @ put_text (show_pattern (sc_pattern c)) @
        put_text (sc_service_name c) @ put_text (sc_payload_type_name c))),
      ron_from_str = (\<lambda>s.
        case get_text (drop 224 s) of None \<Rightarrow> Err ''pattern'' | Some (p, s1) \<Rightarrow>
        (case get_text s1 of None \<Rightarrow> Err ''name'' | Some (n, s2) \<Rightarrow>
        (case get_text s2 of None \<Rightarrow> Err ''type'' | Some (t, s3) \<Rightarrow>
           Ok \<lparr>sc_magic = get_word (take 64 s), sc_version = get_word (take 32 (drop 64 s)),
               sc_pattern = get_pattern p, sc_service_name = n, sc_payload_type_name = t,
               sc_payload_size = get_word (take 64 (drop 96 s)),
               sc_payload_align = get_word (take 64 (drop 160 s))\<rparr>)))\<rparr>"

lemma get_put_word [simp]: "get_word (put_word w) = (w :: 'a::len word)"
proof -
  have "map (\<lambda>c. c = CHR ''1'') (put_word w) = map (bit w) [0..<LENGTH('a)]"
    by (simp add: put_word_def)
  then show ?thesis by (simp add: get_word_def horner_sum_bit_eq_take_bit)
qed

lemma length_put_word [simp]: "length (put_word (w :: 'a::len word)) = LENGTH('a)"
  by (simp add: put_word_def)

lemma get_put_text [simp]: "get_text (put_text s @ rest) = Some (s, rest)"
  by (induction s) auto

lemma get_put_text_end [simp]: "get_text (put_text s) = Some (s, [])"
  using get_put_text [of s "[]"] by simp

lemma get_show_pattern [simp]: "get_pattern (show_pattern p) = p"
  by (cases p) simp_all

lemma ron_plain_ok: "ron_ok ron_plain"
  unfolding ron_ok_def ron_plain_def by (simp add: Let_def)

subsection \<open>The lifecycle on the directory\<close>

lemma lc_open_or_create_cases:
  assumes ok: "reg_ok rn (lc_registry lc) fs" and env: "io_calm env"
  shows "lc_open_or_create rn lc env c fs =
    (case reg_lookup rn (lc_registry lc) env (sc_service_name c) fs of
       Ok d \<Rightarrow> (map_ok (\<lambda>_. d) (validate_compatibility c d), fs)
     | Err (NotFound n) \<Rightarrow> (Ok c, snd (reg_register rn (lc_registry lc) env c fs))
     | Err x \<Rightarrow> (Err x, fs))"
proof (cases "reg_lookup rn (lc_registry lc) env (sc_service_name c) fs")
  case (Ok d)
  have "validate_compatibility c d \<noteq> Err (NotFound n)" for n
    by (simp add: validate_compatibility_def)
  with Ok show ?thesis
    by (cases "validate_compatibility c d")
      (auto simp: lc_open_or_create_def lc_open_def split: service_error.splits)
next
  case (Err x)
  show ?thesis
  proof (cases "\<exists>n. x = NotFound n")
    case True
    then have "reg_find rn fs (service_path (lc_registry lc) (sc_service_name c)) = None"
      using Err reg.lookup_NotFound_iff [OF ok env] by auto
    from reg.register_absent [OF ok env this] True Err show ?thesis
      by (auto simp: lc_open_or_create_def lc_open_def lc_create_def)
  next
    case False
    with Err show ?thesis
      by (auto simp: lc_open_or_create_def lc_open_def split: service_error.splits)
  qed
qed

lemma validate_same [simp]: "validate_compatibility c c = Ok ()"
  by (simp add: validate_compatibility_def)

lemma lc_open_or_create_OkD:
  assumes ok: "reg_ok rn (lc_registry lc) fs" and env: "io_calm env" and env': "io_calm env'"
    and run: "lc_open_or_create rn lc env c fs = (Ok e, fs')"
  shows "reg_ok rn (lc_registry lc) fs'" and "validate_compatibility c e = Ok ()"
    and "reg_lookup rn (lc_registry lc) env' n fs' =
      (if service_path (lc_registry lc) n = service_path (lc_registry lc) (sc_service_name c) then Ok e
       else reg_lookup rn (lc_registry lc) env' n fs)"
proof -
  let ?r = "lc_registry lc" and ?n = "sc_service_name c"
  have "reg_ok rn ?r fs' \<and> validate_compatibility c e = Ok () \<and> reg_lookup rn ?r env' n fs' =
      (if service_path ?r n = service_path ?r ?n then Ok e else reg_lookup rn ?r env' n fs)"
  proof (cases "reg_lookup rn ?r env ?n fs")
    case (Ok d)
    then have "e = d \<and> fs' = fs \<and> validate_compatibility c d = Ok ()"
      using run lc_open_or_create_cases [OF ok env, of c] by (cases "validate_compatibility c d") auto
    then show ?thesis
      using ok Ok by (auto simp: reg_lookup_find [OF env] reg_lookup_find [OF env'] split: option.splits result.splits)
  next
    case (Err x)
    then obtain m where "x = NotFound m" and e: "e = c" and fs': "fs' = snd (reg_register rn ?r env c fs)"
      using run lc_open_or_create_cases [OF ok env, of c] by (auto split: service_error.splits)
    then have "reg_find rn fs (service_path ?r ?n) = None"
      using Err reg.lookup_NotFound_iff [OF ok env] by auto
    then obtain p where reg: "reg_register rn ?r env c fs = (Ok p, fs')"
      using reg.register_absent [OF ok env, of c] fs' by auto
    show ?thesis
      using reg.lookup_after_register(1,2) [OF ok env env' reg] e by auto
  qed
  then show "reg_ok rn ?r fs'" and "validate_compatibility c e = Ok ()"
    and "reg_lookup rn ?r env' n fs' =
      (if service_path ?r n = service_path ?r ?n then Ok e else reg_lookup rn ?r env' n fs)" by blast+
qed

subsection \<open>Properties\<close>

text \<open>C18: every participant of a service sees one configuration. Once some process has opened or
  created a service, any later \<open>open_or_create\<close> that selects the same service file changes nothing on
  disk and returns that very configuration, or the exact incompatibility between the two; services
  under other files are looked up as before.\<close>

theorem lifecycle_agreement:
  assumes "reg_ok rn (lc_registry lc) fs" and "io_calm env" and "io_calm env'"
    and "lc_open_or_create rn lc env c fs = (Ok e, fs')"
    and "service_path (lc_registry lc) (sc_service_name d) = service_path (lc_registry lc) (sc_service_name c)"
  shows "lc_open_or_create rn lc env' d fs' = (map_ok (\<lambda>_. e) (validate_compatibility d e), fs') \<and>
    validate_compatibility c e = Ok () \<and>
    (\<forall>n. service_path (lc_registry lc) n \<noteq> service_path (lc_registry lc) (sc_service_name c) \<longrightarrow>
      reg_lookup rn (lc_registry lc) env' n fs' = reg_lookup rn (lc_registry lc) env' n fs)"
proof -
  note D = lc_open_or_create_OkD [OF assms(1,2,3,4)]
  have "lc_open_or_create rn lc env' d fs' = (map_ok (\<lambda>_. e) (validate_compatibility d e), fs')"
    using lc_open_or_create_cases [OF D(1) assms(3), of d] D(3) [of "sc_service_name d"] assms(5) by simp
  then show ?thesis using D(2,3) by simp
qed

lemma reg_ok_empty: "reg_ok ron_plain r fs_empty"
  by (simp add: reg_ok_def ron_plain_ok) (simp add: fs_empty_def)

lemma lookup_empty: "reg_lookup ron_plain r io_quiet n fs_empty = Err (NotFound n)"
  by (simp add: reg_lookup_find reg_find_def fs_content_def) (simp add: fs_empty_def)

lemma first_open_or_create:
  "lc_open_or_create ron_plain lc io_quiet c fs_empty =
     (Ok c, snd (lc_open_or_create ron_plain lc io_quiet c fs_empty))"
  by (simp add: lc_open_or_create_cases [OF reg_ok_empty] lookup_empty)

theorem lifecycle_agreement_witness:
  "let lc = lc_new ''/tmp/entangle''; c = sc_new PubSub ''radar/front'' ''u64'' 8 8;
       d = sc_new PubSub ''radar/front'' ''f64'' 8 8;
       fs' = snd (lc_open_or_create ron_plain lc io_quiet c fs_empty)
   in lc_open_or_create ron_plain lc io_quiet d fs' = (Ok c, fs')"
proof -
  let ?lc = "lc_new ''/tmp/entangle''" and ?c = "sc_new PubSub ''radar/front'' ''u64'' 8 8"
  let ?d = "sc_new PubSub ''radar/front'' ''f64'' 8 8"
  have "service_path (lc_registry ?lc) (sc_service_name ?d) = service_path (lc_registry ?lc) (sc_service_name ?c)"
    by (simp add: sc_new_def)
  from lifecycle_agreement [OF reg_ok_empty _ _ first_open_or_create this, of io_quiet]
  show ?thesis by (simp add: Let_def validate_compatibility_def sc_new_def)
qed

text \<open>What \<open>open\<close> checks of a service that \<open>create\<close> made. It succeeds exactly when the messaging
  pattern and the size and alignment of the payload agree; the recorded type names are not compared,
  so a service of one type opens as any other type of the same layout.\<close>

theorem create_then_open:
  assumes "reg_ok rn (lc_registry lc) fs" and "io_calm env" and "io_calm env'"
    and "lc_create rn lc env (sc_new p n t sz al) fs = (Ok (), fs')"
  shows "is_Ok (lc_open rn lc env' (sc_new p' n t' sz' al') fs') \<longleftrightarrow> p' = p \<and> sz' = sz \<and> al' = al"
proof -
  obtain q where "reg_register rn (lc_registry lc) env (sc_new p n t sz al) fs = (Ok q, fs')"
    using assms(4) by (auto simp: lc_create_def split: prod.splits elim!: map_ok.elims)
  from reg.lookup_after_register(1) [OF assms(1,2,3) this]
  have "reg_lookup rn (lc_registry lc) env' n fs' = Ok (sc_new p n t sz al)"
    by (simp add: sc_new_def)
  then show ?thesis
    by (auto simp: lc_open_def validate_compatibility_def sc_new_def)
qed

theorem create_then_open_witness:
  "let lc = lc_new ''/tmp/entangle'';
       fs' = snd (lc_create ron_plain lc io_quiet (sc_new PubSub ''a'' ''u64'' 8 8) fs_empty)
   in is_Ok (lc_open ron_plain lc io_quiet (sc_new PubSub ''a'' ''f64'' 8 8) fs') \<and>
      \<not> is_Ok (lc_open ron_plain lc io_quiet (sc_new PubSub ''a'' ''u32'' 4 4) fs')"
proof -
  let ?lc = "lc_new ''/tmp/entangle''" and ?c = "sc_new PubSub ''a'' ''u64'' 8 8"
  have "reg_find ron_plain fs_empty q = None" for q
    by (simp add: reg_find_def fs_content_def fs_empty_def)
  then obtain fs' where "reg_register ron_plain (lc_registry ?lc) io_quiet ?c fs_empty =
      (Ok (service_path (lc_registry ?lc) ''a''), fs')"
    using reg.register_absent [OF reg_ok_empty, of io_quiet "lc_registry ?lc" ?c] by (auto simp: sc_new_def)
  then have run: "lc_create ron_plain ?lc io_quiet ?c fs_empty = (Ok (), fs')"
    by (simp add: lc_create_def)
  note opened = create_then_open [OF reg_ok_empty io_calm_quiet(1) io_calm_quiet(1) run]
  show ?thesis unfolding Let_def run snd_conv opened by simp
qed

text \<open>\<open>open_or_create\<close> is not atomic. When another process creates the service between the failed
  open and the create of the first one, the first one's \<open>open_or_create\<close> ends in \<open>AlreadyExists\<close>, although
  the service it asked for exists, and opening it at that moment would have succeeded whenever the
  two configurations are compatible.\<close>

theorem open_or_create_race:
  assumes "reg_ok rn (lc_registry lc) fs" and "io_calm env" and "io_calm env'"
    and "lc_open rn lc env c fs = Err (NotFound m)"
    and "lc_open_or_create rn lc env' d fs = (Ok e, fs')"
    and "sc_service_name d = sc_service_name c"
  shows "fst (lc_create rn lc env c fs') = Err (AlreadyExists (sc_service_name c)) \<and>
    lc_open rn lc env c fs' = map_ok (\<lambda>_. e) (validate_compatibility c e)"
proof -
  let ?r = "lc_registry lc"
  note D = lc_open_or_create_OkD [OF assms(1,3,2,5)]
  have found: "reg_lookup rn ?r env (sc_service_name c) fs' = Ok e" using D(3) assms(6) by simp
  then have "reg_find rn fs' (service_path ?r (sc_service_name c)) \<noteq> None"
    by (auto simp: reg_lookup_find [OF assms(2)] split: option.splits)
  from reg.register_present [OF D(1) assms(2) this]
  show ?thesis using found by (auto simp: lc_create_def lc_open_def)
qed

theorem open_or_create_race_witness:
  "let lc = lc_new ''/tmp/entangle''; c = sc_new Event ''a'' ''event'' 0 1;
       fs' = snd (lc_open_or_create ron_plain lc io_quiet c fs_empty)
   in lc_open ron_plain lc io_quiet c fs_empty = Err (NotFound ''a'') \<and>
      fst (lc_create ron_plain lc io_quiet c fs') = Err (AlreadyExists ''a'') \<and>
      lc_open ron_plain lc io_quiet c fs' = Ok c"
proof -
  let ?lc = "lc_new ''/tmp/entangle''" and ?c = "sc_new Event ''a'' ''event'' 0 1"
  have first: "lc_open ron_plain ?lc io_quiet ?c fs_empty = Err (NotFound ''a'')"
    by (simp add: lc_open_def lookup_empty sc_new_def)
  note R = open_or_create_race [OF reg_ok_empty io_calm_quiet(1) io_calm_quiet(1) first first_open_or_create refl]
  show ?thesis unfolding Let_def using first R by (simp add: sc_new_def)
qed

text \<open>Two service names that differ only in \<open>/\<close> against \<open>_\<close> share a file. After one is
  registered, registering the other fails as already existing, and looking the other up returns the
  configuration of the first, with the first one's name in it.\<close>

theorem service_name_collision:
  assumes "reg_ok rn r fs" and "io_calm env" and "io_calm env'"
    and "reg_register rn r env c fs = (Ok p, fs')"
    and "replace_char CHR ''/'' CHR ''_'' (sc_service_name d) = replace_char CHR ''/'' CHR ''_'' (sc_service_name c)"
  shows "reg_lookup rn r env' (sc_service_name d) fs' = Ok c \<and>
    fst (reg_register rn r env' d fs') = Err (AlreadyExists (sc_service_name d))"
proof -
  have same: "service_path r (sc_service_name d) = service_path r (sc_service_name c)"
    using assms(5) by (simp add: service_path_eq_iff)
  note R = reg.lookup_after_register [OF assms(1,2,3,4)]
  have found: "reg_lookup rn r env' (sc_service_name d) fs' = Ok c" using R(1) same by simp
  have "reg_find rn fs' (service_path r (sc_service_name d)) \<noteq> None" using R(4) same by simp
  from reg.register_present [OF R(2) assms(3) this]
  show ?thesis using found by auto
qed

theorem service_name_collision_witness:
  "let r = reg_new ''/tmp/entangle''; c = sc_new PubSub ''a/b'' ''u8'' 1 1;
       fs' = snd (reg_register ron_plain r io_quiet c fs_empty)
   in reg_lookup ron_plain r io_quiet ''a_b'' fs' = Ok c"
proof -
  let ?r = "reg_new ''/tmp/entangle''" and ?c = "sc_new PubSub ''a/b'' ''u8'' 1 1"
  have "reg_find ron_plain fs_empty q = None" for q
    by (simp add: reg_find_def fs_content_def fs_empty_def)
  then obtain p fs' where run: "reg_register ron_plain ?r io_quiet ?c fs_empty = (Ok p, fs')"
    using reg.register_absent [OF reg_ok_empty, of io_quiet ?r ?c] by auto
  from service_name_collision [OF reg_ok_empty io_calm_quiet(1) io_calm_quiet(1) run,
      of "sc_new PubSub ''a_b'' ''u8'' 1 1"] run
  show ?thesis by (simp add: Let_def sc_new_def replace_char_def)
qed

text \<open>Discovery: what \<open>list\<close> returns is what the files of the directory hold.\<close>

lemma reg_collect_set:
  assumes "io_calm env"
  shows "c \<in> set (reg_collect rn r env fs es) \<longleftrightarrow>
    (\<exists>n. Ok n \<in> set es \<and> reg_find rn fs (path_join (reg_root r) n) = Some (Ok c))"
proof (induction es)
  case (Cons e es)
  with assms show ?case
    by (cases e) (auto simp: reg_find_def fs_read_to_string_def split: option.splits result.splits)
qed simp

lemma registered_is_listed:
  assumes "reg_ok rn r fs" and "io_calm env" and "io_calm env'"
    and "reg_register rn r env c fs = (Ok p, fs')"
    and "read_dir env' (reg_root r) = Ok es"
    and "Ok (replace_char CHR ''/'' CHR ''_'' (sc_service_name c) @ ''.ron'') \<in> set es"
  shows "\<exists>cs. reg_list rn r env' fs' = Ok cs \<and> c \<in> set cs"
proof -
  have "reg_root r \<in> fs_dirs fs'"
    using assms(4) by (auto simp: reg_register_def fs_defs Let_def split: if_splits option.splits result.splits prod.splits)
  moreover have "reg_find rn fs' (service_path r (sc_service_name c)) = Some (Ok c)"
    using reg.lookup_after_register(4) [OF assms(1,2,3,4)] by simp
  then have "c \<in> set (reg_collect rn r env' fs' es)"
    using assms(6) unfolding reg_collect_set [OF assms(3)] by (auto simp: service_path_def)
  ultimately show ?thesis using assms(3,5) by (simp add: reg_list_def fs_exists_def)
qed

subsection \<open>Files other than the service's own\<close>

lemma reg_register_keeps:
  assumes "fs_wf fs"
  shows "fs_keeps (- {service_path r (sc_service_name c)}) fs (snd (reg_register rn r env c fs))"
  using assms
  by (auto simp: reg_register_def fs_keeps_def fs_defs fs_wf_def Let_def split: option.splits result.splits prod.splits open_failure.splits)

lemma reg_unregister_keeps:
  "fs_keeps (- {service_path r n}) fs (snd (reg_unregister r env n fs))"
  by (auto simp: reg_unregister_def fs_keeps_def fs_defs Let_def split: option.splits result.splits prod.splits)

lemma lc_open_or_create_keeps:
  assumes "fs_wf fs"
  shows "fs_keeps (- {service_path (lc_registry lc) (sc_service_name c)}) fs (snd (lc_open_or_create rn lc env c fs))"
  using reg_register_keeps [OF assms] fs_keeps_refl
  by (auto simp: lc_open_or_create_def lc_create_def split: prod.splits result.splits service_error.splits) (metis snd_conv)

end
