(* ===== verification/Services.thy ===== *)
theory Services
  imports Blackboard Service_Registry Event_Ports
begin

text \<open>
  The service builders and service handles of \<open>service/pubsub.rs\<close>, \<open>service/reqres.rs\<close>,
  \<open>service/event.rs\<close> and \<open>service/blackboard.rs\<close> in \<open>crates/entangle/src\<close>, with the builders of their
  ports. A builder registers or opens the service in the file system and returns a handle; the
  handle owns the wiring that its ports share, an object behind an \<open>Arc\<close> named by its position in
  \<open>service_world\<close>. A generic parameter \<open>T\<close> is its name, size and alignment.
\<close>

record rust_type =
  ty_name :: string
  ty_size :: nat
  ty_align :: nat

record service_world =
  sv_fs :: file_system
  sv_pubsub :: "pubsub_shared list"
  sv_reqres :: "reqres_shared list"
  sv_blackboard :: "blackboard_shared list"
  sv_ports :: bb_world

text \<open>The operations of publish-subscribe and of request-response work on their part of the ports.\<close>

definition on_pubsub :: "(world \<Rightarrow> ('a \<times> world) option) \<Rightarrow> bb_world \<Rightarrow> ('a \<times> bb_world) option" where
  "on_pubsub f w = do {
     (a, w') \<leftarrow> f (world.truncate w);
     Some (a, world.extend w' (world.more w))
   }"

definition on_reqres :: "(rr_world \<Rightarrow> ('a \<times> rr_world) option) \<Rightarrow> bb_world \<Rightarrow> ('a \<times> bb_world) option" where
  "on_reqres f w = do {
     (a, w') \<leftarrow> f (rr_world.truncate w);
     Some (a, rr_world.extend w' (rr_world.more w))
   }"

subsection \<open>Publish-subscribe\<close>

record pubsub_builder =
  pb_service_name :: string
  pb_config :: entangle_config
  pb_node_id :: node_id
  pb_qos :: pubsub_qos

definition pb_new :: "string \<Rightarrow> entangle_config \<Rightarrow> node_id \<Rightarrow> pubsub_builder" where
  "pb_new service_name config node =
     \<lparr>pb_service_name = service_name, pb_config = config, pb_node_id = node,
      pb_qos = default_pubsub_qos config\<rparr>"

definition pb_history_size :: "usize \<Rightarrow> pubsub_builder \<Rightarrow> pubsub_builder" where
  "pb_history_size n b = b\<lparr>pb_qos := (pb_qos b)\<lparr>history_size := n\<rparr>\<rparr>"

definition pb_max_publishers :: "usize \<Rightarrow> pubsub_builder \<Rightarrow> pubsub_builder" where
  "pb_max_publishers n b = b\<lparr>pb_qos := (pb_qos b)\<lparr>max_publishers := n\<rparr>\<rparr>"

definition pb_max_subscribers :: "usize \<Rightarrow> pubsub_builder \<Rightarrow> pubsub_builder" where
  "pb_max_subscribers n b = b\<lparr>pb_qos := (pb_qos b)\<lparr>max_subscribers := n\<rparr>\<rparr>"

definition pb_subscriber_overflow :: "overflow_strategy \<Rightarrow> pubsub_builder \<Rightarrow> pubsub_builder" where
  "pb_subscriber_overflow strategy b = b\<lparr>pb_qos := (pb_qos b)\<lparr>subscriber_overflow := strategy\<rparr>\<rparr>"

definition pb_max_loaned_samples :: "usize \<Rightarrow> pubsub_builder \<Rightarrow> pubsub_builder" where
  "pb_max_loaned_samples n b = b\<lparr>pb_qos := (pb_qos b)\<lparr>max_loaned_samples := n\<rparr>\<rparr>"

record pubsub_service =
  pss_service_name :: string
  pss_config :: entangle_config
  pss_node_id :: node_id
  pss_qos :: pubsub_qos
  pss_shared :: nat

definition pb_static_config :: "rust_type \<Rightarrow> pubsub_builder \<Rightarrow> static_config" where
  "pb_static_config T b =
     sc_new PubSub (pb_service_name b) (ty_name T) (of_nat (ty_size T)) (of_nat (ty_align T))"

text \<open>The common end of \<open>open_or_create\<close>, \<open>create\<close> and \<open>open\<close>: fresh wiring and the handle.\<close>

definition pb_handle :: "pubsub_builder \<Rightarrow> service_world \<Rightarrow> pubsub_service \<times> service_world" where
  "pb_handle b sw =
     (let shared = \<lparr>ps_publishers = [], ps_service_name = pb_service_name b, ps_qos = pb_qos b,
                    ps_publisher_counter = 0\<rparr>
      in (\<lparr>pss_service_name = pb_service_name b, pss_config = pb_config b, pss_node_id = pb_node_id b,
           pss_qos = pb_qos b, pss_shared = length (sv_pubsub sw)\<rparr>,
          sw\<lparr>sv_pubsub := sv_pubsub sw @ [shared]\<rparr>))"

definition pb_open_or_create ::
  "ron \<Rightarrow> io_env \<Rightarrow> rust_type \<Rightarrow> pubsub_builder \<Rightarrow> service_world \<Rightarrow>
     (pubsub_service, ipc_error) result \<times> service_world" where
  "pb_open_or_create rn env T b sw =
     (let lifecycle = lc_new (shm_root (pb_config b))
      in case lc_open_or_create rn lifecycle env (pb_static_config T b) (sv_fs sw) of
           (Err e, fs) \<Rightarrow> (Err (IpcService e), sw\<lparr>sv_fs := fs\<rparr>)
         | (Ok _, fs) \<Rightarrow> (case pb_handle b (sw\<lparr>sv_fs := fs\<rparr>) of (h, sw) \<Rightarrow> (Ok h, sw)))"

definition pb_create ::
  "ron \<Rightarrow> io_env \<Rightarrow> rust_type \<Rightarrow> pubsub_builder \<Rightarrow> service_world \<Rightarrow>
     (pubsub_service, ipc_error) result \<times> service_world" where
  "pb_create rn env T b sw =
     (let lifecycle = lc_new (shm_root (pb_config b))
      in case lc_create rn lifecycle env (pb_static_config T b) (sv_fs sw) of
           (Err e, fs) \<Rightarrow> (Err (IpcService e), sw\<lparr>sv_fs := fs\<rparr>)
         | (Ok _, fs) \<Rightarrow> (case pb_handle b (sw\<lparr>sv_fs := fs\<rparr>) of (h, sw) \<Rightarrow> (Ok h, sw)))"

definition pb_open ::
  "ron \<Rightarrow> io_env \<Rightarrow> rust_type \<Rightarrow> pubsub_builder \<Rightarrow> service_world \<Rightarrow>
     (pubsub_service, ipc_error) result \<times> service_world" where
  "pb_open rn env T b sw =
     (let lifecycle = lc_new (shm_root (pb_config b))
      in case lc_open rn lifecycle env (pb_static_config T b) (sv_fs sw) of
           Err e \<Rightarrow> (Err (IpcService e), sw)
         | Ok _ \<Rightarrow> (case pb_handle b sw of (h, sw) \<Rightarrow> (Ok h, sw)))"

text \<open>\<open>PublisherBuilder\<close> and \<open>SubscriberBuilder\<close> hold copies of the fields of the handle.\<close>

record pubsub_port_builder =
  ppb_service_name :: string
  ppb_config :: entangle_config
  ppb_node_id :: node_id
  ppb_qos :: pubsub_qos
  ppb_shared :: nat

definition pss_publisher :: "pubsub_service \<Rightarrow> pubsub_port_builder" where
  "pss_publisher h =
     \<lparr>ppb_service_name = pss_service_name h, ppb_config = pss_config h, ppb_node_id = pss_node_id h,
      ppb_qos = pss_qos h, ppb_shared = pss_shared h\<rparr>"

definition pss_subscriber :: "pubsub_service \<Rightarrow> pubsub_port_builder" where
  "pss_subscriber h =
     \<lparr>ppb_service_name = pss_service_name h, ppb_config = pss_config h, ppb_node_id = pss_node_id h,
      ppb_qos = pss_qos h, ppb_shared = pss_shared h\<rparr>"

definition publisher_create ::
  "nix \<Rightarrow> rust_type \<Rightarrow> pubsub_port_builder \<Rightarrow> service_world \<Rightarrow>
     ((publisher, ipc_error) result \<times> service_world) option" where
  "publisher_create os T b sw = do {
     sh \<leftarrow> idx (sv_pubsub sw) (ppb_shared b);
     ((r, sh), w) \<leftarrow> on_pubsub (\<lambda>w. do {
         (r, sh, w) \<leftarrow> pub_create os (ppb_service_name b) (ppb_node_id b) (ppb_qos b) (ty_size T) sh w;
         Some ((r, sh), w) }) (sv_ports sw);
     Some (r, sw\<lparr>sv_pubsub := (sv_pubsub sw)[ppb_shared b := sh], sv_ports := w\<rparr>)
   }"

definition subscriber_create ::
  "pubsub_port_builder \<Rightarrow> service_world \<Rightarrow> ((subscriber, ipc_error) result \<times> service_world) option" where
  "subscriber_create b sw = do {
     sh \<leftarrow> idx (sv_pubsub sw) (ppb_shared b);
     (r, w) \<leftarrow> on_pubsub (sub_create (ppb_service_name b) (ppb_node_id b) (ppb_qos b) sh) (sv_ports sw);
     Some (r, sw\<lparr>sv_ports := w\<rparr>)
   }"

subsection \<open>Request-response\<close>

record reqres_builder =
  rb_service_name :: string
  rb_config :: entangle_config
  rb_node_id :: node_id
  rb_qos :: reqres_qos

definition rb_new :: "string \<Rightarrow> entangle_config \<Rightarrow> node_id \<Rightarrow> reqres_builder" where
  "rb_new service_name config node =
     \<lparr>rb_service_name = service_name, rb_config = config, rb_node_id = node,
      rb_qos = \<lparr>max_clients = 8, max_servers = 1, max_pending_requests = 16\<rparr>\<rparr>"

definition rb_max_clients :: "usize \<Rightarrow> reqres_builder \<Rightarrow> reqres_builder" where
  "rb_max_clients n b = b\<lparr>rb_qos := (rb_qos b)\<lparr>max_clients := n\<rparr>\<rparr>"

definition rb_max_servers :: "usize \<Rightarrow> reqres_builder \<Rightarrow> reqres_builder" where
  "rb_max_servers n b = b\<lparr>rb_qos := (rb_qos b)\<lparr>max_servers := n\<rparr>\<rparr>"

definition rb_max_pending_requests :: "usize \<Rightarrow> reqres_builder \<Rightarrow> reqres_builder" where
  "rb_max_pending_requests n b = b\<lparr>rb_qos := (rb_qos b)\<lparr>max_pending_requests := n\<rparr>\<rparr>"

record reqres_service =
  rrs_service_name :: string
  rrs_config :: entangle_config
  rrs_node_id :: node_id
  rrs_qos :: reqres_qos
  rrs_shared :: nat

definition rb_static_config :: "rust_type \<Rightarrow> rust_type \<Rightarrow> reqres_builder \<Rightarrow> static_config" where
  "rb_static_config Req Res b =
     (let payload_size = max (of_nat (ty_size Req)) (of_nat (ty_size Res));
          payload_align = max (of_nat (ty_align Req)) (of_nat (ty_align Res))
      in sc_new ReqRes (rb_service_name b) (ty_name Req @ '':'' @ ty_name Res) payload_size payload_align)"

definition rb_open_or_create ::
  "ron \<Rightarrow> io_env \<Rightarrow> rust_type \<Rightarrow> rust_type \<Rightarrow> reqres_builder \<Rightarrow> service_world \<Rightarrow>
     (reqres_service, ipc_error) result \<times> service_world" where
  "rb_open_or_create rn env Req Res b sw =
     (let lifecycle = lc_new (shm_root (rb_config b))
      in case lc_open_or_create rn lifecycle env (rb_static_config Req Res b) (sv_fs sw) of
           (Err e, fs) \<Rightarrow> (Err (IpcService e), sw\<lparr>sv_fs := fs\<rparr>)
         | (Ok _, fs) \<Rightarrow>
             let shared = \<lparr>rr_server = None, rr_service_name = rb_service_name b\<rparr>
             in (Ok \<lparr>rrs_service_name = rb_service_name b, rrs_config = rb_config b,
                     rrs_node_id = rb_node_id b, rrs_qos = rb_qos b, rrs_shared = length (sv_reqres sw)\<rparr>,
                 sw\<lparr>sv_fs := fs, sv_reqres := sv_reqres sw @ [shared]\<rparr>))"

record client_builder =
  cb_service_name :: string
  cb_node_id :: node_id
  cb_qos :: reqres_qos
  cb_shared :: nat

record server_builder =
  sb_service_name :: string
  sb_config :: entangle_config
  sb_node_id :: node_id
  sb_qos :: reqres_qos
  sb_shared :: nat

definition rrs_client :: "reqres_service \<Rightarrow> client_builder" where
  "rrs_client h =
     \<lparr>cb_service_name = rrs_service_name h, cb_node_id = rrs_node_id h, cb_qos = rrs_qos h,
      cb_shared = rrs_shared h\<rparr>"

definition rrs_server :: "reqres_service \<Rightarrow> server_builder" where
  "rrs_server h =
     \<lparr>sb_service_name = rrs_service_name h, sb_config = rrs_config h, sb_node_id = rrs_node_id h,
      sb_qos = rrs_qos h, sb_shared = rrs_shared h\<rparr>"

definition server_create ::
  "nix \<Rightarrow> rust_type \<Rightarrow> rust_type \<Rightarrow> server_builder \<Rightarrow> service_world \<Rightarrow>
     ((server, ipc_error) result \<times> service_world) option" where
  "server_create os Req Res b sw = do {
     sh \<leftarrow> idx (sv_reqres sw) (sb_shared b);
     ((r, sh), w) \<leftarrow> on_reqres (\<lambda>w. do {
         (r, sh, w) \<leftarrow> srv_create os (sb_service_name b) (sb_node_id b) (sb_qos b) (ty_size Req) (ty_size Res) sh w;
         Some ((r, sh), w) }) (sv_ports sw);
     Some (r, sw\<lparr>sv_reqres := (sv_reqres sw)[sb_shared b := sh], sv_ports := w\<rparr>)
   }"

definition client_create ::
  "rust_type \<Rightarrow> client_builder \<Rightarrow> service_world \<Rightarrow> ((client, ipc_error) result \<times> service_world) option" where
  "client_create Res b sw = do {
     sh \<leftarrow> idx (sv_reqres sw) (cb_shared b);
     (r, w) \<leftarrow> on_reqres (cli_create (cb_service_name b) (cb_node_id b) (cb_qos b) (ty_size Res) sh) (sv_ports sw);
     Some (r, sw\<lparr>sv_ports := w\<rparr>)
   }"

subsection \<open>Event\<close>

record event_builder =
  eb_service_name :: string
  eb_config :: entangle_config
  eb_node_id :: node_id
  eb_qos :: event_qos

definition eb_new :: "string \<Rightarrow> entangle_config \<Rightarrow> node_id \<Rightarrow> event_builder" where
  "eb_new service_name config node =
     \<lparr>eb_service_name = service_name, eb_config = config, eb_node_id = node,
      eb_qos = default_event_qos config\<rparr>"

definition eb_max_notifiers :: "usize \<Rightarrow> event_builder \<Rightarrow> event_builder" where
  "eb_max_notifiers n b = b\<lparr>eb_qos := (eb_qos b)\<lparr>max_notifiers := n\<rparr>\<rparr>"

definition eb_max_listeners :: "usize \<Rightarrow> event_builder \<Rightarrow> event_builder" where
  "eb_max_listeners n b = b\<lparr>eb_qos := (eb_qos b)\<lparr>max_listeners := n\<rparr>\<rparr>"

record event_service =
  evs_service_name :: string
  evs_config :: entangle_config
  evs_node_id :: node_id
  evs_qos :: event_qos

definition eb_static_config :: "event_builder \<Rightarrow> static_config" where
  "eb_static_config b = sc_new Event (eb_service_name b) ''event'' 0 1"

definition eb_open_or_create ::
  "ron \<Rightarrow> io_env \<Rightarrow> event_builder \<Rightarrow> service_world \<Rightarrow>
     (event_service, ipc_error) result \<times> service_world" where
  "eb_open_or_create rn env b sw =
     (let lifecycle = lc_new (shm_root (eb_config b))
      in case lc_open_or_create rn lifecycle env (eb_static_config b) (sv_fs sw) of
           (Err e, fs) \<Rightarrow> (Err (IpcService e), sw\<lparr>sv_fs := fs\<rparr>)
         | (Ok _, fs) \<Rightarrow>
             (Ok \<lparr>evs_service_name = eb_service_name b, evs_config = eb_config b,
                  evs_node_id = eb_node_id b, evs_qos = eb_qos b\<rparr>, sw\<lparr>sv_fs := fs\<rparr>))"

text \<open>\<open>NotifierBuilder\<close> and \<open>ListenerBuilder\<close>.\<close>

record event_port_builder =
  epb_service_name :: string
  epb_node_id :: node_id

definition evs_notifier :: "event_service \<Rightarrow> event_port_builder" where
  "evs_notifier h = \<lparr>epb_service_name = evs_service_name h, epb_node_id = evs_node_id h\<rparr>"

definition evs_listener :: "event_service \<Rightarrow> event_port_builder" where
  "evs_listener h = \<lparr>epb_service_name = evs_service_name h, epb_node_id = evs_node_id h\<rparr>"

definition notifier_create :: "ev_os \<Rightarrow> event_port_builder \<Rightarrow> ev_world \<Rightarrow> (notifier, ipc_error) result \<times> ev_world" where
  "notifier_create os b w = no_create os (epb_service_name b) w"

definition listener_create :: "ev_os \<Rightarrow> event_port_builder \<Rightarrow> ev_world \<Rightarrow> (listener, ipc_error) result \<times> ev_world" where
  "listener_create os b w = li_create os (epb_service_name b) w"

subsection \<open>Blackboard\<close>

record blackboard_builder =
  bbb_service_name :: string
  bbb_config :: entangle_config
  bbb_node_id :: node_id

definition bbb_new :: "string \<Rightarrow> entangle_config \<Rightarrow> node_id \<Rightarrow> blackboard_builder" where
  "bbb_new service_name config node =
     \<lparr>bbb_service_name = service_name, bbb_config = config, bbb_node_id = node\<rparr>"

record blackboard_service =
  bbh_service_name :: string
  bbh_config :: entangle_config
  bbh_node_id :: node_id
  bbh_shared :: nat

definition bbb_static_config :: "rust_type \<Rightarrow> blackboard_builder \<Rightarrow> static_config" where
  "bbb_static_config T b =
     sc_new Blackboard (bbb_service_name b) (ty_name T) (of_nat (ty_size T)) (of_nat (ty_align T))"

definition bbb_open_or_create ::
  "ron \<Rightarrow> io_env \<Rightarrow> rust_type \<Rightarrow> blackboard_builder \<Rightarrow> service_world \<Rightarrow>
     (blackboard_service, ipc_error) result \<times> service_world" where
  "bbb_open_or_create rn env T b sw =
     (let lifecycle = lc_new (shm_root (bbb_config b))
      in case lc_open_or_create rn lifecycle env (bbb_static_config T b) (sv_fs sw) of
           (Err e, fs) \<Rightarrow> (Err (IpcService e), sw\<lparr>sv_fs := fs\<rparr>)
         | (Ok _, fs) \<Rightarrow>
             let shared = \<lparr>bbs_writer = None, bbs_service_name = bbb_service_name b\<rparr>
             in (Ok \<lparr>bbh_service_name = bbb_service_name b, bbh_config = bbb_config b,
                     bbh_node_id = bbb_node_id b, bbh_shared = length (sv_blackboard sw)\<rparr>,
                 sw\<lparr>sv_fs := fs, sv_blackboard := sv_blackboard sw @ [shared]\<rparr>))"

record writer_builder =
  wb_service_name :: string
  wb_config :: entangle_config
  wb_node_id :: node_id
  wb_shared :: nat

record reader_builder =
  rdb_service_name :: string
  rdb_node_id :: node_id
  rdb_shared :: nat

definition bbh_writer :: "blackboard_service \<Rightarrow> writer_builder" where
  "bbh_writer h =
     \<lparr>wb_service_name = bbh_service_name h, wb_config = bbh_config h, wb_node_id = bbh_node_id h,
      wb_shared = bbh_shared h\<rparr>"

definition bbh_reader :: "blackboard_service \<Rightarrow> reader_builder" where
  "bbh_reader h =
     \<lparr>rdb_service_name = bbh_service_name h, rdb_node_id = bbh_node_id h, rdb_shared = bbh_shared h\<rparr>"

definition writer_create ::
  "nix \<Rightarrow> rust_type \<Rightarrow> writer_builder \<Rightarrow> service_world \<Rightarrow>
     ((bb_writer, ipc_error) result \<times> service_world) option" where
  "writer_create os T b sw = do {
     sh \<leftarrow> idx (sv_blackboard sw) (wb_shared b);
     (r, sh, w) \<leftarrow> wr_create os (wb_service_name b) (wb_node_id b) (ty_size T) sh (sv_ports sw);
     Some (r, sw\<lparr>sv_blackboard := (sv_blackboard sw)[wb_shared b := sh], sv_ports := w\<rparr>)
   }"

definition reader_create ::
  "reader_builder \<Rightarrow> service_world \<Rightarrow> (bb_reader, ipc_error) result option" where
  "reader_create b sw = do {
     sh \<leftarrow> idx (sv_blackboard sw) (rdb_shared b);
     Some (rd_create (rdb_service_name b) (rdb_node_id b) sh)
   }"

subsection \<open>Handles of one service\<close>

text \<open>Two configurations that pass each other's check.\<close>

definition sc_agree :: "static_config \<Rightarrow> static_config \<Rightarrow> bool" where
  "sc_agree c d \<longleftrightarrow> sc_magic c = sc_magic d \<and> sc_version c = sc_version d \<and> sc_pattern c = sc_pattern d \<and>
     sc_payload_size c = sc_payload_size d \<and> sc_payload_align c = sc_payload_align d"

lemma validate_Ok_iff: "validate_compatibility c d = Ok () \<longleftrightarrow> sc_agree c d"
  by (simp add: validate_compatibility_def sc_agree_def)

lemma is_Ok_validate: "is_Ok (validate_compatibility c d) \<longleftrightarrow> sc_agree c d"
  by (simp add: validate_compatibility_def sc_agree_def)

text \<open>The rule that all the builders share: a later user of the name is admitted if and only if its
  configuration agrees with that of the first.\<close>

lemma second_open_or_create:
  assumes "reg_ok rn (lc_registry lc) fs" and "io_calm env" and "io_calm env'"
    and "lc_open_or_create rn lc env c fs = (Ok e, fs')" and "sc_service_name d = sc_service_name c"
  shows "snd (lc_open_or_create rn lc env' d fs') = fs' \<and>
    (is_Ok (fst (lc_open_or_create rn lc env' d fs')) \<longleftrightarrow> sc_agree c d)"
proof -
  note r = lc_open_or_create_OkD [OF assms(1-4)]
  have "reg_lookup rn (lc_registry lc) env' (sc_service_name d) fs' = Ok e" using r(3) assms(5) by simp
  then have "lc_open_or_create rn lc env' d fs' = (map_ok (\<lambda>_. e) (validate_compatibility d e), fs')"
    using lc_open_or_create_cases [OF r(1) assms(3)] by simp
  moreover have "sc_agree d e \<longleftrightarrow> sc_agree c d" using r(2) by (auto simp: validate_Ok_iff sc_agree_def)
  ultimately show ?thesis by (simp add: is_Ok_validate)
qed

lemma is_Ok_iff: "is_Ok r \<longleftrightarrow> (\<exists>a. r = Ok a)"
  by (cases r) simp_all

lemma builder_result:
  shows "is_Ok (fst (pb_open_or_create rn env T b sw)) \<longleftrightarrow>
      is_Ok (fst (lc_open_or_create rn (lc_new (shm_root (pb_config b))) env (pb_static_config T b) (sv_fs sw)))"
    and "is_Ok (fst (rb_open_or_create rn env Req Res rb sw)) \<longleftrightarrow>
      is_Ok (fst (lc_open_or_create rn (lc_new (shm_root (rb_config rb))) env (rb_static_config Req Res rb) (sv_fs sw)))"
    and "is_Ok (fst (eb_open_or_create rn env eb sw)) \<longleftrightarrow>
      is_Ok (fst (lc_open_or_create rn (lc_new (shm_root (eb_config eb))) env (eb_static_config eb) (sv_fs sw)))"
    and "is_Ok (fst (bbb_open_or_create rn env T bb sw)) \<longleftrightarrow>
      is_Ok (fst (lc_open_or_create rn (lc_new (shm_root (bbb_config bb))) env (bbb_static_config T bb) (sv_fs sw)))"
  by (auto simp: pb_open_or_create_def rb_open_or_create_def eb_open_or_create_def bbb_open_or_create_def
      Let_def split: prod.splits result.splits)

lemma pb_open_or_create_OkD:
  assumes "pb_open_or_create rn env T b sw = (Ok h, sw')"
  shows "\<exists>e fs. lc_open_or_create rn (lc_new (shm_root (pb_config b))) env (pb_static_config T b) (sv_fs sw) = (Ok e, fs) \<and>
    pb_handle b (sw\<lparr>sv_fs := fs\<rparr>) = (h, sw')"
  using assms by (auto simp: pb_open_or_create_def Let_def split: prod.splits result.splits)

text \<open>C19: a service name belongs to one pattern and one payload layout. Once a publish-subscribe handle
  for it exists, another publish-subscribe user of the name gets a handle exactly if its payload
  type has the same size and alignment; every request-response, event or blackboard user is
  refused.\<close>

theorem service_agreement:
  assumes "reg_ok rn (reg_new (shm_root cfg)) (sv_fs sw)" and "io_calm env" and "io_calm env'"
    and "pb_open_or_create rn env T (pb_new name cfg node) sw = (Ok h, sw')"
  shows "(is_Ok (fst (pb_open_or_create rn env' T' (pb_new name cfg node') sw')) \<longleftrightarrow>
      (of_nat (ty_size T') :: usize) = of_nat (ty_size T) \<and> (of_nat (ty_align T') :: usize) = of_nat (ty_align T)) \<and>
    \<not> is_Ok (fst (rb_open_or_create rn env' Req Res (rb_new name cfg node') sw')) \<and>
    \<not> is_Ok (fst (eb_open_or_create rn env' (eb_new name cfg node') sw')) \<and>
    \<not> is_Ok (fst (bbb_open_or_create rn env' T' (bbb_new name cfg node') sw'))"
proof -
  let ?lc = "lc_new (shm_root cfg)" and ?c = "pb_static_config T (pb_new name cfg node)"
  have ok: "reg_ok rn (lc_registry ?lc) (sv_fs sw)" using assms(1) by (simp add: lc_new_def)
  obtain e where "lc_open_or_create rn ?lc env ?c (sv_fs sw) = (Ok e, sv_fs sw')"
    using pb_open_or_create_OkD [OF assms(4)] by (auto simp: pb_new_def pb_handle_def Let_def)
  from second_open_or_create [OF ok assms(2,3) this] show ?thesis
    unfolding builder_result
    by (auto simp: pb_new_def rb_new_def eb_new_def bbb_new_def pb_static_config_def rb_static_config_def
        eb_static_config_def bbb_static_config_def sc_new_def sc_agree_def Let_def)
qed

subsection \<open>Ports of one handle, and of two\<close>

lemma ports_embed:
  "world.extend (world.truncate w) (world.more w) = w" "rr_world.extend (rr_world.truncate v) (rr_world.more v) = v"
  by (cases w; simp add: world.defs) (cases v; simp add: rr_world.defs)

lemma publisher_create_OkD:
  assumes "publisher_create os T b sw = Some (Ok p, sw')"
  shows "sv_pubsub sw' = (sv_pubsub sw)[ppb_shared b := (sv_pubsub sw ! ppb_shared b)\<lparr>
        ps_publisher_counter := ps_publisher_counter (sv_pubsub sw ! ppb_shared b) + 1,
        ps_publishers := ps_publishers (sv_pubsub sw ! ppb_shared b) @
          [\<lparr>pr_node_id = ppb_node_id b, pr_segment = pub_segment p, pr_channels = pub_channels p\<rparr>]\<rparr>] \<and>
    w_lists (sv_ports sw') = w_lists (sv_ports sw) @ [[]] \<and> pub_channels p = length (w_lists (sv_ports sw)) \<and>
    ppb_shared b < length (sv_pubsub sw)"
  using assms
  by (auto simp: publisher_create_def on_pubsub_def pub_create_def Let_def world.defs idx_eq_Some_iff
      split: bind_splits prod.splits result.splits)

lemma subscriber_create_none:
  assumes "ppb_shared b < length (sv_pubsub sw)" and "ps_publishers (sv_pubsub sw ! ppb_shared b) = []"
  shows "subscriber_create b sw =
    Some (Ok \<lparr>sub_service_name = ppb_service_name b, sub_node_id = ppb_node_id b, sub_connections = []\<rparr>, sw)"
  using assms ports_embed(1) [of "sv_ports sw"]
  by (simp add: subscriber_create_def on_pubsub_def sub_create_def)

lemma subscriber_create_one:
  assumes "ppb_shared b < length (sv_pubsub sw)" and "ps_publishers (sv_pubsub sw ! ppb_shared b) = [reg]"
    and "pr_channels reg < length (w_lists (sv_ports sw))"
  shows "\<exists>u sw'. subscriber_create b sw = Some (Ok u, sw') \<and>
    sub_connections u = [(pr_segment reg, length (w_chans (sv_ports sw)))] \<and>
    w_lists (sv_ports sw') ! pr_channels reg =
      w_lists (sv_ports sw) ! pr_channels reg @ [length (w_chans (sv_ports sw))]"
  using assms
  by (auto simp: subscriber_create_def on_pubsub_def sub_create_def Let_def world.defs)

text \<open>C36: ports meet only through the handle they were built from. A subscriber built from the handle of
  a publisher is connected to it: its channel is the publisher's only channel. A subscriber built
  from a second handle of the same service, opened after the first on the same or on another node, is
  connected to nothing and receives nothing, whatever is sent. The first publisher of the second handle
  asks for the segment name that the first publisher of the first handle has taken exactly when the low
  64 bits of the two node ids agree, as they do for two handles on one node.\<close>

theorem handles_not_connected:
  assumes "pb_open_or_create rn env T b sw = (Ok h, sw1)" and "pb_open_or_create rn env' T b' sw1 = (Ok h', sw2)"
    and "pb_service_name b' = pb_service_name b"
    and "publisher_create os T (pss_publisher h) sw2 = Some (Ok p, sw3)"
  shows "(\<exists>u sw4 ch. subscriber_create (pss_subscriber h) sw3 = Some (Ok u, sw4) \<and>
      sub_connections u = [(pub_segment p, ch)] \<and> w_lists (sv_ports sw4) ! pub_channels p = [ch]) \<and>
    (\<exists>u. subscriber_create (pss_subscriber h') sw3 = Some (Ok u, sw3) \<and> (\<forall>w. sub_receive u w = Some (Ok None, w))) \<and>
    (pub_segment_name (pss_service_name h') (ps_publisher_counter (sv_pubsub sw3 ! pss_shared h')) (pss_node_id h') =
     pub_segment_name (pss_service_name h) (ps_publisher_counter (sv_pubsub sw2 ! pss_shared h)) (pss_node_id h) \<longleftrightarrow>
     (ucast (nid (pb_node_id b')) :: u64) = ucast (nid (pb_node_id b)))"
proof -
  let ?n = "length (sv_pubsub sw)"
  let ?sh = "\<lambda>b. \<lparr>ps_publishers = [], ps_service_name = pb_service_name b, ps_qos = pb_qos b, ps_publisher_counter = 0\<rparr>"
  have h: "pss_service_name h = pb_service_name b" "pss_node_id h = pb_node_id b" "pss_shared h = ?n"
      "sv_pubsub sw1 = sv_pubsub sw @ [?sh b]"
    using pb_open_or_create_OkD [OF assms(1)] by (auto simp: pb_handle_def Let_def)
  have h': "pss_service_name h' = pb_service_name b'" "pss_node_id h' = pb_node_id b'" "pss_shared h' = Suc ?n"
      "sv_pubsub sw2 = sv_pubsub sw @ [?sh b, ?sh b']"
    using pb_open_or_create_OkD [OF assms(2)] h by (auto simp: pb_handle_def Let_def)
  note p = publisher_create_OkD [OF assms(4)]
  have sw3: "length (sv_pubsub sw3) = Suc (Suc ?n)" "sv_pubsub sw3 ! Suc ?n = ?sh b'"
      "ps_publishers (sv_pubsub sw3 ! ?n) =
        [\<lparr>pr_node_id = pb_node_id b, pr_segment = pub_segment p, pr_channels = pub_channels p\<rparr>]"
    using p h h' by (simp_all add: pss_publisher_def nth_append)
  have "\<exists>u sw4 ch. subscriber_create (pss_subscriber h) sw3 = Some (Ok u, sw4) \<and>
      sub_connections u = [(pub_segment p, ch)] \<and> w_lists (sv_ports sw4) ! pub_channels p = [ch]"
    using subscriber_create_one [of "pss_subscriber h" sw3] sw3 h p
    by (auto simp: pss_subscriber_def pss_publisher_def)
  moreover have "\<exists>u. subscriber_create (pss_subscriber h') sw3 = Some (Ok u, sw3) \<and> (\<forall>w. sub_receive u w = Some (Ok None, w))"
    using subscriber_create_none [of "pss_subscriber h'" sw3] sw3 h'
    by (simp add: pss_subscriber_def sub_receive_def)
  moreover have "pub_segment_name (pss_service_name h') (ps_publisher_counter (sv_pubsub sw3 ! pss_shared h')) (pss_node_id h') =
      pub_segment_name (pss_service_name h) (ps_publisher_counter (sv_pubsub sw2 ! pss_shared h)) (pss_node_id h) \<longleftrightarrow>
      (ucast (nid (pb_node_id b')) :: u64) = ucast (nid (pb_node_id b))"
  proof -
    have "unat (x :: u64) = unat y \<longleftrightarrow> x = y" for x y by (auto simp: unsigned_word_eqI)
    then show ?thesis using h h' sw3 assms(3) by (simp add: pub_segment_name_def nth_append hex_pad_eq_iff)
  qed
  ultimately show ?thesis by blast
qed

subsection \<open>A process with two handles\<close>

definition sv_empty :: service_world where
  "sv_empty = \<lparr>sv_fs = fs_empty, sv_pubsub = [], sv_reqres = [], sv_blackboard = [], sv_ports = no_ports (\<lambda>_. 0)\<rparr>"

definition ty_u64 :: rust_type where
  "ty_u64 = \<lparr>ty_name = ''u64'', ty_size = 8, ty_align = 8\<rparr>"

abbreviation "demo_builder \<equiv> pb_new ''radar'' config_default (NodeId 7)"

lemma demo_first:
  "\<exists>h sw. pb_open_or_create ron_plain io_quiet ty_u64 demo_builder sv_empty = (Ok h, sw) \<and> sv_ports sw = no_ports (\<lambda>_. 0)"
proof -
  obtain c fs where "lc_open_or_create ron_plain (lc_new (shm_root (pb_config demo_builder))) io_quiet
      (pb_static_config ty_u64 demo_builder) (sv_fs sv_empty) = (Ok c, fs)"
    using first_open_or_create [of _ "pb_static_config ty_u64 demo_builder"] by (auto simp: sv_empty_def)
  then show ?thesis by (simp add: pb_open_or_create_def Let_def pb_handle_def) (simp add: sv_empty_def)
qed

theorem service_agreement_witness:
  "\<exists>h sw. pb_open_or_create ron_plain io_quiet ty_u64 demo_builder sv_empty = (Ok h, sw) \<and>
    is_Ok (fst (pb_open_or_create ron_plain io_quiet ty_u64 demo_builder sw)) \<and>
    \<not> is_Ok (fst (eb_open_or_create ron_plain io_quiet (eb_new ''radar'' config_default (NodeId 8)) sw))"
proof -
  obtain h sw where h: "pb_open_or_create ron_plain io_quiet ty_u64 demo_builder sv_empty = (Ok h, sw)"
    using demo_first by blast
  have "reg_ok ron_plain (reg_new (shm_root config_default)) (sv_fs sv_empty)"
    using reg_ok_empty by (simp add: sv_empty_def)
  from service_agreement [OF this _ _ h, of io_quiet ty_u64 "NodeId 7"] service_agreement [OF this _ _ h, of io_quiet ty_u64 "NodeId 8"] h
  show ?thesis by auto
qed

lemma demo_publisher:
  assumes "ppb_shared b < length (sv_pubsub sw)" and "ppb_qos b = pubsub_qos_default"
  shows "\<exists>p sw'. publisher_create nix_ok ty_u64 b sw = Some (Ok p, sw')"
proof -
  let ?name = "pub_segment_name (ppb_service_name b) (ps_publisher_counter (sv_pubsub sw ! ppb_shared b)) (ppb_node_id b)"
  have fits: "layout_fits 8 64" by (simp add: layout_fits_def SENTINEL_def)
  have "\<exists>shm mem. shm_create nix_ok ?name (HEADER_SIZE + align8 8 * ucast (64 :: u32)) (w_mem (sv_ports sw)) = (Ok shm, mem)"
    by (simp add: shm_create_def Let_def nix_ok_def do_mmap_def HEADER_SIZE_def align8_def)
  then obtain d mem where "ds_create nix_ok ?name 8 64 0 (w_mem (sv_ports sw)) = Some (Ok d, mem)"
    using ds_create_wf [OF fits] by metis
  then show ?thesis
    using assms by (simp add: publisher_create_def on_pubsub_def pub_create_def Let_def ty_u64_def
        pubsub_qos_default_def world.defs)
qed

theorem handles_not_connected_witness:
  "\<exists>h sw1 h' sw2 p sw3 u. pb_open_or_create ron_plain io_quiet ty_u64 demo_builder sv_empty = (Ok h, sw1) \<and>
    pb_open_or_create ron_plain io_quiet ty_u64 demo_builder sw1 = (Ok h', sw2) \<and>
    publisher_create nix_ok ty_u64 (pss_publisher h) sw2 = Some (Ok p, sw3) \<and>
    subscriber_create (pss_subscriber h') sw3 = Some (Ok u, sw3) \<and> (\<forall>w. sub_receive u w = Some (Ok None, w))"
proof -
  obtain h sw1 where h: "pb_open_or_create ron_plain io_quiet ty_u64 demo_builder sv_empty = (Ok h, sw1)"
    using demo_first by blast
  have "reg_ok ron_plain (lc_registry (lc_new (shm_root (pb_config demo_builder)))) (sv_fs sv_empty)"
    using reg_ok_empty by (simp add: sv_empty_def)
  then have "is_Ok (fst (lc_open_or_create ron_plain (lc_new (shm_root (pb_config demo_builder))) io_quiet
      (pb_static_config ty_u64 demo_builder) (sv_fs sw1)))"
    using pb_open_or_create_OkD [OF h] second_open_or_create [of ron_plain _ "sv_fs sv_empty" io_quiet io_quiet]
    by (fastforce simp: pb_handle_def Let_def sc_agree_def)
  then have "is_Ok (fst (pb_open_or_create ron_plain io_quiet ty_u64 demo_builder sw1))" by (simp only: builder_result)
  then obtain h' sw2 where h': "pb_open_or_create ron_plain io_quiet ty_u64 demo_builder sw1 = (Ok h', sw2)"
    by (metis is_Ok_iff prod.collapse)
  have "pss_shared h < length (sv_pubsub sw2)" "pss_qos h = pubsub_qos_default"
    using pb_open_or_create_OkD [OF h] pb_open_or_create_OkD [OF h']
    by (auto simp: pb_handle_def Let_def pb_new_def config_default_def)
  then obtain p sw3 where p: "publisher_create nix_ok ty_u64 (pss_publisher h) sw2 = Some (Ok p, sw3)"
    using demo_publisher [of "pss_publisher h" sw2] by (auto simp: pss_publisher_def)
  obtain u where "subscriber_create (pss_subscriber h') sw3 = Some (Ok u, sw3)" "\<forall>w. sub_receive u w = Some (Ok None, w)"
    using handles_not_connected [OF h h' refl p] by blast
  with h h' p show ?thesis by blast
qed

end
