(* ===== verification/Entangle_Node.thy ===== *)
theory Entangle_Node
  imports Signals Process_Monitor Services
begin

text \<open>
  \<open>crates/entangle/src/node.rs\<close>: nodes, their builder, and the selector that leads from a node to the
  four service builders. \<open>DefaultHasher\<close> is a parameter: the function from what was hashed to the
  result of \<open>finish\<close>.
\<close>

datatype hashed = HProcess u32 | HNanos u128 | HThread u64

record id_source =
  src_pid :: u32
  src_nanos :: u128
  src_thread :: u64

definition generate_id :: "(hashed list \<Rightarrow> u64) \<Rightarrow> id_source \<Rightarrow> node_id" where
  "generate_id finish src =
     (let items = [HProcess (src_pid src), HNanos (src_nanos src)];
          h1 = finish items;
          h2 = finish (items @ [HThread (src_thread src)])
      in NodeId (push_bit 64 (ucast h1) OR ucast h2))"

record entangle_node =
  nd_id :: node_id
  nd_config :: entangle_config
  nd_monitor :: process_monitor

record node_builder =
  nb_config :: entangle_config
  nb_name :: "string option"

definition node_builder_new :: node_builder where
  "node_builder_new = \<lparr>nb_config = config_default, nb_name = None\<rparr>"

definition nb_set_name :: "string \<Rightarrow> node_builder \<Rightarrow> node_builder" where
  "nb_set_name name b = b\<lparr>nb_name := Some name\<rparr>"

definition nb_config_file ::
  "(string \<Rightarrow> entangle_config option) \<Rightarrow> (string \<Rightarrow> string option) \<Rightarrow> string \<Rightarrow> node_builder \<Rightarrow> node_builder" where
  "nb_config_file ron_config read_file path b = b\<lparr>nb_config := config_load ron_config read_file path\<rparr>"

definition nb_set_config :: "entangle_config \<Rightarrow> node_builder \<Rightarrow> node_builder" where
  "nb_set_config config b = b\<lparr>nb_config := config\<rparr>"

text \<open>When the handlers cannot be installed the monitor just registered is dropped.\<close>

definition nb_create ::
  "(hashed list \<Rightarrow> u64) \<Rightarrow> id_source \<Rightarrow> io_env \<Rightarrow> (c_int \<Rightarrow> string option) \<Rightarrow> node_builder \<Rightarrow>
     file_system \<Rightarrow> signal_state \<Rightarrow> (entangle_node, ipc_error) result \<times> file_system \<times> signal_state" where
  "nb_create finish src env refuse b fs sg =
     (let config = (case nb_name b of
                      Some name \<Rightarrow> (nb_config b)\<lparr>node_name := Some name\<rparr>
                    | None \<Rightarrow> nb_config b);
          id = generate_id finish src;
          root = shm_root config
      in case pm_register env id root fs of
           (Err e, fs) \<Rightarrow> (Err (IpcPlatform e), fs, sg)
         | (Ok monitor, fs) \<Rightarrow>
             (case sig_install refuse sg of
                (Err e, sg) \<Rightarrow> (Err (IpcPlatform e), pm_drop env monitor fs, sg)
              | (Ok _, sg) \<Rightarrow> (Ok \<lparr>nd_id = id, nd_config = config, nd_monitor = monitor\<rparr>, fs, sg)))"

definition nd_name :: "entangle_node \<Rightarrow> string option" where
  "nd_name nd = node_name (nd_config nd)"

definition nd_shutdown_requested :: "entangle_node \<Rightarrow> signal_state \<Rightarrow> bool" where
  "nd_shutdown_requested nd sg = shutdown_requested sg"

text \<open>Dropping a node drops its monitor; the signal handlers stay.\<close>

definition nd_drop :: "io_env \<Rightarrow> entangle_node \<Rightarrow> file_system \<Rightarrow> file_system" where
  "nd_drop env nd fs = pm_drop env (nd_monitor nd) fs"

subsection \<open>Selecting a service\<close>

record service_selector =
  ss_service_name :: string
  ss_config :: entangle_config
  ss_node_id :: node_id

definition nd_service :: "entangle_node \<Rightarrow> string \<Rightarrow> service_selector" where
  "nd_service nd name = \<lparr>ss_service_name = name, ss_config = nd_config nd, ss_node_id = nd_id nd\<rparr>"

definition ss_publish_subscribe :: "service_selector \<Rightarrow> pubsub_builder" where
  "ss_publish_subscribe s = pb_new (ss_service_name s) (ss_config s) (ss_node_id s)"

definition ss_event :: "service_selector \<Rightarrow> event_builder" where
  "ss_event s = eb_new (ss_service_name s) (ss_config s) (ss_node_id s)"

definition ss_request_response :: "service_selector \<Rightarrow> reqres_builder" where
  "ss_request_response s = rb_new (ss_service_name s) (ss_config s) (ss_node_id s)"

definition ss_blackboard :: "service_selector \<Rightarrow> blackboard_builder" where
  "ss_blackboard s = bbb_new (ss_service_name s) (ss_config s) (ss_node_id s)"

subsection \<open>Node ids\<close>

lemma generate_id_parts:
  "(ucast (nid (generate_id finish src)) :: u64) =
     finish [HProcess (src_pid src), HNanos (src_nanos src), HThread (src_thread src)]"
  "(ucast (drop_bit 64 (nid (generate_id finish src))) :: u64) = finish [HProcess (src_pid src), HNanos (src_nanos src)]"
  unfolding generate_id_def Let_def nid.simps
  by (rule bit_word_eqI; auto simp: bit_simps dest: bit_imp_le_length)+

text \<open>The two halves of a node id are the two hashes, so nodes get the same id only if both collide;
  the lower half, which names the segments of a publisher, is the hash that includes the thread.\<close>

lemma generate_id_inj:
  "generate_id finish src = generate_id finish src' \<longleftrightarrow>
     finish [HProcess (src_pid src), HNanos (src_nanos src)] = finish [HProcess (src_pid src'), HNanos (src_nanos src')] \<and>
     finish [HProcess (src_pid src), HNanos (src_nanos src), HThread (src_thread src)] =
     finish [HProcess (src_pid src'), HNanos (src_nanos src'), HThread (src_thread src')]"
proof
  assume "generate_id finish src = generate_id finish src'"
  then show "finish [HProcess (src_pid src), HNanos (src_nanos src)] = finish [HProcess (src_pid src'), HNanos (src_nanos src')] \<and>
     finish [HProcess (src_pid src), HNanos (src_nanos src), HThread (src_thread src)] =
     finish [HProcess (src_pid src'), HNanos (src_nanos src'), HThread (src_thread src')]"
    using generate_id_parts [of finish src] generate_id_parts [of finish src'] by metis
next
  assume "finish [HProcess (src_pid src), HNanos (src_nanos src)] = finish [HProcess (src_pid src'), HNanos (src_nanos src')] \<and>
     finish [HProcess (src_pid src), HNanos (src_nanos src), HThread (src_thread src)] =
     finish [HProcess (src_pid src'), HNanos (src_nanos src'), HThread (src_thread src')]"
  then show "generate_id finish src = generate_id finish src'" unfolding generate_id_def Let_def by simp
qed

subsection \<open>The life of a node\<close>

definition alive :: "path \<Rightarrow> file_system \<Rightarrow> node_id set" where
  "alive root fs = {n. Process_Monitor.held fs (node_path root n)}"

lemma is_alive_alive:
  assumes "io_calm env" and "fs_wf fs"
  shows "fst (pm_is_alive env n root fs) \<longleftrightarrow> n \<in> alive root fs"
  using fl_is_locked_view [OF assms, of "node_path root n"] by (auto simp: pm_is_alive_def alive_def)

lemma register_drop_alive:
  assumes env: "io_calm env" and wf: "fs_wf fs" and run: "pm_register env n root fs = (Ok m, fs')"
  shows "n \<notin> alive root fs" and "alive root fs' = insert n (alive root fs)" and "fs_wf fs'"
    and "alive root (pm_drop env' m fs') = alive root fs" and "fs_wf (pm_drop env' m fs')"
proof -
  obtain i where free: "\<not> Process_Monitor.held fs (node_path root n)"
    and m: "m = \<lparr>pm_lock = \<lparr>fl_file = \<lparr>fd_id = fs_next_fd fs, fd_inode = i\<rparr>, fl_path = node_path root n,
        fl_locked = True\<rparr>, pm_node_id = n, pm_root_dir = root\<rparr>"
    and fs': "fs_names fs' = (fs_names fs)(node_path root n \<mapsto> i)"
      "fs_locks fs' = (fs_locks fs)(i \<mapsto> fs_next_fd fs)" "fs_locks fs i = None" "fs_wf fs'"
    using pm_register_view [OF env wf, of root n] run by (auto split: if_splits)
  show "n \<notin> alive root fs" "fs_wf fs'" using free fs'(4) by (simp_all add: alive_def)
  have other: "fs_names fs (node_path root k) \<noteq> Some i" if "k \<noteq> n" for k
    using fs'(1,4) that node_path_inj [of root k n] unfolding fs_wf_def by (metis fun_upd_other fun_upd_same)
  then show "alive root fs' = insert n (alive root fs)"
    using fs' unfolding alive_def Process_Monitor.held_def by (fastforce simp: node_path_inj split: if_splits)
  have "fs_locks (pm_drop env' m fs') = fs_locks fs" "fs_names (pm_drop env' m fs') = fs_names fs'"
    using fl_drop_view [OF fs'(4), of env' "pm_lock m"] fs'(2,3) by (simp_all add: pm_drop_def m fun_upd_idem)
  then show "alive root (pm_drop env' m fs') = alive root fs"
    using fs'(1,3) free by (auto simp: alive_def Process_Monitor.held_def node_path_inj split: if_splits)
  show "fs_wf (pm_drop env' m fs')" using fl_drop_view(2) [OF fs'(4)] by (simp add: pm_drop_def)
qed

text \<open>C15: the life of a node. Creating a node succeeds exactly if no live node has its id and the signal
  handlers can be installed. It then has the name given to the builder, if any, the node is alive
  besides those that were, and dropping it makes exactly it dead again; when creation fails no node
  is alive that was not before.\<close>

theorem node_lifecycle:
  assumes "fs_wf fs" and "io_calm env" and "shm_root (nb_config b) = root"
  shows "\<exists>r fs' sg'. nb_create finish src env refuse b fs sg = (r, fs', sg') \<and> fs_wf fs' \<and>
    (is_Ok r \<longleftrightarrow> generate_id finish src \<notin> alive root fs \<and> refuse SIGTERM = None \<and> refuse SIGINT = None) \<and>
    (case r of
       Err e \<Rightarrow> alive root fs' = alive root fs
     | Ok nd \<Rightarrow> nd_id nd = generate_id finish src \<and>
         nd_name nd = (if nb_name b = None then node_name (nb_config b) else nb_name b) \<and>
         alive root fs' = insert (nd_id nd) (alive root fs) \<and>
         alive root (nd_drop env' nd fs') = alive root fs)"
proof -
  let ?id = "generate_id finish src"
  have root: "shm_root (case nb_name b of None \<Rightarrow> nb_config b | Some name \<Rightarrow> (nb_config b)\<lparr>node_name := Some name\<rparr>) = root"
    using assms(3) by (cases "nb_name b") auto
  have sig: "(\<exists>e sg'. sig_install refuse sg = (Err e, sg')) \<longleftrightarrow> \<not> (refuse SIGTERM = None \<and> refuse SIGINT = None)"
    by (auto simp: sig_install_def sys_signal_def split: option.splits)
  obtain r fs1 where reg: "pm_register env ?id root fs = (r, fs1)" by (cases "pm_register env ?id root fs")
  show ?thesis
  proof (cases r)
    case (Err e)
    have "Process_Monitor.held fs (node_path root ?id)" "fs_names fs1 = fs_names fs" "fs_locks fs1 = fs_locks fs" "fs_wf fs1"
      using pm_register_view [OF assms(2,1), of root ?id] reg Err by (auto split: if_splits)
    then show ?thesis using reg Err root by (simp add: nb_create_def Let_def alive_def Process_Monitor.held_def)
  next
    case (Ok m)
    note reg = reg [unfolded Ok]
    note a = register_drop_alive [OF assms(2,1) reg]
    obtain q sg' where q: "sig_install refuse sg = (q, sg')" by (cases "sig_install refuse sg")
    show ?thesis
    proof (cases q)
      case (Err e)
      then show ?thesis using reg root q sig a by (auto simp: nb_create_def Let_def)
    next
      case (Ok u)
      then show ?thesis using reg root q sig a by (auto simp: nb_create_def Let_def nd_name_def nd_drop_def split: option.splits)
    qed
  qed
qed

theorem node_lifecycle_witness:
  "\<exists>nd fs' sg'. nb_create (\<lambda>_. 5) \<lparr>src_pid = 1, src_nanos = 2, src_thread = 3\<rparr> io_quiet (\<lambda>_. None)
      (nb_set_name ''camera'' node_builder_new) fs_empty sig_start = (Ok nd, fs', sg') \<and>
    nd_name nd = Some ''camera'' \<and> alive ''/tmp/entangle/'' fs' = {nd_id nd} \<and>
    alive ''/tmp/entangle/'' (nd_drop io_quiet nd fs') = {}"
proof -
  let ?b = "nb_set_name ''camera'' node_builder_new" and ?src = "\<lparr>src_pid = 1, src_nanos = 2, src_thread = 3\<rparr>"
  have none: "alive ''/tmp/entangle/'' fs_empty = {}"
    by (simp add: alive_def Process_Monitor.held_def fs_empty_def)
  have b: "shm_root (nb_config ?b) = ''/tmp/entangle/''" "nb_name ?b = Some ''camera''"
    by (simp_all add: nb_set_name_def node_builder_new_def config_default_def)
  obtain r fs' sg' where r: "nb_create (\<lambda>_. 5) ?src io_quiet (\<lambda>_. None) ?b fs_empty sig_start = (r, fs', sg')"
    by (cases "nb_create (\<lambda>_. 5) ?src io_quiet (\<lambda>_. None) ?b fs_empty sig_start")
  note life = node_lifecycle [OF fs_wf_empty io_calm_quiet(1) b(1), of "\<lambda>_. 5" ?src "\<lambda>_. None" sig_start io_quiet]
  have "is_Ok r" using life r none by auto
  then obtain nd where "r = Ok nd" by (cases r) auto
  with life r none b(2) show ?thesis by (intro exI [of _ nd] exI [of _ fs'] exI [of _ sg']) auto
qed

subsection \<open>Nodes and services\<close>

text \<open>Nodes and services keep their files apart in one root directory: a service file ends in \<open>n\<close>, the
  file of a node in a hexadecimal digit.\<close>

lemma nb_create_keeps:
  assumes "fs_wf fs" and "nb_create finish src env refuse b fs sg = (r, fs', sg')"
  shows "fs_wf fs' \<and> fs_keeps (- range (node_path (shm_root (nb_config b)))) fs fs'"
proof -
  let ?id = "generate_id finish src" and ?root = "shm_root (nb_config b)"
  have root: "shm_root (case nb_name b of None \<Rightarrow> nb_config b | Some name \<Rightarrow> (nb_config b)\<lparr>node_name := Some name\<rparr>) = ?root"
    by (cases "nb_name b") auto
  obtain q fs1 where q: "pm_register env ?id ?root fs = (q, fs1)" by (cases "pm_register env ?id ?root fs")
  note q1 = pm_register_keeps [OF assms(1) q]
  have "fs' = fs1 \<or> (\<exists>m. q = Ok m \<and> fs' = pm_drop env m fs1)"
    using assms(2) q root by (auto simp: nb_create_def Let_def split: result.splits prod.splits)
  then have "fs_wf fs' \<and> fs_keeps (- {node_path ?root ?id}) fs fs'"
  proof
    assume "fs' = fs1"
    then show ?thesis using q1(1,2) by simp
  next
    assume "\<exists>m. q = Ok m \<and> fs' = pm_drop env m fs1"
    then obtain m where m: "q = Ok m" "fs' = pm_drop env m fs1" by blast
    from pm_drop_keeps [OF q1(3) [OF m(1)], of env] fs_keeps_trans [OF q1(2)] m(2) show ?thesis by simp
  qed
  moreover have "- range (node_path ?root) \<subseteq> - {node_path ?root ?id}" by auto
  ultimately show ?thesis using fs_keeps_mono by blast
qed

lemma service_path_not_node: "service_path r name \<noteq> node_path root n"
proof -
  have "last (service_path r name) = CHR ''n''" by (auto simp: service_path_def path_join_def)
  moreover have "last (node_path root n) \<in> set (hex_pad 32 (unat (nid n)))" by (auto simp: node_path_def path_join_def)
  moreover have "CHR ''n'' \<notin> set (hex_pad 32 (unat (nid n)))"
    by (rule hex_pad_digits) (simp add: hex_value_def)
  ultimately show ?thesis by metis
qed

lemma keeps_lookup:
  assumes "fs_keeps (- range (node_path root)) fs fs'"
  shows "reg_lookup rn r env name fs' = reg_lookup rn r env name fs"
proof -
  have "service_path r name \<in> - range (node_path root)" using service_path_not_node by blast
  then show ?thesis using keeps_content [OF assms] by (simp add: reg_lookup_def fs_read_to_string_def)
qed

lemma keeps_alive:
  assumes "fs_keeps (- {service_path r name}) fs fs'"
  shows "alive root fs' = alive root fs"
proof -
  have "node_path root n \<noteq> service_path r name" for n using service_path_not_node by metis
  then have "fs_names fs' (node_path root n) = fs_names fs (node_path root n)"
    and "fs_names fs (node_path root n) = Some i \<Longrightarrow> fs_locks fs' i = fs_locks fs i" for n i
    using assms unfolding fs_keeps_def by (metis ComplI singletonD)+
  then show ?thesis unfolding alive_def Process_Monitor.held_def by metis
qed

text \<open>C16: services and nodes do not disturb each other, whatever fails. Creating a node and cleaning up after
  dead ones leave every service lookup as it was; opening, creating or destroying a service changes
  nothing about which nodes are alive. This holds for all root directories and in every environment,
  also where system calls fail half way.\<close>

theorem nodes_services_independent:
  assumes "fs_wf fs"
  shows "reg_lookup rn r env' name (fst (snd (nb_create finish src env refuse b fs sg))) = reg_lookup rn r env' name fs \<and>
    reg_lookup rn r env' name (snd (pm_cleanup_dead_nodes env root fs)) = reg_lookup rn r env' name fs \<and>
    alive root (snd (lc_open_or_create rn lc env c fs)) = alive root fs \<and>
    alive root (snd (lc_destroy lc env name fs)) = alive root fs"
proof (intro conjI)
  obtain q fs' sg' where "nb_create finish src env refuse b fs sg = (q, fs', sg')"
    by (cases "nb_create finish src env refuse b fs sg")
  with nb_create_keeps [OF assms] show "reg_lookup rn r env' name (fst (snd (nb_create finish src env refuse b fs sg))) =
      reg_lookup rn r env' name fs" using keeps_lookup by fastforce
  have "fs_keeps (- range (node_path root)) fs (snd (pm_cleanup_dead_nodes env root fs))"
    using cleanup_nodes_keeps [OF assms] fs_keeps_refl
    by (auto simp: pm_cleanup_dead_nodes_def split: result.splits prod.splits) (metis snd_conv)
  then show "reg_lookup rn r env' name (snd (pm_cleanup_dead_nodes env root fs)) = reg_lookup rn r env' name fs"
    by (rule keeps_lookup)
  show "alive root (snd (lc_open_or_create rn lc env c fs)) = alive root fs"
    using lc_open_or_create_keeps [OF assms] by (rule keeps_alive)
  show "alive root (snd (lc_destroy lc env name fs)) = alive root fs"
    unfolding lc_destroy_def using reg_unregister_keeps by (rule keeps_alive)
qed

theorem nodes_services_independent_witness:
  "alive ''/tmp/entangle'' (snd (lc_open_or_create ron_plain (lc_new ''/tmp/entangle'') io_quiet
     (sc_new PubSub ''radar'' ''u64'' 8 8) (snd (pm_register io_quiet (NodeId 5) ''/tmp/entangle'' fs_empty)))) = {NodeId 5}"
proof -
  obtain r fs where reg: "pm_register io_quiet (NodeId 5) ''/tmp/entangle'' fs_empty = (r, fs)"
    by (cases "pm_register io_quiet (NodeId 5) ''/tmp/entangle'' fs_empty")
  have none: "alive ''/tmp/entangle'' fs_empty = {}" by (simp add: alive_def Process_Monitor.held_def fs_empty_def)
  have "\<not> Process_Monitor.held fs_empty (node_path ''/tmp/entangle'' (NodeId 5))"
    by (simp add: Process_Monitor.held_def fs_empty_def)
  then obtain m where "r = Ok m"
    using pm_register_view [OF io_calm_quiet(1) fs_wf_empty, of "''/tmp/entangle''" "NodeId 5"] reg by auto
  with reg have "alive ''/tmp/entangle'' fs = {NodeId 5}" and "fs_wf fs"
    using register_drop_alive(2,3) [OF io_calm_quiet(1) fs_wf_empty] none by auto
  then show ?thesis using nodes_services_independent [of fs] reg by simp
qed

lemma nb_create_OkD:
  assumes "nb_create finish src env refuse b fs sg = (Ok nd, fs', sg')"
  shows "\<exists>m. pm_register env (nd_id nd) (shm_root (nb_config b)) fs = (Ok m, fs')"
    and "nd_config nd = (nb_config b)\<lparr>node_name := (if nb_name b = None then node_name (nb_config b) else nb_name b)\<rparr>"
  using assms by (auto simp: nb_create_def Let_def split: option.splits result.splits prod.splits)

lemma pm_register_reg_ok:
  assumes "reg_ok rn r fs" and "pm_register env n root fs = (q, fs')"
  shows "reg_ok rn r fs'"
proof -
  have "service_path r k \<noteq> nodes_dir root" for k
  proof -
    have "last (service_path r k) = CHR ''n''" "last (nodes_dir root) = CHR ''s''"
      by (auto simp: service_path_def nodes_dir_def path_join_def)
    then show ?thesis by force
  qed
  then show ?thesis
    using assms pm_register_dirs [of env n root fs] pm_register_keeps(1) [of fs env n root q fs']
    by (auto simp: reg_ok_def)
qed

end
