(* ===== verification/Examples.thy ===== *)
theory Examples
  imports Entangle_Node Pub_Sub_Safety
begin

text \<open>
  The example programs of \<open>crates/entangle/examples\<close>, as runs through all layers: a node, a service
  handle, its ports and the operations of the program in order. \<open>None\<close> is a panic (an \<open>unwrap\<close> of an
  error, a failed assertion). What a program prints is a list of lines; numbers are not formatted, and
  the bit patterns of floating-point values are given by a function.
\<close>

subsection \<open>Starting up\<close>

text \<open>What the program finds: the hasher and its inputs, the file system calls, refused signals, the RON
  serializer, the system calls for shared memory, and the time.\<close>

record example_machine =
  xm_finish :: "hashed list \<Rightarrow> u64"
  xm_source :: id_source
  xm_env :: io_env
  xm_refuse :: "c_int \<Rightarrow> string option"
  xm_ron :: ron
  xm_nix :: nix
  xm_nanos :: nat

definition unique_shm_root :: "string \<Rightarrow> nat \<Rightarrow> string" where
  "unique_shm_root name ts = ''/tmp/entangle_example_'' @ name @ ''_'' @ dec_string ts @ ''/''"

definition example_node ::
  "example_machine \<Rightarrow> string \<Rightarrow> file_system \<Rightarrow> signal_state \<Rightarrow> (entangle_node \<times> file_system) option" where
  "example_node x name fs sg =
     (let config = config_default\<lparr>shm_root := unique_shm_root name (xm_nanos x)\<rparr>
      in case nb_create (xm_finish x) (xm_source x) (xm_env x) (xm_refuse x)
                (nb_set_config config node_builder_new) fs sg of
           (r, fs, sg) \<Rightarrow> map_option (\<lambda>node. (node, fs)) (unwrap r))"

text \<open>A process that has made no port yet.\<close>

definition new_process :: "file_system \<Rightarrow> memory \<Rightarrow> service_world" where
  "new_process fs mem =
     \<lparr>sv_fs = fs, sv_pubsub = [], sv_reqres = [], sv_blackboard = [], sv_ports = no_ports mem\<rparr>"

subsection \<open>A fresh machine\<close>

text \<open>Nothing in the file system, every call succeeds.\<close>

definition plain_machine :: example_machine where
  "plain_machine = \<lparr>xm_finish = (\<lambda>_. 5), xm_source = \<lparr>src_pid = 1, src_nanos = 2, src_thread = 3\<rparr>, xm_env = io_quiet,
     xm_refuse = (\<lambda>_. None), xm_ron = ron_plain, xm_nix = nix_ok, xm_nanos = 0\<rparr>"

lemma first_node:
  "\<exists>nd fs1 sg1. nb_create finish src io_quiet (\<lambda>_. None) b fs_empty sig_start = (Ok nd, fs1, sg1)"
proof -
  let ?n = "generate_id finish src"
  have "\<not> Process_Monitor.held fs_empty (node_path root ?n)" for root
    by (simp add: Process_Monitor.held_def fs_empty_def)
  then have "\<exists>m fs. pm_register io_quiet ?n root fs_empty = (Ok m, fs)" for root
    using pm_register_view [OF io_calm_quiet(1) fs_wf_empty, of root ?n] by auto
  then obtain m fs where "pm_register io_quiet ?n (shm_root (case nb_name b of Some name \<Rightarrow> (nb_config b)\<lparr>node_name := Some name\<rparr>
      | None \<Rightarrow> nb_config b)) fs_empty = (Ok m, fs)" by blast
  then show ?thesis by (simp add: nb_create_def Let_def sig_install_def sys_signal_def)
qed

text \<open>On it a service of any description can be created.\<close>

lemma first_service:
  assumes nd: "nb_create finish src io_quiet (\<lambda>_. None) b fs_empty sig_start = (Ok nd, fs1, sg1)"
  shows "is_Ok (fst (lc_open_or_create ron_plain (lc_new root) io_quiet c fs1))"
proof -
  obtain m where "pm_register io_quiet (nd_id nd) (shm_root (nb_config b)) fs_empty = (Ok m, fs1)"
    using nb_create_OkD(1) [OF nd] by auto
  then have ok: "reg_ok ron_plain (lc_registry (lc_new root)) fs1" by (rule pm_register_reg_ok [OF reg_ok_empty])
  have "reg_lookup ron_plain (lc_registry (lc_new root)) io_quiet n fs1 = Err (NotFound n)" for n
    using keeps_lookup nb_create_keeps [OF fs_wf_empty nd] lookup_empty by metis
  then show ?thesis using lc_open_or_create_cases [OF ok io_calm_quiet(1)] by simp
qed

lemma plain_node:
  obtains node fs1 where "example_node plain_machine name fs_empty sig_start = Some (node, fs1)"
    and "\<forall>root c. is_Ok (fst (lc_open_or_create ron_plain (lc_new root) io_quiet c fs1))"
    and "nd_config node = config_default\<lparr>shm_root := unique_shm_root name 0\<rparr>"
proof -
  let ?b = "nb_set_config (config_default\<lparr>shm_root := unique_shm_root name 0\<rparr>) node_builder_new"
  obtain nd fs1 sg1 where nd: "nb_create (\<lambda>_. 5) \<lparr>src_pid = 1, src_nanos = 2, src_thread = 3\<rparr> io_quiet (\<lambda>_. None) ?b
      fs_empty sig_start = (Ok nd, fs1, sg1)"
    using first_node by blast
  then have "nd_config nd = config_default\<lparr>shm_root := unique_shm_root name 0\<rparr>"
    using nb_create_OkD(2) by (fastforce simp: nb_set_config_def node_builder_new_def)
  then show ?thesis
    using that nd first_service [OF nd] by (simp add: example_node_def plain_machine_def Let_def)
qed

lemma plain_segment:
  assumes "layout_fits c n"
  shows "\<exists>d mem'. ds_create nix_ok name c n seg mem = Some (Ok d, mem')"
proof -
  have "unat (HEADER_SIZE + align8 c * ucast n) \<noteq> 0" unfolding layout_fits_align(4) [OF assms] by simp
  then have "HEADER_SIZE + align8 c * ucast n \<noteq> 0" by (metis unat_0)
  then have "\<exists>shm mem1. shm_create nix_ok name (HEADER_SIZE + align8 c * ucast n) mem = (Ok shm, mem1)"
    by (simp add: shm_create_def Let_def nix_ok_def do_mmap_def)
  then show ?thesis using ds_create_wf [OF assms] by metis
qed

lemma plain_publisher:
  assumes "ppb_shared b < length (sv_pubsub v)" and "ps_params_ok (ppb_qos b) (ty_size T)"
  shows "\<exists>p v'. publisher_create nix_ok T b v = Some (Ok p, v')"
proof -
  have "layout_fits (max (of_nat (ty_size T)) 8) (ucast (buffer_size (ppb_qos b)))" using assms(2) by (simp add: ps_params_ok_def)
  then obtain d mem where "ds_create nix_ok (pub_segment_name (ppb_service_name b) (ps_publisher_counter (sv_pubsub v ! ppb_shared b)) (ppb_node_id b))
      (max (of_nat (ty_size T)) 8) (ucast (buffer_size (ppb_qos b))) 0 (w_mem (sv_ports v)) = Some (Ok d, mem)"
    using plain_segment by metis
  then show ?thesis using assms(1) by (simp add: publisher_create_def on_pubsub_def pub_create_def Let_def world.defs)
qed

subsection \<open>Publish-subscribe\<close>

definition sensor_type :: rust_type where
  "sensor_type = \<lparr>ty_name = ''pubsub::SensorData'', ty_size = 16, ty_align = 8\<rparr>"

definition sensor_bytes :: "u64 \<Rightarrow> u64 \<Rightarrow> u8 list" where
  "sensor_bytes timestamp reading = u64_le timestamp @ u64_le reading"

datatype example_line = Sent "u8 list" | Received "u8 list" | ActiveLoans usize

text \<open>\<open>reading i\<close> is the bit pattern of \<open>20.0 + (i as f64) * 0.5\<close>.\<close>

fun publish_readings :: "(u64 \<Rightarrow> u64) \<Rightarrow> publisher \<Rightarrow> u64 list \<Rightarrow> world \<Rightarrow> (example_line list \<times> world) option" where
  "publish_readings reading p [] w = Some ([], w)"
| "publish_readings reading p (i # ns) w = do {
     (r, w) \<leftarrow> pub_loan p w;
     sample \<leftarrow> unwrap r;
     let w = smu_write sample (sensor_bytes (i * 100) (reading i)) w;
     (r, w) \<leftarrow> smu_send sample w;
     _ \<leftarrow> unwrap r;
     (ls, w) \<leftarrow> publish_readings reading p ns w;
     Some (Sent (sensor_bytes (i * 100) (reading i)) # ls, w)
   }"

fun receive_readings :: "nat \<Rightarrow> subscriber \<Rightarrow> world \<Rightarrow> (example_line list \<times> world) option" where
  "receive_readings 0 u w = Some ([], w)"
| "receive_readings (Suc n) u w = do {
     (r, w) \<leftarrow> sub_receive u w;
     received \<leftarrow> unwrap r;
     case received of
       None \<Rightarrow> receive_readings n u w
     | Some sample \<Rightarrow> do {
         let line = Received (sa_read sample (ty_size sensor_type) w);
         dropped \<leftarrow> sa_drop 1 sample w;
         case dropped of
           Spinning \<Rightarrow> None
         | Done w \<Rightarrow> do { (ls, w) \<leftarrow> receive_readings n u w; Some (line # ls, w) }
       }
   }"

definition pubsub_example ::
  "example_machine \<Rightarrow> (u64 \<Rightarrow> u64) \<Rightarrow> file_system \<Rightarrow> signal_state \<Rightarrow> memory \<Rightarrow> example_line list option" where
  "pubsub_example x reading fs sg mem = do {
     (node, fs) \<leftarrow> example_node x ''pubsub'' fs sg;
     let (r, sw) = pb_open_or_create (xm_ron x) (xm_env x) sensor_type
           (pb_max_loaned_samples 16 (ss_publish_subscribe (nd_service node ''sensor/temperature'')))
           (new_process fs mem);
     service \<leftarrow> unwrap r;
     (r, sw) \<leftarrow> publisher_create (xm_nix x) sensor_type (pss_publisher service) sw;
     publisher \<leftarrow> unwrap r;
     (r, sw) \<leftarrow> subscriber_create (pss_subscriber service) sw;
     subscriber \<leftarrow> unwrap r;
     let w = world.truncate (sv_ports sw);
     (sent, w) \<leftarrow> publish_readings reading publisher (map of_nat [0..<10]) w;
     (received, w) \<leftarrow> receive_readings 10 subscriber w;
     (r, w) \<leftarrow> sub_receive subscriber w;
     last \<leftarrow> unwrap r;
     if last \<noteq> None then None
     else do {
       w \<leftarrow> pub_reclaim publisher w;
       loans \<leftarrow> pub_get_active_loans publisher w;
       Some (sent @ received @ [ActiveLoans loans])
     }
   }"

subsection \<open>Payloads in flight\<close>

text \<open>Between the operations of a program that keeps no sample: the payloads in flight, and the number of
  chunks on their way back. \<open>n\<close> is the number of chunks of the segment.\<close>

definition ps_idle :: "world \<Rightarrow> (pointer_offset \<Rightarrow> u8 list) \<Rightarrow> ps_sys" where
  "ps_idle w f = \<lparr>sw = w, loaned = [], got = [], sent = f\<rparr>"

definition in_flight :: "publisher \<Rightarrow> nat \<Rightarrow> world \<Rightarrow> u8 list list \<Rightarrow> nat \<Rightarrow> bool" where
  "in_flight p n w msgs due \<longleftrightarrow> (\<exists>mem d c k f. ps_inv p (ps_idle w f) mem d c k \<and> card (ds_chunks d) = n \<and>
     map f (ch_inflight c) = msgs \<and> length (ch_returned c) = due)"

lemma in_flight_count:
  assumes "ps_inv p (ps_idle w f) mem d c k"
  shows "unat k = length (ch_inflight c) + length (ch_returned c)" and "w = ps_world mem d c k"
  using assms custody_size [of "[]" c "[]" d] by (auto simp: ps_inv_def ps_idle_def)

lemma publish_in_flight:
  assumes state: "in_flight p n w msgs due" and shape: "ps_shape p u"
    and room: "length msgs + due < n" "length msgs + due < unat (pub_max_loaned p)"
    and len: "length bs = pub_payload p"
  obtains m w1 w2 where "pub_loan p w = Some (Ok m, w1)" "smu_send m (smu_write m bs w1) = Some (Ok (), w2)"
    "in_flight p n w2 (msgs @ [bs]) due"
proof -
  obtain mem d c k f where inv: "ps_inv p (ps_idle w f) mem d c k" and n: "card (ds_chunks d) = n"
      and msgs: "map f (ch_inflight c) = msgs" "length (ch_returned c) = due"
    using state by (auto simp: in_flight_def)
  have count: "unat k = length msgs + due" "w = ps_world mem d c k"
    using in_flight_count [OF inv] msgs by (simp_all flip: msgs(1))
  have "card (ds_out d) < card (ds_chunks d)" using inv count(1) room(1) n by (simp add: ps_inv_def)
  then have free: "ds_free d \<noteq> {}" by (auto simp: ds_out_def)
  have k: "k < pub_max_loaned p" using count(1) room(2) by (simp add: word_less_nat_alt)
  obtain a d' where l: "a \<in> ds_free d" "ds_same d' d" and loan: "pub_loan p w = Some (Ok \<lparr>smu_ptr = ds_resolve_ptr d a,
      smu_offset = a, smu_send_fn = Some 0, smu_drop_fn = Some (0, 0)\<rparr>,
      ps_world (ds_write d a (replicate (pub_payload p) 0) mem) d' c (k + 1))" (is "_ = Some (Ok ?m, ?w1)")
    using inv shape by (cases rule: ps_loan_result) (use k free in \<open>auto simp: ps_idle_def\<close>)
  let ?s1 = "(ps_idle w f)\<lparr>sw := ?w1, loaned := [?m]\<rparr>"
  have "pub_loan p (sw (ps_idle w f)) = Some (Ok ?m, ?w1)" using loan by (simp add: ps_idle_def)
  from ps_inv_loan [OF inv shape this] obtain mem1 d1 c1 k1 where inv1: "ps_inv p ?s1 mem1 d1 c1 k1"
    by (auto simp: ps_idle_def)
  then have eq1: "c1 = c" "d1 = d'" "mem1 = ds_write d a (replicate (pub_payload p) 0) mem" by (simp_all add: ps_inv_def ps_world_def)
  have m: "?m \<in> set (loaned ?s1)" by simp
  let ?s2 = "?s1\<lparr>sw := smu_write ?m bs (sw ?s1)\<rparr>"
  have inv2: "ps_inv p ?s2 (ds_write d1 a bs mem1) d1 c1 k1" using ps_inv_write [OF inv1 m len] by simp
  have m2: "?m \<in> set (loaned ?s2)" by simp
  obtain c' where send: "smu_send ?m (sw ?s2) = Some (Ok (), ps_world (ds_write d1 a bs mem1) d1 c' k1)"
      "ch_inflight c' = ch_inflight c1 @ [a]" "ch_returned c' = ch_returned c1"
    using ps_send_result [OF inv2 m2] by auto
  let ?w2 = "ps_world (ds_write d1 a bs mem1) d1 c' k1"
  have out: "a \<in> ds_out d1" using ps_inv_loaned(4) [OF inv1 m] by simp
  have bs: "read_list (ds_resolve_ptr d a) (pub_payload p) (w_mem (sw ?s2)) = bs"
    using inv2 ds_read_write_same [of d1 a bs mem1] ds_out_chunks [OF out] len ds_same_resolve [OF l(2)] eq1(2)
    by (simp add: ps_inv_def ds_read_def) (simp add: ps_world_def)
  from ps_inv_send [OF inv2 m2 send(1)] obtain mem3 d3 c3 k3 where
    inv3: "ps_inv p (ps_idle ?w2 (f(a := bs))) mem3 d3 c3 k3"
    using bs by (auto simp: ps_idle_def)
  then have eq3: "c3 = c'" "d3 = d1" by (simp_all add: ps_inv_def ps_idle_def ps_world_def)
  have "a \<notin> set (ch_inflight c)" using ps_inv_loaned(5) [OF inv1 m] eq1(1) by simp
  then have "map (f(a := bs)) (ch_inflight c') = msgs @ [bs]" using send(2) eq1(1) msgs(1) by auto
  then have "in_flight p n ?w2 (msgs @ [bs]) due"
    unfolding in_flight_def using inv3 eq3 eq1 send(3) msgs(2) n ds_same_chunks [OF l(2)] by fastforce
  then show ?thesis using that [OF loan] send(1) by simp
qed

lemma receive_in_flight:
  assumes state: "in_flight p n w (b # msgs) due" and shape: "ps_shape p u"
  obtains a w1 w2 where "sub_receive u w = Some (Ok (Some a), w1)" "sa_read a (pub_payload p) w1 = b"
    "sa_drop 1 a w1 = Some (Done w2)" "in_flight p n w2 msgs (Suc due)"
proof -
  obtain mem d c k f where inv: "ps_inv p (ps_idle w f) mem d c k" and n: "card (ds_chunks d) = n"
      and msgs: "map f (ch_inflight c) = b # msgs" "length (ch_returned c) = due"
    using state by (auto simp: in_flight_def)
  have w: "sw (ps_idle w f) = w" by (simp add: ps_idle_def)
  have "\<exists>x xs c'. ch_inflight c = x # xs \<and> ch_inflight c' = xs \<and> ch_returned c' = ch_returned c \<and>
      sub_receive u w = Some (Ok (Some \<lparr>sa_ptr = ds_resolve_ptr d x, sa_offset = x, sa_drop_fn = Some 0\<rparr>), ps_world mem d c' k)"
    using inv shape by (cases rule: ps_receive_result) (use msgs(1) w in auto)
  then obtain x xs c' where c': "ch_inflight c = x # xs" "ch_inflight c' = xs" "ch_returned c' = ch_returned c"
      and r: "sub_receive u (sw (ps_idle w f)) =
        Some (Ok (Some \<lparr>sa_ptr = ds_resolve_ptr d x, sa_offset = x, sa_drop_fn = Some 0\<rparr>), ps_world mem d c' k)"
        (is "_ = Some (Ok (Some ?a), ?w1)")
    unfolding w by blast
  obtain mem1 d1 c1 k1 where inv1: "ps_inv p ((ps_idle w f)\<lparr>sw := ?w1, got := [?a]\<rparr>) mem1 d1 c1 k1" (is "ps_inv p ?s1 _ _ _ _")
    using ps_inv_receive [OF inv shape r] by (auto simp: ps_idle_def)
  then have eq1: "mem1 = mem" "d1 = d" "c1 = c'" "k1 = k" by (simp_all add: ps_inv_def ps_world_def)
  have a: "?a \<in> set (got ?s1)" by simp
  have "sa_read ?a (pub_payload p) (sw ?s1) = sent ?s1 (sa_offset ?a)" using ps_inv_integrity [OF inv1] a by blast
  then have read: "sa_read ?a (pub_payload p) ?w1 = b" using msgs(1) c'(1) by (simp add: ps_idle_def)
  obtain c2 where drop: "sa_drop 1 ?a (sw ?s1) = Some (Done (ps_world mem d c2 k))"
      "ch_inflight c2 = ch_inflight c1" "ch_returned c2 = ch_returned c1 @ [sa_offset ?a]"
    using ps_release_result [OF inv1 a] eq1 by (metis zero_less_one)
  from ps_inv_release [OF inv1 a drop(1)] obtain mem3 d3 c3 k3 where
    inv3: "ps_inv p (ps_idle (ps_world mem d c2 k) f) mem3 d3 c3 k3"
    by (auto simp: ps_idle_def)
  then have "c3 = c2" "d3 = d" by (simp_all add: ps_inv_def ps_idle_def ps_world_def)
  then have "in_flight p n (ps_world mem d c2 k) msgs (Suc due)"
    unfolding in_flight_def using inv3 drop(2,3) eq1(3) c' msgs n by fastforce
  then show ?thesis using that [of ?a ?w1] r w read drop(1) by simp
qed

lemma receive_none_in_flight:
  assumes "in_flight p n w [] due" and "ps_shape p u"
  shows "sub_receive u w = Some (Ok None, w)"
proof -
  obtain mem d c k f where inv: "ps_inv p (ps_idle w f) mem d c k" "ch_inflight c = []"
    using assms(1) by (auto simp: in_flight_def)
  show ?thesis using inv(1) assms(2) by (cases rule: ps_receive_result) (use inv(2) in \<open>auto simp: ps_idle_def\<close>)
qed

lemma reclaim_in_flight:
  assumes state: "in_flight p n w msgs due" and shape: "ps_shape p u"
  obtains w1 k where "pub_reclaim p w = Some w1" "in_flight p n w1 msgs 0" "pub_get_active_loans p w1 = Some k"
    "unat k = length msgs"
proof -
  obtain mem d c k f where inv: "ps_inv p (ps_idle w f) mem d c k" and n: "card (ds_chunks d) = n"
      and msgs: "map f (ch_inflight c) = msgs" "length (ch_returned c) = due"
    using state by (auto simp: in_flight_def)
  obtain d' c' k' where r: "pub_reclaim p (sw (ps_idle w f)) = Some (ps_world mem d' c' k')" "ds_same d' d" "ch_returned c' = []"
      "ch_inflight c' = ch_inflight c"
    using ps_reclaim_result [OF inv shape] by metis
  from ps_inv_reclaim [OF inv shape r(1)] obtain mem3 d3 c3 k3 where
    inv3: "ps_inv p (ps_idle (ps_world mem d' c' k') f) mem3 d3 c3 k3" by (auto simp: ps_idle_def)
  then have eq: "c3 = c'" "d3 = d'" "k3 = k'" by (simp_all add: ps_inv_def ps_idle_def ps_world_def)
  have "in_flight p n (ps_world mem d' c' k') msgs 0"
    unfolding in_flight_def using inv3 eq r msgs(1) n ds_same_chunks [OF r(2)] by fastforce
  moreover have "unat k' = length msgs" using in_flight_count(1) [OF inv3] eq r(3,4) by (simp flip: msgs(1))
  moreover have "pub_get_active_loans p (ps_world mem d' c' k') = Some k'"
    using shape by (simp add: pub_get_active_loans_def ps_shape_def ps_world_def)
  ultimately show ?thesis using that r(1) by (simp add: ps_idle_def)
qed

subsection \<open>The publish-subscribe example runs\<close>

text \<open>A handle, a publisher and a subscriber made through the builders start in the same state as the ports
  made directly.\<close>

lemma handle_boot:
  assumes "pb_open_or_create rn env T b (new_process fs mem) = (Ok h, sw1)"
    and "publisher_create os T (pss_publisher h) sw1 = Some (Ok p, sw2)"
    and "subscriber_create (pss_subscriber h) sw2 = Some (Ok u, sw3)"
  shows "ps_boot os (pb_service_name b) (pb_node_id b) (pb_node_id b) (pb_qos b) (ty_size T) mem =
      Some (p, u, world.truncate (sv_ports sw3))"
    and "sv_fs sw3 = snd (lc_open_or_create rn (lc_new (shm_root (pb_config b))) env (pb_static_config T b) fs)"
proof -
  obtain e fs' where lc: "lc_open_or_create rn (lc_new (shm_root (pb_config b))) env (pb_static_config T b) fs = (Ok e, fs')"
      and h: "pb_handle b ((new_process fs mem)\<lparr>sv_fs := fs'\<rparr>) = (h, sw1)"
    using pb_open_or_create_OkD [OF assms(1)] by (auto simp: new_process_def)
  have hf: "pss_service_name h = pb_service_name b" "pss_node_id h = pb_node_id b" "pss_qos h = pb_qos b" "pss_shared h = 0"
      "sv_pubsub sw1 = [fresh_shared (pb_service_name b) (pb_qos b)]" "sv_fs sw1 = fs'" "sv_ports sw1 = no_ports mem"
    using h by (auto simp: pb_handle_def Let_def new_process_def fresh_shared_def)
  have empty: "world.truncate (no_ports mem) = empty_world mem"
    by (simp add: no_ports_def empty_world_def world.defs)
  obtain sh w where pub: "pub_create os (pb_service_name b) (pb_node_id b) (pb_qos b) (ty_size T)
        (fresh_shared (pb_service_name b) (pb_qos b)) (empty_world mem) = Some (Ok p, sh, w)"
      "sv_pubsub sw2 = [sh]" "world.truncate (sv_ports sw2) = w" "sv_fs sw2 = fs'"
    using assms(2) hf empty
    by (auto simp: publisher_create_def pss_publisher_def on_pubsub_def Option.bind_eq_Some_conv world.defs)
  have sub: "sub_create (pb_service_name b) (pb_node_id b) (pb_qos b) sh w = Some (Ok u, world.truncate (sv_ports sw3))"
      "sv_fs sw3 = fs'"
    using assms(3) hf pub
    by (auto simp: subscriber_create_def pss_subscriber_def on_pubsub_def Option.bind_eq_Some_conv world.defs)
  show "ps_boot os (pb_service_name b) (pb_node_id b) (pb_node_id b) (pb_qos b) (ty_size T) mem =
      Some (p, u, world.truncate (sv_ports sw3))"
    using pub(1) sub(1) by (simp add: ps_boot_def)
  show "sv_fs sw3 = snd (lc_open_or_create rn (lc_new (shm_root (pb_config b))) env (pb_static_config T b) fs)"
    using lc sub(2) by simp
qed

lemma publish_readings_runs:
  assumes "in_flight p n w msgs due" and "ps_shape p u" and "pub_payload p = 16"
    and "length msgs + due + length ns \<le> n" and "length msgs + due + length ns \<le> unat (pub_max_loaned p)"
  shows "\<exists>w'. publish_readings reading p ns w = Some (map (\<lambda>i. Sent (sensor_bytes (i * 100) (reading i))) ns, w') \<and>
    in_flight p n w' (msgs @ map (\<lambda>i. sensor_bytes (i * 100) (reading i)) ns) due"
  using assms
proof (induction ns arbitrary: w msgs)
  case (Cons i ns)
  let ?bs = "sensor_bytes (i * 100) (reading i)"
  have "length ?bs = pub_payload p" using Cons.prems(3) by (simp add: sensor_bytes_def)
  moreover have "length msgs + due < n" "length msgs + due < unat (pub_max_loaned p)" using Cons.prems(4,5) by simp_all
  ultimately obtain m w1 w2 where s: "pub_loan p w = Some (Ok m, w1)" "smu_send m (smu_write m ?bs w1) = Some (Ok (), w2)"
      "in_flight p n w2 (msgs @ [?bs]) due"
    using publish_in_flight [OF Cons.prems(1,2)] by metis
  obtain w' where "publish_readings reading p ns w2 = Some (map (\<lambda>i. Sent (sensor_bytes (i * 100) (reading i))) ns, w')"
      "in_flight p n w' ((msgs @ [?bs]) @ map (\<lambda>i. sensor_bytes (i * 100) (reading i)) ns) due"
    using Cons.IH [OF s(3) Cons.prems(2,3)] Cons.prems(4,5) by auto
  then show ?case using s(1,2) by simp
qed simp

lemma receive_readings_runs:
  assumes "in_flight p n w msgs due" and "ps_shape p u" and "pub_payload p = 16"
  shows "\<exists>w'. receive_readings (length msgs) u w = Some (map Received msgs, w') \<and>
    in_flight p n w' [] (due + length msgs)"
  using assms
proof (induction msgs arbitrary: w due)
  case (Cons b msgs)
  obtain a w1 w2 where s: "sub_receive u w = Some (Ok (Some a), w1)" "sa_read a (pub_payload p) w1 = b"
      "sa_drop 1 a w1 = Some (Done w2)" "in_flight p n w2 msgs (Suc due)"
    using receive_in_flight [OF Cons.prems(1,2)] .
  then show ?case
    using Cons.IH [OF s(4) Cons.prems(2,3)] Cons.prems(3) by (auto simp: sensor_type_def)
qed simp

lemma boot_in_flight:
  assumes boot: "ps_boot os service n1 n2 qos payload mem = Some (p, u, w)" and ok: "ps_params_ok qos payload"
  shows "in_flight p (unat (buffer_size qos)) w [] 0" and "ps_shape p u" and "pub_payload p = payload"
    and "pub_max_loaned p = max_loaned_samples qos"
proof -
  note b = ps_boot_inv [OF boot ok]
  then show "ps_shape p u" "pub_payload p = payload" "pub_max_loaned p = max_loaned_samples qos" by simp_all
  obtain mem d c where d: "ps_inv p (ps_start w) mem d c 0" "ds_free d = ds_chunks d"
      "ds_chunk_count d = ucast (buffer_size qos)" using b by blast
  then have d1: "ps_inv p (ps_idle w (\<lambda>_. [])) mem d c 0" by (simp add: ps_start_def ps_idle_def)
  have "card (ds_chunks d) = unat (ucast (buffer_size qos) :: u32)"
    using card_ds_chunks [of d] d by (simp add: ps_inv_def)
  also have "\<dots> = unat (buffer_size qos)"
    using ok by (simp add: ps_params_ok_def unsigned_ucast_eq unsigned_take_bit_eq take_bit_nat_eq_self)
  finally have "card (ds_chunks d) = unat (buffer_size qos)" .
  moreover have "ch_inflight c = []" "ch_returned c = []" using in_flight_count(1) [OF d1] by simp_all
  ultimately show "in_flight p (unat (buffer_size qos)) w [] 0" unfolding in_flight_def using d1 by fastforce
qed

lemma example_node_config:
  assumes "example_node x name fs sg = Some (node, fs1)"
  shows "nd_config node = config_default\<lparr>shm_root := unique_shm_root name (xm_nanos x)\<rparr>"
proof -
  have "\<exists>sg1. nb_create (xm_finish x) (xm_source x) (xm_env x) (xm_refuse x)
      (nb_set_config (config_default\<lparr>shm_root := unique_shm_root name (xm_nanos x)\<rparr>) node_builder_new) fs sg = (Ok node, fs1, sg1)"
    using assms by (auto simp: example_node_def Let_def unwrap_def split: prod.splits result.splits)
  then show ?thesis using nb_create_OkD(2) by (fastforce simp: nb_set_config_def node_builder_new_def)
qed

lemma first_subscriber:
  assumes "pb_open_or_create rn env T b v = (Ok h, v1)" and "publisher_create os T (pss_publisher h) v1 = Some (Ok p, v2)"
  shows "\<exists>u v3. subscriber_create (pss_subscriber h) v2 = Some (Ok u, v3)"
proof -
  have "pss_shared h < length (sv_pubsub v1)" "ps_publishers (sv_pubsub v1 ! pss_shared h) = []"
    using pb_open_or_create_OkD [OF assms(1)] by (auto simp: pb_handle_def Let_def)
  then show ?thesis
    using subscriber_create_one [of "pss_subscriber h" v2] publisher_create_OkD [OF assms(2)]
    by (auto simp: pss_subscriber_def pss_publisher_def)
qed

lemma sensor_params: "ps_params_ok (pubsub_qos_default\<lparr>max_loaned_samples := 16\<rparr>) (ty_size sensor_type)"
  by (simp add: ps_params_ok_def pubsub_qos_default_def sensor_type_def layout_fits_def SENTINEL_def)

lemma plain_pubsub:
  assumes "ps_params_ok (pubsub_qos_default\<lparr>max_loaned_samples := 16\<rparr>) (ty_size T)"
  obtains node fs1 h v1 p v2 where "example_node plain_machine name fs_empty sig_start = Some (node, fs1)"
    "pb_open_or_create ron_plain io_quiet T (pb_max_loaned_samples 16 (ss_publish_subscribe (nd_service node service)))
       (new_process fs1 mem) = (Ok h, v1)"
    "publisher_create nix_ok T (pss_publisher h) v1 = Some (Ok p, v2)"
proof -
  obtain node fs1 where n: "example_node plain_machine name fs_empty sig_start = Some (node, fs1)"
      "\<forall>root c. is_Ok (fst (lc_open_or_create ron_plain (lc_new root) io_quiet c fs1))"
      "nd_config node = config_default\<lparr>shm_root := unique_shm_root name 0\<rparr>"
    using plain_node by blast
  let ?b = "pb_max_loaned_samples 16 (ss_publish_subscribe (nd_service node service))"
  have "is_Ok (fst (pb_open_or_create ron_plain io_quiet T ?b (new_process fs1 mem)))"
    using n(2) by (simp only: builder_result) (simp add: new_process_def)
  then obtain h v1 where h: "pb_open_or_create ron_plain io_quiet T ?b (new_process fs1 mem) = (Ok h, v1)"
    by (metis is_Ok_iff prod.collapse)
  have "pss_shared h < length (sv_pubsub v1)" "pss_qos h = pubsub_qos_default\<lparr>max_loaned_samples := 16\<rparr>"
    using pb_open_or_create_OkD [OF h] n(3)
    by (auto simp: pb_handle_def Let_def pb_max_loaned_samples_def ss_publish_subscribe_def nd_service_def pb_new_def config_default_def)
  then obtain p v2 where "publisher_create nix_ok T (pss_publisher h) v1 = Some (Ok p, v2)"
    using plain_publisher [of "pss_publisher h" v1 T] assms by (auto simp: pss_publisher_def)
  then show ?thesis using that n(1) h by blast
qed

lemma plain_machine_simps [simp]:
  "xm_ron plain_machine = ron_plain" "xm_env plain_machine = io_quiet" "xm_nix plain_machine = nix_ok"
  by (simp_all add: plain_machine_def)

text \<open>The publish-subscribe example does what it says. When the node, the service and the publisher
  can be created, the rest of the program does not panic: it sends ten readings, receives the ten
  readings in the order of sending with the bytes they were sent with, finds nothing more, and ends
  with no active loan.\<close>

theorem pubsub_example_runs:
  assumes "example_node x ''pubsub'' fs sg = Some (node, fs1)"
    and "pb_open_or_create (xm_ron x) (xm_env x) sensor_type
      (pb_max_loaned_samples 16 (ss_publish_subscribe (nd_service node ''sensor/temperature''))) (new_process fs1 mem) = (Ok h, sw1)"
    and "publisher_create (xm_nix x) sensor_type (pss_publisher h) sw1 = Some (Ok p, sw2)"
  shows "pubsub_example x reading fs sg mem =
    Some (map (\<lambda>i. Sent (sensor_bytes (i * 100) (reading i))) (map of_nat [0..<10]) @
      map (\<lambda>i. Received (sensor_bytes (i * 100) (reading i))) (map of_nat [0..<10]) @ [ActiveLoans 0])"
proof -
  let ?b = "pb_max_loaned_samples 16 (ss_publish_subscribe (nd_service node ''sensor/temperature''))"
  let ?is = "map of_nat [0..<10] :: u64 list" and ?bytes = "\<lambda>i. sensor_bytes (i * 100) (reading i)"
  have qos: "pb_qos ?b = pubsub_qos_default\<lparr>max_loaned_samples := 16\<rparr>"
    by (simp add: pb_max_loaned_samples_def ss_publish_subscribe_def nd_service_def pb_new_def
        example_node_config [OF assms(1)] config_default_def)
  obtain u sw3 where u: "subscriber_create (pss_subscriber h) sw2 = Some (Ok u, sw3)"
    using first_subscriber [OF assms(2,3)] by blast
  let ?w = "world.truncate (sv_ports sw3)"
  have ok: "ps_params_ok (pb_qos ?b) (ty_size sensor_type)" unfolding qos by (rule sensor_params)
  note b = boot_in_flight [OF handle_boot(1) [OF assms(2,3) u] ok]
  have p: "pub_payload p = 16" "unat (pub_max_loaned p) = 16" "in_flight p 64 ?w [] 0"
    using b(1,3,4) unfolding qos by (simp_all add: sensor_type_def pubsub_qos_default_def)
  obtain w1 where w1: "publish_readings reading p ?is ?w = Some (map (\<lambda>i. Sent (?bytes i)) ?is, w1)"
      "in_flight p 64 w1 (map ?bytes ?is) 0"
    using publish_readings_runs [OF p(3) b(2) p(1), of ?is] p(2) by auto
  obtain w2 where w2: "receive_readings 10 u w1 = Some (map Received (map ?bytes ?is), w2)" "in_flight p 64 w2 [] 10"
    using receive_readings_runs [OF w1(2) b(2) p(1)] by auto
  note none = receive_none_in_flight [OF w2(2) b(2)]
  obtain w3 k where w3: "pub_reclaim p w2 = Some w3" "pub_get_active_loans p w3 = Some k" "unat k = 0"
    using reclaim_in_flight [OF w2(2) b(2)] by (metis list.size(3))
  then have "k = 0" by (simp add: unat_eq_0)
  then show ?thesis
    using assms u w1(1) w2(1) none w3 by (simp add: pubsub_example_def comp_def del: upt_Suc)
qed

theorem pubsub_example_runs_witness:
  "let reading = (\<lambda>i. push_bit 52 1027 OR push_bit 47 (8 + i))
   in pubsub_example plain_machine reading fs_empty sig_start (\<lambda>_. 0) =
    Some (map (\<lambda>i. Sent (sensor_bytes (i * 100) (reading i))) (map of_nat [0..<10]) @
      map (\<lambda>i. Received (sensor_bytes (i * 100) (reading i))) (map of_nat [0..<10]) @ [ActiveLoans 0])"
proof -
  obtain node fs1 h v1 p v2 where n: "example_node plain_machine ''pubsub'' fs_empty sig_start = Some (node, fs1)"
      "pb_open_or_create ron_plain io_quiet sensor_type
        (pb_max_loaned_samples 16 (ss_publish_subscribe (nd_service node ''sensor/temperature''))) (new_process fs1 (\<lambda>_. 0)) = (Ok h, v1)"
      "publisher_create nix_ok sensor_type (pss_publisher h) v1 = Some (Ok p, v2)"
    using plain_pubsub [OF sensor_params] by metis
  show ?thesis using pubsub_example_runs [of plain_machine, unfolded plain_machine_simps, OF n] by simp
qed

subsection \<open>Events\<close>

text \<open>The listener waits in a thread of its own. \<open>early\<close> says whether it gets there before the notification;
  a thread that is blocked then goes on waiting after it. The program ends, or its main thread is stuck in
  \<open>notify\<close>, or \<open>notify\<close> has returned and the \<open>join\<close> does not, because the listener is still blocked; then
  \<open>StuckInJoin\<close> holds the state of the notification objects.\<close>

datatype event_end = EventReceived | StuckInNotify | StuckInJoin ev_world

definition event_example ::
  "example_machine \<Rightarrow> ev_os \<Rightarrow> bool \<Rightarrow> file_system \<Rightarrow> signal_state \<Rightarrow> memory \<Rightarrow> ev_world \<Rightarrow> event_end option" where
  "event_example x os early fs sg mem ew = do {
     (node, fs) \<leftarrow> example_node x ''event'' fs sg;
     let (r, _) = eb_open_or_create (xm_ron x) (xm_env x) (ss_event (nd_service node ''system/shutdown'')) (new_process fs mem);
     service \<leftarrow> unwrap r;
     let (r, ew) = notifier_create os (evs_notifier service) ew;
     notifier \<leftarrow> unwrap r;
     let (r, ew) = listener_create os (evs_listener service) ew;
     listener \<leftarrow> unwrap r;
     waited \<leftarrow> (if early then li_wait os listener ew else Some Blocks);
     let ew = (case waited of Returns (_, ew) \<Rightarrow> ew | Blocks \<Rightarrow> ew);
     notified \<leftarrow> no_notify os notifier ew;
     case notified of
       Blocks \<Rightarrow> Some StuckInNotify
     | Returns (r, ew) \<Rightarrow> do {
         _ \<leftarrow> unwrap r;
         waited \<leftarrow> (case waited of Returns _ \<Rightarrow> Some waited | Blocks \<Rightarrow> li_wait os listener ew);
         case waited of
           Blocks \<Rightarrow> Some (StuckInJoin ew)
         | Returns (r, _) \<Rightarrow> do { _ \<leftarrow> unwrap r; Some EventReceived }
       }
   }"

text \<open>Attached listeners are told apart by their ids. \<open>early\<close> says that the wait is over before the thread
  notifies; nobody waits for that thread, and if it panics or blocks the program goes on.\<close>

datatype waitset_line = TriggeredA | TriggeredB | NoEvents

definition waitset_report :: "attachment_id \<Rightarrow> attachment_id \<Rightarrow> attachment_id list \<Rightarrow> waitset_line list" where
  "waitset_report id_a id_b triggered =
     concat (map (\<lambda>i. if i = id_a then [TriggeredA] else if i = id_b then [TriggeredB] else []) triggered) @
     (if triggered = [] then [NoEvents] else [])"

definition waitset_example ::
  "example_machine \<Rightarrow> ev_os \<Rightarrow> poll_call \<Rightarrow> bool \<Rightarrow> file_system \<Rightarrow> signal_state \<Rightarrow> memory \<Rightarrow> ev_world \<Rightarrow>
     waitset_line list blocking option" where
  "waitset_example x os poll early fs sg mem ew = do {
     (node, fs) \<leftarrow> example_node x ''waitset'' fs sg;
     let (r, v) = eb_open_or_create (xm_ron x) (xm_env x) (ss_event (nd_service node ''event/sensor-a'')) (new_process fs mem);
     svc_a \<leftarrow> unwrap r;
     let (r, v) = eb_open_or_create (xm_ron x) (xm_env x) (ss_event (nd_service node ''event/sensor-b'')) v;
     svc_b \<leftarrow> unwrap r;
     let (r, ew) = notifier_create os (evs_notifier svc_a) ew;
     notifier_a \<leftarrow> unwrap r;
     let (r, ew) = notifier_create os (evs_notifier svc_b) ew;
     notifier_b \<leftarrow> unwrap r;
     let (r, ew) = listener_create os (evs_listener svc_a) ew;
     listener_a \<leftarrow> unwrap r;
     let (r, ew) = listener_create os (evs_listener svc_b) ew;
     listener_b \<leftarrow> unwrap r;
     let (id_a, waitset) = ws_attach_listener listener_a ws_new;
     let (id_b, waitset) = ws_attach_listener listener_b waitset;
     let ew = (if early then ew
               else case no_notify os notifier_b ew of Some (Returns (_, ew)) \<Rightarrow> ew | _ \<Rightarrow> ew);
     case ws_wait poll (Some 500) waitset ew of
       Blocks \<Rightarrow> Some Blocks
     | Returns triggered \<Rightarrow> do {
         notified \<leftarrow> no_notify os notifier_a ew;
         case notified of
           Blocks \<Rightarrow> Some Blocks
         | Returns (r, _) \<Rightarrow> do { _ \<leftarrow> unwrap r; Some (Returns (waitset_report id_a id_b triggered)) }
       }
   }"

subsection \<open>The event examples hear nothing\<close>

text \<open>Every port made here gets the next notification object; a notification stays at its own.\<close>

definition quiet_from :: "nat \<Rightarrow> ev_world \<Rightarrow> bool" where
  "quiet_from n w \<longleftrightarrow> (\<forall>ev. n \<le> ev \<and> ev < length (ew_objs w) \<longrightarrow> ev_ok w ev \<and> ev_pending w ev = 0)"

lemma quiet_create:
  assumes calm: "ev_calm os" and quiet: "quiet_from n w" "n \<le> length (ew_objs w)"
  obtains w1 where "no_create os s w = (Ok \<lparr>no_service_name = s, no_event = length (ew_objs w)\<rparr>, w1)"
    "li_create os s w = (Ok \<lparr>li_service_name = s, li_event = length (ew_objs w)\<rparr>, w1)"
    "quiet_from n w1" "length (ew_objs w1) = Suc (length (ew_objs w))"
proof -
  obtain r w1 where r: "ev_new os w = (r, w1)" by fastforce
  note f = ev_new_ok [OF calm r]
  have "quiet_from n w1" using quiet(1) f by (auto simp: quiet_from_def less_Suc_eq)
  then show ?thesis using that r f by (simp add: no_create_def li_create_def)
qed

lemma quiet_notify:
  assumes calm: "ev_calm os" and quiet: "quiet_from n w" and nt: "n \<le> no_event nt" "no_event nt < length (ew_objs w)"
  shows "no_notify os nt w = Some (Returns (Ok (), ev_put (no_event nt) 1 w))"
  using ev_notify_ok [OF calm, of w "no_event nt"] quiet nt calm
  by (simp add: quiet_from_def no_notify_def ipc_call_def ev_calm_def)

lemma quiet_wait:
  assumes "ev_calm os" and "quiet_from n w" and "n \<le> li_event li" "li_event li < length (ew_objs w)"
  shows "li_wait os li w = Some Blocks"
    and "ev \<noteq> li_event li \<Longrightarrow> li_wait os li (ev_put ev k w) = Some Blocks"
proof -
  have "ev < length (ew_objs w) \<or> ev_put ev k w = w" by (cases "ev < length (ew_objs w)") (simp_all add: ev_put_def list_update_beyond)
  moreover note ev_wait_ok [OF assms(1), of w "li_event li"] ev_wait_ok [OF assms(1), of "ev_put ev k w" "li_event li"]
  ultimately show "li_wait os li w = Some Blocks" "ev \<noteq> li_event li \<Longrightarrow> li_wait os li (ev_put ev k w) = Some Blocks"
    using assms(2-4) by (auto simp: quiet_from_def li_wait_def ipc_call_def)
qed

text \<open>C39: the event example never ends. When its node and its service can be created and the system calls
  for events succeed, \<open>notify\<close> returns without an error and the notification is pending at the object
  of the notifier; but the listener waits on the next object, where nothing is pending: whether it starts to
  wait before or after the notification it stays blocked, and so does the main thread, which joins it.\<close>

theorem event_example_hangs:
  assumes "ev_calm os" and "example_node x ''event'' fs sg = Some (node, fs1)"
    and "eb_open_or_create (xm_ron x) (xm_env x) (ss_event (nd_service node ''system/shutdown'')) (new_process fs1 mem) = (Ok h, v)"
  shows "\<exists>ew'. event_example x os early fs sg mem ew = Some (StuckInJoin ew') \<and>
    length (ew_objs ew') = length (ew_objs ew) + 2 \<and>
    ev_pending ew' (length (ew_objs ew)) = 1 \<and> ev_pending ew' (length (ew_objs ew) + 1) = 0"
proof -
  let ?n = "length (ew_objs ew)"
  have "quiet_from ?n ew" by (auto simp: quiet_from_def)
  then obtain w1 where w1: "no_create os (evs_service_name h) ew = (Ok \<lparr>no_service_name = evs_service_name h, no_event = ?n\<rparr>, w1)"
      (is "_ = (Ok ?nt, _)") "quiet_from ?n w1" "length (ew_objs w1) = Suc ?n"
    using quiet_create [OF assms(1)] by (metis order_refl)
  then obtain w2 where w2: "li_create os (evs_service_name h) w1 = (Ok \<lparr>li_service_name = evs_service_name h, li_event = Suc ?n\<rparr>, w2)"
      (is "_ = (Ok ?li, _)") "quiet_from ?n w2" "length (ew_objs w2) = Suc (Suc ?n)"
    using quiet_create [OF assms(1) w1(2)] by (metis le_SucI order_refl)
  have "no_notify os ?nt w2 = Some (Returns (Ok (), ev_put ?n 1 w2))"
    using quiet_notify [OF assms(1) w2(2), of ?nt] w2(3) by simp
  moreover have "li_wait os ?li w2 = Some Blocks" "li_wait os ?li (ev_put ?n 1 w2) = Some Blocks"
    using quiet_wait [OF assms(1) w2(2), of ?li] w2(3) by simp_all
  moreover have "ev_pending (ev_put ?n 1 w2) ?n = 1" "ev_pending (ev_put ?n 1 w2) (Suc ?n) = 0"
      "length (ew_objs (ev_put ?n 1 w2)) = Suc (Suc ?n)"
    using w2(2,3) by (simp_all add: quiet_from_def ev_put_def ev_pending_def)
  ultimately show ?thesis
    using assms(2,3) w1(1) w2(1)
    by (simp add: event_example_def notifier_create_def listener_create_def evs_notifier_def evs_listener_def)
qed

theorem event_example_hangs_witness:
  "\<forall>early. \<exists>ew'. event_example plain_machine ev_linux early fs_empty sig_start (\<lambda>_. 0) ev_fresh = Some (StuckInJoin ew') \<and>
     ev_pending ew' (length (ew_objs ev_fresh)) = 1"
proof -
  obtain node fs1 where n: "example_node plain_machine ''event'' fs_empty sig_start = Some (node, fs1)"
      "\<forall>root c. is_Ok (fst (lc_open_or_create ron_plain (lc_new root) io_quiet c fs1))"
    using plain_node by metis
  let ?b = "ss_event (nd_service node ''system/shutdown'')"
  have "is_Ok (fst (eb_open_or_create ron_plain io_quiet ?b (new_process fs1 (\<lambda>_. 0))))"
    using n(2) by (simp only: builder_result) (simp add: new_process_def)
  then obtain h v where "eb_open_or_create ron_plain io_quiet ?b (new_process fs1 (\<lambda>_. 0)) = (Ok h, v)"
    by (metis is_Ok_iff prod.collapse)
  then show ?thesis
    using event_example_hangs [OF ev_linux_calm(1) n(1)] by (simp add: plain_machine_def) blast
qed

text \<open>For the same reason the wait set example reports that no event came: \<open>poll\<close> finds no condition on a
  notification object with nothing pending.\<close>

theorem waitset_example_times_out:
  assumes "ev_calm os" and "example_node x ''waitset'' fs sg = Some (node, fs1)" and "poll_documented conds poll"
    and "\<And>w ev. ev < length (ew_objs w) \<Longrightarrow> ev_pending w ev = 0 \<Longrightarrow> conds w (int ev) = 0"
    and "eb_open_or_create (xm_ron x) (xm_env x) (ss_event (nd_service node ''event/sensor-a'')) (new_process fs1 mem) = (Ok a, v)"
    and "eb_open_or_create (xm_ron x) (xm_env x) (ss_event (nd_service node ''event/sensor-b'')) v = (Ok b, v')"
  shows "waitset_example x os poll early fs sg mem ew = Some (Returns [NoEvents])"
proof -
  let ?n = "length (ew_objs ew)"
  have "quiet_from ?n ew" by (auto simp: quiet_from_def)
  then obtain w1 where w1: "no_create os (evs_service_name a) ew = (Ok \<lparr>no_service_name = evs_service_name a, no_event = ?n\<rparr>, w1)"
      (is "_ = (Ok ?na, _)") "quiet_from ?n w1" "length (ew_objs w1) = Suc ?n"
    using quiet_create [OF assms(1)] by (metis order_refl)
  then obtain w2 where w2: "no_create os (evs_service_name b) w1 = (Ok \<lparr>no_service_name = evs_service_name b, no_event = Suc ?n\<rparr>, w2)"
      (is "_ = (Ok ?nb, _)") "quiet_from ?n w2" "length (ew_objs w2) = Suc (Suc ?n)"
    using quiet_create [OF assms(1) w1(2)] by (metis le_SucI order_refl)
  then obtain w3 where w3: "li_create os (evs_service_name a) w2 = (Ok \<lparr>li_service_name = evs_service_name a, li_event = Suc (Suc ?n)\<rparr>, w3)"
      (is "_ = (Ok ?la, _)") "quiet_from ?n w3" "length (ew_objs w3) = Suc (Suc (Suc ?n))"
    using quiet_create [OF assms(1) w2(2)] by (metis le_SucI order_refl)
  then obtain w4 where w4: "li_create os (evs_service_name b) w3 = (Ok \<lparr>li_service_name = evs_service_name b, li_event = Suc (Suc (Suc ?n))\<rparr>, w4)"
      (is "_ = (Ok ?lb, _)") "quiet_from ?n w4" "length (ew_objs w4) = Suc (Suc (Suc (Suc ?n)))"
    using quiet_create [OF assms(1) w3(2)] by (metis le_SucI order_refl)
  have nb: "no_notify os ?nb w4 = Some (Returns (Ok (), ev_put (Suc ?n) 1 w4))"
    using quiet_notify [OF assms(1) w4(2), of ?nb] w4(3) by simp
  let ?ws = "[\<lparr>we_fd = int (Suc (Suc ?n)), we_id = 0\<rparr>, \<lparr>we_fd = int (Suc (Suc (Suc ?n))), we_id = 1\<rparr>]"
  let ?w = "if early then w4 else ev_put (Suc ?n) 1 w4"
  have "conds ?w (int (Suc (Suc ?n))) = 0" "conds ?w (int (Suc (Suc (Suc ?n)))) = 0"
    by (rule assms(4); use w4(2,3) in \<open>simp add: quiet_from_def ev_put_def ev_pending_def\<close>)+
  then have wait: "ws_wait poll (Some 500) ?ws ?w = Returns []"
    by (intro ws_wait_times_out [OF assms(3)]) (simp_all add: bit_iff_odd)
  have "no_notify os ?na ?w = Some (Returns (Ok (), ev_put ?n 1 ?w))"
    using w4(2,3) ev_notify_ok [OF assms(1), of ?w ?n] assms(1)
    by (auto simp: no_notify_def ipc_call_def quiet_from_def ev_calm_def)
  then show ?thesis
    using assms(2,5,6) w1(1) w2(1) w3(1) w4(1) nb wait
    by (cases early) (simp_all add: waitset_example_def notifier_create_def listener_create_def evs_notifier_def evs_listener_def
        ws_attach_listener_def ws_attach_fd_def li_raw_fd_def ws_new_def waitset_report_def)
qed

end
