(* ===== verification/Example_Calls.thy ===== *)
theory Example_Calls
  imports Examples Req_Res_Safety
begin

text \<open>
  The example programs \<open>reqres.rs\<close> and \<open>blackboard.rs\<close> of \<open>crates/entangle/examples\<close>, modelled as in
  \<open>Examples\<close>. A loop that may spin gets one turn, and a program that would go on spinning is counted
  as one that does not get through.
\<close>

subsection \<open>Request-response\<close>

definition u64_of_le :: "u8 list \<Rightarrow> u64" where
  "u64_of_le bs = foldr (\<lambda>b n. ucast b OR push_bit 8 n) bs 0"

lemma bit_u64_of_le: "k < 64 \<Longrightarrow> bit (u64_of_le bs) k \<longleftrightarrow> k div 8 < length bs \<and> bit (bs ! (k div 8)) (k mod 8)"
proof (induction bs arbitrary: k)
  case (Cons b bs)
  have "u64_of_le (b # bs) = ucast b OR push_bit 8 (u64_of_le bs)" by (simp add: u64_of_le_def)
  moreover have "8 \<le> k \<Longrightarrow> k div 8 = Suc ((k - 8) div 8) \<and> k mod 8 = (k - 8) mod 8" by (simp add: le_div_geq le_mod_geq)
  moreover have "8 \<le> k \<Longrightarrow> \<not> bit b k" by (simp add: bit_word.rep_eq)
  ultimately show ?case using Cons.IH [of "k - 8"] Cons.prems by (cases "k < 8") (auto simp: bit_simps)
qed (simp add: u64_of_le_def)

lemma u64_of_le_u64_le [simp]: "u64_of_le (u64_le n) = n"
  by (rule bit_word_eqI) (simp add: bit_u64_of_le u64_le_def bit_simps div_less_iff_less_mult)

definition add_request :: rust_type where
  "add_request = \<lparr>ty_name = ''reqres::AddRequest'', ty_size = 16, ty_align = 8\<rparr>"

definition add_response :: rust_type where
  "add_response = \<lparr>ty_name = ''reqres::AddResponse'', ty_size = 8, ty_align = 8\<rparr>"

definition add_request_bytes :: "u64 \<Rightarrow> u64 \<Rightarrow> u8 list" where
  "add_request_bytes a b = u64_le a @ u64_le b"

definition add_sum :: "u8 list \<Rightarrow> u64" where
  "add_sum request = u64_of_le (take 8 request) + u64_of_le (drop 8 request)"

datatype reqres_line = Sending u64 u64 | Result u64

fun ask_sums :: "client \<Rightarrow> server \<Rightarrow> u64 list \<Rightarrow> rr_world \<Rightarrow> (reqres_line list \<times> rr_world) option" where
  "ask_sums client server [] w = Some ([], w)"
| "ask_sums client server (i # ns) w = do {
     (r, w) \<leftarrow> cli_send client (add_request_bytes i (i * 10)) w;
     pending \<leftarrow> unwrap r;
     (r, w) \<leftarrow> srv_receive server w;
     received \<leftarrow> unwrap r;
     active \<leftarrow> received;
     (r, w) \<leftarrow> ar_respond active (u64_le (add_sum (ar_request active))) w;
     _ \<leftarrow> unwrap r;
     answer \<leftarrow> pre_receive 1 pending w;
     case answer of
       Spinning \<Rightarrow> None
     | Done (r, w) \<Rightarrow> do {
         resp \<leftarrow> unwrap r;
         (ls, w) \<leftarrow> ask_sums client server ns w;
         Some (Sending i (i * 10) # Result (u64_of_le resp) # ls, w)
       }
   }"

definition reqres_example ::
  "example_machine \<Rightarrow> file_system \<Rightarrow> signal_state \<Rightarrow> memory \<Rightarrow> reqres_line list option" where
  "reqres_example x fs sg mem = do {
     (node, fs) \<leftarrow> example_node x ''reqres'' fs sg;
     let (r, v) = rb_open_or_create (xm_ron x) (xm_env x) add_request add_response
           (ss_request_response (nd_service node ''calc/add'')) (new_process fs mem);
     service \<leftarrow> unwrap r;
     (r, v) \<leftarrow> server_create (xm_nix x) add_request add_response (rrs_server service) v;
     server \<leftarrow> unwrap r;
     (r, v) \<leftarrow> client_create add_response (rrs_client service) v;
     client \<leftarrow> unwrap r;
     (ls, _) \<leftarrow> ask_sums client server (map of_nat [0..<5]) (rr_world.truncate (sv_ports v));
     Some ls
   }"

text \<open>One client whose two channels are empty: a letter posted to a channel is the letter collected from
  it, and the channels are empty again.\<close>

definition rr_rest :: "nat \<Rightarrow> nat \<Rightarrow> rr_world \<Rightarrow> bool" where
  "rr_rest req res w \<longleftrightarrow> (\<exists>d f wire. w_segs w = [d] \<and> length (w_chans w) = 2 \<and> w_clients w = [[wire]] \<and>
     cw_request_channel wire = 0 \<and> cw_response_channel wire = 1 \<and>
     mail_inv (letter req res) d (w_mem w) (w_chans w) f f \<and> ds_free d \<noteq> {} \<and> (\<forall>k < 2. 0 < ch_bound (w_chans w ! k)))"

lemma rr_rest_exchange:
  assumes rest: "rr_rest req res w" and k: "k < 2" and len: "length v = letter req res k"
  shows "\<exists>w1 w2. post 0 k v w = Some (Ok (), w1) \<and> collect 0 k (length v) w1 = Some (Ok v, w2) \<and>
    rr_rest req res w2 \<and> w_clients w1 = w_clients w"
proof -
  obtain d f wire where d: "w_segs w = [d]" "length (w_chans w) = 2" "w_clients w = [[wire]]"
      "cw_request_channel wire = 0" "cw_response_channel wire = 1"
      and mail: "mail_inv (letter req res) d (w_mem w) (w_chans w) f f"
      and room: "ds_free d \<noteq> {}" "\<forall>k < 2. 0 < ch_bound (w_chans w ! k)"
    using rest unfolding rr_rest_def by blast
  have k2: "k < length (w_chans w)" using k d(2) by simp
  have flight: "ch_inflight (w_chans w ! k) = []" using mail k2 by (simp add: mail_inv_def)
  obtain w1 d1 where w1: "post 0 k v w = Some (Ok (), w1)" "w_segs w1 = [d1]" "w_clients w1 = w_clients w"
      "length (w_chans w1) = 2" "mail_inv (letter req res) d1 (w_mem w1) (w_chans w1) (log k v f) f"
      "\<And>j. ch_bound (w_chans w1 ! j) = ch_bound (w_chans w ! j)"
    using mail d(1) k2 len
  proof (cases rule: post_result)
    case (posted r w' d' a)
    then show ?thesis using that room(2) k d(2) flight by (cases r) (auto split: if_splits)
  qed (use room(1) in simp)
  have "k < length (w_chans w1)" using w1(4) k by simp
  with w1(5,2) show ?thesis
  proof (cases rule: collect_result)
    case none
    then show ?thesis by (simp add: log_def)
  next
    case (some v' w2 d2)
    then have "v' = v" by (simp add: log_def nth_append)
    moreover have "rr_rest req res w2"
      unfolding rr_rest_def using some w1 d room(2) \<open>v' = v\<close> by (intro exI [of _ d2] exI [of _ "log k v f"] exI [of _ wire]) simp
    ultimately show ?thesis using w1(1,3) some(1) len by auto
  qed
qed

lemma ask_sums_runs:
  assumes "rr_rest 16 8 w" and "cli_segment c = 0" "cli_request_channel c = 0" "cli_response_channel c = 1" "cli_res c = 8"
    and "srv_segment s = 0" "srv_clients s = 0" "srv_req s = 16"
  shows "\<exists>w'. ask_sums c s ns w = Some (concat (map (\<lambda>i. [Sending i (i * 10), Result (i + i * 10)]) ns), w')"
  using assms(1)
proof (induction ns arbitrary: w)
  case (Cons i ns)
  let ?req = "add_request_bytes i (i * 10)" and ?res = "u64_le (i + i * 10)"
  have len: "length ?req = 16" "length ?res = 8" by (simp_all add: add_request_bytes_def)
  then obtain w1 w2 where w2: "post 0 0 ?req w = Some (Ok (), w1)" "collect 0 0 16 w1 = Some (Ok ?req, w2)"
      "rr_rest 16 8 w2" "w_clients w1 = w_clients w"
    using rr_rest_exchange [OF Cons.prems, of 0 ?req] by (auto simp: letter_def)
  obtain w3 w4 where w4: "post 0 1 ?res w2 = Some (Ok (), w3)" "collect 0 1 8 w3 = Some (Ok ?res, w4)" "rr_rest 16 8 w4"
    using rr_rest_exchange [OF w2(3), of 1 ?res] by (auto simp: letter_def)
  obtain wire where "w_clients w1 = [[wire]]" "cw_request_channel wire = 0" "cw_response_channel wire = 1"
    using Cons.prems w2(4) by (auto simp: rr_rest_def)
  moreover have "add_sum ?req = i + i * 10" by (simp add: add_sum_def add_request_bytes_def)
  ultimately show ?case
    using Cons.IH [OF w4(3)] w2(1,2) w4(1,2) assms(2-)
    by (auto simp: cli_send_def srv_receive_def ar_respond_def pre_try_receive_def numeral_eq_Suc)
qed simp

text \<open>The ports of the example start at rest.\<close>

lemma reqres_boot:
  assumes rb: "rb_open_or_create rn env Req Res b (new_process fs mem) = (Ok h, v1)"
    and srv: "server_create os Req Res (rrs_server h) v1 = Some (Ok s, v2)"
    and ok: "rr_params_ok (rb_qos b) (ty_size Req) (ty_size Res)" "max_pending_requests (rb_qos b) = 16"
  shows "\<exists>c v3. client_create Res (rrs_client h) v2 = Some (Ok c, v3) \<and>
    rr_rest (ty_size Req) (ty_size Res) (rr_world.truncate (sv_ports v3)) \<and>
    cli_segment c = 0 \<and> cli_request_channel c = 0 \<and> cli_response_channel c = 1 \<and> cli_res c = ty_size Res \<and>
    srv_segment s = 0 \<and> srv_clients s = 0 \<and> srv_req s = ty_size Req"
proof -
  let ?name = "rb_service_name b" and ?node = "rb_node_id b" and ?req = "ty_size Req" and ?res = "ty_size Res"
  have hf: "rrs_service_name h = ?name" "rrs_node_id h = ?node" "rrs_qos h = rb_qos b" "rrs_shared h = 0"
      "sv_reqres v1 = [rr_fresh ?name]" "sv_ports v1 = no_ports mem"
    using rb by (auto simp: rb_open_or_create_def Let_def new_process_def rr_fresh_def split: prod.splits result.splits)
  have empty: "rr_world.truncate (no_ports mem) = rr_empty mem"
    by (simp add: no_ports_def rr_empty_def rr_world.defs)
  obtain sh w where create: "srv_create os ?name ?node (rb_qos b) ?req ?res (rr_fresh ?name) (rr_empty mem) = Some (Ok s, sh, w)"
      "sv_reqres v2 = [sh]" "rr_world.truncate (sv_ports v2) = w"
    using srv hf empty
    by (auto simp: server_create_def rrs_server_def on_reqres_def Option.bind_eq_Some_conv rr_world.defs)
  obtain d where shape: "rr_shape s sh ?req" and inv: "rr_inv ?req ?res (rr_start w) d []" and d: "ds_out d = {}"
    using srv_create_inv [OF create(1) ok(1)] by blast
  have w: "w_segs w = [d]" "w_clients w = [[]]" "w_chans w = []" and wf: "ds_wf d"
    using inv by (auto simp: rr_inv_def rr_start_def rr_wired_def mail_inv_def)
  have free: "ds_free d \<noteq> {}" using ds_wf_first_chunk [OF wf] d by (auto simp: ds_out_def)
  obtain reg where reg: "rr_server sh = Some reg" "sr_segment reg = 0" "sr_clients reg = 0"
    using shape by (auto simp: rr_shape_def)
  have "16 \<le> unat (spsc_capacity (spsc_new (16 :: usize)))"
    using spsc_new_capacity [of "16 :: usize"] by (simp add: word_le_nat_alt)
  then obtain c w' where c: "cli_create ?name ?node (rb_qos b) ?res sh w = Some (Ok c, w')"
      "cli_segment c = 0" "cli_request_channel c = 0" "cli_response_channel c = 1" "cli_res c = ?res"
      "w_segs w' = [d]" "length (w_chans w') = 2" "\<forall>k < 2. 0 < ch_bound (w_chans w' ! k)"
      "w_clients w' = [[\<lparr>cw_client_id = ?node, cw_request_channel = 0, cw_response_channel = 1\<rparr>]]"
    using w reg ok(2) by (simp add: cli_create_def Let_def less_2_cases_iff all_conj_distrib)
  have "rr_inv ?req ?res ((rr_start w)\<lparr>rw := w', rr_clients := [c]\<rparr>) d wires \<Longrightarrow> rr_rest ?req ?res w'" for wires
    using c free by (auto simp: rr_rest_def rr_inv_def rr_start_def)
  moreover have "\<exists>wires. rr_inv ?req ?res ((rr_start w)\<lparr>rw := w', rr_clients := [c]\<rparr>) d wires"
    using rr_inv_connect [OF inv reg, of ?name ?node "rb_qos b" c w'] c(1) by (simp add: rr_start_def)
  ultimately have rest: "rr_rest ?req ?res w'" by blast
  moreover have "\<exists>v3. client_create Res (rrs_client h) v2 = Some (Ok c, v3) \<and> rr_world.truncate (sv_ports v3) = w'"
    using hf create(2,3) c(1) by (auto simp: client_create_def rrs_client_def on_reqres_def rr_world.defs)
  ultimately show ?thesis using c shape by (auto simp: rr_shape_def)
qed

text \<open>The example computes its five sums: every request reaches the server as it was sent and every answer
  comes back to the client, without a panic and without waiting.\<close>

theorem reqres_example_runs:
  assumes "example_node x ''reqres'' fs sg = Some (node, fs1)"
    and "rb_open_or_create (xm_ron x) (xm_env x) add_request add_response
      (ss_request_response (nd_service node ''calc/add'')) (new_process fs1 mem) = (Ok h, v1)"
    and "server_create (xm_nix x) add_request add_response (rrs_server h) v1 = Some (Ok s, v2)"
  shows "reqres_example x fs sg mem =
    Some [Sending 0 0, Result 0, Sending 1 10, Result 11, Sending 2 20, Result 22, Sending 3 30, Result 33, Sending 4 40, Result 44]"
proof -
  let ?b = "ss_request_response (nd_service node ''calc/add'')"
  have "rb_qos ?b = rr_qos" by (simp add: ss_request_response_def rb_new_def rr_qos_def)
  moreover have "rr_params_ok rr_qos (ty_size add_request) (ty_size add_response)"
    by (simp add: rr_params_ok_def rr_qos_def layout_fits_def SENTINEL_def add_request_def add_response_def)
  ultimately obtain c v3 where c: "client_create add_response (rrs_client h) v2 = Some (Ok c, v3)"
      "rr_rest (ty_size add_request) (ty_size add_response) (rr_world.truncate (sv_ports v3))"
      "cli_segment c = 0" "cli_request_channel c = 0" "cli_response_channel c = 1" "cli_res c = ty_size add_response"
      "srv_segment s = 0" "srv_clients s = 0" "srv_req s = ty_size add_request"
    using reqres_boot [OF assms(2,3)] by (auto simp: rr_qos_def)
  then obtain w' where "ask_sums c s (map of_nat [0..<5]) (rr_world.truncate (sv_ports v3)) =
      Some (concat (map (\<lambda>i. [Sending i (i * 10), Result (i + i * 10)]) (map of_nat [0..<5])), w')"
    using ask_sums_runs [of "rr_world.truncate (sv_ports v3)" c s "map of_nat [0..<5]"] by (auto simp: add_request_def add_response_def)
  then show ?thesis using assms c(1) by (simp add: reqres_example_def upt_conv_Cons del: ask_sums.simps)
qed

theorem reqres_example_on_plain_machine:
  "\<exists>ls. reqres_example plain_machine fs_empty sig_start (\<lambda>_. 0) = Some ls \<and> last ls = Result 44"
proof -
  obtain node fs1 where n: "example_node plain_machine ''reqres'' fs_empty sig_start = Some (node, fs1)"
      "\<forall>root c. is_Ok (fst (lc_open_or_create ron_plain (lc_new root) io_quiet c fs1))"
    using plain_node by metis
  let ?b = "ss_request_response (nd_service node ''calc/add'')"
  have "is_Ok (fst (rb_open_or_create ron_plain io_quiet add_request add_response ?b (new_process fs1 (\<lambda>_. 0))))"
    using n(2) by (simp only: builder_result) (simp add: new_process_def)
  then obtain h v where h: "rb_open_or_create ron_plain io_quiet add_request add_response ?b (new_process fs1 (\<lambda>_. 0)) = (Ok h, v)"
    by (metis is_Ok_iff prod.collapse)
  then have hn: "rrs_shared h < length (sv_reqres v)" "rr_server (sv_reqres v ! rrs_shared h) = None" "rrs_qos h = rr_qos"
    by (auto simp: rb_open_or_create_def Let_def ss_request_response_def rb_new_def rr_qos_def split: prod.splits result.splits)
  have "layout_fits 16 32" by (simp add: layout_fits_def SENTINEL_def)
  then obtain d mem where "ds_create nix_ok (srv_segment_name (rrs_service_name h) (rrs_node_id h)) 16 32 0 (w_mem (sv_ports v)) = Some (Ok d, mem)"
    using plain_segment by metis
  then obtain s v2 where "server_create nix_ok add_request add_response (rrs_server h) v = Some (Ok s, v2)"
    using hn by (simp add: server_create_def rrs_server_def on_reqres_def srv_create_def Let_def rr_world.defs rr_qos_def
        add_request_def add_response_def)
  then show ?thesis
    using reqres_example_runs [of plain_machine fs_empty sig_start node fs1 "\<lambda>_. 0" h v s v2] n(1) h by (simp add: plain_machine_def)
qed

subsection \<open>Blackboard\<close>

text \<open>\<open>f64 n\<close> is the bit pattern of the number \<open>n\<close>; the coordinates are small whole numbers, for which the
  products in the source are exact and equality is equality of bits.\<close>

definition position_type :: rust_type where
  "position_type = \<lparr>ty_name = ''blackboard::Position'', ty_size = 24, ty_align = 8\<rparr>"

definition position_bytes :: "(nat \<Rightarrow> u64) \<Rightarrow> nat \<Rightarrow> u8 list" where
  "position_bytes f64 i = u64_le (f64 i) @ u64_le (f64 (i * 2)) @ u64_le (f64 (i * 3))"

datatype blackboard_line = NoDataYet | Wrote "u8 list" | Latest "u8 list"

fun write_positions ::
  "(nat \<Rightarrow> u64) \<Rightarrow> bb_writer \<Rightarrow> nat list \<Rightarrow> bb_world \<Rightarrow> (blackboard_line list \<times> bb_world) option" where
  "write_positions f64 wr [] w = Some ([], w)"
| "write_positions f64 wr (i # ns) w = do {
     (r, w) \<leftarrow> wr_write wr (position_bytes f64 i) w;
     _ \<leftarrow> unwrap r;
     (ls, w) \<leftarrow> write_positions f64 wr ns w;
     Some (Wrote (position_bytes f64 i) # ls, w)
   }"

definition read_position :: "bb_reader \<Rightarrow> bb_world \<Rightarrow> u8 list option option" where
  "read_position rd w = do {
     answer \<leftarrow> rd_read 1 (ty_size position_type) rd w;
     case answer of Spinning \<Rightarrow> None | Done r \<Rightarrow> unwrap r
   }"

definition blackboard_example ::
  "example_machine \<Rightarrow> (nat \<Rightarrow> u64) \<Rightarrow> file_system \<Rightarrow> signal_state \<Rightarrow> memory \<Rightarrow> blackboard_line list option" where
  "blackboard_example x f64 fs sg mem = do {
     (node, fs) \<leftarrow> example_node x ''blackboard'' fs sg;
     let (r, v) = bbb_open_or_create (xm_ron x) (xm_env x) position_type
           (ss_blackboard (nd_service node ''state/position'')) (new_process fs mem);
     service \<leftarrow> unwrap r;
     (r, v) \<leftarrow> writer_create (xm_nix x) position_type (bbh_writer service) v;
     writer \<leftarrow> unwrap r;
     r \<leftarrow> reader_create (bbh_reader service) v;
     reader \<leftarrow> unwrap r;
     let w = sv_ports v;
     first \<leftarrow> read_position reader w;
     if first \<noteq> None then None
     else do {
       (ls, w) \<leftarrow> write_positions f64 writer [0..<5] w;
       latest \<leftarrow> read_position reader w;
       latest \<leftarrow> latest;
       if take 8 latest \<noteq> u64_le (f64 4) then None
       else Some (NoDataYet # ls @ [Latest latest])
     }
   }"

lemma write_positions_runs:
  assumes "wr_wired 24 wr w"
  shows "\<exists>w'. wr_writes wr (map (position_bytes f64) ns) w = Some w' \<and>
    write_positions f64 wr ns w = Some (map (\<lambda>i. Wrote (position_bytes f64 i)) ns, w')"
  using assms
proof (induction ns arbitrary: w)
  case (Cons i ns)
  have "length (position_bytes f64 i) = 24" by (simp add: position_bytes_def)
  from wr_write_wired [OF Cons.prems this] Cons.IH show ?case by fastforce
qed simp

text \<open>The example sees no value first, and after five writes the last one; its assertions hold.\<close>

theorem blackboard_example_runs:
  assumes "example_node x ''blackboard'' fs sg = Some (node, fs1)"
    and "bbb_open_or_create (xm_ron x) (xm_env x) position_type
      (ss_blackboard (nd_service node ''state/position'')) (new_process fs1 mem) = (Ok h, v1)"
    and "writer_create (xm_nix x) position_type (bbh_writer h) v1 = Some (Ok wr, v2)"
  shows "blackboard_example x f64 fs sg mem =
    Some (NoDataYet # map (\<lambda>i. Wrote (position_bytes f64 i)) [0..<5] @ [Latest (position_bytes f64 4)])"
proof -
  obtain sh w1 where wr: "wr_create (xm_nix x) (bbh_service_name h) (bbh_node_id h) 24 sh (sv_ports v1) = Some (Ok wr, w1, sv_ports v2)"
      and shared: "bbh_shared h < length (sv_blackboard v2)" "sv_blackboard v2 ! bbh_shared h = w1"
    using assms(3) by (auto simp: writer_create_def bbh_writer_def position_type_def idx_eq_Some_iff Option.bind_eq_Some_conv)
  have "layout_fits (max (of_nat 24) 8) 1" by (simp add: layout_fits_def SENTINEL_def)
  from wr_create_wired [OF this _ wr, of "bbh_service_name h" "bbh_node_id h"]
  obtain rd where wired: "wr_wired 24 wr (sv_ports v2)" "wr_seq wr (sv_ports v2) = 0" "rd_of wr rd"
      and rd: "rd_create (bbh_service_name h) (bbh_node_id h) w1 = Ok rd" by auto
  then have reader: "reader_create (bbh_reader h) v2 = Some (Ok rd)"
    using shared by (simp add: reader_create_def bbh_reader_def)
  have first: "read_position rd (sv_ports v2) = Some None"
    using rd_read_after_writes [OF wired, of "[]" 0] by (simp add: read_position_def position_type_def)
  obtain w' where w': "wr_writes wr (map (position_bytes f64) [0..<5]) (sv_ports v2) = Some w'"
      "write_positions f64 wr [0..<5] (sv_ports v2) = Some (map (\<lambda>i. Wrote (position_bytes f64 i)) [0..<5], w')"
    using write_positions_runs [OF wired(1)] by blast
  have "\<forall>v \<in> set (map (position_bytes f64) [0..<5]). length v = 24" by (simp add: position_bytes_def)
  then have "read_position rd w' = Some (Some (position_bytes f64 4))"
    using rd_read_after_writes [OF wired, of "map (position_bytes f64) [0..<5]" 0] w'(1)
    by (simp add: read_position_def position_type_def last_map)
  moreover have "take 8 (position_bytes f64 4) = u64_le (f64 4)" by (simp add: position_bytes_def)
  ultimately show ?thesis using assms reader first w'(2) by (simp add: blackboard_example_def)
qed

end
