(* ===== verification/Example_Threads.thy ===== *)
theory Example_Threads
  imports Examples
begin

text \<open>
  The example program \<open>multi_process.rs\<close> of \<open>crates/entangle/examples\<close>: a producer and a consumer thread on
  one service. A schedule says which thread makes the next turn of its inner loop; the accesses inside
  a turn are interleaved in \<open>Port_Conc\<close>. What the consumer prints is a function of the payloads it
  reads, which are kept in order.
\<close>

definition message_type :: rust_type where
  "message_type = \<lparr>ty_name = ''multi_process::Message'', ty_size = 72, ty_align = 8\<rparr>"

text \<open>\<open>seq\<close>, and a payload of 64 bytes that starts with it.\<close>

definition message_bytes :: "u64 \<Rightarrow> u8 list" where
  "message_bytes i = u64_le i @ u64_le i @ replicate 56 0"

record mp_state =
  mp_world :: world
  mp_sent :: nat
  mp_seen :: "u8 list list"

definition producer_turn :: "nat \<Rightarrow> publisher \<Rightarrow> mp_state \<Rightarrow> mp_state option" where
  "producer_turn n p s =
     (if mp_sent s < n then do {
        (r, w) \<leftarrow> pub_loan p (mp_world s);
        case r of
          Ok sample \<Rightarrow> do {
            let w = smu_write sample (message_bytes (of_nat (mp_sent s))) w;
            (r, w) \<leftarrow> smu_send sample w;
            _ \<leftarrow> unwrap r;
            Some (s\<lparr>mp_world := w, mp_sent := Suc (mp_sent s)\<rparr>)
          }
        | Err _ \<Rightarrow> do { w \<leftarrow> pub_reclaim p w; Some (s\<lparr>mp_world := w\<rparr>) }
      } else Some s)"

definition consumer_turn :: "nat \<Rightarrow> subscriber \<Rightarrow> mp_state \<Rightarrow> mp_state option" where
  "consumer_turn n u s =
     (if length (mp_seen s) < n then do {
        (r, w) \<leftarrow> sub_receive u (mp_world s);
        case r of
          Ok (Some sample) \<Rightarrow> do {
            let bytes = sa_read sample (ty_size message_type) w;
            dropped \<leftarrow> sa_drop 1 sample w;
            case dropped of
              Spinning \<Rightarrow> None
            | Done w \<Rightarrow> Some (s\<lparr>mp_world := w, mp_seen := mp_seen s @ [bytes]\<rparr>)
          }
        | _ \<Rightarrow> Some (s\<lparr>mp_world := w\<rparr>)
      } else Some s)"

fun mp_run :: "nat \<Rightarrow> publisher \<Rightarrow> subscriber \<Rightarrow> bool list \<Rightarrow> mp_state \<Rightarrow> mp_state option" where
  "mp_run n p u [] s = Some s"
| "mp_run n p u (producer # sched) s = do {
     s \<leftarrow> (if producer then producer_turn n p s else consumer_turn n u s);
     mp_run n p u sched s
   }"

text \<open>\<open>Spinning\<close>: at the end of the schedule a thread is still in its loop, and the main thread joins it.\<close>

definition multi_process_example ::
  "example_machine \<Rightarrow> bool list \<Rightarrow> file_system \<Rightarrow> signal_state \<Rightarrow> memory \<Rightarrow> (u8 list list \<times> world) spin option" where
  "multi_process_example x sched fs sg mem = do {
     (node, fs) \<leftarrow> example_node x ''multi_process'' fs sg;
     let (r, v) = pb_open_or_create (xm_ron x) (xm_env x) message_type
           (pb_max_loaned_samples 16 (ss_publish_subscribe (nd_service node ''ipc/messages''))) (new_process fs mem);
     service \<leftarrow> unwrap r;
     let n = 50;
     (r, v) \<leftarrow> publisher_create (xm_nix x) message_type (pss_publisher service) v;
     publisher \<leftarrow> unwrap r;
     (r, v) \<leftarrow> subscriber_create (pss_subscriber service) v;
     subscriber \<leftarrow> unwrap r;
     s \<leftarrow> mp_run n publisher subscriber sched \<lparr>mp_world = world.truncate (sv_ports v), mp_sent = 0, mp_seen = []\<rparr>;
     if mp_sent s < n \<or> length (mp_seen s) < n then Some Spinning
     else do {
       w \<leftarrow> pub_reclaim publisher (mp_world s);
       Some (Done (mp_seen s, w))
     }
   }"

subsection \<open>Progress\<close>

text \<open>\<open>k\<close> is the work that is left: three turns for a message not sent, two for one in flight, one for a chunk
  to be reclaimed.\<close>

definition mp_at :: "publisher \<Rightarrow> nat \<Rightarrow> mp_state \<Rightarrow> nat \<Rightarrow> bool" where
  "mp_at p n s k \<longleftrightarrow> (\<exists>msgs due. in_flight p 64 (mp_world s) msgs due \<and>
     mp_seen s @ msgs = map (\<lambda>i. message_bytes (of_nat i)) [0..<mp_sent s] \<and> mp_sent s \<le> n \<and>
     length msgs + due \<le> 16 \<and> k = 3 * (n - mp_sent s) + 2 * length msgs + due)"

lemma mp_at_seen: "mp_at p n s k \<Longrightarrow> length (mp_seen s) \<le> mp_sent s \<and> mp_sent s \<le> n"
  by (auto simp: mp_at_def dest: arg_cong [where f = length])

lemma loan_exhausted:
  assumes state: "in_flight p n w msgs due" and shape: "ps_shape p u" and "unat (pub_max_loaned p) = length msgs + due"
  shows "\<exists>e. pub_loan p w = Some (Err e, w)"
proof -
  obtain mem d c k f where inv: "ps_inv p (ps_idle w f) mem d c k"
      and msgs: "map f (ch_inflight c) = msgs" "length (ch_returned c) = due"
    using state by (auto simp: in_flight_def)
  have "unat k = length msgs + due" using in_flight_count [OF inv] msgs by (simp flip: msgs(1))
  then have k: "\<not> k < pub_max_loaned p" using assms(3) by (simp add: word_less_nat_alt)
  show ?thesis using inv shape by (cases rule: ps_loan_result) (use k in \<open>auto simp: ps_idle_def\<close>)
qed

lemma producer_turn_runs:
  assumes at: "mp_at p n s k" and shape: "ps_shape p u" and p: "pub_payload p = 72" "unat (pub_max_loaned p) = 16"
  shows "\<exists>s' k'. producer_turn n p s = Some s' \<and> mp_at p n s' k' \<and> k' \<le> k \<and> mp_sent s \<le> mp_sent s' \<and>
    mp_seen s' = mp_seen s \<and> (k' = k \<longrightarrow> mp_sent s' = mp_sent s \<and> (mp_sent s = n \<or> length (mp_seen s) < mp_sent s))"
proof (cases "mp_sent s < n")
  case False
  then show ?thesis using at mp_at_seen [OF at] by (auto simp: producer_turn_def)
next
  case True
  obtain msgs due where fl: "in_flight p 64 (mp_world s) msgs due"
      and seen: "mp_seen s @ msgs = map (\<lambda>i. message_bytes (of_nat i)) [0..<mp_sent s]"
      and le: "length msgs + due \<le> 16" "k = 3 * (n - mp_sent s) + 2 * length msgs + due"
    using at by (auto simp: mp_at_def)
  let ?m = "message_bytes (of_nat (mp_sent s))"
  show ?thesis
  proof (cases "length msgs + due < 16")
    case room: True
    have "length ?m = pub_payload p" using p by (simp add: message_bytes_def)
    moreover have "length msgs + due < 64" "length msgs + due < unat (pub_max_loaned p)" using room p by simp_all
    ultimately obtain m w1 w2 where run: "pub_loan p (mp_world s) = Some (Ok m, w1)"
        "smu_send m (smu_write m ?m w1) = Some (Ok (), w2)" "in_flight p 64 w2 (msgs @ [?m]) due"
      using publish_in_flight [OF fl shape] by metis
    let ?s = "s\<lparr>mp_world := w2, mp_sent := Suc (mp_sent s)\<rparr>"
    have "mp_at p n ?s (k - 1)"
      unfolding mp_at_def using run(3) seen le room True
      by (intro exI [of _ "msgs @ [?m]"] exI [of _ due]) (simp flip: append_assoc)
    moreover have "producer_turn n p s = Some ?s" using True run(1,2) by (simp add: producer_turn_def)
    moreover have "k - 1 \<noteq> k" using le(2) True by simp
    ultimately show ?thesis by (intro exI [of _ ?s] exI [of _ "k - 1"]) simp
  next
    case full: False
    then have sum: "unat (pub_max_loaned p) = length msgs + due" using le p by simp
    obtain e where e: "pub_loan p (mp_world s) = Some (Err e, mp_world s)" using loan_exhausted [OF fl shape sum] by blast
    obtain w1 where w1: "pub_reclaim p (mp_world s) = Some w1" "in_flight p 64 w1 msgs 0"
      using reclaim_in_flight [OF fl shape] by metis
    let ?s = "s\<lparr>mp_world := w1\<rparr>"
    have "mp_at p n ?s (k - due)"
      unfolding mp_at_def using w1(2) seen le True by (intro exI [of _ msgs] exI [of _ 0]) simp
    moreover have "producer_turn n p s = Some ?s" using True e w1(1) by (simp add: producer_turn_def)
    moreover have "length (mp_seen s) < mp_sent s" if "k - due = k"
    proof -
      have "length msgs = 16" using that le full by simp
      then show ?thesis using arg_cong [OF seen, of length] by simp
    qed
    ultimately show ?thesis by (intro exI [of _ ?s] exI [of _ "k - due"]) auto
  qed
qed

lemma consumer_turn_runs:
  assumes at: "mp_at p n s k" and shape: "ps_shape p u" and p: "pub_payload p = 72"
  shows "\<exists>s' k'. consumer_turn n u s = Some s' \<and> mp_at p n s' k' \<and> k' \<le> k \<and> mp_sent s' = mp_sent s \<and>
    length (mp_seen s) \<le> length (mp_seen s') \<and> (k' = k \<longrightarrow> mp_seen s' = mp_seen s \<and> length (mp_seen s) = mp_sent s)"
proof -
  obtain msgs due where fl: "in_flight p 64 (mp_world s) msgs due"
      and seen: "mp_seen s @ msgs = map (\<lambda>i. message_bytes (of_nat i)) [0..<mp_sent s]"
      and le: "mp_sent s \<le> n" "length msgs + due \<le> 16" "k = 3 * (n - mp_sent s) + 2 * length msgs + due"
    using at by (auto simp: mp_at_def)
  have len: "length (mp_seen s) + length msgs = mp_sent s" using arg_cong [OF seen, of length] by simp
  show ?thesis
  proof (cases msgs)
    case Nil
    then have "consumer_turn n u s = Some s"
      using receive_none_in_flight [OF _ shape] fl by (cases s) (simp add: consumer_turn_def)
    then show ?thesis using at len Nil by (intro exI [of _ s] exI [of _ k]) simp
  next
    case (Cons b msgs')
    obtain a w1 w2 where run: "sub_receive u (mp_world s) = Some (Ok (Some a), w1)" "sa_read a 72 w1 = b"
        "sa_drop 1 a w1 = Some (Done w2)" "in_flight p 64 w2 msgs' (Suc due)"
      using receive_in_flight [OF fl [unfolded Cons] shape] p by metis
    let ?s = "s\<lparr>mp_world := w2, mp_seen := mp_seen s @ [b]\<rparr>"
    have "mp_at p n ?s (k - 1)"
      unfolding mp_at_def using run(4) seen le Cons by (intro exI [of _ msgs'] exI [of _ "Suc due"]) simp
    moreover have "consumer_turn n u s = Some ?s"
      using run len Cons le(1) by (simp add: consumer_turn_def message_type_def)
    moreover have "k - 1 \<noteq> k" using le(3) Cons by simp
    ultimately show ?thesis by (intro exI [of _ ?s] exI [of _ "k - 1"]) simp
  qed
qed

lemma mp_run_runs:
  assumes "mp_at p n s k" and "ps_shape p u" and "pub_payload p = 72" "unat (pub_max_loaned p) = 16"
  shows "\<exists>s' k'. mp_run n p u sched s = Some s' \<and> mp_at p n s' k' \<and> k' \<le> k \<and> mp_sent s \<le> mp_sent s' \<and>
    length (mp_seen s) \<le> length (mp_seen s') \<and>
    (k' = k \<longrightarrow> mp_sent s' = mp_sent s \<and> mp_seen s' = mp_seen s \<and>
       (True \<in> set sched \<longrightarrow> mp_sent s = n \<or> length (mp_seen s) < mp_sent s) \<and>
       (False \<in> set sched \<longrightarrow> length (mp_seen s) = mp_sent s))"
  using assms(1)
proof (induction sched arbitrary: s k)
  case (Cons producer sched)
  obtain s1 k1 where s1: "(if producer then producer_turn n p s else consumer_turn n u s) = Some s1"
      "mp_at p n s1 k1" "k1 \<le> k" "mp_sent s \<le> mp_sent s1" "length (mp_seen s) \<le> length (mp_seen s1)"
      "k1 = k \<longrightarrow> mp_sent s1 = mp_sent s \<and> mp_seen s1 = mp_seen s \<and>
        (if producer then mp_sent s = n \<or> length (mp_seen s) < mp_sent s else length (mp_seen s) = mp_sent s)"
    using producer_turn_runs [OF Cons.prems assms(2-4)] consumer_turn_runs [OF Cons.prems assms(2,3)]
    by (cases producer) fastforce+
  obtain s2 k2 where s2: "mp_run n p u sched s1 = Some s2" "mp_at p n s2 k2" "k2 \<le> k1" "mp_sent s1 \<le> mp_sent s2"
      "length (mp_seen s1) \<le> length (mp_seen s2)"
      "k2 = k1 \<longrightarrow> mp_sent s2 = mp_sent s1 \<and> mp_seen s2 = mp_seen s1 \<and>
       (True \<in> set sched \<longrightarrow> mp_sent s1 = n \<or> length (mp_seen s1) < mp_sent s1) \<and>
       (False \<in> set sched \<longrightarrow> length (mp_seen s1) = mp_sent s1)"
    using Cons.IH [OF s1(2)] by blast
  have "k2 = k \<Longrightarrow> k1 = k \<and> k2 = k1" using s1(3) s2(3) by simp
  then show ?case using s1 s2 by (intro exI [of _ s2] exI [of _ k2]) (auto split: if_splits)
qed auto

definition mp_finished :: "nat \<Rightarrow> mp_state \<Rightarrow> bool" where
  "mp_finished n s \<longleftrightarrow> mp_sent s = n \<and> length (mp_seen s) = n"

lemma mp_run_append: "mp_run n p u (xs @ ys) s = mp_run n p u xs s \<bind> mp_run n p u ys"
  by (induction xs arbitrary: s) (auto split: bind_splits)

lemma mp_run_finished:
  assumes "mp_at p n s k" and "ps_shape p u" and "pub_payload p = 72" "unat (pub_max_loaned p) = 16" and "mp_finished n s"
  shows "\<exists>s'. mp_run n p u sched s = Some s' \<and> mp_finished n s'"
  using mp_run_runs [OF assms(1-4), of sched] assms(5) by (auto simp: mp_finished_def dest!: mp_at_seen)

text \<open>A stretch of the schedule in which both threads get a turn finishes the work or some of it.\<close>

lemma mp_run_blocks:
  assumes "mp_at p n s k" and "ps_shape p u" and "pub_payload p = 72" "unat (pub_max_loaned p) = 16"
    and "\<forall>b \<in> set blocks. True \<in> set b \<and> False \<in> set b"
  shows "\<exists>s' k'. mp_run n p u (concat blocks) s = Some s' \<and> mp_at p n s' k' \<and>
    (mp_finished n s' \<or> k' + length blocks \<le> k)"
  using assms(1,5)
proof (induction blocks arbitrary: s k)
  case (Cons b blocks)
  obtain s1 k1 where s1: "mp_run n p u b s = Some s1" "mp_at p n s1 k1" "k1 \<le> k"
      "k1 = k \<longrightarrow> mp_finished n s1"
    using mp_run_runs [OF Cons.prems(1) assms(2-4), of b] Cons.prems(2) by (auto simp: mp_finished_def)
  obtain s2 k2 where s2: "mp_run n p u (concat blocks) s1 = Some s2" "mp_at p n s2 k2"
      "mp_finished n s2 \<or> k2 + length blocks \<le> k1"
    using Cons.IH [OF s1(2)] Cons.prems(2) by auto
  have "mp_finished n s1 \<Longrightarrow> mp_finished n s2"
    using mp_run_finished [OF s1(2) assms(2-4), of "concat blocks"] s2(1) by auto
  then show ?case using s1 s2 by (intro exI [of _ s2] exI [of _ k2]) (auto simp: mp_run_append)
qed auto

subsection \<open>The example gets through\<close>

lemma message_params: "ps_params_ok (pubsub_qos_default\<lparr>max_loaned_samples := 16\<rparr>) (ty_size message_type)"
  by (simp add: ps_params_ok_def pubsub_qos_default_def message_type_def layout_fits_def SENTINEL_def)

lemma multi_process_boot:
  assumes "example_node x ''multi_process'' fs sg = Some (node, fs1)"
    and "pb_open_or_create (xm_ron x) (xm_env x) message_type
      (pb_max_loaned_samples 16 (ss_publish_subscribe (nd_service node ''ipc/messages''))) (new_process fs1 mem) = (Ok h, v1)"
    and "publisher_create (xm_nix x) message_type (pss_publisher h) v1 = Some (Ok p, v2)"
  shows "\<exists>u s0. ps_shape p u \<and> pub_payload p = 72 \<and> unat (pub_max_loaned p) = 16 \<and> mp_at p 50 s0 150 \<and>
    (\<forall>sched. multi_process_example x sched fs sg mem = mp_run 50 p u sched s0 \<bind> (\<lambda>s.
      if mp_sent s < 50 \<or> length (mp_seen s) < 50 then Some Spinning
      else pub_reclaim p (mp_world s) \<bind> (\<lambda>w. Some (Done (mp_seen s, w)))))"
proof -
  let ?b = "pb_max_loaned_samples 16 (ss_publish_subscribe (nd_service node ''ipc/messages''))"
  have qos: "pb_qos ?b = pubsub_qos_default\<lparr>max_loaned_samples := 16\<rparr>"
    by (simp add: pb_max_loaned_samples_def ss_publish_subscribe_def nd_service_def pb_new_def
        example_node_config [OF assms(1)] config_default_def)
  obtain u v3 where u: "subscriber_create (pss_subscriber h) v2 = Some (Ok u, v3)"
    using first_subscriber [OF assms(2,3)] by blast
  note b = boot_in_flight [OF handle_boot(1) [OF assms(2,3) u], unfolded qos, OF message_params]
  let ?s = "\<lparr>mp_world = world.truncate (sv_ports v3), mp_sent = 0, mp_seen = []\<rparr>"
  have "pub_payload p = 72" "unat (pub_max_loaned p) = 16"
    using b(3,4) by (simp_all add: message_type_def pubsub_qos_default_def)
  moreover have "mp_at p 50 ?s 150" using b(1) by (auto simp: mp_at_def pubsub_qos_default_def)
  ultimately show ?thesis
    using assms(1-3) u b(2) by (intro exI [of _ u] exI [of _ ?s]) (simp add: multi_process_example_def Let_def)
qed

text \<open>C7: the example with two threads does what it says. When the node, the service and the publisher can
  be created, no schedule of the two threads makes it panic; as soon as the schedule has 150 stretches
  in each of which both threads get a turn, however it goes on and in whatever order, the consumer
  has received the fifty messages in the order of sending, byte for byte, and the final reclaim
  leaves no loan. The producer, which may have 16 samples out, gets past that limit by reclaiming.\<close>

theorem multi_process_completes:
  assumes "example_node x ''multi_process'' fs sg = Some (node, fs1)"
    and "pb_open_or_create (xm_ron x) (xm_env x) message_type
      (pb_max_loaned_samples 16 (ss_publish_subscribe (nd_service node ''ipc/messages''))) (new_process fs1 mem) = (Ok h, v1)"
    and "publisher_create (xm_nix x) message_type (pss_publisher h) v1 = Some (Ok p, v2)"
    and "\<forall>b \<in> set blocks. True \<in> set b \<and> False \<in> set b" and "150 \<le> length blocks"
  shows "(multi_process_example x sched fs sg mem = Some Spinning \<or>
      (\<exists>w. multi_process_example x sched fs sg mem = Some (Done (map (\<lambda>i. message_bytes (of_nat i)) [0..<50], w)) \<and>
         pub_get_active_loans p w = Some 0)) \<and>
    multi_process_example x (concat blocks @ sched) fs sg mem \<noteq> Some Spinning"
proof -
  obtain u s0 where b: "ps_shape p u" "pub_payload p = 72" "unat (pub_max_loaned p) = 16" and at: "mp_at p 50 s0 150"
      and run: "\<And>sched. multi_process_example x sched fs sg mem = mp_run 50 p u sched s0 \<bind> (\<lambda>s.
        if mp_sent s < 50 \<or> length (mp_seen s) < 50 then Some Spinning
        else pub_reclaim p (mp_world s) \<bind> (\<lambda>w. Some (Done (mp_seen s, w))))"
    using multi_process_boot [OF assms(1-3)] by blast
  obtain s' k' where s': "mp_run 50 p u sched s0 = Some s'" "mp_at p 50 s' k'"
    using mp_run_runs [OF at b] by blast
  obtain msgs due where fl: "in_flight p 64 (mp_world s') msgs due"
      "mp_seen s' @ msgs = map (\<lambda>i. message_bytes (of_nat i)) [0..<mp_sent s']"
    using s'(2) by (auto simp: mp_at_def)
  have fin: "\<exists>w. multi_process_example x sched fs sg mem = Some (Done (map (\<lambda>i. message_bytes (of_nat i)) [0..<50], w)) \<and>
      pub_get_active_loans p w = Some 0" if "mp_finished 50 s'"
  proof -
    have sent: "mp_sent s' = 50" "length (mp_seen s') = 50" using that by (simp_all add: mp_finished_def)
    then have "length (mp_seen s') + length msgs = 50" using arg_cong [OF fl(2), of length] by simp
    then have "msgs = []" using sent(2) by simp
    moreover from this have "mp_seen s' = map (\<lambda>i. message_bytes (of_nat i)) [0..<50]" using fl(2) sent(1) by simp
    moreover obtain w k where "pub_reclaim p (mp_world s') = Some w" "pub_get_active_loans p w = Some k" "unat k = length msgs"
      using reclaim_in_flight [OF fl(1) b(1)] by metis
    ultimately show ?thesis using run s'(1) that by (simp add: mp_finished_def unat_eq_0)
  qed
  obtain s2 k2 where s2: "mp_run 50 p u (concat blocks) s0 = Some s2" "mp_at p 50 s2 k2" "mp_finished 50 s2 \<or> k2 = 0"
    using mp_run_blocks [OF at b assms(4)] assms(5) by fastforce
  then have "mp_finished 50 s2" by (auto simp: mp_at_def mp_finished_def)
  then obtain s3 where "mp_run 50 p u (concat blocks @ sched) s0 = Some s3" "mp_finished 50 s3"
    using mp_run_finished [OF s2(2) b] s2(1) by (auto simp: mp_run_append)
  then have "multi_process_example x (concat blocks @ sched) fs sg mem \<noteq> Some Spinning"
    using run by (auto simp: mp_finished_def split: bind_splits)
  moreover have "multi_process_example x sched fs sg mem = Some Spinning" if "\<not> mp_finished 50 s'"
    using run s' that mp_at_seen [OF s'(2)] by (auto simp: mp_finished_def)
  ultimately show ?thesis using fin by blast
qed

theorem multi_process_completes_witness:
  "\<exists>w. multi_process_example plain_machine (concat (replicate 150 [True, False])) fs_empty sig_start (\<lambda>_. 0) =
    Some (Done (map (\<lambda>i. message_bytes (of_nat i)) [0..<50], w))"
proof -
  obtain node fs1 h v1 p v2 where n: "example_node plain_machine ''multi_process'' fs_empty sig_start = Some (node, fs1)"
      "pb_open_or_create ron_plain io_quiet message_type
        (pb_max_loaned_samples 16 (ss_publish_subscribe (nd_service node ''ipc/messages''))) (new_process fs1 (\<lambda>_. 0)) = (Ok h, v1)"
      "publisher_create nix_ok message_type (pss_publisher h) v1 = Some (Ok p, v2)"
    using plain_pubsub [OF message_params] by metis
  let ?blocks = "replicate 150 [True, False]"
  have fair: "\<forall>b \<in> set ?blocks. True \<in> set b \<and> False \<in> set b" "150 \<le> length ?blocks" by simp_all
  note m = multi_process_completes [of plain_machine, unfolded plain_machine_simps, OF n fair]
  show ?thesis using m [of "concat ?blocks"] m [of "[]"] unfolding append_Nil2 by blast
qed

end
