(* ===== verification/Mocks.thy ===== *)
theory Mocks
  imports Index_Set Channel
begin

text \<open>
  The stand-ins of \<open>contracts/mock.rs\<close> and \<open>crates/entangle-transport/src/mock.rs\<close> that client code is
  developed against: an index allocator and a channel on plain vectors behind a mutex. They are
  compared with the lock-free components they stand for.
\<close>

subsection \<open>The index allocator\<close>

text \<open>The end of the vector is the top of the stack.\<close>

record mock_index_allocator =
  mia_free_list :: "u32 list"
  mia_capacity :: u32
  mia_borrowed :: u32

definition mia_new :: "u32 \<Rightarrow> mock_index_allocator" where
  "mia_new capacity =
     \<lparr>mia_free_list = rev (map of_nat [0..<unat capacity]), mia_capacity = capacity, mia_borrowed = 0\<rparr>"

definition mia_acquire :: "mock_index_allocator \<Rightarrow> u32 option \<times> mock_index_allocator" where
  "mia_acquire m =
     (if mia_free_list m = [] then (None, m)
      else (Some (last (mia_free_list m)),
            m\<lparr>mia_free_list := butlast (mia_free_list m), mia_borrowed := mia_borrowed m + 1\<rparr>))"

definition mia_release :: "u32 \<Rightarrow> mock_index_allocator \<Rightarrow> mock_index_allocator" where
  "mia_release index m =
     m\<lparr>mia_free_list := mia_free_list m @ [index], mia_borrowed := mia_borrowed m - 1\<rparr>"

definition mia_borrowed_count :: "mock_index_allocator \<Rightarrow> u32" where
  "mia_borrowed_count m = mia_borrowed m"

subsection \<open>The channel\<close>

record mock_channel =
  mc_send_queue :: "u64 list"
  mc_return_queue :: "u64 list"

definition mc_new :: mock_channel where
  "mc_new = \<lparr>mc_send_queue = [], mc_return_queue = []\<rparr>"

definition mc_send :: "u64 \<Rightarrow> mock_channel \<Rightarrow> mock_channel" where
  "mc_send offset c = c\<lparr>mc_send_queue := mc_send_queue c @ [offset]\<rparr>"

definition pop_front :: "'a list \<Rightarrow> 'a option \<times> 'a list" where
  "pop_front xs = (case xs of [] \<Rightarrow> (None, []) | x # xs \<Rightarrow> (Some x, xs))"

definition mc_receive :: "mock_channel \<Rightarrow> u64 option \<times> mock_channel" where
  "mc_receive c = (case pop_front (mc_send_queue c) of (r, q) \<Rightarrow> (r, c\<lparr>mc_send_queue := q\<rparr>))"

definition mc_return_slot :: "u64 \<Rightarrow> mock_channel \<Rightarrow> mock_channel" where
  "mc_return_slot offset c = c\<lparr>mc_return_queue := mc_return_queue c @ [offset]\<rparr>"

definition mc_reclaim :: "mock_channel \<Rightarrow> u64 option \<times> mock_channel" where
  "mc_reclaim c = (case pop_front (mc_return_queue c) of (r, q) \<Rightarrow> (r, c\<lparr>mc_return_queue := q\<rparr>))"

subsection \<open>The mock allocator keeps the allocator contract\<close>

definition mia_wf :: "mock_index_allocator \<Rightarrow> bool" where
  "mia_wf m \<longleftrightarrow> distinct (mia_free_list m) \<and> (\<forall>i \<in> set (mia_free_list m). i < mia_capacity m)"

lemma mia_split:
  assumes "mia_free_list m \<noteq> []"
  obtains xs x where "mia_free_list m = xs @ [x]"
    "mia_acquire m = (Some x, m\<lparr>mia_free_list := xs, mia_borrowed := mia_borrowed m + 1\<rparr>)"
  using assms by (cases "mia_free_list m" rule: rev_exhaust) (auto simp: mia_acquire_def)

interpretation mia: slot_allocator mia_wf "\<lambda>m. set (mia_free_list m)" "\<lambda>m. {..<mia_capacity m}"
  "\<lambda>m. case mia_acquire m of (None, m) \<Rightarrow> Some (Err (), m) | (Some i, m) \<Rightarrow> Some (Ok i, m)"
  "\<lambda>i m. Some (mia_release i m)"
proof
  fix m :: mock_index_allocator and i :: u32
  show "finite {..<mia_capacity m}" by simp
  assume wf: "mia_wf m"
  show "set (mia_free_list m) \<subseteq> {..<mia_capacity m}" using wf by (auto simp: mia_wf_def)
  show "\<exists>i m'. (case mia_acquire m of (None, m) \<Rightarrow> Some (Err (), m) | (Some i, m) \<Rightarrow> Some (Ok i, m)) = Some (Ok i, m') \<and>
      i \<in> set (mia_free_list m) \<and> set (mia_free_list m') = set (mia_free_list m) - {i} \<and> mia_wf m' \<and>
      {..<mia_capacity m'} = {..<mia_capacity m}" if "set (mia_free_list m) \<noteq> {}"
  proof -
    have "mia_free_list m \<noteq> []" using that by simp
    then obtain xs x where "mia_free_list m = xs @ [x]"
        "mia_acquire m = (Some x, m\<lparr>mia_free_list := xs, mia_borrowed := mia_borrowed m + 1\<rparr>)"
      by (rule mia_split)
    then show ?thesis using wf by (auto simp: mia_wf_def)
  qed
  show "\<exists>e. (case mia_acquire m of (None, m) \<Rightarrow> Some (Err (), m) | (Some i, m) \<Rightarrow> Some (Ok i, m)) = Some (Err e, m)"
    if "set (mia_free_list m) = {}" using that by (simp add: mia_acquire_def)
  show "\<exists>m'. Some (mia_release i m) = Some m' \<and> set (mia_free_list m') = insert i (set (mia_free_list m)) \<and> mia_wf m' \<and>
      {..<mia_capacity m'} = {..<mia_capacity m}" if "i \<in> {..<mia_capacity m}" "i \<notin> set (mia_free_list m)"
    using wf that by (simp add: mia_release_def mia_wf_def)
qed

subsection \<open>Runs of the two allocators\<close>

datatype index_op = OpAcquire | OpRelease u32

fun mia_run :: "index_op list \<Rightarrow> mock_index_allocator \<Rightarrow> u32 option list \<times> mock_index_allocator" where
  "mia_run [] m = ([], m)"
| "mia_run (OpAcquire # ops) m =
     (case mia_acquire m of (r, m) \<Rightarrow> case mia_run ops m of (rs, m) \<Rightarrow> (r # rs, m))"
| "mia_run (OpRelease i # ops) m = mia_run ops (mia_release i m)"

fun uis_run :: "index_op list \<Rightarrow> unique_index_set \<Rightarrow> (u32 option list \<times> unique_index_set) option" where
  "uis_run [] s = Some ([], s)"
| "uis_run (OpAcquire # ops) s = do {
     (r, s) \<leftarrow> uis_acquire s;
     (rs, s) \<leftarrow> uis_run ops s;
     Some ((case r of Ok i \<Rightarrow> Some i | Err _ \<Rightarrow> None) # rs, s)
   }"
| "uis_run (OpRelease i # ops) s = do { s \<leftarrow> uis_release i s; uis_run ops s }"

text \<open>Only indices that are out are released.\<close>

fun releases_ok :: "index_op list \<Rightarrow> mock_index_allocator \<Rightarrow> bool" where
  "releases_ok [] m = True"
| "releases_ok (OpAcquire # ops) m = releases_ok ops (snd (mia_acquire m))"
| "releases_ok (OpRelease i # ops) m \<longleftrightarrow>
     i < mia_capacity m \<and> i \<notin> set (mia_free_list m) \<and> releases_ok ops (mia_release i m)"

definition same_stack :: "unique_index_set \<Rightarrow> mock_index_allocator \<Rightarrow> bool" where
  "same_stack s m \<longleftrightarrow> uis_wf s \<and> uis_free s = rev (mia_free_list m) \<and> uis_capacity s = mia_capacity m \<and>
     mia_borrowed m = mia_capacity m - of_nat (length (mia_free_list m))"

lemma uis_wf_borrowed_word: "uis_wf s \<Longrightarrow> uis_borrowed s = uis_capacity s - of_nat (length (uis_free s))"
  by (simp add: uis_wf_def)

lemma same_stack_acquire:
  assumes "same_stack s m"
  shows "\<exists>r s'. uis_acquire s = Some (r, s') \<and> same_stack s' (snd (mia_acquire m)) \<and>
    (case r of Ok i \<Rightarrow> Some i | Err _ \<Rightarrow> None) = fst (mia_acquire m)"
proof (cases "mia_free_list m = []")
  case True
  then show ?thesis using assms uis_acquire_empty [of s] by (simp add: same_stack_def mia_acquire_def)
next
  case False
  then obtain xs x where m: "mia_free_list m = xs @ [x]"
      "mia_acquire m = (Some x, m\<lparr>mia_free_list := xs, mia_borrowed := mia_borrowed m + 1\<rparr>)"
    by (rule mia_split)
  have s: "uis_wf s" "uis_free s = x # rev xs" using assms m(1) by (simp_all add: same_stack_def)
  obtain s' where s': "uis_acquire s = Some (Ok x, s')" "uis_wf s'" "uis_free s' = rev xs" "uis_capacity s' = uis_capacity s"
    using uis_acquire_Cons [OF s] .
  then show ?thesis
    using assms m by (simp add: same_stack_def)
qed

lemma same_stack_release:
  assumes "same_stack s m" and "i < mia_capacity m" and "i \<notin> set (mia_free_list m)"
  shows "\<exists>s'. uis_release i s = Some s' \<and> same_stack s' (mia_release i m)"
proof -
  have s: "uis_wf s" "i < uis_capacity s" "i \<notin> set (uis_free s)" using assms by (simp_all add: same_stack_def)
  obtain s' where s': "uis_release i s = Some s'" "uis_wf s'" "uis_free s' = i # uis_free s" "uis_capacity s' = uis_capacity s"
    using uis_release_wf [OF s] .
  then show ?thesis
    using assms(1) by (simp add: same_stack_def mia_release_def)
qed

lemma same_stack_run:
  assumes "same_stack s m" and "releases_ok ops m"
  shows "\<exists>s'. uis_run ops s = Some (fst (mia_run ops m), s') \<and> same_stack s' (snd (mia_run ops m))"
  using assms
proof (induction ops arbitrary: s m)
  case (Cons op ops)
  show ?case
  proof (cases op)
    case OpAcquire
    obtain r s' where r: "uis_acquire s = Some (r, s')" "same_stack s' (snd (mia_acquire m))"
        "(case r of Ok i \<Rightarrow> Some i | Err _ \<Rightarrow> None) = fst (mia_acquire m)"
      using same_stack_acquire [OF Cons.prems(1)] by blast
    from Cons.IH [OF r(2)] Cons.prems(2) OpAcquire r(1,3) show ?thesis by (auto split: prod.splits)
  next
    case (OpRelease i)
    then obtain s' where "uis_release i s = Some s'" "same_stack s' (mia_release i m)"
      using same_stack_release [OF Cons.prems(1)] Cons.prems(2) by auto
    with Cons.IH [of s' "mia_release i m"] Cons.prems(2) OpRelease show ?thesis by auto
  qed
qed simp

text \<open>The mock allocator stands in for the lock-free one. On every sequence of acquisitions and
  legal releases the two return the same indices in the same order, fail at the same points, and
  count the same number of indices as handed out.\<close>

theorem mock_index_agrees:
  assumes "uis_new c = Some s" and "releases_ok ops (mia_new c)"
  shows "\<exists>s'. uis_run ops s = Some (fst (mia_run ops (mia_new c)), s') \<and>
    uis_borrowed_count s' = mia_borrowed_count (snd (mia_run ops (mia_new c)))"
proof -
  have "same_stack s (mia_new c)"
    using uis_new_wf [OF assms(1)] by (simp add: same_stack_def mia_new_def)
  from same_stack_run [OF this assms(2)] show ?thesis
    by (auto simp: same_stack_def uis_borrowed_count_def mia_borrowed_count_def uis_wf_borrowed_word)
qed

theorem mock_index_agrees_witness:
  "\<exists>s s'. uis_new 2 = Some s \<and> releases_ok [OpAcquire, OpAcquire, OpAcquire, OpRelease 0, OpAcquire] (mia_new 2) \<and>
    uis_run [OpAcquire, OpAcquire, OpAcquire, OpRelease 0, OpAcquire] s = Some ([Some 0, Some 1, None, Some 0], s')"
proof -
  let ?ops = "[OpAcquire, OpAcquire, OpAcquire, OpRelease 0, OpAcquire]"
  have "mia_new 2 = \<lparr>mia_free_list = [1, 0], mia_capacity = 2, mia_borrowed = 0\<rparr>"
    by (simp add: mia_new_def upt_rec)
  then have run: "releases_ok ?ops (mia_new 2)" "fst (mia_run ?ops (mia_new 2)) = [Some 0, Some 1, None, Some 0]"
    by (simp_all add: mia_acquire_def mia_release_def)
  obtain s where s: "uis_new 2 = Some s" using uis_new_panics [of 2] by (auto simp: SENTINEL_def)
  from mock_index_agrees [OF s run(1)] s run show ?thesis by auto
qed

subsection \<open>Runs of the two channels\<close>

datatype channel_op = OpSend u64 | OpReceive | OpReturn u64 | OpReclaim

datatype channel_out = Accepted | Got "u64 option" | Refused

fun mc_op :: "channel_op \<Rightarrow> mock_channel \<Rightarrow> channel_out \<times> mock_channel" where
  "mc_op (OpSend x) m = (Accepted, mc_send x m)"
| "mc_op OpReceive m = (case mc_receive m of (r, m) \<Rightarrow> (Got r, m))"
| "mc_op (OpReturn x) m = (Accepted, mc_return_slot x m)"
| "mc_op OpReclaim m = (case mc_reclaim m of (r, m) \<Rightarrow> (Got r, m))"

fun ch_op :: "channel_op \<Rightarrow> channel \<Rightarrow> (channel_out \<times> channel) option" where
  "ch_op (OpSend x) c = do {
     (r, c) \<leftarrow> ch_send (po_from_raw x) c;
     Some (case r of Ok _ \<Rightarrow> Accepted | Err _ \<Rightarrow> Refused, c)
   }"
| "ch_op OpReceive c = do {
     (r, c) \<leftarrow> ch_receive c;
     Some (case r of Ok a \<Rightarrow> Got (Some (po_raw a)) | Err Empty \<Rightarrow> Got None | Err _ \<Rightarrow> Refused, c)
   }"
| "ch_op (OpReturn x) c = do {
     (pushed, c) \<leftarrow> ch_return_try (po_from_raw x) c;
     Some (if pushed then Accepted else Refused, c)
   }"
| "ch_op OpReclaim c = do {
     (r, c) \<leftarrow> ch_reclaim c;
     Some (Got (map_option po_raw r), c)
   }"

fun mc_run :: "channel_op list \<Rightarrow> mock_channel \<Rightarrow> channel_out list" where
  "mc_run [] m = []"
| "mc_run (op # ops) m = (case mc_op op m of (res, m) \<Rightarrow> res # mc_run ops m)"

fun ch_run :: "channel_op list \<Rightarrow> channel \<Rightarrow> channel_out list option" where
  "ch_run [] c = Some []"
| "ch_run (op # ops) c = do {
     (res, c) \<leftarrow> ch_op op c;
     ress \<leftarrow> ch_run ops c;
     Some (res # ress)
   }"

text \<open>The mock has no bound; this is where an operation would exceed one.\<close>

fun mc_room :: "nat \<Rightarrow> channel_op \<Rightarrow> mock_channel \<Rightarrow> bool" where
  "mc_room n (OpSend x) m \<longleftrightarrow> length (mc_send_queue m) < n"
| "mc_room n (OpReturn x) m \<longleftrightarrow> length (mc_return_queue m) < n"
| "mc_room n op m \<longleftrightarrow> True"

fun mc_fits :: "nat \<Rightarrow> channel_op list \<Rightarrow> mock_channel \<Rightarrow> bool" where
  "mc_fits n [] m = True"
| "mc_fits n (op # ops) m \<longleftrightarrow> mc_room n op m \<and> mc_fits n ops (snd (mc_op op m))"

definition same_queues :: "channel \<Rightarrow> mock_channel \<Rightarrow> bool" where
  "same_queues c m \<longleftrightarrow> ch_wf c \<and> \<not> ch_closed c \<and> ch_inflight c = map po_from_raw (mc_send_queue m) \<and>
     ch_returned c = map po_from_raw (mc_return_queue m)"

lemmas mc_defs = mc_send_def mc_receive_def mc_return_slot_def mc_reclaim_def pop_front_def

lemma ch_op_room:
  assumes "same_queues c m" and "mc_room (ch_bound c) op m"
  shows "\<exists>c'. ch_op op c = Some (fst (mc_op op m), c') \<and> same_queues c' (snd (mc_op op m)) \<and> ch_bound c' = ch_bound c"
proof -
  have wf: "ch_wf c" and live: "\<not> ch_closed c"
    and q: "ch_inflight c = map po_from_raw (mc_send_queue m)" "ch_returned c = map po_from_raw (mc_return_queue m)"
    using assms(1) by (simp_all add: same_queues_def)
  show ?thesis
  proof (cases op)
    case (OpSend x)
    then show ?thesis
      using ch.send_room [OF wf live, of "po_from_raw x"] assms(2) q live by (auto simp: mc_defs same_queues_def)
  next
    case OpReceive
    then show ?thesis
      using ch.receive_none [OF wf] ch.receive_Cons [OF wf] assms q live
      by (cases "mc_send_queue m") (fastforce simp: mc_defs same_queues_def)+
  next
    case (OpReturn x)
    then show ?thesis
      using ch.give_back_room [OF wf, of "po_from_raw x"] assms(2) q live by (auto simp: mc_defs same_queues_def)
  next
    case OpReclaim
    then show ?thesis
      using ch.reclaim_none [OF wf] ch.reclaim_Cons [OF wf] assms q live
      by (cases "mc_return_queue m") (fastforce simp: mc_defs same_queues_def)+
  qed
qed

lemma ch_op_full:
  assumes "same_queues c m" and "\<not> mc_room (ch_bound c) op m"
  shows "ch_op op c = Some (Refused, c) \<and> fst (mc_op op m) = Accepted"
  using assms ch.inflight_bound [of c] ch.returned_bound [of c] ch.send_full [of c] ch.give_back_full [of c]
  by (cases op) (auto simp: same_queues_def)

text \<open>A run of the real channel always ends: no operation panics on a well-formed channel.\<close>

lemma ch_op_total:
  assumes wf: "ch_wf c"
  shows "\<exists>res c'. ch_op op c = Some (res, c') \<and> ch_wf c'"
proof (cases op)
  case (OpSend x)
  then show ?thesis using ch.send_total [OF wf, of "po_from_raw x"] by auto
next
  case OpReceive
  then show ?thesis
    using ch.receive_none [OF wf] ch.receive_Cons [OF wf] wf by (cases "ch_inflight c") fastforce+
next
  case (OpReturn x)
  then show ?thesis
    using ch.give_back_full [OF wf, of "po_from_raw x"] ch.give_back_room [OF wf, of "po_from_raw x"]
      ch.returned_bound [OF wf] wf
    by (cases "length (ch_returned c) = ch_bound c") auto
next
  case OpReclaim
  then show ?thesis
    using ch.reclaim_none [OF wf] ch.reclaim_Cons [OF wf] wf by (cases "ch_returned c") fastforce+
qed

lemma ch_run_total: "ch_wf c \<Longrightarrow> \<exists>rs. ch_run ops c = Some rs"
proof (induction ops arbitrary: c)
  case (Cons op ops)
  obtain res c' where "ch_op op c = Some (res, c')" "ch_wf c'" using ch_op_total [OF Cons.prems] by blast
  with Cons.IH [of c'] show ?case by auto
qed simp

lemma ch_run_agrees:
  assumes "same_queues c m" and "ch_bound c = n"
  shows "ch_run ops c = Some (mc_run ops m) \<longleftrightarrow> mc_fits n ops m"
  using assms
proof (induction ops arbitrary: c m)
  case (Cons op ops)
  show ?case
  proof (cases "mc_room n op m")
    case True
    obtain c' where c': "ch_op op c = Some (fst (mc_op op m), c')" "same_queues c' (snd (mc_op op m))" "ch_bound c' = n"
      using ch_op_room [OF Cons.prems(1)] Cons.prems(2) True by auto
    from Cons.IH [OF c'(2,3)] c'(1) True show ?thesis
      by (cases "ch_run ops c'") (auto split: prod.splits)
  next
    case False
    have full: "ch_op op c = Some (Refused, c)" "fst (mc_op op m) = Accepted"
      using ch_op_full [OF Cons.prems(1)] Cons.prems(2) False by auto
    then show ?thesis using False by (auto split: prod.splits bind_splits)
  qed
qed simp

text \<open>C27: where the mock channel stands in for the real one. A connected channel answers a sequence of
  sends, receives, returns and reclaims exactly as the mock does if and only if no send and no return
  finds a queue of the mock as long as the capacity of the channel's rings; the real channel never panics on
  the way. (A return that finds the real queue full counts as refused; the code tries it again.)\<close>

theorem mock_channel_agrees:
  "(\<exists>rs. ch_run ops (ch_connect (ch_new n s r)) = Some rs) \<and>
   (ch_run ops (ch_connect (ch_new n s r)) = Some (mc_run ops mc_new) \<longleftrightarrow>
    mc_fits (unat (spsc_capacity (spsc_new n))) ops mc_new)"
proof -
  have "same_queues (ch_connect (ch_new n s r)) mc_new" by (simp add: same_queues_def mc_new_def)
  from ch_run_agrees [OF this] show ?thesis using ch_run_total [of "ch_connect (ch_new n s r)"] by simp
qed

end
