(* ===== verification/Derive_Macro.thy ===== *)
theory Derive_Macro
  imports Entangle_Prelude
begin

text \<open>
  The \<open>ZeroCopySafe\<close> marker (\<open>crates/entangle/src/contracts.rs\<close>) and its derive macro
  (\<open>crates/entangle-derive/src/lib.rs\<close>). The macro maps the parsed definition of a type to an
  implementation with bounds and field assertions, or to a compile error. The input is what the
  macro reads of \<open>syn::DeriveInput\<close>; for an attribute, its name and what \<open>parse_args::<Ident>()\<close>
  yields. The trait resolution of the compiler is \<open>zcs\<close>.
\<close>

subsection \<open>Types and definitions\<close>

datatype rtype =
    TPrim string
  | TArray rtype nat
  | TParam string
  | TRef rtype
  | TAdt string "rtype list"

datatype rdata =
    DStruct "rtype list"
  | DEnum "rtype list list"
  | DUnion "rtype list"

datatype gparam = GType string | GLifetime string | GConst string

record rattr =
  at_path :: string
  at_ident :: "string option"

datatype where_pred = WUser string | WZeroCopySafe string

record derive_input =
  di_ident :: string
  di_attrs :: "rattr list"
  di_params :: "gparam list"
  di_where :: "string list"
  di_data :: rdata

record expansion =
  ex_name :: string
  ex_params :: "gparam list"
  ex_where :: "where_pred list"
  ex_assertions :: "rtype list"

subsection \<open>The macro\<close>

definition valid_repr_ident :: "string \<Rightarrow> bool" where
  "valid_repr_ident repr \<longleftrightarrow>
     repr = ''C'' \<or> repr = ''transparent'' \<or> (repr \<noteq> [] \<and> (hd repr = CHR ''u'' \<or> hd repr = CHR ''i''))"

fun has_valid_repr :: "rattr list \<Rightarrow> bool" where
  "has_valid_repr [] = False"
| "has_valid_repr (attr # attrs) =
     (if at_path attr = ''repr'' \<and> (case at_ident attr of Some repr \<Rightarrow> valid_repr_ident repr | None \<Rightarrow> False)
      then True else has_valid_repr attrs)"

fun is_fieldless_enum :: "rdata \<Rightarrow> bool" where
  "is_fieldless_enum (DEnum variants) = list_all (\<lambda>v. v = []) variants"
| "is_fieldless_enum _ = False"

fun generate_field_assertions :: "rdata \<Rightarrow> rtype list" where
  "generate_field_assertions (DStruct fs) = fs"
| "generate_field_assertions _ = []"

fun type_params :: "gparam list \<Rightarrow> string list" where
  "type_params [] = []"
| "type_params (GType x # ps) = x # type_params ps"
| "type_params (_ # ps) = type_params ps"

definition validate_data :: "rdata \<Rightarrow> (unit, string) result" where
  "validate_data d =
     (case d of
        DStruct fs \<Rightarrow> Ok ()
      | DEnum variants \<Rightarrow>
          if is_fieldless_enum d then Ok ()
          else Err ''ZeroCopySafe enums must be fieldless (no data variants)''
      | DUnion fs \<Rightarrow> Err ''ZeroCopySafe cannot be derived for unions'')"

definition impl_zero_copy_safe :: "derive_input \<Rightarrow> (expansion, string) result" where
  "impl_zero_copy_safe inp =
     (if \<not> has_valid_repr (di_attrs inp)
      then Err ''ZeroCopySafe requires #[repr(C)] or #[repr(transparent)]''
      else case validate_data (di_data inp) of
             Err e \<Rightarrow> Err e
           | Ok _ \<Rightarrow>
               Ok \<lparr>ex_name = di_ident inp, ex_params = di_params inp,
                   ex_where = map WUser (di_where inp) @ map WZeroCopySafe (type_params (di_params inp)),
                   ex_assertions = generate_field_assertions (di_data inp)\<rparr>)"

subsection \<open>The marker\<close>

text \<open>The implementations of \<open>contracts.rs\<close>.\<close>

definition builtin_zcs :: "string list" where
  "builtin_zcs = [''u8'', ''u16'', ''u32'', ''u64'', ''u128'', ''i8'', ''i16'', ''i32'', ''i64'', ''i128'',
     ''f32'', ''f64'', ''bool'']"

text \<open>Trait resolution: an implementation applies to a type whose arguments meet the bounds that the
  expansion puts on its type parameters; inside a generic item the parameters in \<open>A\<close> are assumed to
  be \<open>ZeroCopySafe\<close>. \<open>E\<close> holds the expansions in the program.\<close>

definition bounded :: "expansion \<Rightarrow> string set" where
  "bounded ex = {x. WZeroCopySafe x \<in> set (ex_where ex)}"

fun zcs :: "(string \<rightharpoonup> expansion) \<Rightarrow> string set \<Rightarrow> rtype \<Rightarrow> bool" where
  "zcs E A (TPrim p) \<longleftrightarrow> p \<in> set builtin_zcs"
| "zcs E A (TArray t n) \<longleftrightarrow> zcs E A t"
| "zcs E A (TParam x) \<longleftrightarrow> x \<in> A"
| "zcs E A (TRef t) \<longleftrightarrow> False"
| "zcs E A (TAdt n args) \<longleftrightarrow>
     (case E n of
        None \<Rightarrow> False
      | Some ex \<Rightarrow> length args = length (type_params (ex_params ex)) \<and>
          list_all2 (\<lambda>x holds. x \<in> bounded ex \<longrightarrow> holds) (type_params (ex_params ex)) (map (zcs E A) args))"

text \<open>The expansions of a program: types in \<open>der\<close> carry the derive attribute.\<close>

definition expansions :: "(string \<rightharpoonup> derive_input) \<Rightarrow> string set \<Rightarrow> string \<rightharpoonup> expansion" where
  "expansions D der n =
     (if n \<in> der then Option.bind (D n) (\<lambda>inp. case impl_zero_copy_safe inp of Ok ex \<Rightarrow> Some ex | Err _ \<Rightarrow> None)
      else None)"

text \<open>The program compiles: every use of the macro succeeds, and its field assertions hold under its
  bounds.\<close>

definition compiles :: "(string \<rightharpoonup> derive_input) \<Rightarrow> string set \<Rightarrow> bool" where
  "compiles D der \<longleftrightarrow> (\<forall>n \<in> der. \<exists>inp ex. D n = Some inp \<and> impl_zero_copy_safe inp = Ok ex \<and>
     (\<forall>t \<in> set (ex_assertions ex). zcs (expansions D der) (bounded ex) t))"

subsection \<open>What a value contains\<close>

fun subst :: "(string \<rightharpoonup> rtype) \<Rightarrow> rtype \<Rightarrow> rtype" where
  "subst s (TPrim p) = TPrim p"
| "subst s (TArray t n) = TArray (subst s t) n"
| "subst s (TParam x) = (case s x of Some t \<Rightarrow> t | None \<Rightarrow> TParam x)"
| "subst s (TRef t) = TRef (subst s t)"
| "subst s (TAdt n args) = TAdt n (map (subst s) args)"

definition data_fields :: "rdata \<Rightarrow> rtype set" where
  "data_fields d = (case d of DStruct fs \<Rightarrow> set fs | DEnum vs \<Rightarrow> \<Union> (set ` set vs) | DUnion fs \<Rightarrow> set fs)"

inductive contains :: "(string \<rightharpoonup> derive_input) \<Rightarrow> rtype \<Rightarrow> rtype \<Rightarrow> bool" for D where
  contains_self: "contains D t t"
| contains_element: "contains D t (TArray u n) \<Longrightarrow> contains D t u"
| contains_field: "contains D t (TAdt n args) \<Longrightarrow> D n = Some inp \<Longrightarrow> f \<in> data_fields (di_data inp) \<Longrightarrow>
    contains D t (subst (map_of (zip (type_params (di_params inp)) args)) f)"

lemma zcs_subst:
  assumes "zcs E A t" and "\<And>x. x \<in> A \<Longrightarrow> \<exists>u. s x = Some u \<and> zcs E B u"
  shows "zcs E B (subst s t)"
  using assms(1)
proof (induction t)
  case (TParam x)
  then show ?case using assms(2) by fastforce
next
  case (TAdt n args)
  then obtain ex where ex: "E n = Some ex" "length args = length (type_params (ex_params ex))"
      "list_all2 (\<lambda>x holds. x \<in> bounded ex \<longrightarrow> holds) (type_params (ex_params ex)) (map (zcs E A) args)"
    by (auto split: option.splits)
  have "zcs E B (subst s (args ! i))" if "i < length args" "type_params (ex_params ex) ! i \<in> bounded ex" for i
    using TAdt.IH [of "args ! i"] that ex(2) list_all2_nthD2 [OF ex(3), of i] by simp
  then show ?case using ex(1,2) by (simp add: list_all2_conv_all_nth)
qed simp_all

lemma impl_OkD:
  assumes "impl_zero_copy_safe inp = Ok ex"
  shows "has_valid_repr (di_attrs inp)" and "validate_data (di_data inp) = Ok ()"
    and "ex_params ex = di_params inp" and "bounded ex = set (type_params (di_params inp))"
    and "ex_assertions ex = generate_field_assertions (di_data inp)"
  using assms by (auto simp: impl_zero_copy_safe_def bounded_def split: if_splits result.splits)

text \<open>The fields of an accepted definition are the types asserted: an accepted enum has none.\<close>

lemma accepted_fields:
  "validate_data d = Ok () \<Longrightarrow> data_fields d = set (generate_field_assertions d)"
  by (cases d) (auto simp: validate_data_def data_fields_def list_all_iff split: if_splits)

lemma zcs_field:
  assumes "compiles D der" and "zcs (expansions D der) {} (TAdt n args)" and "D n = Some inp"
    and "f \<in> data_fields (di_data inp)"
  shows "zcs (expansions D der) {} (subst (map_of (zip (type_params (di_params inp)) args)) f)"
proof -
  let ?E = "expansions D der" and ?ps = "type_params (di_params inp)"
  obtain ex where ex: "?E n = Some ex" "n \<in> der" "impl_zero_copy_safe inp = Ok ex"
    using assms(2,3) by (auto simp: expansions_def split: option.splits if_splits result.splits)
  note ok = impl_OkD [OF ex(3)]
  have args: "length args = length ?ps"
      "list_all2 (\<lambda>x holds. x \<in> set ?ps \<longrightarrow> holds) ?ps (map (zcs ?E {}) args)"
    using assms(2) ex(1) ok(3,4) by simp_all
  have all: "zcs ?E {} (args ! i)" if "i < length args" for i
    using list_all2_nthD2 [OF args(2), of i] that args(1) by simp
  have "zcs ?E (set ?ps) f"
    using assms(1,3,4) ex(2,3) ok(4,5) accepted_fields [OF ok(2)] unfolding compiles_def by fastforce
  then show ?thesis
  proof (rule zcs_subst)
    fix x assume "x \<in> set ?ps"
    then obtain u where u: "map_of (zip ?ps args) x = Some u"
      using args(1) by (metis domIff dom_map_of_zip option.exhaust)
    then have "u \<in> set args" by (meson map_of_SomeD set_zip_rightD)
    then show "\<exists>u. map_of (zip ?ps args) x = Some u \<and> zcs ?E {} u" using u all by (auto simp: in_set_conv_nth)
  qed
qed

text \<open>C17: the derive macro admits plain data only. In a program that compiles and implements the marker
  through \<open>contracts.rs\<close> and the macro alone, everything that a value of a \<open>ZeroCopySafe\<close> type
  contains, at any depth, is again \<open>ZeroCopySafe\<close>: a listed primitive, an array, or a type whose
  definition carries an accepted representation and is a struct or an enum without fields. No
  reference and no union is inside.\<close>

theorem derive_sound:
  assumes "compiles D der" and "zcs (expansions D der) {} t" and "contains D t u"
  shows "zcs (expansions D der) {} u \<and> (\<forall>v. u \<noteq> TRef v) \<and> (\<forall>x. u \<noteq> TParam x) \<and>
    (\<forall>n args inp. u = TAdt n args \<longrightarrow> D n = Some inp \<longrightarrow>
       has_valid_repr (di_attrs inp) \<and> (\<forall>fs. di_data inp \<noteq> DUnion fs) \<and>
       (\<forall>vs. di_data inp = DEnum vs \<longrightarrow> (\<forall>v \<in> set vs. v = [])))"
proof -
  have u: "zcs (expansions D der) {} u"
    using assms(3,2)
  proof (induction rule: contains.induct)
    case (contains_field t n args inp f)
    then show ?case using zcs_field [OF assms(1)] by blast
  qed simp_all
  moreover have "has_valid_repr (di_attrs inp) \<and> validate_data (di_data inp) = Ok ()"
    if "u = TAdt n args" "D n = Some inp" for n args inp
    using u that impl_OkD [of inp] by (auto simp: expansions_def split: option.splits if_splits result.splits)
  moreover have "(\<forall>fs. d \<noteq> DUnion fs) \<and> (\<forall>vs. d = DEnum vs \<longrightarrow> (\<forall>v \<in> set vs. v = []))"
    if "validate_data d = Ok ()" for d
    using that by (cases d) (auto simp: validate_data_def list_all_iff split: if_splits)
  ultimately show ?thesis by fastforce
qed

definition demo_sensor :: derive_input where
  "demo_sensor = \<lparr>di_ident = ''Sensor'', di_attrs = [\<lparr>at_path = ''repr'', at_ident = Some ''C''\<rparr>],
     di_params = [GType ''T''], di_where = [], di_data = DStruct [TPrim ''u64'', TArray (TParam ''T'') 4]\<rparr>"

theorem derive_sound_witness:
  "let D = [''Sensor'' \<mapsto> demo_sensor]; t = TAdt ''Sensor'' [TPrim ''f64'']
   in compiles D {''Sensor''} \<and> zcs (expansions D {''Sensor''}) {} t \<and>
     contains D t (TArray (TPrim ''f64'') 4) \<and> zcs (expansions D {''Sensor''}) {} (TArray (TPrim ''f64'') 4)"
proof -
  let ?D = "[''Sensor'' \<mapsto> demo_sensor]" and ?t = "TAdt ''Sensor'' [TPrim ''f64'']"
  have ok: "compiles ?D {''Sensor''}" "zcs (expansions ?D {''Sensor''}) {} ?t"
    by (simp_all add: compiles_def demo_sensor_def impl_zero_copy_safe_def valid_repr_ident_def validate_data_def
        expansions_def bounded_def builtin_zcs_def)
  have "contains ?D ?t (subst (map_of (zip (type_params (di_params demo_sensor)) [TPrim ''f64''])) (TArray (TParam ''T'') 4))"
    by (rule contains_field [OF contains_self]) (simp_all add: demo_sensor_def data_fields_def)
  then have c: "contains ?D ?t (TArray (TPrim ''f64'') 4)" by (simp add: demo_sensor_def)
  show ?thesis using ok c derive_sound [OF ok c] by (simp add: Let_def)
qed

end
