(* ===== verification/Shared_Contracts.thy ===== *)
theory Shared_Contracts
  imports Mocks Service_Types Derive_Macro
begin

text \<open>
  \<open>contracts/shared_types.rs\<close>, the types every crate is meant to be developed against, and the mock shared
  memory of \<open>contracts/mock.rs\<close> and \<open>crates/entangle-platform/src/mock.rs\<close>. The crates keep copies of
  their own; the lemmas say where these agree with the contract and where they have left it. The
  trait \<open>IndexAllocator\<close> is a locale; no crate implements it by name, but two types keep it.
\<close>

subsection \<open>Types\<close>

definition ct_builtin_zcs :: "string list" where
  "ct_builtin_zcs = [''u8'', ''u16'', ''u32'', ''u64'', ''u128'', ''i8'', ''i16'', ''i32'', ''i64'', ''i128'',
     ''f32'', ''f64'', ''bool'']"

datatype ct_node_id = CtNodeId u128

datatype ct_service_name = CtServiceName string

datatype ct_pointer_offset = CtPointerOffset u64

definition ct_po_new :: "u16 \<Rightarrow> usize \<Rightarrow> ct_pointer_offset" where
  "ct_po_new segment_id offset =
     CtPointerOffset (push_bit 48 (ucast segment_id) OR (offset AND 0x0000FFFFFFFFFFFF))"

fun ct_po_segment_id :: "ct_pointer_offset \<Rightarrow> u16" where
  "ct_po_segment_id (CtPointerOffset w) = ucast (drop_bit 48 w)"

fun ct_po_offset :: "ct_pointer_offset \<Rightarrow> usize" where
  "ct_po_offset (CtPointerOffset w) = w AND 0x0000FFFFFFFFFFFF"

datatype ct_overflow_strategy = CtOverwrite | CtDropNewest | CtBlock

record ct_pubsub_qos =
  ct_history_size :: usize
  ct_max_publishers :: usize
  ct_max_subscribers :: usize
  ct_subscriber_overflow :: ct_overflow_strategy
  ct_max_loaned_samples :: usize
  ct_buffer_size :: usize

record ct_event_qos =
  ct_max_notifiers :: usize
  ct_max_listeners :: usize

record ct_reqres_qos =
  ct_max_clients :: usize
  ct_max_servers :: usize
  ct_max_pending_requests :: usize

datatype ct_loan_error = CtOutOfMemory | CtExceedsMaxLoans usize

datatype ct_send_error = CtSendConnectionBroken | CtQueueFull

datatype ct_receive_error = CtEmpty | CtReceiveConnectionBroken

datatype ct_platform_error =
    CtSharedMemoryCreate string
  | CtSharedMemoryOpen string
  | CtFileLock string
  | CtSignal string

datatype ct_service_error =
    CtAlreadyExists string
  | CtNotFound string
  | CtIncompatibleQos string
  | CtCorrupted string
  | CtVersionMismatch u32 u32

datatype ct_port_error =
    CtLoan ct_loan_error
  | CtSend ct_send_error
  | CtReceive ct_receive_error
  | CtConnectionLost u128

datatype ct_ipc_error =
    CtService ct_service_error
  | CtPort ct_port_error
  | CtPlatform ct_platform_error

record ct_shared_memory_handle =
  smh_ptr :: u64
  smh_size :: usize
  smh_name :: string

record ct_config =
  ct_shm_root :: string
  ct_node_name :: "string option"
  ct_default_pubsub_qos :: ct_pubsub_qos
  ct_default_event_qos :: ct_event_qos

definition CT_MAGIC_NUMBER :: u64 where
  "CT_MAGIC_NUMBER = 0x5A4349500001"

datatype ct_pattern_type = CtPubSub | CtEvent | CtReqRes | CtBlackboard

datatype ct_channel_state = CtCreating | CtConnected | CtDisconnected

fun ct_pattern_code :: "ct_pattern_type \<Rightarrow> u32" where
  "ct_pattern_code CtPubSub = 1"
| "ct_pattern_code CtEvent = 2"
| "ct_pattern_code CtReqRes = 3"
| "ct_pattern_code CtBlackboard = 4"

fun ct_channel_code :: "ct_channel_state \<Rightarrow> u8" where
  "ct_channel_code CtCreating = 0"
| "ct_channel_code CtConnected = 1"
| "ct_channel_code CtDisconnected = 2"

text \<open>The trait \<open>SharedMemoryProvider\<close>: three operations on a state.\<close>

record 's ct_shared_memory_provider =
  smp_create :: "string \<Rightarrow> usize \<Rightarrow> 's \<Rightarrow> (ct_shared_memory_handle, ct_platform_error) result \<times> 's"
  smp_open :: "string \<Rightarrow> 's \<Rightarrow> (ct_shared_memory_handle, ct_platform_error) result \<times> 's"
  smp_unlink :: "string \<Rightarrow> 's \<Rightarrow> (unit, ct_platform_error) result \<times> 's"

subsection \<open>The values that cross process boundaries agree\<close>

fun ct_po :: "pointer_offset \<Rightarrow> ct_pointer_offset" where
  "ct_po (PointerOffset w) = CtPointerOffset w"

fun ct_state :: "channel_state \<Rightarrow> ct_channel_state" where
  "ct_state Creating = CtCreating"
| "ct_state Connected = CtConnected"
| "ct_state Disconnected = CtDisconnected"

text \<open>Offsets are packed as in the contract, the state byte of a channel is the contract's, the magic number
  is, and the same primitive types may be sent.\<close>

theorem shared_values_conform:
  "ct_po (po_new s x) = ct_po_new s x \<and> ct_po_segment_id (ct_po p) = po_segment_id p \<and>
   ct_po_offset (ct_po p) = po_offset p \<and> ct_channel_code (ct_state st) = state_code st \<and>
   MAGIC_NUMBER = CT_MAGIC_NUMBER \<and> builtin_zcs = ct_builtin_zcs"
proof (intro conjI)
  show "ct_po (po_new s x) = ct_po_new s x" by (simp add: po_new_def ct_po_new_def OFFSET_MASK_def)
  show "ct_po_segment_id (ct_po p) = po_segment_id p" "ct_po_offset (ct_po p) = po_offset p"
    by (cases p; simp add: po_segment_id_def po_offset_def OFFSET_MASK_def)+
  show "ct_channel_code (ct_state st) = state_code st" by (cases st) simp_all
qed (simp_all add: MAGIC_NUMBER_def CT_MAGIC_NUMBER_def builtin_zcs_def ct_builtin_zcs_def)

subsection \<open>Configurations\<close>

fun ct_overflow :: "overflow_strategy \<Rightarrow> ct_overflow_strategy" where
  "ct_overflow Overwrite = CtOverwrite"
| "ct_overflow DropNewest = CtDropNewest"
| "ct_overflow Block = CtBlock"

definition ct_pubsub_qos_of :: "pubsub_qos \<Rightarrow> ct_pubsub_qos" where
  "ct_pubsub_qos_of q = \<lparr>ct_history_size = history_size q, ct_max_publishers = max_publishers q,
     ct_max_subscribers = max_subscribers q, ct_subscriber_overflow = ct_overflow (subscriber_overflow q),
     ct_max_loaned_samples = max_loaned_samples q, ct_buffer_size = buffer_size q\<rparr>"

definition ct_event_qos_of :: "event_qos \<Rightarrow> ct_event_qos" where
  "ct_event_qos_of q = \<lparr>ct_max_notifiers = max_notifiers q, ct_max_listeners = max_listeners q\<rparr>"

definition ct_config_of :: "entangle_config \<Rightarrow> ct_config" where
  "ct_config_of c = \<lparr>ct_shm_root = shm_root c, ct_node_name = node_name c,
     ct_default_pubsub_qos = ct_pubsub_qos_of (default_pubsub_qos c),
     ct_default_event_qos = ct_event_qos_of (default_event_qos c)\<rparr>"

lemma ct_overflow_bij: "bij ct_overflow"
proof (rule bijI')
  show "ct_overflow x = ct_overflow y \<longleftrightarrow> x = y" for x y by (cases x; cases y) simp_all
  show "\<exists>x. y = ct_overflow x" for y by (cases y) (metis ct_overflow.simps)+
qed

text \<open>A configuration of the crate is one of the contract, and the other way round.\<close>

lemma ct_config_bij: "bij ct_config_of"
proof (rule bijI')
  note ov = bij_is_inj [OF ct_overflow_bij, THEN inj_eq]
  show "ct_config_of c = ct_config_of d \<longleftrightarrow> c = d" for c d
    by (cases c; cases d) (auto simp: ct_config_of_def ct_pubsub_qos_of_def ct_event_qos_of_def ov
        intro: pubsub_qos.equality event_qos.equality)
  fix d :: ct_config
  obtain st where st: "ct_overflow st = ct_subscriber_overflow (ct_default_pubsub_qos d)"
    using bij_pointE [OF ct_overflow_bij] by metis
  let ?q = "ct_default_pubsub_qos d" and ?e = "ct_default_event_qos d"
  have "d = ct_config_of \<lparr>shm_root = ct_shm_root d, node_name = ct_node_name d,
      default_pubsub_qos = \<lparr>history_size = ct_history_size ?q, max_publishers = ct_max_publishers ?q,
        max_subscribers = ct_max_subscribers ?q, subscriber_overflow = st,
        max_loaned_samples = ct_max_loaned_samples ?q, buffer_size = ct_buffer_size ?q\<rparr>,
      default_event_qos = \<lparr>max_notifiers = ct_max_notifiers ?e, max_listeners = ct_max_listeners ?e\<rparr>\<rparr>"
    by (simp add: ct_config_of_def ct_pubsub_qos_of_def ct_event_qos_of_def st)
  then show "\<exists>c. d = ct_config_of c" by blast
qed

subsection \<open>Errors\<close>

text \<open>What a client written for the contract can see of an error: \<open>None\<close> for an error it does not know.\<close>

fun ct_loan :: "loan_error \<Rightarrow> ct_loan_error" where
  "ct_loan OutOfMemory = CtOutOfMemory"
| "ct_loan (ExceedsMaxLoans n) = CtExceedsMaxLoans n"

fun ct_port_error_of :: "port_error \<Rightarrow> ct_port_error" where
  "ct_port_error_of (LoanErr e) = CtLoan (ct_loan e)"
| "ct_port_error_of (SendErr SendConnectionBroken) = CtSend CtSendConnectionBroken"
| "ct_port_error_of (SendErr QueueFull) = CtSend CtQueueFull"
| "ct_port_error_of (ReceiveErr Empty) = CtReceive CtEmpty"
| "ct_port_error_of (ReceiveErr ReceiveConnectionBroken) = CtReceive CtReceiveConnectionBroken"
| "ct_port_error_of (ConnectionLost peer) = CtConnectionLost peer"

fun ct_platform :: "platform_error \<Rightarrow> ct_platform_error option" where
  "ct_platform (SharedMemoryCreate name reason) = Some (CtSharedMemoryCreate reason)"
| "ct_platform (SharedMemoryOpen name reason) = Some (CtSharedMemoryOpen reason)"
| "ct_platform (FileLockError reason) = Some (CtFileLock reason)"
| "ct_platform (SignalError reason) = Some (CtSignal reason)"
| "ct_platform _ = None"

fun ct_service_error_of :: "service_error \<Rightarrow> ct_service_error option" where
  "ct_service_error_of (AlreadyExists n) = Some (CtAlreadyExists n)"
| "ct_service_error_of (NotFound n) = Some (CtNotFound n)"
| "ct_service_error_of (IncompatibleQos r) = Some (CtIncompatibleQos r)"
| "ct_service_error_of (Corrupted r) = Some (CtCorrupted r)"
| "ct_service_error_of (VersionMismatch a b) = Some (CtVersionMismatch a b)"
| "ct_service_error_of (ServicePlatform e) = None"

fun ct_ipc :: "ipc_error \<Rightarrow> ct_ipc_error option" where
  "ct_ipc (IpcService e) = map_option CtService (ct_service_error_of e)"
| "ct_ipc (IpcPort e) = Some (CtPort (ct_port_error_of e))"
| "ct_ipc (IpcPlatform e) = map_option CtPlatform (ct_platform e)"

lemma ct_port_error_bij: "bij ct_port_error_of"
proof (rule bijI')
  have "ct_loan a = ct_loan b \<longleftrightarrow> a = b" for a b by (cases a; cases b) simp_all
  then show "ct_port_error_of x = ct_port_error_of y \<longleftrightarrow> x = y" for x y
    by (cases x rule: ct_port_error_of.cases; cases y rule: ct_port_error_of.cases) simp_all
  have "\<exists>e. ct_loan e = d" for d by (cases d) (metis ct_loan.simps)+
  then show "\<exists>x. y = ct_port_error_of x" for y
    by (cases y) (metis ct_port_error_of.simps ct_send_error.exhaust ct_receive_error.exhaust)+
qed

text \<open>Which errors leave the contract: every error of a port is one of the contract and the other way round,
  every error of the contract occurs, and the errors of the crates that the contract does not have
  are those of unlinking, of mapping, of events, of the process monitor and of input and output, and
  platform errors reported by the service layer.\<close>

theorem errors_conform:
  "bij ct_port_error_of \<and> (\<forall>e. \<exists>x. ct_ipc x = Some e) \<and>
   (ct_ipc x = None \<longleftrightarrow> (\<exists>e. x = IpcService (ServicePlatform e)) \<or>
      (\<exists>n r. x \<in> IpcPlatform ` {SharedMemoryUnlink n r, Mmap r, EventError r, ProcessMonitorError r, Io r}))"
proof (intro conjI allI)
  show "bij ct_port_error_of" by (rule ct_port_error_bij)
  fix e
  have "\<exists>x. ct_service_error_of x = Some s" for s by (cases s) (metis ct_service_error_of.simps)+
  moreover have "\<exists>x. ct_platform x = Some s" for s by (cases s) (metis ct_platform.simps)+
  moreover have "\<exists>x. ct_port_error_of x = s" for s using bij_pointE [OF ct_port_error_bij] by metis
  ultimately show "\<exists>x. ct_ipc x = Some e"
    by (cases e) (metis ct_ipc.simps option.simps(9))+
next
  show "ct_ipc x = None \<longleftrightarrow> (\<exists>e. x = IpcService (ServicePlatform e)) \<or>
      (\<exists>n r. x \<in> IpcPlatform ` {SharedMemoryUnlink n r, Mmap r, EventError r, ProcessMonitorError r, Io r})"
  proof (cases x)
    case (IpcService e)
    then show ?thesis by (cases e) auto
  next
    case (IpcPlatform e)
    then show ?thesis by (cases e) auto
  qed auto
qed

subsection \<open>The trait IndexAllocator\<close>

locale index_allocator = slot_allocator invar free slots acquire release
  for invar :: "'s \<Rightarrow> bool" and free :: "'s \<Rightarrow> u32 set" and slots :: "'s \<Rightarrow> u32 set"
    and acquire :: "'s \<Rightarrow> ((u32, ct_loan_error) result \<times> 's) option" and release :: "u32 \<Rightarrow> 's \<Rightarrow> 's option" +
  fixes capacity :: "'s \<Rightarrow> u32" and borrowed_count :: "'s \<Rightarrow> u32"
  assumes capacity_law: "invar s \<Longrightarrow> unat (capacity s) = card (slots s)"
    and borrowed_law: "invar s \<Longrightarrow> unat (borrowed_count s) + card (free s) = unat (capacity s)"
begin

lemma acquire_counts:
  assumes "invar s" and "acquire s = Some (r, s')"
  shows "case r of Ok i \<Rightarrow> unat (borrowed_count s') = Suc (unat (borrowed_count s)) | Err _ \<Rightarrow> borrowed_count s = capacity s"
proof (cases r)
  case (Ok i)
  note a = acquire_OkD [OF assms(1) assms(2) [unfolded Ok]]
  have "card (free s) = Suc (card (free s'))" using a finite_free [OF assms(1)] by (metis card.remove)
  moreover have "unat (capacity s') = unat (capacity s)" using a capacity_law assms(1) by metis
  ultimately show ?thesis using Ok a borrowed_law [OF assms(1)] borrowed_law [of s'] by simp
next
  case (Err e)
  have "free s = {}" using acquire_ErrD [OF assms(1) assms(2) [unfolded Err]] by simp
  then show ?thesis using Err borrowed_law [OF assms(1)] by (simp add: unsigned_word_eqI)
qed

lemma acquire_iff:
  assumes "invar s"
  shows "\<exists>r s'. acquire s = Some (r, s') \<and> (is_Ok r \<longleftrightarrow> borrowed_count s < capacity s)"
proof -
  obtain r s' where r: "acquire s = Some (r, s')" "invar s'" "slots s' = slots s" using acquire_total [OF assms] by blast
  have "unat (borrowed_count s') \<le> unat (capacity s)"
    using borrowed_law [OF r(2)] capacity_law [OF r(2)] capacity_law [OF assms] r(3) by simp
  then have "is_Ok r \<longleftrightarrow> borrowed_count s < capacity s"
    using acquire_counts [OF assms r(1)] by (cases r) (auto simp: word_less_nat_alt)
  then show ?thesis using r(1) by blast
qed

end

definition uis_acquire_ct :: "unique_index_set \<Rightarrow> ((u32, ct_loan_error) result \<times> unique_index_set) option" where
  "uis_acquire_ct s = map_option (\<lambda>(r, s). (map_err (\<lambda>_. CtOutOfMemory) r, s)) (uis_acquire s)"

definition mia_acquire_ct :: "mock_index_allocator \<Rightarrow> ((u32, ct_loan_error) result \<times> mock_index_allocator) option" where
  "mia_acquire_ct m = (case mia_acquire m of (None, m) \<Rightarrow> Some (Err CtOutOfMemory, m) | (Some i, m) \<Rightarrow> Some (Ok i, m))"

definition mia_counted :: "mock_index_allocator \<Rightarrow> bool" where
  "mia_counted m \<longleftrightarrow> mia_wf m \<and> mia_borrowed m = mia_capacity m - of_nat (length (mia_free_list m))"

lemma card_indices: "card {..<(n :: u32)} = unat n"
  using card_below [of n] by (simp add: lessThan_def)

interpretation uis_ct: index_allocator uis_wf "\<lambda>s. set (uis_free s)" "\<lambda>s. {..<uis_capacity s}"
  uis_acquire_ct uis_release uis_capacity uis_borrowed_count
proof
  fix s :: unique_index_set and i :: u32
  assume wf: "uis_wf s"
  show "\<exists>i s'. uis_acquire_ct s = Some (Ok i, s') \<and> i \<in> set (uis_free s) \<and> set (uis_free s') = set (uis_free s) - {i} \<and>
      uis_wf s' \<and> {..<uis_capacity s'} = {..<uis_capacity s}" if "set (uis_free s) \<noteq> {}"
    using uis.acquire_free [OF wf that] by (auto simp: uis_acquire_ct_def)
  show "\<exists>e. uis_acquire_ct s = Some (Err e, s)" if "set (uis_free s) = {}"
    using uis.acquire_full [OF wf that] by (auto simp: uis_acquire_ct_def)
  show "unat (uis_capacity s) = card {..<uis_capacity s}" by (rule card_indices [symmetric])
  show "unat (uis_borrowed_count s) + card (set (uis_free s)) = unat (uis_capacity s)"
    using uis_wf_borrowed [OF wf] uis_free_length [OF wf] distinct_card [OF uis_free_distinct [OF wf]]
    by (simp add: uis_borrowed_count_def)
qed (use uis.free_slots uis.release_held in auto)

lemma mia_free_length:
  assumes "mia_wf m"
  shows "length (mia_free_list m) \<le> unat (mia_capacity m)"
proof -
  have "length (mia_free_list m) = card (set (mia_free_list m))" using assms by (simp add: mia_wf_def distinct_card)
  also have "\<dots> \<le> card {..<mia_capacity m}" using assms by (intro card_mono) (auto simp: mia_wf_def)
  finally show ?thesis by (simp add: card_indices)
qed

lemma mia_counted_borrowed:
  assumes "mia_counted m"
  shows "unat (mia_borrowed m) = unat (mia_capacity m) - length (mia_free_list m)"
proof -
  have "length (mia_free_list m) \<le> unat (mia_capacity m)" using assms mia_free_length by (simp add: mia_counted_def)
  then show ?thesis
    using assms unat_of_nat_diff [where ?'a = 32, of "length (mia_free_list m)" "unat (mia_capacity m)"] unat_bound [of "mia_capacity m"]
    by (simp add: mia_counted_def)
qed

interpretation mia_ct: index_allocator mia_counted "\<lambda>m. set (mia_free_list m)" "\<lambda>m. {..<mia_capacity m}"
  mia_acquire_ct "\<lambda>i m. Some (mia_release i m)" mia_capacity mia_borrowed_count
proof
  fix m :: mock_index_allocator and i :: u32
  assume inv: "mia_counted m"
  then have wf: "mia_wf m" by (simp add: mia_counted_def)
  show "\<exists>i m'. mia_acquire_ct m = Some (Ok i, m') \<and> i \<in> set (mia_free_list m) \<and>
      set (mia_free_list m') = set (mia_free_list m) - {i} \<and> mia_counted m' \<and> {..<mia_capacity m'} = {..<mia_capacity m}"
    if free: "set (mia_free_list m) \<noteq> {}"
  proof -
    have "mia_free_list m \<noteq> []" using free by simp
    then obtain xs x where "mia_free_list m = xs @ [x]"
        "mia_acquire m = (Some x, m\<lparr>mia_free_list := xs, mia_borrowed := mia_borrowed m + 1\<rparr>)"
      by (rule mia_split)
    then show ?thesis using inv by (auto simp: mia_counted_def mia_wf_def mia_acquire_ct_def)
  qed
  show "\<exists>e. mia_acquire_ct m = Some (Err e, m)" if "set (mia_free_list m) = {}"
    using that by (simp add: mia_acquire_ct_def mia_acquire_def)
  show "\<exists>m'. Some (mia_release i m) = Some m' \<and> set (mia_free_list m') = insert i (set (mia_free_list m)) \<and>
      mia_counted m' \<and> {..<mia_capacity m'} = {..<mia_capacity m}" if "i \<in> {..<mia_capacity m}" "i \<notin> set (mia_free_list m)"
    using inv that by (simp add: mia_release_def mia_counted_def mia_wf_def)
  show "unat (mia_capacity m) = card {..<mia_capacity m}" by (rule card_indices [symmetric])
  show "unat (mia_borrowed_count m) + card (set (mia_free_list m)) = unat (mia_capacity m)"
    using mia_counted_borrowed [OF inv] mia_free_length [OF wf] wf by (simp add: mia_borrowed_count_def mia_wf_def distinct_card)
qed (auto simp: mia_counted_def mia_wf_def)

text \<open>An index is refused exactly when all of them are out, and every index given out is counted, in the
  lock-free set and in its mock.\<close>

theorem index_allocators_count:
  assumes "uis_wf s" and "mia_counted m"
  shows "(\<exists>r s'. uis_acquire_ct s = Some (r, s') \<and> (is_Ok r \<longleftrightarrow> uis_borrowed_count s < uis_capacity s)) \<and>
    (\<exists>r m'. mia_acquire_ct m = Some (r, m') \<and> (is_Ok r \<longleftrightarrow> mia_borrowed_count m < mia_capacity m))"
  using uis_ct.acquire_iff [OF assms(1)] mia_ct.acquire_iff [OF assms(2)] by blast

subsection \<open>The mock shared memory\<close>

text \<open>\<open>contracts/mock.rs\<close> keeps the address of its buffer in a field, the copy in the platform crate asks the
  buffer for it; \<open>ptr\<close> is the address that the allocation of the buffer gets.\<close>

record mock_shared_memory =
  msm_name :: string
  msm_data :: "u8 list"
  msm_ptr :: u64
  msm_size :: usize

definition msm_create :: "u64 \<Rightarrow> string \<Rightarrow> usize \<Rightarrow> mock_shared_memory" where
  "msm_create ptr name sz =
     \<lparr>msm_name = name, msm_data = replicate (unat sz) 0, msm_ptr = ptr, msm_size = sz\<rparr>"

record platform_mock_memory =
  pmm_name :: string
  pmm_data :: "u8 list"
  pmm_size :: usize

definition pmm_create :: "string \<Rightarrow> usize \<Rightarrow> platform_mock_memory" where
  "pmm_create name sz = \<lparr>pmm_name = name, pmm_data = replicate (unat sz) 0, pmm_size = sz\<rparr>"

record mock_memory_provider =
  mmp_segments :: "string \<rightharpoonup> u8 list"

definition mmp_new :: mock_memory_provider where
  "mmp_new = \<lparr>mmp_segments = Map.empty\<rparr>"

text \<open>A mock segment reads as a real one that has just been created: zeros, as many as asked for. It accepts
  size 0, which the real one refuses.\<close>

theorem mock_memory_agrees:
  "(\<forall>shm mem'. shm_create os name sz mem = (Ok shm, mem') \<longrightarrow>
     read_list (shm_ptr shm) (unat (shm_size shm)) mem' = msm_data (msm_create ptr name sz) \<and>
     shm_size shm = msm_size (msm_create ptr name sz) \<and> sz \<noteq> 0) \<and>
   msm_data (msm_create ptr name sz) = pmm_data (pmm_create name sz)"
proof (intro conjI allI impI)
  fix shm mem'
  assume "shm_create os name sz mem = (Ok shm, mem')"
  note c = shm_create_OkD [OF this]
  show "read_list (shm_ptr shm) (unat (shm_size shm)) mem' = msm_data (msm_create ptr name sz)"
    using c read_write_bytes_inside [of 0 "unat sz" "unat sz" "shm_ptr shm" 0 mem] unat_bound [of sz]
    by (simp add: msm_create_def)
  show "shm_size shm = msm_size (msm_create ptr name sz)" "sz \<noteq> 0" using c by (auto simp: msm_create_def)
qed (simp add: msm_create_def pmm_create_def)

end
