(* ===== verification/Spec2Isabelle.thy ===== *)
theory Spec2Isabelle
  imports
    Index_Set_Conc
    Spsc_Conc
    Mpmc_Conc
    Port_Conc
    Relocatable
    Pub_Sub_Safety
    Port_Lifetimes
    Seqlock_Order
    Lockfree_Tests
    Thread_Tests
    Transport_Tests
    Platform_Tests
    Pub_Sub_Limits
    Req_Res_Safety
    Seqlock
    Segment_Mgr
    Example_Calls
    Example_Threads
    Shared_Contracts
begin

text \<open>
  This development models Entangle, a Rust workspace for zero-copy communication between processes, and
  proves what its components promise each other and their users. Paths below are relative to \<open>src/\<close>.

  \<^bold>\<open>The program.\<close> Four layers and a macro.
  \<^item> \<open>crates/entangle-lockfree\<close>: data structures made of atomics that live in shared memory. A set of
    unique indices (a tagged free list), a single-producer single-consumer ring of 64-bit words, a
    bitset, a container of slots, and self-relative pointers.
  \<^item> \<open>crates/entangle-platform\<close>: POSIX shared memory, file locks, liveness of nodes, event
    notification by eventfd or pipe, and signal flags.
  \<^item> \<open>crates/entangle-transport\<close>: pools of chunks inside a shared segment, packed segment-and-offset
    pointers, a two-way channel that passes such pointers, and segments that grow on demand.
  \<^item> \<open>crates/entangle\<close>: nodes, a file-based service registry, service builders, and the ports of four
    patterns: publish-subscribe, request-response, events and blackboard.
  \<^item> \<open>crates/entangle-derive\<close>: the macro that decides which types may be sent.
  A port loans a chunk from the pool of its segment, writes the payload in place, pushes the chunk's
  offset through a channel, and gets it back through the channel's return queue; a service handle
  holds the wiring by which the ports of one service find each other.

  \<^bold>\<open>Conventions.\<close> A struct is a record, an enum a datatype; every method is one definition with the
  source's guards and early returns, prefixed by the type it belongs to (\<open>uis_\<close>, \<open>spsc_\<close>, \<open>ch_\<close>, \<open>pub_\<close>).
  \<open>usize\<close> is a 64-bit word; arithmetic wraps, as in a release build. A panic is \<open>None\<close> in the option
  monad, \<open>Result\<close> is \<open>('a, 'e) result\<close>, and a call that may wait forever returns \<open>blocking\<close> or \<open>spin\<close>.
  Objects behind an \<open>Arc\<close> are named by their position in a record of the world, so that sharing is
  explicit; mapped memory is a function from addresses to bytes, payloads are lists of bytes.

  \<^bold>\<open>Theories and sources.\<close>
  \<^item> \<open>Entangle_Prelude\<close>: words, results, panics and the lemmas shared by all theories.
  \<^item> \<open>Allocator_Specs\<close>, \<open>Queue_Specs\<close>, \<open>Channel_Specs\<close>, \<open>Directory_Specs\<close>, \<open>Wakeup_Specs\<close>: the interfaces as
    locales. The slot allocator is interpreted by the index set, the pool, the data segment and the
    mock allocator, and extended to a counting one in \<open>Shared_Contracts\<close>; the bounded queue by the ring; the offset channel by the channel; the directory
    of configurations by the registry; the wake-up source by the event notification.
  \<^item> \<open>Tagged_Free_List\<close>, \<open>Index_Set\<close>, \<open>Index_Set_Conc\<close>: \<open>index_set.rs\<close>. Sequential operations refine a stack of
    free indices; \<open>acq_step\<close> and \<open>rel_step\<close> are the loops one atomic access at a time, and any number of
    threads interleave them: an index has one owner, every step linearises, and an undisturbed call
    returns.
  \<^item> \<open>Spsc_Queue\<close>, \<open>Spsc_Conc\<close>: \<open>spsc_queue.rs\<close>, against a bounded list sequentially, and as two
    interleaved threads.
  \<^item> \<open>Atomic_Bitset\<close>, \<open>Mpmc_Container\<close>, \<open>Mpmc_Conc\<close>, \<open>Relocatable\<close>: the remaining files of \<open>entangle-lockfree\<close>,
    against a finite set, a bounded partial map and address arithmetic. \<open>Mpmc_Conc\<close> has any number of
    threads in \<open>add\<close>, \<open>remove\<close> and \<open>get\<close> of the container, one atomic access at a time.
  \<^item> \<open>Transport_Types\<close>, \<open>Pool_Alloc\<close>, \<open>Data_Segment\<close>, \<open>Channel\<close>, \<open>Segment_Mgr\<close>: \<open>entangle-transport\<close>. Chunks are
    disjoint and inside the mapping, offsets survive packing, offsets circulate through a channel
    without loss, and a growing manager keeps outstanding offsets valid.
  \<^item> \<open>Shared_Memory\<close>, \<open>File_System\<close>, \<open>Text_Format\<close>, \<open>Process_Monitor\<close>, \<open>Event_Notification\<close>, \<open>Signals\<close>:
    \<open>entangle-platform\<close> (\<open>shm.rs\<close>, \<open>file_lock.rs\<close>, \<open>process_monitor.rs\<close>, \<open>event.rs\<close>, \<open>signal.rs\<close>) with what it
    uses of the standard library: files, \<open>flock\<close>, formatting.
  \<^item> \<open>Service_Types\<close>, \<open>Service_Registry\<close>, \<open>Services\<close>, \<open>Entangle_Node\<close>: \<open>contracts.rs\<close>, \<open>config.rs\<close>, \<open>error.rs\<close>,
    \<open>service/*.rs\<close> and \<open>node.rs\<close> of \<open>crates/entangle\<close>. Which configurations are admitted under a name, which
    ports a handle connects, when a node is alive, and that nodes and services leave each other's
    files alone.
  \<^item> \<open>Pub_Sub\<close>, \<open>Pub_Sub_Safety\<close>, \<open>Pub_Sub_Limits\<close>: \<open>port/publisher.rs\<close>, \<open>port/subscriber.rs\<close>, \<open>sample.rs\<close>. A transition
    system of whole port operations; its invariant counts in whose custody each chunk is. With one
    subscriber delivery is exact and nothing leaks; \<open>Pub_Sub_Limits\<close> shows what goes wrong with two
    subscribers and with none.
  \<^item> \<open>Port_Conc\<close>: the same ports with a publisher thread and a subscriber thread interleaved at single
    atomic accesses, on the steps of \<open>Spsc_Conc\<close>: samples read as sent, the calls return within a bounded
    number of steps, and what happens when several threads use the samples of one subscriber.
  \<^item> \<open>Port_Lifetimes\<close>: the same ports when the handle, the ports and the samples are dropped in any order. Who
    holds a reference to the segment, when it is unmapped, and which samples are still valid then.
  \<^item> \<open>Req_Res\<close>, \<open>Req_Res_Safety\<close>: \<open>port/client.rs\<close>, \<open>port/server.rs\<close>, with any number of clients.
  \<^item> \<open>Seqlock\<close>, \<open>Blackboard\<close>: \<open>port/writer.rs\<close>, \<open>port/reader.rs\<close>, once byte by byte with readers and the writer
    interleaved and once as whole calls; the two views are proved to agree (\<open>wr_write_runs\<close>). \<open>Seqlock_Order\<close> lets
    stores become visible and loads happen as late or as early as \<open>Release\<close> and \<open>Acquire\<close> allow: a reader gets
    a consistent value where the machine keeps the program order, and can get a mixture where it does not.
    \<open>Seqlock_Limits\<close> shows what a reader can get when two threads share the writer.
  \<^item> \<open>Event_Ports\<close>: \<open>port/notifier.rs\<close>, \<open>port/listener.rs\<close>, \<open>waitset.rs\<close>.
  \<^item> \<open>Derive_Macro\<close>: \<open>entangle-derive\<close>, on the syntax trees of type definitions.
  \<^item> \<open>Mocks\<close>, \<open>Shared_Contracts\<close>: \<open>contracts/mock.rs\<close> and the mock channel, compared with what they stand for;
    \<open>contracts/shared_types.rs\<close>, compared with the copies that the crates keep.
  \<^item> \<open>Examples\<close>, \<open>Example_Calls\<close>, \<open>Example_Threads\<close>: the programs of \<open>crates/entangle/examples\<close> from the node to
    what they print. Publish-subscribe, request-response and the blackboard get through with the
    results they announce, the two-thread program does so under every fair schedule, and the event
    programs hear nothing.
  \<^item> \<open>Lockfree_Tests\<close>, \<open>Thread_Tests\<close>, \<open>Transport_Tests\<close>, \<open>Platform_Tests\<close>: the unit tests inside the source files, as
    programs on the definitions, and that their assertions hold, for those with threads under every
    schedule. They check the definitions against what the authors expect of the code.
  \<^item> This theory: a run through all layers, from the creation of a node to a received sample.

  \<^bold>\<open>Bounds and fuel.\<close> Loops over lists and arrays are structural or have a termination proof. The
  loops that may spin take a number of turns: \<open>return_offset\<close> of a channel, \<open>receive\<close> of a pending
  response and \<open>read\<close> of a blackboard. One turn is enough wherever a theorem says that they return: a
  return queue has room for every chunk of its pool, and a read without a concurrent write copies
  once. The loop of \<open>reclaim\<close> gets one turn more than its queue holds, which is exactly what it needs
  (\<open>reclaim_chan_drains\<close>). The CAS loops are step relations without fuel; that a loop ends when it is not disturbed is a
  theorem with an explicit number of steps. \<open>layout_fits\<close> asks that a segment fits 48-bit offsets and
  that the number of chunks is not the sentinel, which is what the packed pointer and the 32-bit free
  list can hold; \<open>ps_params_ok\<close> and \<open>rr_params_ok\<close> state this for the configuration of a service, and the
  default configuration satisfies them. The 150 rounds of the two-thread example are three turns for
  each of its fifty messages. A tag of the index set or of the container or the counter of a seqlock can wrap;
  the theorems assume that it does not come around within one attempt (\<open>2 ^ 32\<close> operations,
  \<open>2 ^ 63\<close> writes).

  \<^bold>\<open>Assumptions.\<close> Atomic accesses are sequentially consistent and the memory orders of the source are not
  modelled, except for the seqlock in \<open>Seqlock_Order\<close>. Code outside the repository is a parameter: the calls of
  the \<open>nix\<close> crate for shared memory (\<open>nix\<close>), \<open>poll\<close> (\<open>poll_call\<close>, with what its manual says as the hypothesis
  \<open>poll_documented\<close>), the RON serializer (\<open>ron\<close>, assumed to read back what it wrote) and the hasher behind node ids.
  Each of them is instantiated in the witnesses. What files, \<open>flock\<close>, and reading and writing an eventfd or a pipe
  do when they succeed is defined here from their documentation (\<open>File_System\<close>, \<open>Event_Notification\<close>); which of these
  calls fail, and with what error, is a parameter (\<open>io_env\<close>, \<open>ev_os\<close>), and \<open>io_calm\<close> and \<open>ev_calm\<close> say that none does.
  In the two-thread example one turn of a loop is one step of the schedule; \<open>Port_Conc\<close> has the same port
  operations one access at a time.

  \<^bold>\<open>Not modelled.\<close> The platform's \<open>contracts.rs\<close> repeats types that are modelled where they are defined; the
  module files only re-export; methods that return a field are the record's selectors. The parser and
  the token output around the macro are third-party. Reference counts of \<open>Arc\<close> are not
  tracked outside \<open>Port_Lifetimes\<close>: elsewhere a port's segment lives as long as the world. Of the unit tests,
  \<open>double_create_fails\<close> of \<open>shm.rs\<close> is left out, since it tests the operating system, and so are the two
  tests with threads of the slot container. Integration tests
  and benchmarks are not part of the model, numbers in printed lines are not formatted, and
  floating-point values are bit patterns.

  \<^bold>\<open>What could follow.\<close> Weaker memory orders beyond the seqlock; request-response ports interleaved at single
  atomic accesses.
\<close>

subsection \<open>From a node to a sample\<close>

text \<open>C5: from a node to a sample. A process creates a node, opens or creates a
  publish-subscribe service through it and makes a publisher and a subscriber from the handle. Then,
  whatever the two ports do in whatever order, every sample the subscriber holds reads as the bytes it
  was sent with and no two samples share a chunk; and the node is alive, beside exactly the nodes that
  were before.\<close>

theorem node_to_sample:
  assumes "fs_wf fs" and "io_calm env"
    and "nb_create finish src env refuse b fs sg = (Ok nd, fs1, sg1)"
    and "pb_open_or_create rn env' T (ss_publish_subscribe (nd_service nd name)) (new_process fs1 mem) = (Ok h, sw1)"
    and "publisher_create os T (pss_publisher h) sw1 = Some (Ok p, sw2)"
    and "subscriber_create (pss_subscriber h) sw2 = Some (Ok u, sw3)"
    and "ps_params_ok (default_pubsub_qos (nd_config nd)) (ty_size T)"
    and "ps_reach p u (world.truncate (sv_ports sw3)) s"
  shows "(\<forall>a \<in> set (got s). sa_read a (ty_size T) (sw s) = sent s (sa_offset a)) \<and>
    distinct (map smu_offset (loaned s) @ map sa_offset (got s)) \<and>
    alive (shm_root (nb_config b)) (sv_fs sw3) = insert (nd_id nd) (alive (shm_root (nb_config b)) fs)"
proof -
  let ?b = "ss_publish_subscribe (nd_service nd name)" and ?root = "shm_root (nb_config b)"
  note boot = handle_boot [OF assms(4-6)]
  have ok: "ps_params_ok (pb_qos ?b) (ty_size T)"
    using assms(7) by (simp add: ss_publish_subscribe_def pb_new_def nd_service_def)
  have "pub_payload p = ty_size T" using ps_boot_inv [OF boot(1) ok] by simp
  moreover obtain mem d c k where "ps_inv p s mem d c k"
    using ps_reach_inv [OF assms(8)] ps_boot_inv [OF boot(1) ok] by blast
  moreover obtain m where reg: "pm_register env (nd_id nd) ?root fs = (Ok m, fs1)"
    using nb_create_OkD [OF assms(3)] by blast
  moreover have "fs_wf fs1" using register_drop_alive(3) [OF assms(2,1) reg] .
  ultimately show ?thesis
    using ps_inv_integrity boot(2) keeps_alive [OF lc_open_or_create_keeps]
      register_drop_alive(2) [OF assms(2,1) reg] by metis
qed

text \<open>A first run on an empty machine.\<close>

lemma first_ports:
  assumes h: "pb_open_or_create ron_plain io_quiet ty_u64 b (new_process fs1 mem) = (Ok h, sw1)"
    and qos: "pb_qos b = pubsub_qos_default"
  shows "\<exists>p sw2 u sw3. publisher_create nix_ok ty_u64 (pss_publisher h) sw1 = Some (Ok p, sw2) \<and>
    subscriber_create (pss_subscriber h) sw2 = Some (Ok u, sw3)"
proof -
  have hn: "pss_shared h = 0" "length (sv_pubsub sw1) = 1" "ps_publishers (sv_pubsub sw1 ! 0) = []"
      "pss_qos h = pubsub_qos_default"
    using pb_open_or_create_OkD [OF h] qos by (auto simp: pb_handle_def Let_def new_process_def)
  then obtain p sw2 where p: "publisher_create nix_ok ty_u64 (pss_publisher h) sw1 = Some (Ok p, sw2)"
    using plain_publisher [of "pss_publisher h" sw1 ty_u64] ps_params_default by (auto simp: pss_publisher_def ty_u64_def)
  then show ?thesis
    using subscriber_create_one [of "pss_subscriber h" sw2] publisher_create_OkD [OF p] hn
    by (auto simp: pss_subscriber_def pss_publisher_def)
qed

theorem node_to_sample_witness:
  "\<exists>nd fs1 sg1 h sw1 p sw2 u sw3 s a.
    nb_create (\<lambda>_. 5) \<lparr>src_pid = 1, src_nanos = 2, src_thread = 3\<rparr> io_quiet (\<lambda>_. None)
      node_builder_new fs_empty sig_start = (Ok nd, fs1, sg1) \<and>
    pb_open_or_create ron_plain io_quiet ty_u64 (ss_publish_subscribe (nd_service nd ''radar''))
      (new_process fs1 (\<lambda>_. 0)) = (Ok h, sw1) \<and>
    publisher_create nix_ok ty_u64 (pss_publisher h) sw1 = Some (Ok p, sw2) \<and>
    subscriber_create (pss_subscriber h) sw2 = Some (Ok u, sw3) \<and>
    ps_reach p u (world.truncate (sv_ports sw3)) s \<and> a \<in> set (got s) \<and> sa_read a 8 (sw s) = sent s (sa_offset a) \<and>
    alive (shm_root config_default) (sv_fs sw3) = {nd_id nd}"
proof -
  obtain nd fs1 sg1 where nd: "nb_create (\<lambda>_. 5) \<lparr>src_pid = 1, src_nanos = 2, src_thread = 3\<rparr> io_quiet (\<lambda>_. None)
      node_builder_new fs_empty sig_start = (Ok nd, fs1, sg1)"
    using first_node by blast
  let ?b = "ss_publish_subscribe (nd_service nd ''radar'')"
  have cfg: "nd_config nd = config_default" using nb_create_OkD(2) [OF nd] by (simp add: node_builder_new_def)
  have qos: "pb_qos ?b = pubsub_qos_default" "default_pubsub_qos (nd_config nd) = pubsub_qos_default"
    using cfg by (simp_all add: ss_publish_subscribe_def nd_service_def pb_new_def config_default_def)
  obtain h sw1 where h: "pb_open_or_create ron_plain io_quiet ty_u64 ?b (new_process fs1 (\<lambda>_. 0)) = (Ok h, sw1)"
  proof -
    have "is_Ok (fst (pb_open_or_create ron_plain io_quiet ty_u64 ?b (new_process fs1 (\<lambda>_. 0))))"
      using first_service [OF nd] by (simp only: builder_result) (simp add: new_process_def)
    then show thesis using that by (metis is_Ok_iff prod.collapse)
  qed
  obtain p sw2 u sw3 where p: "publisher_create nix_ok ty_u64 (pss_publisher h) sw1 = Some (Ok p, sw2)"
      and u: "subscriber_create (pss_subscriber h) sw2 = Some (Ok u, sw3)"
    using first_ports [OF h qos(1)] by blast
  have par: "ps_params_ok pubsub_qos_default (ty_size ty_u64)" using ps_params_default by (simp add: ty_u64_def)
  note boot = ps_boot_inv [OF handle_boot(1) [OF h p u, unfolded qos(1)] par]
  have "0 < pub_max_loaned p" using boot by (simp add: pubsub_qos_default_def)
  then obtain s where s: "ps_reach p u (world.truncate (sv_ports sw3)) s" "got s \<noteq> []"
    using ps_run_receive boot by blast
  have "alive (shm_root config_default) fs_empty = {}"
    by (simp add: alive_def Process_Monitor.held_def fs_empty_def)
  then have "sa_read (hd (got s)) 8 (sw s) = sent s (sa_offset (hd (got s)))"
      "alive (shm_root config_default) (sv_fs sw3) = {nd_id nd}"
    using node_to_sample [OF fs_wf_empty io_calm_quiet(1) nd h p u, unfolded qos(2), OF par s(1)] s(2)
    by (auto simp: ty_u64_def node_builder_new_def)
  moreover have "hd (got s) \<in> set (got s)" using s(2) by simp
  ultimately show ?thesis using nd h p u s(1) by blast
qed

end
